(* ===== verification/Prelude.thy ===== *)
theory Prelude imports Main "HOL-Library.Word" "HOL-Library.Multiset" begin

text \<open>
  Shared vocabulary of the development: machine-width truncation of the C++ unsigned
  integers, the failure values of the modelled code, a bind for computations that can fail,
  the constants of the on-disk format, and the generic list and map lemmas the components use.

  Unsigned integers are natural numbers; wherever the C++ expression can wrap, or assigns a
  64-bit value to a 32-bit variable, the truncation is written out with \<^verbatim>\<open>u32\<close> and \<^verbatim>\<open>u64\<close>.
\<close>

named_theorems width_simps
named_theorems store_simps

type_synonym byte = "8 word"

definition u32 :: "nat \<Rightarrow> nat" where
  "u32 n = n mod 2 ^ 32"

definition u64 :: "nat \<Rightarrow> nat" where
  "u64 n = n mod 2 ^ 64"

lemma u32_less [simp]: "u32 n < 4294967296"
  by (simp add: u32_def)

lemma u64_less [simp]: "u64 n < 18446744073709551616"
  by (simp add: u64_def)

lemma u32_id [width_simps]: "n < 4294967296 \<Longrightarrow> u32 n = n"
  by (simp add: u32_def)

lemma u64_id [width_simps]: "n < 18446744073709551616 \<Longrightarrow> u64 n = n"
  by (simp add: u64_def)

lemma u32_u32 [simp]: "u32 (u32 n) = u32 n"
  by (simp add: u32_def)

lemma u64_u64 [simp]: "u64 (u64 n) = u64 n"
  by (simp add: u64_def)

lemma u64_u32 [simp]: "u64 (u32 n) = u32 n"
  by (rule u64_id) (rule less_trans [OF u32_less], simp)

lemma u32_le: "u32 n \<le> n"
  by (simp add: u32_def)

lemma u64_le: "u64 n \<le> n"
  by (simp add: u64_def)

text \<open>Adding \<^verbatim>\<open>2^64 - 1\<close> is the decrement of an unsigned 64-bit counter.\<close>

lemma u64_dec [width_simps]: "0 < n \<Longrightarrow> n < 18446744073709551616 \<Longrightarrow> u64 (n + 18446744073709551615) = n - 1"
proof -
  assume n: "0 < n" "n < 18446744073709551616"
  then obtain m where m: "n = Suc m" by (cases n) auto
  have "u64 (n + 18446744073709551615) = (m + 18446744073709551616) mod 18446744073709551616"
    by (simp add: u64_def m)
  also have "\<dots> = m" using n m by (subst mod_add_self2) (rule mod_less, simp)
  finally show ?thesis by (simp add: m)
qed

text \<open>
  How a run of the modelled code can fail: \<^verbatim>\<open>Crash\<close> is the code's own \<^verbatim>\<open>crash()\<close>, \<^verbatim>\<open>Exit\<close> its
  \<^verbatim>\<open>exit(-1)\<close>, \<^verbatim>\<open>Trap\<close> is \<^verbatim>\<open>__builtin_trap\<close>, \<^verbatim>\<open>Blocked\<close> a lock that is held (the caller spins),
  \<^verbatim>\<open>OutOfRange\<close> an access that is undefined behaviour in C++, \<^verbatim>\<open>KeyMissing\<close> the exception
  a hash map throws on a missing key.
\<close>

datatype err = Crash | Exit | Trap | Blocked | OutOfRange | KeyMissing | OutOfFuel

type_synonym 'a res = "err + 'a"

fun bindE :: "'a res \<Rightarrow> ('a \<Rightarrow> 'b res) \<Rightarrow> 'b res" where
  "bindE (Inl e) f = Inl e"
| "bindE (Inr x) f = f x"

lemma bindE_Inr [simp]: "bindE r f = Inr y \<longleftrightarrow> (\<exists>x. r = Inr x \<and> f x = Inr y)"
  by (cases r) auto

lemma bindE_Inl: "bindE r f = Inl e \<longleftrightarrow> r = Inl e \<or> (\<exists>x. r = Inr x \<and> f x = Inl e)"
  by (cases r) auto

lemma bindE_assoc: "bindE (bindE r f) g = bindE r (\<lambda>x. bindE (f x) g)"
  by (cases r) auto

lemma bindE_cong [fundef_cong]:
  "r = r' \<Longrightarrow> (\<And>x. r' = Inr x \<Longrightarrow> f x = g x) \<Longrightarrow> bindE r f = bindE r' g"
  by (cases r') auto

fun mapE :: "('a \<Rightarrow> 'b res) \<Rightarrow> 'a list \<Rightarrow> 'b list res" where
  "mapE f [] = Inr []"
| "mapE f (x # xs) = bindE (f x) (\<lambda>y. bindE (mapE f xs) (\<lambda>ys. Inr (y # ys)))"

fun foldE :: "('a \<Rightarrow> 's \<Rightarrow> 's res) \<Rightarrow> 'a list \<Rightarrow> 's \<Rightarrow> 's res" where
  "foldE f [] s = Inr s"
| "foldE f (x # xs) s = bindE (f x s) (foldE f xs)"

lemma mapE_length: "mapE f xs = Inr ys \<Longrightarrow> length ys = length xs"
  by (induction xs arbitrary: ys) auto

lemma mapE_nth: "mapE f xs = Inr ys \<Longrightarrow> i < length xs \<Longrightarrow> f (xs ! i) = Inr (ys ! i)"
proof (induction xs arbitrary: ys i)
  case (Cons x xs)
  then show ?case by (cases i) auto
qed simp

lemma mapE_total: "(\<And>x. x \<in> set xs \<Longrightarrow> f x = Inr (g x)) \<Longrightarrow> mapE f xs = Inr (map g xs)"
  by (induction xs) auto

lemma foldE_append: "foldE f (xs @ ys) s = bindE (foldE f xs s) (foldE f ys)"
proof (induction xs arbitrary: s)
  case (Cons x xs)
  then show ?case by (cases "f x s") auto
qed simp

lemma foldE_invariant:
  assumes "foldE f xs s = Inr t" and "I s"
    and "\<And>x s s'. x \<in> set xs \<Longrightarrow> I s \<Longrightarrow> f x s = Inr s' \<Longrightarrow> I s'"
  shows "I t"
  using assms
proof (induction xs arbitrary: s)
  case (Cons x xs)
  then obtain s' where "f x s = Inr s'" "foldE f xs s' = Inr t" by auto
  with Cons show ?case by (metis list.set_intros)
qed simp

text \<open>The constants of the on-disk format and of the mapping tables (\<^verbatim>\<open>ssd_index.h\<close>).\<close>

definition SECTOR_LEN :: nat where
  "SECTOR_LEN = 4096"

definition kInvalidID :: nat where
  "kInvalidID = 4294967295"

definition kAllocatedID :: nat where
  "kAllocatedID = 4294967294"

lemma kIDs_distinct [simp]: "kInvalidID \<noteq> kAllocatedID" "kAllocatedID \<noteq> kInvalidID"
  by (simp_all add: kInvalidID_def kAllocatedID_def)

text \<open>\<^verbatim>\<open>DIV_ROUND_UP\<close> and \<^verbatim>\<open>ROUND_UP\<close> of \<^verbatim>\<open>utils.h\<close>.\<close>

definition DIV_ROUND_UP :: "nat \<Rightarrow> nat \<Rightarrow> nat" where
  "DIV_ROUND_UP x y = x div y + (if x mod y \<noteq> 0 then 1 else 0)"

definition ROUND_UP :: "nat \<Rightarrow> nat \<Rightarrow> nat" where
  "ROUND_UP x y = (x div y + (if x mod y \<noteq> 0 then 1 else 0)) * y"

lemma ROUND_UP_alt: "ROUND_UP x y = x div y * y + (if x mod y \<noteq> 0 then y else 0)"
  by (simp add: ROUND_UP_def algebra_simps)

lemma ROUND_UP_bounds:
  assumes "0 < y"
  shows "x \<le> ROUND_UP x y \<and> ROUND_UP x y < x + y"
proof -
  have e: "x div y * y + x mod y = x" by (rule div_mult_mod_eq)
  have m: "x mod y < y" using assms by simp
  have r: "ROUND_UP x y = (if x mod y = 0 then x div y * y else x div y * y + y)"
    by (simp add: ROUND_UP_alt)
  show ?thesis unfolding r using e m assms by (split if_split) linarith
qed

lemmas ROUND_UP_ge = ROUND_UP_bounds [THEN conjunct1]
lemmas ROUND_UP_less = ROUND_UP_bounds [THEN conjunct2]

lemma ROUND_UP_dvd: "y dvd ROUND_UP x y"
  by (simp add: ROUND_UP_def)

text \<open>
  \<^verbatim>\<open>std::unique\<close> after \<^verbatim>\<open>std::sort\<close>: adjacent equal elements are collapsed.
\<close>

definition sort_unique :: "nat list \<Rightarrow> nat list" where
  "sort_unique xs = remdups_adj (sort xs)"

lemma sort_unique_set [simp]: "set (sort_unique xs) = set xs"
  by (simp add: sort_unique_def)

lemma sort_unique_sorted [simp]: "sorted (sort_unique xs)"
  by (simp add: sort_unique_def sorted_remdups_adj)

lemma sorted_remdups_adj_distinct: "sorted xs \<Longrightarrow> distinct (remdups_adj xs)"
  by (induction xs rule: remdups_adj.induct) (auto simp: less_le)

lemma sort_unique_distinct [simp]: "distinct (sort_unique xs)"
  by (simp add: sort_unique_def sorted_remdups_adj_distinct)

lemma sort_unique_strict: "sorted_wrt (<) (sort_unique xs)"
  by (simp add: strict_sorted_iff)

lemma sort_unique_Nil [simp]: "sort_unique [] = []"
  by (simp add: sort_unique_def)

lemma count_list_distinct: "distinct xs \<Longrightarrow> count_list xs x = (if x \<in> set xs then 1 else 0)"
  by (induction xs) auto

lemma filter_all_length: "length (filter P xs) = length xs \<Longrightarrow> x \<in> set xs \<Longrightarrow> P x"
  using length_filter_less [of x xs P] by auto

lemma map_of_upt: "map_of (map (\<lambda>i. (q + i, g i)) [0..<k]) p = (if q \<le> p \<and> p < q + k then Some (g (p - q)) else None)"
  by (induction k) (auto simp: map_add_def split: option.splits)

lemma map_of_rev_distinct: "distinct (map fst xs) \<Longrightarrow> map_of (rev xs) = map_of xs"
proof
  fix x
  assume d: "distinct (map fst xs)"
  then have "distinct (map fst (rev xs))" by (simp add: rev_map [symmetric])
  then have "map_of (rev xs) x = Some y \<longleftrightarrow> map_of xs x = Some y" for y using d by simp
  then show "map_of (rev xs) x = map_of xs x" by (metis option.exhaust)
qed

lemma nth_in_take: "i < K \<Longrightarrow> K \<le> length xs \<Longrightarrow> xs ! i \<in> set (take K xs)"
  by (metis in_set_conv_nth length_take min.absorb2 nth_take)

lemma ball_take: "K \<le> length xs \<Longrightarrow> (\<forall>x \<in> set (take K xs). P x) \<longleftrightarrow> (\<forall>i < K. P (xs ! i))"
  using nth_in_take [of _ K xs] by (fastforce simp: in_set_conv_nth)

text \<open>A fold of updates seen at one address: only the steps that touch the address matter.\<close>

lemma fold_at:
  assumes "\<And>i d. i \<in> set is \<Longrightarrow> step i d x = (if P i then h i (d x) else d x)"
  shows "fold step is d x = fold h (filter P is) (d x)"
  using assms
proof (induction "is" arbitrary: d)
  case (Cons i "is")
  from Cons.IH [of "step i d"] Cons.prems show ?case by simp
qed simp

lemma filter_eq_upt: "filter (\<lambda>i. i = k) [a..<b] = (if a \<le> k \<and> k < b then [k] else [])"
  by (induction b) auto

end
