(* ===== verification/Lock_Table.thy ===== *)
theory Lock_Table imports Prelude begin

text \<open>
  The lock tables of \<^verbatim>\<open>include/v2/lock_table.h\<close> and the multi-key locking helpers of
  \<^verbatim>\<open>include/ssd_index.h\<close>.  A \<^verbatim>\<open>SparseLockTable\<close> is a hash map from keys to a
  \<^verbatim>\<open>pthread_rwlock_t\<close> and a count; its entry is created by the first lock attempt and erased
  by the unlock that brings the count to zero.  A call that finds the lock held returns
  \<^verbatim>\<open>EBUSY\<close>; \<^verbatim>\<open>rdlock\<close> and \<^verbatim>\<open>wrlock\<close> spin on it, which the sequential model shows
  as \<^verbatim>\<open>Blocked\<close>.
\<close>

section \<open>The read-write lock of one entry\<close>

datatype rwlock = Readers nat | Writer

definition EBUSY :: int where
  "EBUSY = 16"

fun pthread_tryrdlock :: "rwlock \<Rightarrow> int \<times> rwlock" where
  "pthread_tryrdlock (Readers n) = (0, Readers (Suc n))"
| "pthread_tryrdlock Writer = (EBUSY, Writer)"

fun pthread_trywrlock :: "rwlock \<Rightarrow> int \<times> rwlock" where
  "pthread_trywrlock (Readers n) = (if n = 0 then (0, Writer) else (EBUSY, Readers n))"
| "pthread_trywrlock Writer = (EBUSY, Writer)"

fun pthread_unlock :: "rwlock \<Rightarrow> rwlock" where
  "pthread_unlock (Readers n) = Readers (n - 1)"
| "pthread_unlock Writer = Readers 0"

fun holders :: "rwlock \<Rightarrow> nat" where
  "holders (Readers n) = n"
| "holders Writer = 1"

section \<open>SparseLockTable\<close>

record lock_entry =
  rw :: rwlock
  cnt :: nat

type_synonym 'k lock_table = "'k \<Rightarrow> lock_entry option"

definition fresh_entry :: lock_entry where
  "fresh_entry = \<lparr>rw = Readers 0, cnt = 0\<rparr>"

definition upsert_entry :: "'k lock_table \<Rightarrow> 'k \<Rightarrow> lock_entry" where
  "upsert_entry t key = (case t key of None \<Rightarrow> fresh_entry | Some v \<Rightarrow> v)"

definition tryrdlock :: "'k \<Rightarrow> 'k lock_table \<Rightarrow> int \<times> 'k lock_table" where
  "tryrdlock key t =
     (let v = upsert_entry t key; (ret, l) = pthread_tryrdlock (rw v)
      in (ret, t(key \<mapsto> \<lparr>rw = l, cnt = (if ret = 0 then cnt v + 1 else cnt v)\<rparr>)))"

definition trywrlock :: "'k \<Rightarrow> 'k lock_table \<Rightarrow> int \<times> 'k lock_table" where
  "trywrlock key t =
     (let v = upsert_entry t key; (ret, l) = pthread_trywrlock (rw v)
      in (ret, t(key \<mapsto> \<lparr>rw = l, cnt = (if ret = 0 then cnt v + 1 else cnt v)\<rparr>)))"

definition rdlock :: "'k \<Rightarrow> 'k lock_table \<Rightarrow> 'k lock_table res" where
  "rdlock key t = (let (ret, t') = tryrdlock key t in if ret \<noteq> 0 then Inl Blocked else Inr t')"

definition wrlock :: "'k \<Rightarrow> 'k lock_table \<Rightarrow> 'k lock_table res" where
  "wrlock key t = (let (ret, t') = trywrlock key t in if ret \<noteq> 0 then Inl Blocked else Inr t')"

definition unlock :: "'k \<Rightarrow> 'k lock_table \<Rightarrow> 'k lock_table res" where
  "unlock key t =
     (case t key of
        None \<Rightarrow> Inr t
      | Some v \<Rightarrow>
          if cnt v = 0 then Inl Trap
          else (let l = pthread_unlock (rw v); c = cnt v - 1
                in Inr (if c = 0 then t(key := None) else t(key \<mapsto> \<lparr>rw = l, cnt = c\<rparr>))))"

definition table_size :: "'k lock_table \<Rightarrow> nat" where
  "table_size t = card (dom t)"

text \<open>What a key's lock is, whether or not the table has an entry for it, and the invariant:
  an entry exists only while the key is held, and its count is the number of holders.\<close>

definition lk :: "'k lock_table \<Rightarrow> 'k \<Rightarrow> rwlock" where
  "lk t key = (case t key of None \<Rightarrow> Readers 0 | Some v \<Rightarrow> rw v)"

definition lt_inv :: "'k lock_table \<Rightarrow> bool" where
  "lt_inv t \<longleftrightarrow> (\<forall>key v. t key = Some v \<longrightarrow> 0 < cnt v \<and> cnt v = holders (rw v))"

lemma lt_inv_empty [simp]: "lt_inv Map.empty"
  by (simp add: lt_inv_def)

lemma lt_invD: "lt_inv t \<Longrightarrow> t key = Some v \<Longrightarrow> 0 < cnt v \<and> cnt v = holders (rw v)"
  unfolding lt_inv_def by blast

lemma lk_free_iff: "lt_inv t \<Longrightarrow> lk t key = Readers 0 \<longleftrightarrow> t key = None"
  by (cases "t key") (auto simp: lk_def dest: lt_invD)

lemma entry_of_lk:
  "lt_inv t \<Longrightarrow> t key = (if lk t key = Readers 0 then None
     else Some \<lparr>rw = lk t key, cnt = holders (lk t key)\<rparr>)"
  by (cases "t key") (auto simp: lk_def dest: lt_invD)

text \<open>Under the invariant the table is determined by the locks it shows.\<close>

lemma lt_inv_ext: "lt_inv t \<Longrightarrow> lt_inv t' \<Longrightarrow> lk t = lk t' \<Longrightarrow> t = t'"
  by (rule ext) (metis entry_of_lk)

lemma rdlock_Inr:
  "lt_inv t \<Longrightarrow> rdlock key t = Inr t' \<longleftrightarrow>
     (\<exists>n. lk t key = Readers n \<and> t' = t(key \<mapsto> \<lparr>rw = Readers (Suc n), cnt = Suc n\<rparr>))"
  by (cases "t key"; cases "lk t key")
    (auto simp: rdlock_def tryrdlock_def upsert_entry_def fresh_entry_def lk_def Let_def EBUSY_def
      dest: lt_invD)

lemma rdlock_Blocked: "rdlock key t = Inl e \<longleftrightarrow> lk t key = Writer \<and> e = Blocked"
  by (cases "t key"; cases "lk t key")
    (auto simp: rdlock_def tryrdlock_def upsert_entry_def fresh_entry_def lk_def Let_def EBUSY_def)

lemma wrlock_Inr:
  "lt_inv t \<Longrightarrow> wrlock key t = Inr t' \<longleftrightarrow>
     lk t key = Readers 0 \<and> t' = t(key \<mapsto> \<lparr>rw = Writer, cnt = 1\<rparr>)"
  by (cases "t key"; cases "lk t key")
    (auto simp: wrlock_def trywrlock_def upsert_entry_def fresh_entry_def lk_def Let_def EBUSY_def
      dest: lt_invD)

lemma wrlock_Blocked: "wrlock key t = Inl e \<longleftrightarrow> lk t key \<noteq> Readers 0 \<and> e = Blocked"
  by (cases "t key"; cases "lk t key")
    (auto simp: wrlock_def trywrlock_def upsert_entry_def fresh_entry_def lk_def Let_def EBUSY_def)

lemma lk_upd [simp]: "lk (t(key \<mapsto> v)) = (lk t)(key := rw v)"
  by (auto simp: lk_def)

lemma lk_erase [simp]: "lk (t(key := None)) = (lk t)(key := Readers 0)"
  by (auto simp: lk_def)

lemma lt_inv_upd: "lt_inv t \<Longrightarrow> 0 < holders l \<Longrightarrow> lt_inv (t(key \<mapsto> \<lparr>rw = l, cnt = holders l\<rparr>))"
  unfolding lt_inv_def by (metis fun_upd_apply lock_entry.select_convs option.inject)

lemma lt_inv_erase: "lt_inv t \<Longrightarrow> lt_inv (t(key := None))"
  unfolding lt_inv_def by (metis fun_upd_apply option.distinct(1))

lemma unlock_Inr:
  assumes "lt_inv t"
  shows "\<exists>t'. unlock key t = Inr t' \<and> lt_inv t' \<and> lk t' = (lk t)(key := pthread_unlock (lk t key))"
proof (cases "t key")
  case None
  then have "lk t key = Readers 0" by (simp add: lk_def)
  then have "lk t = (lk t)(key := pthread_unlock (lk t key))" by (simp add: fun_upd_idem)
  with None assms show ?thesis by (simp add: unlock_def)
next
  case (Some v)
  then have v: "0 < cnt v" "cnt v = holders (rw v)" "lk t key = rw v"
    using lt_invD [OF assms Some] by (auto simp: lk_def)
  show ?thesis
  proof (cases "cnt v = 1")
    case True
    with v have "pthread_unlock (rw v) = Readers 0" by (cases "rw v") auto
    with True v Some assms show ?thesis by (simp add: unlock_def Let_def lt_inv_erase)
  next
    case False
    with v have "cnt v - 1 = holders (pthread_unlock (rw v))" "0 < cnt v - 1"
      by (cases "rw v"; simp)+
    with v Some assms show ?thesis
      by (simp add: unlock_def Let_def lt_inv_upd)
  qed
qed

lemma rdlock_inv: "lt_inv t \<Longrightarrow> rdlock key t = Inr t' \<Longrightarrow> lt_inv t'"
  using lt_inv_upd [of t "Readers (Suc n)" key for n] by (auto simp: rdlock_Inr)

lemma wrlock_inv: "lt_inv t \<Longrightarrow> wrlock key t = Inr t' \<Longrightarrow> lt_inv t'"
  using lt_inv_upd [of t Writer key] by (auto simp: wrlock_Inr)

lemma unlock_inv: "lt_inv t \<Longrightarrow> unlock key t = Inr t' \<Longrightarrow> lt_inv t'"
  using unlock_Inr [of t key] by auto

lemma unlock_lk: "lt_inv t \<Longrightarrow> unlock key t = Inr t' \<Longrightarrow>
    lk t' = (lk t)(key := pthread_unlock (lk t key))"
  using unlock_Inr [of t key] by auto

lemma rdlock_lk: "lt_inv t \<Longrightarrow> rdlock key t = Inr t' \<Longrightarrow>
    \<exists>n. lk t key = Readers n \<and> lk t' = (lk t)(key := Readers (Suc n))"
  by (auto simp: rdlock_Inr)

lemma wrlock_lk: "lt_inv t \<Longrightarrow> wrlock key t = Inr t' \<Longrightarrow>
    lk t key = Readers 0 \<and> lk t' = (lk t)(key := Writer)"
  by (auto simp: wrlock_Inr)

section \<open>Locking several keys (ssd\_index.h)\<close>

definition lockm :: "bool \<Rightarrow> 'k \<Rightarrow> 'k lock_table \<Rightarrow> 'k lock_table res" where
  "lockm rd key t = (if rd then rdlock key t else wrlock key t)"

definition lock_all :: "bool \<Rightarrow> 'k list \<Rightarrow> 'k lock_table \<Rightarrow> 'k lock_table res" where
  "lock_all rd ids t = foldE (lockm rd) ids t"

definition lock_vec :: "nat \<Rightarrow> nat list \<Rightarrow> bool \<Rightarrow> nat lock_table \<Rightarrow> nat lock_table res" where
  "lock_vec target neighbors rd t =
     (let to_lock = sort (neighbors @ (if target \<noteq> kInvalidID then [target] else []))
      in lock_all rd to_lock t)"

definition unlock_vec :: "nat \<Rightarrow> nat list \<Rightarrow> nat lock_table \<Rightarrow> nat lock_table res" where
  "unlock_vec target neighbors t =
     bindE (if target \<noteq> kInvalidID then unlock target t else Inr t) (\<lambda>t. foldE unlock neighbors t)"

definition get_to_lock_idx :: "nat \<Rightarrow> nat list \<Rightarrow> nat list" where
  "get_to_lock_idx target neighbors =
     sort_unique (neighbors @ (if target \<noteq> kInvalidID then [target] else []))"

definition lock_idx ::
    "nat \<Rightarrow> nat list \<Rightarrow> bool \<Rightarrow> nat lock_table \<Rightarrow> (nat list \<times> nat lock_table) res" where
  "lock_idx target neighbors rd t =
     (let to_lock = get_to_lock_idx target neighbors
      in bindE (lock_all rd to_lock t) (\<lambda>t. Inr (to_lock, t)))"

definition unlock_idx :: "nat list \<Rightarrow> nat lock_table \<Rightarrow> nat lock_table res" where
  "unlock_idx to_lock t = foldE unlock to_lock t"

text \<open>\<^verbatim>\<open>lock_page_idx\<close>: the page of each id is read through \<^verbatim>\<open>id2page\<close> first; the whole
  step is skipped unless page search is in use.\<close>

definition lock_page_idx :: "bool \<Rightarrow> (nat \<Rightarrow> nat res) \<Rightarrow> nat \<Rightarrow> nat list \<Rightarrow> bool
    \<Rightarrow> nat lock_table \<Rightarrow> (nat list \<times> nat lock_table) res" where
  "lock_page_idx use_page_search id2page target neighbors rd t =
     (if \<not> use_page_search then Inr ([], t)
      else bindE (mapE id2page (neighbors @ (if target \<noteq> kInvalidID then [target] else [])))
        (\<lambda>pages. let to_lock = sort_unique (map u32 pages)
                 in bindE (lock_all rd to_lock t) (\<lambda>t. Inr (to_lock, t))))"

definition unlock_page_idx :: "bool \<Rightarrow> nat list \<Rightarrow> nat lock_table \<Rightarrow> nat lock_table res" where
  "unlock_page_idx use_page_search to_lock t =
     (if \<not> use_page_search then Inr t else foldE unlock to_lock t)"

text \<open>When a lock can be taken, and what it becomes; both modes at once.\<close>

fun can_acq :: "bool \<Rightarrow> rwlock \<Rightarrow> bool" where
  "can_acq rd (Readers n) = (rd \<or> n = 0)"
| "can_acq rd Writer = False"

fun acq :: "bool \<Rightarrow> rwlock \<Rightarrow> rwlock" where
  "acq rd (Readers n) = (if rd then Readers (Suc n) else Writer)"
| "acq rd Writer = Writer"

lemma unlock_acq [simp]: "can_acq rd l \<Longrightarrow> pthread_unlock (acq rd l) = l"
  by (cases l) auto

lemma lockm_Inr:
  assumes "lt_inv t" "can_acq rd (lk t key)"
  shows "\<exists>t'. lockm rd key t = Inr t' \<and> lt_inv t' \<and> lk t' = (lk t)(key := acq rd (lk t key))"
proof (cases rd)
  case True
  with assms obtain n where n: "lk t key = Readers n" by (cases "lk t key") auto
  then obtain t' where "rdlock key t = Inr t'" using rdlock_Inr [OF assms(1)] by blast
  with n True assms(1) rdlock_inv rdlock_lk show ?thesis by (fastforce simp: lockm_def)
next
  case False
  with assms have n: "lk t key = Readers 0" by (cases "lk t key") auto
  then obtain t' where "wrlock key t = Inr t'" using wrlock_Inr [OF assms(1)] by blast
  with n False assms(1) wrlock_inv wrlock_lk show ?thesis by (fastforce simp: lockm_def)
qed

lemma lockm_Blocked: "\<not> can_acq rd (lk t key) \<Longrightarrow> lockm rd key t = Inl Blocked"
  using rdlock_Blocked [of key t Blocked] wrlock_Blocked [of key t Blocked]
  by (cases "lk t key") (auto simp: lockm_def)

section \<open>The contract of a lock service\<close>

text \<open>
  What the multi-key helpers rely on: taking a lock in a mode either changes exactly the
  view of its key or is refused, releasing undoes it, and the state is determined by what it
  shows.  The lemmas about sequences of keys are proved once from this contract.
\<close>

locale rw_lock_service =
  fixes take_lock :: "bool \<Rightarrow> 'k \<Rightarrow> 't \<Rightarrow> 't res"
    and release :: "'k \<Rightarrow> 't \<Rightarrow> 't res"
    and view :: "'t \<Rightarrow> 'k \<Rightarrow> rwlock"
    and inv :: "'t \<Rightarrow> bool"
  assumes take_free: "inv t \<Longrightarrow> can_acq rd (view t k) \<Longrightarrow>
      \<exists>t'. take_lock rd k t = Inr t' \<and> inv t' \<and> view t' = (view t)(k := acq rd (view t k))"
    and take_held: "\<not> can_acq rd (view t k) \<Longrightarrow> take_lock rd k t = Inl Blocked"
    and release_view: "inv t \<Longrightarrow>
      \<exists>t'. release k t = Inr t' \<and> inv t' \<and> view t' = (view t)(k := pthread_unlock (view t k))"
    and view_ext: "inv t \<Longrightarrow> inv t' \<Longrightarrow> view t = view t' \<Longrightarrow> t = t'"
begin

lemma take_cases:
  assumes "inv t" "take_lock rd k t = Inr t'"
  shows "can_acq rd (view t k) \<and> inv t' \<and> view t' = (view t)(k := acq rd (view t k))"
  using assms take_held [of rd t k] take_free [of t rd k] by fastforce

lemma release_cases: "inv t \<Longrightarrow> release k t = Inr t' \<Longrightarrow>
    inv t' \<and> view t' = (view t)(k := pthread_unlock (view t k))"
  using release_view [of t k] by auto

lemma take_release: "inv t \<Longrightarrow> take_lock rd k t = Inr t' \<Longrightarrow> release k t' = Inr t"
  using release_view [of t' k] take_cases [of t rd k t'] view_ext [of _ t] by fastforce

lemma take_all_view:
  assumes "inv t" "distinct ks" "foldE (take_lock rd) ks t = Inr t'"
  shows "(\<forall>k \<in> set ks. can_acq rd (view t k)) \<and> inv t' \<and>
    view t' = (\<lambda>k. if k \<in> set ks then acq rd (view t k) else view t k)"
  using assms
proof (induction ks arbitrary: t)
  case (Cons k ks)
  then obtain t1 where t1: "take_lock rd k t = Inr t1" "foldE (take_lock rd) ks t1 = Inr t'" by auto
  from take_cases [OF Cons.prems(1) t1(1)]
  have l1: "can_acq rd (view t k)" "inv t1" "view t1 = (view t)(k := acq rd (view t k))" by auto
  from Cons.IH [OF l1(2) _ t1(2)] Cons.prems(2)
  have "(\<forall>k \<in> set ks. can_acq rd (view t1 k)) \<and> inv t' \<and>
    view t' = (\<lambda>k. if k \<in> set ks then acq rd (view t1 k) else view t1 k)" by simp
  with l1 Cons.prems(2) show ?case by (fastforce split: if_splits)
qed simp

lemma take_all_total:
  assumes "inv t" "distinct ks" "\<forall>k \<in> set ks. can_acq rd (view t k)"
  shows "\<exists>t'. foldE (take_lock rd) ks t = Inr t'"
  using assms
proof (induction ks arbitrary: t)
  case (Cons k ks)
  then obtain t1 where t1: "take_lock rd k t = Inr t1" "inv t1" "view t1 = (view t)(k := acq rd (view t k))"
    using take_free [of t rd k] by auto
  with Cons show ?case by auto
qed simp

lemma take_all_Blocked:
  assumes "inv t" "k \<in> set ks" "\<not> can_acq rd (view t k)"
    and mono: "\<And>l. \<not> can_acq rd l \<Longrightarrow> \<not> can_acq rd (acq rd l)"
  shows "foldE (take_lock rd) ks t = Inl Blocked"
  using assms(1-3)
proof (induction ks arbitrary: t)
  case (Cons j ks)
  show ?case
  proof (cases "can_acq rd (view t j)")
    case True
    then obtain t1 where t1: "take_lock rd j t = Inr t1" "inv t1" "view t1 = (view t)(j := acq rd (view t j))"
      using take_free [OF Cons.prems(1)] by blast
    with True Cons.prems have "\<not> can_acq rd (view t1 k)" "k \<in> set ks" by auto
    with Cons.IH t1 show ?thesis by simp
  qed (simp add: take_held)
qed simp

lemma release_all_view:
  assumes "inv t" "distinct ks"
  shows "\<exists>t'. foldE release ks t = Inr t' \<and> inv t' \<and>
    view t' = (\<lambda>k. if k \<in> set ks then pthread_unlock (view t k) else view t k)"
  using assms
proof (induction ks arbitrary: t)
  case (Cons k ks)
  obtain t1 where t1: "release k t = Inr t1" "inv t1" "view t1 = (view t)(k := pthread_unlock (view t k))"
    using release_view [OF Cons.prems(1)] by blast
  with Cons.IH [OF t1(2)] Cons.prems(2) show ?case by (auto simp: fun_eq_iff)
qed (auto simp: fun_eq_iff)

lemma release_all_restores:
  assumes "inv t" "distinct ks" "foldE (take_lock rd) ks t = Inr t'" "distinct js" "set js = set ks"
  shows "foldE release js t' = Inr t"
proof -
  from take_all_view [OF assms(1-3)] have l: "\<forall>k \<in> set ks. can_acq rd (view t k)" "inv t'"
    "view t' = (\<lambda>k. if k \<in> set ks then acq rd (view t k) else view t k)" by auto
  from release_all_view [OF l(2) assms(4)] obtain t'' where t'': "foldE release js t' = Inr t''" "inv t''"
    "view t'' = (\<lambda>k. if k \<in> set js then pthread_unlock (view t' k) else view t' k)" by auto
  have "view t'' = view t" using l t'' assms(5) by (auto simp: fun_eq_iff)
  with view_ext t'' assms(1) show ?thesis by blast
qed

end

interpretation slt: rw_lock_service lockm unlock lk lt_inv
  by standard (simp_all add: lockm_Inr lockm_Blocked unlock_Inr lt_inv_ext)

lemma lock_all_alt: "lock_all rd ks t = foldE (lockm rd) ks t"
  by (simp add: lock_all_def)

text \<open>Locking and unlocking a group of ids whose locks are free.\<close>

lemma lock_unlock_idx:
  assumes "lt_inv t" "\<forall>k \<in> set (get_to_lock_idx target neighbors). can_acq rd (lk t k)"
  shows "\<exists>ks t'. lock_idx target neighbors rd t = Inr (ks, t') \<and> unlock_idx ks t' = Inr t"
proof -
  let ?ks = "get_to_lock_idx target neighbors"
  have d: "distinct ?ks" by (simp add: get_to_lock_idx_def)
  from slt.take_all_total [OF assms(1) d assms(2)] obtain t' where t': "foldE (lockm rd) ?ks t = Inr t'" by blast
  then have "lock_idx target neighbors rd t = Inr (?ks, t')" by (simp add: lock_idx_def Let_def lock_all_alt)
  moreover have "unlock_idx ?ks t' = Inr t"
    using slt.release_all_restores [OF assms(1) d t' d] by (simp add: unlock_idx_def)
  ultimately show ?thesis by blast
qed

section \<open>Properties of the helpers\<close>

text \<open>a successful \<^verbatim>\<open>lock_idx\<close> locks exactly the neighbors and the target, and
  \<^verbatim>\<open>unlock_idx\<close> of what it returned puts the table back exactly as it was: no lock
  stays held and no table entry leaks.\<close>

theorem lock_idx_roundtrip:
  assumes "lt_inv t" "lock_idx target neighbors rd t = Inr (ks, t')"
  shows "unlock_idx ks t' = Inr t \<and> lt_inv t' \<and>
    set ks = set neighbors \<union> (if target \<noteq> kInvalidID then {target} else {}) \<and>
    lk t' = (\<lambda>k. if k \<in> set ks then acq rd (lk t k) else lk t k)"
proof -
  have ks: "ks = get_to_lock_idx target neighbors" "foldE (lockm rd) ks t = Inr t'"
    using assms(2) by (auto simp: lock_idx_def Let_def lock_all_alt)
  have d: "distinct ks" by (simp add: ks(1) get_to_lock_idx_def)
  show ?thesis
    using slt.release_all_restores [OF assms(1) d ks(2) d] slt.take_all_view [OF assms(1) d ks(2)]
    by (auto simp: unlock_idx_def ks(1) get_to_lock_idx_def)
qed

theorem lock_idx_roundtrip_witness:
  "\<exists>t'. lock_idx 7 [3, 9, 3] False Map.empty = Inr ([3, 7, 9], t') \<and>
    unlock_idx [3, 7, 9] t' = Inr Map.empty"
proof -
  have r: "lock_idx 7 [3, 9, 3] False Map.empty =
      Inr ([3, 7, 9], [3 \<mapsto> \<lparr>rw = Writer, cnt = 1\<rparr>, 7 \<mapsto> \<lparr>rw = Writer, cnt = 1\<rparr>, 9 \<mapsto> \<lparr>rw = Writer, cnt = 1\<rparr>])"
    by (simp add: lock_idx_def get_to_lock_idx_def sort_unique_def kInvalidID_def lock_all_def lockm_def
        wrlock_def trywrlock_def upsert_entry_def fresh_entry_def)
  from lock_idx_roundtrip [OF lt_inv_empty r] r show ?thesis by blast
qed

text \<open>C21: \<^verbatim>\<open>lock_idx\<close> succeeds exactly when every requested key can be taken in the table
  as it is; repeating an id, or passing the target among the neighbors, never blocks it on itself.\<close>

theorem lock_idx_succeeds_iff:
  assumes "lt_inv t"
  shows "(\<exists>r. lock_idx target neighbors rd t = Inr r) \<longleftrightarrow>
    (\<forall>k \<in> set (get_to_lock_idx target neighbors). can_acq rd (lk t k))"
proof -
  let ?ks = "get_to_lock_idx target neighbors"
  have d: "distinct ?ks" by (simp add: get_to_lock_idx_def)
  show ?thesis
    using slt.take_all_view [OF assms d, of rd] slt.take_all_total [OF assms d, of rd]
    by (auto simp: lock_idx_def Let_def lock_all_alt)
qed

theorem lock_idx_succeeds_iff_witness:
  "\<exists>r. lock_idx 3 [3, 3, 5] False Map.empty = Inr r"
  using lock_idx_succeeds_iff [of Map.empty 3 "[3, 3, 5]" False] by (simp add: lk_def)

lemma take_all_dup_Blocked:
  assumes "lt_inv t" "\<not> distinct ks"
  shows "foldE (lockm False) ks t = Inl Blocked"
  using assms
proof (induction ks arbitrary: t)
  case (Cons k ks)
  show ?case
  proof (cases "can_acq False (lk t k)")
    case True
    then obtain t1 where t1: "lockm False k t = Inr t1" "lt_inv t1" "lk t1 = (lk t)(k := acq False (lk t k))"
      using slt.take_free [OF Cons.prems(1)] by blast
    have "foldE (lockm False) ks t1 = Inl Blocked"
    proof (cases "distinct ks")
      case True
      then have k: "k \<in> set ks" using Cons.prems(2) by simp
      have a: "\<not> can_acq False l \<Longrightarrow> \<not> can_acq False (acq False l)" for l by (cases l) auto
      have "\<not> can_acq False (lk t1 k)" using t1(3) by (cases "lk t k") auto
      from slt.take_all_Blocked [OF t1(2) k this] a show ?thesis by blast
    next
      case False
      then show ?thesis by (rule Cons.IH [OF t1(2)])
    qed
    with t1 show ?thesis by simp
  qed (simp add: slt.take_held)
qed simp

text \<open>C22: \<^verbatim>\<open>lock_vec\<close> does not remove duplicates: in write mode, a target that is also one
  of the neighbors, or a repeated neighbor, makes the call spin forever on its own lock, whatever
  the table holds.\<close>

theorem lock_vec_self_block:
  assumes "lt_inv t" "target \<noteq> kInvalidID" "target \<in> set neighbors \<or> \<not> distinct neighbors"
  shows "lock_vec target neighbors False t = Inl Blocked"
proof -
  have "\<not> distinct (sort (neighbors @ [target]))" using assms(3) by auto
  from take_all_dup_Blocked [OF assms(1) this] assms(2) show ?thesis
    by (simp add: lock_vec_def Let_def lock_all_alt)
qed

theorem lock_vec_self_block_witness:
  "lock_vec 4 [2, 4] False Map.empty = Inl Blocked"
  by (rule lock_vec_self_block) (simp_all add: kInvalidID_def)

end
