(* ===== verification/Lock_Order.thy ===== *)
theory Lock_Order imports Lock_Table "HOL-Library.Product_Lexorder" begin

text \<open>
  Threads that use the lock tables together.  An insert takes, in this order, write locks of
  the pages it rewrites, of the vectors, of the id mapping and of the page mapping; the beam
  search takes read locks of the id mapping for one frontier.  Each thread is the list of locks it
  still has to take and the list it holds; a step takes the next lock when \<^verbatim>\<open>tryrdlock\<close> or
  \<^verbatim>\<open>trywrlock\<close> succeeds, or, when nothing is left to take, releases one.  The four tables are
  one table over pairs of table number and key.  The theorems show mutual exclusion and, for
  threads whose requests ascend, the absence of deadlock; the burst of \<^verbatim>\<open>pipe_search\<close>, which
  takes read locks in candidate order, is shown to deadlock with an insert.
\<close>

type_synonym lkey = "nat \<times> nat"

datatype plan =
    InsertPlan "nat list" nat "nat list" "nat list"
  | SearchPlan "nat list"
  | PipeBurst "nat list"

definition page_tab :: nat where "page_tab = 0"

definition vec_tab :: nat where "vec_tab = 1"

definition idx_tab :: nat where "idx_tab = 2"

definition page_idx_tab :: nat where "page_idx_tab = 3"

text \<open>The locks a plan takes, in the order the code takes them (\<^verbatim>\<open>lockReqs\<close>, \<^verbatim>\<open>lock_vec\<close>,
  \<^verbatim>\<open>lock_idx\<close>, \<^verbatim>\<open>lock_page_idx\<close> of \<^verbatim>\<open>insert_in_place\<close>; \<^verbatim>\<open>lock_idx\<close> of
  \<^verbatim>\<open>do_beam_search\<close>; one \<^verbatim>\<open>lock_idx\<close> per candidate in \<^verbatim>\<open>send_read_req\<close> of
  \<^verbatim>\<open>pipe_search\<close>).\<close>

definition insert_requests :: "nat list \<Rightarrow> nat \<Rightarrow> nat list \<Rightarrow> nat list \<Rightarrow> (bool \<times> lkey) list" where
  "insert_requests pages target nbrs idx_pages =
     map (\<lambda>p. (False, (page_tab, p))) (sort_unique pages) @
     map (\<lambda>v. (False, (vec_tab, v))) (sort (nbrs @ [target])) @
     map (\<lambda>v. (False, (idx_tab, v))) (get_to_lock_idx target nbrs) @
     map (\<lambda>p. (False, (page_idx_tab, p))) (sort_unique idx_pages)"

definition search_requests :: "nat list \<Rightarrow> (bool \<times> lkey) list" where
  "search_requests frontier = map (\<lambda>v. (True, (idx_tab, v))) (get_to_lock_idx kInvalidID frontier)"

definition pipe_requests :: "nat list \<Rightarrow> (bool \<times> lkey) list" where
  "pipe_requests ids = concat (map (\<lambda>v. map (\<lambda>k. (True, (idx_tab, k))) (get_to_lock_idx v [])) ids)"

fun requests :: "plan \<Rightarrow> (bool \<times> lkey) list" where
  "requests (InsertPlan pages target nbrs idx_pages) = insert_requests pages target nbrs idx_pages"
| "requests (SearchPlan frontier) = search_requests frontier"
| "requests (PipeBurst ids) = pipe_requests ids"

record thread =
  todo :: "(bool \<times> lkey) list"
  held :: "(bool \<times> lkey) list"

record lock_sys =
  tab :: "lkey lock_table"
  thr :: "nat \<Rightarrow> thread"

definition idle_sys :: lock_sys where
  "idle_sys = \<lparr>tab = Map.empty, thr = (\<lambda>_. \<lparr>todo = [], held = []\<rparr>)\<rparr>"

inductive lstep :: "nat \<Rightarrow> lock_sys \<Rightarrow> lock_sys \<Rightarrow> bool" for N where
  acquire: "i < N \<Longrightarrow> todo (thr s i) = (rd, k) # rest \<Longrightarrow> lockm rd k (tab s) = Inr t' \<Longrightarrow>
     lstep N s (s\<lparr>tab := t', thr := (thr s)(i := \<lparr>todo = rest, held = (rd, k) # held (thr s i)\<rparr>)\<rparr>)"
| release: "i < N \<Longrightarrow> todo (thr s i) = [] \<Longrightarrow> held (thr s i) = xs @ (rd, k) # ys \<Longrightarrow>
     unlock k (tab s) = Inr t' \<Longrightarrow>
     lstep N s (s\<lparr>tab := t', thr := (thr s)(i := \<lparr>todo = [], held = xs @ ys\<rparr>)\<rparr>)"

inductive lstart :: "(plan \<Rightarrow> bool) \<Rightarrow> nat \<Rightarrow> lock_sys \<Rightarrow> lock_sys \<Rightarrow> bool" for ok N where
  start: "i < N \<Longrightarrow> todo (thr s i) = [] \<Longrightarrow> held (thr s i) = [] \<Longrightarrow> ok p \<Longrightarrow>
     lstart ok N s (s\<lparr>thr := (thr s)(i := \<lparr>todo = requests p, held = []\<rparr>)\<rparr>)"

inductive lreach :: "(plan \<Rightarrow> bool) \<Rightarrow> nat \<Rightarrow> lock_sys \<Rightarrow> bool" for ok N where
  init: "lreach ok N idle_sys"
| launch: "lreach ok N s \<Longrightarrow> lstart ok N s s' \<Longrightarrow> lreach ok N s'"
| step: "lreach ok N s \<Longrightarrow> lstep N s s' \<Longrightarrow> lreach ok N s'"

inductive_cases lstepE: "lstep N s s'"
inductive_cases lstartE: "lstart ok N s s'"

text \<open>The plans whose requests ascend: a beam search, and an insert whose new neighbors are
  distinct and do not hold the new id.\<close>

fun ascending_plan :: "plan \<Rightarrow> bool" where
  "ascending_plan (InsertPlan pages target nbrs idx_pages) =
     (distinct nbrs \<and> target \<notin> set nbrs \<and> target \<noteq> kInvalidID)"
| "ascending_plan (SearchPlan frontier) = True"
| "ascending_plan (PipeBurst ids) = False"

section \<open>The invariant\<close>

definition n_held :: "nat \<Rightarrow> lock_sys \<Rightarrow> bool \<Rightarrow> lkey \<Rightarrow> nat" where
  "n_held N s rd k = (\<Sum>j<N. count_list (held (thr s j)) (rd, k))"

definition lsys_inv :: "nat \<Rightarrow> lock_sys \<Rightarrow> bool" where
  "lsys_inv N s \<longleftrightarrow> lt_inv (tab s) \<and>
     (\<forall>k. lk (tab s) k = (if n_held N s False k = 0 then Readers (n_held N s True k) else Writer) \<and>
          n_held N s False k \<le> 1 \<and> (n_held N s False k = 1 \<longrightarrow> n_held N s True k = 0))"

lemma lsys_invD:
  assumes "lsys_inv N s"
  shows "lt_inv (tab s)"
    and "lk (tab s) k = (if n_held N s False k = 0 then Readers (n_held N s True k) else Writer)"
    and "n_held N s False k \<le> 1"
    and "n_held N s False k = 1 \<longrightarrow> n_held N s True k = 0"
  using assms unfolding lsys_inv_def by blast+

lemma sum_fun_upd:
  "i < (N::nat) \<Longrightarrow> (\<Sum>j<N. g ((f(i := v)) j)) + g (f i) = (\<Sum>j<N. (g (f j) :: nat)) + g v"
proof -
  assume i: "i < N"
  have "(\<Sum>j<N. h j) = h i + (\<Sum>j\<in>{..<N} - {i}. h j)" for h :: "nat \<Rightarrow> nat"
    using i by (simp add: sum.remove)
  then show ?thesis by simp
qed

lemma n_held_upd:
  "i < N \<Longrightarrow> n_held N (s\<lparr>tab := t, thr := (thr s)(i := v)\<rparr>) rd k + count_list (held (thr s i)) (rd, k)
    = n_held N s rd k + count_list (held v) (rd, k)"
  unfolding n_held_def using sum_fun_upd [of i N "\<lambda>v. count_list (held v) (rd, k)" "thr s" v] by simp

lemma lstep_inv:
  assumes "lstep N s s'" "lsys_inv N s"
  shows "lsys_inv N s'"
  using assms(1)
proof cases
  case (acquire i rd k rest t')
  have t: "can_acq rd (lk (tab s) k)" "lt_inv t'" "lk t' = (lk (tab s))(k := acq rd (lk (tab s) k))"
    using slt.take_cases [OF _ acquire(4)] assms(2) by (auto simp: lsys_inv_def)
  have n: "n_held N s' m j = n_held N s m j + (if (m, j) = (rd, k) then 1 else 0)" for m j
    using n_held_upd [OF acquire(2), where s = s and t = t' and v = "\<lparr>todo = rest, held = (rd, k) # held (thr s i)\<rparr>" and rd = m and k = j]
    unfolding acquire(1) by (auto split: if_splits)
  have s: "tab s' = t'" using acquire(1) by simp
  show ?thesis unfolding lsys_inv_def
  proof (intro conjI allI)
    show "lt_inv (tab s')" using s t by simp
    fix j
    have I: "lk (tab s) j = (if n_held N s False j = 0 then Readers (n_held N s True j) else Writer)"
      "n_held N s False j \<le> 1" "n_held N s False j = 1 \<longrightarrow> n_held N s True j = 0"
      by (rule lsys_invD [OF assms(2)])+
    show "lk (tab s') j = (if n_held N s' False j = 0 then Readers (n_held N s' True j) else Writer)"
      using t I by (cases "j = k"; cases rd) (auto simp: n s split: if_splits)
    show "n_held N s' False j \<le> 1"
      using t I by (cases "j = k"; cases rd) (auto simp: n s split: if_splits)
    show "n_held N s' False j = 1 \<longrightarrow> n_held N s' True j = 0"
      using t I by (cases "j = k"; cases rd) (auto simp: n s split: if_splits)
  qed
next
  case (release i xs rd k ys t')
  have t: "lt_inv t'" "lk t' = (lk (tab s))(k := pthread_unlock (lk (tab s) k))"
    using slt.release_cases [OF _ release(5)] assms(2) by (auto simp: lsys_inv_def)
  have n: "n_held N s m j = n_held N s' m j + (if (m, j) = (rd, k) then 1 else 0)" for m j
    using n_held_upd [OF release(2), where s = s and t = t' and v = "\<lparr>todo = [], held = xs @ ys\<rparr>" and rd = m and k = j] release(4)
    unfolding release(1) by (auto split: if_splits)
  have s: "tab s' = t'" using release(1) by simp
  show ?thesis unfolding lsys_inv_def
  proof (intro conjI allI)
    show "lt_inv (tab s')" using s t by simp
    fix j
    have I: "lk (tab s) j = (if n_held N s False j = 0 then Readers (n_held N s True j) else Writer)"
      "n_held N s False j \<le> 1" "n_held N s False j = 1 \<longrightarrow> n_held N s True j = 0"
      by (rule lsys_invD [OF assms(2)])+
    show "lk (tab s') j = (if n_held N s' False j = 0 then Readers (n_held N s' True j) else Writer)"
      using t I by (cases "j = k"; cases rd) (auto simp: n s split: if_splits)
    show "n_held N s' False j \<le> 1" using I by (auto simp: n split: if_splits)
    show "n_held N s' False j = 1 \<longrightarrow> n_held N s' True j = 0"
      using I by (auto simp: n split: if_splits)
  qed
qed

lemma lstart_inv: "lstart ok N s s' \<Longrightarrow> lsys_inv N s \<Longrightarrow> lsys_inv N s'"
proof (erule lstartE)
  fix i p
  assume i: "i < N" "held (thr s i) = []" "lsys_inv N s"
    and s': "s' = s\<lparr>thr := (thr s)(i := \<lparr>todo = requests p, held = []\<rparr>)\<rparr>"
  have "n_held N s' m j = n_held N s m j" for m j
    unfolding s' n_held_def by (rule sum.cong) (auto simp: i(2))
  with i(3) show ?thesis by (simp add: lsys_inv_def s')
qed

lemma lsys_inv_idle: "lsys_inv N idle_sys"
  by (simp add: lsys_inv_def idle_sys_def n_held_def lk_def)

lemma lreach_inv: "lreach ok N s \<Longrightarrow> lsys_inv N s"
  by (induction rule: lreach.induct) (auto intro: lsys_inv_idle lstart_inv lstep_inv)

text \<open>Each thread's remaining requests ascend, above everything it holds.\<close>

definition ordered_thread :: "thread \<Rightarrow> bool" where
  "ordered_thread v \<longleftrightarrow> sorted_wrt (<) (map snd (todo v)) \<and>
     (\<forall>h \<in> set (held v). \<forall>r \<in> set (todo v). snd h < snd r)"

lemma ordered_requests: "ascending_plan p \<Longrightarrow> sorted_wrt (<) (map snd (requests p))"
proof (cases p)
  case (InsertPlan pages target nbrs idx_pages)
  assume p: "ascending_plan p"
  have s: "sorted_wrt (<) (map (Pair c) xs)" if "sorted_wrt (<) xs" for c :: nat and xs :: "nat list"
    using that by (simp add: sorted_wrt_map less_prod_def)
  have d: "sorted_wrt (<) (sort (nbrs @ [target]))"
    using p InsertPlan by (simp add: strict_sorted_iff)
  have "map snd (requests p) = map (Pair page_tab) (sort_unique pages) @
      map (Pair vec_tab) (sort (nbrs @ [target])) @ map (Pair idx_tab) (get_to_lock_idx target nbrs) @
      map (Pair page_idx_tab) (sort_unique idx_pages)"
    unfolding InsertPlan by (simp add: insert_requests_def del: sort_append)
  then show ?thesis
    using s [OF sort_unique_strict] s [OF d]
    by (auto simp: sorted_wrt_append get_to_lock_idx_def less_prod_def
        page_tab_def vec_tab_def idx_tab_def page_idx_tab_def)
next
  case (SearchPlan frontier)
  then show ?thesis
    by (simp add: search_requests_def get_to_lock_idx_def comp_def sorted_wrt_map less_prod_def
        sort_unique_strict)
qed simp

lemma lstep_ordered:
  "lstep N s s' \<Longrightarrow> \<forall>j. ordered_thread (thr s j) \<Longrightarrow> \<forall>j. ordered_thread (thr s' j)"
proof (erule lstepE)
  fix i rd k rest t'
  assume o: "\<forall>j. ordered_thread (thr s j)" and td: "todo (thr s i) = (rd, k) # rest"
    and s': "s' = s\<lparr>tab := t', thr := (thr s)(i := \<lparr>todo = rest, held = (rd, k) # held (thr s i)\<rparr>)\<rparr>"
  have "ordered_thread \<lparr>todo = rest, held = (rd, k) # held (thr s i)\<rparr>"
    using o [rule_format, of i] td by (auto simp: ordered_thread_def)
  with o s' show ?thesis by simp
next
  fix i xs rd k ys t'
  assume o: "\<forall>j. ordered_thread (thr s j)"
    and s': "s' = s\<lparr>tab := t', thr := (thr s)(i := \<lparr>todo = [], held = xs @ ys\<rparr>)\<rparr>"
  have "ordered_thread \<lparr>todo = [], held = xs @ ys\<rparr>" by (simp add: ordered_thread_def)
  with o s' show ?thesis by simp
qed

lemma lreach_ordered:
  assumes "lreach ok N s" "\<And>p. ok p \<Longrightarrow> ascending_plan p"
  shows "\<forall>j. ordered_thread (thr s j)"
  using assms(1)
proof (induction rule: lreach.induct)
  case init
  show ?case by (simp add: idle_sys_def ordered_thread_def)
next
  case (launch s s')
  from launch(2) launch(3) show ?case
    by (elim lstartE) (auto simp: ordered_thread_def dest!: assms(2) ordered_requests)
next
  case (step s s')
  then show ?case using lstep_ordered by blast
qed

section \<open>Mutual exclusion and deadlock freedom\<close>

lemma count_list_pos: "x \<in> set xs \<Longrightarrow> 0 < count_list xs x"
  using count_list_0_iff [of xs x] by (cases "count_list xs x") auto

lemma finite_max_arg:
  assumes "finite A" "A \<noteq> {}"
  shows "\<exists>j \<in> A. \<forall>j' \<in> A. h j' \<le> (h j :: 'a :: linorder)"
proof -
  have "Max (h ` A) \<in> h ` A" using assms by (intro Max_in) auto
  then obtain j where j: "j \<in> A" "Max (h ` A) = h j" by blast
  have "h j' \<le> h j" if "j' \<in> A" for j'
    unfolding j(2) [symmetric] using assms(1) that by (intro Max_ge) auto
  with j(1) show ?thesis by blast
qed

lemma n_held_ge: "i < N \<Longrightarrow> (rd, k) \<in> set (held (thr s i)) \<Longrightarrow> 0 < n_held N s rd k"
  unfolding n_held_def by (rule sum_pos2 [of _ i]) (auto intro: count_list_pos)

lemma n_held_two:
  assumes "i < N" "j < N" "i \<noteq> j" "(rd, k) \<in> set (held (thr s i))" "(rd, k) \<in> set (held (thr s j))"
  shows "2 \<le> n_held N s rd k"
proof -
  let ?c = "\<lambda>j. count_list (held (thr s j)) (rd, k)"
  have c: "1 \<le> ?c i" "1 \<le> ?c j" using assms(4,5) count_list_0_iff by (metis less_one linorder_not_le)+
  have "sum ?c {i, j} \<le> sum ?c {..<N}" using assms(1,2) by (intro sum_mono2) auto
  with c assms(3) show ?thesis by (simp add: n_held_def)
qed

lemma n_held_some: "0 < n_held N s rd k \<Longrightarrow> \<exists>j<N. (rd, k) \<in> set (held (thr s j))"
proof (rule ccontr)
  assume pos: "0 < n_held N s rd k" and "\<not> (\<exists>j<N. (rd, k) \<in> set (held (thr s j)))"
  then have "\<forall>j\<in>{..<N}. count_list (held (thr s j)) (rd, k) = 0" by (simp add: count_list_0_iff)
  then have "n_held N s rd k = 0" unfolding n_held_def by (rule sum.neutral)
  with pos show False by simp
qed

text \<open>C16: in every reachable state of any number of threads running inserts, searches and
  pipe bursts in any interleaving, a key held for writing is held by one thread only.\<close>

theorem write_lock_exclusive:
  assumes "lreach ok N s" "i < N" "j < N"
    and "(False, k) \<in> set (held (thr s i))" "(rd, k) \<in> set (held (thr s j))"
  shows "i = j"
proof (rule ccontr)
  assume ij: "i \<noteq> j"
  note I = lsys_invD(3,4) [OF lreach_inv [OF assms(1)], of k]
  have w: "n_held N s False k = 1" using I(1) n_held_ge [OF assms(2,4)] by simp
  show False
  proof (cases rd)
    case True
    then have "0 < n_held N s True k" using n_held_ge [OF assms(3), of rd k s] assms(5) by simp
    with w I(2) show False by simp
  next
    case False
    with n_held_two [OF assms(2,3) ij assms(4)] assms(5) w show False by simp
  qed
qed

text \<open>C17: threads that run inserts (with distinct new neighbors) and beam searches, any number
  of them and in any interleaving, never deadlock: while some thread still holds or waits for a
  lock, some thread can take its next lock or release one.\<close>

theorem ascending_deadlock_free:
  assumes "lreach ascending_plan N s" "i < N" "todo (thr s i) \<noteq> [] \<or> held (thr s i) \<noteq> []"
  shows "\<exists>s'. lstep N s s'"
proof (cases "\<exists>j<N. todo (thr s j) = [] \<and> held (thr s j) \<noteq> []")
  case True
  then obtain j rd k ys where j: "j < N" "todo (thr s j) = []" "held (thr s j) = [] @ (rd, k) # ys"
    by (auto simp: neq_Nil_conv)
  obtain t' where "unlock k (tab s) = Inr t'"
    using slt.release_view [OF lsys_invD(1) [OF lreach_inv [OF assms(1)]], of k] by auto
  from lstep.release [OF j this] show ?thesis by blast
next
  case False
  note inv = lreach_inv [OF assms(1)]
  have ord: "ordered_thread (thr s j)" for j using lreach_ordered [OF assms(1)] by blast
  define A where "A = {j. j < N \<and> todo (thr s j) \<noteq> []}"
  have A: "finite A" "A \<noteq> {}" using assms(2,3) False by (auto simp: A_def)
  define h where "h j = snd (hd (todo (thr s j)))" for j
  from finite_max_arg [OF A, of h] obtain j where j: "j \<in> A" "\<forall>j' \<in> A. h j' \<le> h j" ..
  obtain rd k rest where td: "todo (thr s j) = (rd, k) # rest"
    using j(1) by (cases "todo (thr s j)") (auto simp: A_def)
  have "can_acq rd (lk (tab s) k)"
  proof (rule ccontr)
    assume "\<not> can_acq rd (lk (tab s) k)"
    then have "lk (tab s) k \<noteq> Readers 0" by auto
    then have "0 < n_held N s False k \<or> 0 < n_held N s True k"
      using lsys_invD(2) [OF inv, of k] by (auto split: if_splits)
    then obtain m l where l: "l < N" "(m, k) \<in> set (held (thr s l))" using n_held_some by blast
    with False have lA: "l \<in> A" by (auto simp: A_def)
    then obtain r where r: "todo (thr s l) = r # tl (todo (thr s l))"
      by (cases "todo (thr s l)") (auto simp: A_def)
    have "r \<in> set (todo (thr s l))" by (subst r) simp
    then have "k < snd r" using ord [of l] l(2) by (auto simp: ordered_thread_def)
    moreover have "snd r \<le> k" using bspec [OF j(2) lA] td r by (simp add: h_def) (metis list.sel(1))
    ultimately show False by simp
  qed
  then obtain t' where "lockm rd k (tab s) = Inr t'"
    using slt.take_free [OF lsys_invD(1) [OF inv], of rd k] by auto
  from lstep.acquire [OF _ td this] j(1) show ?thesis by (auto simp: A_def)
qed

section \<open>Running a schedule\<close>

definition do_acquire :: "nat \<Rightarrow> lock_sys \<Rightarrow> lock_sys" where
  "do_acquire i s = (case todo (thr s i) of [] \<Rightarrow> s
     | (rd, k) # rest \<Rightarrow> (case lockm rd k (tab s) of Inl e \<Rightarrow> s
         | Inr t' \<Rightarrow> s\<lparr>tab := t', thr := (thr s)(i := \<lparr>todo = rest, held = (rd, k) # held (thr s i)\<rparr>)\<rparr>))"

definition do_start :: "nat \<Rightarrow> plan \<Rightarrow> lock_sys \<Rightarrow> lock_sys" where
  "do_start i p s = s\<lparr>thr := (thr s)(i := \<lparr>todo = requests p, held = []\<rparr>)\<rparr>"

lemma lreach_acquire: "lreach ok N s \<Longrightarrow> i < N \<Longrightarrow> lreach ok N (do_acquire i s)"
  by (auto simp: do_acquire_def split: list.splits sum.splits intro: lreach.step lstep.acquire)

lemma lreach_start: "lreach ok N s \<Longrightarrow> i < N \<Longrightarrow> ok p \<Longrightarrow> todo (thr s i) = [] \<Longrightarrow> held (thr s i) = [] \<Longrightarrow>
    lreach ok N (do_start i p s)"
  unfolding do_start_def by (rule lreach.launch) (auto intro: lstart.start)

lemmas schedule_simps = do_acquire_def do_start_def idle_sys_def insert_requests_def search_requests_def
  pipe_requests_def get_to_lock_idx_def sort_unique_def kInvalidID_def lockm_def wrlock_def trywrlock_def
  rdlock_def tryrdlock_def upsert_entry_def fresh_entry_def
  page_tab_def vec_tab_def idx_tab_def page_idx_tab_def EBUSY_def

theorem write_lock_exclusive_witness:
  "\<exists>s. lreach ascending_plan 1 s \<and> (False, (1, 7)) \<in> set (held (thr s 0)) \<and> (0::nat) = 0"
proof -
  let ?p = "InsertPlan [] 7 [3] []"
  let ?s = "do_acquire 0 (do_acquire 0 (do_start 0 ?p idle_sys))"
  have r: "lreach ascending_plan 1 ?s"
    by (intro lreach_acquire lreach_start lreach.init) (simp_all add: idle_sys_def kInvalidID_def)
  have h: "(False, (1, 7)) \<in> set (held (thr ?s 0))" by (simp add: schedule_simps)
  from write_lock_exclusive [OF r _ _ h h] r h show ?thesis by auto
qed

theorem ascending_deadlock_free_witness:
  "\<exists>s'. lstep 1 (do_start 0 (InsertPlan [] 7 [3] []) idle_sys) s'"
proof (rule ascending_deadlock_free)
  show "lreach ascending_plan 1 (do_start 0 (InsertPlan [] 7 [3] []) idle_sys)"
    by (intro lreach_start lreach.init) (simp_all add: idle_sys_def kInvalidID_def)
qed (simp_all add: schedule_simps)

lemma stuck_if_blocked:
  assumes "\<And>i. i < N \<Longrightarrow> \<exists>rd k rest. todo (thr s i) = (rd, k) # rest \<and> \<not> can_acq rd (lk (tab s) k)"
  shows "\<not> lstep N s s'"
proof
  assume "lstep N s s'"
  then show False
  proof cases
    case (acquire i rd k rest t')
    with assms [of i] slt.take_held [of rd "tab s" k] show False by auto
  next
    case (release i xs rd k ys t')
    with assms [of i] show False by auto
  qed
qed

text \<open>C18: \<^verbatim>\<open>pipe_search\<close> takes the read locks of its first burst in candidate order, not in
  id order, and holds them until it polls.  With an insert that picked two of the burst's
  nodes as neighbors this deadlocks: from idle tables a state is reachable in which both
  threads wait for each other and no step exists.\<close>

theorem pipe_burst_deadlock:
  assumes "a < b" "b < c" "c < kInvalidID"
  shows "\<exists>s. lreach (\<lambda>p. p = PipeBurst [b, a] \<or> p = InsertPlan [] c [a, b] []) 2 s \<and>
    todo (thr s 0) \<noteq> [] \<and> todo (thr s 1) \<noteq> [] \<and> (\<nexists>s'. lstep 2 s s')"
proof -
  let ?s0 = "do_start 1 (InsertPlan [] c [a, b] []) (do_start 0 (PipeBurst [b, a]) idle_sys)"
  let ?s = "do_acquire 1 (do_acquire 1 (do_acquire 1 (do_acquire 1 (do_acquire 0 ?s0))))"
  have r: "lreach (\<lambda>p. p = PipeBurst [b, a] \<or> p = InsertPlan [] c [a, b] []) 2 ?s"
    by (intro lreach_acquire lreach_start lreach.init) (simp_all add: idle_sys_def do_start_def)
  have n: "a \<noteq> 4294967295" "b \<noteq> 4294967295" "c \<noteq> 4294967295" "a \<noteq> b" "b \<noteq> a" "b \<noteq> c" "c \<noteq> b" "a \<noteq> c" "c \<noteq> a"
    "a \<le> b" "b \<le> c" "a \<le> c" "\<not> b \<le> a" "\<not> c \<le> b" "\<not> c \<le> a"
    using assms by (auto simp: kInvalidID_def)
  have t: "todo (thr ?s 0) = [(True, (2, a))]" "todo (thr ?s 1) = [(False, (2, b)), (False, (2, c))]"
    "lk (tab ?s) (2, a) = Writer" "lk (tab ?s) (2, b) = Readers 1"
    using n by (simp_all add: schedule_simps lk_def)
  have "\<not> lstep 2 ?s s'" for s'
    by (rule stuck_if_blocked) (use t in \<open>auto simp: less_2_cases_iff\<close>)
  with r t show ?thesis by (intro exI [of _ ?s]) auto
qed

theorem pipe_burst_deadlock_witness:
  "\<exists>s. lreach (\<lambda>p. p = PipeBurst [5, 3] \<or> p = InsertPlan [] 7 [3, 5] []) 2 s \<and>
    todo (thr s 0) \<noteq> [] \<and> todo (thr s 1) \<noteq> [] \<and> (\<nexists>s'. lstep 2 s s')"
  by (rule pipe_burst_deadlock) (simp_all add: kInvalidID_def)

end
