(* ===== verification/Byte_Mem.thy ===== *)
theory Byte_Mem imports Prelude begin

text \<open>
  Byte-addressed memory: files on disk, I/O buffers and the update buffer are functions from
  addresses to bytes; \<^verbatim>\<open>memcpy\<close>, \<^verbatim>\<open>read\<close> and \<^verbatim>\<open>write\<close> are \<^verbatim>\<open>peek\<close> and \<^verbatim>\<open>poke\<close> of byte
  lists.  Little-endian 32-bit words are the unit of the neighbor lists and headers.
\<close>

type_synonym mem = "nat \<Rightarrow> byte"

definition peek :: "mem \<Rightarrow> nat \<Rightarrow> nat \<Rightarrow> byte list" where
  "peek m a n = map m [a..<a + n]"

definition poke :: "mem \<Rightarrow> nat \<Rightarrow> byte list \<Rightarrow> mem" where
  "poke m a bs = (\<lambda>x. if a \<le> x \<and> x < a + length bs then bs ! (x - a) else m x)"

lemma length_peek [simp]: "length (peek m a n) = n"
  by (simp add: peek_def)

lemma peek_nth: "i < n \<Longrightarrow> peek m a n ! i = m (a + i)"
  by (simp add: peek_def)

lemma peek_0 [simp]: "peek m a 0 = []"
  by (simp add: peek_def)

lemma poke_Nil [simp]: "poke m a [] = m"
  by (rule ext) (auto simp: poke_def)

lemma peek_cong: "(\<And>x. a \<le> x \<Longrightarrow> x < a + n \<Longrightarrow> m x = m' x) \<Longrightarrow> peek m a n = peek m' a n"
  by (simp add: peek_def)

lemma peek_poke_same [store_simps]: "length bs = n \<Longrightarrow> peek (poke m a bs) a n = bs"
  by (auto simp: list_eq_iff_nth_eq peek_nth poke_def)

lemma peek_poke_disjoint:
  "b + n \<le> a \<or> a + length bs \<le> b \<Longrightarrow> peek (poke m a bs) b n = peek m b n"
  by (auto simp: list_eq_iff_nth_eq peek_nth poke_def)

lemma peek_poke_inside:
  "a \<le> b \<Longrightarrow> b + n \<le> a + length bs \<Longrightarrow> peek (poke m a bs) b n = take n (drop (b - a) bs)"
  by (auto simp: list_eq_iff_nth_eq peek_nth poke_def add.commute)

lemma peek_sub: "i + n \<le> k \<Longrightarrow> take n (drop i (peek m a k)) = peek m (a + i) n"
  by (auto simp: list_eq_iff_nth_eq peek_nth add.assoc)

lemma peek_append: "peek m a (n + k) = peek m a n @ peek m (a + n) k"
proof -
  have "[a..<a + (n + k)] = [a..<a + n] @ [a + n..<a + n + k]"
    using upt_add_eq_append [of a "a + n" k] by (simp add: add.assoc)
  then show ?thesis by (simp add: peek_def)
qed

lemma poke_same_peek: "poke m a (peek m a n) = m"
  by (rule ext) (auto simp: poke_def peek_def)

section \<open>Little-endian 32-bit values\<close>

definition le32 :: "nat \<Rightarrow> byte list" where
  "le32 n = [of_nat n, of_nat (n div 256), of_nat (n div 65536), of_nat (n div 16777216)]"

definition un_le32 :: "byte list \<Rightarrow> nat" where
  "un_le32 bs = unat (bs ! 0) + 256 * unat (bs ! 1) + 65536 * unat (bs ! 2) + 16777216 * unat (bs ! 3)"

lemma length_le32 [simp]: "length (le32 n) = 4"
  by (simp add: le32_def)

lemma un_le32_le32 [simp]: "un_le32 (le32 n) = u32 n"
proof -
  define a b c d where "a = n mod 256" and "b = n div 256 mod 256" and "c = n div 65536 mod 256"
    and "d = n div 16777216 mod 256"
  have l: "un_le32 (le32 n) = a + 256 * b + 65536 * c + 16777216 * d"
    by (simp add: un_le32_def le32_def unat_of_nat a_def b_def c_def d_def)
  have m: "x mod (256 * k) = 256 * (x div 256 mod k) + x mod 256" for x k :: nat
    by (rule mod_mult2_eq)
  have "n mod (256 * (256 * (256 * 256))) = a + 256 * b + 65536 * c + 16777216 * d"
    unfolding m a_def b_def c_def d_def by (simp add: div_mult2_eq [symmetric])
  then have "n mod 4294967296 = a + 256 * b + 65536 * c + 16777216 * d" by simp
  then show ?thesis using l by (simp add: u32_def)
qed

lemma un_le32_less: "un_le32 bs < 4294967296"
proof -
  have "unat (x :: byte) < 256" for x using unsigned_less [of x] by simp
  from this [of "bs ! 0"] this [of "bs ! 1"] this [of "bs ! 2"] this [of "bs ! 3"] show ?thesis
    by (simp add: un_le32_def)
qed

definition le64 :: "nat \<Rightarrow> byte list" where
  "le64 n = le32 n @ le32 (n div 4294967296)"

definition un_le64 :: "byte list \<Rightarrow> nat" where
  "un_le64 bs = un_le32 (take 4 bs) + 4294967296 * un_le32 (drop 4 bs)"

lemma length_le64 [simp]: "length (le64 n) = 8"
  by (simp add: le64_def)

lemma un_le64_le64 [simp]: "un_le64 (le64 n) = u64 n"
proof -
  have "un_le64 (le64 n) = n mod 4294967296 + 4294967296 * (n div 4294967296 mod 4294967296)"
    by (simp add: un_le64_def le64_def u32_def)
  also have "\<dots> = n mod (4294967296 * 4294967296)"
    by (subst mod_mult2_eq) simp
  finally show ?thesis by (simp add: u64_def)
qed

text \<open>An array of \<^verbatim>\<open>uint32_t\<close>.\<close>

definition get32 :: "mem \<Rightarrow> nat \<Rightarrow> nat" where
  "get32 m a = un_le32 (peek m a 4)"

definition put32 :: "mem \<Rightarrow> nat \<Rightarrow> nat \<Rightarrow> mem" where
  "put32 m a n = poke m a (le32 n)"

definition get32s :: "mem \<Rightarrow> nat \<Rightarrow> nat \<Rightarrow> nat list" where
  "get32s m a n = map (\<lambda>i. get32 m (a + 4 * i)) [0..<n]"

definition put32s :: "mem \<Rightarrow> nat \<Rightarrow> nat list \<Rightarrow> mem" where
  "put32s m a xs = poke m a (concat (map le32 xs))"

lemma length_concat_le32 [simp]: "length (concat (map le32 xs)) = 4 * length xs"
  by (induction xs) auto

lemma take_drop_concat_le32: "i < length xs \<Longrightarrow> take 4 (drop (4 * i) (concat (map le32 xs))) = le32 (xs ! i)"
proof (induction xs arbitrary: i)
  case (Cons x xs)
  then show ?case by (cases i) auto
qed simp

lemma get32_less [simp]: "get32 m a < 4294967296"
  by (simp add: get32_def un_le32_less)

lemma get32s_less: "x \<in> set (get32s m a n) \<Longrightarrow> x < 4294967296"
  by (auto simp: get32s_def)

lemma length_get32s [simp]: "length (get32s m a n) = n"
  by (simp add: get32s_def)

lemma get32_put32 [store_simps]: "get32 (put32 m a n) a = u32 n"
  by (simp add: get32_def put32_def peek_poke_same)

lemma get32s_put32s [store_simps]: "length xs = n \<Longrightarrow> get32s (put32s m a xs) a n = map u32 xs"
proof (rule nth_equalityI)
  fix i assume n: "length xs = n" and "i < length (get32s (put32s m a xs) a n)"
  then have i: "i < length xs" by simp
  have "peek (poke m a (concat (map le32 xs))) (a + 4 * i) 4 = le32 (xs ! i)"
    using i by (subst peek_poke_inside) (auto simp: take_drop_concat_le32)
  with i n show "get32s (put32s m a xs) a n ! i = map u32 xs ! i"
    by (simp add: get32s_def get32_def put32s_def)
qed simp

lemma get32_cong: "peek m a 4 = peek m' a 4 \<Longrightarrow> get32 m a = get32 m' a"
  by (simp add: get32_def)

lemma get32s_cong: "peek m a (4 * n) = peek m' a (4 * n) \<Longrightarrow> get32s m a n = get32s m' a n"
proof -
  assume e: "peek m a (4 * n) = peek m' a (4 * n)"
  have "peek m (a + 4 * i) 4 = peek m' (a + 4 * i) 4" if "i < n" for i
    using that peek_sub [of "4 * i" 4 "4 * n" m a] peek_sub [of "4 * i" 4 "4 * n" m' a] e by simp
  then show ?thesis by (auto simp: get32s_def intro: get32_cong)
qed

end
