(* ===== verification/Page_Cache.thy ===== *)
theory Page_Cache imports Byte_Mem Lock_Table begin

text \<open>
  The user-space page cache (\<^verbatim>\<open>include/v2/page_cache.h\<close>) and the reads and writes through it
  (\<^verbatim>\<open>include/aligned_file_reader.h\<close>, \<^verbatim>\<open>include/linux_aligned_file_reader.h\<close>,
  \<^verbatim>\<open>src/utils/linux_aligned_file_reader.cpp\<close>, \<^verbatim>\<open>flush_page_cache\<close> of
  \<^verbatim>\<open>src/ssd_index.cpp\<close>).  A page is \<^verbatim>\<open>SECTOR_LEN\<close> bytes; a cached page carries a reference
  count and is dropped when the count returns to zero.  The index file and the I/O buffers are
  byte memories; a kernel I/O is taken to transfer all of its bytes.
\<close>

record cache_item =
  ci_buf :: "byte list"
  ci_ref :: nat

type_synonym page_cache = "nat \<Rightarrow> cache_item option"

record io_req =
  r_offset :: nat
  r_len :: nat
  r_buf :: nat
  r_u_offset :: nat
  r_u_len :: nat

definition item_ref :: "cache_item \<Rightarrow> cache_item" where
  "item_ref v = v\<lparr>ci_ref := u64 (ci_ref v + 1)\<rparr>"

definition item_deref :: "cache_item \<Rightarrow> cache_item" where
  "item_deref v = v\<lparr>ci_ref := u64 (ci_ref v + 18446744073709551615)\<rparr>"

definition cache_get :: "nat \<Rightarrow> bool \<Rightarrow> page_cache \<Rightarrow> byte list option \<times> page_cache" where
  "cache_get block_no ref c =
     (case c block_no of None \<Rightarrow> (None, c)
      | Some v \<Rightarrow> (Some (ci_buf v), if ref then c(block_no \<mapsto> item_ref v) else c))"

definition cache_put :: "nat \<Rightarrow> byte list \<Rightarrow> bool \<Rightarrow> page_cache \<Rightarrow> bool \<times> page_cache" where
  "cache_put block_no bytes ref c =
     (let v = (case c block_no of None \<Rightarrow> \<lparr>ci_buf = replicate SECTOR_LEN 0, ci_ref = 0\<rparr> | Some v \<Rightarrow> v);
          v1 = (if ref then item_ref v else v)
      in (c block_no = None, c(block_no \<mapsto> v1\<lparr>ci_buf := bytes\<rparr>)))"

text \<open>A missing block is reported and, through \<^verbatim>\<open>uprase_fn\<close>, inserted and erased again.\<close>

definition cache_deref :: "nat \<Rightarrow> page_cache \<Rightarrow> bool \<times> page_cache" where
  "cache_deref block_no c =
     (case c block_no of None \<Rightarrow> (True, c)
      | Some v \<Rightarrow> (let v' = item_deref v
                   in (False, if ci_ref v' = 0 then c(block_no := None) else c(block_no \<mapsto> v'))))"

definition cache_clear :: "page_cache \<Rightarrow> page_cache" where
  "cache_clear c = Map.empty"

section \<open>Reads and writes\<close>

definition read_io :: "mem \<Rightarrow> io_req list \<Rightarrow> mem \<Rightarrow> mem" where
  "read_io file reqs bufs = fold (\<lambda>r m. poke m (r_buf r) (peek file (r_offset r) (r_len r))) reqs bufs"

definition write_io :: "mem \<Rightarrow> io_req list \<Rightarrow> mem \<Rightarrow> mem" where
  "write_io bufs reqs file = fold (\<lambda>r f. poke f (r_offset r) (peek bufs (r_buf r) (r_len r))) reqs file"

text \<open>\<^verbatim>\<open>read_alloc\<close>: first every request is looked up in the cache (taking a reference on a hit),
  then the misses are read from disk and put into the cache, then the pages are recorded.\<close>

fun probe_cache :: "io_req list \<Rightarrow> page_cache \<times> mem \<Rightarrow> (io_req list \<times> page_cache \<times> mem) res" where
  "probe_cache [] (c, m) = Inr ([], c, m)"
| "probe_cache (r # rs) (c, m) =
     (if r_offset r mod SECTOR_LEN \<noteq> 0 then Inl Crash
      else (case cache_get (r_offset r div SECTOR_LEN) True c of
              (None, c1) \<Rightarrow> bindE (probe_cache rs (c1, m)) (\<lambda>(miss, c2, m2). Inr (r # miss, c2, m2))
            | (Some b, c1) \<Rightarrow> probe_cache rs (c1, poke m (r_buf r) b)))"

definition fill_cache :: "mem \<Rightarrow> io_req list \<Rightarrow> page_cache \<Rightarrow> page_cache" where
  "fill_cache bufs reqs c =
     fold (\<lambda>r c. snd (cache_put (r_offset r div SECTOR_LEN) (peek bufs (r_buf r) SECTOR_LEN) True c)) reqs c"

definition read_alloc :: "mem \<Rightarrow> io_req list \<Rightarrow> page_cache \<times> mem \<times> nat list \<Rightarrow> (page_cache \<times> mem \<times> nat list) res" where
  "read_alloc file reqs = (\<lambda>(c, m, page_ref).
     bindE (probe_cache reqs (c, m)) (\<lambda>(miss, c1, m1).
       let (c2, m2) = (if miss \<noteq> [] then (let m2 = read_io file miss m1 in (fill_cache m2 miss c1, m2))
                       else (c1, m1))
       in Inr (c2, m2, page_ref @ map (\<lambda>r. r_offset r div SECTOR_LEN) reqs)))"

text \<open>\<^verbatim>\<open>send_read_no_alloc\<close> of one request: served from the cache without a reference, else the
  disk read is issued (second component).\<close>

definition send_read_no_alloc :: "io_req \<Rightarrow> page_cache \<times> mem \<Rightarrow> mem \<times> io_req list" where
  "send_read_no_alloc req = (\<lambda>(c, m).
     (case fst (cache_get (r_offset req div SECTOR_LEN) False c) of
        None \<Rightarrow> (m, [req]) | Some b \<Rightarrow> (poke m (r_buf req) b, [])))"

fun send_reads_no_alloc :: "io_req list \<Rightarrow> page_cache \<times> mem \<Rightarrow> mem \<times> io_req list" where
  "send_reads_no_alloc [] (c, m) = (m, [])"
| "send_reads_no_alloc (r # rs) (c, m) =
     (case fst (cache_get (r_offset r div SECTOR_LEN) False c) of
        None \<Rightarrow> (let (m', disk) = send_reads_no_alloc rs (c, m) in (m', r # disk))
      | Some b \<Rightarrow> send_reads_no_alloc rs (c, poke m (r_buf r) b))"

text \<open>The sectors of a request: \<^verbatim>\<open>for (i = 0; i < req.len; i += SECTOR_LEN)\<close>.\<close>

definition req_sectors :: "io_req \<Rightarrow> (nat \<times> nat) list" where
  "req_sectors r = map (\<lambda>k. ((r_offset r + k * SECTOR_LEN) div SECTOR_LEN, r_buf r + k * SECTOR_LEN))
     [0..<DIV_ROUND_UP (r_len r) SECTOR_LEN]"

definition wbc_write :: "mem \<Rightarrow> io_req list \<Rightarrow> page_cache \<times> nat list \<Rightarrow> page_cache \<times> nat list" where
  "wbc_write bufs reqs = (\<lambda>(c, page_ref).
     let secs = concat (map req_sectors reqs)
     in (fold (\<lambda>(p, a) c. snd (cache_put p (peek bufs a SECTOR_LEN) True c)) secs c, page_ref @ map fst secs))"

definition deref_pages :: "nat list \<Rightarrow> page_cache \<Rightarrow> page_cache" where
  "deref_pages page_ref c = fold (\<lambda>x c. snd (cache_deref x c)) page_ref c"

definition lockReqs :: "io_req list \<Rightarrow> nat lock_table \<Rightarrow> (nat list \<times> nat lock_table) res" where
  "lockReqs reqs t =
     (let ret = sort_unique (map fst (concat (map req_sectors reqs)))
      in bindE (lock_all False ret t) (\<lambda>t. Inr (ret, t)))"

definition unlockReqs :: "nat list \<Rightarrow> nat lock_table \<Rightarrow> nat lock_table res" where
  "unlockReqs reqs t = foldE unlock reqs t"

text \<open>\<^verbatim>\<open>flush_page_cache\<close>: every cached page is copied to a one-sector buffer and written; the
  hash table's iteration order is the list \<^verbatim>\<open>order\<close>.  Its callers have waited for the writers, and no
  one else reads or writes meanwhile.\<close>

definition flush_page_cache :: "nat list \<Rightarrow> page_cache \<Rightarrow> mem \<Rightarrow> page_cache \<times> mem" where
  "flush_page_cache order c file =
     (cache_clear c,
      fold (\<lambda>page_no f. case c page_no of None \<Rightarrow> f
              | Some v \<Rightarrow> poke f (page_no * SECTOR_LEN) (take SECTOR_LEN (ci_buf v))) order file)"

section \<open>What a reader sees\<close>

definition disk_page :: "mem \<Rightarrow> nat \<Rightarrow> byte list" where
  "disk_page file p = peek file (p * SECTOR_LEN) SECTOR_LEN"

definition page_view :: "page_cache \<Rightarrow> mem \<Rightarrow> nat \<Rightarrow> byte list" where
  "page_view c file p = (case c p of None \<Rightarrow> disk_page file p | Some v \<Rightarrow> ci_buf v)"

definition pins :: "page_cache \<Rightarrow> nat \<Rightarrow> nat" where
  "pins c p = (case c p of None \<Rightarrow> 0 | Some v \<Rightarrow> ci_ref v)"

definition cache_inv :: "page_cache \<Rightarrow> bool" where
  "cache_inv c \<longleftrightarrow> (\<forall>p v. c p = Some v \<longrightarrow>
     length (ci_buf v) = SECTOR_LEN \<and> 0 < ci_ref v \<and> ci_ref v < 18446744073709551616)"

lemma cache_invD: "cache_inv c \<Longrightarrow> c p = Some v \<Longrightarrow>
    length (ci_buf v) = SECTOR_LEN \<and> 0 < ci_ref v \<and> ci_ref v < 18446744073709551616"
  unfolding cache_inv_def by blast

lemma cache_inv_empty [simp]: "cache_inv Map.empty"
  by (simp add: cache_inv_def)

lemma cache_inv_upd: "cache_inv c \<Longrightarrow> length (ci_buf v) = SECTOR_LEN \<Longrightarrow> 0 < ci_ref v \<Longrightarrow>
    ci_ref v < 18446744073709551616 \<Longrightarrow> cache_inv (c(p \<mapsto> v))"
  unfolding cache_inv_def by (metis fun_upd_apply option.inject)

lemma cache_inv_erase: "cache_inv c \<Longrightarrow> cache_inv (c(p := None))"
  unfolding cache_inv_def by (metis fun_upd_apply option.distinct(1))

lemma pins_0: "cache_inv c \<Longrightarrow> pins c p = 0 \<longleftrightarrow> c p = None"
  by (cases "c p") (auto simp: pins_def dest: cache_invD)

lemma page_view_length: "cache_inv c \<Longrightarrow> length (page_view c file p) = SECTOR_LEN"
  by (cases "c p") (auto simp: page_view_def disk_page_def dest: cache_invD)

lemma cache_ext: "cache_inv c \<Longrightarrow> cache_inv c' \<Longrightarrow> pins c = pins c' \<Longrightarrow>
    page_view c file = page_view c' file \<Longrightarrow> c = c'"
proof
  fix p
  assume a: "cache_inv c" "cache_inv c'" "pins c = pins c'" "page_view c file = page_view c' file"
  then have "pins c p = pins c' p" "page_view c file p = page_view c' file p" by simp_all
  with pins_0 [OF a(1), of p] pins_0 [OF a(2), of p] show "c p = c' p"
    by (cases "c p"; cases "c' p") (auto simp: pins_def page_view_def)
qed

section \<open>The contract of a pinned page store\<close>

text \<open>
  What insert, search and commit rely on: putting a page pins it and makes it visible,
  dropping a pin leaves the view alone unless it was the last, when the backing store shows
  again.
\<close>

locale page_store =
  fixes put :: "nat \<Rightarrow> byte list \<Rightarrow> 'c \<Rightarrow> 'c"
    and drop_pin :: "nat \<Rightarrow> 'c \<Rightarrow> 'c"
    and view :: "'c \<Rightarrow> nat \<Rightarrow> byte list"
    and pin_count :: "'c \<Rightarrow> nat \<Rightarrow> nat"
    and backing :: "nat \<Rightarrow> byte list"
    and ok :: "'c \<Rightarrow> bool"
  assumes put_ok: "ok c \<Longrightarrow> length b = SECTOR_LEN \<Longrightarrow> pin_count c p < 18446744073709551615 \<Longrightarrow>
      ok (put p b c) \<and> view (put p b c) = (view c)(p := b) \<and>
      pin_count (put p b c) = (pin_count c)(p := pin_count c p + 1)"
    and drop_ok: "ok c \<Longrightarrow> ok (drop_pin p c) \<and>
      pin_count (drop_pin p c) = (pin_count c)(p := pin_count c p - 1) \<and>
      view (drop_pin p c) = (if pin_count c p = 1 then (view c)(p := backing p) else view c)"
    and unpinned: "ok c \<Longrightarrow> pin_count c p = 0 \<Longrightarrow> view c p = backing p"
begin

lemma drop_all_pins:
  "ok c \<Longrightarrow> ok (fold drop_pin ps c) \<and> pin_count (fold drop_pin ps c) = (\<lambda>p. pin_count c p - count_list ps p)"
proof (induction ps arbitrary: c)
  case (Cons p ps)
  from drop_ok [OF Cons.prems, of p] Cons.IH [of "drop_pin p c"] show ?case
    by (auto simp: fun_eq_iff)
qed (simp add: fun_eq_iff)

text \<open>Dropping pins of clean pages shows nothing new.\<close>

lemma drop_all_view:
  assumes "ok c" "\<forall>p \<in> set ps. pin_count c p \<le> count_list ps p \<longrightarrow> view c p = backing p"
  shows "view (fold drop_pin ps c) = view c"
  using assms
proof (induction ps arbitrary: c)
  case (Cons p ps)
  have d: "ok (drop_pin p c)" "pin_count (drop_pin p c) = (pin_count c)(p := pin_count c p - 1)"
    using drop_ok [OF Cons.prems(1), of p] by auto
  have v: "view (drop_pin p c) = view c"
  proof (cases "pin_count c p = 1")
    case True
    then have "pin_count c p \<le> count_list (p # ps) p" by simp
    then have "view c p = backing p" using Cons.prems(2) by simp
    then show ?thesis using drop_ok [OF Cons.prems(1), of p] by (auto simp: fun_eq_iff)
  next
    case False
    then show ?thesis using drop_ok [OF Cons.prems(1), of p] by simp
  qed
  have "\<forall>q \<in> set ps. pin_count (drop_pin p c) q \<le> count_list ps q \<longrightarrow> view (drop_pin p c) q = backing q"
  proof (intro ballI impI)
    fix q assume q: "q \<in> set ps" "pin_count (drop_pin p c) q \<le> count_list ps q"
    show "view (drop_pin p c) q = backing q"
    proof (cases "q = p")
      case True
      with q have "pin_count c p \<le> count_list (p # ps) p" unfolding d(2) by simp
      with True v Cons.prems(2) show ?thesis by simp
    next
      case False
      with q have "pin_count c q \<le> count_list (p # ps) q" unfolding d(2) by simp
      with q v Cons.prems(2) show ?thesis by simp
    qed
  qed
  from Cons.IH [OF d(1) this] v show ?case by simp
qed simp

lemma put_all_distinct:
  assumes "ok c" "distinct (map fst pbs)" "\<forall>(p, b) \<in> set pbs. length b = SECTOR_LEN \<and> pin_count c p < 18446744073709551615"
  shows "ok (fold (\<lambda>(p, b). put p b) pbs c) \<and>
    view (fold (\<lambda>(p, b). put p b) pbs c) = (\<lambda>p. case map_of pbs p of None \<Rightarrow> view c p | Some b \<Rightarrow> b) \<and>
    pin_count (fold (\<lambda>(p, b). put p b) pbs c) = (\<lambda>p. pin_count c p + (if p \<in> fst ` set pbs then 1 else 0))"
  using assms
proof (induction pbs arbitrary: c)
  case (Cons pb pbs)
  obtain p b where pb: "pb = (p, b)" by (cases pb)
  with Cons.prems have h: "length b = SECTOR_LEN" "pin_count c p < 18446744073709551615" "p \<notin> fst ` set pbs"
    by auto
  from put_ok [OF Cons.prems(1) h(1,2)]
  have p1: "ok (put p b c)" "view (put p b c) = (view c)(p := b)"
    "pin_count (put p b c) = (pin_count c)(p := pin_count c p + 1)" by auto
  have n: "\<forall>(q, b') \<in> set pbs. length b' = SECTOR_LEN \<and> pin_count (put p b c) q < 18446744073709551615"
  proof (intro ballI, clarify, intro conjI)
    fix q b' assume q: "(q, b') \<in> set pbs"
    with Cons.prems(3) have "length b' = SECTOR_LEN \<and> pin_count c q < 18446744073709551615" by fastforce
    moreover from q h(3) have "q \<noteq> p" by (metis fst_conv image_eqI)
    ultimately show "length b' = SECTOR_LEN" "pin_count (put p b c) q < 18446744073709551615"
      by (simp_all add: p1(3))
  qed
  have mp: "map_of pbs p = None" using h(3) by (simp add: map_of_eq_None_iff)
  from Cons.prems(2) have "distinct (map fst pbs)" by simp
  from Cons.IH [OF p1(1) this n] p1 h(3) mp show ?case
    by (simp add: pb fun_eq_iff split: option.split)
qed simp

end

interpretation pc: page_store "\<lambda>p b c. snd (cache_put p b True c)" "\<lambda>p c. snd (cache_deref p c)"
  "\<lambda>c. page_view c f" pins "disk_page f" cache_inv for f
proof (standard, goal_cases)
  case (1 c b p)
  then show ?case
    by (cases "c p") (auto simp: cache_put_def Let_def item_ref_def page_view_def pins_def fun_eq_iff
        u64_id intro!: cache_inv_upd dest: cache_invD)
next
  case (2 c p)
  show ?case
  proof (cases "c p")
    case None
    then show ?thesis using 2 by (auto simp: cache_deref_def pins_def fun_eq_iff)
  next
    case (Some v)
    then have v: "0 < ci_ref v" "ci_ref v < 18446744073709551616" "length (ci_buf v) = SECTOR_LEN"
      using 2 cache_invD by blast+
    then have d: "item_deref v = v\<lparr>ci_ref := ci_ref v - 1\<rparr>" by (simp add: item_deref_def u64_dec)
    show ?thesis
    proof (cases "ci_ref v = 1")
      case True
      then show ?thesis using 2 Some
        by (auto simp: cache_deref_def Let_def d pins_def page_view_def fun_eq_iff intro: cache_inv_erase)
    next
      case False
      then show ?thesis using 2 Some v
        by (auto simp: cache_deref_def Let_def d pins_def page_view_def fun_eq_iff intro!: cache_inv_upd)
    qed
  qed
next
  case (3 c p)
  then show ?case by (simp add: pins_0 page_view_def)
qed

section \<open>read\_alloc\<close>

abbreviation req_page :: "io_req \<Rightarrow> nat" where
  "req_page r \<equiv> r_offset r div SECTOR_LEN"

definition outside :: "nat \<Rightarrow> io_req \<Rightarrow> bool" where
  "outside x r \<longleftrightarrow> x < r_buf r \<or> r_buf r + SECTOR_LEN \<le> x"

text \<open>The requests of one batch: whole aligned sectors, into buffers that do not overlap.\<close>

definition sector_reqs :: "io_req list \<Rightarrow> bool" where
  "sector_reqs reqs \<longleftrightarrow> (\<forall>r \<in> set reqs. r_offset r mod SECTOR_LEN = 0 \<and> r_len r = SECTOR_LEN) \<and>
     sorted_wrt (\<lambda>r s. r_buf r + SECTOR_LEN \<le> r_buf s \<or> r_buf s + SECTOR_LEN \<le> r_buf r) reqs"

lemma sector_reqs_Cons: "sector_reqs (r # rs) \<longleftrightarrow>
    r_offset r mod SECTOR_LEN = 0 \<and> r_len r = SECTOR_LEN \<and> sector_reqs rs \<and>
    (\<forall>s \<in> set rs. r_buf r + SECTOR_LEN \<le> r_buf s \<or> r_buf s + SECTOR_LEN \<le> r_buf r)"
  by (auto simp: sector_reqs_def)

lemma sector_reqs_Nil [simp]: "sector_reqs []"
  by (simp add: sector_reqs_def)

lemma sector_reqs_filter: "sector_reqs rs \<Longrightarrow> sector_reqs (filter P rs)"
  by (auto simp: sector_reqs_def sorted_wrt_filter)

lemma bound_tl: "\<forall>p. (g p :: nat) + length (r # rs) < n \<Longrightarrow> \<forall>p. g p + length rs < n"
proof
  fix p
  assume "\<forall>p. g p + length (r # rs) < n"
  then have "g p + length (r # rs) < n" by blast
  then show "g p + length rs < n" by simp
qed

lemma bound_upd: "\<forall>p. (g p :: nat) + length (r # rs) < n \<Longrightarrow> \<forall>p. (g(a := g a + 1)) p + length rs < n"
proof
  fix p
  assume "\<forall>p. g p + length (r # rs) < n"
  then have "g p + length (r # rs) < n" by blast
  then show "(g(a := g a + 1)) p + length rs < n" by (cases "p = a") simp_all
qed

lemma sector_aligned: "n mod SECTOR_LEN = 0 \<Longrightarrow> n div SECTOR_LEN * SECTOR_LEN = n"
  using div_mult_mod_eq [of n SECTOR_LEN] by linarith

lemma peek_outside:
  assumes "\<And>x. (\<forall>r \<in> set rs. outside x r) \<Longrightarrow> m' x = m x"
    and "\<forall>s \<in> set rs. b + SECTOR_LEN \<le> r_buf s \<or> r_buf s + SECTOR_LEN \<le> b"
  shows "peek m' b SECTOR_LEN = peek m b SECTOR_LEN"
  by (rule peek_cong, rule assms(1)) (use assms(2) in \<open>force simp: outside_def\<close>)

lemma probe_cache_spec:
  assumes "cache_inv c" "sector_reqs reqs" "\<forall>p. pins c p + length reqs < 18446744073709551616"
  shows "\<exists>c1 m1. probe_cache reqs (c, m) = Inr (filter (\<lambda>r. c (req_page r) = None) reqs, c1, m1) \<and>
    cache_inv c1 \<and> page_view c1 f = page_view c f \<and>
    pins c1 = (\<lambda>p. pins c p + (if c p = None then 0 else count_list (map req_page reqs) p)) \<and>
    (\<forall>p. c1 p = None \<longleftrightarrow> c p = None) \<and>
    (\<forall>r \<in> set reqs. c (req_page r) \<noteq> None \<longrightarrow> peek m1 (r_buf r) SECTOR_LEN = page_view c f (req_page r)) \<and>
    (\<forall>x. (\<forall>r \<in> set reqs. outside x r) \<longrightarrow> m1 x = m x)"
  using assms
proof (induction reqs arbitrary: c m)
  case (Cons r rs)
  from Cons.prems(2) have r: "r_offset r mod SECTOR_LEN = 0" "sector_reqs rs"
    "\<forall>s \<in> set rs. r_buf r + SECTOR_LEN \<le> r_buf s \<or> r_buf s + SECTOR_LEN \<le> r_buf r"
    by (auto simp: sector_reqs_Cons)
  show ?case
  proof (cases "c (req_page r)")
    case None
    from Cons.IH [OF Cons.prems(1) r(2) bound_tl [OF Cons.prems(3)], of m] obtain c1 m1 where
      ih: "probe_cache rs (c, m) = Inr (filter (\<lambda>r. c (req_page r) = None) rs, c1, m1)" "cache_inv c1"
        "page_view c1 f = page_view c f"
        "pins c1 = (\<lambda>q. pins c q + (if c q = None then 0 else count_list (map req_page rs) q))"
        "\<forall>q. c1 q = None \<longleftrightarrow> c q = None"
        "\<forall>s \<in> set rs. c (req_page s) \<noteq> None \<longrightarrow> peek m1 (r_buf s) SECTOR_LEN = page_view c f (req_page s)"
        "\<forall>x. (\<forall>s \<in> set rs. outside x s) \<longrightarrow> m1 x = m x" by blast
    have "probe_cache (r # rs) (c, m) = Inr (filter (\<lambda>r. c (req_page r) = None) (r # rs), c1, m1)"
      using ih(1) None r(1) by (simp add: cache_get_def)
    moreover have "pins c1 = (\<lambda>q. pins c q + (if c q = None then 0 else count_list (map req_page (r # rs)) q))"
      unfolding ih(4) using None by (auto simp: fun_eq_iff)
    ultimately show ?thesis using ih None by (intro exI [of _ c1] exI [of _ m1]) auto
  next
    case (Some v)
    let ?c = "c(req_page r \<mapsto> item_ref v)"
    let ?m = "poke m (r_buf r) (ci_buf v)"
    have v: "length (ci_buf v) = SECTOR_LEN" "0 < ci_ref v" "ci_ref v < 18446744073709551616"
      using cache_invD [OF Cons.prems(1) Some] by auto
    have "pins c (req_page r) + length (r # rs) < 18446744073709551616" using Cons.prems(3) by blast
    with Some have lt: "ci_ref v + 1 < 18446744073709551616" by (simp add: pins_def)
    then have ref: "item_ref v = v\<lparr>ci_ref := ci_ref v + 1\<rparr>" by (simp add: item_ref_def u64_id)
    have inv: "cache_inv ?c" using Cons.prems(1) v lt ref by (intro cache_inv_upd) auto
    have p: "pins ?c = (pins c)(req_page r := pins c (req_page r) + 1)"
      using Some ref by (auto simp: pins_def fun_eq_iff)
    have w: "page_view ?c f = page_view c f" using Some ref by (auto simp: page_view_def fun_eq_iff)
    have n: "?c q = None \<longleftrightarrow> c q = None" for q using Some by auto
    have "\<forall>q. pins ?c q + length rs < 18446744073709551616"
      unfolding p by (rule bound_upd [OF Cons.prems(3)])
    from Cons.IH [OF inv r(2) this, of ?m] obtain c1 m1 where
      ih: "probe_cache rs (?c, ?m) = Inr (filter (\<lambda>r. ?c (req_page r) = None) rs, c1, m1)" "cache_inv c1"
        "page_view c1 f = page_view c f"
        "pins c1 = (\<lambda>q. pins ?c q + (if c q = None then 0 else count_list (map req_page rs) q))"
        "\<forall>q. c1 q = None \<longleftrightarrow> c q = None"
        "\<forall>s \<in> set rs. c (req_page s) \<noteq> None \<longrightarrow> peek m1 (r_buf s) SECTOR_LEN = page_view c f (req_page s)"
        "\<And>x. \<forall>s \<in> set rs. outside x s \<Longrightarrow> m1 x = ?m x"
      unfolding n w by blast
    have b: "peek m1 (r_buf r) SECTOR_LEN = ci_buf v"
      using peek_outside [OF ih(7) r(3)] v(1) by (simp add: peek_poke_same)
    have fr: "m1 x = m x" if "\<forall>s \<in> set (r # rs). outside x s" for x
      using ih(7) [of x] that v(1) by (auto simp: outside_def poke_def)
    have "probe_cache (r # rs) (c, m) = probe_cache rs (?c, ?m)"
      using Some r(1) by (simp add: cache_get_def)
    moreover have "filter (\<lambda>r. c (req_page r) = None) (r # rs) = filter (\<lambda>r. ?c (req_page r) = None) rs"
      using Some n by simp
    moreover have "pins c1 = (\<lambda>q. pins c q + (if c q = None then 0 else count_list (map req_page (r # rs)) q))"
      unfolding ih(4) p using Some by (auto simp: fun_eq_iff)
    moreover have "page_view c f (req_page r) = ci_buf v" using Some by (simp add: page_view_def)
    ultimately show ?thesis using ih b fr by auto
  qed
next
  case Nil
  then show ?case by (intro exI [of _ c] exI [of _ m]) (auto simp: fun_eq_iff)
qed

lemma read_io_spec:
  assumes "sector_reqs reqs"
  shows "(\<forall>r \<in> set reqs. peek (read_io f reqs m) (r_buf r) SECTOR_LEN = disk_page f (req_page r)) \<and>
    (\<forall>x. (\<forall>r \<in> set reqs. outside x r) \<longrightarrow> read_io f reqs m x = m x)"
  using assms
proof (induction reqs arbitrary: m)
  case (Cons r rs)
  from Cons.prems have r: "r_offset r mod SECTOR_LEN = 0" "r_len r = SECTOR_LEN" "sector_reqs rs"
    "\<forall>s \<in> set rs. r_buf r + SECTOR_LEN \<le> r_buf s \<or> r_buf s + SECTOR_LEN \<le> r_buf r"
    by (auto simp: sector_reqs_Cons)
  let ?m = "poke m (r_buf r) (peek f (r_offset r) (r_len r))"
  have st: "read_io f (r # rs) m = read_io f rs ?m" by (simp add: read_io_def)
  note ih = Cons.IH [OF r(3), of ?m]
  have d: "peek f (r_offset r) (r_len r) = disk_page f (req_page r)"
    by (simp only: disk_page_def sector_aligned [OF r(1)] r(2))
  have "peek (read_io f rs ?m) (r_buf r) SECTOR_LEN = peek ?m (r_buf r) SECTOR_LEN"
    by (rule peek_outside [OF _ r(4)]) (use ih in blast)
  also have "\<dots> = disk_page f (req_page r)" unfolding d by (rule peek_poke_same) (simp add: disk_page_def)
  finally have a: "peek (read_io f rs ?m) (r_buf r) SECTOR_LEN = disk_page f (req_page r)" .
  have "read_io f rs ?m x = m x" if "\<forall>s \<in> set (r # rs). outside x s" for x
    using ih that by (auto simp: outside_def poke_def r(2))
  with a ih show ?case unfolding st by auto
qed (simp add: read_io_def)

lemma fill_cache_spec:
  assumes "cache_inv c" "\<forall>p. pins c p + length reqs < 18446744073709551616"
    and "\<forall>r \<in> set reqs. peek m (r_buf r) SECTOR_LEN = page_view c f (req_page r)"
  shows "cache_inv (fill_cache m reqs c) \<and> page_view (fill_cache m reqs c) f = page_view c f \<and>
    pins (fill_cache m reqs c) = (\<lambda>p. pins c p + count_list (map req_page reqs) p)"
  using assms
proof (induction reqs arbitrary: c)
  case (Cons r rs)
  let ?c = "snd (cache_put (req_page r) (peek m (r_buf r) SECTOR_LEN) True c)"
  have "pins c (req_page r) + length (r # rs) < 18446744073709551616" using Cons.prems(2) by blast
  then have "pins c (req_page r) < 18446744073709551615" by simp
  from pc.put_ok [OF Cons.prems(1) length_peek this, of m "r_buf r" f]
  have p: "cache_inv ?c" "page_view ?c f = (page_view c f)(req_page r := peek m (r_buf r) SECTOR_LEN)"
    "pins ?c = (pins c)(req_page r := pins c (req_page r) + 1)" by auto
  have w: "page_view ?c f = page_view c f" using p(2) Cons.prems(3) by (auto simp: fun_eq_iff)
  have "\<forall>q. pins ?c q + length rs < 18446744073709551616"
    unfolding p(3) by (rule bound_upd [OF Cons.prems(2)])
  from Cons.IH [OF p(1) this] Cons.prems(3) w p(3) show ?case
    by (auto simp: fill_cache_def fun_eq_iff)
qed (simp add: fill_cache_def fun_eq_iff)

lemma read_alloc_spec:
  assumes "cache_inv c" "sector_reqs reqs" "\<forall>p. pins c p + length reqs < 18446744073709551616"
  shows "\<exists>c' m'. read_alloc f reqs (c, m, page_ref) = Inr (c', m', page_ref @ map req_page reqs) \<and>
    cache_inv c' \<and> page_view c' f = page_view c f \<and>
    pins c' = (\<lambda>p. pins c p + count_list (map req_page reqs) p) \<and>
    (\<forall>r \<in> set reqs. peek m' (r_buf r) SECTOR_LEN = page_view c f (req_page r)) \<and>
    (\<forall>x. (\<forall>r \<in> set reqs. outside x r) \<longrightarrow> m' x = m x)"
proof -
  let ?miss = "filter (\<lambda>r. c (req_page r) = None) reqs"
  from probe_cache_spec [OF assms, of m f] obtain c1 m1 where
    p: "probe_cache reqs (c, m) = Inr (?miss, c1, m1)" "cache_inv c1" "page_view c1 f = page_view c f"
      "pins c1 = (\<lambda>p. pins c p + (if c p = None then 0 else count_list (map req_page reqs) p))"
      "\<forall>p. c1 p = None \<longleftrightarrow> c p = None"
      "\<forall>r \<in> set reqs. c (req_page r) \<noteq> None \<longrightarrow> peek m1 (r_buf r) SECTOR_LEN = page_view c f (req_page r)"
      "\<forall>x. (\<forall>r \<in> set reqs. outside x r) \<longrightarrow> m1 x = m x" by blast
  define m2 where "m2 = read_io f ?miss m1"
  have sm: "sector_reqs ?miss" by (rule sector_reqs_filter) (rule assms(2))
  note rd = read_io_spec [OF sm, of f m1, folded m2_def]
  have dm: "page_view c f (req_page r) = disk_page f (req_page r)" if "r \<in> set ?miss" for r
    using that by (simp add: page_view_def)
  have bufs: "peek m2 (r_buf r) SECTOR_LEN = page_view c f (req_page r)" if r: "r \<in> set reqs" for r
  proof (cases "c (req_page r) = None")
    case True
    with r have "r \<in> set ?miss" by simp
    with rd dm show ?thesis by simp
  next
    case False
    have "\<forall>s \<in> set ?miss. r_buf r + SECTOR_LEN \<le> r_buf s \<or> r_buf s + SECTOR_LEN \<le> r_buf r"
    proof
      fix s assume s: "s \<in> set ?miss"
      with False r have "r \<noteq> s" "s \<in> set reqs" by auto
      with r assms(2) show "r_buf r + SECTOR_LEN \<le> r_buf s \<or> r_buf s + SECTOR_LEN \<le> r_buf r"
        unfolding sector_reqs_def sorted_wrt_iff_nth_less by (metis in_set_conv_nth nat_neq_iff)
    qed
    then have "peek m2 (r_buf r) SECTOR_LEN = peek m1 (r_buf r) SECTOR_LEN"
      by (rule peek_outside [rotated]) (use rd in blast)
    with p(6) r False show ?thesis by simp
  qed
  have cnt: "count_list (map req_page ?miss) q = (if c q = None then count_list (map req_page reqs) q else 0)" for q
    by (induction reqs) auto
  have lm: "length ?miss \<le> length reqs" by simp
  have bound: "\<forall>q. pins c1 q + length ?miss < 18446744073709551616"
  proof
    fix q
    have b: "pins c q + length reqs < 18446744073709551616" using assms(3) by blast
    have "(if c q = None then 0 else count_list (map req_page reqs) q) + length ?miss \<le> length reqs"
      by (induction reqs) auto
    then show "pins c1 q + length ?miss < 18446744073709551616" unfolding p(4) using b by linarith
  qed
  have "\<forall>r \<in> set ?miss. peek m2 (r_buf r) SECTOR_LEN = page_view c1 f (req_page r)"
    using bufs p(3) by simp
  note fl = fill_cache_spec [OF p(2) bound this]
  have pn: "(\<lambda>q. pins c1 q + count_list (map req_page ?miss) q) = (\<lambda>q. pins c q + count_list (map req_page reqs) q)"
    unfolding p(4) cnt by (auto simp: fun_eq_iff)
  have fr: "m2 x = m x" if "\<forall>r \<in> set reqs. outside x r" for x
    using rd p(7) that by auto
  have run: "read_alloc f reqs (c, m, page_ref) =
      Inr (if ?miss \<noteq> [] then fill_cache m2 ?miss c1 else c1, if ?miss \<noteq> [] then m2 else m1, page_ref @ map req_page reqs)"
    by (simp add: read_alloc_def p(1) m2_def Let_def)
  have e1: "(if ?miss \<noteq> [] then fill_cache m2 ?miss c1 else c1) = fill_cache m2 ?miss c1"
    by (auto simp: fill_cache_def)
  have e2: "(if ?miss \<noteq> [] then m2 else m1) = m2" by (auto simp: m2_def read_io_def)
  note run' = run [unfolded e1 e2]
  show ?thesis
    by (rule exI [of _ "fill_cache m2 ?miss c1"], rule exI [of _ m2])
      (use run' fl p(3) pn bufs fr in simp)
qed

section \<open>Writing back\<close>

text \<open>The pages a batch of writes covers, with their contents.\<close>

definition write_pages :: "mem \<Rightarrow> io_req list \<Rightarrow> (nat \<times> byte list) list" where
  "write_pages bufs reqs = map (\<lambda>(p, a). (p, peek bufs a SECTOR_LEN)) (concat (map req_sectors reqs))"

definition overlay :: "(nat \<times> byte list) list \<Rightarrow> (nat \<Rightarrow> byte list) \<Rightarrow> nat \<Rightarrow> byte list" where
  "overlay pbs w = (\<lambda>p. case map_of pbs p of None \<Rightarrow> w p | Some b \<Rightarrow> b)"

text \<open>The writes of one batch: whole aligned sectors, no sector twice.\<close>

definition page_writes :: "io_req list \<Rightarrow> bool" where
  "page_writes reqs \<longleftrightarrow> (\<forall>r \<in> set reqs. r_offset r mod SECTOR_LEN = 0 \<and> r_len r mod SECTOR_LEN = 0) \<and>
     distinct (map fst (concat (map req_sectors reqs)))"

lemma SECTOR_LEN_pos [simp]: "0 < SECTOR_LEN"
  by (simp add: SECTOR_LEN_def)

lemma SECTOR_LEN_neq_0 [simp]: "SECTOR_LEN \<noteq> 0"
  by (simp add: SECTOR_LEN_def)

lemma req_sectors_aligned:
  assumes "r_offset r = q * SECTOR_LEN" "r_len r = k * SECTOR_LEN"
  shows "req_sectors r = map (\<lambda>i. (q + i, r_buf r + i * SECTOR_LEN)) [0..<k]"
proof -
  have "(q * SECTOR_LEN + i * SECTOR_LEN) div SECTOR_LEN = q + i" for i
    by (metis SECTOR_LEN_neq_0 add_mult_distrib nonzero_mult_div_cancel_right)
  moreover have "DIV_ROUND_UP (k * SECTOR_LEN) SECTOR_LEN = k" by (simp add: DIV_ROUND_UP_def)
  ultimately show ?thesis by (simp add: req_sectors_def assms)
qed

lemma write_pages_Cons:
  "write_pages bufs (r # rs) = write_pages bufs [r] @ write_pages bufs rs"
  by (simp add: write_pages_def)

lemma fst_write_pages: "map fst (write_pages bufs reqs) = map fst (concat (map req_sectors reqs))"
  by (simp add: write_pages_def case_prod_beta comp_def)

lemma disk_page_poke:
  assumes "length bs = k * SECTOR_LEN"
  shows "disk_page (poke f (q * SECTOR_LEN) bs) p =
    (if q \<le> p \<and> p < q + k then take SECTOR_LEN (drop ((p - q) * SECTOR_LEN) bs) else disk_page f p)"
proof (cases "q \<le> p \<and> p < q + k")
  case True
  then have "q * SECTOR_LEN \<le> p * SECTOR_LEN" "(p + 1) * SECTOR_LEN \<le> (q + k) * SECTOR_LEN"
    by (intro mult_le_mono1, simp)+
  then have "peek (poke f (q * SECTOR_LEN) bs) (p * SECTOR_LEN) SECTOR_LEN =
      take SECTOR_LEN (drop (p * SECTOR_LEN - q * SECTOR_LEN) bs)"
    by (intro peek_poke_inside) (simp_all add: assms algebra_simps)
  with True show ?thesis by (simp add: disk_page_def diff_mult_distrib)
next
  case False
  then have "p + 1 \<le> q \<or> q + k \<le> p" by auto
  then have "(p + 1) * SECTOR_LEN \<le> q * SECTOR_LEN \<or> (q + k) * SECTOR_LEN \<le> p * SECTOR_LEN"
    by (blast intro: mult_le_mono1)
  then have "peek (poke f (q * SECTOR_LEN) bs) (p * SECTOR_LEN) SECTOR_LEN = peek f (p * SECTOR_LEN) SECTOR_LEN"
    by (intro peek_poke_disjoint) (auto simp: assms algebra_simps)
  with False show ?thesis by (auto simp: disk_page_def)
qed

lemma disk_page_write_one:
  assumes "r_offset r mod SECTOR_LEN = 0" "r_len r mod SECTOR_LEN = 0"
  shows "disk_page (poke f (r_offset r) (peek bufs (r_buf r) (r_len r))) = overlay (write_pages bufs [r]) (disk_page f)"
proof
  fix p
  define q k where "q = r_offset r div SECTOR_LEN" and "k = r_len r div SECTOR_LEN"
  have r: "r_offset r = q * SECTOR_LEN" "r_len r = k * SECTOR_LEN"
    using assms by (auto simp: q_def k_def sector_aligned)
  have w: "write_pages bufs [r] = map (\<lambda>i. (q + i, peek bufs (r_buf r + i * SECTOR_LEN) SECTOR_LEN)) [0..<k]"
    by (simp add: write_pages_def req_sectors_aligned [OF r])
  have "take SECTOR_LEN (drop ((p - q) * SECTOR_LEN) (peek bufs (r_buf r) (k * SECTOR_LEN))) =
      peek bufs (r_buf r + (p - q) * SECTOR_LEN) SECTOR_LEN" if "q \<le> p" "p < q + k"
  proof (rule peek_sub)
    have "(p - q + 1) * SECTOR_LEN \<le> k * SECTOR_LEN" using that by (intro mult_le_mono1) simp
    then show "(p - q) * SECTOR_LEN + SECTOR_LEN \<le> k * SECTOR_LEN" by (simp add: algebra_simps)
  qed
  then show "disk_page (poke f (r_offset r) (peek bufs (r_buf r) (r_len r))) p =
      overlay (write_pages bufs [r]) (disk_page f) p"
    unfolding r w overlay_def map_of_upt by (simp add: disk_page_poke)
qed

lemma overlay_append:
  "distinct (map fst (xs @ ys)) \<Longrightarrow> overlay (xs @ ys) w = overlay ys (overlay xs w)"
  by (rule ext) (auto simp: overlay_def map_add_def dest!: map_of_SomeD split: option.splits, force)

lemma disk_page_write_io:
  "page_writes reqs \<Longrightarrow> disk_page (write_io bufs reqs f) = overlay (write_pages bufs reqs) (disk_page f)"
proof (induction reqs arbitrary: f)
  case Nil
  then show ?case by (simp add: write_io_def overlay_def write_pages_def)
next
  case (Cons r rs)
  have r: "r_offset r mod SECTOR_LEN = 0" "r_len r mod SECTOR_LEN = 0" "page_writes rs"
    using Cons.prems by (auto simp: page_writes_def)
  have d: "distinct (map fst (write_pages bufs [r] @ write_pages bufs rs))"
    using Cons.prems unfolding write_pages_Cons [symmetric] fst_write_pages page_writes_def by blast
  have "disk_page (write_io bufs (r # rs) f) =
      overlay (write_pages bufs rs) (disk_page (poke f (r_offset r) (peek bufs (r_buf r) (r_len r))))"
    using Cons.IH [OF r(3)] by (simp add: write_io_def)
  also have "\<dots> = overlay (write_pages bufs (r # rs)) (disk_page f)"
    unfolding disk_page_write_one [OF r(1,2)] write_pages_Cons [of bufs r rs] overlay_append [OF d] ..
  finally show ?case .
qed

lemma wbc_write_spec:
  assumes "cache_inv c" "page_writes reqs" "\<forall>p. pins c p < 18446744073709551615"
    and "wbc_write bufs reqs (c, page_ref) = (c', page_ref')"
  shows "cache_inv c' \<and> page_view c' f = overlay (write_pages bufs reqs) (page_view c f) \<and>
    page_ref' = page_ref @ map fst (write_pages bufs reqs) \<and>
    pins c' = (\<lambda>p. pins c p + (if p \<in> fst ` set (write_pages bufs reqs) then 1 else 0))"
proof -
  let ?secs = "concat (map req_sectors reqs)"
  have "fold (\<lambda>(p, a) c. snd (cache_put p (peek bufs a SECTOR_LEN) True c)) ?secs c =
      fold (\<lambda>(p, b) c. snd (cache_put p b True c)) (write_pages bufs reqs) c"
    by (simp add: write_pages_def fold_map comp_def split_def)
  then have c': "c' = fold (\<lambda>(p, b) c. snd (cache_put p b True c)) (write_pages bufs reqs) c"
    and pr: "page_ref' = page_ref @ map fst (write_pages bufs reqs)"
    using assms(4) by (simp_all add: wbc_write_def fst_write_pages Let_def)
  have "distinct (map fst (write_pages bufs reqs))"
    using assms(2) by (simp add: fst_write_pages page_writes_def)
  moreover have "\<forall>(p, b) \<in> set (write_pages bufs reqs). length b = SECTOR_LEN \<and> pins c p < 18446744073709551615"
    using assms(3) by (auto simp: write_pages_def)
  ultimately show ?thesis
    using pc.put_all_distinct [OF assms(1), of "write_pages bufs reqs" f] by (simp add: c' pr overlay_def)
qed

text \<open>Releasing what a run of reads pinned gives back the cache it started from.\<close>

lemma deref_restores:
  assumes "cache_inv c" "cache_inv c'" "page_view c' f = page_view c f"
    and "pins c' = (\<lambda>p. pins c p + count_list refs p)"
  shows "deref_pages refs c' = c"
proof -
  let ?d = "deref_pages refs c'"
  have d: "?d = fold (\<lambda>p c. snd (cache_deref p c)) refs c'" by (simp add: deref_pages_def)
  note pd = pc.drop_all_pins [OF assms(2), of refs, folded d]
  have "\<forall>p \<in> set refs. pins c' p \<le> count_list refs p \<longrightarrow> page_view c' f p = disk_page f p"
  proof (intro ballI impI)
    fix p
    assume "pins c' p \<le> count_list refs p"
    then have "pins c p = 0" unfolding assms(4) by simp
    then show "page_view c' f p = disk_page f p" using pc.unpinned [OF assms(1)] assms(3) by simp
  qed
  from pc.drop_all_view [OF assms(2) this, folded d] have v: "page_view ?d f = page_view c f" using assms(3) by simp
  have "pins ?d = pins c" using pd unfolding assms(4) by (simp add: fun_eq_iff)
  then show ?thesis by (intro cache_ext [OF _ assms(1)]) (use pd v in auto)
qed

text \<open>Releasing reads while some pages, newer than the file, stay pinned by a pending write.\<close>

lemma deref_reads:
  assumes "cache_inv c" "cache_inv c'" "pins c' = (\<lambda>p. pins c p + count_list refs p + (if p \<in> P then 1 else 0))"
    and "\<forall>p. p \<notin> P \<longrightarrow> page_view c' f p = page_view c f p"
  shows "cache_inv (deref_pages refs c') \<and> page_view (deref_pages refs c') f = page_view c' f \<and>
    pins (deref_pages refs c') = (\<lambda>p. pins c p + (if p \<in> P then 1 else 0))"
proof -
  let ?d = "deref_pages refs c'"
  have d: "?d = fold (\<lambda>p c. snd (cache_deref p c)) refs c'" by (simp add: deref_pages_def)
  note pd = pc.drop_all_pins [OF assms(2), of refs, folded d]
  have "\<forall>p \<in> set refs. pins c' p \<le> count_list refs p \<longrightarrow> page_view c' f p = disk_page f p"
  proof (intro ballI impI)
    fix p assume "pins c' p \<le> count_list refs p"
    then have "pins c p = 0" "p \<notin> P" unfolding assms(3) by (simp_all split: if_splits)
    then show "page_view c' f p = disk_page f p" using pc.unpinned [OF assms(1)] assms(4) by simp
  qed
  from pc.drop_all_view [OF assms(2) this, folded d] pd show ?thesis unfolding assms(3) by (simp add: fun_eq_iff)
qed

text \<open>The pending write: the file takes over what the pinned pages show, and the pins go.\<close>

lemma write_pending:
  assumes "cache_inv c" "page_writes reqs" "f' = write_io bufs reqs f" "ps = map fst (write_pages bufs reqs)"
    and "\<forall>(p, b) \<in> set (write_pages bufs reqs). page_view c f p = b" "\<forall>p \<in> set ps. 0 < pins c p"
  shows "cache_inv (deref_pages ps c) \<and> page_view (deref_pages ps c) f' = page_view c f \<and>
    pins (deref_pages ps c) = (\<lambda>p. pins c p - (if p \<in> set ps then 1 else 0))"
proof -
  let ?w = "write_pages bufs reqs"
  have d: "disk_page f' = overlay ?w (disk_page f)" unfolding assms(3) by (rule disk_page_write_io [OF assms(2)])
  have ds: "distinct ps" using assms(2) unfolding assms(4) by (simp add: fst_write_pages page_writes_def)
  have dp: "disk_page f' p = (if p \<in> set ps then page_view c f p else disk_page f p)" for p
  proof (cases "p \<in> set ps")
    case True
    then have "map_of ?w p \<noteq> None" unfolding assms(4) by (simp add: map_of_eq_None_iff)
    then obtain b where b: "map_of ?w p = Some b" by blast
    then have m: "(p, b) \<in> set ?w" by (rule map_of_SomeD)
    have "page_view c f p = b" using bspec [OF assms(5) m] unfolding prod.case .
    then show ?thesis unfolding if_P [OF True] d overlay_def b by simp
  next
    case False
    then have "map_of ?w p = None" unfolding assms(4) by (simp add: map_of_eq_None_iff)
    with False show ?thesis by (simp add: d overlay_def)
  qed
  have v: "page_view c f' = page_view c f"
  proof
    fix p show "page_view c f' p = page_view c f p"
    proof (cases "c p")
      case None
      then have "pins c p = 0" by (simp add: pins_def)
      then have "p \<notin> set ps" using assms(6) by (metis less_irrefl_nat)
      with None dp [of p] show ?thesis by (simp add: page_view_def)
    qed (simp add: page_view_def)
  qed
  have e: "deref_pages ps c = fold (\<lambda>p c. snd (cache_deref p c)) ps c" by (simp add: deref_pages_def)
  have "\<forall>p \<in> set ps. pins c p \<le> count_list ps p \<longrightarrow> page_view c f' p = disk_page f' p" using dp v by simp
  from pc.drop_all_view [OF assms(1) this, folded e] v have view: "page_view (deref_pages ps c) f' = page_view c f" by simp
  have cnt: "count_list ps p = (if p \<in> set ps then 1 else 0)" for p by (rule count_list_distinct [OF ds])
  show ?thesis using view pc.drop_all_pins [OF assms(1), of ps, folded e] unfolding cnt by blast
qed

section \<open>Properties of the page cache\<close>

text \<open>C13: a batched \<^verbatim>\<open>read_alloc\<close> of whole sectors is transparent: every buffer receives the
  page as cache and disk show it, nothing else of the buffers changes, no page looks different
  afterwards, and releasing the pages it recorded gives back exactly the cache it started from.\<close>

theorem read_alloc_transparent:
  assumes "cache_inv c" "sector_reqs reqs" "\<forall>p. pins c p + length reqs < 18446744073709551616"
  shows "\<exists>c' m'. read_alloc f reqs (c, m, []) = Inr (c', m', map req_page reqs) \<and>
    (\<forall>r \<in> set reqs. peek m' (r_buf r) (r_len r) = page_view c f (req_page r)) \<and>
    (\<forall>x. (\<forall>r \<in> set reqs. outside x r) \<longrightarrow> m' x = m x) \<and>
    page_view c' f = page_view c f \<and> deref_pages (map req_page reqs) c' = c"
proof -
  from read_alloc_spec [OF assms, of f m "[]"] obtain c' m' where
    r: "read_alloc f reqs (c, m, []) = Inr (c', m', map req_page reqs)" "cache_inv c'"
      "page_view c' f = page_view c f" "pins c' = (\<lambda>p. pins c p + count_list (map req_page reqs) p)"
      "\<forall>r \<in> set reqs. peek m' (r_buf r) SECTOR_LEN = page_view c f (req_page r)"
      "\<forall>x. (\<forall>r \<in> set reqs. outside x r) \<longrightarrow> m' x = m x" by auto
  have "deref_pages (map req_page reqs) c' = c" by (rule deref_restores [OF assms(1) r(2,3,4)])
  moreover have "\<forall>r \<in> set reqs. r_len r = SECTOR_LEN" using assms(2) by (simp add: sector_reqs_def)
  ultimately show ?thesis using r by (intro exI [of _ c'] exI [of _ m']) auto
qed

lemma write_back_spec:
  assumes "cache_inv c" "page_writes reqs" "\<forall>p. pins c p < 18446744073709551615"
    and "wbc_write bufs reqs (c, []) = (c', page_ref)" "f' = write_io bufs reqs f"
  shows "page_view c' f = overlay (write_pages bufs reqs) (page_view c f) \<and>
    page_view c' f' = page_view c' f \<and>
    page_view (deref_pages page_ref c') f' = page_view c' f \<and> pins (deref_pages page_ref c') = pins c"
proof (intro conjI)
  let ?w = "write_pages bufs reqs"
  note w = wbc_write_spec [OF assms(1-4)]
  note w1 = w [of f] and w2 = w [of f']
  show v: "page_view c' f = overlay ?w (page_view c f)" using w1 by simp
  have d: "disk_page f' = overlay ?w (disk_page f)"
    unfolding assms(5) by (rule disk_page_write_io [OF assms(2)])
  have "overlay ?w (page_view c f') = overlay ?w (page_view c f)"
    by (rule ext) (simp add: overlay_def page_view_def d split: option.split)
  then show v': "page_view c' f' = page_view c' f" using w1 w2 by simp
  have ds: "distinct (map fst ?w)" using assms(2) by (simp add: fst_write_pages page_writes_def)
  have pr: "page_ref = map fst ?w" using w1 by simp
  have cnt: "count_list page_ref p = (if p \<in> fst ` set ?w then 1 else 0)" for p
    unfolding pr using count_list_distinct [OF ds, of p] by simp
  have dp: "deref_pages page_ref c' = fold (\<lambda>p c. snd (cache_deref p c)) page_ref c'"
    by (simp add: deref_pages_def)
  have "\<forall>p \<in> set page_ref. pins c' p \<le> count_list page_ref p \<longrightarrow> page_view c' f' p = disk_page f' p"
  proof (intro ballI impI)
    fix p assume p: "p \<in> set page_ref"
    then obtain b where "map_of ?w p = Some b" unfolding pr by (metis list.set_map map_of_eq_None_iff option.exhaust)
    then show "page_view c' f' p = disk_page f' p" using v v' by (simp add: d overlay_def)
  qed
  with pc.drop_all_view [of c' page_ref f'] w1 v' dp
  show "page_view (deref_pages page_ref c') f' = page_view c' f" by simp
  show "pins (deref_pages page_ref c') = pins c"
    using pc.drop_all_pins [of c' page_ref] w1 cnt unfolding dp by (simp add: fun_eq_iff pr)
qed

text \<open>C14: writing a batch through the cache and committing it later is one update: once
  \<^verbatim>\<open>wbc_write\<close> returns every reader sees the written pages, the background \<^verbatim>\<open>write\<close> and the
  release of the pages it recorded leave that view, and no reference is left behind.\<close>

theorem write_back_commit:
  assumes "cache_inv c" "page_writes reqs" "\<forall>p. pins c p < 18446744073709551615"
    and "wbc_write bufs reqs (c, []) = (c', page_ref)" "f' = write_io bufs reqs f"
  shows "page_view c' f = overlay (write_pages bufs reqs) (page_view c f) \<and>
    page_view c' f' = page_view c' f \<and>
    page_view (deref_pages page_ref c') f' = page_view c' f \<and> pins (deref_pages page_ref c') = pins c"
  by (rule write_back_spec [OF assms])

text \<open>C15: \<^verbatim>\<open>flush_page_cache\<close>, visiting every cached page once, leaves an empty cache over a
  file that shows what cache and file showed together.\<close>

theorem flush_persists_view:
  assumes "cache_inv c" "distinct order" "dom c \<subseteq> set order" "flush_page_cache order c f = (c', f')"
  shows "c' = Map.empty \<and> page_view c' f' = page_view c f"
proof -
  define step where "step = (\<lambda>page_no f. case c page_no of None \<Rightarrow> f
      | Some v \<Rightarrow> poke f (page_no * SECTOR_LEN) (take SECTOR_LEN (ci_buf v)))"
  have c: "c' = Map.empty" and f': "f' = fold step order f"
    using assms(4) by (simp_all add: flush_page_cache_def cache_clear_def step_def)
  have st: "disk_page (step q g) p = (if p = q \<and> c p \<noteq> None then page_view c g p else disk_page g p)" for q g p
  proof (cases "c q")
    case (Some v)
    then have "length (ci_buf v) = 1 * SECTOR_LEN" using cache_invD [OF assms(1)] by simp
    then show ?thesis using Some disk_page_poke [of "ci_buf v" 1 g q p] by (auto simp: step_def page_view_def)
  qed (auto simp: step_def)
  have "disk_page (fold step ps g) p = (if p \<in> set ps then page_view c g p else disk_page g p)" if "distinct ps" for ps g p
    using that by (induction ps arbitrary: g) (auto simp: st page_view_def split: option.splits)
  from this [OF assms(2), of f] show ?thesis
    using c assms(3) by (auto simp: f' page_view_def fun_eq_iff split: option.split)
qed

definition demo_cache :: page_cache where
  "demo_cache = [3 \<mapsto> \<lparr>ci_buf = replicate SECTOR_LEN 7, ci_ref = 1\<rparr>]"

lemma demo_cache_inv: "cache_inv demo_cache"
  by (simp add: cache_inv_def demo_cache_def)

lemma pins_demo: "1 < n \<Longrightarrow> pins demo_cache p < n"
  by (simp add: pins_def demo_cache_def)

definition demo_req :: "nat \<Rightarrow> nat \<Rightarrow> io_req" where
  "demo_req p b = \<lparr>r_offset = p * SECTOR_LEN, r_len = SECTOR_LEN, r_buf = b, r_u_offset = 0, r_u_len = 0\<rparr>"

lemma demo_reqs: "sector_reqs [demo_req 3 0, demo_req 5 SECTOR_LEN]"
  by (simp add: sector_reqs_def demo_req_def SECTOR_LEN_def)

theorem read_alloc_transparent_witness:
  "\<exists>c' m'. read_alloc (\<lambda>_. 9) [demo_req 3 0, demo_req 5 SECTOR_LEN] (demo_cache, \<lambda>_. 0, []) =
      Inr (c', m', [3, 5]) \<and> deref_pages [3, 5] c' = demo_cache"
proof -
  have p: "\<forall>p. pins demo_cache p + length [demo_req 3 0, demo_req 5 SECTOR_LEN] < 18446744073709551616"
    by (simp add: pins_demo less_diff_conv [symmetric])
  have r: "map req_page [demo_req 3 0, demo_req 5 SECTOR_LEN] = [3, 5]"
    by (simp add: demo_req_def)
  from read_alloc_transparent [OF demo_cache_inv demo_reqs p, of "\<lambda>_. 9" "\<lambda>_. 0"] show ?thesis
    unfolding r by blast
qed

lemma demo_writes: "page_writes [demo_req 3 0, demo_req 5 SECTOR_LEN]"
  using req_sectors_aligned [of "demo_req 3 0" 3 1] req_sectors_aligned [of "demo_req 5 SECTOR_LEN" 5 1]
  by (simp add: page_writes_def demo_req_def)

theorem write_back_commit_witness:
  "\<exists>c' page_ref. wbc_write (\<lambda>_. 1) [demo_req 3 0, demo_req 5 SECTOR_LEN] (demo_cache, []) = (c', page_ref) \<and>
    pins (deref_pages page_ref c') = pins demo_cache"
proof -
  obtain c' page_ref where w: "wbc_write (\<lambda>_. 1) [demo_req 3 0, demo_req 5 SECTOR_LEN] (demo_cache, []) = (c', page_ref)"
    by (cases "wbc_write (\<lambda>_. 1) [demo_req 3 0, demo_req 5 SECTOR_LEN] (demo_cache, [])")
  have "\<forall>p. pins demo_cache p < 18446744073709551615"
    by (simp add: pins_demo)
  from write_back_commit [OF demo_cache_inv demo_writes this w refl] w show ?thesis by blast
qed

theorem flush_persists_view_witness:
  "page_view (fst (flush_page_cache [3] demo_cache (\<lambda>_. 0))) (snd (flush_page_cache [3] demo_cache (\<lambda>_. 0))) =
    page_view demo_cache (\<lambda>_. 0)"
proof -
  have "distinct [3 :: nat]" "dom demo_cache \<subseteq> set [3]" by (auto simp: demo_cache_def)
  from flush_persists_view [OF demo_cache_inv this, of "\<lambda>_. 0"] show ?thesis
    by (metis prod.collapse)
qed

end
