(* ===== verification/Disk_Layout.thy ===== *)
theory Disk_Layout imports Byte_Mem begin

text \<open>
  Where a node lives on disk (\<^verbatim>\<open>include/ssd_index.h\<close>): location \<^verbatim>\<open>loc\<close> is slot
  \<^verbatim>\<open>loc % nnodes_per_sector\<close> of sector \<^verbatim>\<open>1 + loc / nnodes_per_sector\<close>, sector 0 being the
  metadata; a node is its coordinates, a 32-bit neighbor count and the 32-bit neighbor ids
  (\<^verbatim>\<open>DiskNode\<close> of \<^verbatim>\<open>include/query_buf.h\<close> and \<^verbatim>\<open>src/ssd_index.cpp\<close>).
  \<^verbatim>\<open>vec_bytes\<close> is \<^verbatim>\<open>data_dim * sizeof(T)\<close>.
\<close>

record geom =
  max_node_len :: nat
  nnodes_per_sector :: nat
  data_dim :: nat
  sizeof_T :: nat

definition vec_bytes :: "geom \<Rightarrow> nat" where
  "vec_bytes g = data_dim g * sizeof_T g"

definition offset_to_node_coords :: "nat \<Rightarrow> nat" where
  "offset_to_node_coords node_buf = node_buf"

definition offset_to_node_nhood :: "geom \<Rightarrow> nat \<Rightarrow> nat" where
  "offset_to_node_nhood g node_buf = node_buf + vec_bytes g"

definition u_loc_offset :: "geom \<Rightarrow> nat \<Rightarrow> nat" where
  "u_loc_offset g loc = u64 (loc * max_node_len g)"

definition u_loc_offset_nbr :: "geom \<Rightarrow> nat \<Rightarrow> nat" where
  "u_loc_offset_nbr g loc = u64 (loc * max_node_len g + vec_bytes g)"

definition offset_to_loc :: "geom \<Rightarrow> nat \<Rightarrow> nat \<Rightarrow> nat" where
  "offset_to_loc g sector_buf loc =
     sector_buf + (if nnodes_per_sector g = 0 then 0
                   else (loc mod nnodes_per_sector g) * max_node_len g)"

definition loc_sector_no :: "geom \<Rightarrow> nat \<Rightarrow> nat" where
  "loc_sector_no g loc =
     u64 (1 + (if 0 < nnodes_per_sector g then loc div nnodes_per_sector g
               else u64 (loc * DIV_ROUND_UP (max_node_len g) SECTOR_LEN)))"

definition sector_to_loc :: "geom \<Rightarrow> nat \<Rightarrow> nat \<Rightarrow> nat" where
  "sector_to_loc g sector_no sector_off =
     u64 (u64 (sector_no + 18446744073709551615) * nnodes_per_sector g + sector_off)"

text \<open>\<^verbatim>\<open>size_per_io\<close> as \<^verbatim>\<open>load\<close> computes it.\<close>

definition size_per_io :: "geom \<Rightarrow> nat" where
  "size_per_io g = SECTOR_LEN * (if 0 < nnodes_per_sector g then 1
                                 else DIV_ROUND_UP (max_node_len g) SECTOR_LEN)"

definition max_degree_of :: "geom \<Rightarrow> nat" where
  "max_degree_of g = (max_node_len g - vec_bytes g) div 4 - 1"

section \<open>DiskNode\<close>

record disk_node =
  dn_id :: nat
  dn_coords :: nat
  dn_nnbrs :: nat
  dn_nbrs :: nat

definition DiskNode :: "mem \<Rightarrow> nat \<Rightarrow> nat \<Rightarrow> nat \<Rightarrow> disk_node" where
  "DiskNode m nid coords nhood =
     \<lparr>dn_id = nid, dn_coords = coords, dn_nnbrs = get32 m nhood, dn_nbrs = nhood + 4\<rparr>"

definition open_node :: "geom \<Rightarrow> mem \<Rightarrow> nat \<Rightarrow> nat \<Rightarrow> disk_node" where
  "open_node g m nid node_buf =
     DiskNode m nid (offset_to_node_coords node_buf) (offset_to_node_nhood g node_buf)"

text \<open>Storing a node through a \<^verbatim>\<open>DiskNode\<close>: the coordinates, the count one word before the
  neighbor array, then the array (\<^verbatim>\<open>insert_in_place\<close> and the merges write nodes this way).\<close>

definition store_node :: "geom \<Rightarrow> mem \<Rightarrow> disk_node \<Rightarrow> byte list \<Rightarrow> nat list \<Rightarrow> mem" where
  "store_node g m node coords nhood =
     (let m1 = poke m (dn_coords node) coords;
          m2 = put32 m1 (dn_nbrs node - 4) (length nhood)
      in put32s m2 (dn_nbrs node) nhood)"

text \<open>What a node slot holds.\<close>

definition node_coords :: "geom \<Rightarrow> mem \<Rightarrow> nat \<Rightarrow> byte list" where
  "node_coords g m node_buf = peek m (offset_to_node_coords node_buf) (vec_bytes g)"

definition node_nbrs :: "geom \<Rightarrow> mem \<Rightarrow> nat \<Rightarrow> nat list" where
  "node_nbrs g m node_buf = (let n = open_node g m 0 node_buf in get32s m (dn_nbrs n) (dn_nnbrs n))"

text \<open>A geometry \<^verbatim>\<open>load\<close> accepts for updates: nodes fit their slot and slots their sector.\<close>

definition wf_geom :: "geom \<Rightarrow> bool" where
  "wf_geom g \<longleftrightarrow> 0 < nnodes_per_sector g \<and> nnodes_per_sector g \<le> 16 \<and>
     vec_bytes g + 4 \<le> max_node_len g \<and> nnodes_per_sector g * max_node_len g \<le> SECTOR_LEN"

definition max_nbrs :: "geom \<Rightarrow> nat" where
  "max_nbrs g = (max_node_len g - vec_bytes g - 4) div 4"

lemma max_degree_max_nbrs: "wf_geom g \<Longrightarrow> max_degree_of g = max_nbrs g"
  by (auto simp: max_degree_of_def max_nbrs_def wf_geom_def)

lemma node_fits: "wf_geom g \<Longrightarrow> n \<le> max_nbrs g \<Longrightarrow> vec_bytes g + 4 + 4 * n \<le> max_node_len g"
  by (auto simp: wf_geom_def max_nbrs_def)

lemma max_nbrs_less: "wf_geom g \<Longrightarrow> max_nbrs g < 1024"
proof -
  assume g: "wf_geom g"
  then have "1 * max_node_len g \<le> nnodes_per_sector g * max_node_len g"
    by (intro mult_le_mono1) (simp add: wf_geom_def)
  also have "\<dots> \<le> 4096" using g by (simp add: wf_geom_def SECTOR_LEN_def)
  finally show ?thesis by (simp add: max_nbrs_def)
qed

lemma slot_fits:
  assumes "wf_geom g"
  shows "offset_to_loc g base loc + max_node_len g \<le> base + SECTOR_LEN \<and> base \<le> offset_to_loc g base loc"
proof -
  have "loc mod nnodes_per_sector g < nnodes_per_sector g" using assms by (simp add: wf_geom_def)
  then have "(loc mod nnodes_per_sector g + 1) * max_node_len g \<le> nnodes_per_sector g * max_node_len g"
    by (intro mult_le_mono1) simp
  with assms show ?thesis by (auto simp: offset_to_loc_def wf_geom_def)
qed

lemma slots_disjoint:
  assumes "wf_geom g" "loc mod nnodes_per_sector g \<noteq> loc' mod nnodes_per_sector g"
  shows "offset_to_loc g base loc + max_node_len g \<le> offset_to_loc g base loc' \<or>
    offset_to_loc g base loc' + max_node_len g \<le> offset_to_loc g base loc"
proof -
  have *: "i < j \<Longrightarrow> i * max_node_len g + max_node_len g \<le> j * max_node_len g" for i j :: nat
    using mult_le_mono1 [of "Suc i" j "max_node_len g"] by simp
  show ?thesis using assms(2) * assms(1)
    by (cases "loc mod nnodes_per_sector g < loc' mod nnodes_per_sector g")
      (auto simp: offset_to_loc_def wf_geom_def)
qed

lemma node_nbrs_alt: "node_nbrs g m b = get32s m (b + vec_bytes g + 4) (get32 m (b + vec_bytes g))"
  by (simp add: node_nbrs_def open_node_def DiskNode_def offset_to_node_nhood_def Let_def)

text \<open>Storing a node and reading it back, and the frame of the store.\<close>

lemma store_node_same:
  assumes "length coords = vec_bytes g"
  shows "node_coords g (store_node g m (open_node g m i b) coords nhood) b = coords"
    and "length nhood < 4294967296 \<Longrightarrow>
      node_nbrs g (store_node g m (open_node g m i b) coords nhood) b = map u32 nhood"
proof -
  let ?v = "vec_bytes g"
  let ?m1 = "poke m b coords"
  let ?m2 = "put32 ?m1 (b + ?v) (length nhood)"
  have e: "store_node g m (open_node g m i b) coords nhood = put32s ?m2 (b + ?v + 4) nhood"
    by (simp add: store_node_def open_node_def DiskNode_def offset_to_node_nhood_def
        offset_to_node_coords_def Let_def)
  have c: "peek (put32s ?m2 (b + ?v + 4) nhood) b ?v = coords"
    unfolding put32s_def put32_def
    by (subst peek_poke_disjoint, simp, subst peek_poke_disjoint, simp, rule peek_poke_same, rule assms)
  then show "node_coords g (store_node g m (open_node g m i b) coords nhood) b = coords"
    by (simp add: e node_coords_def offset_to_node_coords_def)
  assume len: "length nhood < 4294967296"
  have "peek (put32s ?m2 (b + ?v + 4) nhood) (b + ?v) 4 = peek ?m2 (b + ?v) 4"
    unfolding put32s_def by (rule peek_poke_disjoint) simp
  then have "get32 (put32s ?m2 (b + ?v + 4) nhood) (b + ?v) = u32 (length nhood)"
    by (simp add: get32_def put32_def peek_poke_same)
  with len show "node_nbrs g (store_node g m (open_node g m i b) coords nhood) b = map u32 nhood"
    by (simp add: e node_nbrs_alt get32s_put32s u32_id)
qed

lemma store_node_frame:
  assumes "length coords = vec_bytes g"
    and "x < b \<or> b + vec_bytes g + 4 + 4 * length nhood \<le> x"
  shows "store_node g m (open_node g m i b) coords nhood x = m x"
  using assms
  by (auto simp: store_node_def open_node_def DiskNode_def offset_to_node_nhood_def
      offset_to_node_coords_def Let_def put32_def put32s_def poke_def)

text \<open>A slot's contents depend on the slot's bytes only.\<close>

lemma slot_cong:
  assumes "peek m a (max_node_len g) = peek m' a' (max_node_len g)" "wf_geom g"
  shows "node_coords g m a = node_coords g m' a'"
    and "get32 m (a + vec_bytes g) = get32 m' (a' + vec_bytes g)"
    and "length (node_nbrs g m a) \<le> max_nbrs g \<Longrightarrow> node_nbrs g m a = node_nbrs g m' a'"
proof -
  have sub: "peek m (a + i) n = peek m' (a' + i) n" if "i + n \<le> max_node_len g" for i n
    using peek_sub [OF that, of m a] peek_sub [OF that, of m' a'] assms(1) by simp
  have v: "vec_bytes g + 4 \<le> max_node_len g" using assms(2) by (simp add: wf_geom_def)
  show "node_coords g m a = node_coords g m' a'"
    using sub [of 0 "vec_bytes g"] v by (simp add: node_coords_def offset_to_node_coords_def)
  show n: "get32 m (a + vec_bytes g) = get32 m' (a' + vec_bytes g)"
    using sub [OF v] by (simp add: get32_def)
  assume "length (node_nbrs g m a) \<le> max_nbrs g"
  then have k: "vec_bytes g + 4 + 4 * get32 m (a + vec_bytes g) \<le> max_node_len g"
    using node_fits [OF assms(2)] by (simp add: node_nbrs_alt)
  have "get32 m (a + (vec_bytes g + 4 + 4 * i)) = get32 m' (a' + (vec_bytes g + 4 + 4 * i))"
    if "i < get32 m (a + vec_bytes g)" for i
    using sub [of "vec_bytes g + 4 + 4 * i" 4] that k by (simp add: get32_def)
  then show "node_nbrs g m a = node_nbrs g m' a'"
    by (simp add: node_nbrs_alt get32s_def n [symmetric] add.assoc)
qed

section \<open>Properties of the layout\<close>

lemma loc_sector_small:
  "wf_geom g \<Longrightarrow> loc < 4294967296 \<Longrightarrow> loc_sector_no g loc = 1 + loc div nnodes_per_sector g"
proof -
  assume g: "wf_geom g" "loc < 4294967296"
  have "loc div nnodes_per_sector g < 4294967296" using g(2) by (rule le_less_trans [OF div_le_dividend])
  then have "u64 (1 + loc div nnodes_per_sector g) = 1 + loc div nnodes_per_sector g" by (intro u64_id) simp
  with g show ?thesis by (simp add: loc_sector_no_def wf_geom_def)
qed

text \<open>a 32-bit location is recovered from its sector and its slot, so two locations with
  the same sector and slot are the same: no two nodes share a place on disk.\<close>

theorem sector_loc_roundtrip:
  assumes "wf_geom g" "loc < 4294967296"
  shows "sector_to_loc g (loc_sector_no g loc) (loc mod nnodes_per_sector g) = loc"
proof -
  let ?n = "nnodes_per_sector g"
  have d: "loc div ?n < 4294967296" using assms(2) by (rule le_less_trans [OF div_le_dividend])
  have "u64 (1 + loc div ?n + 18446744073709551615) = (loc div ?n + 2 ^ 64) mod 2 ^ 64"
    by (simp add: u64_def)
  also have "\<dots> = loc div ?n" using d by (subst mod_add_self2) (rule mod_less, simp)
  finally have s: "u64 (1 + loc div ?n + 18446744073709551615) = loc div ?n" .
  have "loc div ?n * ?n + loc mod ?n = loc" by (rule div_mult_mod_eq)
  with s assms show ?thesis by (simp add: sector_to_loc_def loc_sector_small u64_id)
qed

theorem sector_loc_roundtrip_witness:
  "sector_to_loc \<lparr>max_node_len = 516, nnodes_per_sector = 7, data_dim = 96, sizeof_T = 4\<rparr>
     (loc_sector_no \<lparr>max_node_len = 516, nnodes_per_sector = 7, data_dim = 96, sizeof_T = 4\<rparr> 100)
     (100 mod 7) = 100"
  using sector_loc_roundtrip [of "\<lparr>max_node_len = 516, nnodes_per_sector = 7, data_dim = 96, sizeof_T = 4\<rparr>" 100]
  by (simp add: wf_geom_def vec_bytes_def SECTOR_LEN_def)

text \<open>C12: storing a node of at most \<^verbatim>\<open>max_degree\<close> neighbors in its slot and reading the slot
  back gives its coordinates and neighbors, and every other slot of the sector still reads as
  before.\<close>

theorem store_node_roundtrip:
  assumes "wf_geom g" "length coords = vec_bytes g" "length nhood \<le> max_degree_of g"
    and "\<forall>x \<in> set nhood. x < 4294967296"
    and "m' = store_node g m (open_node g m i (offset_to_loc g base loc)) coords nhood"
  shows "node_coords g m' (offset_to_loc g base loc) = coords \<and>
    node_nbrs g m' (offset_to_loc g base loc) = nhood \<and>
    (loc' mod nnodes_per_sector g \<noteq> loc mod nnodes_per_sector g \<longrightarrow>
      length (node_nbrs g m (offset_to_loc g base loc')) \<le> max_degree_of g \<longrightarrow>
      node_coords g m' (offset_to_loc g base loc') = node_coords g m (offset_to_loc g base loc') \<and>
      node_nbrs g m' (offset_to_loc g base loc') = node_nbrs g m (offset_to_loc g base loc'))"
proof (intro conjI impI)
  have deg: "max_degree_of g = max_nbrs g" using max_degree_max_nbrs assms(1) by blast
  have len: "length nhood < 4294967296"
    using assms(3) max_nbrs_less [OF assms(1)] deg by simp
  show "node_coords g m' (offset_to_loc g base loc) = coords"
    using store_node_same(1) [OF assms(2)] assms(5) by simp
  have "map u32 nhood = nhood" using assms(4) by (auto simp: u32_id intro: map_idI)
  then show "node_nbrs g m' (offset_to_loc g base loc) = nhood"
    using store_node_same(2) [OF assms(2) len] assms(5) by simp
  assume ne: "loc' mod nnodes_per_sector g \<noteq> loc mod nnodes_per_sector g"
    and lo: "length (node_nbrs g m (offset_to_loc g base loc')) \<le> max_degree_of g"
  have "m' x = m x" if "offset_to_loc g base loc' \<le> x" "x < offset_to_loc g base loc' + max_node_len g" for x
    unfolding assms(5)
    by (rule store_node_frame [OF assms(2)])
      (use slots_disjoint [OF assms(1) ne, of base] node_fits [OF assms(1), of "length nhood"] assms(3) deg that in auto)
  then have p: "peek m (offset_to_loc g base loc') (max_node_len g) = peek m' (offset_to_loc g base loc') (max_node_len g)"
    by (intro peek_cong) simp
  show "node_coords g m' (offset_to_loc g base loc') = node_coords g m (offset_to_loc g base loc')"
    using slot_cong(1) [OF p assms(1)] by simp
  show "node_nbrs g m' (offset_to_loc g base loc') = node_nbrs g m (offset_to_loc g base loc')"
    using slot_cong(3) [OF p assms(1)] lo deg by simp
qed

theorem store_node_roundtrip_witness:
  "node_nbrs \<lparr>max_node_len = 20, nnodes_per_sector = 2, data_dim = 4, sizeof_T = 1\<rparr>
     (store_node \<lparr>max_node_len = 20, nnodes_per_sector = 2, data_dim = 4, sizeof_T = 1\<rparr> (\<lambda>_. 0)
       (open_node \<lparr>max_node_len = 20, nnodes_per_sector = 2, data_dim = 4, sizeof_T = 1\<rparr> (\<lambda>_. 0) 3 20)
       [1, 2, 3, 4] [5, 6, 7]) 20 = [5, 6, 7]"
proof -
  let ?g = "\<lparr>max_node_len = 20, nnodes_per_sector = 2, data_dim = 4, sizeof_T = 1\<rparr>"
  have o: "offset_to_loc ?g 0 1 = 20" by (simp add: offset_to_loc_def)
  have w: "wf_geom ?g" "length [1, 2, 3, 4 :: byte] = vec_bytes ?g" "length [5, 6, 7 :: nat] \<le> max_degree_of ?g"
    "\<forall>x \<in> set [5, 6, 7]. x < (4294967296 :: nat)"
    by (simp_all add: wf_geom_def vec_bytes_def max_degree_of_def SECTOR_LEN_def)
  from store_node_roundtrip [OF w refl, of "\<lambda>_. 0" 3 0 1] show ?thesis unfolding o by blast
qed

end
