(* ===== verification/Conc_Queue.thy ===== *)
theory Conc_Queue imports Prelude begin

text \<open>
  \<^verbatim>\<open>ConcurrentQueue\<close> of \<^verbatim>\<open>include/concurrent_queue.h\<close>: a queue whose \<^verbatim>\<open>pop\<close> returns a
  designated null value when it is empty.  Each method holds the queue's mutex for its whole
  body, so a method is one atomic step of the model; the condition variables carry no state.
\<close>

record 'a cqueue =
  cq_q :: "'a list"
  null_T :: 'a

definition cq_new :: "'a \<Rightarrow> 'a cqueue" where
  "cq_new nullT = \<lparr>cq_q = [], null_T = nullT\<rparr>"

definition cq_size :: "'a cqueue \<Rightarrow> nat" where
  "cq_size c = length (cq_q c)"

definition cq_empty :: "'a cqueue \<Rightarrow> bool" where
  "cq_empty c = (cq_size c = 0)"

definition cq_push :: "'a \<Rightarrow> 'a cqueue \<Rightarrow> 'a cqueue" where
  "cq_push new_val c = c\<lparr>cq_q := cq_q c @ [new_val]\<rparr>"

fun cq_insert :: "'a list \<Rightarrow> 'a cqueue \<Rightarrow> 'a cqueue" where
  "cq_insert [] c = c"
| "cq_insert (x # xs) c = cq_insert xs (cq_push x c)"

definition cq_pop :: "'a cqueue \<Rightarrow> 'a \<times> 'a cqueue" where
  "cq_pop c = (case cq_q c of [] \<Rightarrow> (null_T c, c) | x # rest \<Rightarrow> (x, c\<lparr>cq_q := rest\<rparr>))"

text \<open>The loop \<^verbatim>\<open>while (!q.empty()) q.pop()\<close> of \<^verbatim>\<open>reload\<close>, with its trace.\<close>

function cq_drain :: "'a cqueue \<Rightarrow> 'a list \<times> 'a cqueue" where
  "cq_drain c = (if cq_empty c then ([], c)
     else (let (x, c') = cq_pop c; (xs, c'') = cq_drain c' in (x # xs, c'')))"
  by pat_completeness auto
termination
  by (relation "measure cq_size") (auto simp: cq_empty_def cq_size_def cq_pop_def split: list.splits)

declare cq_drain.simps [simp del]

section \<open>The contract its clients rely on\<close>

locale null_queue =
  fixes push :: "'a \<Rightarrow> 'q \<Rightarrow> 'q"
    and pop :: "'q \<Rightarrow> 'a \<times> 'q"
    and contents :: "'q \<Rightarrow> 'a list"
    and null :: "'q \<Rightarrow> 'a"
  assumes push_contents: "contents (push x q) = contents q @ [x]"
    and push_null: "null (push x q) = null q"
    and pop_empty: "contents q = [] \<Longrightarrow> pop q = (null q, q)"
    and pop_first: "contents q = x # xs \<Longrightarrow> fst (pop q) = x \<and> contents (snd (pop q)) = xs"
    and pop_null: "null (snd (pop q)) = null q"
begin

text \<open>A client that pops until it sees the null value, as \<^verbatim>\<open>alloc_loc\<close> does, sees exactly the
  contents up to the first null value stored in the queue.\<close>

fun pop_until_null :: "nat \<Rightarrow> 'q \<Rightarrow> 'a list" where
  "pop_until_null 0 q = []"
| "pop_until_null (Suc n) q = (let (x, q') = pop q in if x = null q then [] else x # pop_until_null n q')"

lemma pop_until_null_contents:
  "length (contents q) < n \<Longrightarrow> pop_until_null n q = takeWhile (\<lambda>x. x \<noteq> null q) (contents q)"
proof (induction n arbitrary: q)
  case (Suc n)
  show ?case
  proof (cases "contents q")
    case Nil
    then show ?thesis by (simp add: pop_empty)
  next
    case (Cons x xs)
    obtain y q' where p: "pop q = (y, q')" by (cases "pop q")
    with pop_first [OF Cons] pop_null [of q] have "y = x" "contents q' = xs" "null q' = null q" by auto
    with Suc Cons p show ?thesis by simp
  qed
qed simp

lemma push_pop_fifo: "contents q = [] \<Longrightarrow> fst (pop (push x q)) = x \<and> contents (snd (pop (push x q))) = []"
  using pop_first [of "push x q" x "[]"] by (simp add: push_contents)

end

interpretation cq: null_queue cq_push cq_pop cq_q null_T
  by standard (auto simp: cq_push_def cq_pop_def split: list.splits)

lemma cq_insert_contents: "cq_q (cq_insert xs c) = cq_q c @ xs \<and> null_T (cq_insert xs c) = null_T c"
  by (induction xs arbitrary: c) (auto simp: cq.push_contents cq.push_null)

lemma cq_drain_contents: "fst (cq_drain c) = cq_q c \<and> cq_q (snd (cq_drain c)) = [] \<and>
    null_T (snd (cq_drain c)) = null_T c"
proof (induction c rule: cq_drain.induct)
  case (1 c)
  show ?case
  proof (cases "cq_q c")
    case Nil
    then show ?thesis by (simp add: cq_drain.simps [of c] cq_empty_def cq_size_def)
  next
    case (Cons x xs)
    obtain y c' where p: "cq_pop c = (y, c')" by (cases "cq_pop c")
    have c': "y = x" "cq_q c' = xs" "null_T c' = null_T c"
      using p Cons by (auto simp: cq_pop_def)
    have ne: "\<not> cq_empty c" using Cons by (simp add: cq_empty_def cq_size_def)
    from 1 [OF ne p [symmetric] refl] c' show ?thesis
      by (simp add: cq_drain.simps [of c] ne p Cons split_beta)
  qed
qed

text \<open>elements leave the queue in the order they entered it, one by one, and a drained
  queue is empty with the same null value.\<close>

theorem cq_fifo:
  "fst (cq_drain (cq_insert xs (cq_new nul))) = xs \<and> cq_empty (snd (cq_drain (cq_insert xs (cq_new nul)))) \<and>
   cq_pop (snd (cq_drain (cq_insert xs (cq_new nul)))) = (nul, snd (cq_drain (cq_insert xs (cq_new nul))))"
  using cq_drain_contents [of "cq_insert xs (cq_new nul)"] cq_insert_contents [of xs "cq_new nul"]
  by (simp add: cq_new_def cq_empty_def cq_size_def cq.pop_empty)

end
