(* ===== verification/Loc_Map.thy ===== *)
theory Loc_Map imports Disk_Layout Conc_Queue begin

text \<open>
  The id-to-location mapping (\<^verbatim>\<open>include/ssd_index.h\<close>): \<^verbatim>\<open>id2loc_\<close>, the page layout (sixteen slots
  per page: the id stored there, \<^verbatim>\<open>kInvalidID\<close> for a hole, \<^verbatim>\<open>kAllocatedID\<close> for a slot handed out
  by \<^verbatim>\<open>alloc_loc\<close> and not yet bound), the queue of empty pages and the counters.  The concurrent
  hash maps are maps; \<^verbatim>\<open>upsert\<close> of a missing key with a functor of one argument inserts the
  value-initialised array and does not call the functor.
\<close>

definition kMaxElemInAPage :: nat where
  "kMaxElemInAPage = 16"

definition kIndexSizeFactor :: nat where
  "kIndexSizeFactor = 2"

record loc_map =
  id2loc_map :: "nat \<Rightarrow> nat option"
  page_layout :: "nat \<Rightarrow> nat list option"
  empty_pages :: "nat cqueue"
  cur_id :: nat
  cur_loc :: nat

definition id2loc :: "loc_map \<Rightarrow> nat \<Rightarrow> nat res" where
  "id2loc lm i = (case id2loc_map lm i of Some loc \<Rightarrow> Inr loc | None \<Rightarrow> Inl Crash)"

definition id2page :: "geom \<Rightarrow> loc_map \<Rightarrow> nat \<Rightarrow> nat res" where
  "id2page g lm i = bindE (id2loc lm i) (\<lambda>loc. Inr (if loc = kInvalidID then kInvalidID else loc_sector_no g loc))"

definition node_sector_no :: "geom \<Rightarrow> loc_map \<Rightarrow> nat \<Rightarrow> nat res" where
  "node_sector_no g lm i = bindE (id2loc lm i) (\<lambda>loc. Inr (loc_sector_no g loc))"

definition offset_to_node :: "geom \<Rightarrow> loc_map \<Rightarrow> nat \<Rightarrow> nat \<Rightarrow> nat res" where
  "offset_to_node g lm sector_buf i = bindE (id2loc lm i) (\<lambda>loc. Inr (offset_to_loc g sector_buf loc))"

definition u_node_offset :: "geom \<Rightarrow> loc_map \<Rightarrow> nat \<Rightarrow> nat res" where
  "u_node_offset g lm i = bindE (id2loc lm i) (\<lambda>loc. Inr (u_loc_offset g loc))"

text \<open>\<^verbatim>\<open>v[i]\<close> on a page array, and \<^verbatim>\<open>loc % nnodes_per_sector\<close>.\<close>

definition arr_get :: "nat list \<Rightarrow> nat \<Rightarrow> nat res" where
  "arr_get v i = (if i < length v then Inr (v ! i) else Inl OutOfRange)"

definition arr_set :: "nat list \<Rightarrow> nat \<Rightarrow> nat \<Rightarrow> nat list res" where
  "arr_set v i x = (if i < length v then Inr (v[i := x]) else Inl OutOfRange)"

definition slot_no :: "geom \<Rightarrow> nat \<Rightarrow> nat res" where
  "slot_no g loc = (if nnodes_per_sector g = 0 then Inl Trap else Inr (loc mod nnodes_per_sector g))"

definition loc2id :: "geom \<Rightarrow> loc_map \<Rightarrow> nat \<Rightarrow> nat res" where
  "loc2id g lm loc = bindE (slot_no g loc) (\<lambda>offset.
     (case page_layout lm (u32 (loc_sector_no g loc)) of None \<Rightarrow> Inr kInvalidID | Some v \<Rightarrow> arr_get v offset))"

definition fresh_page :: "geom \<Rightarrow> nat list res" where
  "fresh_page g = (if kMaxElemInAPage < nnodes_per_sector g then Inl OutOfRange
     else Inr (replicate (nnodes_per_sector g) kInvalidID @ replicate (kMaxElemInAPage - nnodes_per_sector g) 0))"

definition set_loc2id :: "geom \<Rightarrow> nat \<Rightarrow> nat \<Rightarrow> loc_map \<Rightarrow> loc_map res" where
  "set_loc2id g loc i lm = (let page = u32 (loc_sector_no g loc) in
     bindE (slot_no g loc) (\<lambda>offset.
     bindE (case page_layout lm page of None \<Rightarrow> fresh_page g | Some v \<Rightarrow> Inr v) (\<lambda>v.
     bindE (arr_set v offset i) (\<lambda>v. Inr (lm\<lparr>page_layout := (page_layout lm)(page \<mapsto> v)\<rparr>)))))"

definition page_is_empty :: "geom \<Rightarrow> nat list \<Rightarrow> bool" where
  "page_is_empty g v = list_all (\<lambda>i. v ! i = kInvalidID) [0..<nnodes_per_sector g]"

definition erase_loc2id :: "geom \<Rightarrow> nat \<Rightarrow> loc_map \<Rightarrow> loc_map res" where
  "erase_loc2id g loc lm = (let page = u32 (loc_sector_no g loc) in
     bindE (slot_no g loc) (\<lambda>offset.
     (case page_layout lm page of
        None \<Rightarrow> Inr (lm\<lparr>page_layout := (page_layout lm)(page \<mapsto> replicate kMaxElemInAPage 0)\<rparr>)
      | Some v \<Rightarrow> bindE (arr_set v offset kInvalidID) (\<lambda>v.
          let lm1 = lm\<lparr>page_layout := (page_layout lm)(page \<mapsto> v)\<rparr>
          in Inr (if page_is_empty g v then lm1\<lparr>empty_pages := cq_push page (empty_pages lm1)\<rparr> else lm1)))))"

definition erase_and_set_loc :: "geom \<Rightarrow> nat list \<Rightarrow> nat list \<Rightarrow> nat list \<Rightarrow> loc_map \<Rightarrow> loc_map res" where
  "erase_and_set_loc g old_locs new_locs new_ids lm =
     (if length new_ids < length new_locs then Inl OutOfRange
      else bindE (foldE (\<lambda>(l, i). set_loc2id g (u32 l) i) (zip new_locs new_ids) lm)
        (foldE (\<lambda>l. erase_loc2id g (u32 l)) old_locs))"

section \<open>alloc\_loc\<close>

text \<open>The slots of a page that must be empty are taken one after the other.\<close>

fun alloc_empty_slots :: "geom \<Rightarrow> nat \<Rightarrow> nat \<Rightarrow> nat list \<Rightarrow> nat list \<times> nat list \<times> nat \<Rightarrow> (nat list \<times> nat list \<times> nat) res" where
  "alloc_empty_slots g n page [] (v, ret, cur) = Inr (v, ret, cur)"
| "alloc_empty_slots g n page (i # is) (v, ret, cur) =
     bindE (arr_get v i) (\<lambda>x.
       if x \<noteq> kInvalidID then Inl Crash
       else let st = (v[i := kAllocatedID], ret @ [sector_to_loc g page i], cur + 1)
            in if cur + 1 = n then Inr st else alloc_empty_slots g n page is st)"

fun alloc_holes :: "geom \<Rightarrow> nat \<Rightarrow> nat \<Rightarrow> nat list \<Rightarrow> nat list \<times> nat list \<times> nat \<Rightarrow> (nat list \<times> nat list \<times> nat) res" where
  "alloc_holes g n page [] (v, ret, cur) = Inr (v, ret, cur)"
| "alloc_holes g n page (i # is) (v, ret, cur) =
     bindE (arr_get v i) (\<lambda>x.
       if x \<noteq> kInvalidID then alloc_holes g n page is (v, ret, cur)
       else let st = (v[i := kAllocatedID], ret @ [sector_to_loc g page i], cur + 1)
            in if cur + 1 = n then Inr st else alloc_holes g n page is st)"

text \<open>The loop over the queue of empty pages; the flag says that \<^verbatim>\<open>n\<close> was reached inside it.\<close>

function alloc_from_empty :: "geom \<Rightarrow> nat \<Rightarrow> loc_map \<times> nat list \<times> nat \<Rightarrow> (bool \<times> loc_map \<times> nat list \<times> nat) res" where
  "alloc_from_empty g n (lm, ret, cur) =
     (let (page, q) = cq_pop (empty_pages lm); lm1 = lm\<lparr>empty_pages := q\<rparr>
      in if cq_q (empty_pages lm) = [] \<or> page = kInvalidID then Inr (False, lm1, ret, cur)
         else bindE (case page_layout lm1 page of None \<Rightarrow> Inr (lm1, ret, cur)
                     | Some v \<Rightarrow> bindE (alloc_empty_slots g n page [0..<nnodes_per_sector g] (v, ret, cur))
                         (\<lambda>(v, ret, cur). Inr (lm1\<lparr>page_layout := (page_layout lm1)(page \<mapsto> v)\<rparr>, ret, cur)))
                (\<lambda>(lm, ret, cur). if cur = n then Inr (True, lm, ret, cur)
                  else alloc_from_empty g n (lm\<lparr>empty_pages := q\<rparr>, ret, cur)))"
  by pat_completeness auto
termination
  by (relation "measure (\<lambda>(g, n, lm, ret, cur). length (cq_q (empty_pages lm)))")
    (auto simp: cq_pop_def split: list.splits)

definition hole_count :: "geom \<Rightarrow> nat list \<Rightarrow> nat" where
  "hole_count g v = length (filter (\<lambda>i. v ! i = kInvalidID) [0..<nnodes_per_sector g])"

fun alloc_from_hints :: "geom \<Rightarrow> nat \<Rightarrow> nat list \<Rightarrow> loc_map \<times> nat list \<times> nat \<times> nat set \<Rightarrow>
    (bool \<times> loc_map \<times> nat list \<times> nat \<times> nat set) res" where
  "alloc_from_hints g n [] (lm, ret, cur, need) = Inr (False, lm, ret, cur, need)"
| "alloc_from_hints g n (p # ps) (lm, ret, cur, need) =
     bindE (case page_layout lm (u32 p) of None \<Rightarrow> Inr (lm, ret, cur, need)
            | Some v \<Rightarrow>
                if length v < nnodes_per_sector g then Inl OutOfRange
                else let cnt = hole_count g v;
                         threshold = (nnodes_per_sector g + kIndexSizeFactor - 1) div kIndexSizeFactor
                in if cnt < threshold then Inr (lm, ret, cur, need)
                else let need = (if cnt < nnodes_per_sector g then insert p need else need)
                in bindE (alloc_holes g n p [0..<nnodes_per_sector g] (v, ret, cur))
                     (\<lambda>(v, ret, cur). Inr (lm\<lparr>page_layout := (page_layout lm)(u32 p \<mapsto> v)\<rparr>, ret, cur, need)))
       (\<lambda>(lm, ret, cur, need). if cur = n then Inr (True, lm, ret, cur, need)
          else alloc_from_hints g n ps (lm, ret, cur, need))"

definition alloc_new_space :: "geom \<Rightarrow> nat \<Rightarrow> loc_map \<times> nat list \<times> nat \<Rightarrow> (loc_map \<times> nat list) res" where
  "alloc_new_space g n = (\<lambda>(lm, ret, cur).
     let remaining = int n - int cur
     in bindE (foldE (\<lambda>i. set_loc2id g (u32 (cur_loc lm + i)) kAllocatedID) [0..<nat remaining] lm) (\<lambda>lm1.
        if nnodes_per_sector g = 0 then Inl Trap
        else let ret = ret @ map (\<lambda>i. u64 (cur_loc lm + i)) [0..<nat remaining];
                 loc1 = nat ((int (cur_loc lm) + remaining) mod 18446744073709551616);
                 loc2 = (if loc1 mod nnodes_per_sector g \<noteq> 0
                         then u64 (loc1 + (nnodes_per_sector g - loc1 mod nnodes_per_sector g)) else loc1)
             in Inr (lm1\<lparr>cur_loc := loc2\<rparr>, ret)))"

definition alloc_loc :: "geom \<Rightarrow> nat \<Rightarrow> nat list \<Rightarrow> nat set \<Rightarrow> loc_map \<Rightarrow> (nat list \<times> nat set \<times> loc_map) res" where
  "alloc_loc g n hint_pages need lm =
     bindE (alloc_from_empty g n (lm, [], 0)) (\<lambda>(fin, lm, ret, cur).
       if fin then Inr (ret, need, lm)
       else bindE (alloc_from_hints g n hint_pages (lm, ret, cur, need)) (\<lambda>(fin, lm, ret, cur, need).
         if fin then Inr (ret, need, lm)
         else bindE (alloc_new_space g n (lm, ret, cur)) (\<lambda>(lm, ret). Inr (ret, need, lm))))"

section \<open>load\_page\_layout and verify\_id2loc\<close>

text \<open>Without a partition file: the identity mapping.  The keys are 32-bit: there are fewer than
  \<^verbatim>\<open>2^32\<close> points.\<close>

definition load_equal_layout :: "geom \<Rightarrow> nat \<Rightarrow> loc_map \<Rightarrow> loc_map res" where
  "load_equal_layout g num_points lm =
     (if nnodes_per_sector g = 0 then Inl Trap
      else if kMaxElemInAPage < nnodes_per_sector g then Inl OutOfRange
      else let n = nnodes_per_sector g;
               num_sectors = (num_points + n - 1) div n;
               page_arr = (\<lambda>i. map (\<lambda>j. if j < n \<and> i * n + j < num_points then u32 (i * n + j) else kInvalidID)
                                 [0..<kMaxElemInAPage]);
               layout = (\<lambda>p. if page_layout lm p = None \<and> loc_sector_no g 0 \<le> p \<and> p < loc_sector_no g 0 + num_sectors
                             then Some (page_arr (p - loc_sector_no g 0)) else page_layout lm p)
           in Inr (lm\<lparr>id2loc_map := (\<lambda>i. if i < num_points then Some i else id2loc_map lm i), page_layout := layout,
                cur_loc := (if num_points mod n \<noteq> 0 then num_points + (n - num_points mod n) else num_points)\<rparr>))"

text \<open>With a partition file: its rows, the number of nodes of a partition and the slot contents.\<close>

fun load_partition_rows :: "geom \<Rightarrow> nat \<Rightarrow> (nat \<times> nat list) list \<Rightarrow> loc_map \<Rightarrow> loc_map res" where
  "load_partition_rows g i [] lm = Inr lm"
| "load_partition_rows g i ((s, tmp_arr) # rows) lm =
     (if length tmp_arr < s then Inl OutOfRange
      else let page = u32 (loc_sector_no g 0 + i);
               m = fold (\<lambda>j m. m(tmp_arr ! j \<mapsto> u32 (i * nnodes_per_sector g + j))) [0..<s] (id2loc_map lm);
               lay = (case page_layout lm page of None \<Rightarrow> (page_layout lm)(page \<mapsto> tmp_arr) | Some _ \<Rightarrow> page_layout lm)
           in load_partition_rows g (i + 1) rows (lm\<lparr>id2loc_map := m, page_layout := lay\<rparr>))"

definition load_partition_layout :: "geom \<Rightarrow> nat \<Rightarrow> nat \<Rightarrow> (nat \<times> nat list) list \<Rightarrow> loc_map \<Rightarrow> loc_map res" where
  "load_partition_layout g num_points C rows lm =
     (if nnodes_per_sector g \<noteq> 0 \<and> num_points \<noteq> 0 \<and> C \<noteq> nnodes_per_sector g then Inl Exit
      else bindE (load_partition_rows g 0 rows lm)
        (\<lambda>lm. Inr (lm\<lparr>cur_loc := u64 (length rows * nnodes_per_sector g)\<rparr>)))"

fun verify_ids :: "geom \<Rightarrow> loc_map \<Rightarrow> nat list \<Rightarrow> unit res" where
  "verify_ids g lm [] = Inr ()"
| "verify_ids g lm (i # is) =
     bindE (id2loc lm i) (\<lambda>loc. if cur_loc lm \<le> loc then Inl Crash
       else bindE (loc2id g lm loc) (\<lambda>j. if j \<noteq> i then Inl Crash else verify_ids g lm is))"

text \<open>The second loop only logs an inconsistency; it still fails when \<^verbatim>\<open>id2loc\<close> does.\<close>

fun verify_locs :: "geom \<Rightarrow> loc_map \<Rightarrow> nat list \<Rightarrow> nat list res" where
  "verify_locs g lm [] = Inr []"
| "verify_locs g lm (l # ls) =
     bindE (loc2id g lm l) (\<lambda>i.
       if i \<noteq> kInvalidID \<and> i \<noteq> kAllocatedID
       then bindE (id2loc lm i) (\<lambda>loc. bindE (verify_locs g lm ls) (\<lambda>bad. Inr (if loc \<noteq> l then l # bad else bad)))
       else verify_locs g lm ls)"

definition verify_id2loc :: "geom \<Rightarrow> loc_map \<Rightarrow> nat list res" where
  "verify_id2loc g lm = bindE (verify_ids g lm [0..<cur_id lm]) (\<lambda>_. verify_locs g lm [0..<cur_loc lm])"

section \<open>Binding an insert's nodes (\<^verbatim>\<open>insert_in_place\<close>)\<close>

text \<open>The new id is bound first; each neighbor's old location is remembered as its new one is
  bound, then the page layout follows under the allocation lock.\<close>

fun rebind_nbrs :: "nat list \<Rightarrow> nat list \<Rightarrow> loc_map \<times> nat list \<Rightarrow> (loc_map \<times> nat list) res" where
  "rebind_nbrs [] locs (lm, orig_locs) = Inr (lm, orig_locs)"
| "rebind_nbrs (nb # nbs) [] (lm, orig_locs) = Inl OutOfRange"
| "rebind_nbrs (nb # nbs) (l # ls) (lm, orig_locs) =
     bindE (id2loc lm nb) (\<lambda>o_loc.
       rebind_nbrs nbs ls (lm\<lparr>id2loc_map := (id2loc_map lm)(nb \<mapsto> u32 l)\<rparr>, orig_locs @ [o_loc]))"

definition rebind :: "geom \<Rightarrow> nat \<Rightarrow> nat list \<Rightarrow> nat list \<Rightarrow> loc_map \<Rightarrow> loc_map res" where
  "rebind g target_id new_nhood locs lm =
     (if length locs \<le> length new_nhood then Inl OutOfRange
      else bindE (rebind_nbrs new_nhood locs
                   (lm\<lparr>id2loc_map := (id2loc_map lm)(target_id \<mapsto> u32 (locs ! length new_nhood))\<rparr>, []))
             (\<lambda>(lm, orig_locs). erase_and_set_loc g orig_locs locs (new_nhood @ [target_id]) lm))"

end
