(* ===== verification/Loc_Alloc.thy ===== *)
theory Loc_Alloc imports Loc_Map begin

text \<open>
  What \<^verbatim>\<open>alloc_loc\<close> and \<^verbatim>\<open>erase_and_set_loc\<close> promise to an insert: the locations handed out were
  holes, are distinct, no page with a live node is written without being read, and after the
  new mapping is bound the mapping of ids to locations and the page layout are again inverse to
  each other.
\<close>

definition slot :: "geom \<Rightarrow> loc_map \<Rightarrow> nat \<Rightarrow> nat" where
  "slot g lm loc = (case page_layout lm (1 + loc div nnodes_per_sector g) of None \<Rightarrow> kInvalidID
     | Some v \<Rightarrow> v ! (loc mod nnodes_per_sector g))"

definition lm_ok :: "geom \<Rightarrow> loc_map \<Rightarrow> bool" where
  "lm_ok g lm \<longleftrightarrow>
     (\<forall>p v. page_layout lm p = Some v \<longrightarrow>
        length v = kMaxElemInAPage \<and> 0 < p \<and> (p - 1) * nnodes_per_sector g < cur_loc lm) \<and>
     cur_loc lm mod nnodes_per_sector g = 0 \<and> cur_loc lm \<le> 4294967280 \<and>
     null_T (empty_pages lm) = kInvalidID \<and> distinct (cq_q (empty_pages lm)) \<and>
     (\<forall>p \<in> set (cq_q (empty_pages lm)). \<exists>v. page_layout lm p = Some v \<and> page_is_empty g v)"

lemma lm_okD:
  assumes "lm_ok g lm"
  shows "page_layout lm p = Some v \<Longrightarrow> length v = 16"
    and "page_layout lm p = Some v \<Longrightarrow> 0 < p"
    and "page_layout lm p = Some v \<Longrightarrow> (p - 1) * nnodes_per_sector g < cur_loc lm"
    and "cur_loc lm mod nnodes_per_sector g = 0" "cur_loc lm \<le> 4294967280"
    and "null_T (empty_pages lm) = kInvalidID" "distinct (cq_q (empty_pages lm))"
    and "p \<in> set (cq_q (empty_pages lm)) \<Longrightarrow> \<exists>v. page_layout lm p = Some v \<and> page_is_empty g v"
  using assms unfolding lm_ok_def kMaxElemInAPage_def by blast+

lemma wf_geomD:
  assumes "wf_geom g"
  shows "0 < nnodes_per_sector g" "nnodes_per_sector g \<le> 16"
  using assms by (auto simp: wf_geom_def)

lemma page_small:
  assumes "wf_geom g" "lm_ok g lm" "page_layout lm p = Some v"
  shows "p < 4294967282"
proof -
  have "p - 1 \<le> (p - 1) * nnodes_per_sector g" using wf_geomD [OF assms(1)] by simp
  with lm_okD(3) [OF assms(2,3)] lm_okD(5) [OF assms(2)] show ?thesis by linarith
qed

lemma page_slot_mod:
  fixes n i p :: nat
  assumes "i < n"
  shows "((p - 1) * n + i) div n = p - 1" "((p - 1) * n + i) mod n = i"
  using assms by auto

lemma sector_to_loc_small:
  assumes "wf_geom g" "0 < p" "p < 4294967296" "i < nnodes_per_sector g"
  shows "sector_to_loc g p i = (p - 1) * nnodes_per_sector g + i"
proof -
  obtain q where q: "p = Suc q" using assms(2) by (cases p) auto
  have n: "nnodes_per_sector g \<le> 16" using wf_geomD [OF assms(1)] by simp
  have "u64 (p + 18446744073709551615) = q" using u64_dec [of p] assms(2,3) q by simp
  moreover have "q * nnodes_per_sector g \<le> 4294967296 * 16"
    using n assms(3) q by (intro mult_le_mono) auto
  ultimately show ?thesis using q n assms(4) by (simp add: sector_to_loc_def u64_id)
qed

lemma slot_page:
  assumes "i < nnodes_per_sector g" "0 < p"
  shows "slot g lm ((p - 1) * nnodes_per_sector g + i) =
    (case page_layout lm p of None \<Rightarrow> kInvalidID | Some v \<Rightarrow> v ! i)"
proof -
  have "1 + (p - 1) = p" using assms(2) by simp
  then show ?thesis by (simp only: slot_def page_slot_mod [OF assms(1)])
qed

lemma slot_upd:
  assumes "0 < p"
  shows "slot g (lm\<lparr>page_layout := (page_layout lm)(p \<mapsto> v)\<rparr>) l =
    (if l div nnodes_per_sector g = p - 1 then v ! (l mod nnodes_per_sector g) else slot g lm l)"
  using assms by (auto simp: slot_def)

lemma slot_queue [simp]: "slot g (lm\<lparr>empty_pages := q\<rparr>) l = slot g lm l"
  by (simp add: slot_def)

lemma loc2id_slot:
  assumes "wf_geom g" "lm_ok g lm" "loc < 4294967296"
  shows "loc2id g lm loc = Inr (slot g lm loc)"
proof -
  have n: "0 < nnodes_per_sector g" "nnodes_per_sector g \<le> 16" using wf_geomD [OF assms(1)] by auto
  have s: "loc_sector_no g loc = 1 + loc div nnodes_per_sector g" using loc_sector_small assms by blast
  show ?thesis
  proof (cases "1 + loc div nnodes_per_sector g < 4294967296")
    case True
    have "loc mod nnodes_per_sector g < 16" using n by (meson less_le_trans mod_less_divisor)
    with True s n show ?thesis using lm_okD(1) [OF assms(2)]
      by (auto simp: loc2id_def slot_no_def slot_def arr_get_def u32_id split: option.split)
  next
    case False
    then have p: "1 + loc div nnodes_per_sector g = 4294967296" using assms(3) div_le_dividend [of loc "nnodes_per_sector g"] by linarith
    have "page_layout lm 0 = None" using lm_okD(2) [OF assms(2)] by (metis less_irrefl option.exhaust)
    moreover have "page_layout lm 4294967296 = None"
      using page_small [OF assms(1,2), of 4294967296] by (cases "page_layout lm 4294967296") auto
    ultimately show ?thesis using n p by (simp add: loc2id_def slot_no_def s slot_def u32_def)
  qed
qed

section \<open>Taking holes of one page\<close>

lemma alloc_holes_spec:
  assumes "distinct is" "\<forall>i \<in> set is. i < length v" "cur < n"
  shows "\<exists>js v'. alloc_holes g n page is (v, ret, cur) = Inr (v', ret @ map (sector_to_loc g page) js, cur + length js) \<and>
    distinct js \<and> set js \<subseteq> {i \<in> set is. v ! i = kInvalidID} \<and> cur + length js \<le> n \<and> length v' = length v \<and>
    (\<forall>i < length v. v' ! i = (if i \<in> set js then kAllocatedID else v ! i))"
  using assms
proof (induction "is" arbitrary: v ret cur)
  case Nil
  show ?case by (intro exI [of _ "[]"] exI [of _ v]) (use Nil in auto)
next
  case (Cons i "is")
  have i: "i < length v" "i \<notin> set is" "distinct is" "\<forall>i \<in> set is. i < length v" using Cons.prems by auto
  show ?case
  proof (cases "v ! i = kInvalidID")
    case False
    with Cons.IH [OF i(3,4) Cons.prems(3), of ret] i(1) show ?thesis
      by (fastforce simp: arr_get_def)
  next
    case True
    let ?v = "v[i := kAllocatedID]"
    show ?thesis
    proof (cases "cur + 1 = n")
      case stop: True
      then show ?thesis using True i
        by (intro exI [of _ "[i]"] exI [of _ ?v]) (auto simp: arr_get_def nth_list_update)
    next
      case False
      have "\<forall>i \<in> set is. i < length ?v" "cur + 1 < n" using i False Cons.prems(3) by auto
      from Cons.IH [OF i(3) this, of "ret @ [sector_to_loc g page i]"] obtain js v' where
        j: "alloc_holes g n page is (?v, ret @ [sector_to_loc g page i], cur + 1) =
             Inr (v', ret @ [sector_to_loc g page i] @ map (sector_to_loc g page) js, cur + 1 + length js)"
          "distinct js" "set js \<subseteq> {k \<in> set is. ?v ! k = kInvalidID}" "cur + 1 + length js \<le> n" "length v' = length v"
          "\<forall>k < length v. v' ! k = (if k \<in> set js then kAllocatedID else ?v ! k)" by auto
      have sub: "set js \<subseteq> {k \<in> set is. v ! k = kInvalidID}"
      proof
        fix k assume "k \<in> set js"
        with j(3) have k: "k \<in> set is" "?v ! k = kInvalidID" by auto
        with i(2) have "k \<noteq> i" by auto
        with k show "k \<in> {k \<in> set is. v ! k = kInvalidID}" by simp
      qed
      have "alloc_holes g n page (i # is) (v, ret, cur) =
          Inr (v', ret @ map (sector_to_loc g page) (i # js), cur + length (i # js))"
        using j(1) True i(1) False by (simp add: arr_get_def)
      moreover have "\<forall>k < length v. v' ! k = (if k \<in> set (i # js) then kAllocatedID else v ! k)"
        using j(6) i(1) by (auto simp: nth_list_update)
      ultimately show ?thesis using j(2,4,5) sub i(2) True
        by (intro exI [of _ "i # js"] exI [of _ v']) auto
    qed
  qed
qed

lemma alloc_empty_is_holes:
  "distinct is \<Longrightarrow> \<forall>i \<in> set is. i < length v \<and> v ! i = kInvalidID \<Longrightarrow>
   alloc_empty_slots g n page is (v, ret, cur) = alloc_holes g n page is (v, ret, cur)"
proof (induction "is" arbitrary: v ret cur)
  case (Cons i "is")
  then have "\<forall>k \<in> set is. k < length (v[i := kAllocatedID]) \<and> v[i := kAllocatedID] ! k = kInvalidID"
    by (auto simp: nth_list_update)
  with Cons show ?case by (simp add: arr_get_def Let_def)
qed simp

text \<open>What the allocation has done so far: the holes \<^verbatim>\<open>ret\<close> of \<^verbatim>\<open>lm0\<close> are marked allocated in
  \<^verbatim>\<open>lm\<close>, nothing else changed.\<close>

definition took :: "geom \<Rightarrow> loc_map \<Rightarrow> loc_map \<Rightarrow> nat list \<Rightarrow> bool" where
  "took g lm0 lm ret \<longleftrightarrow> lm_ok g lm \<and> distinct ret \<and>
     (\<forall>l \<in> set ret. slot g lm0 l = kInvalidID \<and> l < cur_loc lm) \<and>
     (\<forall>l. slot g lm l = (if l \<in> set ret then kAllocatedID else slot g lm0 l)) \<and>
     id2loc_map lm = id2loc_map lm0 \<and> cur_id lm = cur_id lm0 \<and> cur_loc lm0 \<le> cur_loc lm"

text \<open>Every page of \<^verbatim>\<open>ret\<close> that held anything is to be read.\<close>

definition covers :: "geom \<Rightarrow> loc_map \<Rightarrow> nat list \<Rightarrow> nat set \<Rightarrow> bool" where
  "covers g lm0 ret need \<longleftrightarrow> (\<forall>l \<in> set ret. \<forall>l'. l' div nnodes_per_sector g = l div nnodes_per_sector g \<longrightarrow>
     slot g lm0 l' \<noteq> kInvalidID \<longrightarrow> loc_sector_no g l \<in> need)"

lemma tookD:
  assumes "took g lm0 lm ret"
  shows "lm_ok g lm" "distinct ret" "l \<in> set ret \<Longrightarrow> slot g lm0 l = kInvalidID" "l \<in> set ret \<Longrightarrow> l < cur_loc lm"
    and "slot g lm l = (if l \<in> set ret then kAllocatedID else slot g lm0 l)"
    and "id2loc_map lm = id2loc_map lm0" "cur_id lm = cur_id lm0" "cur_loc lm0 \<le> cur_loc lm"
  using assms unfolding took_def by blast+

lemma took_hole: "took g lm0 lm ret \<Longrightarrow> slot g lm l = kInvalidID \<Longrightarrow> l \<notin> set ret \<and> slot g lm0 l = kInvalidID"
  using tookD(5) [of g lm0 lm ret l] kIDs_distinct by (auto split: if_splits)

lemma took_refl: "lm_ok g lm \<Longrightarrow> took g lm lm []"
  by (simp add: took_def)

lemma covers_mono: "covers g lm0 ret need \<Longrightarrow> need \<subseteq> need' \<Longrightarrow> covers g lm0 ret need'"
  by (auto simp: covers_def)

lemma covers_append: "covers g lm0 (xs @ ys) need \<longleftrightarrow> covers g lm0 xs need \<and> covers g lm0 ys need"
  by (auto simp: covers_def)

lemma page_locs:
  assumes "wf_geom g" "0 < p" "p < 4294967296" "\<forall>i \<in> set js. i < nnodes_per_sector g"
  shows "l \<in> set (map (sector_to_loc g p) js) \<longleftrightarrow>
      l div nnodes_per_sector g = p - 1 \<and> l mod nnodes_per_sector g \<in> set js"
    and "distinct js \<Longrightarrow> distinct (map (sector_to_loc g p) js)"
proof -
  have e: "map (sector_to_loc g p) js = map (\<lambda>i. (p - 1) * nnodes_per_sector g + i) js"
    using sector_to_loc_small [OF assms(1-3)] assms(4) by simp
  show "l \<in> set (map (sector_to_loc g p) js) \<longleftrightarrow>
      l div nnodes_per_sector g = p - 1 \<and> l mod nnodes_per_sector g \<in> set js"
  proof
    assume "l \<in> set (map (sector_to_loc g p) js)"
    then obtain i where "i \<in> set js" "l = (p - 1) * nnodes_per_sector g + i" unfolding e by auto
    with assms(4) page_slot_mod [of i "nnodes_per_sector g" p]
    show "l div nnodes_per_sector g = p - 1 \<and> l mod nnodes_per_sector g \<in> set js" by simp
  next
    assume a: "l div nnodes_per_sector g = p - 1 \<and> l mod nnodes_per_sector g \<in> set js"
    have "l div nnodes_per_sector g * nnodes_per_sector g + l mod nnodes_per_sector g = l"
      by (rule div_mult_mod_eq)
    then have "l = (p - 1) * nnodes_per_sector g + l mod nnodes_per_sector g" using a by simp
    then show "l \<in> set (map (sector_to_loc g p) js)" unfolding e using a by auto
  qed
  show "distinct (map (sector_to_loc g p) js)" if "distinct js"
    unfolding e using that by (simp add: distinct_map inj_on_def)
qed

lemma slot_in_page:
  assumes "page_layout lm p = Some v" "0 < p" "l div nnodes_per_sector g = p - 1"
  shows "slot g lm l = v ! (l mod nnodes_per_sector g)"
  using assms by (simp add: slot_def)

lemma page_in_bounds:
  assumes "wf_geom g" "lm_ok g lm" "page_layout lm p = Some v" "l div nnodes_per_sector g = p - 1"
  shows "l < cur_loc lm"
proof -
  let ?n = "nnodes_per_sector g"
  have n: "0 < ?n" using wf_geomD [OF assms(1)] by simp
  obtain k where k: "cur_loc lm = ?n * k" using lm_okD(4) [OF assms(2)] by (metis mod_0_imp_dvd dvdE)
  with lm_okD(3) [OF assms(2,3)] n have "p - 1 < k" by (metis mult.commute mult_less_cancel1)
  with assms(4) have "l div ?n < k" by simp
  then have "l < k * ?n" using n by (simp add: div_less_iff_less_mult)
  with k show ?thesis by (simp add: mult.commute)
qed

lemma lm_ok_page_upd:
  assumes "lm_ok g lm" "page_layout lm p = Some v" "length v' = 16" "p \<notin> set (cq_q (empty_pages lm))"
  shows "lm_ok g (lm\<lparr>page_layout := (page_layout lm)(p \<mapsto> v')\<rparr>)"
proof -
  have "\<exists>w. ((page_layout lm)(p \<mapsto> v')) q = Some w \<and> page_is_empty g w"
    if "q \<in> set (cq_q (empty_pages lm))" for q
    using that assms(4) lm_okD(8) [OF assms(1) that] by (cases "q = p") auto
  then show ?thesis using assms(3) lm_okD [OF assms(1)] assms(2)
    by (auto simp: lm_ok_def kMaxElemInAPage_def)
qed

lemma page_step:
  assumes "wf_geom g" "took g lm0 lm ret" "page_layout lm p = Some v" "p \<notin> set (cq_q (empty_pages lm))"
    and "distinct js" "set js \<subseteq> {i. i < nnodes_per_sector g \<and> v ! i = kInvalidID}"
    and "length v' = 16" "\<forall>i < 16. v' ! i = (if i \<in> set js then kAllocatedID else v ! i)"
  shows "took g lm0 (lm\<lparr>page_layout := (page_layout lm)(p \<mapsto> v')\<rparr>) (ret @ map (sector_to_loc g p) js)"
proof -
  note ok = tookD(1) [OF assms(2)]
  have p: "0 < p" "p < 4294967296" using lm_okD(2) [OF ok assms(3)] page_small [OF assms(1) ok assms(3)] by auto
  have js: "\<forall>i \<in> set js. i < nnodes_per_sector g" using assms(6) by auto
  note pl = page_locs [OF assms(1) p js]
  have n: "0 < nnodes_per_sector g" "nnodes_per_sector g \<le> 16" using wf_geomD [OF assms(1)] by auto
  let ?lm = "lm\<lparr>page_layout := (page_layout lm)(p \<mapsto> v')\<rparr>"
  have hole: "slot g lm l = kInvalidID" if "l \<in> set (map (sector_to_loc g p) js)" for l
    using that slot_in_page [OF assms(3) p(1), of l g] assms(6) unfolding pl(1) by auto
  have "slot g ?lm l = (if l \<in> set (ret @ map (sector_to_loc g p) js) then kAllocatedID else slot g lm0 l)" for l
  proof (cases "l div nnodes_per_sector g = p - 1")
    case True
    have "l mod nnodes_per_sector g < 16" using n by (meson less_le_trans mod_less_divisor)
    with assms(8) have "slot g ?lm l = (if l mod nnodes_per_sector g \<in> set js then kAllocatedID else v ! (l mod nnodes_per_sector g))"
      using True slot_upd [OF p(1), of g lm v' l] by simp
    also have "\<dots> = (if l mod nnodes_per_sector g \<in> set js then kAllocatedID else slot g lm l)"
      using slot_in_page [OF assms(3) p(1) True] by simp
    finally show ?thesis using tookD(5) [OF assms(2), of l] pl(1) [of l] True by auto
  next
    case False
    then have "l \<notin> set (map (sector_to_loc g p) js)" using pl(1) by blast
    with False show ?thesis using tookD(5) [OF assms(2), of l] slot_upd [OF p(1), of g lm v' l] by simp
  qed
  moreover have "lm_ok g ?lm" by (rule lm_ok_page_upd [OF ok assms(3,7,4)])
  moreover have "distinct (ret @ map (sector_to_loc g p) js)"
    using tookD(2) [OF assms(2)] pl(2) [OF assms(5)] took_hole [OF assms(2)] hole by auto
  moreover have "slot g lm0 l = kInvalidID \<and> l < cur_loc ?lm" if "l \<in> set (ret @ map (sector_to_loc g p) js)" for l
    using that tookD(3,4) [OF assms(2)] hole took_hole [OF assms(2)] page_in_bounds [OF assms(1) ok assms(3)] pl(1)
    by (metis (no_types, lifting) Un_iff loc_map.select_convs(5) loc_map.surjective loc_map.update_convs(2) set_append)
  ultimately show ?thesis using tookD(6-8) [OF assms(2)] unfolding took_def by simp
qed

text \<open>The page that was hit need not be read when nothing was stored there.\<close>

lemma page_cover:
  assumes "wf_geom g" "took g lm0 lm ret" "page_layout lm p = Some v"
    and "\<forall>i \<in> set js. i < nnodes_per_sector g"
    and "(\<forall>i < nnodes_per_sector g. v ! i = kInvalidID) \<or> p \<in> need"
  shows "covers g lm0 (map (sector_to_loc g p) js) need"
  unfolding covers_def
proof (intro ballI allI impI)
  fix l l'
  assume l: "l \<in> set (map (sector_to_loc g p) js)" and d: "l' div nnodes_per_sector g = l div nnodes_per_sector g"
    and s: "slot g lm0 l' \<noteq> kInvalidID"
  note ok = tookD(1) [OF assms(2)]
  have p: "0 < p" "p < 4294967296" using lm_okD(2) [OF ok assms(3)] page_small [OF assms(1) ok assms(3)] by auto
  have lp: "l div nnodes_per_sector g = p - 1" using l page_locs(1) [OF assms(1) p assms(4)] by blast
  have "slot g lm l' \<noteq> kInvalidID" using s took_hole [OF assms(2)] by blast
  then have "v ! (l' mod nnodes_per_sector g) \<noteq> kInvalidID"
    using slot_in_page [OF assms(3) p(1), of l' g] d lp by simp
  moreover have "l' mod nnodes_per_sector g < nnodes_per_sector g" using wf_geomD [OF assms(1)] by simp
  ultimately have "p \<in> need" using assms(5) by blast
  moreover have "l < 4294967296" using page_in_bounds [OF assms(1) ok assms(3) lp] lm_okD(5) [OF ok] by simp
  ultimately show "loc_sector_no g l \<in> need" using loc_sector_small [OF assms(1)] lp p by simp
qed

lemma took_queue:
  assumes "wf_geom g" "took g lm0 lm ret" "cq_q (empty_pages lm) = p # ps" "null_T q = kInvalidID" "cq_q q = ps"
  shows "took g lm0 (lm\<lparr>empty_pages := q\<rparr>) ret" "p \<notin> set ps" "p \<noteq> kInvalidID"
    and "\<exists>v. page_layout lm p = Some v \<and> page_is_empty g v"
proof -
  note ok = tookD(1) [OF assms(2)]
  from lm_okD(8) [OF ok, of p] assms(3) obtain v where v: "page_layout lm p = Some v" "page_is_empty g v" by auto
  then show "\<exists>v. page_layout lm p = Some v \<and> page_is_empty g v" by blast
  show "p \<noteq> kInvalidID" using page_small [OF assms(1) ok v(1)] by (simp add: kInvalidID_def)
  have "lm_ok g (lm\<lparr>empty_pages := q\<rparr>)" using ok assms(3-5) unfolding lm_ok_def by auto
  then show "took g lm0 (lm\<lparr>empty_pages := q\<rparr>) ret" using assms(2) unfolding took_def by simp
  show "p \<notin> set ps" using lm_okD(7) [OF ok] assms(3) by simp
qed

section \<open>The three phases\<close>

declare alloc_from_empty.simps [simp del]

lemma alloc_page:
  assumes "wf_geom g" "took g lm0 lm ret" "page_layout lm p = Some v" "p \<notin> set (cq_q (empty_pages lm))"
    and "length ret < n" "covers g lm0 ret need"
    and "(\<forall>i < nnodes_per_sector g. v ! i = kInvalidID) \<or> p \<in> need"
  shows "\<exists>v' ret'. alloc_holes g n p [0..<nnodes_per_sector g] (v, ret, length ret) = Inr (v', ret', length ret') \<and>
    took g lm0 (lm\<lparr>page_layout := (page_layout lm)(p \<mapsto> v')\<rparr>) ret' \<and> covers g lm0 ret' need \<and> length ret' \<le> n"
proof -
  note ok = tookD(1) [OF assms(2)]
  have len: "length v = 16" using lm_okD(1) [OF ok assms(3)] .
  have "\<forall>i \<in> set [0..<nnodes_per_sector g]. i < length v" using len wf_geomD [OF assms(1)] by auto
  from alloc_holes_spec [OF distinct_upt this assms(5), of g p ret] obtain js v' where
    j: "alloc_holes g n p [0..<nnodes_per_sector g] (v, ret, length ret) =
          Inr (v', ret @ map (sector_to_loc g p) js, length ret + length js)"
      "distinct js" "set js \<subseteq> {i \<in> set [0..<nnodes_per_sector g]. v ! i = kInvalidID}" "length ret + length js \<le> n"
      "length v' = length v" "\<forall>i < length v. v' ! i = (if i \<in> set js then kAllocatedID else v ! i)" by blast
  have js: "set js \<subseteq> {i. i < nnodes_per_sector g \<and> v ! i = kInvalidID}" "\<forall>i \<in> set js. i < nnodes_per_sector g"
    using j(3) by auto
  from page_step [OF assms(1-4) j(2) js(1) j(5) [unfolded len] j(6) [unfolded len]]
    page_cover [OF assms(1-3) js(2) assms(7)] assms(6) j(1,4)
  show ?thesis by (intro exI [of _ v'] exI [of _ "ret @ map (sector_to_loc g p) js"]) (simp add: covers_append)
qed

lemma alloc_from_empty_spec:
  assumes "wf_geom g" "took g lm0 lm ret" "covers g lm0 ret need" "length ret < n"
  shows "\<exists>fin lm' ret'. alloc_from_empty g n (lm, ret, length ret) = Inr (fin, lm', ret', length ret') \<and>
    took g lm0 lm' ret' \<and> covers g lm0 ret' need \<and> cur_loc lm' = cur_loc lm \<and>
    (if fin then length ret' = n else length ret' < n \<and> cq_q (empty_pages lm') = [])"
  using assms
proof (induction "cq_q (empty_pages lm)" arbitrary: lm ret)
  case Nil
  have "alloc_from_empty g n (lm, ret, length ret) = Inr (False, lm, ret, length ret)"
    using Nil(1) by (subst alloc_from_empty.simps) (simp add: cq_pop_def)
  with Nil show ?case by (intro exI [of _ False] exI [of _ lm] exI [of _ ret]) simp
next
  case (Cons p ps)
  let ?q = "(empty_pages lm)\<lparr>cq_q := ps\<rparr>"
  let ?lm = "lm\<lparr>empty_pages := ?q\<rparr>"
  have pop: "cq_pop (empty_pages lm) = (p, ?q)" using Cons(2) [symmetric] by (simp add: cq_pop_def)
  have nul: "null_T ?q = kInvalidID" using lm_okD(6) [OF tookD(1) [OF Cons.prems(2)]] by simp
  note tq = took_queue [OF Cons.prems(1,2) Cons(2) [symmetric] nul]
  have t: "took g lm0 ?lm ret" "p \<notin> set ps" "p \<noteq> kInvalidID" using tq by simp_all
  from tq(4) obtain v where v: "page_layout lm p = Some v" "page_is_empty g v" by auto
  have e: "\<forall>i < nnodes_per_sector g. v ! i = kInvalidID" using v(2) by (simp add: page_is_empty_def list_all_iff)
  have len: "length v = 16" using lm_okD(1) [OF tookD(1) [OF Cons.prems(2)] v(1)] .
  have eq: "alloc_empty_slots g n p [0..<nnodes_per_sector g] (v, ret, length ret) =
      alloc_holes g n p [0..<nnodes_per_sector g] (v, ret, length ret)"
    by (rule alloc_empty_is_holes) (use e len wf_geomD [OF Cons.prems(1)] in auto)
  have "page_layout ?lm p = Some v" "p \<notin> set (cq_q (empty_pages ?lm))" using v(1) t(2) by simp_all
  from alloc_page [OF Cons.prems(1) t(1) this Cons.prems(4,3) disjI1 [OF e]] obtain v' ret' where
    a: "alloc_holes g n p [0..<nnodes_per_sector g] (v, ret, length ret) = Inr (v', ret', length ret')"
      "took g lm0 (?lm\<lparr>page_layout := (page_layout ?lm)(p \<mapsto> v')\<rparr>) ret'" "covers g lm0 ret' need" "length ret' \<le> n"
    by blast
  let ?lm2 = "?lm\<lparr>page_layout := (page_layout ?lm)(p \<mapsto> v')\<rparr>"
  have commute: "lm\<lparr>page_layout := x, empty_pages := y\<rparr> = lm\<lparr>empty_pages := y, page_layout := x\<rparr>" for x y by simp
  have run: "alloc_from_empty g n (lm, ret, length ret) =
      (if length ret' = n then Inr (True, ?lm2, ret', length ret') else alloc_from_empty g n (?lm2, ret', length ret'))"
    using Cons(2) [symmetric] t(3) v(1) a(1)
    by (subst alloc_from_empty.simps) (simp add: pop eq Let_def commute)
  show ?case
  proof (cases "length ret' = n")
    case True
    then show ?thesis unfolding run using a
      by (intro exI [of _ True] exI [of _ ?lm2] exI [of _ ret']) simp
  next
    case False
    then have "length ret' < n" using a(4) by simp
    from Cons(1) [OF _ Cons.prems(1) a(2,3) this] False show ?thesis unfolding run by simp
  qed
qed

lemma alloc_from_hints_spec:
  assumes "wf_geom g" "took g lm0 lm ret" "covers g lm0 ret need" "length ret < n" "cq_q (empty_pages lm) = []"
    and "\<forall>p \<in> set ps. p < 4294967296"
  shows "\<exists>fin lm' ret' need'. alloc_from_hints g n ps (lm, ret, length ret, need) = Inr (fin, lm', ret', length ret', need') \<and>
    took g lm0 lm' ret' \<and> covers g lm0 ret' need' \<and> need \<subseteq> need' \<and> cur_loc lm' = cur_loc lm \<and>
    (if fin then length ret' = n else length ret' < n \<and> cq_q (empty_pages lm') = [])"
  using assms
proof (induction ps arbitrary: lm ret need)
  case Nil
  then show ?case by (intro exI [of _ False]) auto
next
  case (Cons p ps)
  have p: "u32 p = p" "\<forall>p \<in> set ps. p < 4294967296" using Cons.prems(6) by (simp_all add: u32_id)
  show ?case
  proof (cases "page_layout lm p")
    case None
    with Cons.IH [OF Cons.prems(1-5) p(2)] Cons.prems(4) p(1) show ?thesis by simp
  next
    case (Some v)
    note ok = tookD(1) [OF Cons.prems(2)]
    have len: "length v = 16" using lm_okD(1) [OF ok Some] .
    have nl: "\<not> length v < nnodes_per_sector g" using len wf_geomD [OF Cons.prems(1)] by simp
    let ?th = "(nnodes_per_sector g + kIndexSizeFactor - 1) div kIndexSizeFactor"
    show ?thesis
    proof (cases "hole_count g v < ?th")
      case True
      with Cons.IH [OF Cons.prems(1-5) p(2)] Cons.prems(4) p(1) Some nl show ?thesis by simp
    next
      case False
      let ?need = "if hole_count g v < nnodes_per_sector g then insert p need else need"
      have sub: "need \<subseteq> ?need" by auto
      have c: "(\<forall>i < nnodes_per_sector g. v ! i = kInvalidID) \<or> p \<in> ?need"
      proof (cases "hole_count g v < nnodes_per_sector g")
        case False
        then have "length (filter (\<lambda>i. v ! i = kInvalidID) [0..<nnodes_per_sector g]) = length [0..<nnodes_per_sector g]"
          using length_filter_le [of "\<lambda>i. v ! i = kInvalidID" "[0..<nnodes_per_sector g]"] by (simp add: hole_count_def)
        then have "\<forall>i \<in> set [0..<nnodes_per_sector g]. v ! i = kInvalidID"
          by (blast dest: filter_all_length)
        then show ?thesis by simp
      qed simp
      have "p \<notin> set (cq_q (empty_pages lm))" using Cons.prems(5) by simp
      from alloc_page [OF Cons.prems(1,2) Some this Cons.prems(4) covers_mono [OF Cons.prems(3) sub] c]
      obtain v' ret' where
        a: "alloc_holes g n p [0..<nnodes_per_sector g] (v, ret, length ret) = Inr (v', ret', length ret')"
          "took g lm0 (lm\<lparr>page_layout := (page_layout lm)(p \<mapsto> v')\<rparr>) ret'" "covers g lm0 ret' ?need" "length ret' \<le> n"
        by blast
      let ?lm = "lm\<lparr>page_layout := (page_layout lm)(p \<mapsto> v')\<rparr>"
      have run: "alloc_from_hints g n (p # ps) (lm, ret, length ret, need) =
          (if length ret' = n then Inr (True, ?lm, ret', length ret', ?need)
           else alloc_from_hints g n ps (?lm, ret', length ret', ?need))"
        using Some nl False a(1) p(1) by (simp add: Let_def)
      show ?thesis
      proof (cases "length ret' = n")
        case True
        then show ?thesis unfolding run using a sub
          by (intro exI [of _ True] exI [of _ ?lm] exI [of _ ret'] exI [of _ ?need]) simp
      next
        case False
        then have lt: "length ret' < n" using a(4) by simp
        have "cq_q (empty_pages ?lm) = []" using Cons.prems(5) by simp
        from Cons.IH [OF Cons.prems(1) a(2,3) lt this p(2)] obtain fin lm' ret'' need' where
          h: "alloc_from_hints g n ps (?lm, ret', length ret', ?need) = Inr (fin, lm', ret'', length ret'', need')"
            "took g lm0 lm' ret''" "covers g lm0 ret'' need'" "?need \<subseteq> need'" "cur_loc lm' = cur_loc lm"
            "if fin then length ret'' = n else length ret'' < n \<and> cq_q (empty_pages lm') = []" by auto
        from sub h(4) have "need \<subseteq> need'" by (rule subset_trans)
        with h False show ?thesis unfolding run
          by (intro exI [of _ fin] exI [of _ lm'] exI [of _ ret''] exI [of _ need']) simp
      qed
    qed
  qed
qed

section \<open>Binding and erasing locations\<close>

definition arr_ok :: "loc_map \<Rightarrow> bool" where
  "arr_ok lm \<longleftrightarrow> (\<forall>p v. page_layout lm p = Some v \<longrightarrow> length v = 16)"

lemma lm_ok_arr_ok: "lm_ok g lm \<Longrightarrow> arr_ok lm"
  unfolding arr_ok_def using lm_okD(1) by blast

lemma small_loc:
  assumes "wf_geom g" "l < 4294967280"
  shows "u32 (loc_sector_no g (u32 l)) = 1 + l div nnodes_per_sector g" "slot_no g (u32 l) = Inr (l mod nnodes_per_sector g)"
proof -
  have l: "u32 l = l" using assms(2) by (simp add: u32_id)
  have "l div nnodes_per_sector g < 4294967280" using assms(2) by (rule le_less_trans [OF div_le_dividend])
  then show "u32 (loc_sector_no g (u32 l)) = 1 + l div nnodes_per_sector g"
    using loc_sector_small [OF assms(1), of l] assms(2) l by (simp add: u32_id)
  show "slot_no g (u32 l) = Inr (l mod nnodes_per_sector g)" using l wf_geomD [OF assms(1)] by (simp add: slot_no_def)
qed

lemma set_loc2id_spec:
  assumes "wf_geom g" "arr_ok lm" "l < 4294967280"
  shows "\<exists>v. set_loc2id g (u32 l) i lm = Inr (lm\<lparr>page_layout := (page_layout lm)(1 + l div nnodes_per_sector g \<mapsto> v)\<rparr>) \<and>
    length v = 16 \<and>
    (\<forall>k. slot g (lm\<lparr>page_layout := (page_layout lm)(1 + l div nnodes_per_sector g \<mapsto> v)\<rparr>) k = (if k = l then i else slot g lm k))"
proof -
  let ?n = "nnodes_per_sector g"
  let ?p = "1 + l div ?n"
  have n: "0 < ?n" "?n \<le> 16" using wf_geomD [OF assms(1)] by auto
  have lt: "k mod ?n < ?n" for k using n by simp
  define w where "w = (case page_layout lm ?p of None \<Rightarrow> replicate ?n kInvalidID @ replicate (16 - ?n) 0 | Some v \<Rightarrow> v)"
  have w: "length w = 16" using assms(2) n by (auto simp: w_def arr_ok_def split: option.split)
  have ws: "w ! (k mod ?n) = slot g lm k" if "k div ?n = l div ?n" for k
    using that lt [of k] by (auto simp: w_def slot_def nth_append split: option.split)
  have run: "set_loc2id g (u32 l) i lm = Inr (lm\<lparr>page_layout := (page_layout lm)(?p \<mapsto> w[l mod ?n := i])\<rparr>)"
    using small_loc [OF assms(1,3)] n w less_le_trans [OF lt n(2), of l]
    by (auto simp: set_loc2id_def fresh_page_def kMaxElemInAPage_def arr_set_def Let_def w_def split: option.splits)
  have "slot g (lm\<lparr>page_layout := (page_layout lm)(?p \<mapsto> w[l mod ?n := i])\<rparr>) k = (if k = l then i else slot g lm k)" for k
  proof (cases "k div ?n = l div ?n")
    case True
    have "l mod ?n = k mod ?n \<longleftrightarrow> k = l" using True by (metis div_mult_mod_eq)
    moreover have "slot g (lm\<lparr>page_layout := (page_layout lm)(?p \<mapsto> w[l mod ?n := i])\<rparr>) k = w[l mod ?n := i] ! (k mod ?n)"
      using True slot_upd [of ?p g lm "w[l mod ?n := i]" k] by simp
    moreover have "l mod ?n < length w" using less_le_trans [OF lt n(2)] w by simp
    ultimately show ?thesis using ws [OF True] by (simp add: nth_list_update)
  next
    case False
    then have "k \<noteq> l" by auto
    with False show ?thesis using slot_upd [of ?p g lm "w[l mod ?n := i]" k] by simp
  qed
  with run w show ?thesis by (intro exI [of _ "w[l mod ?n := i]"]) simp
qed

lemma set_locs_spec:
  assumes "wf_geom g" "arr_ok lm" "\<forall>(l, i) \<in> set prs. l < 4294967280" "distinct (map fst prs)"
  shows "\<exists>pl. foldE (\<lambda>(l, i). set_loc2id g (u32 l) i) prs lm = Inr (lm\<lparr>page_layout := pl\<rparr>) \<and>
    arr_ok (lm\<lparr>page_layout := pl\<rparr>) \<and>
    (\<forall>k. slot g (lm\<lparr>page_layout := pl\<rparr>) k = (case map_of prs k of None \<Rightarrow> slot g lm k | Some i \<Rightarrow> i)) \<and>
    (\<forall>p. p \<notin> (\<lambda>(l, i). 1 + l div nnodes_per_sector g) ` set prs \<longrightarrow> pl p = page_layout lm p)"
  using assms
proof (induction prs arbitrary: lm)
  case Nil
  then show ?case by (intro exI [of _ "page_layout lm"]) simp
next
  case (Cons pr prs)
  obtain l i where pr: "pr = (l, i)" by (cases pr)
  let ?p = "1 + l div nnodes_per_sector g"
  from Cons.prems pr have h: "l < 4294967280" "\<forall>(l, i) \<in> set prs. l < 4294967280" "distinct (map fst prs)" "l \<notin> fst ` set prs"
    by auto
  from set_loc2id_spec [OF Cons.prems(1,2) h(1), of i] obtain v where
    v: "set_loc2id g (u32 l) i lm = Inr (lm\<lparr>page_layout := (page_layout lm)(?p \<mapsto> v)\<rparr>)" "length v = 16"
      "\<forall>k. slot g (lm\<lparr>page_layout := (page_layout lm)(?p \<mapsto> v)\<rparr>) k = (if k = l then i else slot g lm k)" by blast
  let ?lm = "lm\<lparr>page_layout := (page_layout lm)(?p \<mapsto> v)\<rparr>"
  have "arr_ok ?lm" using Cons.prems(2) v(2) by (auto simp: arr_ok_def)
  from Cons.IH [OF Cons.prems(1) this h(2,3)] obtain pl where
    ih: "foldE (\<lambda>(l, i). set_loc2id g (u32 l) i) prs ?lm = Inr (?lm\<lparr>page_layout := pl\<rparr>)"
      "arr_ok (?lm\<lparr>page_layout := pl\<rparr>)"
      "\<forall>k. slot g (?lm\<lparr>page_layout := pl\<rparr>) k = (case map_of prs k of None \<Rightarrow> slot g ?lm k | Some i \<Rightarrow> i)"
      "\<forall>p. p \<notin> (\<lambda>(l, i). 1 + l div nnodes_per_sector g) ` set prs \<longrightarrow> pl p = page_layout ?lm p" by blast
  have "map_of prs l = None" using h(4) by (simp add: map_of_eq_None_iff)
  then have "\<forall>k. slot g (lm\<lparr>page_layout := pl\<rparr>) k = (case map_of (pr # prs) k of None \<Rightarrow> slot g lm k | Some i \<Rightarrow> i)"
    using ih(3) v(3) by (auto simp: pr split: option.splits)
  with ih v(1) show ?case by (intro exI [of _ pl]) (auto simp: pr)
qed

lemma erase_loc2id_spec:
  assumes "wf_geom g" "lm_ok g lm" "slot g lm l \<noteq> kInvalidID" "l < 4294967280"
  shows "\<exists>lm'. erase_loc2id g (u32 l) lm = Inr lm' \<and> lm_ok g lm' \<and>
    (\<forall>k. slot g lm' k = (if k = l then kInvalidID else slot g lm k)) \<and>
    id2loc_map lm' = id2loc_map lm \<and> cur_id lm' = cur_id lm \<and> cur_loc lm' = cur_loc lm"
proof -
  let ?n = "nnodes_per_sector g"
  let ?p = "1 + l div ?n"
  have n: "0 < ?n" "?n \<le> 16" using wf_geomD [OF assms(1)] by auto
  have lt: "k mod ?n < ?n" for k using n by simp
  from assms(3) obtain v where v: "page_layout lm ?p = Some v" "v ! (l mod ?n) \<noteq> kInvalidID"
    by (auto simp: slot_def split: option.splits)
  have len: "length v = 16" using lm_okD(1) [OF assms(2) v(1)] .
  let ?v = "v[l mod ?n := kInvalidID]"
  let ?lm = "lm\<lparr>page_layout := (page_layout lm)(?p \<mapsto> ?v)\<rparr>"
  have nq: "?p \<notin> set (cq_q (empty_pages lm))"
  proof
    assume "?p \<in> set (cq_q (empty_pages lm))"
    from lm_okD(8) [OF assms(2) this] v(1) have "page_is_empty g v" by auto
    with lt [of l] v(2) show False by (simp add: page_is_empty_def list_all_iff)
  qed
  have ok: "lm_ok g ?lm" by (rule lm_ok_page_upd [OF assms(2) v(1) _ nq]) (simp add: len)
  have sl: "slot g ?lm k = (if k = l then kInvalidID else slot g lm k)" for k
  proof (cases "k div ?n = l div ?n")
    case True
    have "l mod ?n = k mod ?n \<longleftrightarrow> k = l" using True by (metis div_mult_mod_eq)
    moreover have "l mod ?n < length v" using less_le_trans [OF lt n(2)] len by simp
    moreover have "slot g lm k = v ! (k mod ?n)" using v(1) True by (simp add: slot_def)
    moreover have "slot g ?lm k = ?v ! (k mod ?n)" using True slot_upd [of ?p g lm ?v k] by simp
    ultimately show ?thesis by (simp add: nth_list_update)
  next
    case False
    then have "k \<noteq> l" by auto
    with False show ?thesis using slot_upd [of ?p g lm ?v k] by simp
  qed
  let ?lm' = "if page_is_empty g ?v then ?lm\<lparr>empty_pages := cq_push ?p (empty_pages ?lm)\<rparr> else ?lm"
  have run: "erase_loc2id g (u32 l) lm = Inr ?lm'"
    using small_loc [OF assms(1,4)] v(1) less_le_trans [OF lt n(2), of l] len by (simp add: erase_loc2id_def arr_set_def Let_def)
  have "lm_ok g ?lm'"
  proof (cases "page_is_empty g ?v")
    case True
    with ok nq show ?thesis by (auto simp: lm_ok_def cq_push_def)
  qed (use ok in simp)
  with run sl show ?thesis by (intro exI [of _ ?lm']) simp
qed

lemma erase_locs_spec:
  assumes "wf_geom g" "lm_ok g lm" "\<forall>l \<in> set ls. slot g lm l \<noteq> kInvalidID \<and> l < 4294967280" "distinct ls"
  shows "\<exists>lm'. foldE (\<lambda>l. erase_loc2id g (u32 l)) ls lm = Inr lm' \<and> lm_ok g lm' \<and>
    (\<forall>k. slot g lm' k = (if k \<in> set ls then kInvalidID else slot g lm k)) \<and>
    id2loc_map lm' = id2loc_map lm \<and> cur_id lm' = cur_id lm \<and> cur_loc lm' = cur_loc lm"
  using assms
proof (induction ls arbitrary: lm)
  case (Cons l ls)
  from erase_loc2id_spec [OF Cons.prems(1,2), of l] Cons.prems(3) obtain lm1 where
    e: "erase_loc2id g (u32 l) lm = Inr lm1" "lm_ok g lm1" "\<forall>k. slot g lm1 k = (if k = l then kInvalidID else slot g lm k)"
      "id2loc_map lm1 = id2loc_map lm" "cur_id lm1 = cur_id lm" "cur_loc lm1 = cur_loc lm" by auto
  have "\<forall>k \<in> set ls. slot g lm1 k \<noteq> kInvalidID \<and> k < 4294967280" "distinct ls"
    using e(3) Cons.prems(3,4) by auto
  from Cons.IH [OF Cons.prems(1) e(2) this] e show ?case by (fastforce simp: fun_eq_iff)
qed simp

section \<open>New space\<close>

lemma slot_beyond:
  assumes "wf_geom g" "lm_ok g lm" "cur_loc lm \<le> l"
  shows "slot g lm l = kInvalidID"
  using page_in_bounds [OF assms(1,2), of "1 + l div nnodes_per_sector g" _ l] assms(3)
  by (auto simp: slot_def split: option.split)

lemma alloc_new_space_spec:
  assumes "wf_geom g" "took g lm0 lm ret" "covers g lm0 ret need" "length ret < n" "cq_q (empty_pages lm) = []"
    and "cur_loc lm + n + 16 \<le> 4294967280"
  shows "\<exists>lm' ret'. alloc_new_space g n (lm, ret, length ret) = Inr (lm', ret') \<and> length ret' = n \<and>
    took g lm0 lm' ret' \<and> covers g lm0 ret' need"
proof -
  let ?n = "nnodes_per_sector g"
  let ?c = "cur_loc lm"
  let ?k = "n - length ret"
  have n: "0 < ?n" "?n \<le> 16" using wf_geomD [OF assms(1)] by auto
  note ok = tookD(1) [OF assms(2)]
  let ?prs = "map (\<lambda>i. (?c + i, kAllocatedID)) [0..<?k]"
  have small: "\<forall>(l, i) \<in> set ?prs. l < 4294967280" using assms(6) by auto
  have dist: "distinct (map fst ?prs)" by (simp add: comp_def distinct_map inj_on_def)
  have mo: "map_of ?prs l = (if ?c \<le> l \<and> l < ?c + ?k then Some kAllocatedID else None)" for l
    using map_of_upt [of ?c "\<lambda>_. kAllocatedID" ?k l] by simp
  from set_locs_spec [OF assms(1) lm_ok_arr_ok [OF ok] small dist] obtain pl where
    pl: "foldE (\<lambda>(l, i). set_loc2id g (u32 l) i) ?prs lm = Inr (lm\<lparr>page_layout := pl\<rparr>)" "arr_ok (lm\<lparr>page_layout := pl\<rparr>)"
      "\<forall>k. slot g (lm\<lparr>page_layout := pl\<rparr>) k = (case map_of ?prs k of None \<Rightarrow> slot g lm k | Some i \<Rightarrow> i)"
      "\<forall>p. p \<notin> (\<lambda>(l, i). 1 + l div ?n) ` set ?prs \<longrightarrow> pl p = page_layout lm p" by blast
  have fold: "foldE (\<lambda>i. set_loc2id g (u32 (?c + i)) kAllocatedID) [0..<?k] lm = Inr (lm\<lparr>page_layout := pl\<rparr>)"
  proof -
    have "foldE (\<lambda>i. set_loc2id g (u32 (?c + i)) kAllocatedID) is s =
        foldE (\<lambda>(l, i). set_loc2id g (u32 l) i) (map (\<lambda>i. (?c + i, kAllocatedID)) is) s" for "is" s
    proof (induction "is" arbitrary: s)
      case (Cons i "is")
      then show ?case by (cases "set_loc2id g (u32 (?c + i)) kAllocatedID s") simp_all
    qed simp
    then show ?thesis using pl(1) by simp
  qed
  define c1 where "c1 = ?c + ?k"
  define c2 where "c2 = (if c1 mod ?n \<noteq> 0 then u64 (c1 + (?n - c1 mod ?n)) else c1)"
  have c2: "c1 \<le> c2" "c2 \<le> c1 + ?n" "c2 mod ?n = 0"
  proof -
    have b: "c1 + (?n - c1 mod ?n) < 18446744073709551616" using assms(6) n by (simp add: c1_def)
    have "(c1 div ?n + 1) * ?n = c1 div ?n * ?n + ?n" by simp
    then have e: "c1 + (?n - c1 mod ?n) = (c1 div ?n + 1) * ?n"
      using div_mult_mod_eq [of c1 ?n] mod_less_divisor [OF n(1), of c1] by linarith
    show "c1 \<le> c2" "c2 \<le> c1 + ?n" using b by (auto simp: c2_def u64_id)
    show "c2 mod ?n = 0" using b e by (cases "c1 mod ?n = 0") (simp_all add: c2_def u64_id)
  qed
  have m: "nat ((int ?c + (int n - int (length ret))) mod 18446744073709551616) = c1"
  proof -
    have "int ?c + (int n - int (length ret)) = int c1" using assms(4) by (simp add: c1_def of_nat_diff)
    moreover have "int c1 mod 18446744073709551616 = int c1" using assms(6) by (intro mod_pos_pos_trivial) (auto simp: c1_def)
    ultimately show ?thesis by simp
  qed
  let ?lm = "lm\<lparr>page_layout := pl, cur_loc := c2\<rparr>"
  let ?ret = "ret @ map (\<lambda>i. ?c + i) [0..<?k]"
  have kk: "nat (int n - int (length ret)) = ?k" by simp
  have u: "map (\<lambda>i. u64 (?c + i)) [0..<?k] = map (\<lambda>i. ?c + i) [0..<?k]"
    by (rule map_cong) (use assms(6) in \<open>auto intro!: u64_id\<close>)
  have run: "alloc_new_space g n (lm, ret, length ret) = Inr (?lm, ?ret)"
    using n m by (simp add: alloc_new_space_def fold kk u c2_def Let_def)
  have sl: "slot g ?lm k = (if ?c \<le> k \<and> k < ?c + ?k then kAllocatedID else slot g lm k)" for k
  proof -
    have "slot g ?lm k = slot g (lm\<lparr>page_layout := pl\<rparr>) k" by (simp add: slot_def)
    then show ?thesis using pl(3) mo [of k] by simp
  qed
  have pages: "p \<noteq> 0 \<and> (p - 1) * ?n < c2" if "pl p = Some v" for p v
  proof (cases "p \<in> (\<lambda>(l, i). 1 + l div ?n) ` set ?prs")
    case True
    then obtain l where l: "p = 1 + l div ?n" "l < ?c + ?k" by auto
    have "l div ?n * ?n \<le> l" by (rule div_times_less_eq_dividend)
    with l(2) c2(1) have "l div ?n * ?n < c2" unfolding c1_def by linarith
    with l(1) show ?thesis by simp
  next
    case False
    with pl(4) that have "page_layout lm p = Some v" by simp
    with lm_okD(2,3) [OF ok] c2(1) show ?thesis by (fastforce simp: c1_def)
  qed
  have okl: "lm_ok g ?lm"
    unfolding lm_ok_def using pages pl(2) c2 assms(5,6) n lm_okD(6) [OF ok]
    by (auto simp: arr_ok_def kMaxElemInAPage_def c1_def)
  have bey: "slot g lm l = kInvalidID" if "?c \<le> l" for l using slot_beyond [OF assms(1) ok that] .
  have mem: "l \<in> set (map (\<lambda>i. ?c + i) [0..<?k]) \<longleftrightarrow> ?c \<le> l \<and> l < ?c + ?k" for l
  proof
    assume "?c \<le> l \<and> l < ?c + ?k"
    then have "l = ?c + (l - ?c)" "l - ?c < ?k" by auto
    then show "l \<in> set (map (\<lambda>i. ?c + i) [0..<?k])" unfolding set_map by (intro image_eqI [of _ _ "l - ?c"]) auto
  qed auto
  have "distinct ?ret"
  proof -
    have "l < ?c" if "l \<in> set ret" for l using tookD(4) [OF assms(2) that] .
    then have "set ret \<inter> set (map (\<lambda>i. ?c + i) [0..<?k]) = {}" by fastforce
    then show ?thesis using tookD(2) [OF assms(2)] by (simp add: distinct_map inj_on_def)
  qed
  moreover have "slot g lm0 l = kInvalidID \<and> l < c2" if "l \<in> set ?ret" for l
  proof (cases "l \<in> set ret")
    case True
    then show ?thesis using tookD(3,4) [OF assms(2), of l] c2(1) by (simp add: c1_def)
  next
    case False
    then have "?c \<le> l" "l < c1" using that mem [of l] by (simp_all add: c1_def)
    then show ?thesis using took_hole [OF assms(2)] bey c2(1) by simp
  qed
  moreover have "slot g ?lm l = (if l \<in> set ?ret then kAllocatedID else slot g lm0 l)" for l
    using sl [of l] tookD(5) [OF assms(2), of l] mem [of l] by simp
  ultimately have t: "took g lm0 ?lm ?ret" using okl tookD(6-8) [OF assms(2)] c2(1) unfolding took_def c1_def by simp
  have "covers g lm0 (map (\<lambda>i. ?c + i) [0..<?k]) need"
    unfolding covers_def
  proof (intro ballI allI impI)
    fix l l'
    assume l: "l \<in> set (map (\<lambda>i. ?c + i) [0..<?k])" "l' div ?n = l div ?n" "slot g lm0 l' \<noteq> kInvalidID"
    have "?c \<le> l'"
    proof -
      obtain q where q: "?c = ?n * q" using lm_okD(4) [OF ok] by (metis mod_0_imp_dvd dvdE)
      from l(1) have "?c \<le> l" by auto
      then have "q \<le> l div ?n" using q n by (simp add: less_eq_div_iff_mult_less_eq mult.commute)
      then have "q * ?n \<le> l'" using l(2) n by (metis less_eq_div_iff_mult_less_eq)
      with q show ?thesis by (simp add: mult.commute)
    qed
    with bey took_hole [OF assms(2)] l(3) show "loc_sector_no g l \<in> need" by blast
  qed
  with assms(3) have "covers g lm0 ?ret need" by (simp add: covers_append)
  with run t assms(4) show ?thesis by (intro exI [of _ ?lm] exI [of _ ?ret]) simp
qed

section \<open>The mapping invariant\<close>

definition map_ok :: "geom \<Rightarrow> loc_map \<Rightarrow> bool" where
  "map_ok g lm \<longleftrightarrow>
     (\<forall>i l. id2loc_map lm i = Some l \<longrightarrow> l < cur_loc lm \<and> slot g lm l = i \<and> i < kAllocatedID) \<and>
     (\<forall>l. slot g lm l \<noteq> kInvalidID \<longrightarrow> slot g lm l \<noteq> kAllocatedID \<longrightarrow> id2loc_map lm (slot g lm l) = Some l)"

lemma map_okD:
  assumes "map_ok g lm"
  shows "id2loc_map lm i = Some l \<Longrightarrow> l < cur_loc lm" "id2loc_map lm i = Some l \<Longrightarrow> slot g lm l = i"
    and "id2loc_map lm i = Some l \<Longrightarrow> i < kAllocatedID"
    and "slot g lm l \<noteq> kInvalidID \<Longrightarrow> slot g lm l \<noteq> kAllocatedID \<Longrightarrow> id2loc_map lm (slot g lm l) = Some l"
  using assms unfolding map_ok_def by blast+

lemma map_ok_inj: "map_ok g lm \<Longrightarrow> id2loc_map lm i = Some l \<Longrightarrow> id2loc_map lm j = Some l \<Longrightarrow> i = j"
  using map_okD(2) by blast

lemma live_id: "i < kAllocatedID \<Longrightarrow> i \<noteq> kInvalidID \<and> i \<noteq> kAllocatedID"
  by (auto simp: kInvalidID_def kAllocatedID_def)

lemma took_map_ok:
  assumes "took g lm0 lm ret" "map_ok g lm0"
  shows "map_ok g lm"
proof -
  have "l < cur_loc lm \<and> slot g lm l = i \<and> i < kAllocatedID" if "id2loc_map lm0 i = Some l" for i l
  proof -
    note m = map_okD(1-3) [OF assms(2) that]
    then have "slot g lm0 l \<noteq> kInvalidID" using live_id by blast
    then have "l \<notin> set ret" using tookD(3) [OF assms(1)] by blast
    then show ?thesis using m tookD(5) [OF assms(1), of l] tookD(8) [OF assms(1)] by simp
  qed
  moreover have "id2loc_map lm0 (slot g lm l) = Some l" if "slot g lm l \<noteq> kInvalidID" "slot g lm l \<noteq> kAllocatedID" for l
    using that tookD(5) [OF assms(1), of l] map_okD(4) [OF assms(2), of l] by (simp split: if_splits)
  ultimately show ?thesis unfolding map_ok_def tookD(6) [OF assms(1)] by blast
qed

lemma rebind_nbrs_spec:
  assumes "distinct nbs" "length nbs \<le> length ls" "\<forall>l \<in> set ls. l < 4294967296" "\<forall>nb \<in> set nbs. id2loc_map lm nb \<noteq> None"
  shows "rebind_nbrs nbs ls (lm, orig) =
    Inr (lm\<lparr>id2loc_map := (id2loc_map lm)(nbs [\<mapsto>] ls)\<rparr>, orig @ map (\<lambda>nb. the (id2loc_map lm nb)) nbs)"
  using assms
proof (induction nbs arbitrary: ls lm orig)
  case (Cons nb nbs)
  from Cons.prems(2) obtain l ls' where ls: "ls = l # ls'" by (cases ls) auto
  from Cons.prems(4) obtain o_loc where o: "id2loc_map lm nb = Some o_loc" by auto
  let ?lm = "lm\<lparr>id2loc_map := (id2loc_map lm)(nb \<mapsto> l)\<rparr>"
  have h: "distinct nbs" "length nbs \<le> length ls'" "\<forall>l \<in> set ls'. l < 4294967296"
    "\<forall>nb \<in> set nbs. id2loc_map ?lm nb \<noteq> None" using Cons.prems ls by auto
  have "map (\<lambda>n. the (id2loc_map ?lm n)) nbs = map (\<lambda>n. the (id2loc_map lm n)) nbs"
    using Cons.prems(1) by auto
  note ih = Cons.IH [OF h, of "orig @ [o_loc]", unfolded this]
  have "u32 l = l" using Cons.prems(3) ls by (simp add: u32_id)
  then show ?case using ih o ls by (simp add: id2loc_def del: fun_upd_apply)
qed simp

lemma zip_mem_slot:
  assumes "distinct locs" "length locs = length ids" "distinct ids"
  shows "map_of (zip locs ids) l = Some i \<longleftrightarrow> map_of (zip ids locs) i = Some l"
  using assms by (simp add: set_zip map_of_eq_Some_iff conj_commute)

text \<open>Binding allocated slots keeps the layout in order: no page of them was empty.\<close>

lemma set_allocated_spec:
  assumes "wf_geom g" "lm_ok g lm" "distinct locs" "length locs = length ids"
    and "\<forall>l \<in> set locs. l < cur_loc lm \<and> slot g lm l = kAllocatedID"
  shows "\<exists>lm'. foldE (\<lambda>(l, i). set_loc2id g (u32 l) i) (zip locs ids) lm = Inr lm' \<and> lm_ok g lm' \<and>
    (\<forall>k. slot g lm' k = (case map_of (zip locs ids) k of None \<Rightarrow> slot g lm k | Some i \<Rightarrow> i)) \<and>
    id2loc_map lm' = id2loc_map lm \<and> cur_id lm' = cur_id lm \<and> cur_loc lm' = cur_loc lm"
proof -
  let ?prs = "zip locs ids"
  let ?pages = "(\<lambda>(l, i). 1 + l div nnodes_per_sector g) ` set ?prs"
  have fs: "map fst ?prs = locs" using assms(4) by simp
  have "\<forall>(l, i) \<in> set ?prs. l < 4294967280"
    using assms(5) lm_okD(5) [OF assms(2)] by (fastforce dest: set_zip_leftD)
  with set_locs_spec [OF assms(1) lm_ok_arr_ok [OF assms(2)], of ?prs] fs assms(3) obtain pl where
    pl: "foldE (\<lambda>(l, i). set_loc2id g (u32 l) i) ?prs lm = Inr (lm\<lparr>page_layout := pl\<rparr>)"
      "arr_ok (lm\<lparr>page_layout := pl\<rparr>)"
      "\<forall>k. slot g (lm\<lparr>page_layout := pl\<rparr>) k = (case map_of ?prs k of None \<Rightarrow> slot g lm k | Some i \<Rightarrow> i)"
      "\<forall>p. p \<notin> ?pages \<longrightarrow> pl p = page_layout lm p" by auto
  have hit: "\<exists>v. page_layout lm p = Some v \<and> \<not> page_is_empty g v" if pp: "p \<in> ?pages" for p
  proof -
    from pp obtain l where l: "l \<in> set locs" "p = 1 + l div nnodes_per_sector g" by (auto dest: set_zip_leftD)
    with assms(5) have "slot g lm l = kAllocatedID" by blast
    then obtain v where v: "page_layout lm p = Some v" "v ! (l mod nnodes_per_sector g) = kAllocatedID"
      using l(2) by (auto simp: slot_def split: option.splits)
    have "l mod nnodes_per_sector g < nnodes_per_sector g" using wf_geomD [OF assms(1)] by simp
    then have "page_is_empty g v \<Longrightarrow> v ! (l mod nnodes_per_sector g) = kInvalidID"
      by (simp add: page_is_empty_def list_all_iff)
    with v show ?thesis by auto
  qed
  have "0 < p \<and> (p - 1) * nnodes_per_sector g < cur_loc lm" if "pl p = Some v" for p v
  proof (cases "p \<in> ?pages")
    case True
    with hit lm_okD(2,3) [OF assms(2)] show ?thesis by blast
  next
    case False
    with pl(4) that have "page_layout lm p = Some v" by simp
    then show ?thesis using lm_okD(2,3) [OF assms(2)] by blast
  qed
  moreover have "\<exists>v. pl p = Some v \<and> page_is_empty g v" if q: "p \<in> set (cq_q (empty_pages lm))" for p
  proof -
    from lm_okD(8) [OF assms(2) q] obtain v where v: "page_layout lm p = Some v" "page_is_empty g v" by blast
    with hit have "p \<notin> ?pages" by fastforce
    with pl(4) v show ?thesis by simp
  qed
  ultimately have "lm_ok g (lm\<lparr>page_layout := pl\<rparr>)" using pl(2) lm_okD(4-7) [OF assms(2)]
    by (simp add: lm_ok_def arr_ok_def kMaxElemInAPage_def)
  with pl(1,3) show ?thesis by (intro exI [of _ "lm\<lparr>page_layout := pl\<rparr>"]) simp
qed

text \<open>The updated mapping as a case distinction, and what the loops of an insert compute.\<close>

lemma upds_val:
  assumes "distinct ids" "length locs = length ids"
  shows "(m(ids [\<mapsto>] locs)) i = (case map_of (zip ids locs) i of None \<Rightarrow> m i | Some l \<Rightarrow> Some l)"
  using assms by (simp add: map_upds_def map_add_def map_of_rev_distinct)

lemma rebind_run:
  assumes "distinct (nhood @ [target])" "\<forall>nb \<in> set nhood. id2loc_map lm nb \<noteq> None"
    and "length locs = length (nhood @ [target])" "\<forall>l \<in> set locs. l < 4294967296"
  shows "rebind g target nhood locs lm =
    bindE (foldE (\<lambda>(l, i). set_loc2id g (u32 l) i) (zip locs (nhood @ [target]))
             (lm\<lparr>id2loc_map := (id2loc_map lm)(nhood @ [target] [\<mapsto>] locs)\<rparr>))
      (foldE (\<lambda>l. erase_loc2id g (u32 l)) (map (\<lambda>nb. the (id2loc_map lm nb)) nhood))"
proof -
  let ?t = "locs ! length nhood"
  have "?t \<in> set locs" using assms(3) by simp
  with assms(4) have u: "u32 ?t = ?t" by (simp add: u32_id)
  let ?lm1 = "lm\<lparr>id2loc_map := (id2loc_map lm)(target \<mapsto> ?t)\<rparr>"
  have mm: "((id2loc_map lm)(target \<mapsto> ?t))(nhood [\<mapsto>] locs) = (id2loc_map lm)(nhood @ [target] [\<mapsto>] locs)"
    using assms(1,3) by (simp add: map_upds_append1 map_upds_twist)
  have "\<forall>nb \<in> set nhood. id2loc_map ?lm1 nb \<noteq> None" using assms(2) by simp
  with assms(1,3,4) have r: "rebind_nbrs nhood locs (?lm1, []) =
      Inr (?lm1\<lparr>id2loc_map := (id2loc_map ?lm1)(nhood [\<mapsto>] locs)\<rparr>, [] @ map (\<lambda>nb. the (id2loc_map ?lm1 nb)) nhood)"
    by (intro rebind_nbrs_spec) auto
  have "map (\<lambda>nb. the (id2loc_map ?lm1 nb)) nhood = map (\<lambda>nb. the (id2loc_map lm nb)) nhood"
    using assms(1) by auto
  note r = r [unfolded this]
  have "id2loc_map ?lm1 = (id2loc_map lm)(target \<mapsto> ?t)" by simp
  note r = r [unfolded this mm]
  show ?thesis using assms(3) u r by (simp add: rebind_def erase_and_set_loc_def del: zip_append map_upds_append1)
qed

lemma map_ok_rebind:
  assumes "map_ok g lm" "distinct ids" "distinct locs" "length locs = length ids" "\<forall>i \<in> set ids. i < kAllocatedID"
    and "\<forall>l \<in> set locs. l < cur_loc lm \<and> slot g lm l = kAllocatedID"
    and "set old = {l. \<exists>i \<in> set ids. id2loc_map lm i = Some l}"
    and "\<And>k. slot g lm' k = (if k \<in> set old then kInvalidID
           else case map_of (zip locs ids) k of None \<Rightarrow> slot g lm k | Some i \<Rightarrow> i)"
    and "id2loc_map lm' = (id2loc_map lm)(ids [\<mapsto>] locs)" "cur_loc lm' = cur_loc lm"
  shows "map_ok g lm'"
proof -
  note val = upds_val [OF assms(2,4), of "id2loc_map lm"]
  note zm = zip_mem_slot [OF assms(3,4,2)]
  have idn: "map_of (zip ids locs) i = None \<longleftrightarrow> i \<notin> set ids" for i using assms(4) by simp
  have ln: "map_of (zip locs ids) l = None \<longleftrightarrow> l \<notin> set locs" for l using assms(4) by simp
  have old: "slot g lm l \<in> set ids \<and> l \<notin> set locs" if ol: "l \<in> set old" for l
  proof -
    from ol assms(7) obtain i where i: "i \<in> set ids" "id2loc_map lm i = Some l" by auto
    note m = map_okD(2,3) [OF assms(1) i(2)]
    then show ?thesis using assms(6) live_id [of i] i by auto
  qed
  have "l < cur_loc lm' \<and> slot g lm' l = i \<and> i < kAllocatedID" if im: "id2loc_map lm' i = Some l" for i l
  proof (cases "map_of (zip ids locs) i")
    case None
    then have i: "i \<notin> set ids" "id2loc_map lm i = Some l" using im idn [of i] val [of i] assms(9) by auto
    note m = map_okD(1-3) [OF assms(1) i(2)]
    have "l \<notin> set locs" using m(2,3) assms(6) live_id [of i] by auto
    moreover have "l \<notin> set old" using old [of l] m(2) i(1) by auto
    ultimately show ?thesis using m assms(8) [of l] ln [of l] assms(10) by simp
  next
    case (Some l')
    then have l: "map_of (zip locs ids) l = Some i" using im val [of i] zm assms(9) by simp
    then have ll: "l \<in> set locs" using ln [of l] by auto
    moreover have "i \<in> set ids" using Some idn [of i] by auto
    ultimately show ?thesis using l assms(5,6,10) assms(8) [of l] old [of l] by auto
  qed
  moreover have "id2loc_map lm' (slot g lm' l) = Some l" if s: "slot g lm' l \<noteq> kInvalidID" "slot g lm' l \<noteq> kAllocatedID" for l
  proof (cases "map_of (zip locs ids) l")
    case (Some i)
    then have "slot g lm' l = i" using s(1) assms(8) [of l] by (auto split: if_splits)
    then show ?thesis using Some zm val [of i] assms(9) by simp
  next
    case None
    then have l: "l \<notin> set old" "slot g lm' l = slot g lm l" using s(1) assms(8) [of l] by (auto split: if_splits)
    let ?i = "slot g lm l"
    have il: "id2loc_map lm ?i = Some l" using map_okD(4) [OF assms(1)] s unfolding l(2) by blast
    with l(1) assms(7) have "?i \<notin> set ids" by blast
    then have "map_of (zip ids locs) ?i = None" using idn by simp
    with il l(2) val [of ?i] assms(9) show ?thesis by simp
  qed
  ultimately show ?thesis unfolding map_ok_def by blast
qed

section \<open>Properties of the allocator\<close>

lemma alloc_loc_spec:
  assumes "wf_geom g" "lm_ok g lm" "0 < n" "\<forall>p \<in> set hint_pages. p < 4294967296"
    and "cur_loc lm + n + 16 \<le> 4294967280"
  shows "\<exists>ret need' lm'. alloc_loc g n hint_pages need lm = Inr (ret, need', lm') \<and>
    length ret = n \<and> took g lm lm' ret \<and> covers g lm ret need' \<and> need \<subseteq> need'"
proof -
  have "covers g lm [] need" by (simp add: covers_def)
  from alloc_from_empty_spec [OF assms(1) took_refl [OF assms(2)] this, of n] assms(3)
  obtain fin1 lm1 ret1 where
    a: "alloc_from_empty g n (lm, [], 0) = Inr (fin1, lm1, ret1, length ret1)" "took g lm lm1 ret1"
      "covers g lm ret1 need" "cur_loc lm1 = cur_loc lm"
      "if fin1 then length ret1 = n else length ret1 < n \<and> cq_q (empty_pages lm1) = []" by auto
  show ?thesis
  proof (cases fin1)
    case True
    with a show ?thesis
      by (intro exI [of _ ret1] exI [of _ need] exI [of _ lm1]) (simp add: alloc_loc_def)
  next
    case False
    with a(5) have f: "length ret1 < n" "cq_q (empty_pages lm1) = []" by auto
    from alloc_from_hints_spec [OF assms(1) a(2,3) f assms(4)] obtain fin2 lm2 ret2 need2 where
      h: "alloc_from_hints g n hint_pages (lm1, ret1, length ret1, need) = Inr (fin2, lm2, ret2, length ret2, need2)"
        "took g lm lm2 ret2" "covers g lm ret2 need2" "need \<subseteq> need2" "cur_loc lm2 = cur_loc lm1"
        "if fin2 then length ret2 = n else length ret2 < n \<and> cq_q (empty_pages lm2) = []" by blast
    show ?thesis
    proof (cases fin2)
      case True
      with a(1) h \<open>\<not> fin1\<close> show ?thesis
        by (intro exI [of _ ret2] exI [of _ need2] exI [of _ lm2]) (simp add: alloc_loc_def)
    next
      case False
      with h(6) have k: "length ret2 < n" "cq_q (empty_pages lm2) = []" by auto
      have "cur_loc lm2 + n + 16 \<le> 4294967280" using assms(5) a(4) h(5) by simp
      from alloc_new_space_spec [OF assms(1) h(2,3) k this] obtain lm3 ret3 where
        "alloc_new_space g n (lm2, ret2, length ret2) = Inr (lm3, ret3)" "length ret3 = n"
        "took g lm lm3 ret3" "covers g lm ret3 need2" by blast
      with a(1) h(1,4) \<open>\<not> fin1\<close> False show ?thesis
        by (intro exI [of _ ret3] exI [of _ need2] exI [of _ lm3]) (simp add: alloc_loc_def)
    qed
  qed
qed

text \<open>C10: \<^verbatim>\<open>alloc_loc\<close> succeeds and hands out exactly \<^verbatim>\<open>n\<close> distinct locations that held nothing,
  marks just these as allocated, and every page of them that holds a node is in the set of pages
  to be read before the page is rewritten.\<close>

theorem alloc_loc_correct:
  assumes "wf_geom g" "lm_ok g lm" "0 < n" "\<forall>p \<in> set hint_pages. p < 4294967296"
    and "cur_loc lm + n + 16 \<le> 4294967280"
  shows "\<exists>ret need' lm'. alloc_loc g n hint_pages need lm = Inr (ret, need', lm') \<and>
    length ret = n \<and> took g lm lm' ret \<and> covers g lm ret need' \<and> need \<subseteq> need'"
  by (rule alloc_loc_spec [OF assms])

lemma rebind_spec:
  assumes "wf_geom g" "lm_ok g lm" "map_ok g lm"
    and "distinct (nhood @ [target])" "target < kAllocatedID" "id2loc_map lm target = None"
    and "\<forall>nb \<in> set nhood. id2loc_map lm nb \<noteq> None"
    and "length locs = length (nhood @ [target])" "distinct locs"
    and "\<forall>l \<in> set locs. l < cur_loc lm \<and> slot g lm l = kAllocatedID"
  shows "\<exists>lm'. rebind g target nhood locs lm = Inr lm' \<and> lm_ok g lm' \<and> map_ok g lm' \<and>
    id2loc_map lm' = (id2loc_map lm)(nhood @ [target] [\<mapsto>] locs) \<and>
    (\<forall>nb \<in> set nhood. slot g lm' (the (id2loc_map lm nb)) = kInvalidID)"
proof -
  define ids where "ids = nhood @ [target]"
  define old where "old = map (\<lambda>nb. the (id2loc_map lm nb)) nhood"
  have cur: "cur_loc lm \<le> 4294967280" using lm_okD(5) [OF assms(2)] .
  let ?lm2 = "lm\<lparr>id2loc_map := (id2loc_map lm)(ids [\<mapsto>] locs)\<rparr>"
  have sl2: "slot g ?lm2 l = slot g lm l" for l by (simp add: slot_def)
  have ok2: "lm_ok g ?lm2" using assms(2) by (simp add: lm_ok_def)
  have al2: "\<forall>l \<in> set locs. l < cur_loc ?lm2 \<and> slot g ?lm2 l = kAllocatedID" using assms(10) sl2 by simp
  from set_allocated_spec [OF assms(1) ok2 assms(9) assms(8) [folded ids_def] al2] obtain lm3 where
    s: "foldE (\<lambda>(l, i). set_loc2id g (u32 l) i) (zip locs ids) ?lm2 = Inr lm3" "lm_ok g lm3"
      "\<And>k. slot g lm3 k = (case map_of (zip locs ids) k of None \<Rightarrow> slot g ?lm2 k | Some i \<Rightarrow> i)"
      "id2loc_map lm3 = id2loc_map ?lm2" "cur_loc lm3 = cur_loc ?lm2" by blast
  have so: "set old = {l. \<exists>i \<in> set ids. id2loc_map lm i = Some l}"
    using assms(6,7) unfolding old_def ids_def by force
  have ob: "slot g lm3 l \<noteq> kInvalidID \<and> l < 4294967280" if ol: "l \<in> set old" for l
  proof -
    from ol so obtain i where i: "id2loc_map lm i = Some l" by auto
    note m = map_okD(1-3) [OF assms(3) i]
    then have "l \<notin> set locs" using assms(10) live_id [of i] by auto
    then have "map_of (zip locs ids) l = None" using assms(8) unfolding ids_def by simp
    then have "slot g lm3 l = i" using s(3) [of l] sl2 m(2) by simp
    with m cur live_id show ?thesis by simp
  qed
  have dold: "distinct old"
    unfolding old_def distinct_map inj_on_def
  proof (intro conjI ballI impI)
    show "distinct nhood" using assms(4) by simp
    fix x y assume xy: "x \<in> set nhood" "y \<in> set nhood" "the (id2loc_map lm x) = the (id2loc_map lm y)"
    then obtain lx ly where "id2loc_map lm x = Some lx" "id2loc_map lm y = Some ly" using assms(7) by blast
    with xy map_ok_inj [OF assms(3)] show "x = y" by simp
  qed
  from erase_locs_spec [OF assms(1) s(2) _ dold] ob obtain lm' where
    e: "foldE (\<lambda>l. erase_loc2id g (u32 l)) old lm3 = Inr lm'" "lm_ok g lm'"
      "\<And>k. slot g lm' k = (if k \<in> set old then kInvalidID else slot g lm3 k)"
      "id2loc_map lm' = id2loc_map lm3" "cur_loc lm' = cur_loc lm3" by blast
  have "\<forall>l \<in> set locs. l < 4294967296" using assms(10) cur by fastforce
  from rebind_run [OF assms(4,7,8) this, of g, folded ids_def old_def] s(1) e(1)
  have run: "rebind g target nhood locs lm = Inr lm'" by simp
  have m': "id2loc_map lm' = (id2loc_map lm)(ids [\<mapsto>] locs)" using e(4) s(4) by simp
  have sl': "slot g lm' k = (if k \<in> set old then kInvalidID
      else case map_of (zip locs ids) k of None \<Rightarrow> slot g lm k | Some i \<Rightarrow> i)" for k
    using e(3) s(3) sl2 by (simp split: option.split)
  have ids: "\<forall>i \<in> set ids. i < kAllocatedID" using assms(5,7) map_okD(3) [OF assms(3)] unfolding ids_def by auto
  have "cur_loc lm' = cur_loc lm" using e(5) s(5) by simp
  from map_ok_rebind [OF assms(3) assms(4,9,8) [folded ids_def] ids assms(10) so sl' m' this]
  have "map_ok g lm'" .
  moreover have "\<forall>nb \<in> set nhood. slot g lm' (the (id2loc_map lm nb)) = kInvalidID"
    using sl' unfolding old_def by simp
  ultimately show ?thesis using run e(2) m' unfolding ids_def by blast
qed

text \<open>C11: binding an insert's nodes to allocated locations: the mapping of ids to locations is
  updated at exactly the new node and its neighbors, the neighbors' old locations become holes,
  and page layout and mapping are inverse to each other again.\<close>

theorem rebind_correct:
  assumes "wf_geom g" "lm_ok g lm" "map_ok g lm"
    and "distinct (nhood @ [target])" "target < kAllocatedID" "id2loc_map lm target = None"
    and "\<forall>nb \<in> set nhood. id2loc_map lm nb \<noteq> None"
    and "length locs = length (nhood @ [target])" "distinct locs"
    and "\<forall>l \<in> set locs. l < cur_loc lm \<and> slot g lm l = kAllocatedID"
  shows "\<exists>lm'. rebind g target nhood locs lm = Inr lm' \<and> lm_ok g lm' \<and> map_ok g lm' \<and>
    id2loc_map lm' = (id2loc_map lm)(nhood @ [target] [\<mapsto>] locs) \<and>
    (\<forall>nb \<in> set nhood. slot g lm' (the (id2loc_map lm nb)) = kInvalidID)"
  by (rule rebind_spec [OF assms])

section \<open>Loading and checking the mapping\<close>

lemma sectors_iff:
  fixes n :: nat
  assumes "0 < n"
  shows "l div n < (m + n - 1) div n \<longleftrightarrow> l div n * n < m"
proof -
  have "l div n < (m + n - 1) div n \<longleftrightarrow> (l div n + 1) * n \<le> m + n - 1"
    using assms less_eq_div_iff_mult_less_eq [of n "l div n + 1" "m + n - 1"] by (simp add: Suc_le_eq)
  also have "\<dots> \<longleftrightarrow> l div n * n < m"
  proof -
    have "(l div n + 1) * n = l div n * n + n" by simp
    then show ?thesis using assms by linarith
  qed
  finally show ?thesis .
qed

lemma load_equal_slot:
  assumes "wf_geom g" "num_points < 4294967264" "page_layout lm = Map.empty"
    and "load_equal_layout g num_points lm = Inr lm'"
  shows "slot g lm' l = (if l < num_points then l else kInvalidID)"
proof -
  let ?n = "nnodes_per_sector g"
  have n: "0 < ?n" "?n \<le> 16" using wf_geomD [OF assms(1)] by auto
  have z: "loc_sector_no g 0 = 1" using loc_sector_small [OF assms(1), of 0] by simp
  have k: "l mod ?n < ?n" using n by simp
  then have k16: "l mod ?n < 16" using n by linarith
  have dm: "l div ?n * ?n + l mod ?n = l" by (rule div_mult_mod_eq)
  have pl: "page_layout lm' (1 + l div ?n) = (if l div ?n < (num_points + ?n - 1) div ?n
      then Some (map (\<lambda>j. if j < ?n \<and> l div ?n * ?n + j < num_points then u32 (l div ?n * ?n + j) else kInvalidID) [0..<16])
      else None)"
    using assms(3,4) n z by (auto simp: load_equal_layout_def kMaxElemInAPage_def Let_def)
  show ?thesis
  proof (cases "l div ?n < (num_points + ?n - 1) div ?n")
    case True
    then have "slot g lm' l = (if l < num_points then u32 l else kInvalidID)"
      using k k16 dm by (simp only: slot_def pl) simp
    then show ?thesis using assms(2) by (simp add: u32_id)
  next
    case False
    then have "\<not> l < num_points" using sectors_iff [OF n(1), of l num_points] dm by linarith
    with False show ?thesis by (simp only: slot_def pl) simp
  qed
qed

lemma load_equal_layout_spec:
  assumes "wf_geom g" "num_points < 4294967264"
    and "id2loc_map lm = Map.empty" "page_layout lm = Map.empty" "empty_pages lm = cq_new kInvalidID"
  shows "\<exists>lm'. load_equal_layout g num_points lm = Inr lm' \<and> lm_ok g lm' \<and> map_ok g lm' \<and>
    (\<forall>i. id2loc_map lm' i = (if i < num_points then Some i else None)) \<and> num_points \<le> cur_loc lm'"
proof -
  let ?n = "nnodes_per_sector g"
  have n: "0 < ?n" "?n \<le> 16" using wf_geomD [OF assms(1)] by auto
  have z: "loc_sector_no g 0 = 1" using loc_sector_small [OF assms(1), of 0] by simp
  obtain lm' where run: "load_equal_layout g num_points lm = Inr lm'"
    using n by (auto simp: load_equal_layout_def kMaxElemInAPage_def Let_def)
  have f: "id2loc_map lm' i = (if i < num_points then Some i else None)" "empty_pages lm' = cq_new kInvalidID"
    "cur_loc lm' = (if num_points mod ?n \<noteq> 0 then num_points + (?n - num_points mod ?n) else num_points)" for i
    using run assms(3,5) n by (auto simp: load_equal_layout_def kMaxElemInAPage_def Let_def)
  have c: "num_points \<le> cur_loc lm'" "cur_loc lm' \<le> num_points + 16" "cur_loc lm' mod ?n = 0"
  proof -
    show "num_points \<le> cur_loc lm'" "cur_loc lm' \<le> num_points + 16"
      using n mod_less_divisor [OF n(1), of num_points] unfolding f(3) by (split if_split, linarith)+
    have "(num_points div ?n + 1) * ?n = num_points div ?n * ?n + ?n" by simp
    then have "num_points + (?n - num_points mod ?n) = (num_points div ?n + 1) * ?n"
      using div_mult_mod_eq [of num_points ?n] mod_less_divisor [OF n(1), of num_points] by linarith
    then show "cur_loc lm' mod ?n = 0" by (cases "num_points mod ?n = 0") (simp_all add: f(3))
  qed
  have pages: "length v = 16 \<and> 0 < p \<and> (p - 1) * ?n < cur_loc lm'" if "page_layout lm' p = Some v" for p v
  proof -
    from that run assms(4) n z have p: "1 \<le> p" "p < 1 + (num_points + ?n - 1) div ?n" "length v = 16"
      by (auto simp: load_equal_layout_def kMaxElemInAPage_def Let_def split: if_splits)
    then have "(p - 1) * ?n div ?n < (num_points + ?n - 1) div ?n" using n by simp
    then have "(p - 1) * ?n < num_points" using sectors_iff [OF n(1), of "(p - 1) * ?n"] n by simp
    with p c(1) show ?thesis by simp
  qed
  have "lm_ok g lm'" using pages c f(2) assms(2) by (simp add: lm_ok_def cq_new_def kMaxElemInAPage_def)
  moreover have "map_ok g lm'"
    using load_equal_slot [OF assms(1,2,4) run] f(1) c(1) assms(2)
    by (auto simp: map_ok_def kAllocatedID_def split: if_splits)
  ultimately show ?thesis using run f(1) c(1) by blast
qed

text \<open>C20: without a partition file \<^verbatim>\<open>load_page_layout\<close> sets up the identity mapping, and this
  mapping and its page layout satisfy the invariant the updates keep.\<close>

theorem load_equal_layout_correct:
  assumes "wf_geom g" "num_points < 4294967264"
    and "id2loc_map lm = Map.empty" "page_layout lm = Map.empty" "empty_pages lm = cq_new kInvalidID"
  shows "\<exists>lm'. load_equal_layout g num_points lm = Inr lm' \<and> lm_ok g lm' \<and> map_ok g lm' \<and>
    (\<forall>i. id2loc_map lm' i = (if i < num_points then Some i else None)) \<and> num_points \<le> cur_loc lm'"
  by (rule load_equal_layout_spec [OF assms])

lemma verify_ids_iff:
  assumes "wf_geom g" "lm_ok g lm"
  shows "verify_ids g lm is = Inr () \<longleftrightarrow>
    (\<forall>i \<in> set is. \<exists>l < cur_loc lm. id2loc_map lm i = Some l \<and> slot g lm l = i)"
proof (induction "is")
  case (Cons i "is")
  show ?case
  proof (cases "id2loc_map lm i")
    case (Some l)
    show ?thesis
    proof (cases "cur_loc lm \<le> l")
      case False
      then have "l < 4294967296" using lm_okD(5) [OF assms(2)] by simp
      with loc2id_slot [OF assms] False Some Cons.IH show ?thesis by (auto simp: id2loc_def)
    qed (use Some in \<open>auto simp: id2loc_def\<close>)
  qed (auto simp: id2loc_def)
qed simp

lemma verify_locs_iff:
  assumes "wf_geom g" "lm_ok g lm" "\<forall>l \<in> set ls. l < 4294967296"
  shows "verify_locs g lm ls = Inr [] \<longleftrightarrow>
    (\<forall>l \<in> set ls. slot g lm l \<noteq> kInvalidID \<longrightarrow> slot g lm l \<noteq> kAllocatedID \<longrightarrow> id2loc_map lm (slot g lm l) = Some l)"
  using assms(3)
proof (induction ls)
  case (Cons l ls)
  then have "loc2id g lm l = Inr (slot g lm l)" using loc2id_slot [OF assms(1,2)] by simp
  with Cons show ?case by (auto simp: id2loc_def split: option.split)
qed simp

text \<open>C19: \<^verbatim>\<open>verify_id2loc\<close> passes without a complaint exactly when the mapping of the assigned ids
  and the page layout are inverse to each other.\<close>

theorem verify_id2loc_iff:
  assumes "wf_geom g" "lm_ok g lm"
  shows "verify_id2loc g lm = Inr [] \<longleftrightarrow>
    (\<forall>i < cur_id lm. \<exists>l < cur_loc lm. id2loc_map lm i = Some l \<and> slot g lm l = i) \<and>
    (\<forall>l < cur_loc lm. slot g lm l \<noteq> kInvalidID \<longrightarrow> slot g lm l \<noteq> kAllocatedID \<longrightarrow>
       id2loc_map lm (slot g lm l) = Some l)"
proof -
  have "\<forall>l \<in> set [0..<cur_loc lm]. l < 4294967296" using lm_okD(5) [OF assms(2)] by simp
  note vl = verify_locs_iff [OF assms this]
  have "verify_id2loc g lm = Inr [] \<longleftrightarrow>
      verify_ids g lm [0..<cur_id lm] = Inr () \<and> verify_locs g lm [0..<cur_loc lm] = Inr []"
    by (auto simp: verify_id2loc_def)
  then show ?thesis using verify_ids_iff [OF assms, of "[0..<cur_id lm]"] vl by (simp add: Ball_def)
qed

section \<open>Witnesses\<close>

definition demo_geom :: geom where
  "demo_geom = \<lparr>max_node_len = 516, nnodes_per_sector = 7, data_dim = 96, sizeof_T = 4\<rparr>"

definition demo_map :: loc_map where
  "demo_map = \<lparr>id2loc_map = Map.empty, page_layout = Map.empty, empty_pages = cq_new kInvalidID, cur_id = 10, cur_loc = 0\<rparr>"

lemma demo_geom_wf: "wf_geom demo_geom"
  by (simp add: wf_geom_def demo_geom_def vec_bytes_def SECTOR_LEN_def)

lemma demo_loaded:
  obtains lm where "load_equal_layout demo_geom 10 demo_map = Inr lm" "lm_ok demo_geom lm" "map_ok demo_geom lm"
    "\<forall>i. id2loc_map lm i = (if i < 10 then Some i else None)" "cur_loc lm = 14" "cur_id lm = 10"
proof -
  have d: "id2loc_map demo_map = Map.empty" "page_layout demo_map = Map.empty" "empty_pages demo_map = cq_new kInvalidID"
    by (simp_all add: demo_map_def)
  obtain lm where lm: "load_equal_layout demo_geom 10 demo_map = Inr lm" "cur_loc lm = 14" "cur_id lm = 10"
    by (auto simp: load_equal_layout_def demo_geom_def demo_map_def kMaxElemInAPage_def Let_def)
  from load_equal_layout_spec [OF demo_geom_wf _ d, of 10] lm that show ?thesis by auto
qed

theorem load_equal_layout_correct_witness:
  "\<exists>lm. load_equal_layout demo_geom 10 demo_map = Inr lm \<and> map_ok demo_geom lm \<and> id2loc_map lm 9 = Some 9"
proof -
  have d: "id2loc_map demo_map = Map.empty" "page_layout demo_map = Map.empty" "empty_pages demo_map = cq_new kInvalidID"
    by (simp_all add: demo_map_def)
  from load_equal_layout_correct [OF demo_geom_wf _ d, of 10] show ?thesis by auto
qed

theorem alloc_loc_correct_witness:
  "\<exists>lm ret need' lm'. load_equal_layout demo_geom 10 demo_map = Inr lm \<and>
    alloc_loc demo_geom 3 [2] {} lm = Inr (ret, need', lm') \<and> length ret = 3 \<and> covers demo_geom lm ret need'"
proof -
  obtain lm where lm: "load_equal_layout demo_geom 10 demo_map = Inr lm" "lm_ok demo_geom lm" "cur_loc lm = 14"
    by (rule demo_loaded)
  have "(0 :: nat) < 3" "\<forall>p \<in> set [2]. p < (4294967296 :: nat)" "cur_loc lm + 3 + 16 \<le> 4294967280" using lm(3) by simp_all
  from alloc_loc_correct [OF demo_geom_wf lm(2) this, of "{}"] lm(1) show ?thesis by blast
qed

theorem rebind_correct_witness:
  "\<exists>lm locs need lm1 lm2. load_equal_layout demo_geom 10 demo_map = Inr lm \<and>
    alloc_loc demo_geom 3 [2] {} lm = Inr (locs, need, lm1) \<and>
    rebind demo_geom 10 [4, 2] locs lm1 = Inr lm2 \<and> map_ok demo_geom lm2"
proof -
  obtain lm where lm: "load_equal_layout demo_geom 10 demo_map = Inr lm" "lm_ok demo_geom lm" "map_ok demo_geom lm"
    "\<forall>i. id2loc_map lm i = (if i < 10 then Some i else None)" "cur_loc lm = 14"
    by (rule demo_loaded)
  have "\<exists>locs need lm1. alloc_loc demo_geom 3 [2] {} lm = Inr (locs, need, lm1) \<and> length locs = 3 \<and> took demo_geom lm lm1 locs"
    using alloc_loc_spec [OF demo_geom_wf lm(2), of 3 "[2]" "{}"] lm(5) by fastforce
  then obtain locs need lm1 where a: "alloc_loc demo_geom 3 [2] {} lm = Inr (locs, need, lm1)" "length locs = 3"
    "took demo_geom lm lm1 locs" by blast
  have m: "id2loc_map lm1 = id2loc_map lm" using tookD(6) [OF a(3)] .
  have h: "distinct ([4, 2] @ [10 :: nat])" "(10 :: nat) < kAllocatedID" "id2loc_map lm1 10 = None"
    "\<forall>nb \<in> set [4, 2]. id2loc_map lm1 nb \<noteq> None" "length locs = length ([4, 2] @ [10 :: nat])"
    using lm(4) a(2) by (simp_all add: m kAllocatedID_def)
  have "distinct locs" "\<forall>l \<in> set locs. l < cur_loc lm1 \<and> slot demo_geom lm1 l = kAllocatedID"
    using tookD(2,4,5) [OF a(3)] by auto
  from rebind_correct [OF demo_geom_wf tookD(1) [OF a(3)] took_map_ok [OF a(3) lm(3)] h this] lm(1) a(1)
  show ?thesis by blast
qed

theorem verify_id2loc_iff_witness:
  "\<exists>lm. load_equal_layout demo_geom 10 demo_map = Inr lm \<and> verify_id2loc demo_geom lm = Inr []"
proof -
  obtain lm where lm: "load_equal_layout demo_geom 10 demo_map = Inr lm" "lm_ok demo_geom lm" "map_ok demo_geom lm"
    "\<forall>i. id2loc_map lm i = (if i < 10 then Some i else None)" "cur_loc lm = 14" "cur_id lm = 10"
    by (rule demo_loaded)
  have "slot demo_geom lm i = i" if "i < 10" for i using map_okD(2) [OF lm(3), of i i] lm(4) that by simp
  with verify_id2loc_iff [OF demo_geom_wf lm(2)] lm map_okD(4) [OF lm(3)] show ?thesis by fastforce
qed

end
