(* ===== verification/Float32.thy ===== *)
theory Float32 imports Prelude begin

text \<open>
  IEEE 754 single precision, round to nearest even, as the C++ \<^verbatim>\<open>float\<close>: every finite single is
  an integral multiple of \<^verbatim>\<open>2^-149\<close>, so a finite value is its sign and its magnitude in that
  unit; infinities and one NaN complete the type.  Comparisons, addition, multiplication and
  division are exact followed by one rounding, and they compute.
\<close>

datatype f32 = FNaN | FInf bool | FFin bool nat

definition fsgn :: "bool \<Rightarrow> nat \<Rightarrow> int" where
  "fsgn s n = (if s then - int n else int n)"

fun flt :: "f32 \<Rightarrow> f32 \<Rightarrow> bool" where
  "flt (FFin s m) (FFin t n) = (fsgn s m < fsgn t n)"
| "flt (FFin s m) (FInf t) = (\<not> t)"
| "flt (FInf s) (FFin t n) = s"
| "flt (FInf s) (FInf t) = (s \<and> \<not> t)"
| "flt FNaN b = False"
| "flt a FNaN = False"

fun feq :: "f32 \<Rightarrow> f32 \<Rightarrow> bool" where
  "feq (FFin s m) (FFin t n) = (fsgn s m = fsgn t n)"
| "feq (FInf s) (FInf t) = (s = t)"
| "feq (FFin s m) (FInf t) = False"
| "feq (FInf s) (FFin t n) = False"
| "feq FNaN b = False"
| "feq a FNaN = False"

abbreviation fgt :: "f32 \<Rightarrow> f32 \<Rightarrow> bool" where
  "fgt a b \<equiv> flt b a"

definition fle :: "f32 \<Rightarrow> f32 \<Rightarrow> bool" where
  "fle a b = (flt a b \<or> feq a b)"

abbreviation fge :: "f32 \<Rightarrow> f32 \<Rightarrow> bool" where
  "fge a b \<equiv> fle b a"

text \<open>\<^verbatim>\<open>std::max(a, b)\<close> is \<^verbatim>\<open>(a < b) ? b : a\<close>, also on NaN.\<close>

definition fmax :: "f32 \<Rightarrow> f32 \<Rightarrow> f32" where
  "fmax a b = (if flt a b then b else a)"

section \<open>Rounding\<close>

fun nbits :: "nat \<Rightarrow> nat" where
  "nbits n = (if n = 0 then 0 else Suc (nbits (n div 2)))"

declare nbits.simps [simp del]

lemma nbits_numeral [simp]:
  "nbits 0 = 0" "nbits 1 = 1" "nbits (Suc 0) = 1" "nbits (numeral num.One) = 1"
  "nbits (numeral (num.Bit0 n)) = Suc (nbits (numeral n))"
  "nbits (numeral (num.Bit1 n)) = Suc (nbits (numeral n))"
proof -
  have d: "numeral (num.Bit0 n) div 2 = (numeral n :: nat)" "numeral (num.Bit1 n) div 2 = (numeral n :: nat)"
    by simp_all
  show "nbits 0 = 0" "nbits 1 = 1" "nbits (Suc 0) = 1" "nbits (numeral num.One) = 1"
    by (simp_all add: nbits.simps)
  show "nbits (numeral (num.Bit0 n)) = Suc (nbits (numeral n))"
    by (subst nbits.simps) (simp only: d, simp)
  show "nbits (numeral (num.Bit1 n)) = Suc (nbits (numeral n))"
    by (subst nbits.simps) (simp only: d, simp)
qed

definition rhe :: "nat \<Rightarrow> nat \<Rightarrow> nat" where
  "rhe p q = (let d = p div q; r = p mod q
     in if 2 * r < q then d else if q < 2 * r then d + 1 else if even d then d else d + 1)"

text \<open>The single nearest to \<^verbatim>\<open>p / q\<close> units.\<close>

definition rnd_mag :: "nat \<Rightarrow> nat \<Rightarrow> nat" where
  "rnd_mag p q = (let k = nbits (p div q) - 24 in rhe p (q * 2 ^ k) * 2 ^ k)"

definition rnd :: "bool \<Rightarrow> nat \<Rightarrow> nat \<Rightarrow> f32" where
  "rnd s p q = (if 2 ^ 277 \<le> rnd_mag p q then FInf s else FFin s (rnd_mag p q))"

definition f_unit :: nat where
  "f_unit = 2 ^ 149"

fun fmul :: "f32 \<Rightarrow> f32 \<Rightarrow> f32" where
  "fmul (FFin s m) (FFin t n) = rnd (s \<noteq> t) (m * n) f_unit"
| "fmul (FFin s m) (FInf t) = (if m = 0 then FNaN else FInf (s \<noteq> t))"
| "fmul (FInf s) (FFin t n) = (if n = 0 then FNaN else FInf (s \<noteq> t))"
| "fmul (FInf s) (FInf t) = FInf (s \<noteq> t)"
| "fmul FNaN b = FNaN"
| "fmul a FNaN = FNaN"

fun fdiv :: "f32 \<Rightarrow> f32 \<Rightarrow> f32" where
  "fdiv (FFin s m) (FFin t n) =
     (if n = 0 then (if m = 0 then FNaN else FInf (s \<noteq> t)) else rnd (s \<noteq> t) (m * f_unit) n)"
| "fdiv (FFin s m) (FInf t) = FFin (s \<noteq> t) 0"
| "fdiv (FInf s) (FFin t n) = FInf (s \<noteq> t)"
| "fdiv (FInf s) (FInf t) = FNaN"
| "fdiv FNaN b = FNaN"
| "fdiv a FNaN = FNaN"

fun fneg :: "f32 \<Rightarrow> f32" where
  "fneg (FFin s m) = FFin (\<not> s) m"
| "fneg (FInf s) = FInf (\<not> s)"
| "fneg FNaN = FNaN"

fun fadd :: "f32 \<Rightarrow> f32 \<Rightarrow> f32" where
  "fadd (FFin s m) (FFin t n) = (let v = fsgn s m + fsgn t n
     in if v = 0 then FFin (s \<and> t) 0 else rnd (v < 0) (nat \<bar>v\<bar>) 1)"
| "fadd (FFin s m) (FInf t) = FInf t"
| "fadd (FInf s) (FFin t n) = FInf s"
| "fadd (FInf s) (FInf t) = (if s = t then FInf s else FNaN)"
| "fadd FNaN b = FNaN"
| "fadd a FNaN = FNaN"

definition fsub :: "f32 \<Rightarrow> f32 \<Rightarrow> f32" where
  "fsub a b = fadd a (fneg b)"

definition f_zero :: f32 where "f_zero = FFin False 0"

definition f_one :: f32 where "f_one = FFin False f_unit"

definition f_1_2 :: f32 where "f_1_2 = rnd False (12 * f_unit) 10"

definition FLT_MAX :: f32 where "FLT_MAX = FFin False ((2 ^ 24 - 1) * 2 ^ 253)"

text \<open>A single of an integer literal.\<close>

definition f_of_nat :: "nat \<Rightarrow> f32" where
  "f_of_nat n = rnd False (n * f_unit) 1"

section \<open>Order\<close>

definition fnum :: "f32 \<Rightarrow> bool" where
  "fnum a \<longleftrightarrow> a \<noteq> FNaN"

lemma fnum_simps [simp]: "fnum (FInf s)" "fnum (FFin s m)" "\<not> fnum FNaN"
  by (simp_all add: fnum_def)

lemma flt_irrefl [simp]: "\<not> flt a a"
  by (cases a) auto

lemma flt_trans: "flt a b \<Longrightarrow> flt b c \<Longrightarrow> flt a c"
  by (cases a; cases b; cases c) auto

lemma flt_asym: "flt a b \<Longrightarrow> \<not> flt b a"
  using flt_trans flt_irrefl by blast

lemma feq_sym: "feq a b \<longleftrightarrow> feq b a"
  by (cases a; cases b) auto

lemma feq_refl [simp]: "feq a a \<longleftrightarrow> fnum a"
  by (cases a) (auto simp: fnum_def)

lemma feq_flt: "feq a b \<Longrightarrow> flt b c \<Longrightarrow> flt a c" "feq a b \<Longrightarrow> flt c b \<Longrightarrow> flt c a"
  by (cases a; cases b; cases c; auto)+

lemma feq_not_flt: "feq a b \<Longrightarrow> \<not> flt a b" "feq a b \<Longrightarrow> \<not> flt b a"
  by (cases a; cases b; auto)+

lemma feq_trans: "feq a b \<Longrightarrow> feq b c \<Longrightarrow> feq a c"
  by (cases a; cases b; cases c) (auto split: if_splits)

lemma flt_num: "flt a b \<Longrightarrow> fnum a \<and> fnum b"
  by (cases a; cases b) (auto simp: fnum_def)

lemma flt_total: "fnum a \<Longrightarrow> fnum b \<Longrightarrow> flt a b \<or> feq a b \<or> flt b a"
  by (cases a; cases b) (auto simp: fnum_def)

lemma fle_not_flt: "fnum a \<Longrightarrow> fnum b \<Longrightarrow> fle a b \<longleftrightarrow> \<not> flt b a"
  using flt_total [of a b] flt_asym feq_not_flt by (auto simp: fle_def)

lemma not_flt_trans: "fnum b \<Longrightarrow> \<not> flt b a \<Longrightarrow> \<not> flt c b \<Longrightarrow> \<not> flt c a"
  by (cases a; cases b; cases c) (auto simp: fnum_def)

lemma flt_le_trans: "flt a b \<Longrightarrow> fnum c \<Longrightarrow> \<not> flt c b \<Longrightarrow> flt a c"
  by (cases a; cases b; cases c) auto

lemma le_flt_trans: "flt b c \<Longrightarrow> fnum a \<Longrightarrow> \<not> flt b a \<Longrightarrow> flt a c"
  by (cases a; cases b; cases c) auto

lemma fmax_num: "fnum a \<Longrightarrow> fnum (fmax a b)"
  using flt_num by (auto simp: fmax_def)

lemma fmax_ge: "\<not> flt (fmax a b) a" "\<not> flt (fmax a b) b"
  using flt_asym by (auto simp: fmax_def)

section \<open>The size of a rounded value\<close>

lemma nbits_bound: "0 < n \<Longrightarrow> 2 ^ (nbits n - 1) \<le> n \<and> n < 2 ^ nbits n \<and> 0 < nbits n"
proof (induction n rule: nbits.induct)
  case (1 n)
  show ?case
  proof (cases "n div 2 = 0")
    case True
    with 1 have "n = 1" by simp
    then show ?thesis by (simp add: nbits.simps)
  next
    case False
    then have ih: "2 ^ (nbits (n div 2) - 1) \<le> n div 2" "n div 2 < 2 ^ nbits (n div 2)" "0 < nbits (n div 2)"
      using 1 by auto
    have s: "nbits n = Suc (nbits (n div 2))" using 1 by (subst nbits.simps) simp
    obtain k where k: "nbits (n div 2) = Suc k" using ih(3) by (cases "nbits (n div 2)") auto
    have "2 * 2 ^ k \<le> 2 * (n div 2)" using ih(1) k by simp
    moreover have "2 * (n div 2) \<le> n" by simp
    moreover have "n < 2 * (n div 2 + 1)" by simp
    moreover have "2 * (n div 2 + 1) \<le> 2 * 2 ^ nbits (n div 2)" using ih(2) by simp
    ultimately show ?thesis by (simp add: s k)
  qed
qed

lemma rhe_bounds:
  assumes "0 < q"
  shows "2 * p \<le> 2 * q * rhe p q + q" "2 * q * rhe p q \<le> 2 * p + q"
proof -
  have e: "q * (p div q) + p mod q = p" by simp
  have r: "rhe p q = p div q \<and> 2 * (p mod q) \<le> q \<or> rhe p q = p div q + 1 \<and> q \<le> 2 * (p mod q)"
    by (auto simp: rhe_def Let_def)
  have m: "p mod q < q" using assms by simp
  have d: "2 * q * (p div q + 1) = 2 * (q * (p div q)) + 2 * q" by (simp add: algebra_simps)
  have d': "2 * q * (p div q) = 2 * (q * (p div q))" by simp
  from r show "2 * p \<le> 2 * q * rhe p q + q"
  proof
    assume "rhe p q = p div q \<and> 2 * (p mod q) \<le> q"
    then show ?thesis using e d' by ((simp only:); linarith?)
  next
    assume "rhe p q = p div q + 1 \<and> q \<le> 2 * (p mod q)"
    then show ?thesis using e m d by ((simp only:); linarith?)
  qed
  from r show "2 * q * rhe p q \<le> 2 * p + q"
  proof
    assume "rhe p q = p div q \<and> 2 * (p mod q) \<le> q"
    then show ?thesis using e d' by ((simp only:); linarith?)
  next
    assume "rhe p q = p div q + 1 \<and> q \<le> 2 * (p mod q)"
    then show ?thesis using e m d by ((simp only:); linarith?)
  qed
qed

text \<open>The relative error of a normal result is at most \<^verbatim>\<open>2^-24\<close>.\<close>

lemma rnd_error:
  assumes "0 < q" "2 ^ 23 * q \<le> p" "r = rnd_mag p q"
  shows "p * 2 ^ 24 \<le> r * q * 2 ^ 24 + p" "r * q * 2 ^ 24 \<le> p * 2 ^ 24 + p"
proof -
  let ?k = "nbits (p div q) - 24"
  let ?Q = "q * 2 ^ ?k"
  have r: "r = rhe p ?Q * 2 ^ ?k" using assms(3) by (simp add: rnd_mag_def Let_def)
  have dq: "2 ^ 23 \<le> p div q" using assms(1,2) by (simp add: less_eq_div_iff_mult_less_eq)
  have "0 < p div q" by (rule less_le_trans [OF _ dq]) simp
  note nb = nbits_bound [OF this]
  have "2 ^ 23 < (2 :: nat) ^ nbits (p div q)" by (rule le_less_trans [OF dq]) (use nb in blast)
  then have "23 < nbits (p div q)" by (rule power_less_imp_less_exp [rotated]) simp
  then have "nbits (p div q) - 1 = 23 + ?k" by simp
  with nb have "2 ^ (23 + ?k) \<le> p div q" by metis
  then have "2 ^ (23 + ?k) * q \<le> p div q * q" by (rule mult_le_mono1)
  also have "\<dots> \<le> p" by simp
  finally have Q: "2 ^ 23 * ?Q \<le> p" by (simp add: power_add ac_simps)
  have "0 < ?Q" using assms(1) by simp
  note b = rhe_bounds [OF this, of p]
  have "2 * p * 2 ^ 23 \<le> 2 * (?Q * rhe p ?Q) * 2 ^ 23 + 2 ^ 23 * ?Q"
    using mult_le_mono1 [OF b(1), of "2 ^ 23"] by (simp add: algebra_simps)
  with Q have "p * 2 ^ 24 \<le> ?Q * rhe p ?Q * 2 ^ 24 + p" by simp
  moreover have "2 * (?Q * rhe p ?Q) * 2 ^ 23 \<le> 2 * p * 2 ^ 23 + 2 ^ 23 * ?Q"
    using mult_le_mono1 [OF b(2), of "2 ^ 23"] by (simp add: algebra_simps)
  with Q have "?Q * rhe p ?Q * 2 ^ 24 \<le> p * 2 ^ 24 + p" by simp
  moreover have "?Q * rhe p ?Q = r * q" by (simp add: r ac_simps)
  ultimately show "p * 2 ^ 24 \<le> r * q * 2 ^ 24 + p" "r * q * 2 ^ 24 \<le> p * 2 ^ 24 + p" by simp_all
qed

lemma rnd_upper:
  assumes "0 < q" "2 ^ 23 * q \<le> p" "r = rnd_mag p q"
  shows "r * q * 2 ^ 24 \<le> p * (2 ^ 24 + 1)"
proof -
  note e = rnd_error [OF assms]
  have "r * q * 2 ^ 24 \<le> p * 2 ^ 24 + p" using e(2) .
  then show ?thesis by (simp add: distrib_left)
qed

lemma rnd_lower:
  assumes "0 < q" "2 ^ 23 * q \<le> p" "r = rnd_mag p q"
  shows "p * (2 ^ 24 - 1) \<le> r * q * 2 ^ 24"
  using rnd_error(1) [OF assms] by (simp add: right_diff_distrib')

lemma f_1_2_val: "f_1_2 = FFin False (10066330 * 2 ^ 126)"
  by (simp add: f_1_2_def rnd_def rnd_mag_def rhe_def f_unit_def Let_def)

lemma rnd_cases: "rnd s p q = FInf s \<or> (rnd s p q = FFin s (rnd_mag p q) \<and> rnd_mag p q < 2 ^ 277)"
  by (auto simp: rnd_def)

text \<open>Scaling by \<^verbatim>\<open>1.2f\<close> grows a single of at least one by \<^verbatim>\<open>1.19\<close> or overflows.\<close>

lemma fmul_1_2:
  assumes "f_unit \<le> n"
  shows "fmul (FFin False n) f_1_2 = FInf False \<or>
    (\<exists>r. fmul (FFin False n) f_1_2 = FFin False r \<and> 119 * n \<le> 100 * r)"
proof -
  define U :: nat where "U = 2 ^ 126"
  have U: "0 < U" "f_unit = 8388608 * U" by (simp_all add: U_def f_unit_def)
  let ?p = "n * (10066330 * U)"
  have m: "fmul (FFin False n) f_1_2 = rnd False ?p f_unit" by (simp only: f_1_2_val fmul.simps U_def simp_thms)
  show ?thesis
  proof (cases "rnd False ?p f_unit = FInf False")
    case False
    then obtain r where fin: "rnd False ?p f_unit = FFin False r" "r = rnd_mag ?p f_unit" using rnd_cases by blast
    have "f_unit * (8388608 * 1) \<le> n * (10066330 * U)" using assms U(1) by (intro mult_le_mono) auto
    then have "2 ^ 23 * f_unit \<le> ?p" by simp
    moreover have "0 < f_unit" using U by simp
    ultimately have "?p * (2 ^ 24 - 1) \<le> r * f_unit * 2 ^ 24" using fin(2) by (intro rnd_lower)
    then have "(n * (10066330 * 16777215)) * U \<le> (r * (8388608 * 16777216)) * U"
      unfolding U(2) by (simp add: ac_simps)
    then have "n * (10066330 * 16777215) \<le> r * (8388608 * 16777216)" using U(1) by (simp only: mult_le_cancel2)
    then have "119 * n \<le> 100 * r" by simp
    with m fin(1) show ?thesis by simp
  qed (simp only: m simp_thms)
qed

text \<open>Dividing by \<^verbatim>\<open>1.2f\<close> shrinks it by \<^verbatim>\<open>1.19\<close>.\<close>

lemma fdiv_1_2:
  assumes "10066330 \<le> n" "n < 2 ^ 277"
  shows "\<exists>r. fdiv (FFin False n) f_1_2 = FFin False r \<and> 119 * r \<le> 100 * n"
proof -
  define U :: nat where "U = 2 ^ 126"
  have U: "0 < U" "f_unit = 8388608 * U" by (simp_all add: U_def f_unit_def)
  let ?q = "10066330 * U"
  have q0: "?q \<noteq> 0" using U(1) by simp
  have m: "fdiv (FFin False n) f_1_2 = rnd False (n * f_unit) ?q"
    using q0 by (simp only: f_1_2_val fdiv.simps U_def simp_thms if_False)
  define r where "r = rnd_mag (n * f_unit) ?q"
  have "2 ^ 23 * ?q = 10066330 * f_unit" unfolding U(2) by simp
  also have "\<dots> \<le> n * f_unit" using assms(1) by (rule mult_le_mono1)
  finally have "2 ^ 23 * ?q \<le> n * f_unit" .
  moreover have "0 < ?q" using U(1) by simp
  ultimately have "r * ?q * 2 ^ 24 \<le> n * f_unit * (2 ^ 24 + 1)" using r_def by (intro rnd_upper)
  then have "(r * (10066330 * 16777216)) * U \<le> (n * (8388608 * 16777217)) * U"
    unfolding U(2) by (simp add: ac_simps)
  then have "r * (10066330 * 16777216) \<le> n * (8388608 * 16777217)" using U(1) by (simp only: mult_le_cancel2)
  then have le: "119 * r \<le> 100 * n" by simp
  then have "r \<le> n" by simp
  then have "r < 2 ^ 277" using assms(2) by (rule le_less_trans)
  then have "rnd False (n * f_unit) ?q = FFin False r" unfolding r_def rnd_def by (simp only: not_le [symmetric] if_False simp_thms) 
  with m le show ?thesis by simp
qed

end
