(* ===== verification/Neighbor.thy ===== *)
theory Neighbor imports Float32 begin

text \<open>
  \<^verbatim>\<open>include/neighbor.h\<close>: candidates ordered by distance and then id, sets of them kept in that
  order, and \<^verbatim>\<open>InsertIntoPool\<close>, the sorted insertion every search uses for its candidate list.
  \<^verbatim>\<open>std::sort\<close> is an insertion sort by the given comparison (elements that compare equal may
  come out in any order in C++; here they keep theirs).
\<close>

record neighbor =
  nb_id :: nat
  nb_dist :: f32
  nb_flag :: bool
  nb_visited :: bool

definition Neighbor :: "nat \<Rightarrow> f32 \<Rightarrow> bool \<Rightarrow> neighbor" where
  "Neighbor i d f = \<lparr>nb_id = i, nb_dist = d, nb_flag = f, nb_visited = False\<rparr>"

text \<open>A value-initialised \<^verbatim>\<open>Neighbor\<close>, as \<^verbatim>\<open>std::vector::resize\<close> leaves it.\<close>

definition neighbor_zero :: neighbor where
  "neighbor_zero = \<lparr>nb_id = 0, nb_dist = f_zero, nb_flag = False, nb_visited = False\<rparr>"

definition nb_lt :: "neighbor \<Rightarrow> neighbor \<Rightarrow> bool" where
  "nb_lt a b = (flt (nb_dist a) (nb_dist b) \<or> feq (nb_dist a) (nb_dist b) \<and> nb_id a < nb_id b)"

definition nb_gt :: "neighbor \<Rightarrow> neighbor \<Rightarrow> bool" where
  "nb_gt a b = (fgt (nb_dist a) (nb_dist b) \<or> feq (nb_dist a) (nb_dist b) \<and> nb_id b < nb_id a)"

definition nb_eq :: "neighbor \<Rightarrow> neighbor \<Rightarrow> bool" where
  "nb_eq a b = (nb_id a = nb_id b)"

text \<open>\<^verbatim>\<open>std::sort\<close> and \<^verbatim>\<open>std::set::insert\<close> for a comparison.\<close>

fun ins_lt :: "('a \<Rightarrow> 'a \<Rightarrow> bool) \<Rightarrow> 'a \<Rightarrow> 'a list \<Rightarrow> 'a list" where
  "ins_lt lt x [] = [x]"
| "ins_lt lt x (y # ys) = (if lt y x then y # ins_lt lt x ys else x # y # ys)"

definition sort_lt :: "('a \<Rightarrow> 'a \<Rightarrow> bool) \<Rightarrow> 'a list \<Rightarrow> 'a list" where
  "sort_lt lt xs = foldr (ins_lt lt) xs []"

fun set_ins :: "('a \<Rightarrow> 'a \<Rightarrow> bool) \<Rightarrow> 'a \<Rightarrow> 'a list \<Rightarrow> 'a list" where
  "set_ins lt x [] = [x]"
| "set_ins lt x (y # ys) = (if lt x y then x # y # ys else if lt y x then y # set_ins lt x ys else y # ys)"

lemma mset_ins_lt [simp]: "mset (ins_lt lt x ys) = add_mset x (mset ys)"
  by (induction ys) auto

lemma mset_sort_lt [simp]: "mset (sort_lt lt xs) = mset xs"
  by (induction xs) (auto simp: sort_lt_def)

lemma set_sort_lt [simp]: "set (sort_lt lt xs) = set xs"
  using mset_sort_lt by (metis set_mset_mset)

lemma length_sort_lt [simp]: "length (sort_lt lt xs) = length xs"
  using mset_sort_lt by (metis size_mset)

lemma distinct_map_sort_lt: "distinct (map f (sort_lt lt xs)) = distinct (map f xs)"
  by (metis mset_map mset_sort_lt mset_eq_imp_distinct_iff)

lemma set_ins_subset: "set (set_ins lt x ys) \<subseteq> insert x (set ys)"
  by (induction ys) auto

lemma set_ins_superset: "set ys \<subseteq> set (set_ins lt x ys)"
  by (induction ys) auto

lemma length_set_ins: "length (set_ins lt x ys) \<le> length ys + 1"
  by (induction ys) auto

text \<open>Distances without a NaN; on these the order is a strict weak order.\<close>

abbreviation nb_num :: "neighbor \<Rightarrow> bool" where
  "nb_num n \<equiv> fnum (nb_dist n)"

lemma nb_lt_irrefl [simp]: "\<not> nb_lt a a"
  by (simp add: nb_lt_def)

lemma nb_lt_trans: "nb_lt a b \<Longrightarrow> nb_lt b c \<Longrightarrow> nb_lt a c"
  unfolding nb_lt_def by (meson flt_trans feq_flt feq_sym feq_trans less_trans)

lemma nb_lt_total: "nb_num a \<Longrightarrow> nb_num b \<Longrightarrow> nb_lt a b \<or> nb_lt b a \<or> nb_id a = nb_id b \<and> feq (nb_dist a) (nb_dist b)"
  unfolding nb_lt_def using flt_total [of "nb_dist a" "nb_dist b"] feq_sym [of "nb_dist a" "nb_dist b"]
  by (meson linorder_neqE_nat)

lemma nb_not_lt_trans: "nb_num b \<Longrightarrow> \<not> nb_lt b a \<Longrightarrow> \<not> nb_lt c b \<Longrightarrow> \<not> nb_lt c a"
proof
  assume h: "nb_num b" "\<not> nb_lt b a" "\<not> nb_lt c b" "nb_lt c a"
  then have n: "nb_num c" "nb_num a" using flt_num feq_refl
    by (auto simp: nb_lt_def) (metis fnum_simps(3) feq.simps(5) f32.exhaust feq.simps fnum_def)+
  from nb_lt_total [OF h(1) n(1)] h(3) have "nb_lt b c \<or> nb_id b = nb_id c \<and> feq (nb_dist b) (nb_dist c)" by blast
  then show False
  proof
    assume "nb_lt b c"
    with h(2,4) nb_lt_trans show False by blast
  next
    assume e: "nb_id b = nb_id c \<and> feq (nb_dist b) (nb_dist c)"
    with h(4) have "nb_lt b a" unfolding nb_lt_def by (metis feq_flt(1) feq_trans)
    with h(2) show False by blast
  qed
qed

lemma sorted_ins_lt:
  assumes "sorted_wrt (\<lambda>a b. \<not> nb_lt b a) ys" "nb_num x" "\<forall>y \<in> set ys. nb_num y"
  shows "sorted_wrt (\<lambda>a b. \<not> nb_lt b a) (ins_lt nb_lt x ys)"
  using assms
proof (induction ys)
  case (Cons y ys)
  have st: "set (ins_lt nb_lt x ys) = insert x (set ys)" by (metis mset_ins_lt set_mset_mset set_mset_add_mset_insert)
  show ?case
  proof (cases "nb_lt y x")
    case True
    then have "\<not> nb_lt x y" using nb_lt_trans nb_lt_irrefl by blast
    with True Cons st show ?thesis by auto
  next
    case False
    have "\<not> nb_lt z x" if "z \<in> set ys" for z
      using nb_not_lt_trans [of y x z] False Cons.prems that by simp
    with False Cons.prems show ?thesis by auto
  qed
qed simp

lemma sorted_sort_lt:
  "\<forall>x \<in> set xs. nb_num x \<Longrightarrow> sorted_wrt (\<lambda>a b. \<not> nb_lt b a) (sort_lt nb_lt xs)"
proof (induction xs)
  case (Cons x xs)
  then have "sorted_wrt (\<lambda>a b. \<not> nb_lt b a) (ins_lt nb_lt x (sort_lt nb_lt xs))"
    by (intro sorted_ins_lt) auto
  then show ?case by (simp add: sort_lt_def)
qed (simp add: sort_lt_def)

lemma set_ins_strict:
  assumes "sorted_wrt nb_lt ys"
  shows "sorted_wrt nb_lt (set_ins nb_lt x ys)"
  using assms
proof (induction ys)
  case (Cons y ys)
  have "set (set_ins nb_lt x ys) \<subseteq> insert x (set ys)" by (rule set_ins_subset)
  with Cons show ?case by (auto intro: nb_lt_trans)
qed simp

section \<open>InsertIntoPool\<close>

text \<open>The array has room for its \<^verbatim>\<open>K\<close> elements and one more; \<^verbatim>\<open>memmove\<close> of the tail and the store.\<close>

definition insert_at :: "nat \<Rightarrow> 'a \<Rightarrow> nat \<Rightarrow> 'a list \<Rightarrow> 'a list res" where
  "insert_at i x K addr = (if length addr \<le> K then Inl OutOfRange
     else Inr (take i addr @ x # take (K - i) (drop i addr) @ drop (K + 1) addr))"

function ipool_search :: "neighbor list \<Rightarrow> neighbor \<Rightarrow> nat \<Rightarrow> nat \<Rightarrow> nat \<times> nat" where
  "ipool_search addr nn left right =
     (if 1 < right \<and> left < right - 1
      then let mid = (left + right) div 2
           in if fgt (nb_dist (addr ! mid)) (nb_dist nn) then ipool_search addr nn left mid
              else ipool_search addr nn mid right
      else (left, right))"
  by pat_completeness auto
termination
  by (relation "measure (\<lambda>(addr, nn, left, right). right - left)") auto

declare ipool_search.simps [simp del]

text \<open>The scan over equal distances: \<^verbatim>\<open>None\<close> when the id is found.\<close>

fun ipool_scan :: "neighbor list \<Rightarrow> neighbor \<Rightarrow> nat \<Rightarrow> nat option" where
  "ipool_scan addr nn left =
     (if left = 0 then Some 0
      else if flt (nb_dist (addr ! left)) (nb_dist nn) then Some left
      else if nb_id (addr ! left) = nb_id nn then None
      else ipool_scan addr nn (left - 1))"

declare ipool_scan.simps [simp del]

definition InsertIntoPool :: "neighbor list \<Rightarrow> nat \<Rightarrow> neighbor \<Rightarrow> (nat \<times> neighbor list) res" where
  "InsertIntoPool addr K nn =
     (if length addr = 0 then Inl OutOfRange
      else if fgt (nb_dist (addr ! 0)) (nb_dist nn)
      then bindE (insert_at 0 nn K addr) (\<lambda>addr. Inr (0, addr))
      else if K = 0 \<or> length addr \<le> K - 1 then Inl OutOfRange
      else if flt (nb_dist (addr ! (K - 1))) (nb_dist nn)
      then (if length addr \<le> K then Inl OutOfRange else Inr (K, addr[K := nn]))
      else let (left, right) = ipool_search addr nn 0 (K - 1)
           in (case ipool_scan addr nn left of
                 None \<Rightarrow> Inr (K + 1, addr)
               | Some left \<Rightarrow>
                   if nb_id (addr ! left) = nb_id nn \<or> nb_id (addr ! right) = nb_id nn then Inr (K + 1, addr)
                   else bindE (insert_at right nn K addr) (\<lambda>addr. Inr (right, addr))))"

text \<open>The pool's order: distances do not decrease.\<close>

definition pool_sorted :: "neighbor list \<Rightarrow> bool" where
  "pool_sorted xs \<longleftrightarrow> sorted_wrt (\<lambda>a b. \<not> flt (nb_dist b) (nb_dist a)) xs"

lemma ipool_search_spec:
  assumes "left < right" "right \<le> R" "\<not> flt (nb_dist nn) (nb_dist (addr ! left))"
    and "flt (nb_dist nn) (nb_dist (addr ! right)) \<or> right = R"
    and "ipool_search addr nn left right = (l, r)"
  shows "r = l + 1 \<and> r \<le> R \<and> \<not> flt (nb_dist nn) (nb_dist (addr ! l)) \<and>
    (flt (nb_dist nn) (nb_dist (addr ! r)) \<or> r = R)"
  using assms
proof (induction addr nn left right rule: ipool_search.induct)
  case (1 addr nn left right)
  show ?case
  proof (cases "1 < right \<and> left < right - 1")
    case False
    then have "ipool_search addr nn left right = (left, right)" by (subst ipool_search.simps) auto
    with 1 False show ?thesis by auto
  next
    case True
    let ?mid = "(left + right) div 2"
    have m: "left < ?mid" "?mid < right" using True by auto
    have ru: "ipool_search addr nn left right = (if fgt (nb_dist (addr ! ?mid)) (nb_dist nn)
        then ipool_search addr nn left ?mid else ipool_search addr nn ?mid right)"
      using True by (subst ipool_search.simps) (simp add: Let_def)
    show ?thesis
    proof (cases "fgt (nb_dist (addr ! ?mid)) (nb_dist nn)")
      case t: True
      then have "ipool_search addr nn left ?mid = (l, r)" using "1.prems"(5) ru by simp
      moreover have "?mid \<le> R" using m "1.prems"(2) by linarith
      ultimately show ?thesis using "1.IH"(1) [OF True refl t] t m "1.prems"(3) by blast
    next
      case False
      then have "ipool_search addr nn ?mid right = (l, r)" using "1.prems"(5) ru by simp
      then show ?thesis using "1.IH"(2) [OF True refl False] False m "1.prems"(2,4) by blast
    qed
  qed
qed

lemma ipool_scan_spec:
  "ipool_scan addr nn left = None \<Longrightarrow> \<exists>i \<le> left. nb_id (addr ! i) = nb_id nn"
  "ipool_scan addr nn left = Some l \<Longrightarrow> l \<le> left \<and>
     (\<forall>i \<le> left. l < i \<longrightarrow> nb_id (addr ! i) \<noteq> nb_id nn) \<and> (l = 0 \<or> flt (nb_dist (addr ! l)) (nb_dist nn))"
proof (induction left)
  case 0
  {
    case 1
    then show ?case by (simp add: ipool_scan.simps)
  next
    case 2
    then show ?case by (simp add: ipool_scan.simps)
  }
next
  case (Suc left)
  have st: "ipool_scan addr nn (Suc left) =
     (if flt (nb_dist (addr ! Suc left)) (nb_dist nn) then Some (Suc left)
      else if nb_id (addr ! Suc left) = nb_id nn then None else ipool_scan addr nn left)"
    by (subst ipool_scan.simps) simp
  {
    case 1
    then show ?case using Suc.IH(1) unfolding st by (auto split: if_splits intro: le_SucI)
  next
    case 2
    then show ?case using Suc.IH(2) unfolding st by (auto split: if_splits simp: le_Suc_eq)
  }
qed

lemma insert_at_take:
  assumes "i \<le> K" "K < length addr"
  shows "\<exists>addr'. insert_at i x K addr = Inr addr' \<and> length addr' = length addr \<and>
    take (K + 1) addr' = take i addr @ x # drop i (take K addr) \<and> drop (K + 1) addr' = drop (K + 1) addr"
proof -
  let ?a = "take i addr @ x # take (K - i) (drop i addr) @ drop (K + 1) addr"
  have l: "length (take i addr @ x # take (K - i) (drop i addr)) = K + 1" using assms by simp
  have s: "?a = (take i addr @ x # take (K - i) (drop i addr)) @ drop (K + 1) addr" by simp
  have "take (K + 1) ?a = take i addr @ x # take (K - i) (drop i addr)" unfolding s using l by (metis append_eq_conv_conj)
  moreover have "drop (K + 1) ?a = drop (K + 1) addr" unfolding s using l by (metis append_eq_conv_conj)
  moreover have "take (K - i) (drop i addr) = drop i (take K addr)" by (simp add: drop_take)
  moreover have "length ?a = length addr" using assms by simp
  ultimately show ?thesis using assms(2) by (intro exI [of _ ?a]) (simp add: insert_at_def)
qed

lemma pool_sorted_nth:
  assumes "pool_sorted (take K addr)" "K \<le> length addr" "i \<le> j" "j < K"
  shows "\<not> flt (nb_dist (addr ! j)) (nb_dist (addr ! i))"
proof (cases "i = j")
  case False
  with assms show ?thesis unfolding pool_sorted_def sorted_wrt_iff_nth_less by auto
qed simp

lemma pool_sorted_insert:
  assumes "pool_sorted (take K addr)" "K < length addr" "i \<le> K"
    and "\<forall>j < i. \<not> flt (nb_dist x) (nb_dist (addr ! j))"
    and "\<forall>j < K. i \<le> j \<longrightarrow> \<not> flt (nb_dist (addr ! j)) (nb_dist x)"
  shows "pool_sorted (take i addr @ x # drop i (take K addr))"
proof -
  have t: "take K addr = take i addr @ drop i (take K addr)" using assms(3)
    by (metis append_take_drop_id min.absorb2 min.commute take_take)
  have "sorted_wrt (\<lambda>a b. \<not> flt (nb_dist b) (nb_dist a)) (take i addr @ drop i (take K addr))"
    using assms(1) unfolding pool_sorted_def by (subst (asm) t)
  moreover have "\<forall>a \<in> set (take i addr). \<not> flt (nb_dist x) (nb_dist a)"
    using assms(2-4) by (simp add: ball_take)
  moreover have "\<forall>b \<in> set (drop i (take K addr)). \<not> flt (nb_dist b) (nb_dist x)"
    using assms(2,3,5) by (auto simp: in_set_conv_nth)
  ultimately show ?thesis unfolding pool_sorted_def by (auto simp: sorted_wrt_append)
qed

text \<open>A pool of \<^verbatim>\<open>K\<close> sorted numbers with room for one more.\<close>

definition pool_ok :: "neighbor list \<Rightarrow> nat \<Rightarrow> bool" where
  "pool_ok addr K \<longleftrightarrow> 0 < K \<and> K < length addr \<and> pool_sorted (take K addr) \<and> (\<forall>n \<in> set (take K addr). nb_num n)"

lemma pool_okD:
  assumes "pool_ok addr K"
  shows "0 < K" "K < length addr" "i < K \<Longrightarrow> nb_num (addr ! i)"
    and "i \<le> j \<Longrightarrow> j < K \<Longrightarrow> \<not> flt (nb_dist (addr ! j)) (nb_dist (addr ! i))"
  using assms pool_sorted_nth [of K addr i j] by (auto simp: pool_ok_def ball_take)

definition pool_put :: "neighbor list \<Rightarrow> nat \<Rightarrow> neighbor \<Rightarrow> nat \<Rightarrow> neighbor list \<Rightarrow> bool" where
  "pool_put addr K nn r addr' \<longleftrightarrow> r \<le> K \<and> length addr' = length addr \<and> pool_ok addr' K \<and>
     pool_sorted (take (K + 1) addr') \<and> take (K + 1) addr' = take r addr @ nn # drop r (take K addr) \<and>
     drop (K + 1) addr' = drop (K + 1) addr"

lemma pool_place:
  assumes "pool_ok addr K" "nb_num nn" "i \<le> K"
    and "\<forall>j < i. \<not> flt (nb_dist nn) (nb_dist (addr ! j))"
    and "\<forall>j < K. i \<le> j \<longrightarrow> \<not> flt (nb_dist (addr ! j)) (nb_dist nn)"
  shows "\<exists>addr'. insert_at i nn K addr = Inr addr' \<and> pool_put addr K nn i addr'"
proof -
  note p = pool_okD [OF assms(1)]
  from insert_at_take [OF assms(3) p(2), of nn] obtain addr' where
    a: "insert_at i nn K addr = Inr addr'" "length addr' = length addr"
      "take (K + 1) addr' = take i addr @ nn # drop i (take K addr)" "drop (K + 1) addr' = drop (K + 1) addr" by blast
  have s: "pool_sorted (take (K + 1) addr')"
    unfolding a(3) using assms(1,3-5) by (intro pool_sorted_insert) (auto simp: pool_ok_def)
  have t: "take K addr' = take K (take (K + 1) addr')" by simp
  have "pool_sorted (take K addr')" using s unfolding t pool_sorted_def by (rule sorted_wrt_take)
  moreover have "set (take K addr') \<subseteq> set (take (K + 1) addr')" unfolding t by (rule set_take_subset)
  moreover have "set (take (K + 1) addr') \<subseteq> insert nn (set (take K addr))"
    unfolding a(3) using assms(3) by (auto dest: in_set_dropD in_set_takeD simp: set_take_subset_set_take [THEN subsetD])
  ultimately have "pool_ok addr' K" using assms(1,2) a(2) unfolding pool_ok_def by auto
  with a s assms(3) show ?thesis by (auto simp: pool_put_def)
qed

text \<open>Where the candidate is smaller than the first entry, or larger than the last, it is so for all.\<close>

lemma pool_front:
  assumes "pool_ok addr K" "flt (nb_dist nn) (nb_dist (addr ! 0))" "j < K"
  shows "flt (nb_dist nn) (nb_dist (addr ! j))"
  by (rule flt_le_trans [OF assms(2) pool_okD(3) [OF assms(1,3)] pool_okD(4) [OF assms(1) le0 assms(3)]])

lemma pool_back:
  assumes "pool_ok addr K" "flt (nb_dist (addr ! k)) (nb_dist nn)" "j \<le> k" "k < K"
  shows "flt (nb_dist (addr ! j)) (nb_dist nn)"
  by (rule le_flt_trans [OF assms(2) pool_okD(3) [OF assms(1) le_less_trans [OF assms(3,4)]] pool_okD(4) [OF assms(1,3,4)]])

lemma pool_after:
  assumes "pool_ok addr K" "flt (nb_dist nn) (nb_dist (addr ! k))" "k \<le> j" "j < K"
  shows "flt (nb_dist nn) (nb_dist (addr ! j))"
  by (rule flt_le_trans [OF assms(2) pool_okD(3) [OF assms(1,4)] pool_okD(4) [OF assms(1,3,4)]])

text \<open>What the search and the scan leave: no entry of equal distance has the id.\<close>

lemma pool_no_dup:
  assumes "pool_ok addr K" "r \<le> l + 1" "r < K" "l \<le> r" "flt (nb_dist nn) (nb_dist (addr ! r)) \<or> r = K - 1"
    and "ipool_scan addr nn l = Some l'" "nb_id (addr ! l') \<noteq> nb_id nn" "nb_id (addr ! r) \<noteq> nb_id nn"
    and "j < K" "feq (nb_dist (addr ! j)) (nb_dist nn)"
  shows "nb_id (addr ! j) \<noteq> nb_id nn"
proof -
  note sc = ipool_scan_spec(2) [OF assms(6)]
  consider "j < l'" | "j = l'" | "l' < j" "j \<le> l" | "j = r" | "r < j" using assms(2,4) by linarith
  then show ?thesis
  proof cases
    case 1
    with sc have "flt (nb_dist (addr ! l')) (nb_dist nn)" "l' < K" using assms(3,4) by auto
    with 1 have "flt (nb_dist (addr ! j)) (nb_dist nn)" using pool_back [OF assms(1), of l' nn j] by simp
    with assms(10) feq_not_flt show ?thesis by blast
  next
    case 5
    then have "flt (nb_dist nn) (nb_dist (addr ! r))" using assms(5,9) by linarith
    with 5 have "flt (nb_dist nn) (nb_dist (addr ! j))" using pool_after [OF assms(1), of nn r j] assms(9) by simp
    with assms(10) feq_not_flt show ?thesis by blast
  qed (use sc assms(7,8) in auto)
qed

lemma ipool_bounds:
  assumes "0 < K" "\<not> flt (nb_dist nn) (nb_dist (addr ! 0))" "ipool_search addr nn 0 (K - 1) = (l, r)"
  shows "l \<le> r \<and> r < K \<and> r \<le> l + 1 \<and> \<not> flt (nb_dist nn) (nb_dist (addr ! l)) \<and>
    (flt (nb_dist nn) (nb_dist (addr ! r)) \<or> r = K - 1)"
proof (cases "K = 1")
  case True
  then show ?thesis using assms(2,3) by (auto simp: ipool_search.simps)
next
  case False
  then have "0 < K - 1" using assms(1) by simp
  from ipool_search_spec [OF this order_refl assms(2) _ assms(3)] show ?thesis using assms(1) by auto
qed

lemma InsertIntoPool_spec:
  assumes "pool_ok addr K" "nb_num nn"
  shows "\<exists>r addr'. InsertIntoPool addr K nn = Inr (r, addr') \<and>
    (if r = K + 1 then addr' = addr \<and> (\<exists>n \<in> set (take K addr). nb_id n = nb_id nn)
     else pool_put addr K nn r addr' \<and>
       (\<forall>n \<in> set (take K addr). feq (nb_dist n) (nb_dist nn) \<longrightarrow> nb_id n \<noteq> nb_id nn))"
proof -
  note p = pool_okD [OF assms(1)]
  have a0: "addr \<noteq> []" "K - 1 < length addr" "K \<le> length addr" using p(2) by auto
  note bt = ball_take [OF a0(3)]
  show ?thesis
  proof (cases "fgt (nb_dist (addr ! 0)) (nb_dist nn)")
    case True
    note all = pool_front [OF assms(1) True]
    from all flt_asym pool_place [OF assms le0] obtain addr' where
      a: "insert_at 0 nn K addr = Inr addr'" "pool_put addr K nn 0 addr'" by blast
    have "\<forall>n \<in> set (take K addr). feq (nb_dist n) (nb_dist nn) \<longrightarrow> nb_id n \<noteq> nb_id nn"
      unfolding bt using all feq_not_flt(2) by blast
    with a True a0 show ?thesis by (intro exI [of _ 0] exI [of _ addr']) (simp add: InsertIntoPool_def)
  next
    case n0: False
    show ?thesis
    proof (cases "flt (nb_dist (addr ! (K - 1))) (nb_dist nn)")
      case True
      have all: "flt (nb_dist (addr ! j)) (nb_dist nn)" if "j < K" for j
        using pool_back [OF assms(1) True, of j] that by simp
      from all flt_asym pool_place [OF assms order_refl] obtain addr' where
        a: "insert_at K nn K addr = Inr addr'" "pool_put addr K nn K addr'" by (metis leD)
      have e: "addr' = addr[K := nn]" using a(1) p(2) by (simp add: insert_at_def upd_conv_take_nth_drop)
      have "\<forall>n \<in> set (take K addr). feq (nb_dist n) (nb_dist nn) \<longrightarrow> nb_id n \<noteq> nb_id nn"
        unfolding bt using all feq_not_flt(1) by blast
      with a e True n0 a0 p(1,2) show ?thesis
        by (intro exI [of _ K] exI [of _ addr']) (simp add: InsertIntoPool_def)
    next
      case nl: False
      obtain l r where lr: "ipool_search addr nn 0 (K - 1) = (l, r)" by (cases "ipool_search addr nn 0 (K - 1)")
      note b = ipool_bounds [OF p(1) n0 lr]
      let ?t = "ipool_scan addr nn l"
      let ?dup = "?t = None \<or> nb_id (addr ! the ?t) = nb_id nn \<or> nb_id (addr ! r) = nb_id nn"
      have run: "InsertIntoPool addr K nn =
          (if ?dup then Inr (K + 1, addr) else bindE (insert_at r nn K addr) (\<lambda>addr. Inr (r, addr)))"
        using lr n0 nl a0 p(1) by (cases ?t) (auto simp: InsertIntoPool_def)
      show ?thesis
      proof (cases ?dup)
        case True
        then have "\<exists>i < K. nb_id (addr ! i) = nb_id nn"
        proof (cases ?t)
          case None
          with ipool_scan_spec(1) [OF None] b show ?thesis by (metis le_less_trans le_trans)
        next
          case (Some l')
          with True ipool_scan_spec(2) [OF Some] b show ?thesis by (metis le_less_trans le_trans option.sel option.distinct(1))
        qed
        then have "\<exists>n \<in> set (take K addr). nb_id n = nb_id nn" using nth_in_take [OF _ a0(3)] by metis
        with True show ?thesis unfolding run by (intro exI [of _ "K + 1"] exI [of _ addr]) simp
      next
        case False
        then obtain l' where l': "?t = Some l'" by auto
        have "r \<le> K" using b by simp
        moreover have "\<forall>j < r. \<not> flt (nb_dist nn) (nb_dist (addr ! j))"
        proof (intro allI impI notI)
          fix j assume "j < r" "flt (nb_dist nn) (nb_dist (addr ! j))"
          with pool_after [OF assms(1), of nn j l] b show False by auto
        qed
        moreover have "\<forall>j < K. r \<le> j \<longrightarrow> \<not> flt (nb_dist (addr ! j)) (nb_dist nn)"
        proof (intro allI impI notI)
          fix j assume "j < K" "r \<le> j" "flt (nb_dist (addr ! j)) (nb_dist nn)"
          with pool_back [OF assms(1), of j nn r] b nl flt_asym show False by blast
        qed
        ultimately obtain addr' where a: "insert_at r nn K addr = Inr addr'" "pool_put addr K nn r addr'"
          using pool_place [OF assms] by blast
        have "\<forall>n \<in> set (take K addr). feq (nb_dist n) (nb_dist nn) \<longrightarrow> nb_id n \<noteq> nb_id nn"
          unfolding bt using pool_no_dup [OF assms(1) _ _ _ _ l'] b False l' by auto
        with a False b show ?thesis unfolding run by (intro exI [of _ r] exI [of _ addr']) simp
      qed
    qed
  qed
qed

text \<open>\<^verbatim>\<open>InsertIntoPool\<close> on a sorted pool without NaN either inserts the candidate so that
  the pool stays sorted, with nothing else changed, reporting its position, and then no entry of
  equal distance had its id; or it reports \<^verbatim>\<open>K + 1\<close>, changes nothing, and the id is in the pool.\<close>

theorem InsertIntoPool_correct:
  assumes "pool_ok addr K" "nb_num nn"
  shows "\<exists>r addr'. InsertIntoPool addr K nn = Inr (r, addr') \<and>
    (if r = K + 1 then addr' = addr \<and> (\<exists>n \<in> set (take K addr). nb_id n = nb_id nn)
     else pool_put addr K nn r addr' \<and>
       (\<forall>n \<in> set (take K addr). feq (nb_dist n) (nb_dist nn) \<longrightarrow> nb_id n \<noteq> nb_id nn))"
  by (rule InsertIntoPool_spec [OF assms])

definition demo_pool :: "neighbor list" where
  "demo_pool = [Neighbor 4 (f_of_nat 1) True, Neighbor 7 (f_of_nat 3) True, Neighbor 2 (f_of_nat 3) True, neighbor_zero]"

theorem InsertIntoPool_correct_witness:
  "\<exists>r addr'. InsertIntoPool demo_pool 3 (Neighbor 9 (f_of_nat 2) True) = Inr (r, addr') \<and>
    (r \<noteq> 4 \<longrightarrow> pool_put demo_pool 3 (Neighbor 9 (f_of_nat 2) True) r addr')"
proof -
  have "pool_ok demo_pool 3" "nb_num (Neighbor 9 (f_of_nat 2) True)"
    by (simp_all add: pool_ok_def demo_pool_def pool_sorted_def Neighbor_def f_of_nat_def rnd_def rnd_mag_def rhe_def f_unit_def
        Let_def fsgn_def)
  from InsertIntoPool_correct [OF this] show ?thesis by fastforce
qed

end
