(* ===== verification/Prune.thy ===== *)
theory Prune imports Neighbor begin

text \<open>
  Robust pruning of candidate lists (\<^verbatim>\<open>src/utils/prune_neighbors.cpp\<close>).  The distance between
  two candidates is a parameter: the comparison of stored coordinates (\<^verbatim>\<open>occlude_list\<close>, through the
  coordinate map) or the product-quantised distance (\<^verbatim>\<open>occlude_list_pq\<close>).  The outer loop raises
  \<^verbatim>\<open>cur_alpha\<close> by \<^verbatim>\<open>1.2f\<close> until it exceeds \<^verbatim>\<open>alpha\<close>; it takes fuel, \<^verbatim>\<open>alpha_fuel\<close> of which is shown to
  be enough for every finite \<^verbatim>\<open>alpha\<close>.
\<close>

record prune_cfg =
  cf_range :: nat
  cf_maxc :: nat
  cf_alpha :: f32

type_synonym nb_dist_fn = "nat \<Rightarrow> nat \<Rightarrow> f32 res"

definition occ_limit :: "prune_cfg \<Rightarrow> neighbor list \<Rightarrow> nat" where
  "occ_limit cf pool = min (length pool) (cf_maxc cf)"

text \<open>The inner loop: the factors of the candidates \<^verbatim>\<open>ts\<close> behind a selected \<^verbatim>\<open>p\<close>.\<close>

fun occ_update :: "nb_dist_fn \<Rightarrow> prune_cfg \<Rightarrow> neighbor list \<Rightarrow> neighbor \<Rightarrow> nat list \<Rightarrow> f32 list \<Rightarrow> f32 list res" where
  "occ_update dist cf pool p [] occ = Inr occ"
| "occ_update dist cf pool p (t # ts) occ =
     (if fgt (occ ! t) (cf_alpha cf) then occ_update dist cf pool p ts occ
      else bindE (dist (nb_id (pool ! t)) (nb_id p)) (\<lambda>djk.
        occ_update dist cf pool p ts (occ[t := fmax (occ ! t) (fdiv (nb_dist (pool ! t)) djk)])))"

text \<open>One scan over the candidates for a given \<^verbatim>\<open>cur_alpha\<close>.\<close>

fun occ_pass :: "nb_dist_fn \<Rightarrow> prune_cfg \<Rightarrow> neighbor list \<Rightarrow> f32 \<Rightarrow> nat list \<Rightarrow> f32 list \<times> neighbor list \<Rightarrow>
    (f32 list \<times> neighbor list) res" where
  "occ_pass dist cf pool cur_alpha [] (occ, result_set) = Inr (occ, result_set)"
| "occ_pass dist cf pool cur_alpha (start # ss) (occ, result_set) =
     (if \<not> length result_set < cf_range cf then Inr (occ, result_set)
      else if fgt (occ ! start) cur_alpha then occ_pass dist cf pool cur_alpha ss (occ, result_set)
      else bindE (occ_update dist cf pool (pool ! start) [start + 1..<occ_limit cf pool] (occ[start := FLT_MAX]))
             (\<lambda>occ. occ_pass dist cf pool cur_alpha ss (occ, set_ins nb_lt (pool ! start) result_set)))"

fun occ_rounds :: "nb_dist_fn \<Rightarrow> prune_cfg \<Rightarrow> neighbor list \<Rightarrow> nat \<Rightarrow> f32 \<Rightarrow> f32 list \<times> neighbor list \<Rightarrow>
    (f32 list \<times> neighbor list) res" where
  "occ_rounds dist cf pool fuel cur_alpha (occ, result_set) =
     (if fle cur_alpha (cf_alpha cf) \<and> length result_set < cf_range cf
      then (case fuel of 0 \<Rightarrow> Inl OutOfFuel
            | Suc fuel \<Rightarrow> bindE (occ_pass dist cf pool cur_alpha [0..<occ_limit cf pool] (occ, result_set))
                           (occ_rounds dist cf pool fuel (fmul cur_alpha f_1_2)))
      else Inr (occ, result_set))"

declare occ_rounds.simps [simp del]

definition alpha_fuel :: nat where
  "alpha_fuel = 520"

definition occlude :: "nb_dist_fn \<Rightarrow> prune_cfg \<Rightarrow> neighbor list \<Rightarrow> f32 list \<Rightarrow> neighbor list res" where
  "occlude dist cf pool occlude_factor =
     (if pool = [] then Inr []
      else bindE (occ_rounds dist cf pool alpha_fuel f_one (occlude_factor, [])) (\<lambda>(occ, rs). Inr rs))"

text \<open>The two instances.  A missing id is a dereferenced end iterator.\<close>

definition coord_dist :: "('v \<Rightarrow> 'v \<Rightarrow> f32) \<Rightarrow> (nat \<Rightarrow> 'v option) \<Rightarrow> nb_dist_fn" where
  "coord_dist compare coord_map = (\<lambda>left_id right_id.
     case (coord_map left_id, coord_map right_id) of
       (Some l, Some r) \<Rightarrow> Inr (compare l r) | _ \<Rightarrow> Inl OutOfRange)"

definition occlude_list :: "('v \<Rightarrow> 'v \<Rightarrow> f32) \<Rightarrow> (nat \<Rightarrow> 'v option) \<Rightarrow> prune_cfg \<Rightarrow> neighbor list \<Rightarrow> f32 list \<Rightarrow> neighbor list res" where
  "occlude_list compare coord_map cf pool occlude_factor = occlude (coord_dist compare coord_map) cf pool occlude_factor"

definition occlude_list_pq :: "(nat \<Rightarrow> nat \<Rightarrow> f32) \<Rightarrow> prune_cfg \<Rightarrow> neighbor list \<Rightarrow> f32 list \<Rightarrow> neighbor list res" where
  "occlude_list_pq pq_dist cf pool occlude_factor = occlude (\<lambda>t p. Inr (pq_dist p t)) cf pool occlude_factor"

text \<open>The fill-up of the pruned list from the pool when \<^verbatim>\<open>alpha > 1\<close>.\<close>

fun prune_fill :: "nat \<Rightarrow> neighbor list \<Rightarrow> nat list \<Rightarrow> nat list" where
  "prune_fill R [] pruned = pruned"
| "prune_fill R (n # ns) pruned =
     (if \<not> length pruned < R then pruned
      else prune_fill R ns (if nb_id n \<in> set pruned then pruned else pruned @ [nb_id n]))"

definition prune_neighbors_pq :: "(nat \<Rightarrow> nat \<Rightarrow> f32) \<Rightarrow> prune_cfg \<Rightarrow> neighbor list \<Rightarrow> nat list \<Rightarrow> nat list res" where
  "prune_neighbors_pq pq_dist cf pool pruned_list =
     (if pool = [] then Inr pruned_list
      else bindE (occlude_list_pq pq_dist cf pool (replicate (length pool) f_zero)) (\<lambda>result.
        let pruned = map nb_id result
        in Inr (if fgt (cf_alpha cf) f_one then prune_fill (cf_range cf) pool pruned else pruned)))"

text \<open>The medoid is dropped from the last quarter of the result.\<close>

definition drop_late_medoid :: "nat \<Rightarrow> neighbor list \<Rightarrow> nat list" where
  "drop_late_medoid medoid result =
     (let medoid_threshold = length result * 3 div 4
      in map (\<lambda>i. nb_id (result ! i))
           (filter (\<lambda>i. \<not> (medoid_threshold < i \<and> nb_id (result ! i) = medoid)) [0..<length result]))"

definition prune_neighbors :: "('v \<Rightarrow> 'v \<Rightarrow> f32) \<Rightarrow> (nat \<Rightarrow> 'v option) \<Rightarrow> prune_cfg \<Rightarrow> nat \<Rightarrow>
    neighbor list \<Rightarrow> nat list \<Rightarrow> (neighbor list \<times> nat list) res" where
  "prune_neighbors compare coord_map cf medoid pool pruned_list =
     (if pool = [] then Inr (pool, pruned_list)
      else let pool = sort_lt nb_lt pool
      in bindE (occlude_list compare coord_map cf pool (replicate (length pool) f_zero)) (\<lambda>result.
        let pruned = drop_late_medoid medoid result
        in Inr (pool, if fgt (cf_alpha cf) f_one then prune_fill (cf_range cf) pool pruned else pruned)))"

section \<open>Delta pruning\<close>

record tri_neighbor =
  tn_id :: nat
  tn_tgt_dis :: f32
  tn_distance :: f32

definition tn_lt :: "tri_neighbor \<Rightarrow> tri_neighbor \<Rightarrow> bool" where
  "tn_lt a b = (flt (tn_distance a) (tn_distance b) \<or>
     feq (tn_distance a) (tn_distance b) \<and> tn_id a < tn_id b)"

text \<open>\<^verbatim>\<open>cur_alpha >= (1 - 1e-5)\<close>: the comparison is made in double precision; no single lies
  between that constant and its double.\<close>

fun ge_one_minus :: "f32 \<Rightarrow> bool" where
  "ge_one_minus (FFin s m) = (99999 * int f_unit \<le> 100000 * fsgn s m)"
| "ge_one_minus (FInf s) = (\<not> s)"
| "ge_one_minus FNaN = False"

fun delta_scan :: "tri_neighbor list \<Rightarrow> nat \<Rightarrow> f32 \<Rightarrow> f32 \<Rightarrow> nat list \<Rightarrow> nat option" where
  "delta_scan pool tgt_idx tgt_nbr_dis cur_alpha [] = None"
| "delta_scan pool tgt_idx tgt_nbr_dis cur_alpha (i # is) =
     (if i = tgt_idx then delta_scan pool tgt_idx tgt_nbr_dis cur_alpha is
      else if fgt (tn_distance (pool ! i)) tgt_nbr_dis
      then (if fgt (fdiv (tn_distance (pool ! i)) (tn_tgt_dis (pool ! i))) cur_alpha then Some i
            else delta_scan pool tgt_idx tgt_nbr_dis cur_alpha is)
      else (if fgt (fdiv tgt_nbr_dis (tn_tgt_dis (pool ! i))) cur_alpha then Some tgt_idx
            else delta_scan pool tgt_idx tgt_nbr_dis cur_alpha is))"

fun delta_rounds :: "tri_neighbor list \<Rightarrow> nat \<Rightarrow> f32 \<Rightarrow> nat \<Rightarrow> f32 \<Rightarrow> nat option res" where
  "delta_rounds pool tgt_idx tgt_nbr_dis fuel cur_alpha =
     (if ge_one_minus cur_alpha
      then (case fuel of 0 \<Rightarrow> Inl OutOfFuel
            | Suc fuel \<Rightarrow>
               (case delta_scan pool tgt_idx tgt_nbr_dis cur_alpha (rev [0..<length pool]) of
                  Some e \<Rightarrow> Inr (Some e)
                | None \<Rightarrow> delta_rounds pool tgt_idx tgt_nbr_dis fuel (fdiv cur_alpha f_1_2)))
      else Inr None)"

declare delta_rounds.simps [simp del]

text \<open>Step 2: the first candidate some earlier one occludes.\<close>

fun delta_seek :: "(nat \<Rightarrow> nat \<Rightarrow> f32) \<Rightarrow> prune_cfg \<Rightarrow> tri_neighbor list \<Rightarrow> nat \<Rightarrow> nat list \<Rightarrow> nat option" where
  "delta_seek pq_dist cf pool tgt_idx [] = None"
| "delta_seek pq_dist cf pool tgt_idx (start # ss) =
     (if start = tgt_idx then delta_seek pq_dist cf pool tgt_idx ss
      else (case find (\<lambda>t. fgt (fdiv (tn_distance (pool ! t)) (pq_dist (tn_id (pool ! start)) (tn_id (pool ! t)))) (cf_alpha cf))
                   [start + 1..<length pool] of
              Some t \<Rightarrow> Some t
            | None \<Rightarrow> delta_seek pq_dist cf pool tgt_idx ss))"

definition delta_finish :: "tri_neighbor list \<Rightarrow> nat \<Rightarrow> nat list" where
  "delta_finish pool to_evict = map (\<lambda>i. tn_id (pool ! i)) (filter (\<lambda>i. i \<noteq> to_evict) [0..<length pool])"

definition delta_prune_neighbors_pq :: "(nat \<Rightarrow> nat \<Rightarrow> f32) \<Rightarrow> prune_cfg \<Rightarrow> tri_neighbor list \<Rightarrow> nat \<Rightarrow> nat list res" where
  "delta_prune_neighbors_pq pq_dist cf pool tgt_idx =
     (if length pool \<le> tgt_idx then Inl OutOfRange
      else bindE (delta_rounds pool tgt_idx (tn_distance (pool ! tgt_idx)) alpha_fuel (cf_alpha cf)) (\<lambda>ev.
        Inr (delta_finish pool
          (case ev of Some e \<Rightarrow> e
           | None \<Rightarrow> (case delta_seek pq_dist cf pool tgt_idx [0..<length pool] of
                        Some t \<Rightarrow> t | None \<Rightarrow> length pool - 1)))))"

end
