(* ===== verification/Prune_Props.thy ===== *)
theory Prune_Props imports Prune begin

text \<open>
  What pruning guarantees: it terminates for every finite \<^verbatim>\<open>alpha\<close> (and does not for an infinite
  one), selects a sorted subset of the pool of at most \<^verbatim>\<open>range\<close> candidates, the one of the greedy selection that tests
  every candidate against all that are selected, always keeps the nearest candidate, and fills
  the list up when \<^verbatim>\<open>alpha > 1\<close>.
\<close>

section \<open>Termination\<close>

text \<open>Bit patterns of singles that are not plus infinity.\<close>

fun f_below_inf :: "f32 \<Rightarrow> bool" where
  "f_below_inf (FFin s m) = (m < 2 ^ 277)"
| "f_below_inf (FInf s) = s"
| "f_below_inf FNaN = True"

fun f_mag :: "f32 \<Rightarrow> nat" where
  "f_mag (FFin s m) = m"
| "f_mag (FInf s) = 0"
| "f_mag FNaN = 0"

lemma fle_mag: "f_below_inf a \<Longrightarrow> fle (FFin False n) a \<Longrightarrow> n \<le> f_mag a"
  by (cases a) (auto simp: fle_def fsgn_def split: if_splits)

lemma fle_inf: "f_below_inf a \<Longrightarrow> \<not> fle (FInf False) a"
  by (cases a) (auto simp: fle_def)

lemma occ_rounds_stop: "\<not> fle cur (cf_alpha cf) \<Longrightarrow> occ_rounds dist cf pool fuel cur st = Inr st"
  by (cases st) (simp add: occ_rounds.simps)

lemma occ_rounds_fuel:
  assumes "f_below_inf (cf_alpha cf)" "f_unit \<le> n" "f_mag (cf_alpha cf) * 100 ^ fuel < n * 119 ^ fuel"
    and "\<And>cur st. occ_pass dist cf pool cur [0..<occ_limit cf pool] st \<noteq> Inl OutOfFuel"
  shows "occ_rounds dist cf pool fuel (FFin False n) st \<noteq> Inl OutOfFuel"
  using assms(2,3)
proof (induction fuel arbitrary: n st)
  case 0
  then have "\<not> fle (FFin False n) (cf_alpha cf)" using fle_mag [OF assms(1)] by fastforce
  then show ?case by (simp add: occ_rounds_stop)
next
  case (Suc fuel)
  have next_ok: "occ_rounds dist cf pool fuel (fmul (FFin False n) f_1_2) st' \<noteq> Inl OutOfFuel" for st'
  proof (cases "fmul (FFin False n) f_1_2 = FInf False")
    case True
    then show ?thesis using occ_rounds_stop [OF fle_inf [OF assms(1)]] by simp
  next
    case False
    with fmul_1_2 [OF Suc.prems(1)] obtain r where r: "fmul (FFin False n) f_1_2 = FFin False r" "119 * n \<le> 100 * r"
      by blast
    have "f_unit \<le> r" using Suc.prems(1) r(2) by linarith
    moreover have "f_mag (cf_alpha cf) * 100 ^ fuel < r * 119 ^ fuel"
    proof -
      have "100 * (f_mag (cf_alpha cf) * 100 ^ fuel) < 119 * n * 119 ^ fuel" using Suc.prems(2) by (simp add: ac_simps)
      also have "\<dots> \<le> 100 * r * 119 ^ fuel" using r(2) by (rule mult_le_mono1)
      finally show ?thesis by simp
    qed
    ultimately show ?thesis using Suc.IH r(1) by simp
  qed
  obtain occ rs where st: "st = (occ, rs)" by (cases st)
  show ?case
    using assms(4) next_ok unfolding st by (subst occ_rounds.simps) (auto simp: bindE_Inl)
qed

lemma alpha_fuel_enough4:
  assumes "m < 2 ^ 277"
  shows "4 * (m * 100 ^ alpha_fuel) < f_unit * 119 ^ alpha_fuel"
proof -
  have "(2 * 100 ^ 4 :: nat) ^ 130 \<le> (119 ^ 4) ^ 130" by (rule power_mono) simp_all
  moreover have fp: "a ^ alpha_fuel = (a ^ 4) ^ 130" for a :: nat
  proof -
    have "alpha_fuel = 4 * 130" by (simp add: alpha_fuel_def)
    show ?thesis unfolding \<open>alpha_fuel = 4 * 130\<close> by (rule power_mult)
  qed
  ultimately have "(2 :: nat) ^ 130 * (100 ^ 4) ^ 130 \<le> (119 ^ 4) ^ 130" by (simp only: power_mult_distrib)
  then have p: "(2 :: nat) ^ 130 * 100 ^ alpha_fuel \<le> 119 ^ alpha_fuel"
    by (simp only: fp)
  have "m * 100 ^ alpha_fuel < 2 ^ 277 * 100 ^ alpha_fuel" using assms by (simp only: mult_less_cancel2) simp
  then have "4 * (m * 100 ^ alpha_fuel) < 4 * (2 ^ 277 * 100 ^ alpha_fuel)" by (rule mult_less_mono2) simp
  also have "\<dots> = (2 ^ 2 * 2 ^ 277) * 100 ^ alpha_fuel" by (simp only: mult.assoc) simp
  also have "\<dots> = f_unit * 2 ^ 130 * 100 ^ alpha_fuel"
    by (simp only: f_unit_def power_add [symmetric]) simp
  also have "\<dots> \<le> f_unit * 119 ^ alpha_fuel" unfolding mult.assoc using p by (rule mult_le_mono2)
  finally show ?thesis .
qed

lemma alpha_fuel_enough:
  assumes "m < 2 ^ 277"
  shows "m * 100 ^ alpha_fuel < f_unit * 119 ^ alpha_fuel"
  using alpha_fuel_enough4 [OF assms] by linarith

lemma f_mag_bound: "f_below_inf a \<Longrightarrow> f_mag a < 2 ^ 277"
  by (cases a) auto

lemma occ_update_no_fuel:
  assumes "\<And>a b. dist a b \<noteq> Inl OutOfFuel"
  shows "occ_update dist cf pool p ts occ \<noteq> Inl OutOfFuel"
  using assms by (induction ts arbitrary: occ) (auto simp: bindE_Inl)

lemma occ_pass_no_fuel:
  assumes "\<And>a b. dist a b \<noteq> Inl OutOfFuel"
  shows "occ_pass dist cf pool cur ss st \<noteq> Inl OutOfFuel"
proof (induction ss arbitrary: st)
  case (Cons s ss)
  then show ?case using occ_update_no_fuel [OF assms] by (cases st) (auto simp: bindE_Inl)
next
  case Nil
  then show ?case by (cases st) simp
qed

lemma occlude_fuel:
  assumes "f_below_inf (cf_alpha cf)" "\<And>a b. dist a b \<noteq> Inl OutOfFuel"
  shows "occlude dist cf pool occ \<noteq> Inl OutOfFuel"
  using occ_rounds_fuel [OF assms(1) order_refl alpha_fuel_enough [OF f_mag_bound [OF assms(1)]]
      occ_pass_no_fuel [OF assms(2)]]
  by (auto simp: occlude_def f_one_def bindE_Inl split: prod.splits)

section \<open>What a scan does\<close>

definition ratio :: "(nat \<Rightarrow> nat \<Rightarrow> f32) \<Rightarrow> neighbor list \<Rightarrow> nat \<Rightarrow> nat \<Rightarrow> f32" where
  "ratio d pool i t = fdiv (nb_dist (pool ! t)) (d (nb_id (pool ! t)) (nb_id (pool ! i)))"

lemma flt_fle_trans: "fle c a \<Longrightarrow> flt a x \<Longrightarrow> flt c x"
  by (auto simp: fle_def intro: flt_trans feq_flt(1))

lemma flt_fmax: "fnum a \<Longrightarrow> flt c (fmax a b) \<longleftrightarrow> flt c a \<or> flt c b"
  by (auto simp: fmax_def intro: flt_trans flt_le_trans)

text \<open>Below \<^verbatim>\<open>alpha\<close> the factors compare like the largest of the ratios they have seen; a factor beyond
  \<^verbatim>\<open>alpha\<close> may miss some.\<close>

lemma occ_update_spec:
  assumes "\<forall>t \<in> set ts. dist (nb_id (pool ! t)) (nb_id (pool ! i)) = Inr (d (nb_id (pool ! t)) (nb_id (pool ! i)))"
    and "\<forall>t \<in> set ts. t < length occ" "\<forall>x \<in> set occ. fnum x"
  shows "\<exists>occ'. occ_update dist cf pool (pool ! i) ts occ = Inr occ' \<and> length occ' = length occ \<and> (\<forall>x \<in> set occ'. fnum x) \<and>
    (\<forall>t < length occ. \<forall>c. fle c (cf_alpha cf) \<longrightarrow> (flt c (occ' ! t) \<longleftrightarrow> flt c (occ ! t) \<or> t \<in> set ts \<and> flt c (ratio d pool i t)))"
  using assms
proof (induction ts arbitrary: occ)
  case (Cons t ts)
  have t: "t < length occ" "fnum (occ ! t)" using Cons.prems(2,3) by auto
  define o1 where "o1 = (if fgt (occ ! t) (cf_alpha cf) then occ else occ[t := fmax (occ ! t) (ratio d pool i t)])"
  have run: "occ_update dist cf pool (pool ! i) (t # ts) occ = occ_update dist cf pool (pool ! i) ts o1"
    using Cons.prems(1) by (simp add: o1_def ratio_def)
  have l1: "length o1 = length occ" by (simp add: o1_def)
  have n1: "\<forall>x \<in> set o1. fnum x"
    using Cons.prems(3) fmax_num [OF t(2)] by (auto simp: o1_def dest!: set_update_subset_insert [THEN subsetD])
  have c1: "flt c (o1 ! k) \<longleftrightarrow> flt c (occ ! k) \<or> k = t \<and> flt c (ratio d pool i t)" if "fle c (cf_alpha cf)" for c k
    using t flt_fle_trans [OF that] flt_fmax [OF t(2)] by (cases "k = t") (auto simp: o1_def)
  have "\<forall>u \<in> set ts. u < length o1" using Cons.prems(2) l1 by simp
  from Cons.IH [OF _ this n1] Cons.prems(1) obtain occ' where
    o: "occ_update dist cf pool (pool ! i) ts o1 = Inr occ'" "length occ' = length o1" "\<forall>x \<in> set occ'. fnum x"
      "\<forall>u < length o1. \<forall>c. fle c (cf_alpha cf) \<longrightarrow> (flt c (occ' ! u) \<longleftrightarrow> flt c (o1 ! u) \<or> u \<in> set ts \<and> flt c (ratio d pool i u))"
    by auto
  then show ?case using run l1 c1 by (intro exI [of _ occ']) auto
qed simp

lemma set_ins_set:
  assumes "\<forall>y \<in> set rs. y = x \<or> nb_lt x y \<or> nb_lt y x"
  shows "set (set_ins nb_lt x rs) = insert x (set rs)"
  using assms by (induction rs) auto

text \<open>Distinct ids and no NaN, so that two candidates never compare equal.\<close>

definition pool_good :: "neighbor list \<Rightarrow> bool" where
  "pool_good pool \<longleftrightarrow> distinct (map nb_id pool) \<and> (\<forall>n \<in> set pool. nb_num n)"

lemma pool_good_cmp:
  assumes "pool_good pool" "a \<in> set pool" "b \<in> set pool"
  shows "a = b \<or> nb_lt a b \<or> nb_lt b a"
proof -
  have "nb_id a = nb_id b \<Longrightarrow> a = b" using assms by (auto simp: pool_good_def distinct_map inj_on_def)
  then show ?thesis using nb_lt_total [of a b] assms by (auto simp: pool_good_def)
qed

lemma occ_limit_le: "occ_limit cf pool \<le> length pool"
  by (simp add: occ_limit_def)

lemma fnum_FLT_MAX [simp]: "fnum FLT_MAX"
  by (simp add: FLT_MAX_def)

text \<open>The distance is defined for the ids of the pool.\<close>

definition dist_ok :: "nb_dist_fn \<Rightarrow> (nat \<Rightarrow> nat \<Rightarrow> f32) \<Rightarrow> neighbor list \<Rightarrow> bool" where
  "dist_ok dist d pool \<longleftrightarrow> (\<forall>t < length pool. \<forall>p < length pool.
     dist (nb_id (pool ! t)) (nb_id (pool ! p)) = Inr (d (nb_id (pool ! t)) (nb_id (pool ! p))))"

section \<open>The selection, without the factors\<close>

text \<open>\<^verbatim>\<open>i\<close> occludes a candidate \<^verbatim>\<open>t\<close> behind it when \<^verbatim>\<open>t\<close> is farther from the point than \<^verbatim>\<open>c\<close> times
  its distance to \<^verbatim>\<open>i\<close>.\<close>

definition occludes :: "(nat \<Rightarrow> nat \<Rightarrow> f32) \<Rightarrow> neighbor list \<Rightarrow> f32 \<Rightarrow> nat \<Rightarrow> nat \<Rightarrow> bool" where
  "occludes d pool c i t \<longleftrightarrow> i < t \<and> flt c (ratio d pool i t)"

text \<open>The greedy selection: in the order of the pool, a candidate is taken unless it was taken or one that was occludes
  it; once for every \<^verbatim>\<open>alpha\<close> from one on.  The list of those is as long as the fuel at most.\<close>

fun greedy_pass :: "(nat \<Rightarrow> nat \<Rightarrow> f32) \<Rightarrow> prune_cfg \<Rightarrow> neighbor list \<Rightarrow> f32 \<Rightarrow> nat list \<Rightarrow> nat list \<Rightarrow> nat list" where
  "greedy_pass d cf pool c [] S = S"
| "greedy_pass d cf pool c (t # ts) S =
     (if length S < cf_range cf
      then greedy_pass d cf pool c ts (if t \<in> set S \<or> (\<exists>i \<in> set S. occludes d pool c i t) then S else S @ [t])
      else S)"

fun alpha_steps :: "f32 \<Rightarrow> nat \<Rightarrow> f32 \<Rightarrow> f32 list" where
  "alpha_steps alpha 0 c = []"
| "alpha_steps alpha (Suc fuel) c = (if fle c alpha then c # alpha_steps alpha fuel (fmul c f_1_2) else [])"

definition greedy_select :: "(nat \<Rightarrow> nat \<Rightarrow> f32) \<Rightarrow> prune_cfg \<Rightarrow> neighbor list \<Rightarrow> nat list" where
  "greedy_select d cf pool =
     fold (\<lambda>c. greedy_pass d cf pool c [0..<occ_limit cf pool]) (alpha_steps (cf_alpha cf) alpha_fuel f_one) []"

lemma greedy_pass_full: "\<not> length S < cf_range cf \<Longrightarrow> greedy_pass d cf pool c ts S = S"
  by (cases ts) simp_all

lemma greedy_fold_full: "\<not> length S < cf_range cf \<Longrightarrow> fold (\<lambda>c. greedy_pass d cf pool c ts) cs S = S"
  by (induction cs) (simp_all add: greedy_pass_full)

lemma greedy_pass_grows: "\<exists>xs. greedy_pass d cf pool c ts S = S @ xs"
  by (induction ts arbitrary: S) (simp_all, metis append.assoc)

lemma greedy_fold_grows: "\<exists>xs. fold (\<lambda>c. greedy_pass d cf pool c ts) cs S = S @ xs"
proof (induction cs arbitrary: S)
  case (Cons c cs)
  obtain xs where x: "greedy_pass d cf pool c ts S = S @ xs" using greedy_pass_grows by blast
  obtain ys where "fold (\<lambda>c. greedy_pass d cf pool c ts) cs (S @ xs) = (S @ xs) @ ys" using Cons by blast
  then show ?case by (simp add: x)
qed simp

lemma greedy_pass_complete:
  "length (greedy_pass d cf pool c ts S) < cf_range cf \<Longrightarrow> t \<in> set ts \<Longrightarrow> t \<notin> set (greedy_pass d cf pool c ts S) \<Longrightarrow>
    \<exists>i \<in> set (greedy_pass d cf pool c ts S). occludes d pool c i t"
proof (induction ts arbitrary: S)
  case (Cons s ts)
  let ?S = "if s \<in> set S \<or> (\<exists>i \<in> set S. occludes d pool c i s) then S else S @ [s]"
  have e: "greedy_pass d cf pool c (s # ts) S = greedy_pass d cf pool c ts ?S"
    using Cons.prems(1) by (auto split: if_splits)
  obtain xs where x: "greedy_pass d cf pool c ts ?S = ?S @ xs" using greedy_pass_grows by blast
  show ?case
  proof (cases "t \<in> set ts")
    case True
    then show ?thesis using Cons.IH [of ?S] Cons.prems(1,3) unfolding e by blast
  next
    case False
    then have "t = s" using Cons.prems(2) by simp
    then show ?thesis using Cons.prems(3) unfolding e x by (auto split: if_splits)
  qed
qed simp

lemma greedy_pass_diverse:
  "\<forall>i \<in> set S. \<forall>t \<in> set S. \<not> occludes d pool c i t \<Longrightarrow> \<forall>i \<in> set S. \<forall>t \<in> set ts. i < t \<Longrightarrow> sorted_wrt (<) ts \<Longrightarrow>
    \<forall>i \<in> set (greedy_pass d cf pool c ts S). \<forall>t \<in> set (greedy_pass d cf pool c ts S). \<not> occludes d pool c i t"
proof (induction ts arbitrary: S)
  case (Cons s ts)
  let ?S = "if s \<in> set S \<or> (\<exists>i \<in> set S. occludes d pool c i s) then S else S @ [s]"
  have ord: "i < s" if "i \<in> set S" for i using Cons.prems(2) that by simp
  have d: "\<forall>i \<in> set ?S. \<forall>t \<in> set ?S. \<not> occludes d pool c i t"
  proof (intro ballI)
    fix i t assume "i \<in> set ?S" "t \<in> set ?S"
    then consider "i \<in> set S" "t \<in> set S" | "i = s" | "i \<in> set S" "t = s" "\<not> (\<exists>i \<in> set S. occludes d pool c i s)"
      by (auto split: if_splits)
    then show "\<not> occludes d pool c i t"
    proof cases
      case 2
      then show ?thesis using ord [of t] \<open>t \<in> set ?S\<close> by (auto simp: occludes_def split: if_splits)
    qed (use Cons.prems(1) in blast)+
  qed
  have b: "\<forall>i \<in> set ?S. \<forall>t \<in> set ts. i < t" using Cons.prems(2,3) by (auto split: if_splits)
  have "sorted_wrt (<) ts" using Cons.prems(3) by simp
  from Cons.IH [OF d b this] have IH: "\<forall>i \<in> set (greedy_pass d cf pool c ts ?S). \<forall>t \<in> set (greedy_pass d cf pool c ts ?S). \<not> occludes d pool c i t" .
  show ?case
  proof (cases "length S < cf_range cf")
    case True
    then have "greedy_pass d cf pool c (s # ts) S = greedy_pass d cf pool c ts ?S" by simp
    then show ?thesis using IH by (simp only:)
  next
    case False
    then show ?thesis using Cons.prems(1) by simp
  qed
qed simp

section \<open>The loops make the greedy selection\<close>

definition occ_inv :: "(nat \<Rightarrow> nat \<Rightarrow> f32) \<Rightarrow> prune_cfg \<Rightarrow> neighbor list \<Rightarrow> f32 list \<Rightarrow> neighbor list \<Rightarrow> nat list \<Rightarrow> bool" where
  "occ_inv d cf pool occ rs S \<longleftrightarrow> length occ = length pool \<and> (\<forall>x \<in> set occ. fnum x) \<and>
     distinct S \<and> (\<forall>i \<in> set S. i < occ_limit cf pool) \<and> set rs = (\<lambda>i. pool ! i) ` set S \<and> sorted_wrt nb_lt rs \<and>
     length S \<le> cf_range cf \<and>
     (\<forall>t < occ_limit cf pool. t \<notin> set S \<longrightarrow> (\<forall>c. fle c (cf_alpha cf) \<longrightarrow> \<not> flt c f_zero \<longrightarrow>
        (flt c (occ ! t) \<longleftrightarrow> (\<exists>i \<in> set S. occludes d pool c i t))))"

lemma sorted_distinct: "sorted_wrt nb_lt rs \<Longrightarrow> distinct rs"
  by (induction rs) auto

lemma occ_inv_length:
  assumes "occ_inv d cf pool occ rs S" "pool_good pool"
  shows "length rs = length S" "length rs \<le> length pool"
proof -
  note I = assms(1) [unfolded occ_inv_def]
  have d: "distinct rs" using sorted_distinct I by blast
  have "inj_on (\<lambda>i. pool ! i) (set S)"
  proof (rule inj_onI)
    fix i j assume ij: "i \<in> set S" "j \<in> set S" "pool ! i = pool ! j"
    have "distinct pool" using assms(2) by (simp add: pool_good_def distinct_map)
    moreover have "i < length pool" "j < length pool" using I ij(1,2) occ_limit_le [of cf pool] by (meson less_le_trans)+
    ultimately show "i = j" using ij(3) by (simp add: nth_eq_iff_index_eq)
  qed
  then have "card (set rs) = card (set S)" using I by (simp add: card_image)
  then show l: "length rs = length S" using distinct_card [OF d] distinct_card [of S] I by simp
  have "set S \<subseteq> {..<length pool}" using I occ_limit_le [of cf pool] by auto
  then have "card (set S) \<le> length pool" using card_mono [of "{..<length pool}" "set S"] by simp
  then show "length rs \<le> length pool" using l I by (simp add: distinct_card)
qed

text \<open>Selecting a candidate keeps the invariant, also one that is selected already.\<close>

lemma occ_select:
  assumes "occ_inv d cf pool occ rs S" "pool_good pool" "length S < cf_range cf" "s < occ_limit cf pool"
    and "dist_ok dist d pool"
  shows "\<exists>occ'. occ_update dist cf pool (pool ! s) [s + 1..<occ_limit cf pool] (occ[s := FLT_MAX]) = Inr occ' \<and>
    occ_inv d cf pool occ' (set_ins nb_lt (pool ! s) rs) (if s \<in> set S then S else S @ [s])"
proof -
  note I = assms(1) [unfolded occ_inv_def]
  have lp: "\<And>t. t < occ_limit cf pool \<Longrightarrow> t < length pool" using occ_limit_le less_le_trans by blast
  let ?o = "occ[s := FLT_MAX]" and ?S = "if s \<in> set S then S else S @ [s]" and ?rs = "set_ins nb_lt (pool ! s) rs"
  have setS: "set ?S = insert s (set S)" by auto
  have no: "\<forall>x \<in> set ?o. fnum x" using I by (auto dest!: set_update_subset_insert [THEN subsetD])
  have ts: "\<forall>t \<in> set [s + 1..<occ_limit cf pool]. t < length ?o" using I lp by auto
  have "\<forall>t \<in> set [s + 1..<occ_limit cf pool]. dist (nb_id (pool ! t)) (nb_id (pool ! s)) =
      Inr (d (nb_id (pool ! t)) (nb_id (pool ! s)))" using assms(4,5) lp by (auto simp: dist_ok_def)
  from occ_update_spec [where dist = dist and d = d and pool = pool and i = s, OF this ts no, of cf] obtain occ' where
    o: "occ_update dist cf pool (pool ! s) [s + 1..<occ_limit cf pool] ?o = Inr occ'" "length occ' = length ?o" "\<forall>x \<in> set occ'. fnum x"
      "\<forall>t < length ?o. \<forall>c. fle c (cf_alpha cf) \<longrightarrow>
         (flt c (occ' ! t) \<longleftrightarrow> flt c (?o ! t) \<or> t \<in> set [s + 1..<occ_limit cf pool] \<and> flt c (ratio d pool s t))" by blast
  have "\<forall>y \<in> set rs. y = pool ! s \<or> nb_lt (pool ! s) y \<or> nb_lt y (pool ! s)"
  proof
    fix y assume "y \<in> set rs"
    then have "y \<in> set pool" using I lp by auto
    then show "y = pool ! s \<or> nb_lt (pool ! s) y \<or> nb_lt y (pool ! s)"
      using pool_good_cmp [OF assms(2), of "pool ! s" y] lp [OF assms(4)] by auto
  qed
  from set_ins_set [OF this] have setr: "set ?rs = (\<lambda>i. pool ! i) ` set ?S" using I by (simp add: setS)
  have keep: "flt c (occ' ! t) \<longleftrightarrow> (\<exists>i \<in> set ?S. occludes d pool c i t)"
    if t: "t < occ_limit cf pool" "t \<notin> set ?S" and c: "fle c (cf_alpha cf)" "\<not> flt c f_zero" for t c
  proof -
    have ts: "t \<noteq> s" "t \<notin> set S" using t(2) setS by auto
    have "t < length ?o" using I lp t(1) by simp
    then have "flt c (occ' ! t) \<longleftrightarrow> flt c (occ ! t) \<or> s < t \<and> flt c (ratio d pool s t)" using o(4) c(1) ts(1) t(1) by auto
    also have "flt c (occ ! t) \<longleftrightarrow> (\<exists>i \<in> set S. occludes d pool c i t)" using I t(1) ts(2) c by blast
    finally show ?thesis unfolding setS occludes_def by blast
  qed
  have "occ_inv d cf pool occ' ?rs ?S" unfolding occ_inv_def
  proof (intro conjI)
    show "sorted_wrt nb_lt ?rs" using I set_ins_strict by blast
    show "\<forall>t < occ_limit cf pool. t \<notin> set ?S \<longrightarrow> (\<forall>c. fle c (cf_alpha cf) \<longrightarrow> \<not> flt c f_zero \<longrightarrow>
        (flt c (occ' ! t) \<longleftrightarrow> (\<exists>i \<in> set ?S. occludes d pool c i t)))" using keep by blast
  qed (use I o(2,3) setr assms(3,4) in auto)
  with o(1) show ?thesis by blast
qed

lemma occ_pass_inv:
  assumes "occ_inv d cf pool occ rs S" "pool_good pool" "fle c (cf_alpha cf)" "\<not> flt c f_zero" "\<forall>s \<in> set ss. s < occ_limit cf pool"
    and "dist_ok dist d pool"
  shows "\<exists>occ' rs'. occ_pass dist cf pool c ss (occ, rs) = Inr (occ', rs') \<and> occ_inv d cf pool occ' rs' (greedy_pass d cf pool c ss S)"
  using assms(1,5)
proof (induction ss arbitrary: occ rs S)
  case (Cons s ss)
  have s: "s < occ_limit cf pool" "\<forall>s \<in> set ss. s < occ_limit cf pool" using Cons.prems(2) by auto
  note len = occ_inv_length(1) [OF Cons.prems(1) assms(2)]
  have test: "fgt (occ ! s) c \<longleftrightarrow> (\<exists>i \<in> set S. occludes d pool c i s)" if "s \<notin> set S"
    using Cons.prems(1) that s(1) assms(3,4) unfolding occ_inv_def by blast
  show ?case
  proof (cases "length S < cf_range cf")
    case False
    with Cons.prems(1) show ?thesis using len by auto
  next
    case lt: True
    show ?thesis
    proof (cases "fgt (occ ! s) c")
      case True
      then have "greedy_pass d cf pool c (s # ss) S = greedy_pass d cf pool c ss S" using lt test by auto
      then show ?thesis using True lt len Cons.IH [OF Cons.prems(1) s(2)] by simp
    next
      case False
      then have g: "greedy_pass d cf pool c (s # ss) S = greedy_pass d cf pool c ss (if s \<in> set S then S else S @ [s])" using lt test by auto
      from occ_select [OF Cons.prems(1) assms(2) lt s(1) assms(6)] obtain occ1 where
        o: "occ_update dist cf pool (pool ! s) [s + 1..<occ_limit cf pool] (occ[s := FLT_MAX]) = Inr occ1"
          "occ_inv d cf pool occ1 (set_ins nb_lt (pool ! s) rs) (if s \<in> set S then S else S @ [s])" by blast
      from Cons.IH [OF o(2) s(2)] show ?thesis using o(1) lt len False unfolding g by simp
    qed
  qed
qed auto

text \<open>The values of \<^verbatim>\<open>cur_alpha\<close>.\<close>

definition alpha_val :: "f32 \<Rightarrow> bool" where
  "alpha_val c \<longleftrightarrow> c = FInf False \<or> (\<exists>n. c = FFin False n \<and> f_unit \<le> n)"

lemma alpha_val_one: "alpha_val f_one"
  by (simp add: alpha_val_def f_one_def)

lemma alpha_val_next: "alpha_val c \<Longrightarrow> alpha_val (fmul c f_1_2)"
  unfolding alpha_val_def
proof (elim disjE exE conjE)
  fix n assume n: "c = FFin False n" "f_unit \<le> n"
  from fmul_1_2 [OF n(2)] n show "fmul c f_1_2 = FInf False \<or> (\<exists>n. fmul c f_1_2 = FFin False n \<and> f_unit \<le> n)" by (elim disjE exE conjE) auto
qed (simp add: f_1_2_val)

lemma alpha_val_zero: "alpha_val c \<Longrightarrow> \<not> flt c f_zero"
  by (auto simp: alpha_val_def f_zero_def fsgn_def)

lemma occ_rounds_inv:
  assumes "occ_inv d cf pool occ rs S" "pool_good pool" "alpha_val c"
    and "dist_ok dist d pool"
    and "occ_rounds dist cf pool fuel c (occ, rs) = res" "res \<noteq> Inl OutOfFuel"
  shows "\<exists>occ' rs'. res = Inr (occ', rs') \<and>
    occ_inv d cf pool occ' rs' (fold (\<lambda>c. greedy_pass d cf pool c [0..<occ_limit cf pool]) (alpha_steps (cf_alpha cf) fuel c) S)"
  using assms(1,3,5)
proof (induction fuel arbitrary: c occ rs S)
  case 0
  then show ?case using assms(6) by (auto simp: occ_rounds.simps split: if_splits)
next
  case (Suc fuel)
  note len = occ_inv_length(1) [OF Suc.prems(1) assms(2)]
  show ?case
  proof (cases "fle c (cf_alpha cf) \<and> length rs < cf_range cf")
    case True
    from occ_pass_inv [OF Suc.prems(1) assms(2) conjunct1 [OF True] alpha_val_zero [OF Suc.prems(2)] _ assms(4), of "[0..<occ_limit cf pool]"]
    obtain occ1 rs1 where
      o: "occ_pass dist cf pool c [0..<occ_limit cf pool] (occ, rs) = Inr (occ1, rs1)"
        "occ_inv d cf pool occ1 rs1 (greedy_pass d cf pool c [0..<occ_limit cf pool] S)" by auto
    have "occ_rounds dist cf pool fuel (fmul c f_1_2) (occ1, rs1) = res"
      using Suc.prems(3) True o(1) by (subst (asm) occ_rounds.simps) simp
    from Suc.IH [OF o(2) alpha_val_next [OF Suc.prems(2)] this] True show ?thesis by simp
  next
    case False
    then have "occ_rounds dist cf pool (Suc fuel) c (occ, rs) = Inr (occ, rs)"
      by (subst occ_rounds.simps) auto
    moreover have "fold (\<lambda>c. greedy_pass d cf pool c [0..<occ_limit cf pool]) (alpha_steps (cf_alpha cf) (Suc fuel) c) S = S"
    proof (cases "length rs < cf_range cf")
      case True
      then show ?thesis using False by simp
    next
      case full: False
      show ?thesis by (rule greedy_fold_full) (use full len in simp)
    qed
    ultimately show ?thesis using Suc.prems by (intro exI [of _ occ] exI [of _ rs]) simp
  qed
qed

lemma occ_inv_init: "occ_inv d cf pool (replicate (length pool) f_zero) [] []"
  using occ_limit_le [of cf pool] by (auto simp: occ_inv_def f_zero_def)

text \<open>The first candidate is selected first; one left out for want of a better one is occluded.\<close>

lemma alpha_steps_first: "fle f_one alpha \<Longrightarrow> \<exists>cs. alpha_steps alpha alpha_fuel f_one = f_one # cs \<and> (flt alpha (fmul f_one f_1_2) \<longrightarrow> cs = [])"
proof -
  assume a: "fle f_one alpha"
  obtain n where n: "alpha_fuel = Suc (Suc n)" by (simp add: alpha_fuel_def numeral_eq_Suc)
  have "flt alpha (fmul f_one f_1_2) \<Longrightarrow> \<not> fle (fmul f_one f_1_2) alpha" by (meson fle_def flt_asym feq_not_flt(2))
  then show ?thesis using a unfolding n by simp
qed

lemma greedy_select_props:
  assumes "fle f_one (cf_alpha cf)"
  shows "0 < occ_limit cf pool \<Longrightarrow> 0 < cf_range cf \<Longrightarrow> 0 \<in> set (greedy_select d cf pool)"
    "length (greedy_select d cf pool) < cf_range cf \<Longrightarrow> t < occ_limit cf pool \<Longrightarrow> t \<notin> set (greedy_select d cf pool) \<Longrightarrow>
      \<exists>i \<in> set (greedy_select d cf pool). occludes d pool f_one i t"
    "flt (cf_alpha cf) (fmul f_one f_1_2) \<Longrightarrow> \<forall>i \<in> set (greedy_select d cf pool). \<forall>t \<in> set (greedy_select d cf pool). \<not> occludes d pool f_one i t"
proof -
  let ?ts = "[0..<occ_limit cf pool]"
  define S1 where "S1 = greedy_pass d cf pool f_one ?ts []"
  obtain cs where cs: "alpha_steps (cf_alpha cf) alpha_fuel f_one = f_one # cs" "flt (cf_alpha cf) (fmul f_one f_1_2) \<longrightarrow> cs = []"
    using alpha_steps_first [OF assms] by blast
  have g: "greedy_select d cf pool = fold (\<lambda>c. greedy_pass d cf pool c ?ts) cs S1" by (simp add: greedy_select_def cs(1) S1_def)
  obtain xs where x: "greedy_select d cf pool = S1 @ xs" using greedy_fold_grows unfolding g by blast
  show "0 \<in> set (greedy_select d cf pool)" if h: "0 < occ_limit cf pool" "0 < cf_range cf"
  proof -
    have u: "?ts = 0 # [1..<occ_limit cf pool]" using h(1) by (simp add: upt_conv_Cons)
    have "S1 = greedy_pass d cf pool f_one [1..<occ_limit cf pool] [0]" unfolding S1_def u using h(2) by simp
    moreover obtain ys where "greedy_pass d cf pool f_one [1..<occ_limit cf pool] [0] = [0] @ ys" using greedy_pass_grows by blast
    ultimately show ?thesis by (simp add: x)
  qed
  show "\<exists>i \<in> set (greedy_select d cf pool). occludes d pool f_one i t"
    if t: "length (greedy_select d cf pool) < cf_range cf" "t < occ_limit cf pool" "t \<notin> set (greedy_select d cf pool)"
  proof -
    have "length S1 < cf_range cf" "t \<in> set ?ts" "t \<notin> set S1" using t by (simp_all add: x)
    then have "\<exists>i \<in> set S1. occludes d pool f_one i t" unfolding S1_def by (rule greedy_pass_complete)
    then show ?thesis by (auto simp: x)
  qed
  show "\<forall>i \<in> set (greedy_select d cf pool). \<forall>t \<in> set (greedy_select d cf pool). \<not> occludes d pool f_one i t" if "flt (cf_alpha cf) (fmul f_one f_1_2)"
  proof -
    have "greedy_select d cf pool = S1" using cs(2) that by (simp add: g)
    then show ?thesis unfolding S1_def using greedy_pass_diverse [of "[]" d pool f_one ?ts cf] by simp
  qed
qed

lemma occlude_spec:
  assumes "pool_good pool" "f_below_inf (cf_alpha cf)" "\<And>a b. dist a b \<noteq> Inl OutOfFuel"
    and "dist_ok dist d pool"
  shows "\<exists>result. occlude dist cf pool (replicate (length pool) f_zero) = Inr result \<and>
    set result = (\<lambda>i. pool ! i) ` set (greedy_select d cf pool) \<and> sorted_wrt nb_lt result \<and> length result = length (greedy_select d cf pool) \<and>
    distinct (greedy_select d cf pool) \<and> (\<forall>i \<in> set (greedy_select d cf pool). i < occ_limit cf pool) \<and> length result \<le> cf_range cf"
proof (cases "pool = []")
  case True
  have e: "greedy_select d cf [] = []"
  proof -
    have "fold (\<lambda>c. greedy_pass d cf [] c []) cs [] = []" for cs by (induction cs) simp_all
    then show ?thesis by (simp add: greedy_select_def occ_limit_def)
  qed
  show ?thesis using True e by (simp add: occlude_def)
next
  case False
  let ?z = "replicate (length pool) f_zero"
  let ?r = "occ_rounds dist cf pool alpha_fuel f_one (?z, [])"
  have nf: "?r \<noteq> Inl OutOfFuel"
    using occlude_fuel [OF assms(2,3), where pool = pool and occ = ?z] False by (auto simp: occlude_def bindE_Inl split: prod.splits)
  from occ_rounds_inv [OF occ_inv_init assms(1) alpha_val_one assms(4) refl nf] obtain occ rs where
    r: "?r = Inr (occ, rs)" "occ_inv d cf pool occ rs (greedy_select d cf pool)" unfolding greedy_select_def by blast
  have "occlude dist cf pool ?z = Inr rs" using False r(1) by (simp add: occlude_def)
  with r(2) occ_inv_length(1) [OF r(2) assms(1)] show ?thesis unfolding occ_inv_def by (intro exI [of _ rs]) simp
qed

section \<open>The pruned list\<close>

lemma prune_fill_spec:
  assumes "distinct pruned" "length pruned \<le> R"
  shows "\<exists>ys. prune_fill R ns pruned = pruned @ ys" "distinct (prune_fill R ns pruned)"
    and "set (prune_fill R ns pruned) \<subseteq> set pruned \<union> nb_id ` set ns"
    and "length (prune_fill R ns pruned) = min R (card (set pruned \<union> nb_id ` set ns))"
proof -
  have "(\<exists>ys. prune_fill R ns pruned = pruned @ ys) \<and> distinct (prune_fill R ns pruned) \<and>
    set (prune_fill R ns pruned) \<subseteq> set pruned \<union> nb_id ` set ns \<and>
    length (prune_fill R ns pruned) = min R (card (set pruned \<union> nb_id ` set ns))"
    using assms
  proof (induction ns arbitrary: pruned)
    case Nil
    then show ?case by (simp add: distinct_card)
  next
    case (Cons n ns)
    show ?case
    proof (cases "length pruned < R")
      case True
      let ?p = "if nb_id n \<in> set pruned then pruned else pruned @ [nb_id n]"
      have p: "distinct ?p" "length ?p \<le> R" using Cons.prems True by auto
      have "set ?p \<union> nb_id ` set ns = set pruned \<union> nb_id ` set (n # ns)" by auto
      with Cons.IH [OF p] True show ?thesis by auto
    next
      case False
      then have l: "length pruned = R" using Cons.prems(2) by simp
      have "card (set pruned) \<le> card (set pruned \<union> nb_id ` set (n # ns))" by (rule card_mono) auto
      with l Cons.prems(1) False show ?thesis by (auto simp: distinct_card)
    qed
  qed
  then show "\<exists>ys. prune_fill R ns pruned = pruned @ ys" "distinct (prune_fill R ns pruned)"
    "set (prune_fill R ns pruned) \<subseteq> set pruned \<union> nb_id ` set ns"
    "length (prune_fill R ns pruned) = min R (card (set pruned \<union> nb_id ` set ns))" by blast+
qed

lemma drop_late_medoid_spec:
  assumes "distinct (map nb_id result)"
  shows "distinct (drop_late_medoid medoid result)" "set (drop_late_medoid medoid result) \<subseteq> nb_id ` set result"
    and "length (drop_late_medoid medoid result) \<le> length result"
    and "result \<noteq> [] \<Longrightarrow> \<exists>ys. drop_late_medoid medoid result = nb_id (hd result) # ys"
proof -
  let ?P = "\<lambda>i. \<not> (length result * 3 div 4 < i \<and> nb_id (result ! i) = medoid)"
  have e: "drop_late_medoid medoid result = map (\<lambda>i. nb_id (result ! i)) (filter ?P [0..<length result])"
    by (simp add: drop_late_medoid_def Let_def)
  have "inj_on (\<lambda>i. nb_id (result ! i)) {0..<length result}"
    using assms by (auto simp: inj_on_def distinct_conv_nth) (metis nth_map)
  then show "distinct (drop_late_medoid medoid result)"
    unfolding e by (auto simp: distinct_map inj_on_def)
  show "set (drop_late_medoid medoid result) \<subseteq> nb_id ` set result" unfolding e by auto
  show "length (drop_late_medoid medoid result) \<le> length result"
    unfolding e using length_filter_le [of ?P "[0..<length result]"] by simp
  assume "result \<noteq> []"
  then show "\<exists>ys. drop_late_medoid medoid result = nb_id (hd result) # ys"
    unfolding e by (simp add: upt_conv_Cons hd_conv_nth)
qed

lemma result_of_pool:
  assumes "pool_good pool" "sorted_wrt nb_lt result" "set result \<subseteq> set pool"
  shows "distinct (map nb_id result)" "length result \<le> length pool"
proof -
  have d: "distinct result" using assms(2) by (induction result) auto
  show "distinct (map nb_id result)"
    using assms(1,3) d by (auto simp: pool_good_def distinct_map inj_on_def)
  have "length result = card (set result)" using d by (simp add: distinct_card)
  also have "\<dots> \<le> card (set pool)" using assms(3) by (simp add: card_mono)
  finally show "length result \<le> length pool" using card_length [of pool] by linarith
qed

lemma sorted_pool_hd:
  assumes "\<forall>n \<in> set pool. nb_num n" "pool \<noteq> []" "n \<in> set (sort_lt nb_lt pool)"
  shows "\<not> nb_lt n (sort_lt nb_lt pool ! 0)"
proof -
  obtain i where i: "i < length (sort_lt nb_lt pool)" "n = sort_lt nb_lt pool ! i"
    using assms(3) by (metis in_set_conv_nth)
  show ?thesis
  proof (cases i)
    case (Suc k)
    with sorted_sort_lt [OF assms(1)] i show ?thesis by (simp add: sorted_wrt_iff_nth_less)
  qed (use i in simp)
qed

lemma pool_good_sort: "pool_good pool \<Longrightarrow> pool_good (sort_lt nb_lt pool)"
  by (simp add: pool_good_def distinct_map_sort_lt)

lemma coord_dist_no_fuel: "coord_dist compare coord_map a b \<noteq> Inl OutOfFuel"
  by (auto simp: coord_dist_def split: option.splits)

definition coord_ratio :: "('v \<Rightarrow> 'v \<Rightarrow> f32) \<Rightarrow> (nat \<Rightarrow> 'v option) \<Rightarrow> nat \<Rightarrow> nat \<Rightarrow> f32" where
  "coord_ratio compare coord_map a b = compare (the (coord_map a)) (the (coord_map b))"

lemma coord_dist_ok:
  assumes "\<forall>n \<in> set pool. coord_map (nb_id n) \<noteq> None"
  shows "dist_ok (coord_dist compare coord_map) (coord_ratio compare coord_map) pool"
  unfolding dist_ok_def
proof (intro allI impI)
  fix t p assume "t < length pool" "p < length pool"
  then obtain x y where "coord_map (nb_id (pool ! t)) = Some x" "coord_map (nb_id (pool ! p)) = Some y"
    using assms by (meson nth_mem not_None_eq)
  then show "coord_dist compare coord_map (nb_id (pool ! t)) (nb_id (pool ! p)) =
      Inr (coord_ratio compare coord_map (nb_id (pool ! t)) (nb_id (pool ! p)))"
    by (simp add: coord_dist_def coord_ratio_def)
qed

text \<open>The candidates an insert hands to pruning: distinct ids with coordinates, no NaN, and an
  \<^verbatim>\<open>alpha\<close> that is not infinite.\<close>

definition prune_ready :: "(nat \<Rightarrow> 'v option) \<Rightarrow> prune_cfg \<Rightarrow> neighbor list \<Rightarrow> bool" where
  "prune_ready coord_map cf pool \<longleftrightarrow> pool \<noteq> [] \<and> pool_good pool \<and> f_below_inf (cf_alpha cf) \<and>
     (\<forall>n \<in> set pool. coord_map (nb_id n) \<noteq> None)"

lemma occlude_list_spec:
  assumes "prune_ready coord_map cf pool"
  shows "\<exists>result. occlude_list compare coord_map cf pool (replicate (length pool) f_zero) = Inr result \<and>
    set result = (\<lambda>i. pool ! i) ` set (greedy_select (coord_ratio compare coord_map) cf pool) \<and> sorted_wrt nb_lt result \<and>
    length result = length (greedy_select (coord_ratio compare coord_map) cf pool) \<and> distinct (greedy_select (coord_ratio compare coord_map) cf pool) \<and>
    (\<forall>i \<in> set (greedy_select (coord_ratio compare coord_map) cf pool). i < occ_limit cf pool) \<and> length result \<le> cf_range cf"
proof -
  from assms have a: "pool_good pool" "f_below_inf (cf_alpha cf)" "\<forall>n \<in> set pool. coord_map (nb_id n) \<noteq> None"
    by (auto simp: prune_ready_def)
  show ?thesis unfolding occlude_list_def
    by (rule occlude_spec [OF a(1,2) coord_dist_no_fuel coord_dist_ok [OF a(3)]])
qed

lemma prune_neighbors_spec:
  assumes "prune_ready coord_map cf pool"
  shows "\<exists>l. prune_neighbors compare coord_map cf medoid pool pruned_list = Inr (sort_lt nb_lt pool, l) \<and>
    distinct l \<and> set l \<subseteq> nb_id ` set pool \<and> length l \<le> cf_range cf \<and>
    (flt f_one (cf_alpha cf) \<longrightarrow> length l = min (cf_range cf) (length pool)) \<and>
    (0 < cf_maxc cf \<longrightarrow> 0 < cf_range cf \<longrightarrow> fle f_one (cf_alpha cf) \<longrightarrow>
       l \<noteq> [] \<and> hd l = nb_id (hd (sort_lt nb_lt pool)))"
proof -
  let ?sp = "sort_lt nb_lt pool"
  have p: "pool \<noteq> []" "pool_good pool" using assms by (auto simp: prune_ready_def)
  have "length ?sp \<noteq> 0" using p(1) by simp
  then have ne: "?sp \<noteq> []" by blast
  have rdy: "prune_ready coord_map cf ?sp" using assms pool_good_sort ne by (simp add: prune_ready_def)
  define S where "S = greedy_select (coord_ratio compare coord_map) cf ?sp"
  from occlude_list_spec [OF rdy, of compare] obtain result where
    r: "occlude_list compare coord_map cf ?sp (replicate (length ?sp) f_zero) = Inr result"
      "\<forall>i \<in> set S. i < occ_limit cf ?sp" "set result = (\<lambda>i. ?sp ! i) ` set S" "sorted_wrt nb_lt result"
      "length result \<le> cf_range cf" unfolding S_def by blast
  have r6: "0 < occ_limit cf ?sp \<Longrightarrow> 0 < cf_range cf \<Longrightarrow> fle f_one (cf_alpha cf) \<Longrightarrow> ?sp ! 0 \<in> set result"
    using greedy_select_props(1) [of cf ?sp "coord_ratio compare coord_map"] unfolding r(3) S_def by blast
  have sub: "set result \<subseteq> set ?sp"
  proof
    fix n assume "n \<in> set result"
    then obtain i where i: "i \<in> set S" "n = ?sp ! i" unfolding r(3) by blast
    then have "i < length ?sp" using r(2) occ_limit_le [of cf ?sp] by fastforce
    with i(2) show "n \<in> set ?sp" using nth_mem by blast
  qed
  note dr = result_of_pool [OF pool_good_sort [OF p(2)] r(4) sub]
  let ?pr = "drop_late_medoid medoid result"
  let ?l = "if fgt (cf_alpha cf) f_one then prune_fill (cf_range cf) ?sp ?pr else ?pr"
  note dl = drop_late_medoid_spec [OF dr(1), of medoid]
  have len: "length ?pr \<le> cf_range cf" using dl(3) r(5) by linarith
  note pf = prune_fill_spec [OF dl(1) len, of ?sp]
  have run: "prune_neighbors compare coord_map cf medoid pool pruned_list = Inr (?sp, ?l)"
    using p(1) r(1) by (simp add: prune_neighbors_def Let_def)
  have s1: "set ?pr \<subseteq> nb_id ` set pool" using dl(2) sub by auto
  then have s2: "set ?pr \<union> nb_id ` set ?sp = nb_id ` set pool" by auto
  have cp: "card (nb_id ` set pool) = length pool"
    using p(2) distinct_card [of "map nb_id pool"] by (simp add: pool_good_def)
  have hdp: "\<exists>ys. ?pr = nb_id (hd ?sp) # ys"
    if h: "0 < cf_maxc cf" "0 < cf_range cf" "fle f_one (cf_alpha cf)"
  proof -
    have "0 < occ_limit cf ?sp" using h(1) p(1) by (simp add: occ_limit_def)
    with r6 h have m: "?sp ! 0 \<in> set result" by blast
    then have rn: "result \<noteq> []" by auto
    have "hd result = ?sp ! 0"
    proof (rule ccontr)
      assume "hd result \<noteq> ?sp ! 0"
      with m rn r(4) have "nb_lt (hd result) (?sp ! 0)" by (cases result) auto
      moreover have "hd result \<in> set ?sp" using rn sub by auto
      ultimately show False using sorted_pool_hd [of pool "hd result"] p by (auto simp: pool_good_def)
    qed
    then have e: "hd result = hd ?sp" using ne by (simp add: hd_conv_nth)
    from dl(4) [OF rn] show ?thesis unfolding e .
  qed
  show ?thesis
  proof (cases "fgt (cf_alpha cf) f_one")
    case True
    have "prune_fill (cf_range cf) ?sp ?pr \<noteq> [] \<and> hd (prune_fill (cf_range cf) ?sp ?pr) = nb_id (hd ?sp)"
      if "0 < cf_maxc cf" "0 < cf_range cf" "fle f_one (cf_alpha cf)"
      using hdp [OF that] pf(1) by auto
    moreover have "set (prune_fill (cf_range cf) ?sp ?pr) \<subseteq> nb_id ` set pool" using pf(3) s2 by simp
    moreover have "length (prune_fill (cf_range cf) ?sp ?pr) = min (cf_range cf) (length pool)"
      using pf(4) s2 cp by simp
    ultimately show ?thesis using run pf(2) True
      by (intro exI [of _ "prune_fill (cf_range cf) ?sp ?pr"]) simp
  next
    case False
    have "?pr \<noteq> [] \<and> hd ?pr = nb_id (hd ?sp)"
      if "0 < cf_maxc cf" "0 < cf_range cf" "fle f_one (cf_alpha cf)"
      using hdp [OF that] by auto
    then show ?thesis using run dl(1) s1 len False by (intro exI [of _ ?pr]) simp
  qed
qed

section \<open>Properties of pruning\<close>

definition demo_cf :: "nat \<Rightarrow> f32 \<Rightarrow> prune_cfg" where
  "demo_cf r a = \<lparr>cf_range = r, cf_maxc = 750, cf_alpha = a\<rparr>"

definition demo_cands :: "neighbor list" where
  "demo_cands = [Neighbor 7 (f_of_nat 3) True, Neighbor 4 (f_of_nat 1) True, Neighbor 9 (f_of_nat 2) True]"

definition demo_coords :: "nat \<Rightarrow> nat option" where
  "demo_coords = [7 \<mapsto> 30, 4 \<mapsto> 10, 9 \<mapsto> 20]"

definition demo_compare :: "nat \<Rightarrow> nat \<Rightarrow> f32" where
  "demo_compare a b = f_of_nat (if a \<le> b then b - a else a - b)"

lemma f_1_2_below_inf: "f_below_inf f_1_2"
  by (simp add: f_1_2_val)

lemma f_1_2_gt_one: "flt f_one f_1_2"
  by (simp add: f_1_2_val f_one_def f_unit_def fsgn_def)

lemma demo_good: "pool_good demo_cands"
  by (simp add: pool_good_def demo_cands_def Neighbor_def f_of_nat_def rnd_def rnd_mag_def rhe_def f_unit_def
      Let_def fsgn_def)

lemma demo_ready: "prune_ready demo_coords (demo_cf r f_1_2) demo_cands"
  using demo_good f_1_2_below_inf
  by (simp add: prune_ready_def demo_cf_def) (simp add: demo_cands_def demo_coords_def Neighbor_def)

text \<open>C24: \<^verbatim>\<open>prune_neighbors\<close> terminates for every \<^verbatim>\<open>alpha\<close> but infinity and returns distinct ids
  of the pool, at most \<^verbatim>\<open>range\<close> of them, led by the nearest candidate; with \<^verbatim>\<open>alpha > 1\<close> the list is
  filled up to \<^verbatim>\<open>range\<close> or to the whole pool.\<close>

theorem prune_neighbors_correct:
  assumes "prune_ready coord_map cf pool"
  shows "\<exists>l. prune_neighbors compare coord_map cf medoid pool pruned_list = Inr (sort_lt nb_lt pool, l) \<and>
    distinct l \<and> set l \<subseteq> nb_id ` set pool \<and> length l \<le> cf_range cf \<and>
    (flt f_one (cf_alpha cf) \<longrightarrow> length l = min (cf_range cf) (length pool)) \<and>
    (0 < cf_maxc cf \<longrightarrow> 0 < cf_range cf \<longrightarrow> fle f_one (cf_alpha cf) \<longrightarrow>
       l \<noteq> [] \<and> hd l = nb_id (hd (sort_lt nb_lt pool)))"
  by (rule prune_neighbors_spec [OF assms])

theorem prune_neighbors_correct_witness:
  "\<exists>l. prune_neighbors demo_compare demo_coords (demo_cf 2 f_1_2) 4 demo_cands [] = Inr (sort_lt nb_lt demo_cands, l) \<and>
    distinct l \<and> set l \<subseteq> nb_id ` set demo_cands \<and> length l = 2"
  using prune_neighbors_correct [OF demo_ready, of demo_compare 2 4 "[]"] f_1_2_gt_one
  by (fastforce simp: demo_cf_def demo_cands_def)

text \<open>C25: \<^verbatim>\<open>occlude_list\<close>, which keeps an occlude factor per candidate, selects what the greedy
  selection does that compares every candidate with all selected ones: the result is that selection, sorted.  It
  leaves a candidate out, with room for it, only when a selected one before it occludes it at \<^verbatim>\<open>1\<close>; and for an
  \<^verbatim>\<open>alpha\<close> below \<^verbatim>\<open>1.2\<close> no selected candidate occludes another.\<close>

theorem occlude_list_greedy:
  assumes "prune_ready coord_map cf pool"
  shows "\<exists>result. occlude_list compare coord_map cf pool (replicate (length pool) f_zero) = Inr result \<and>
    (let d = coord_ratio compare coord_map; S = greedy_select d cf pool in
       set result = (\<lambda>i. pool ! i) ` set S \<and> sorted_wrt nb_lt result \<and> length result = length S \<and> length S \<le> cf_range cf \<and>
       (fle f_one (cf_alpha cf) \<and> length S < cf_range cf \<longrightarrow>
          (\<forall>t < occ_limit cf pool. t \<notin> set S \<longrightarrow> (\<exists>i \<in> set S. occludes d pool f_one i t))) \<and>
       (fle f_one (cf_alpha cf) \<and> flt (cf_alpha cf) (fmul f_one f_1_2) \<longrightarrow>
          (\<forall>i \<in> set S. \<forall>t \<in> set S. \<not> occludes d pool f_one i t)))"
proof -
  let ?d = "coord_ratio compare coord_map"
  from occlude_list_spec [OF assms, of compare] obtain result where
    "occlude_list compare coord_map cf pool (replicate (length pool) f_zero) = Inr result" "set result = (\<lambda>i. pool ! i) ` set (greedy_select ?d cf pool)"
    "sorted_wrt nb_lt result" "length result = length (greedy_select ?d cf pool)" "length result \<le> cf_range cf" by blast
  then show ?thesis using greedy_select_props [where cf = cf and pool = pool and d = ?d] by (intro exI [of _ result]) (simp add: Let_def)
qed

lemma f_1_2_step: "flt f_one (fmul f_one f_1_2)"
proof -
  from fmul_1_2 [of f_unit] consider "fmul f_one f_1_2 = FInf False" | r where "fmul f_one f_1_2 = FFin False r" "119 * f_unit \<le> 100 * r"
    by (auto simp: f_one_def)
  then show ?thesis
  proof cases
    case 2
    have "0 < f_unit" by (simp add: f_unit_def)
    then have "f_unit < r" using 2(2) by linarith
    then show ?thesis unfolding 2(1) by (simp add: f_one_def fsgn_def)
  qed (simp add: f_one_def)
qed

theorem occlude_list_greedy_witness:
  "\<exists>result. occlude_list demo_compare demo_coords (demo_cf 2 f_one) demo_cands (replicate (length demo_cands) f_zero) = Inr result \<and>
    (let d = coord_ratio demo_compare demo_coords; S = greedy_select d (demo_cf 2 f_one) demo_cands in
       set result = (\<lambda>i. demo_cands ! i) ` set S \<and> sorted_wrt nb_lt result \<and> length result = length S \<and> length S \<le> 2 \<and>
       (\<forall>i \<in> set S. \<forall>t \<in> set S. \<not> occludes d demo_cands f_one i t))"
proof -
  have r: "prune_ready demo_coords (demo_cf 2 f_one) demo_cands"
    using demo_ready [of 2] by (simp add: prune_ready_def demo_cf_def f_one_def f_unit_def)
  have "fle f_one (cf_alpha (demo_cf 2 f_one))" "flt (cf_alpha (demo_cf 2 f_one)) (fmul f_one f_1_2)" "cf_range (demo_cf 2 f_one) = 2"
    using f_1_2_step by (simp_all add: demo_cf_def fle_def f_one_def)
  then show ?thesis using occlude_list_greedy [OF r, of demo_compare] unfolding Let_def by auto
qed

text \<open>the medoid that \<^verbatim>\<open>prune_neighbors\<close> drops from the tail of the result comes back in the
  fill-up whenever \<^verbatim>\<open>alpha > 1\<close> and the pool is not larger than \<^verbatim>\<open>range\<close>: then every candidate is
  kept, the medoid included.\<close>

theorem dropped_medoid_returns:
  assumes "prune_ready coord_map cf pool" "flt f_one (cf_alpha cf)" "length pool \<le> cf_range cf"
    and "prune_neighbors compare coord_map cf medoid pool pruned_list = Inr (spool, l)"
  shows "set l = nb_id ` set pool"
proof -
  from prune_neighbors_spec [OF assms(1), of compare medoid pruned_list] assms(2-4)
  have l: "distinct l" "set l \<subseteq> nb_id ` set pool" "length l = length pool" by auto
  have "card (nb_id ` set pool) \<le> card (set l)"
    using l(1,3) card_image_le [of "set pool" nb_id] card_length [of pool] by (simp add: distinct_card)
  with l(2) show ?thesis by (simp add: card_seteq)
qed

theorem dropped_medoid_returns_witness:
  "\<exists>spool l. prune_neighbors demo_compare demo_coords (demo_cf 3 f_1_2) 7 demo_cands [] = Inr (spool, l) \<and>
    set l = {4, 7, 9}"
proof -
  from prune_neighbors_spec [OF demo_ready, of demo_compare 3 7 "[]"] obtain l where
    l: "prune_neighbors demo_compare demo_coords (demo_cf 3 f_1_2) 7 demo_cands [] = Inr (sort_lt nb_lt demo_cands, l)"
    by blast
  have "flt f_one (cf_alpha (demo_cf 3 f_1_2))" "length demo_cands \<le> cf_range (demo_cf 3 f_1_2)"
    using f_1_2_gt_one by (simp_all add: demo_cf_def demo_cands_def)
  from dropped_medoid_returns [OF demo_ready this l] l show ?thesis
    by (auto simp: demo_cands_def Neighbor_def)
qed

lemma occ_rounds_inf:
  assumes "cf_alpha cf = FInf False" "occ_inv d cf pool occ rs S" "pool_good pool" "length pool < cf_range cf"
    and "dist_ok dist d pool" "alpha_val cur"
  shows "occ_rounds dist cf pool fuel cur (occ, rs) = Inl OutOfFuel"
  using assms(2,6)
proof (induction fuel arbitrary: cur occ rs S)
  case (0 cur)
  have f: "fle cur (cf_alpha cf)" using 0(2) assms(1) by (auto simp: alpha_val_def fle_def)
  have "length rs < cf_range cf" using occ_inv_length(2) [OF 0(1) assms(3)] assms(4) by linarith
  with f show ?case by (simp add: occ_rounds.simps)
next
  case (Suc fuel cur)
  have f: "fle cur (cf_alpha cf)" using Suc.prems(2) assms(1) by (auto simp: alpha_val_def fle_def)
  have l: "length rs < cf_range cf" using occ_inv_length(2) [OF Suc.prems(1) assms(3)] assms(4) by linarith
  from occ_pass_inv [OF Suc.prems(1) assms(3) f alpha_val_zero [OF Suc.prems(2)] _ assms(5), of "[0..<occ_limit cf pool]"] obtain occ1 rs1 where
    o: "occ_pass dist cf pool cur [0..<occ_limit cf pool] (occ, rs) = Inr (occ1, rs1)"
      "occ_inv d cf pool occ1 rs1 (greedy_pass d cf pool cur [0..<occ_limit cf pool] S)" by auto
  have "occ_rounds dist cf pool fuel (fmul cur f_1_2) (occ1, rs1) = Inl OutOfFuel"
    by (rule Suc.IH [OF o(2) alpha_val_next [OF Suc.prems(2)]])
  then show ?case using f l o(1) by (subst occ_rounds.simps) simp
qed

text \<open>C29: with an infinite \<^verbatim>\<open>alpha\<close> and a pool smaller than \<^verbatim>\<open>range\<close> the outer loop never ends,
  whatever the fuel.\<close>

theorem infinite_alpha_diverges:
  assumes "cf_alpha cf = FInf False" "pool_good pool" "length pool < cf_range cf"
    and "\<forall>n \<in> set pool. coord_map (nb_id n) \<noteq> None"
  shows "occ_rounds (coord_dist compare coord_map) cf pool fuel f_one (replicate (length pool) f_zero, []) = Inl OutOfFuel"
  by (rule occ_rounds_inf [OF assms(1) occ_inv_init assms(2,3) coord_dist_ok [OF assms(4)] alpha_val_one])

theorem infinite_alpha_diverges_witness:
  "occ_rounds (coord_dist demo_compare demo_coords) (demo_cf 4 (FInf False)) demo_cands 1000 f_one
     (replicate (length demo_cands) f_zero, []) = Inl OutOfFuel"
proof (rule infinite_alpha_diverges [OF _ demo_good])
  show "\<forall>n \<in> set demo_cands. demo_coords (nb_id n) \<noteq> None"
    by (simp add: demo_cands_def demo_coords_def Neighbor_def)
qed (simp_all add: demo_cf_def demo_cands_def)

section \<open>Pruning by quantised distances\<close>

lemma prune_pq_spec:
  assumes "pool \<noteq> []" "pool_good pool" "f_below_inf (cf_alpha cf)"
  shows "\<exists>l. prune_neighbors_pq pq_dist cf pool pruned_list = Inr l \<and>
    distinct l \<and> set l \<subseteq> nb_id ` set pool \<and> length l \<le> cf_range cf \<and>
    (flt f_one (cf_alpha cf) \<longrightarrow> length l = min (cf_range cf) (length pool))"
proof -
  have ok: "dist_ok (\<lambda>t p. Inr (pq_dist p t)) (\<lambda>t p. pq_dist p t) pool" by (simp add: dist_ok_def)
  define S where "S = greedy_select (\<lambda>t p. pq_dist p t) cf pool"
  from occlude_spec [OF assms(2,3) _ ok] obtain result where
    r: "occlude_list_pq pq_dist cf pool (replicate (length pool) f_zero) = Inr result"
      "\<forall>i \<in> set S. i < occ_limit cf pool" "set result = (\<lambda>i. pool ! i) ` set S" "sorted_wrt nb_lt result"
      "length result \<le> cf_range cf" unfolding occlude_list_pq_def S_def by auto
  have sub: "set result \<subseteq> set pool"
    using r(2,3) occ_limit_le [of cf pool] by (fastforce intro: nth_mem)
  note dr = result_of_pool [OF assms(2) r(4) sub]
  have len: "length (map nb_id result) \<le> cf_range cf" using r(5) by simp
  note pf = prune_fill_spec [OF dr(1) len, of pool]
  have u: "set (map nb_id result) \<union> nb_id ` set pool = nb_id ` set pool" using sub by auto
  have cp: "card (nb_id ` set pool) = length pool"
    using assms(2) distinct_card [of "map nb_id pool"] by (simp add: pool_good_def)
  show ?thesis
  proof (cases "fgt (cf_alpha cf) f_one")
    case True
    with assms(1) r(1) have "prune_neighbors_pq pq_dist cf pool pruned_list =
        Inr (prune_fill (cf_range cf) pool (map nb_id result))" by (simp add: prune_neighbors_pq_def)
    then show ?thesis using pf [unfolded u cp]
      by (intro exI [of _ "prune_fill (cf_range cf) pool (map nb_id result)"]) auto
  next
    case False
    with assms(1) r(1) have "prune_neighbors_pq pq_dist cf pool pruned_list = Inr (map nb_id result)"
      by (simp add: prune_neighbors_pq_def)
    then show ?thesis using dr(1) sub r(5) False by auto
  qed
qed

text \<open>C26: re-pruning a neighbor's list by quantised distances terminates and returns distinct ids of
  the list, at most \<^verbatim>\<open>range\<close>, and exactly \<^verbatim>\<open>range\<close> (or all) of them when \<^verbatim>\<open>alpha > 1\<close>.\<close>

theorem prune_neighbors_pq_correct:
  assumes "pool \<noteq> []" "pool_good pool" "f_below_inf (cf_alpha cf)"
  shows "\<exists>l. prune_neighbors_pq pq_dist cf pool pruned_list = Inr l \<and>
    distinct l \<and> set l \<subseteq> nb_id ` set pool \<and> length l \<le> cf_range cf \<and>
    (flt f_one (cf_alpha cf) \<longrightarrow> length l = min (cf_range cf) (length pool))"
  by (rule prune_pq_spec [OF assms])

theorem prune_neighbors_pq_correct_witness:
  "\<exists>l. prune_neighbors_pq demo_compare (demo_cf 2 f_1_2) demo_cands [] = Inr l \<and>
    distinct l \<and> set l \<subseteq> {4, 7, 9} \<and> length l = 2"
  using prune_neighbors_pq_correct [OF _ demo_good, of "demo_cf 2 f_1_2" demo_compare "[]"] f_1_2_below_inf f_1_2_gt_one
  by (fastforce simp: demo_cf_def demo_cands_def Neighbor_def)

section \<open>Delta pruning\<close>

lemma delta_scan_bound:
  "\<forall>i \<in> set is. i < n \<Longrightarrow> tgt < n \<Longrightarrow> delta_scan pool tgt tnd cur is = Some e \<Longrightarrow> e < n"
  by (induction "is") (auto split: if_splits)

lemma delta_rounds_spec:
  assumes "f_below_inf cur" "100000 * (f_mag cur * 100 ^ fuel) < 99999 * f_unit * 119 ^ fuel" "tgt < length pool"
  shows "\<exists>ev. delta_rounds pool tgt tnd fuel cur = Inr ev \<and> (\<forall>e. ev = Some e \<longrightarrow> e < length pool)"
  using assms(1,2)
proof (induction fuel arbitrary: cur)
  case 0
  then have "\<not> ge_one_minus cur" by (cases cur) (auto simp: fsgn_def)
  then show ?case by (simp add: delta_rounds.simps)
next
  case (Suc fuel)
  show ?case
  proof (cases "ge_one_minus cur")
    case False
    then show ?thesis by (simp add: delta_rounds.simps)
  next
    case True
    then obtain n where n: "cur = FFin False n" "99999 * f_unit \<le> 100000 * n"
      using Suc.prems(1) by (cases cur) (auto simp: fsgn_def f_unit_def split: if_splits)
    show ?thesis
    proof (cases "delta_scan pool tgt tnd cur (rev [0..<length pool])")
      case (Some e)
      then have "e < length pool" using delta_scan_bound [of _ "length pool" tgt pool tnd cur] assms(3) by force
      with True Some show ?thesis by (subst delta_rounds.simps) simp
    next
      case None
      have big: "10066330 \<le> n" using n(2) by (simp add: f_unit_def)
      have lt: "n < 2 ^ 277" using Suc.prems(1) n(1) by simp
      from fdiv_1_2 [OF big lt] n(1) obtain r where r: "fdiv cur f_1_2 = FFin False r" "119 * r \<le> 100 * n" by blast
      have "r \<le> n" using r(2) by simp
      with lt have rl: "f_below_inf (fdiv cur f_1_2)" unfolding r(1) f_below_inf.simps by (rule le_less_trans [rotated])
      have "119 * (100000 * (r * 100 ^ fuel)) \<le> 100000 * (n * 100 ^ Suc fuel)"
        using mult_le_mono1 [OF r(2), of "100000 * 100 ^ fuel"] by (simp add: ac_simps)
      also have "\<dots> < 119 * (99999 * f_unit * 119 ^ fuel)"
        using Suc.prems(2) n(1) by (simp add: ac_simps)
      finally have "100000 * (f_mag (fdiv cur f_1_2) * 100 ^ fuel) < 99999 * f_unit * 119 ^ fuel" by (simp add: r(1))
      from Suc.IH [OF rl this] None True show ?thesis by (subst delta_rounds.simps) simp
    qed
  qed
qed

lemma delta_fuel_enough:
  assumes "m < 2 ^ 277"
  shows "100000 * (m * 100 ^ alpha_fuel) < 99999 * f_unit * 119 ^ alpha_fuel"
proof -
  have "4 * (m * 100 ^ alpha_fuel) < f_unit * 119 ^ alpha_fuel" using alpha_fuel_enough4 [OF assms] .
  then show ?thesis unfolding mult.assoc by linarith
qed

lemma find_in_set: "find P xs = Some x \<Longrightarrow> x \<in> set xs"
  by (auto simp: find_Some_iff)

lemma delta_seek_bound:
  "delta_seek pq_dist cf pool tgt ss = Some e \<Longrightarrow> e < length pool"
  by (induction ss) (auto split: if_splits option.splits dest: find_in_set)

lemma delta_finish_eq:
  assumes "e < length pool"
  shows "delta_finish pool e = map tn_id (take e pool @ drop (e + 1) pool)"
proof -
  have split: "[0..<length pool] = [0..<e] @ e # [e + 1..<length pool]"
    using assms upt_add_eq_append [of 0 e "length pool - e"] upt_conv_Cons [of e "length pool"] by simp
  have "filter (\<lambda>i. i \<noteq> e) [0..<length pool] = [0..<e] @ [e + 1..<length pool]"
    unfolding split by (auto intro!: filter_True)
  moreover have "map ((!) pool) [0..<e] = take e pool" using assms by (intro nth_equalityI) auto
  moreover have "map ((!) pool) [e + 1..<length pool] = drop (e + 1) pool" by (intro nth_equalityI) auto
  ultimately show ?thesis by (simp add: delta_finish_def flip: map_map [of tn_id "(!) pool", unfolded comp_def])
qed

lemma delta_prune_spec:
  assumes "tgt_idx < length pool" "f_below_inf (cf_alpha cf)"
  shows "\<exists>e < length pool. delta_prune_neighbors_pq pq_dist cf pool tgt_idx =
    Inr (map tn_id (take e pool @ drop (e + 1) pool))"
proof -
  from delta_rounds_spec [OF assms(2) delta_fuel_enough [OF f_mag_bound [OF assms(2)]] assms(1)]
  obtain ev where ev: "delta_rounds pool tgt_idx (tn_distance (pool ! tgt_idx)) alpha_fuel (cf_alpha cf) = Inr ev"
    "\<forall>e. ev = Some e \<longrightarrow> e < length pool" by blast
  let ?e = "case ev of Some e \<Rightarrow> e | None \<Rightarrow> (case delta_seek pq_dist cf pool tgt_idx [0..<length pool] of
      Some t \<Rightarrow> t | None \<Rightarrow> length pool - 1)"
  have lt: "?e < length pool"
    using ev(2) assms(1) by (auto split: option.split dest: delta_seek_bound)
  have "delta_prune_neighbors_pq pq_dist cf pool tgt_idx = Inr (delta_finish pool ?e)"
    using assms(1) ev(1) by (simp add: delta_prune_neighbors_pq_def)
  with lt delta_finish_eq [OF lt] show ?thesis by metis
qed

text \<open>C27: delta pruning terminates and removes exactly one candidate of the pool, keeping the order
  of the others.\<close>

theorem delta_prune_evicts_one:
  assumes "tgt_idx < length pool" "f_below_inf (cf_alpha cf)"
  shows "\<exists>e < length pool. delta_prune_neighbors_pq pq_dist cf pool tgt_idx =
    Inr (map tn_id (take e pool @ drop (e + 1) pool))"
  by (rule delta_prune_spec [OF assms])

definition demo_tri :: "tri_neighbor list" where
  "demo_tri = map (\<lambda>i. \<lparr>tn_id = i, tn_tgt_dis = f_of_nat (i + 1), tn_distance = f_of_nat (2 * i)\<rparr>) [0..<3]"

theorem delta_prune_evicts_one_witness:
  "\<exists>e < 3. delta_prune_neighbors_pq demo_compare (demo_cf 2 f_1_2) demo_tri 1 =
    Inr (map tn_id (take e demo_tri @ drop (e + 1) demo_tri))"
  using delta_prune_evicts_one [of 1 demo_tri "demo_cf 2 f_1_2" demo_compare] f_1_2_below_inf
  by (simp add: demo_cf_def demo_tri_def)

end
