(* ===== verification/PQ_Table.thy ===== *)
theory PQ_Table imports Float32 Byte_Mem begin

text \<open>
  Product quantisation (\<^verbatim>\<open>include/pq_table.h\<close>; \<^verbatim>\<open>aggregate_coords\<close> and \<^verbatim>\<open>pq_dist_lookup\<close> of
  \<^verbatim>\<open>include/ssd_index.h\<close>; \<^verbatim>\<open>compute_pq_dists\<close> and \<^verbatim>\<open>deflate_vector\<close> of \<^verbatim>\<open>src/ssd_index.cpp\<close>).
  The tables are raw float arrays in the code and functions of the index here; the loader checks
  the shapes of the files it fills them from.  Sums are left folds in the order of the loops,
  every addition and multiplication rounded by itself.
\<close>

type_synonym farr = "nat \<Rightarrow> f32"

record pq_table =
  pq_tables :: farr
  pq_centroid :: farr
  pq_ndims :: nat
  pq_n_chunks :: nat
  pq_chunk_offsets :: "nat \<Rightarrow> nat"
  pq_rearrangement :: "nat \<Rightarrow> nat"
  pq_tables_T :: farr
  pq_all_to_all :: farr

definition NUM_PQ_CENTROIDS :: nat where
  "NUM_PQ_CENTROIDS = 256"

definition NUM_PQ_OFFSETS :: nat where
  "NUM_PQ_OFFSETS = 5"

definition fmemset0 :: "nat \<Rightarrow> farr \<Rightarrow> farr" where
  "fmemset0 n d = (\<lambda>i. if i < n then f_zero else d i)"

definition fadd_at :: "nat \<Rightarrow> f32 \<Rightarrow> farr \<Rightarrow> farr" where
  "fadd_at a v d = d(a := fadd (d a) v)"

definition fsq :: "f32 \<Rightarrow> f32" where
  "fsq diff = fmul diff diff"

section \<open>Loading\<close>

text \<open>\<^verbatim>\<open>load_bin_impl\<close>: two 32-bit counts and the elements; the element type is a parameter.  A
  bin file is the function of its offsets that gives the counts and the elements there.\<close>

type_synonym 'e bin_reader = "nat \<Rightarrow> nat \<times> nat \<times> (nat \<Rightarrow> 'e)"

definition load_bin_impl :: "nat \<Rightarrow> (mem \<Rightarrow> nat \<Rightarrow> 'e) \<Rightarrow> mem \<Rightarrow> 'e bin_reader" where
  "load_bin_impl sz dec m file_offset =
     (get32 m file_offset, get32 m (file_offset + 4), \<lambda>i. dec m (file_offset + 8 + sz * i))"

text \<open>The single whose representation is the given 32-bit value.\<close>

definition f32_of_bits :: "nat \<Rightarrow> f32" where
  "f32_of_bits b = (let s = 2 ^ 31 \<le> b; e = b div 2 ^ 23 mod 256; m = b mod 2 ^ 23
     in if e = 255 then (if m = 0 then FInf s else FNaN)
        else if e = 0 then FFin s m else FFin s ((2 ^ 23 + m) * 2 ^ (e - 1)))"

definition get_f32 :: "mem \<Rightarrow> nat \<Rightarrow> f32" where
  "get_f32 m a = f32_of_bits (get32 m a)"

definition get64 :: "mem \<Rightarrow> nat \<Rightarrow> nat" where
  "get64 m a = un_le64 (peek m a 8)"

definition load_pq_pivots_new :: "mem \<Rightarrow> nat \<Rightarrow> nat \<Rightarrow> pq_table \<Rightarrow> pq_table res" where
  "load_pq_pivots_new m num_chunks offset t =
     (let (nr, nc, file_offset_data) = load_bin_impl 8 get64 m offset
      in if nr \<noteq> NUM_PQ_OFFSETS then Inl Crash
      else let (nr, nc, tables) = load_bin_impl 4 get_f32 m (u64 (file_offset_data 0 + offset))
      in if nr \<noteq> NUM_PQ_CENTROIDS then Inl Crash
      else let ndims = nc; (nr, nc, centroid) = load_bin_impl 4 get_f32 m (u64 (file_offset_data 1 + offset))
      in if nr \<noteq> ndims \<or> nc \<noteq> 1 then Inl Crash
      else let (nr, nc, rearr) = load_bin_impl 4 get32 m (u64 (file_offset_data 2 + offset))
      in if nr \<noteq> ndims \<or> nc \<noteq> 1 then Inl Crash
      else let (nr, nc, offs) = load_bin_impl 4 get32 m (u64 (file_offset_data 3 + offset))
      in if nr \<noteq> num_chunks + 1 \<or> nc \<noteq> 1 then Inl Crash
      else Inr (t\<lparr>pq_tables := tables, pq_centroid := centroid, pq_ndims := ndims, pq_n_chunks := num_chunks,
             pq_chunk_offsets := offs, pq_rearrangement := rearr\<rparr>))"

abbreviation chunk_dims :: "pq_table \<Rightarrow> nat \<Rightarrow> nat list" where
  "chunk_dims t c \<equiv> [pq_chunk_offsets t c..<pq_chunk_offsets t (Suc c)]"

text \<open>\<^verbatim>\<open>post_load_pq_table\<close>: the transposed table and the distances between all pairs of centers.\<close>

definition transpose_tables :: "pq_table \<Rightarrow> farr \<Rightarrow> farr" where
  "transpose_tables t = fold (\<lambda>i. fold (\<lambda>j d. d(j * 256 + i := pq_tables t (i * pq_ndims t + j))) [0..<pq_ndims t]) [0..<256]"

definition all_pairs :: "pq_table \<Rightarrow> farr \<Rightarrow> farr" where
  "all_pairs t = fold (\<lambda>i. fold (\<lambda>j. fold (\<lambda>c. fold (\<lambda>d.
       fadd_at (i * 256 * pq_n_chunks t + j * pq_n_chunks t + c)
         (fsq (fsub (pq_tables t (i * pq_ndims t + d)) (pq_tables t (j * pq_ndims t + d)))))
       (chunk_dims t c)) [0..<pq_n_chunks t]) [0..<256]) [0..<256]"

definition post_load_pq_table :: "farr \<Rightarrow> farr \<Rightarrow> pq_table \<Rightarrow> pq_table" where
  "post_load_pq_table raw_T raw_all t =
     t\<lparr>pq_tables_T := transpose_tables t raw_T,
       pq_all_to_all := all_pairs t (fmemset0 (256 * 256 * pq_n_chunks t) raw_all)\<rparr>"

definition load_pq_centroid_bin :: "mem \<Rightarrow> nat \<Rightarrow> nat \<Rightarrow> farr \<Rightarrow> farr \<Rightarrow> pq_table \<Rightarrow> pq_table res" where
  "load_pq_centroid_bin m num_chunks offset raw_T raw_all t =
     bindE (load_pq_pivots_new m num_chunks offset t) (\<lambda>t. Inr (post_load_pq_table raw_T raw_all t))"

section \<open>Distances\<close>

text \<open>\<^verbatim>\<open>diff\<close> is a double: the square of a single is exact in it, and the cast rounds it once.\<close>

definition populate_chunk_distances :: "pq_table \<Rightarrow> farr \<Rightarrow> farr \<Rightarrow> farr" where
  "populate_chunk_distances t query_vec dist_vec =
     fold (\<lambda>chunk. fold (\<lambda>j. let permuted = pq_rearrangement t j in fold (\<lambda>idx.
         fadd_at (256 * chunk + idx)
           (fsq (fsub (pq_tables_T t (256 * j + idx)) (fsub (query_vec permuted) (pq_centroid t permuted)))))
       [0..<256]) (chunk_dims t chunk)) [0..<pq_n_chunks t] (fmemset0 (256 * pq_n_chunks t) dist_vec)"

text \<open>The AVX-512 version: sixteen lanes are loaded, updated and stored at a time.\<close>

definition lanes16 :: "nat \<Rightarrow> farr \<Rightarrow> f32 list" where
  "lanes16 a d = map (\<lambda>k. d (a + k)) [0..<16]"

definition store16 :: "nat \<Rightarrow> f32 list \<Rightarrow> farr \<Rightarrow> farr" where
  "store16 a v d = (\<lambda>i. if a \<le> i \<and> i < a + 16 then v ! (i - a) else d i)"

definition populate_chunk_distances_nt :: "pq_table \<Rightarrow> farr \<Rightarrow> farr \<Rightarrow> farr" where
  "populate_chunk_distances_nt t query_vec dist_vec =
     fold (\<lambda>chunk. fold (\<lambda>j. let permuted = pq_rearrangement t j in fold (\<lambda>b d.
         let idx = 16 * b;
             center_f = lanes16 (256 * j + idx) (pq_tables_T t);
             query_f = replicate 16 (fsub (query_vec permuted) (pq_centroid t permuted));
             diff = map2 fsub center_f query_f;
             diff_sq = map2 fmul diff diff
         in store16 (256 * chunk + idx) (map2 fadd (lanes16 (256 * chunk + idx) d) diff_sq) d)
       [0..<16]) (chunk_dims t chunk)) [0..<pq_n_chunks t] (fmemset0 (256 * pq_n_chunks t) dist_vec)"

definition compute_distances_alltoall :: "pq_table \<Rightarrow> (nat \<Rightarrow> nat) \<Rightarrow> (nat \<Rightarrow> nat) \<Rightarrow> nat \<Rightarrow> farr \<Rightarrow> farr" where
  "compute_distances_alltoall t comp_src comp_dsts cnt dists =
     fold (\<lambda>i. fold (\<lambda>c. fadd_at i
         (pq_all_to_all t (comp_src c * 256 * pq_n_chunks t + comp_dsts (i * pq_n_chunks t + c) * pq_n_chunks t + c)))
       [0..<pq_n_chunks t]) [0..<cnt] (fmemset0 cnt dists)"

text \<open>\<^verbatim>\<open>deflate_vec\<close>: one chunk's centers in order, the closest so far and its code.\<close>

definition center_dist :: "pq_table \<Rightarrow> farr \<Rightarrow> nat \<Rightarrow> nat \<Rightarrow> f32" where
  "center_dist t fp_vec c i = fold (\<lambda>d cur_dist.
       fadd cur_dist (fsq (fsub (pq_tables t (i * pq_ndims t + d))
         (fsub (fp_vec (pq_rearrangement t d)) (pq_centroid t (pq_rearrangement t d))))))
     (chunk_dims t c) f_zero"

definition deflate_chunk :: "pq_table \<Rightarrow> farr \<Rightarrow> nat \<Rightarrow> nat \<Rightarrow> f32 \<times> nat" where
  "deflate_chunk t fp_vec c out = fold (\<lambda>i (closest, out).
       let cur_dist = center_dist t fp_vec c i in if flt cur_dist closest then (cur_dist, i) else (closest, out))
     [0..<256] (FLT_MAX, out)"

definition deflate_vec :: "pq_table \<Rightarrow> farr \<Rightarrow> nat list \<Rightarrow> nat list" where
  "deflate_vec t fp_vec out = fold (\<lambda>c out. out[c := snd (deflate_chunk t fp_vec c (out ! c))]) [0..<pq_n_chunks t] out"

definition deflate_vector :: "pq_table \<Rightarrow> nat \<Rightarrow> farr \<Rightarrow> byte list" where
  "deflate_vector t n_chunks vec = map of_nat (deflate_vec t vec (replicate n_chunks 0))"

section \<open>Looking distances up\<close>

text \<open>\<^verbatim>\<open>data\<close> is a byte vector; copying codes beyond its end is undefined.\<close>

fun aggregate_coords :: "byte list \<Rightarrow> nat \<Rightarrow> nat list \<Rightarrow> byte list res" where
  "aggregate_coords all_coords ndims [] = Inr []"
| "aggregate_coords all_coords ndims (i # ids) =
     (if length all_coords < i * ndims + ndims then Inl OutOfRange
      else bindE (aggregate_coords all_coords ndims ids) (\<lambda>out. Inr (take ndims (drop (i * ndims) all_coords) @ out)))"

definition pq_dist_lookup :: "(nat \<Rightarrow> nat) \<Rightarrow> nat \<Rightarrow> nat \<Rightarrow> farr \<Rightarrow> farr \<Rightarrow> farr" where
  "pq_dist_lookup pq_ids n_pts pq_nchunks pq_dists dists_out =
     fold (\<lambda>chunk. fold (\<lambda>idx. fadd_at idx (pq_dists (256 * chunk + pq_ids (pq_nchunks * idx + chunk)))) [0..<n_pts])
       [0..<pq_nchunks] (fmemset0 n_pts dists_out)"

text \<open>The search's \<^verbatim>\<open>compute_dists\<close>: gather the codes, then look them up.\<close>

definition compute_dists :: "byte list \<Rightarrow> nat \<Rightarrow> farr \<Rightarrow> nat list \<Rightarrow> f32 list res" where
  "compute_dists data n_chunks pq_dists ids =
     bindE (aggregate_coords data n_chunks ids) (\<lambda>scratch.
       Inr (map (pq_dist_lookup (\<lambda>i. unat (scratch ! i)) (length ids) n_chunks pq_dists (\<lambda>_. f_zero)) [0..<length ids]))"

definition compute_pq_dists :: "pq_table \<Rightarrow> byte list \<Rightarrow> nat \<Rightarrow> nat list \<Rightarrow> f32 list res" where
  "compute_pq_dists t data src ids =
     (let n = pq_n_chunks t
      in if 32768 \<le> length ids then Inl Crash
      else if length data < n * src + n then Inl OutOfRange
      else bindE (aggregate_coords data n ids) (\<lambda>scratch.
        Inr (map (compute_distances_alltoall t (\<lambda>c. unat (data ! (n * src + c))) (\<lambda>i. unat (scratch ! i)) (length ids) (\<lambda>_. f_zero))
               [0..<length ids])))"

end
