(* ===== verification/PQ_Props.thy ===== *)
theory PQ_Props imports PQ_Table begin

text \<open>
  What product quantisation computes: the loops over the tables are sums over dimensions and
  chunks, the AVX-512 table population is the scalar one, quantisation picks a nearest center,
  distances between codes are symmetric and vanish on equal codes.
\<close>

section \<open>Filling the distance table\<close>

text \<open>The contribution of one dimension and the entry of one center.\<close>

definition dim_term :: "pq_table \<Rightarrow> farr \<Rightarrow> nat \<Rightarrow> nat \<Rightarrow> f32" where
  "dim_term t q i j = fsq (fsub (pq_tables_T t (256 * j + i))
     (fsub (q (pq_rearrangement t j)) (pq_centroid t (pq_rearrangement t j))))"

definition chunk_dist :: "pq_table \<Rightarrow> farr \<Rightarrow> nat \<Rightarrow> nat \<Rightarrow> f32" where
  "chunk_dist t q c i = fold (\<lambda>j s. fadd s (dim_term t q i j)) (chunk_dims t c) f_zero"

lemma entry_cell: "i < 256 \<Longrightarrow> k < 256 \<Longrightarrow> 256 * c + i = 256 * c' + k \<longleftrightarrow> c = c' \<and> i = (k :: nat)"
proof
  assume i: "i < 256" "k < 256" and e: "256 * c + i = 256 * c' + k"
  then have "(256 * c + i) div 256 = (256 * c' + k) div 256" "(256 * c + i) mod 256 = (256 * c' + k) mod 256" by simp_all
  with i show "c = c' \<and> i = k" by simp
qed simp

lemma populate_spec:
  assumes "c < pq_n_chunks t" "i < 256"
  shows "populate_chunk_distances t q d (256 * c + i) = chunk_dist t q c i"
proof -
  let ?x = "256 * c + i"
  have inner: "fold (\<lambda>idx. fadd_at (256 * ch + idx)
       (fsq (fsub (pq_tables_T t (256 * j + idx)) (fsub (q (pq_rearrangement t j)) (pq_centroid t (pq_rearrangement t j))))))
       [0..<256] d ?x = (if ch = c then fadd (d ?x) (dim_term t q i j) else d ?x)" for ch j d
  proof (subst fold_at [where P = "\<lambda>idx. ch = c \<and> idx = i" and h = "\<lambda>idx s. fadd s (dim_term t q idx j)"])
    show "fadd_at (256 * ch + k)
         (fsq (fsub (pq_tables_T t (256 * j + k)) (fsub (q (pq_rearrangement t j)) (pq_centroid t (pq_rearrangement t j))))) d ?x =
        (if ch = c \<and> k = i then fadd (d ?x) (dim_term t q k j) else d ?x)" if "k \<in> set [0..<256]" for k d
      using entry_cell [of i k c ch] assms(2) that by (auto simp: fadd_at_def dim_term_def)
    show "fold (\<lambda>idx s. fadd s (dim_term t q idx j)) (filter (\<lambda>idx. ch = c \<and> idx = i) [0..<256]) (d ?x) =
        (if ch = c then fadd (d ?x) (dim_term t q i j) else d ?x)"
      using assms(2) by (simp add: filter_eq_upt)
  qed
  have mid: "fold (\<lambda>j. let permuted = pq_rearrangement t j in fold (\<lambda>idx. fadd_at (256 * ch + idx)
       (fsq (fsub (pq_tables_T t (256 * j + idx)) (fsub (q permuted) (pq_centroid t permuted)))))
       [0..<256]) js d ?x = (if ch = c then fold (\<lambda>j s. fadd s (dim_term t q i j)) js (d ?x) else d ?x)" for ch js d
    by (subst fold_at [where P = "\<lambda>j. ch = c" and h = "\<lambda>j s. fadd s (dim_term t q i j)"])
      (auto simp: Let_def inner)
  show ?thesis
    unfolding populate_chunk_distances_def
    by (subst fold_at [where P = "\<lambda>ch. ch = c" and h = "\<lambda>ch. fold (\<lambda>j s. fadd s (dim_term t q i j)) (chunk_dims t ch)"])
      (use assms in \<open>auto simp: mid filter_eq_upt chunk_dist_def fmemset0_def\<close>)
qed

text \<open>Sixteen lanes at a time are sixteen single updates.\<close>

lemma store16_step:
  "store16 a (map2 fadd (lanes16 a d) (map g [0..<16])) d = fold (\<lambda>k. fadd_at (a + k) (g k)) [0..<16] d"
proof
  fix x
  have "fold (\<lambda>k. fadd_at (a + k) (g k)) [0..<16] d x = fold (\<lambda>k s. fadd s (g k)) (filter (\<lambda>k. a + k = x) [0..<16]) (d x)"
    by (rule fold_at) (auto simp: fadd_at_def)
  also have "\<dots> = store16 a (map2 fadd (lanes16 a d) (map g [0..<16])) d x"
  proof (cases "a \<le> x \<and> x < a + 16")
    case True
    then have "filter (\<lambda>k. a + k = x) [0..<16] = filter (\<lambda>k. k = x - a) [0..<16]" by (intro filter_cong) auto
    moreover have "x - a < 16" using True by linarith
    ultimately show ?thesis using True by (simp add: store16_def lanes16_def filter_eq_upt)
  next
    case False
    then have "filter (\<lambda>k. a + k = x) [0..<16] = []" by auto
    moreover have "store16 a (map2 fadd (lanes16 a d) (map g [0..<16])) d x = d x" using False by (auto simp: store16_def)
    ultimately show ?thesis by simp
  qed
  finally show "store16 a (map2 fadd (lanes16 a d) (map g [0..<16])) d x =
      fold (\<lambda>k. fadd_at (a + k) (g k)) [0..<16] d x" by simp
qed

lemma fold_blocks: "fold (\<lambda>b. fold (\<lambda>k. f (16 * b + k)) [0..<16]) [0..<n] d = fold f [0..<16 * n] d"
proof (induction n)
  case (Suc n)
  have s: "[0..<16 * Suc n] = [0..<16 * n] @ [16 * n..<16 * n + 16]"
    using upt_add_eq_append [of 0 "16 * n" 16] by (simp add: add.commute)
  have "[16 * n..<16 * n + 16] = map (\<lambda>k. 16 * n + k) [0..<16]"
    using map_add_upt [of "16 * n" 16] by (simp add: add.commute)
  then have "fold f [16 * n..<16 * n + 16] e = fold (\<lambda>k. f (16 * n + k)) [0..<16] e" for e
    by (simp only: fold_map comp_def)
  with Suc s show ?case by (simp del: upt_Suc mult_Suc_right add: upt_Suc_append)
qed simp

lemma nt_eq_scalar: "populate_chunk_distances_nt t q d = populate_chunk_distances t q d"
proof -
  have "(\<lambda>b d. let idx = 16 * b;
             center_f = lanes16 (256 * j + idx) (pq_tables_T t);
             query_f = replicate 16 (fsub (q p) (pq_centroid t p));
             diff = map2 fsub center_f query_f;
             diff_sq = map2 fmul diff diff
         in store16 (256 * ch + idx) (map2 fadd (lanes16 (256 * ch + idx) d) diff_sq) d) =
      (\<lambda>b. fold (\<lambda>k. fadd_at (256 * ch + (16 * b + k))
         (fsq (fsub (pq_tables_T t (256 * j + (16 * b + k))) (fsub (q p) (pq_centroid t p))))) [0..<16])" for j p ch
  proof (rule ext, rule ext)
    fix b d
    have "map2 fsub (lanes16 (256 * j + 16 * b) (pq_tables_T t)) (replicate 16 (fsub (q p) (pq_centroid t p))) =
        map (\<lambda>k. fsub (pq_tables_T t (256 * j + (16 * b + k))) (fsub (q p) (pq_centroid t p))) [0..<16]" (is "?df = _")
      by (rule nth_equalityI) (auto simp: lanes16_def add.assoc)
    then have "map2 fmul ?df ?df = map (\<lambda>k. fsq (fsub (pq_tables_T t (256 * j + (16 * b + k))) (fsub (q p) (pq_centroid t p)))) [0..<16]"
      by (simp only: map2_map_map fsq_def)
    then show "(let idx = 16 * b;
             center_f = lanes16 (256 * j + idx) (pq_tables_T t);
             query_f = replicate 16 (fsub (q p) (pq_centroid t p));
             diff = map2 fsub center_f query_f;
             diff_sq = map2 fmul diff diff
         in store16 (256 * ch + idx) (map2 fadd (lanes16 (256 * ch + idx) d) diff_sq) d) =
       fold (\<lambda>k. fadd_at (256 * ch + (16 * b + k))
         (fsq (fsub (pq_tables_T t (256 * j + (16 * b + k))) (fsub (q p) (pq_centroid t p))))) [0..<16] d"
      by (simp only: Let_def store16_step add.assoc)
  qed
  note lanes = this
  have blocks: "fold (\<lambda>b. fold (\<lambda>k. fadd_at (256 * ch + (16 * b + k))
         (fsq (fsub (pq_tables_T t (256 * j + (16 * b + k))) (fsub (q p) (pq_centroid t p))))) [0..<16]) [0..<16] =
      fold (\<lambda>idx. fadd_at (256 * ch + idx) (fsq (fsub (pq_tables_T t (256 * j + idx)) (fsub (q p) (pq_centroid t p))))) [0..<256]"
    for ch j p
    by (rule ext) (subst fold_blocks [where f = "\<lambda>idx. fadd_at (256 * ch + idx)
       (fsq (fsub (pq_tables_T t (256 * j + idx)) (fsub (q p) (pq_centroid t p))))"], simp)
  show ?thesis
    unfolding populate_chunk_distances_nt_def populate_chunk_distances_def
    unfolding lanes unfolding blocks ..
qed


section \<open>Quantising a vector\<close>

lemma transpose_tables_spec:
  assumes "i < 256" "j < pq_ndims t"
  shows "transpose_tables t raw (256 * j + i) = pq_tables t (i * pq_ndims t + j)"
proof -
  let ?x = "256 * j + i"
  have inner: "fold (\<lambda>j d. d(j * 256 + k := pq_tables t (k * pq_ndims t + j))) [0..<pq_ndims t] d ?x =
      (if k = i then pq_tables t (i * pq_ndims t + j) else d ?x)" if "k < 256" for k d
  proof (subst fold_at [where P = "\<lambda>j'. k = i \<and> j' = j" and h = "\<lambda>j' _. pq_tables t (k * pq_ndims t + j')"])
    show "(d(j' * 256 + k := pq_tables t (k * pq_ndims t + j'))) ?x =
        (if k = i \<and> j' = j then pq_tables t (k * pq_ndims t + j') else d ?x)" for j' d
      using entry_cell [of i k j j'] assms(1) that by (auto simp: mult.commute)
    show "fold (\<lambda>j' _. pq_tables t (k * pq_ndims t + j')) (filter (\<lambda>j'. k = i \<and> j' = j) [0..<pq_ndims t]) (d ?x) =
        (if k = i then pq_tables t (i * pq_ndims t + j) else d ?x)"
      using assms(2) by (simp add: filter_eq_upt)
  qed
  show ?thesis
    unfolding transpose_tables_def
    by (subst fold_at [where P = "\<lambda>k. k = i" and h = "\<lambda>k _. pq_tables t (i * pq_ndims t + j)"])
      (use assms in \<open>auto simp: inner filter_eq_upt\<close>)
qed

text \<open>A table as \<^verbatim>\<open>load\<close> leaves it, its chunks made of its dimensions.\<close>

definition pq_loaded :: "pq_table \<Rightarrow> bool" where
  "pq_loaded t \<longleftrightarrow> (\<forall>i < 256. \<forall>j < pq_ndims t. pq_tables_T t (256 * j + i) = pq_tables t (i * pq_ndims t + j)) \<and>
     (\<forall>c < pq_n_chunks t. pq_chunk_offsets t (Suc c) \<le> pq_ndims t)"

lemma post_load_loaded:
  assumes "\<forall>c < pq_n_chunks t. pq_chunk_offsets t (Suc c) \<le> pq_ndims t"
  shows "pq_loaded (post_load_pq_table raw_T raw_all t)"
  using assms by (simp add: pq_loaded_def post_load_pq_table_def transpose_tables_def [of "t\<lparr>pq_tables_T := x, pq_all_to_all := y\<rparr>" for x y]
      transpose_tables_spec)

lemma center_dist_chunk_dist:
  assumes "pq_loaded t" "c < pq_n_chunks t" "i < 256"
  shows "center_dist t q c i = chunk_dist t q c i"
  unfolding center_dist_def chunk_dist_def
proof (rule fold_cong)
  fix d assume "d \<in> set (chunk_dims t c)"
  then have "d < pq_chunk_offsets t (Suc c)" by simp
  also have "\<dots> \<le> pq_ndims t" using assms by (simp add: pq_loaded_def)
  finally show "(\<lambda>s. fadd s (fsq (fsub (pq_tables t (i * pq_ndims t + d))
        (fsub (q (pq_rearrangement t d)) (pq_centroid t (pq_rearrangement t d)))))) =
      (\<lambda>s. fadd s (dim_term t q i d))"
    using assms by (simp add: pq_loaded_def dim_term_def)
qed simp_all

text \<open>Scanning for the closest: the first strict minimum below the start value.\<close>

lemma scan_closest:
  fixes g :: "nat \<Rightarrow> f32"
  assumes "fnum start"
  shows "let (m, o') = fold (\<lambda>i (closest, out). if flt (g i) closest then (g i, i) else (closest, out)) [0..<n] (start, out)
    in fnum m \<and> \<not> flt start m \<and> (\<forall>i < n. \<not> flt (g i) m) \<and> (m = start \<and> o' = out \<or> o' < n \<and> m = g o' \<and> flt (g o') start)"
proof (induction n)
  case 0
  then show ?case using assms by simp
next
  case (Suc n)
  obtain m o' where f: "fold (\<lambda>i (closest, out). if flt (g i) closest then (g i, i) else (closest, out)) [0..<n] (start, out) = (m, o')"
    by fastforce
  from Suc f have ih: "fnum m" "\<not> flt start m" "\<forall>i < n. \<not> flt (g i) m"
    "m = start \<and> o' = out \<or> o' < n \<and> m = g o' \<and> flt (g o') start" by auto
  show ?case
  proof (cases "flt (g n) m")
    case True
    then have n: "fnum (g n)" using flt_num by blast
    have gs: "flt (g n) start"
      using flt_le_trans [OF True assms] ih(2) by blast
    have "\<not> flt (g i) (g n)" if "i < Suc n" for i
      using that ih(3) True flt_trans [of "g i" "g n" m] by (cases "i = n") (auto simp: less_Suc_eq)
    then show ?thesis using True f n gs flt_asym [OF gs] by simp
  next
    case False
    then show ?thesis using f ih by (auto simp: less_Suc_eq)
  qed
qed

lemma deflate_chunk_spec:
  assumes "\<exists>i < 256. flt (center_dist t v c i) FLT_MAX"
  shows "snd (deflate_chunk t v c out) < 256 \<and>
    (\<forall>i < 256. \<not> flt (center_dist t v c i) (center_dist t v c (snd (deflate_chunk t v c out))))"
proof -
  have "fnum FLT_MAX" by (simp add: FLT_MAX_def)
  note sc = scan_closest [OF this, of "center_dist t v c" 256 out]
  have e: "deflate_chunk t v c out =
      fold (\<lambda>i (closest, out). if flt (center_dist t v c i) closest then (center_dist t v c i, i) else (closest, out))
        [0..<256] (FLT_MAX, out)"
    unfolding deflate_chunk_def by (simp only: Let_def)
  obtain m o' where d: "deflate_chunk t v c out = (m, o')" by (cases "deflate_chunk t v c out")
  from sc d e have "\<forall>i < 256. \<not> flt (center_dist t v c i) m"
    "m = FLT_MAX \<and> o' = out \<or> o' < 256 \<and> m = center_dist t v c o'" by (simp_all del: upt_rec_numeral) blast
  with assms d show ?thesis by auto
qed

lemma deflate_vec_nth:
  assumes "length out = pq_n_chunks t" "c < pq_n_chunks t"
  shows "deflate_vec t v out ! c = snd (deflate_chunk t v c (out ! c))"
proof -
  have "fold (\<lambda>c out. out[c := snd (deflate_chunk t v c (out ! c))]) [0..<n] out =
      map (\<lambda>c. if c < n then snd (deflate_chunk t v c (out ! c)) else out ! c) [0..<length out]" if "n \<le> length out" for n
    using that
  proof (induction n)
    case (Suc n)
    then show ?case by (auto intro!: nth_equalityI simp: nth_list_update less_Suc_eq)
  qed (simp add: map_nth)
  from this [of "length out"] assms show ?thesis by (simp add: deflate_vec_def)
qed


section \<open>Codes and their distances\<close>

lemma aggregate_coords_spec:
  assumes "\<forall>i \<in> set ids. i * n + n \<le> length data"
  shows "\<exists>out. aggregate_coords data n ids = Inr out \<and> length out = n * length ids \<and>
    (\<forall>k < length ids. \<forall>c < n. out ! (n * k + c) = data ! (ids ! k * n + c))"
  using assms
proof (induction ids)
  case (Cons i ids)
  then obtain out where o: "aggregate_coords data n ids = Inr out" "length out = n * length ids"
    "\<forall>k < length ids. \<forall>c < n. out ! (n * k + c) = data ! (ids ! k * n + c)" by auto
  let ?o = "take n (drop (i * n) data) @ out"
  have "i * n + n \<le> length data" using Cons.prems by simp
  then have "n \<le> length data - i * n" by linarith
  then have l: "length (take n (drop (i * n) data)) = n" by simp
  have "?o ! (n * k + c) = data ! ((i # ids) ! k * n + c)" if "k < length (i # ids)" "c < n" for k c
  proof (cases k)
    case 0
    then show ?thesis using that l Cons.prems by (simp add: nth_append)
  next
    case (Suc k')
    then have "?o ! (n * k + c) = out ! (n * k' + c)" using l by (simp add: nth_append)
    then show ?thesis using Suc that o(3) by simp
  qed
  moreover have "length ?o = n * length (i # ids)" unfolding length_append l using o(2) by simp
  moreover have "aggregate_coords data n (i # ids) = Inr ?o" using o(1) Cons.prems by simp
  ultimately show ?case by blast
qed simp

lemma aggregate_coords_short:
  assumes "i \<in> set ids" "length data < i * n + n"
  shows "aggregate_coords data n ids = Inl OutOfRange"
  using assms by (induction ids) (auto simp: bindE_Inl)

text \<open>The code of a node, and the distance the search uses for it.\<close>

definition pq_code :: "byte list \<Rightarrow> nat \<Rightarrow> nat \<Rightarrow> nat \<Rightarrow> nat" where
  "pq_code data n i c = unat (data ! (i * n + c))"

definition table_sum :: "farr \<Rightarrow> nat \<Rightarrow> (nat \<Rightarrow> nat) \<Rightarrow> f32" where
  "table_sum pq_dists n code = fold (\<lambda>c s. fadd s (pq_dists (256 * c + code c))) [0..<n] f_zero"

lemma table_sum_cong: "(\<And>c. c < n \<Longrightarrow> code c = code' c) \<Longrightarrow> table_sum d n code = table_sum d n code'"
  unfolding table_sum_def by (intro fold_cong) auto

lemma pq_dist_lookup_spec:
  assumes "k < n_pts"
  shows "pq_dist_lookup ids n_pts n d out k = table_sum d n (\<lambda>c. ids (n * k + c))"
proof -
  have inner: "fold (\<lambda>idx. fadd_at idx (d (256 * ch + ids (n * idx + ch)))) [0..<n_pts] e k =
      fadd (e k) (d (256 * ch + ids (n * k + ch)))" for ch e
    by (subst fold_at [where P = "\<lambda>idx. idx = k" and h = "\<lambda>idx s. fadd s (d (256 * ch + ids (n * idx + ch)))"])
      (use assms in \<open>auto simp: fadd_at_def filter_eq_upt\<close>)
  show ?thesis
    unfolding pq_dist_lookup_def table_sum_def
    by (subst fold_at [where P = "\<lambda>ch. True" and h = "\<lambda>ch s. fadd s (d (256 * ch + ids (n * k + ch)))"])
      (use assms in \<open>simp_all add: inner fmemset0_def\<close>)
qed

lemma compute_dists_spec:
  assumes "\<forall>i \<in> set ids. i * n + n \<le> length data"
  shows "compute_dists data n d ids = Inr (map (\<lambda>i. table_sum d n (pq_code data n i)) ids)"
proof -
  from aggregate_coords_spec [OF assms] obtain out where o: "aggregate_coords data n ids = Inr out"
    "\<forall>k < length ids. \<forall>c < n. out ! (n * k + c) = data ! (ids ! k * n + c)" by blast
  have "map (pq_dist_lookup (\<lambda>i. unat (out ! i)) (length ids) n d (\<lambda>_. f_zero)) [0..<length ids] =
      map (\<lambda>i. table_sum d n (pq_code data n i)) ids"
    by (rule nth_equalityI) (use o(2) in \<open>auto simp: pq_dist_lookup_spec pq_code_def intro!: table_sum_cong\<close>)
  with o(1) show ?thesis by (simp add: compute_dists_def)
qed

lemma compute_dists_short:
  "i \<in> set ids \<Longrightarrow> length data < i * n + n \<Longrightarrow> compute_dists data n d ids = Inl OutOfRange"
  by (simp add: compute_dists_def aggregate_coords_short)

text \<open>Distances between codes.\<close>

definition center_pair :: "pq_table \<Rightarrow> nat \<Rightarrow> nat \<Rightarrow> nat \<Rightarrow> f32" where
  "center_pair t i j c = fold (\<lambda>d s. fadd s (fsq (fsub (pq_tables t (i * pq_ndims t + d)) (pq_tables t (j * pq_ndims t + d)))))
     (chunk_dims t c) f_zero"

definition code_dist :: "pq_table \<Rightarrow> (nat \<Rightarrow> nat) \<Rightarrow> (nat \<Rightarrow> nat) \<Rightarrow> f32" where
  "code_dist t a b = fold (\<lambda>c s. fadd s (center_pair t (a c) (b c) c)) [0..<pq_n_chunks t] f_zero"

lemma pair_cell:
  assumes "j < 256" "j' < 256" "c < n" "c' < (n :: nat)"
  shows "i * 256 * n + j * n + c = i' * 256 * n + j' * n + c' \<longleftrightarrow> i = i' \<and> j = j' \<and> c = c'"
proof
  assume e: "i * 256 * n + j * n + c = i' * 256 * n + j' * n + c'"
  have r: "x * 256 * n + y * n + z = (256 * x + y) * n + z" for x y z by (simp add: algebra_simps)
  have "((256 * i + j) * n + c) div n = ((256 * i' + j') * n + c') div n"
    "((256 * i + j) * n + c) mod n = ((256 * i' + j') * n + c') mod n"
    using e by (simp_all only: r)
  with assms(3,4) have "256 * i + j = 256 * i' + j'" "c = c'" by simp_all
  with entry_cell [OF assms(1,2)] show "i = i' \<and> j = j' \<and> c = c'" by simp
qed simp

lemma all_pairs_spec:
  assumes "i < 256" "j < 256" "c < pq_n_chunks t"
  shows "all_pairs t d (i * 256 * pq_n_chunks t + j * pq_n_chunks t + c) =
    fold (\<lambda>d s. fadd s (fsq (fsub (pq_tables t (i * pq_ndims t + d)) (pq_tables t (j * pq_ndims t + d)))))
      (chunk_dims t c) (d (i * 256 * pq_n_chunks t + j * pq_n_chunks t + c))"
proof -
  let ?n = "pq_n_chunks t"
  let ?x = "i * 256 * ?n + j * ?n + c"
  let ?v = "\<lambda>i j d. fsq (fsub (pq_tables t (i * pq_ndims t + d)) (pq_tables t (j * pq_ndims t + d)))"
  have l1: "fold (\<lambda>e. fadd_at (i' * 256 * ?n + j' * ?n + c') (?v i' j' e)) ds d ?x =
      (if i' = i \<and> j' = j \<and> c' = c then fold (\<lambda>e s. fadd s (?v i j e)) ds (d ?x) else d ?x)"
    if "j' < 256" "c' < ?n" for i' j' c' ds d
    by (subst fold_at [where P = "\<lambda>e. i' = i \<and> j' = j \<and> c' = c" and h = "\<lambda>e s. fadd s (?v i' j' e)"])
      (use pair_cell [OF assms(2) that(1) assms(3) that(2), of i i'] in \<open>auto simp: fadd_at_def\<close>)
  have l2: "fold (\<lambda>c'. fold (\<lambda>e. fadd_at (i' * 256 * ?n + j' * ?n + c') (?v i' j' e)) (chunk_dims t c')) [0..<?n] d ?x =
      (if i' = i \<and> j' = j then fold (\<lambda>e s. fadd s (?v i j e)) (chunk_dims t c) (d ?x) else d ?x)"
    if "j' < 256" for i' j' d
    by (subst fold_at [where P = "\<lambda>c'. (i' = i \<and> j' = j) \<and> c' = c" and h = "\<lambda>c'. fold (\<lambda>e s. fadd s (?v i j e)) (chunk_dims t c')"])
      (use that assms(3) in \<open>auto simp: l1 filter_eq_upt\<close>)
  have l3: "fold (\<lambda>j'. fold (\<lambda>c'. fold (\<lambda>e. fadd_at (i' * 256 * ?n + j' * ?n + c') (?v i' j' e)) (chunk_dims t c')) [0..<?n])
       [0..<256] d ?x = (if i' = i then fold (\<lambda>e s. fadd s (?v i j e)) (chunk_dims t c) (d ?x) else d ?x)" for i' d
    by (subst fold_at [where P = "\<lambda>j'. i' = i \<and> j' = j" and h = "\<lambda>j'. fold (\<lambda>e s. fadd s (?v i j e)) (chunk_dims t c)"])
      (use assms(2) in \<open>auto simp: l2 filter_eq_upt\<close>)
  show ?thesis
    unfolding all_pairs_def
    by (subst fold_at [where P = "\<lambda>i'. i' = i" and h = "\<lambda>i'. fold (\<lambda>e s. fadd s (?v i j e)) (chunk_dims t c)"])
      (use assms(1) in \<open>auto simp: l3 filter_eq_upt\<close>)
qed


lemma alltoall_spec:
  assumes "k < cnt" "\<And>c. c < pq_n_chunks t \<Longrightarrow> src c < 256 \<and> dst (k * pq_n_chunks t + c) < 256"
    and "\<And>i j c. i < 256 \<Longrightarrow> j < 256 \<Longrightarrow> c < pq_n_chunks t \<Longrightarrow>
      pq_all_to_all t (i * 256 * pq_n_chunks t + j * pq_n_chunks t + c) = center_pair t i j c"
  shows "compute_distances_alltoall t src dst cnt out k = code_dist t src (\<lambda>c. dst (k * pq_n_chunks t + c))"
proof -
  let ?n = "pq_n_chunks t"
  let ?v = "\<lambda>k c. pq_all_to_all t (src c * 256 * ?n + dst (k * ?n + c) * ?n + c)"
  have inner: "fold (\<lambda>c. fadd_at i (?v i c)) cs d k = (if i = k then fold (\<lambda>c s. fadd s (?v k c)) cs (d k) else d k)" for i cs d
    by (subst fold_at [where P = "\<lambda>c. i = k" and h = "\<lambda>c s. fadd s (?v i c)"]) (auto simp: fadd_at_def)
  have "compute_distances_alltoall t src dst cnt out k = fold (\<lambda>c s. fadd s (?v k c)) [0..<?n] f_zero"
    unfolding compute_distances_alltoall_def
    by (subst fold_at [where P = "\<lambda>i. i = k" and h = "\<lambda>i. fold (\<lambda>c s. fadd s (?v k c)) [0..<?n]"])
      (use assms(1) in \<open>auto simp: inner filter_eq_upt fmemset0_def\<close>)
  also have "\<dots> = code_dist t src (\<lambda>c. dst (k * ?n + c))"
    unfolding code_dist_def
  proof (rule fold_cong)
    fix c assume "c \<in> set [0..<?n]"
    then show "(\<lambda>s. fadd s (?v k c)) = (\<lambda>s. fadd s (center_pair t (src c) (dst (k * ?n + c)) c))"
      using assms(2) [of c] assms(3) [of "src c" "dst (k * ?n + c)" c] by simp
  qed simp_all
  finally show ?thesis .
qed

definition pq_pairs_ok :: "pq_table \<Rightarrow> bool" where
  "pq_pairs_ok t \<longleftrightarrow> (\<forall>i < 256. \<forall>j < 256. \<forall>c < pq_n_chunks t.
     pq_all_to_all t (i * 256 * pq_n_chunks t + j * pq_n_chunks t + c) = center_pair t i j c)"

lemma post_load_pairs: "pq_pairs_ok (post_load_pq_table raw_T raw_all t)"
  unfolding pq_pairs_ok_def
proof (intro allI impI)
  fix i j c :: nat assume b: "i < 256" "j < 256" "c < pq_n_chunks (post_load_pq_table raw_T raw_all t)"
  let ?n = "pq_n_chunks t"
  have c: "c < ?n" using b(3) by (simp add: post_load_pq_table_def)
  have "j * ?n + c < (j + 1) * ?n" using c by simp
  also have "\<dots> \<le> 256 * ?n" using b(2) by (intro mult_le_mono1) simp
  finally have "i * 256 * ?n + j * ?n + c < (i + 1) * (256 * ?n)" by simp
  also have "\<dots> \<le> 256 * (256 * ?n)" using b(1) by (intro mult_le_mono1) simp
  finally have x: "i * 256 * ?n + j * ?n + c < 256 * 256 * ?n" by simp
  show "pq_all_to_all (post_load_pq_table raw_T raw_all t)
      (i * 256 * pq_n_chunks (post_load_pq_table raw_T raw_all t) + j * pq_n_chunks (post_load_pq_table raw_T raw_all t) + c) =
    center_pair (post_load_pq_table raw_T raw_all t) i j c"
    using all_pairs_spec [OF b(1,2) c] x by (simp add: post_load_pq_table_def center_pair_def fmemset0_def)
qed

lemma compute_pq_dists_spec:
  assumes "pq_pairs_ok t" "length ids < 32768" "\<forall>i \<in> insert src (set ids). i * pq_n_chunks t + pq_n_chunks t \<le> length data"
  shows "compute_pq_dists t data src ids =
    Inr (map (\<lambda>i. code_dist t (pq_code data (pq_n_chunks t) src) (pq_code data (pq_n_chunks t) i)) ids)"
proof -
  let ?n = "pq_n_chunks t"
  from assms(3) aggregate_coords_spec [of ids ?n data] obtain out where o: "aggregate_coords data ?n ids = Inr out"
    "\<forall>k < length ids. \<forall>c < ?n. out ! (?n * k + c) = data ! (ids ! k * ?n + c)" by auto
  have b: "unat (w :: byte) < 256" for w using unsigned_less [of w] by simp
  have "compute_distances_alltoall t (\<lambda>c. unat (data ! (?n * src + c))) (\<lambda>i. unat (out ! i)) (length ids) (\<lambda>_. f_zero) k =
      code_dist t (pq_code data ?n src) (pq_code data ?n (ids ! k))" if k: "k < length ids" for k
  proof -
    have "compute_distances_alltoall t (\<lambda>c. unat (data ! (?n * src + c))) (\<lambda>i. unat (out ! i)) (length ids) (\<lambda>_. f_zero) k =
        code_dist t (\<lambda>c. unat (data ! (?n * src + c))) (\<lambda>c. unat (out ! (k * ?n + c)))"
      by (rule alltoall_spec [OF k]) (use b assms(1) in \<open>auto simp: pq_pairs_ok_def\<close>)
    also have "\<dots> = code_dist t (pq_code data ?n src) (pq_code data ?n (ids ! k))"
      unfolding code_dist_def pq_code_def
      by (rule fold_cong) (use o(2) k in \<open>auto simp: mult.commute\<close>)
    finally show ?thesis .
  qed
  then have "map (compute_distances_alltoall t (\<lambda>c. unat (data ! (?n * src + c))) (\<lambda>i. unat (out ! i)) (length ids) (\<lambda>_. f_zero))
      [0..<length ids] = map (\<lambda>i. code_dist t (pq_code data ?n src) (pq_code data ?n i)) ids"
    by (intro nth_equalityI) auto
  moreover have "\<not> length data < ?n * src + ?n" using assms(3) by (simp add: mult.commute)
  ultimately show ?thesis using assms(2) o(1) by (simp add: compute_pq_dists_def Let_def)
qed

lemma rnd_sq: "fmul (rnd s p q) (rnd s p q) = fmul (rnd s' p q) (rnd s' p q)"
  by (simp add: rnd_def)

lemma fsq_fsub_sym: "fsq (fsub a b) = fsq (fsub b a)"
proof (cases a; cases b)
  fix s m u n assume ab: "a = FFin s m" "b = FFin u n"
  have e: "fsgn u n + fsgn (\<not> s) m = - (fsgn s m + fsgn (\<not> u) n)" by (simp add: fsgn_def)
  show ?thesis
  proof (cases "fsgn s m + fsgn (\<not> u) n = 0")
    case True
    then show ?thesis using e by (simp add: fsq_def fsub_def ab Let_def)
  next
    case False
    let ?v = "fsgn s m + fsgn (\<not> u) n"
    have 1: "fsub a b = rnd (?v < 0) (nat \<bar>?v\<bar>) 1" using False by (simp add: fsub_def ab Let_def)
    have 2: "fsub b a = rnd (- ?v < 0) (nat \<bar>?v\<bar>) 1"
      using False by (simp only: fsub_def ab fneg.simps fadd.simps e Let_def neg_equal_0_iff_equal if_False abs_minus_cancel)
    show ?thesis unfolding fsq_def 1 2 by (rule rnd_sq)
  qed
qed (auto simp: fsq_def fsub_def)

lemma center_pair_sym: "center_pair t i j c = center_pair t j i c"
  unfolding center_pair_def by (subst fsq_fsub_sym) (rule refl)

lemma code_dist_sym: "code_dist t a b = code_dist t b a"
  unfolding code_dist_def by (subst center_pair_sym) (rule refl)


definition finite_tables :: "pq_table \<Rightarrow> bool" where
  "finite_tables t \<longleftrightarrow> (\<forall>k. \<exists>s m. pq_tables t k = FFin s m)"

lemma fsq_self: "fsq (fsub (FFin s m) (FFin s m)) = f_zero"
  by (auto simp: fsq_def fsub_def fsgn_def Let_def rnd_def rnd_mag_def rhe_def f_zero_def f_unit_def)

lemma fadd_zero: "fadd f_zero f_zero = f_zero"
  by (simp add: f_zero_def fsgn_def)

lemma fold_zero: "(\<And>x. x \<in> set xs \<Longrightarrow> g x = f_zero) \<Longrightarrow> fold (\<lambda>x s. fadd s (g x)) xs f_zero = f_zero"
  by (induction xs) (auto simp: fadd_zero)

lemma code_dist_zero:
  assumes "finite_tables t" "\<forall>c < pq_n_chunks t. a c = b c"
  shows "code_dist t a b = f_zero"
proof -
  have "center_pair t i i c = f_zero" for i c
    unfolding center_pair_def
  proof (rule fold_zero)
    fix d
    obtain s m where "pq_tables t (i * pq_ndims t + d) = FFin s m" using assms(1) unfolding finite_tables_def by blast
    then show "fsq (fsub (pq_tables t (i * pq_ndims t + d)) (pq_tables t (i * pq_ndims t + d))) = f_zero" by (simp only: fsq_self)
  qed
  then show ?thesis unfolding code_dist_def using assms(2) by (intro fold_zero) simp
qed

text \<open>Sums of squares of finite values never become NaN: they are non-negative, and may overflow to infinity.\<close>

fun fpos :: "f32 \<Rightarrow> bool" where
  "fpos (FFin s m) = (\<not> s)"
| "fpos (FInf s) = (\<not> s)"
| "fpos FNaN = False"

fun ffin :: "f32 \<Rightarrow> bool" where
  "ffin (FFin s m) = True"
| "ffin (FInf s) = False"
| "ffin FNaN = False"

lemma fpos_num: "fpos a \<Longrightarrow> fnum a"
  by (cases a) auto

lemma fpos_zero [simp]: "fpos f_zero"
  by (simp add: f_zero_def)

lemma fpos_rnd: "fpos (rnd False p q)"
  by (simp add: rnd_def)

lemma fpos_fadd: "fpos a \<Longrightarrow> fpos b \<Longrightarrow> fpos (fadd a b)"
  by (cases a; cases b) (auto simp: Let_def fsgn_def fpos_rnd)

lemma fpos_fsq: "fnum a \<Longrightarrow> fpos (fsq a)"
  by (cases a) (auto simp: fsq_def fpos_rnd)

lemma fpos_fold: "(\<And>x. x \<in> set xs \<Longrightarrow> fpos (g x)) \<Longrightarrow> fpos a \<Longrightarrow> fpos (fold (\<lambda>x s. fadd s (g x)) xs a)"
  by (induction xs arbitrary: a) (auto simp: fpos_fadd)

lemma fnum_fsub: "ffin a \<Longrightarrow> fnum b \<Longrightarrow> fnum (fsub a b)"
  by (cases a; cases b) (auto simp: fsub_def Let_def rnd_def)

definition pq_finite :: "pq_table \<Rightarrow> bool" where
  "pq_finite t \<longleftrightarrow> (\<forall>k. ffin (pq_tables t k)) \<and> (\<forall>k. ffin (pq_centroid t k))"

lemma ffin_num: "ffin a \<Longrightarrow> fnum a"
  by (cases a) auto

lemma code_dist_num: "pq_finite t \<Longrightarrow> fnum (code_dist t a b)"
  unfolding code_dist_def center_pair_def pq_finite_def
  by (intro fpos_num fpos_fold fpos_zero fpos_fsq fnum_fsub ffin_num) blast+

section \<open>Properties of product quantisation\<close>

text \<open>The distance between a vector and a code: the chunks' distances added up.\<close>

definition asym_dist :: "pq_table \<Rightarrow> farr \<Rightarrow> (nat \<Rightarrow> nat) \<Rightarrow> f32" where
  "asym_dist t q code = fold (\<lambda>c s. fadd s (center_dist t q c (code c))) [0..<pq_n_chunks t] f_zero"

lemma asym_dist_num: "pq_finite t \<Longrightarrow> (\<And>k. ffin (q k)) \<Longrightarrow> fnum (asym_dist t q code)"
  unfolding asym_dist_def center_dist_def pq_finite_def
  by (intro fpos_num fpos_fold fpos_zero fpos_fsq fnum_fsub ffin_num) (blast intro: fnum_fsub ffin_num)+

lemma table_sum_asym:
  assumes "pq_loaded t" "\<forall>c < pq_n_chunks t. code c < 256"
  shows "table_sum (populate_chunk_distances t q d) (pq_n_chunks t) code = asym_dist t q code"
  unfolding table_sum_def asym_dist_def
proof (rule fold_cong)
  fix c assume "c \<in> set [0..<pq_n_chunks t]"
  then show "(\<lambda>s. fadd s (populate_chunk_distances t q d (256 * c + code c))) =
      (\<lambda>s. fadd s (center_dist t q c (code c)))"
    using assms by (simp add: populate_spec center_dist_chunk_dist)
qed simp_all

lemma pq_code_less: "pq_code data n i c < 256"
  using unsigned_less [of "data ! (i * n + c)"] by (simp add: pq_code_def)

text \<open>C30: the distance a search ranks nodes by: filling the table for a query and looking the codes of
  the nodes up in it gives, for every node, the sum over the chunks of the distances between the
  query and the node's centers; a code beyond the end of the code vector is an invalid read.\<close>

theorem pq_search_distances:
  assumes "pq_loaded t"
  shows "compute_dists data (pq_n_chunks t) (populate_chunk_distances t q d) ids =
    (if \<forall>i \<in> set ids. i * pq_n_chunks t + pq_n_chunks t \<le> length data
     then Inr (map (\<lambda>i. asym_dist t q (pq_code data (pq_n_chunks t) i)) ids) else Inl OutOfRange)"
proof (cases "\<forall>i \<in> set ids. i * pq_n_chunks t + pq_n_chunks t \<le> length data")
  case True
  then show ?thesis using compute_dists_spec [OF True] table_sum_asym [OF assms] pq_code_less by simp
next
  case False
  then obtain i where "i \<in> set ids" "length data < i * pq_n_chunks t + pq_n_chunks t" by auto
  then show ?thesis using False compute_dists_short by (simp del: not_le)
qed

text \<open>C31: the AVX-512 version of the table fill computes exactly what the scalar version does.\<close>

theorem populate_nt_equals_scalar:
  "populate_chunk_distances_nt t q d = populate_chunk_distances t q d"
  by (rule nt_eq_scalar)

text \<open>C32: quantising a vector picks for every chunk a center nearest to it, measured by the very
  table a search with that vector uses: no center's entry is smaller.\<close>

theorem deflate_vector_nearest:
  assumes "pq_loaded t" "c < pq_n_chunks t" "\<exists>i < 256. flt (center_dist t v c i) FLT_MAX"
    and "code = unat (deflate_vector t (pq_n_chunks t) v ! c)"
  shows "\<forall>i < 256. \<not> flt (populate_chunk_distances t v d (256 * c + i)) (populate_chunk_distances t v d (256 * c + code))"
proof -
  let ?o = "snd (deflate_chunk t v c 0)"
  note sp = deflate_chunk_spec [OF assms(3), of 0]
  have len: "length (deflate_vec t v (replicate (pq_n_chunks t) 0)) = pq_n_chunks t"
  proof -
    have "length (fold (\<lambda>c out. out[c := f c out]) cs out) = length out" for cs f and out :: "nat list"
      by (induction cs arbitrary: out) auto
    then show ?thesis by (simp add: deflate_vec_def)
  qed
  then have "deflate_vector t (pq_n_chunks t) v ! c = of_nat ?o"
    using assms(2) deflate_vec_nth [of "replicate (pq_n_chunks t) 0" t c v] by (simp add: deflate_vector_def)
  then have "code = ?o" using assms(4) sp by (simp add: unat_of_nat)
  with sp have "\<forall>i < 256. \<not> flt (center_dist t v c i) (center_dist t v c code)" "code < 256" by simp_all
  then show ?thesis using assms(1,2) by (simp add: populate_spec center_dist_chunk_dist)
qed

text \<open>C33: distances between stored codes are what the center tables say, do not depend on the
  direction, and are zero between nodes with the same code.\<close>

theorem compute_pq_dists_correct:
  assumes "pq_pairs_ok t" "length ids < 32768"
    and "\<forall>i \<in> insert src (set ids). i * pq_n_chunks t + pq_n_chunks t \<le> length data"
  shows "\<exists>ds. compute_pq_dists t data src ids = Inr ds \<and> length ds = length ids \<and>
    (\<forall>k < length ids.
       ds ! k = code_dist t (pq_code data (pq_n_chunks t) src) (pq_code data (pq_n_chunks t) (ids ! k)) \<and>
       compute_pq_dists t data (ids ! k) [src] = Inr [ds ! k] \<and>
       (finite_tables t \<and> (\<forall>c < pq_n_chunks t. pq_code data (pq_n_chunks t) src c = pq_code data (pq_n_chunks t) (ids ! k) c)
          \<longrightarrow> ds ! k = f_zero))"
proof -
  let ?d = "\<lambda>i. code_dist t (pq_code data (pq_n_chunks t) src) (pq_code data (pq_n_chunks t) i)"
  have "compute_pq_dists t data (ids ! k) [src] = Inr [?d (ids ! k)]" if "k < length ids" for k
    using that assms(3) compute_pq_dists_spec [OF assms(1), of "[src]" "ids ! k" data] code_dist_sym by simp
  then show ?thesis
    using compute_pq_dists_spec [OF assms] code_dist_zero by (intro exI [of _ "map ?d ids"]) auto
qed

text \<open>A loaded table of two chunks of one dimension each: center \<^verbatim>\<open>i\<close> of a dimension is \<^verbatim>\<open>i\<close>.\<close>

definition demo_pq :: pq_table where
  "demo_pq = post_load_pq_table (\<lambda>_. f_zero) (\<lambda>_. f_zero)
     \<lparr>pq_tables = (\<lambda>k. FFin False (k div 2)), pq_centroid = (\<lambda>_. f_zero), pq_ndims = 2, pq_n_chunks = 2,
      pq_chunk_offsets = id, pq_rearrangement = id, pq_tables_T = (\<lambda>_. f_zero), pq_all_to_all = (\<lambda>_. f_zero)\<rparr>"

lemma demo_pq_loaded: "pq_loaded demo_pq" and demo_pq_pairs: "pq_pairs_ok demo_pq"
  unfolding demo_pq_def by (rule post_load_loaded, simp add: less_Suc_eq) (rule post_load_pairs)

lemma demo_pq_simps: "pq_n_chunks demo_pq = 2" "pq_tables demo_pq = (\<lambda>k. FFin False (k div 2))"
  "pq_ndims demo_pq = 2" "pq_chunk_offsets demo_pq = id" "pq_rearrangement demo_pq = id" "pq_centroid demo_pq = (\<lambda>_. f_zero)"
  by (simp_all add: demo_pq_def post_load_pq_table_def)

theorem pq_search_distances_witness:
  "compute_dists [7, 9, 3, 1] 2 (populate_chunk_distances demo_pq (\<lambda>_. f_zero) (\<lambda>_. FNaN)) [1, 0] =
     Inr [asym_dist demo_pq (\<lambda>_. f_zero) (pq_code [7, 9, 3, 1] 2 1), asym_dist demo_pq (\<lambda>_. f_zero) (pq_code [7, 9, 3, 1] 2 0)]"
  using pq_search_distances [OF demo_pq_loaded, of "[7, 9, 3, 1]" "\<lambda>_. f_zero" "\<lambda>_. FNaN" "[1, 0]"]
  by (simp add: demo_pq_simps)

theorem deflate_vector_nearest_witness:
  "\<not> flt (populate_chunk_distances demo_pq (\<lambda>_. f_zero) (\<lambda>_. FNaN) (256 * 1 + 5))
     (populate_chunk_distances demo_pq (\<lambda>_. f_zero) (\<lambda>_. FNaN) (256 * 1 + unat (deflate_vector demo_pq 2 (\<lambda>_. f_zero) ! 1)))"
proof -
  have c: "center_dist demo_pq (\<lambda>_. f_zero) 1 0 = f_zero"
    by (simp add: center_dist_def demo_pq_simps f_zero_def fsub_def fsq_def fsgn_def Let_def rnd_def rnd_mag_def rhe_def)
  have "\<exists>i < 256. flt (center_dist demo_pq (\<lambda>_. f_zero) 1 i) FLT_MAX"
    by (rule exI [of _ 0], unfold c) (simp add: f_zero_def FLT_MAX_def fsgn_def)
  from deflate_vector_nearest [OF demo_pq_loaded _ this refl]
  have "\<forall>i < 256. \<not> flt (populate_chunk_distances demo_pq (\<lambda>_. f_zero) (\<lambda>_. FNaN) (256 * 1 + i))
     (populate_chunk_distances demo_pq (\<lambda>_. f_zero) (\<lambda>_. FNaN) (256 * 1 + unat (deflate_vector demo_pq 2 (\<lambda>_. f_zero) ! 1)))"
    by (simp add: demo_pq_simps)
  from this [THEN spec [of _ 5]] show ?thesis by simp
qed

theorem compute_pq_dists_correct_witness:
  "\<exists>ds. compute_pq_dists demo_pq [7, 9, 3, 1, 7, 9] 0 [1, 2] = Inr ds \<and> ds ! 1 = f_zero"
proof -
  have "finite_tables demo_pq" unfolding finite_tables_def demo_pq_simps by blast
  moreover have "pq_code [7, 9, 3, 1, 7, 9] 2 0 c = pq_code [7, 9, 3, 1, 7, 9] 2 2 c" if "c < 2" for c
    using that by (auto simp: pq_code_def less_Suc_eq numeral_2_eq_2)
  ultimately show ?thesis
    using compute_pq_dists_correct [OF demo_pq_pairs, of "[1, 2]" 0 "[7, 9, 3, 1, 7, 9]"]
    by (fastforce simp: demo_pq_simps)
qed

end
