(* ===== verification/Ssd_State.thy ===== *)
theory Ssd_State imports PQ_Table Prune Loc_Map Page_Cache begin

text \<open>
  The state of an \<^verbatim>\<open>SSDIndex\<close> (\<^verbatim>\<open>include/ssd_index.h\<close>) the searches and updates share: mapping, page
  cache over the index file, PQ codes and table, tags, lock tables, the pool of query buffers and
  the background tasks.  The query buffers live in one byte memory; a buffer is the addresses of
  its regions (\<^verbatim>\<open>include/query_buf.h\<close>).  Regions that only pass values between two
  calls (the distance table, the distances, the gathered codes) are values, with their allocated sizes
  checked.
\<close>

record query_buf =
  qb_coord :: nat
  qb_sector :: nat
  qb_query :: nat
  qb_update :: nat

record bg_task =
  bt_thread_data :: query_buf
  bt_writes :: "io_req list"
  bt_pages_to_unlock :: "nat list"
  bt_pages_to_deref :: "nat list"

record ssd =
  sx_g :: geom
  sx_aligned_dim :: nat
  sx_lm :: loc_map
  sx_cache :: page_cache
  sx_file :: mem
  sx_mem :: mem
  sx_pool :: "query_buf option cqueue"
  sx_data :: "byte list"
  sx_n_chunks :: nat
  sx_pq :: pq_table
  sx_tags :: "nat \<Rightarrow> nat option"
  sx_medoid :: nat
  sx_page_locks :: "nat lock_table"
  sx_vec_locks :: "nat lock_table"
  sx_page_idx_locks :: "nat lock_table"
  sx_idx_locks :: "nat lock_table"
  sx_use_page_search :: bool
  sx_bg_tasks :: "bg_task option cqueue"
  sx_bg_inflight :: nat
  sx_beam_width :: nat
  sx_l_index :: nat
  sx_cfg :: prune_cfg
  sx_num_points :: nat
  sx_num_frozen :: nat
  sx_frozen_location :: nat

text \<open>What the index is given from outside: the distance object (a virtual method on the bytes of two
  vectors), the value of a vector's elements as floats, the normalisation applied to queries of a
  cosine index (the identity otherwise) and the navigation graph's search.\<close>

record ssd_env =
  en_compare :: "byte list \<Rightarrow> byte list \<Rightarrow> f32"
  en_float :: "byte list \<Rightarrow> farr"
  en_normalize :: "byte list \<Rightarrow> byte list"
  en_mem_search :: "byte list \<Rightarrow> nat \<Rightarrow> nat list"

definition MAX_N_CMPS :: nat where
  "MAX_N_CMPS = 16384"

definition MAX_N_EDGES :: nat where
  "MAX_N_EDGES = 512"

definition MAX_N_SECTOR_READS :: nat where
  "MAX_N_SECTOR_READS = 512"

section \<open>Query buffers\<close>

text \<open>The sizes in bytes \<^verbatim>\<open>init_query_buf\<close> allocates, and the number of vectors the coordinate
  region has room for at \<^verbatim>\<open>aligned_dim * sizeof(T)\<close> bytes each.\<close>

definition coord_alloc_size :: "ssd \<Rightarrow> nat" where
  "coord_alloc_size s = ROUND_UP (MAX_N_CMPS * sx_aligned_dim s) 256"

definition sector_alloc_size :: nat where
  "sector_alloc_size = MAX_N_SECTOR_READS * SECTOR_LEN"

definition pq_coord_alloc_size :: nat where
  "pq_coord_alloc_size = 32768 * 32"

definition pqtable_alloc_floats :: nat where
  "pqtable_alloc_floats = 25600"

definition dist_alloc_floats :: nat where
  "dist_alloc_floats = 512"

definition update_alloc_size :: nat where
  "update_alloc_size = (2 * MAX_N_EDGES + 1) * SECTOR_LEN"

definition vec_stride :: "ssd \<Rightarrow> nat" where
  "vec_stride s = sx_aligned_dim s * sizeof_T (sx_g s)"

definition coord_capacity :: "ssd \<Rightarrow> nat" where
  "coord_capacity s = coord_alloc_size s div vec_stride s"

text \<open>\<^verbatim>\<open>init_query_buf\<close> clears the regions.\<close>

definition init_query_buf :: "query_buf \<Rightarrow> ssd \<Rightarrow> ssd" where
  "init_query_buf qb s = s\<lparr>sx_mem :=
     poke (poke (poke (poke (sx_mem s) (qb_sector qb) (replicate sector_alloc_size 0))
       (qb_coord qb) (replicate (coord_alloc_size s) 0))
       (qb_query qb) (replicate (vec_stride s) 0))
       (qb_update qb) (replicate update_alloc_size 0)\<rparr>"

text \<open>An empty pool blocks the caller.\<close>

definition pop_query_buf :: "ssd_env \<Rightarrow> byte list option \<Rightarrow> ssd \<Rightarrow> (query_buf \<times> ssd) res" where
  "pop_query_buf en query s =
     (case cq_pop (sx_pool s) of
        (None, q) \<Rightarrow> Inl Blocked
      | (Some qb, q) \<Rightarrow>
          Inr (qb, s\<lparr>sx_pool := q,
                 sx_mem := (case query of None \<Rightarrow> sx_mem s
                            | Some v \<Rightarrow> poke (sx_mem s) (qb_query qb) (take (vec_bytes (sx_g s)) (en_normalize en v)))\<rparr>))"

definition push_query_buf :: "query_buf \<Rightarrow> ssd \<Rightarrow> ssd" where
  "push_query_buf qb s = s\<lparr>sx_pool := cq_push (Some qb) (sx_pool s)\<rparr>"

definition query_T :: "ssd \<Rightarrow> query_buf \<Rightarrow> byte list" where
  "query_T s qb = peek (sx_mem s) (qb_query qb) (vec_stride s)"

definition id2tag :: "ssd \<Rightarrow> nat \<Rightarrow> nat" where
  "id2tag s i = (case sx_tags s i of Some t \<Rightarrow> t | None \<Rightarrow> i)"

text \<open>\<^verbatim>\<open>init_buffers\<close> sets up two buffers per thread.\<close>

definition init_buffers :: "query_buf list \<Rightarrow> ssd \<Rightarrow> ssd" where
  "init_buffers bufs s = fold (\<lambda>qb s. push_query_buf qb (init_query_buf qb s)) bufs s"

section \<open>What an index stores\<close>

text \<open>The node of an id, read off the pages as cache and file show them.\<close>

definition page_mem :: "byte list \<Rightarrow> mem" where
  "page_mem b = (\<lambda>x. if x < length b then b ! x else 0)"

definition view_of :: "ssd \<Rightarrow> nat \<Rightarrow> byte list" where
  "view_of s = page_view (sx_cache s) (sx_file s)"

definition loc_coords :: "geom \<Rightarrow> (nat \<Rightarrow> byte list) \<Rightarrow> nat \<Rightarrow> byte list" where
  "loc_coords g w loc = node_coords g (page_mem (w (loc_sector_no g loc))) (offset_to_loc g 0 loc)"

definition loc_nbrs :: "geom \<Rightarrow> (nat \<Rightarrow> byte list) \<Rightarrow> nat \<Rightarrow> nat list" where
  "loc_nbrs g w loc = node_nbrs g (page_mem (w (loc_sector_no g loc))) (offset_to_loc g 0 loc)"

definition node_of :: "geom \<Rightarrow> (nat \<Rightarrow> byte list) \<Rightarrow> loc_map \<Rightarrow> nat \<Rightarrow> (byte list \<times> nat list) option" where
  "node_of g w lm i = map_option (\<lambda>loc. (loc_coords g w loc, loc_nbrs g w loc)) (id2loc_map lm i)"

lemma length_loc_coords [simp]: "length (loc_coords g w loc) = vec_bytes g"
  by (simp add: loc_coords_def node_coords_def)

text \<open>A buffer that holds a page shows the nodes of the page.\<close>

lemma buffer_node:
  assumes "wf_geom g" "length p = SECTOR_LEN" "peek m base SECTOR_LEN = p"
  shows "node_coords g m (offset_to_loc g base loc) = node_coords g (page_mem p) (offset_to_loc g 0 loc)"
    and "get32 m (offset_to_loc g base loc + vec_bytes g) = get32 (page_mem p) (offset_to_loc g 0 loc + vec_bytes g)"
    and "length (node_nbrs g (page_mem p) (offset_to_loc g 0 loc)) \<le> max_nbrs g \<Longrightarrow>
      node_nbrs g m (offset_to_loc g base loc) = node_nbrs g (page_mem p) (offset_to_loc g 0 loc)"
proof -
  let ?o = "offset_to_loc g 0 loc"
  have o: "offset_to_loc g base loc = base + ?o" by (simp add: offset_to_loc_def)
  have fit: "?o + max_node_len g \<le> SECTOR_LEN" using slot_fits [OF assms(1), of 0 loc] by simp
  have "peek m (base + ?o) (max_node_len g) = take (max_node_len g) (drop ?o (peek m base SECTOR_LEN))"
    using peek_sub [OF fit] by simp
  also have "\<dots> = peek (page_mem p) ?o (max_node_len g)"
    unfolding assms(3) using fit assms(2)
    by (auto simp: list_eq_iff_nth_eq peek_nth page_mem_def)
  finally have e: "peek (page_mem p) ?o (max_node_len g) = peek m (base + ?o) (max_node_len g)" by simp
  show "node_coords g m (offset_to_loc g base loc) = node_coords g (page_mem p) ?o"
    "get32 m (offset_to_loc g base loc + vec_bytes g) = get32 (page_mem p) (?o + vec_bytes g)"
    using slot_cong(1,2) [OF e assms(1)] unfolding o by simp_all
  assume "length (node_nbrs g (page_mem p) ?o) \<le> max_nbrs g"
  from slot_cong(3) [OF e assms(1) this]
  show "node_nbrs g m (offset_to_loc g base loc) = node_nbrs g (page_mem p) ?o" unfolding o by simp
qed

text \<open>The code of an id.\<close>

definition code_of :: "ssd \<Rightarrow> nat \<Rightarrow> byte list" where
  "code_of s i = take (sx_n_chunks s) (drop (i * sx_n_chunks s) (sx_data s))"

section \<open>Node records\<close>

text \<open>Coordinates and neighbors; the ones a slot has room for.\<close>

type_synonym node_rec = "byte list \<times> nat list"

definition rec_ok :: "geom \<Rightarrow> node_rec \<Rightarrow> bool" where
  "rec_ok g r \<longleftrightarrow> length (fst r) = vec_bytes g \<and> length (snd r) \<le> max_nbrs g \<and> (\<forall>x \<in> set (snd r). x < 4294967296)"

lemma size_per_io_wf: "wf_geom g \<Longrightarrow> size_per_io g = SECTOR_LEN"
  by (simp add: size_per_io_def wf_geom_def)

lemma open_node_nbrs: "get32s m (dn_nbrs (open_node g m i b)) (dn_nnbrs (open_node g m i b)) = node_nbrs g m b"
  by (simp add: node_nbrs_def open_node_def DiskNode_def Let_def)

lemma open_node_coords: "peek m (dn_coords (open_node g m i b)) (vec_bytes g) = node_coords g m b"
  by (simp add: node_coords_def open_node_def DiskNode_def)

end
