(* ===== verification/Beam_Search.thy ===== *)
theory Beam_Search imports Ssd_State begin

text \<open>
  \<^verbatim>\<open>do_beam_search\<close> and \<^verbatim>\<open>beam_search\<close> of \<^verbatim>\<open>src/search/beam_search.cpp\<close>.  One record holds the local variables of a search; a round
  picks a frontier of unexpanded candidates, reads their nodes under read locks of the mapping,
  expands them into the candidate list and moves on.  The outer loop takes fuel.  Statistics and
  the time limit they can carry are left out (\<^verbatim>\<open>stats\<close> is null).
\<close>

record bsearch =
  b_ret :: "neighbor list"
  b_cur :: nat
  b_vis :: "nat set"
  b_l :: nat
  b_nk :: nat
  b_full :: "neighbor list"
  b_coord :: "nat \<Rightarrow> nat option"
  b_idx :: nat

section \<open>The candidate list\<close>

text \<open>\<^verbatim>\<open>compute_and_add_to_retset\<close>, one id.\<close>

fun bs_add :: "(nat \<times> f32) list \<Rightarrow> bsearch \<Rightarrow> bsearch res" where
  "bs_add [] b = Inr b"
| "bs_add ((i, d) # ids) b =
     (if length (b_ret b) \<le> b_cur b then Inl OutOfRange
      else bs_add ids (b\<lparr>b_ret := (b_ret b)[b_cur b := (b_ret b ! b_cur b)\<lparr>nb_id := i, nb_dist := d, nb_flag := True\<rparr>],
             b_cur := b_cur b + 1, b_vis := insert i (b_vis b)\<rparr>))"

definition retset_resize :: "nat \<Rightarrow> neighbor list \<Rightarrow> neighbor list" where
  "retset_resize n ret = take n ret @ replicate (n - length ret) neighbor_zero"

text \<open>A neighbor with its distance: skipped when it is no better than a full list's last entry, else
  inserted.\<close>

definition bs_place :: "nat \<Rightarrow> f32 \<Rightarrow> bsearch \<Rightarrow> bsearch res" where
  "bs_place i dist b =
     (if b_cur b = 0 \<or> length (b_ret b) < b_cur b then Inl OutOfRange
      else if fge dist (nb_dist (b_ret b ! (b_cur b - 1))) \<and> b_cur b = b_l b then Inr b
      else bindE (InsertIntoPool (b_ret b) (b_cur b) (Neighbor i dist True)) (\<lambda>(r, ret).
        let cur = (if b_cur b < b_l b then b_cur b + 1 else b_cur b);
            ret = (if b_cur b < b_l b \<and> length ret \<le> cur then retset_resize (2 * cur) ret else ret)
        in Inr (b\<lparr>b_ret := ret, b_cur := cur, b_nk := (if r < b_nk b then r else b_nk b)\<rparr>)))"

definition bs_visit :: "nat \<Rightarrow> nat \<times> f32 \<Rightarrow> bsearch \<Rightarrow> bsearch res" where
  "bs_visit limit = (\<lambda>(i, dist) b.
     if limit < i then Inl Crash
     else if i \<in> b_vis b then Inr b
     else bs_place i dist (b\<lparr>b_vis := insert i (b_vis b)\<rparr>))"

text \<open>The frontier: unexpanded candidates from \<^verbatim>\<open>k\<close> on, at most \<^verbatim>\<open>beam_width\<close>.\<close>

fun pick_frontier :: "nat \<Rightarrow> nat list \<Rightarrow> neighbor list \<times> nat list \<times> nat \<Rightarrow> neighbor list \<times> nat list" where
  "pick_frontier beam [] (ret, frontier, num_seen) = (ret, frontier)"
| "pick_frontier beam (marker # ms) (ret, frontier, num_seen) =
     (if \<not> (length frontier < beam \<and> num_seen < beam) then (ret, frontier)
      else if nb_flag (ret ! marker)
      then pick_frontier beam ms (ret[marker := (ret ! marker)\<lparr>nb_flag := False\<rparr>], frontier @ [nb_id (ret ! marker)], num_seen + 1)
      else pick_frontier beam ms (ret, frontier, num_seen))"

text \<open>Variable search list: the position of the \<^verbatim>\<open>want\<close>-th candidate that counts.\<close>

fun dyn_scan :: "(nat \<Rightarrow> bool) \<Rightarrow> nat \<Rightarrow> nat list \<Rightarrow> nat \<Rightarrow> nat \<Rightarrow> nat" where
  "dyn_scan counts want [] tot cur = cur"
| "dyn_scan counts want (i # is) tot cur =
     (if counts i then (if tot + 1 = want then cur else dyn_scan counts want is (tot + 1) (cur + 1))
      else dyn_scan counts want is tot (cur + 1))"

definition bs_dyn :: "bool \<Rightarrow> (nat \<Rightarrow> bool) option \<Rightarrow> nat \<Rightarrow> bsearch \<Rightarrow> bsearch res" where
  "bs_dyn dyn counts original b =
     (if \<not> dyn then Inr b
      else case counts of
        None \<Rightarrow> (if b_cur b = 0 then Inr (b\<lparr>b_l := max original 1\<rparr>) else Inl OutOfRange)
      | Some ok \<Rightarrow> Inr (b\<lparr>b_l := max original (dyn_scan ok original (map nb_id (take (b_cur b) (b_ret b))) 0 0 + 1)\<rparr>))"

section \<open>Reading the frontier\<close>

definition frontier_reqs :: "ssd \<Rightarrow> query_buf \<Rightarrow> (nat \<times> nat) list \<Rightarrow> io_req list" where
  "frontier_reqs s qb il = map (\<lambda>(k, (i, loc)).
     \<lparr>r_offset = u64 (loc_sector_no (sx_g s) loc * SECTOR_LEN), r_len = size_per_io (sx_g s),
      r_buf = qb_sector qb + k * size_per_io (sx_g s), r_u_offset = u_loc_offset (sx_g s) loc,
      r_u_len = max_node_len (sx_g s)\<rparr>) (zip [0..<length il] il)"

text \<open>The result: per frontier node its id, its location and the address of its sector.\<close>

definition read_frontier :: "query_buf \<Rightarrow> nat list \<Rightarrow> nat list \<times> ssd \<Rightarrow>
    ((nat \<times> nat \<times> nat) list \<times> nat list \<times> ssd) res" where
  "read_frontier qb frontier = (\<lambda>(page_ref, s).
     if frontier = [] then Inr ([], page_ref, s)
     else bindE (lock_idx kInvalidID frontier True (sx_idx_locks s)) (\<lambda>(locked, t).
       bindE (mapE (id2loc (sx_lm s)) frontier) (\<lambda>locs.
       let il = zip frontier locs; reqs = frontier_reqs s qb il
       in if sector_alloc_size < length il * size_per_io (sx_g s) then Inl OutOfRange
       else bindE (read_alloc (sx_file s) reqs (sx_cache s, sx_mem s, page_ref)) (\<lambda>(c, m, page_ref).
         bindE (unlock_idx locked t) (\<lambda>t.
           Inr (map (\<lambda>((i, loc), r). (i, loc, r_buf r)) (zip il reqs), page_ref,
                s\<lparr>sx_cache := c, sx_mem := m, sx_idx_locks := t\<rparr>))))))"

text \<open>The copy of a node's coordinates into the buffer; \<^verbatim>\<open>compare\<close> reads \<^verbatim>\<open>aligned_dim\<close> elements of it.\<close>

definition copy_coords :: "query_buf \<Rightarrow> nat \<Rightarrow> nat \<Rightarrow> ssd \<Rightarrow> (nat \<times> ssd) res" where
  "copy_coords qb node_disk_buf idx s =
     (let a = qb_coord qb + idx * vec_stride s
      in if coord_alloc_size s < idx * vec_stride s + vec_stride s then Inl OutOfRange
         else Inr (a, s\<lparr>sx_mem := poke (sx_mem s) a (node_coords (sx_g s) (sx_mem s) node_disk_buf)\<rparr>))"

definition node_pq_dists :: "farr \<Rightarrow> nat list \<Rightarrow> ssd \<Rightarrow> f32 list res" where
  "node_pq_dists pq_dists ids s =
     (if dist_alloc_floats < length ids \<or> pq_coord_alloc_size < length ids * sx_n_chunks s then Inl OutOfRange
      else compute_dists (sx_data s) (sx_n_chunks s) pq_dists ids)"

section \<open>Expanding a node\<close>

definition bs_expand :: "ssd_env \<Rightarrow> query_buf \<Rightarrow> farr \<Rightarrow> bool \<Rightarrow> bool \<Rightarrow> (nat \<Rightarrow> bool) option \<Rightarrow> nat \<Rightarrow>
    nat \<times> nat \<times> nat \<Rightarrow> bsearch \<times> ssd \<Rightarrow> (bsearch \<times> ssd) res" where
  "bs_expand en qb pq_dists use_coord dyn counts original = (\<lambda>(i, loc, sector_buf) (b, s).
     let g = sx_g s; node_disk_buf = offset_to_loc g sector_buf loc;
         node = open_node g (sx_mem s) i node_disk_buf
     in bindE (copy_coords qb node_disk_buf (b_idx b) s) (\<lambda>(a, s).
     let d = en_compare en (query_T s qb) (peek (sx_mem s) a (vec_stride s));
         b = b\<lparr>b_idx := b_idx b + 1,
               b_coord := (if use_coord \<and> b_coord b i = None then (b_coord b)(i \<mapsto> a) else b_coord b),
               b_full := b_full b @ [Neighbor i d True]\<rparr>;
         nbrs = get32s (sx_mem s) (dn_nbrs node) (dn_nnbrs node)
     in bindE (node_pq_dists pq_dists nbrs s) (\<lambda>dists.
     bindE (foldE (bs_visit (cur_id (sx_lm s))) (zip nbrs dists) b) (\<lambda>b.
     bindE (bs_dyn dyn counts original b) (\<lambda>b. Inr (b, s))))))"

definition bs_round :: "ssd_env \<Rightarrow> query_buf \<Rightarrow> farr \<Rightarrow> nat \<Rightarrow> bool \<Rightarrow> bool \<Rightarrow> (nat \<Rightarrow> bool) option \<Rightarrow> nat \<Rightarrow>
    nat \<times> bsearch \<times> nat list \<times> ssd \<Rightarrow> (nat \<times> bsearch \<times> nat list \<times> ssd) res" where
  "bs_round en qb pq_dists beam use_coord dyn counts original = (\<lambda>(k, b, page_ref, s).
     let (ret, frontier) = pick_frontier beam [k..<b_cur b] (b_ret b, [], 0);
         b = b\<lparr>b_ret := ret, b_nk := b_cur b\<rparr>
     in bindE (read_frontier qb frontier (page_ref, s)) (\<lambda>(nodes, page_ref, s).
     bindE (foldE (bs_expand en qb pq_dists use_coord dyn counts original) nodes (b, s)) (\<lambda>(b, s).
       Inr (if b_nk b \<le> k then b_nk b else k + 1, b, page_ref, s))))"

fun bs_loop :: "ssd_env \<Rightarrow> query_buf \<Rightarrow> farr \<Rightarrow> nat \<Rightarrow> bool \<Rightarrow> bool \<Rightarrow> (nat \<Rightarrow> bool) option \<Rightarrow> nat \<Rightarrow> nat \<Rightarrow>
    nat \<times> bsearch \<times> nat list \<times> ssd \<Rightarrow> (bsearch \<times> nat list \<times> ssd) res" where
  "bs_loop en qb pq_dists beam use_coord dyn counts original fuel (k, b, page_ref, s) =
     (if \<not> k < b_cur b then Inr (b, page_ref, s)
      else case fuel of 0 \<Rightarrow> Inl OutOfFuel
      | Suc fuel \<Rightarrow> bindE (bs_round en qb pq_dists beam use_coord dyn counts original (k, b, page_ref, s))
          (bs_loop en qb pq_dists beam use_coord dyn counts original fuel))"

declare bs_loop.simps [simp del]

section \<open>The search\<close>

text \<open>The entry points: the first results of the navigation graph, or the medoid.\<close>

definition start_ids :: "ssd_env \<Rightarrow> byte list \<Rightarrow> nat \<Rightarrow> nat \<Rightarrow> ssd \<Rightarrow> nat list" where
  "start_ids en query mem_L l_search s =
     (if mem_L \<noteq> 0 then take (min mem_L l_search) (en_mem_search en query mem_L) else [sx_medoid s])"

definition bs_start :: "ssd_env \<Rightarrow> farr \<Rightarrow> byte list \<Rightarrow> nat \<Rightarrow> nat \<Rightarrow> ssd \<Rightarrow> bsearch res" where
  "bs_start en pq_dists query mem_L l_search s =
     (let b = \<lparr>b_ret = replicate (mem_L + 10 * l_search) neighbor_zero, b_cur = 0, b_vis = {}, b_l = l_search, b_nk = 0,
               b_full = [], b_coord = Map.empty, b_idx = 0\<rparr>;
          ids = start_ids en query mem_L l_search s
      in bindE (node_pq_dists pq_dists ids s) (\<lambda>dists.
         bindE (bs_add (zip ids dists) b) (\<lambda>b.
           Inr (b\<lparr>b_ret := sort_lt nb_lt (take (b_cur b) (b_ret b)) @ drop (b_cur b) (b_ret b)\<rparr>))))"

text \<open>\<^verbatim>\<open>passthrough\<close> is the caller's page list, if it gave one; the candidates come back expanded, with
  the addresses of the coordinates, and the page list.\<close>

definition do_beam_search :: "ssd_env \<Rightarrow> nat \<Rightarrow> byte list \<Rightarrow> nat \<Rightarrow> nat \<Rightarrow> nat \<Rightarrow> bool \<Rightarrow> (nat \<Rightarrow> bool) option \<Rightarrow> bool \<Rightarrow>
    nat list option \<Rightarrow> ssd \<Rightarrow> (neighbor list \<times> (nat \<Rightarrow> nat option) \<times> nat list \<times> ssd) res" where
  "do_beam_search en fuel query1 mem_L l_search beam use_coord exclude dyn passthrough s =
     bindE (pop_query_buf en (Some query1) s) (\<lambda>(qb, s).
     if pqtable_alloc_floats < 256 * sx_n_chunks s then Inl OutOfRange
     else let query = query_T s qb;
         pq_dists = populate_chunk_distances (sx_pq s) (en_float en query) (\<lambda>_. f_zero)
     in bindE (bs_start en pq_dists query mem_L l_search s) (\<lambda>b.
     bindE (bs_loop en qb pq_dists beam use_coord dyn (map_option (\<lambda>ex i. \<not> ex (id2tag s i)) exclude) l_search fuel
              (0, b, (case passthrough of Some refs \<Rightarrow> refs | None \<Rightarrow> []), s)) (\<lambda>(b, page_ref, s).
       let s = (case passthrough of None \<Rightarrow> s\<lparr>sx_cache := deref_pages page_ref (sx_cache s)\<rparr> | Some _ \<Rightarrow> s)
       in Inr (sort_lt nb_lt (b_full b), b_coord b, page_ref, push_query_buf qb s))))"

text \<open>\<^verbatim>\<open>beam_search\<close>: the tags and distances of the first results.\<close>

definition beam_search :: "ssd_env \<Rightarrow> nat \<Rightarrow> byte list \<Rightarrow> nat \<Rightarrow> nat \<Rightarrow> nat \<Rightarrow> nat \<Rightarrow> (nat \<Rightarrow> bool) option \<Rightarrow> bool \<Rightarrow>
    ssd \<Rightarrow> ((nat \<times> f32) list \<times> ssd) res" where
  "beam_search en fuel query k_search mem_L l_search beam deleted dyn s =
     bindE (do_beam_search en fuel query mem_L (u32 l_search) (u32 beam) False deleted dyn None s) (\<lambda>(expanded, _, _, s).
       Inr (map (\<lambda>n. (id2tag s (nb_id n), nb_dist n)) (take (min l_search k_search) expanded), s))"

end
