(* ===== verification/Beam_Props.thy ===== *)
theory Beam_Props imports Beam_Search PQ_Props begin

text \<open>
  Why a beam search is right: the candidate list stays sorted, free of duplicates and annotated
  with the candidates' distances, every candidate is a live node reachable from the entry
  points, expanding a node reads it as cache and file show it, and the number of unvisited nodes
  and unexpanded candidates bounds the rounds.
\<close>

section \<open>The candidate list\<close>

definition cands :: "bsearch \<Rightarrow> neighbor list" where
  "cands b = take (b_cur b) (b_ret b)"

text \<open>\<^verbatim>\<open>ex\<close> are the ids expanded or about to be.\<close>

definition blist :: "(nat \<Rightarrow> bool) \<Rightarrow> (nat \<Rightarrow> f32) \<Rightarrow> nat set \<Rightarrow> bsearch \<Rightarrow> bool" where
  "blist live pd ex b \<longleftrightarrow> pool_ok (b_ret b) (b_cur b) \<and> distinct (map nb_id (cands b)) \<and>
     nb_id ` set (cands b) \<subseteq> b_vis b \<and> ex \<subseteq> b_vis b \<and> (\<forall>i \<in> b_vis b. live i) \<and>
     (\<forall>n \<in> set (cands b). nb_dist n = pd (nb_id n) \<and> (nb_flag n \<longleftrightarrow> nb_id n \<notin> ex))"

definition unvisited :: "nat \<Rightarrow> bsearch \<Rightarrow> nat" where
  "unvisited N b = card ({..<N} - b_vis b)"

definition n_flagged :: "bsearch \<Rightarrow> nat" where
  "n_flagged b = length (filter nb_flag (cands b))"

text \<open>While no more than \<^verbatim>\<open>L\<close> ids are visited, every one of them is still a candidate.\<close>

definition bcomp :: "nat \<Rightarrow> bsearch \<Rightarrow> bool" where
  "bcomp L b \<longleftrightarrow> finite (b_vis b) \<and> L \<le> b_l b \<and> (card (b_vis b) \<le> L \<longrightarrow> b_vis b \<subseteq> nb_id ` set (cands b))"

lemma blistD:
  assumes "blist live pd ex b"
  shows "pool_ok (b_ret b) (b_cur b)" "distinct (map nb_id (cands b))" "nb_id ` set (cands b) \<subseteq> b_vis b"
    "ex \<subseteq> b_vis b" "i \<in> b_vis b \<Longrightarrow> live i"
    "n \<in> set (cands b) \<Longrightarrow> nb_dist n = pd (nb_id n)" "n \<in> set (cands b) \<Longrightarrow> nb_flag n \<longleftrightarrow> nb_id n \<notin> ex"
  using assms unfolding blist_def by auto

lemma length_cands: "pool_ok (b_ret b) (b_cur b) \<Longrightarrow> length (cands b) = b_cur b"
  by (auto simp: cands_def pool_ok_def)

lemma unvisited_insert: "i < N \<Longrightarrow> i \<notin> b_vis b \<Longrightarrow> unvisited N b = Suc (unvisited N (b\<lparr>b_vis := insert i (b_vis b)\<rparr>))"
proof -
  assume i: "i < N" "i \<notin> b_vis b"
  let ?B = "{..<N} - insert i (b_vis b)"
  have e: "{..<N} - b_vis b = insert i ?B" using i by auto
  have "card (insert i ?B) = Suc (card ?B)" by simp
  then show ?thesis unfolding unvisited_def e by simp
qed

lemma retset_resize_take: "n \<le> length ret \<Longrightarrow> length ret \<le> m \<Longrightarrow> take n (retset_resize m ret) = take n ret"
  by (simp add: retset_resize_def)

lemma n_flagged_size: "n_flagged b = size (filter_mset nb_flag (mset (cands b)))"
  unfolding n_flagged_def by (metis mset_filter size_mset)

text \<open>Placing a fresh live id.\<close>

lemma bs_place_spec:
  assumes "blist live pd ex b" "i \<in> b_vis b" "i \<notin> nb_id ` set (cands b)" "i \<notin> ex" "fnum (pd i)" "b_nk b \<le> b_cur b"
  shows "\<exists>b'. bs_place i (pd i) b = Inr b' \<and> blist live pd ex b' \<and>
    b_full b' = b_full b \<and> b_coord b' = b_coord b \<and> b_idx b' = b_idx b \<and> b_l b' = b_l b \<and> b_vis b' = b_vis b \<and>
    n_flagged b' \<le> Suc (n_flagged b) \<and> b_cur b \<le> b_cur b' \<and> b_cur b' \<le> Suc (b_cur b) \<and>
    b_nk b' \<le> b_nk b \<and> take (b_nk b') (b_ret b') = take (b_nk b') (b_ret b) \<and>
    (b_cur b < b_l b \<longrightarrow> nb_id ` set (cands b') = insert i (nb_id ` set (cands b)))"
proof -
  note bl = blistD [OF assms(1)]
  let ?K = "b_cur b" and ?nn = "Neighbor i (pd i) True"
  have nn: "nb_id ?nn = i" "nb_dist ?nn = pd i" "nb_flag ?nn" by (simp_all add: Neighbor_def)
  have K: "0 < ?K" "?K < length (b_ret b)" using pool_okD [OF bl(1)] by auto
  have n1: "\<not> (?K = 0 \<or> length (b_ret b) < ?K)" using K by simp
  show ?thesis
  proof (cases "fge (pd i) (nb_dist (b_ret b ! (?K - 1))) \<and> ?K = b_l b")
    case True
    have "bs_place i (pd i) b = Inr b" unfolding bs_place_def if_not_P [OF n1] if_P [OF True] by (rule refl)
    with assms(1) True show ?thesis by simp
  next
    case False
    have num: "nb_num ?nn" using nn assms(5) by simp
    from InsertIntoPool_spec [OF bl(1) num] obtain r ret where
      r: "InsertIntoPool (b_ret b) ?K ?nn = Inr (r, ret)"
        "if r = ?K + 1 then ret = b_ret b \<and> (\<exists>n \<in> set (take ?K (b_ret b)). nb_id n = nb_id ?nn)
         else pool_put (b_ret b) ?K ?nn r ret \<and>
           (\<forall>n \<in> set (take ?K (b_ret b)). feq (nb_dist n) (nb_dist ?nn) \<longrightarrow> nb_id n \<noteq> nb_id ?nn)" by blast
    have "r \<noteq> ?K + 1" using r(2) assms(3) nn by (auto simp: cands_def)
    with r(2) have put: "r \<le> ?K" "length ret = length (b_ret b)" "pool_ok ret ?K" "pool_sorted (take (?K + 1) ret)"
      "take (?K + 1) ret = take r (b_ret b) @ ?nn # drop r (cands b)" by (auto simp: pool_put_def cands_def)
    define grow where "grow = (?K < b_l b)"
    define cur where "cur = (if grow then ?K + 1 else ?K)"
    define ret1 where "ret1 = (if grow \<and> length ret \<le> cur then retset_resize (2 * cur) ret else ret)"
    define b' where "b' = b\<lparr>b_ret := ret1, b_cur := cur, b_nk := (if r < b_nk b then r else b_nk b)\<rparr>"
    have run: "bs_place i (pd i) b = Inr b'"
      unfolding bs_place_def if_not_P [OF n1] if_not_P [OF False]
      by (simp add: r(1) b'_def ret1_def cur_def grow_def Let_def)
    have t1: "take n ret1 = take n ret" if "n \<le> length ret" for n
      using that by (auto simp: ret1_def retset_resize_take)
    have l1: "cur < length ret1"
      using K put(2) by (auto simp: ret1_def cur_def retset_resize_def)
    have tk: "take (?K + 1) ret = take r (cands b) @ ?nn # drop r (cands b)"
      using put(1,5) by (simp add: cands_def min_def)
    have cs: "cands b' = take cur (take (?K + 1) ret)"
      unfolding cands_def b'_def using K put(2) t1 [of cur] by (simp add: cur_def min_def)
    have ms: "mset (take (?K + 1) ret) = add_mset ?nn (mset (cands b))"
    proof -
      have "mset (take r (cands b)) + mset (drop r (cands b)) = mset (cands b)" by (metis append_take_drop_id mset_append)
      then show ?thesis unfolding tk by simp
    qed
    have sub: "mset (cands b') \<subseteq># add_mset ?nn (mset (cands b))"
      unfolding cs ms [symmetric] by (metis append_take_drop_id mset_append mset_subset_eq_add_left)
    have sset: "set (cands b') \<subseteq> insert ?nn (set (cands b))" using set_mset_mono [OF sub] by simp
    have ok: "pool_ok ret1 cur"
      unfolding pool_ok_def
    proof (intro conjI)
      show "0 < cur" using K by (simp add: cur_def)
      show "cur < length ret1" by (rule l1)
      have "take cur ret1 = take cur (take (?K + 1) ret)" using cs by (simp add: cands_def b'_def)
      then show "pool_sorted (take cur ret1)" using put(4) unfolding pool_sorted_def by (simp only: sorted_wrt_take)
      have "\<forall>n \<in> set (cands b'). nb_num n" using sset assms(5) nn bl(1) unfolding pool_ok_def cands_def by auto
      then show "\<forall>n \<in> set (take cur ret1). nb_num n" by (simp add: cands_def b'_def)
    qed
    have dist: "distinct (map nb_id (cands b'))"
    proof -
      have "mset (map nb_id (take (?K + 1) ret)) = mset (i # map nb_id (cands b))" using ms nn by simp
      then have "distinct (map nb_id (take (?K + 1) ret)) = distinct (i # map nb_id (cands b))"
        by (rule mset_eq_imp_distinct_iff)
      then have "distinct (map nb_id (take (?K + 1) ret))" using bl(2) assms(3) by simp
      then show ?thesis unfolding cs by (metis distinct_take take_map)
    qed
    have "blist live pd ex b'"
      unfolding blist_def
    proof (intro conjI)
      show "pool_ok (b_ret b') (b_cur b')" using ok by (simp add: b'_def)
      show "distinct (map nb_id (cands b'))" by (rule dist)
      have vis: "b_vis b' = b_vis b" by (simp add: b'_def)
      show "nb_id ` set (cands b') \<subseteq> b_vis b'" unfolding vis
      proof (rule image_subsetI)
        fix n assume "n \<in> set (cands b')"
        with sset consider "n = ?nn" | "n \<in> set (cands b)" by auto
        then show "nb_id n \<in> b_vis b" using bl(3) assms(2) nn(1) by cases auto
      qed
      show "ex \<subseteq> b_vis b'" using bl(4) by (simp add: b'_def)
      show "\<forall>i \<in> b_vis b'. live i" using bl(5) by (simp add: b'_def)
      show "\<forall>n \<in> set (cands b'). nb_dist n = pd (nb_id n) \<and> nb_flag n = (nb_id n \<notin> ex)"
      proof
        fix n assume "n \<in> set (cands b')"
        with sset consider "n = ?nn" | "n \<in> set (cands b)" by auto
        then show "nb_dist n = pd (nb_id n) \<and> nb_flag n = (nb_id n \<notin> ex)"
        proof cases
          case 1
          then show ?thesis using nn assms(4) by simp
        next
          case 2
          then show ?thesis using bl(6) [OF 2] bl(7) [OF 2] by simp
        qed
      qed
    qed
    moreover have "n_flagged b' \<le> Suc (n_flagged b)"
    proof -
      have "size (filter_mset nb_flag (mset (cands b'))) \<le> size (filter_mset nb_flag (add_mset ?nn (mset (cands b))))"
        by (intro size_mset_mono multiset_filter_mono) (rule sub)
      then show ?thesis using nn by (simp add: n_flagged_size)
    qed
    moreover have "take (b_nk b') (b_ret b') = take (b_nk b') (b_ret b)"
    proof -
      have n: "b_nk b' \<le> r" "b_nk b' \<le> ?K" using put(1) assms(6) by (auto simp: b'_def)
      have "take (b_nk b') ret1 = take (b_nk b') (take (?K + 1) ret)"
        using t1 [of "b_nk b'"] n K put(2) by (simp add: min_def)
      also have "\<dots> = take (b_nk b') (b_ret b)" unfolding put(5) using n K put(1) by (simp add: min_def)
      finally show ?thesis by (simp add: b'_def)
    qed
    moreover have "nb_id ` set (cands b') = insert i (nb_id ` set (cands b))" if lt: "b_cur b < b_l b"
    proof -
      have "cur = ?K + 1" using lt by (simp add: cur_def grow_def)
      then have "mset (cands b') = add_mset ?nn (mset (cands b))" unfolding cs using ms by simp
      then have "set (cands b') = insert ?nn (set (cands b))" by (metis set_mset_add_mset_insert set_mset_mset)
      then show ?thesis using nn(1) by simp
    qed
    moreover have "b_full b' = b_full b" "b_coord b' = b_coord b" "b_idx b' = b_idx b" "b_l b' = b_l b"
      "b_vis b' = b_vis b" "b_cur b \<le> b_cur b'" "b_cur b' \<le> Suc (b_cur b)" "b_nk b' \<le> b_nk b"
      by (simp_all add: b'_def cur_def)
    ultimately show ?thesis using run by (intro exI [of _ b'] conjI impI)
  qed
qed


lemma bs_visit_spec:
  assumes "blist live pd ex b" "live i" "i < N" "i \<le> limit" "fnum (pd i)" "b_nk b \<le> b_cur b"
  shows "\<exists>b'. bs_visit limit (i, pd i) b = Inr b' \<and> blist live pd ex b' \<and>
    b_full b' = b_full b \<and> b_coord b' = b_coord b \<and> b_idx b' = b_idx b \<and> b_l b' = b_l b \<and>
    unvisited N b' + n_flagged b' \<le> unvisited N b + n_flagged b \<and> unvisited N b' + b_cur b' \<le> unvisited N b + b_cur b \<and>
    b_cur b \<le> b_cur b' \<and> b_nk b' \<le> b_nk b \<and> take (b_nk b') (b_ret b') = take (b_nk b') (b_ret b) \<and>
    b_vis b' = insert i (b_vis b) \<and> (bcomp L b \<longrightarrow> bcomp L b')"
proof (cases "i \<in> b_vis b")
  case True
  then show ?thesis using assms by (simp add: bs_visit_def insert_absorb)
next
  case False
  let ?b = "b\<lparr>b_vis := insert i (b_vis b)\<rparr>"
  have c: "cands ?b = cands b" by (simp add: cands_def)
  have i: "i \<notin> nb_id ` set (cands b)" "i \<notin> ex" using False blistD(3,4) [OF assms(1)] by blast+
  have "blist live pd ex ?b" using assms(1,2) unfolding blist_def c by auto
  from bs_place_spec [OF this _ _ i(2) assms(5)] i(1) assms(6) c obtain b' where
    b': "bs_place i (pd i) ?b = Inr b'" "blist live pd ex b'" "b_full b' = b_full b" "b_coord b' = b_coord b"
      "b_idx b' = b_idx b" "b_l b' = b_l b" "b_vis b' = insert i (b_vis b)" "n_flagged b' \<le> Suc (n_flagged ?b)"
      "b_cur b \<le> b_cur b'" "b_cur b' \<le> Suc (b_cur b)" "b_nk b' \<le> b_nk b"
      "take (b_nk b') (b_ret b') = take (b_nk b') (b_ret b)"
      "b_cur b < b_l b \<longrightarrow> nb_id ` set (cands b') = insert i (nb_id ` set (cands b))" by auto
  have u: "unvisited N b = Suc (unvisited N b')"
    using unvisited_insert [OF assms(3) False] b'(7) by (simp add: unvisited_def)
  have bc: "bcomp L b'" if "bcomp L b"
    unfolding bcomp_def b'(6,7)
  proof (intro conjI impI)
    show "finite (insert i (b_vis b))" "L \<le> b_l b" using that by (simp_all add: bcomp_def)
    assume "card (insert i (b_vis b)) \<le> L"
    with that False have "card (b_vis b) < L" by (simp add: bcomp_def)
    with that blistD(3) [OF assms(1)] have e: "b_vis b = nb_id ` set (cands b)" by (auto simp: bcomp_def)
    have "card (nb_id ` set (cands b)) = b_cur b"
      using distinct_card [OF blistD(2) [OF assms(1)]] length_cands [OF blistD(1) [OF assms(1)]] by simp
    with e \<open>card (b_vis b) < L\<close> that have "b_cur b < b_l b" by (simp add: bcomp_def)
    with b'(13) e show "insert i (b_vis b) \<subseteq> nb_id ` set (cands b')" by simp
  qed
  have "bs_visit limit (i, pd i) b = Inr b'" using assms(4) False b'(1) by (simp add: bs_visit_def)
  moreover have "n_flagged ?b = n_flagged b" by (simp add: n_flagged_def c)
  ultimately show ?thesis using b' u bc by (intro exI [of _ b']) simp
qed

lemma bs_visits_spec:
  assumes "blist live pd ex b" "\<forall>i \<in> set ids. live i \<and> i < N \<and> i \<le> limit \<and> fnum (pd i)" "b_nk b \<le> b_cur b"
  shows "\<exists>b'. foldE (bs_visit limit) (zip ids (map pd ids)) b = Inr b' \<and> blist live pd ex b' \<and>
    b_full b' = b_full b \<and> b_coord b' = b_coord b \<and> b_idx b' = b_idx b \<and> b_l b' = b_l b \<and>
    unvisited N b' + n_flagged b' \<le> unvisited N b + n_flagged b \<and> unvisited N b' + b_cur b' \<le> unvisited N b + b_cur b \<and>
    b_cur b \<le> b_cur b' \<and> b_nk b' \<le> b_nk b \<and> take (b_nk b') (b_ret b') = take (b_nk b') (b_ret b) \<and>
    b_vis b' = b_vis b \<union> set ids \<and> (bcomp L b \<longrightarrow> bcomp L b')"
  using assms
proof (induction ids arbitrary: b)
  case (Cons i ids)
  from Cons.prems(2) have i: "live i" "i < N" "i \<le> limit" "fnum (pd i)" by auto
  from bs_visit_spec [OF Cons.prems(1) i Cons.prems(3), of L] obtain b1 where
    b1: "bs_visit limit (i, pd i) b = Inr b1" "blist live pd ex b1" "b_full b1 = b_full b" "b_coord b1 = b_coord b"
      "b_idx b1 = b_idx b" "b_l b1 = b_l b" "unvisited N b1 + n_flagged b1 \<le> unvisited N b + n_flagged b"
      "unvisited N b1 + b_cur b1 \<le> unvisited N b + b_cur b" "b_cur b \<le> b_cur b1" "b_nk b1 \<le> b_nk b"
      "take (b_nk b1) (b_ret b1) = take (b_nk b1) (b_ret b)" "b_vis b1 = insert i (b_vis b)"
      "bcomp L b \<longrightarrow> bcomp L b1" by blast
  have n1: "b_nk b1 \<le> b_cur b1" using b1(9,10) Cons.prems(3) by linarith
  from Cons.IH [OF b1(2) _ n1] Cons.prems(2) obtain b' where
    b': "foldE (bs_visit limit) (zip ids (map pd ids)) b1 = Inr b'" "blist live pd ex b'" "b_full b' = b_full b1"
      "b_coord b' = b_coord b1" "b_idx b' = b_idx b1" "b_l b' = b_l b1"
      "unvisited N b' + n_flagged b' \<le> unvisited N b1 + n_flagged b1"
      "unvisited N b' + b_cur b' \<le> unvisited N b1 + b_cur b1" "b_cur b1 \<le> b_cur b'" "b_nk b' \<le> b_nk b1"
      "take (b_nk b') (b_ret b') = take (b_nk b') (b_ret b1)" "b_vis b' = b_vis b1 \<union> set ids"
      "bcomp L b1 \<longrightarrow> bcomp L b'" by auto
  have "take (b_nk b') (b_ret b') = take (b_nk b') (b_ret b)"
    using b'(10,11) b1(11) by (metis min.absorb1 take_take)
  with b1 b' show ?case by (intro exI [of _ b']) simp
qed simp

section \<open>The frontier\<close>

lemma pick_frontier_spec:
  assumes "distinct ms" "\<forall>m \<in> set ms. m < length ret" "pick_frontier beam ms (ret, fr, length fr) = (ret', fr')"
  shows "\<exists>ps. distinct ps \<and> set ps \<subseteq> set ms \<and> (\<forall>m \<in> set ps. nb_flag (ret ! m)) \<and>
    fr' = fr @ map (\<lambda>m. nb_id (ret ! m)) ps \<and>
    ret' = map (\<lambda>m. if m \<in> set ps then (ret ! m)\<lparr>nb_flag := False\<rparr> else ret ! m) [0..<length ret] \<and>
    length fr' \<le> max (length fr) beam \<and>
    (ms \<noteq> [] \<and> length fr < beam \<longrightarrow> \<not> nb_flag (ret' ! hd ms))"
  using assms
proof (induction ms arbitrary: ret fr)
  case Nil
  then show ?case by (intro exI [of _ "[]"]) (auto simp: map_nth)
next
  case (Cons m ms)
  have m: "m < length ret" "m \<notin> set ms" "distinct ms" using Cons.prems by auto
  show ?case
  proof (cases "length fr < beam")
    case False
    then show ?thesis using Cons.prems(3) by (intro exI [of _ "[]"]) (auto simp: map_nth)
  next
    case lt: True
    show ?thesis
    proof (cases "nb_flag (ret ! m)")
      case True
      let ?r1 = "ret[m := (ret ! m)\<lparr>nb_flag := False\<rparr>]"
      let ?f1 = "fr @ [nb_id (ret ! m)]"
      have p1: "pick_frontier beam ms (?r1, ?f1, length ?f1) = (ret', fr')" using Cons.prems(3) lt True by simp
      have "\<forall>m \<in> set ms. m < length ?r1" using Cons.prems(2) by simp
      from Cons.IH [OF m(3) this p1] obtain ps where
        ps: "distinct ps" "set ps \<subseteq> set ms" "\<forall>m \<in> set ps. nb_flag (?r1 ! m)" "fr' = ?f1 @ map (\<lambda>m. nb_id (?r1 ! m)) ps"
          "ret' = map (\<lambda>m. if m \<in> set ps then (?r1 ! m)\<lparr>nb_flag := False\<rparr> else ?r1 ! m) [0..<length ?r1]"
          "length fr' \<le> max (length ?f1) beam" by blast
      have mp: "m \<notin> set ps" using ps(2) m(2) by blast
      have same: "?r1 ! j = ret ! j" if "j \<in> set ps" for j using that mp by (metis nth_list_update_neq)
      have "ret' = map (\<lambda>j. if j \<in> set (m # ps) then (ret ! j)\<lparr>nb_flag := False\<rparr> else ret ! j) [0..<length ret]"
        unfolding ps(5) using mp m(1) same by (auto simp: nth_list_update)
      moreover have "\<not> nb_flag (ret' ! m)" unfolding ps(5) using m(1) mp by simp
      moreover have "map (\<lambda>m. nb_id (?r1 ! m)) ps = map (\<lambda>m. nb_id (ret ! m)) ps" using same by simp
      ultimately show ?thesis using ps True mp lt same
        by (intro exI [of _ "m # ps"]) (auto simp del: nth_list_update)
    next
      case False
      have p1: "pick_frontier beam ms (ret, fr, length fr) = (ret', fr')" using Cons.prems(3) lt False by simp
      have "\<forall>m \<in> set ms. m < length ret" using Cons.prems(2) by simp
      from Cons.IH [OF m(3) this p1] obtain ps where
        ps: "distinct ps" "set ps \<subseteq> set ms" "\<forall>m \<in> set ps. nb_flag (ret ! m)" "fr' = fr @ map (\<lambda>m. nb_id (ret ! m)) ps"
          "ret' = map (\<lambda>m. if m \<in> set ps then (ret ! m)\<lparr>nb_flag := False\<rparr> else ret ! m) [0..<length ret]"
          "length fr' \<le> max (length fr) beam" by blast
      have mp: "m \<notin> set ps" using ps(2) m(2) by blast
      then have "\<not> nb_flag (ret' ! m)" unfolding ps(5) using m(1) False by simp
      with ps show ?thesis by (intro exI [of _ ps]) auto
    qed
  qed
qed


lemma blist_pick:
  assumes "blist live pd ex b" "pick_frontier beam [k..<b_cur b] (b_ret b, [], 0) = (ret, fr)"
    and "b' = b\<lparr>b_ret := ret, b_nk := b_cur b\<rparr>"
  shows "blist live pd (ex \<union> set fr) b'" "distinct fr" "set fr \<inter> ex = {}" "set fr \<subseteq> b_vis b" "length fr \<le> beam"
    "n_flagged b' + length fr = n_flagged b" "\<And>j. j < k \<Longrightarrow> j < b_cur b \<Longrightarrow> ret ! j = b_ret b ! j"
    "k < b_cur b \<Longrightarrow> 0 < beam \<Longrightarrow> \<not> nb_flag (ret ! k)" "length ret = length (b_ret b)"
    "\<And>j. j < b_cur b \<Longrightarrow> \<not> nb_flag (b_ret b ! j) \<Longrightarrow> \<not> nb_flag (ret ! j)"
    "map nb_id (cands b') = map nb_id (cands b)"
proof -
  note bl = blistD [OF assms(1)]
  note K = pool_okD(1,2) [OF bl(1)]
  let ?ms = "[k..<b_cur b]"
  have lt: "\<forall>m \<in> set ?ms. m < length (b_ret b)" using K by auto
  have "pick_frontier beam ?ms (b_ret b, [], length ([] :: nat list)) = (ret, fr)" using assms(2) by simp
  from pick_frontier_spec [OF distinct_upt lt this] obtain ps where
    ps0: "distinct ps" "set ps \<subseteq> set ?ms" "\<forall>m \<in> set ps. nb_flag (b_ret b ! m)" "fr = [] @ map (\<lambda>m. nb_id (b_ret b ! m)) ps"
      "ret = map (\<lambda>m. if m \<in> set ps then (b_ret b ! m)\<lparr>nb_flag := False\<rparr> else b_ret b ! m) [0..<length (b_ret b)]"
      "length fr \<le> max (length ([] :: nat list)) beam"
      "?ms \<noteq> [] \<and> length ([] :: nat list) < beam \<longrightarrow> \<not> nb_flag (ret ! hd ?ms)" by blast
  have "fr = map (\<lambda>m. nb_id (b_ret b ! m)) ps" "length fr \<le> max 0 beam"
    "?ms \<noteq> [] \<and> 0 < beam \<longrightarrow> \<not> nb_flag (ret ! hd ?ms)" using ps0(4,6,7) by simp_all
  note ps = ps0(1-3) this(1) ps0(5) this(2,3)
  have len: "length ret = length (b_ret b)" by (simp add: ps(5))
  then show "length ret = length (b_ret b)" .
  have nth: "ret ! m = (if m \<in> set ps then (b_ret b ! m)\<lparr>nb_flag := False\<rparr> else b_ret b ! m)" if "m < length (b_ret b)" for m
    using that by (simp add: ps(5))
  have psK: "\<forall>m \<in> set ps. k \<le> m \<and> m < b_cur b" using ps(2) by auto
  have cl: "length (cands b) = b_cur b" "length (cands b') = b_cur b"
    using length_cands [OF bl(1)] K len by (simp_all add: cands_def assms(3))
  have cn: "cands b ! m = b_ret b ! m" "cands b' ! m = ret ! m" if "m < b_cur b" for m
    using that by (simp_all add: cands_def assms(3))
  have mem: "b_ret b ! m \<in> set (cands b)" if "m < b_cur b" for m using cn(1) [OF that] cl(1) that by (metis nth_mem)
  show idm: "map nb_id (cands b') = map nb_id (cands b)"
    by (rule nth_equalityI) (use cl cn nth K in auto)
  have dsm: "map nb_dist (cands b') = map nb_dist (cands b)"
    by (rule nth_equalityI) (use cl cn nth K in auto)
  have inj: "b_ret b ! m \<in> set (cands b) \<and> (nb_id (b_ret b ! m) = nb_id (b_ret b ! m') \<longrightarrow> m = m')"
    if "m < b_cur b" "m' < b_cur b" for m m'
    using mem [OF that(1)] bl(2) that cl(1) cn(1) unfolding distinct_conv_nth by (metis length_map nth_map)
  show "distinct fr" unfolding ps(4) distinct_map using ps(1) inj psK by (auto simp: inj_on_def)
  show dx: "set fr \<inter> ex = {}"
    unfolding ps(4) using ps(3) psK mem bl(7) by fastforce
  show sv: "set fr \<subseteq> b_vis b" unfolding ps(4) using psK mem bl(3) by fastforce
  show "length fr \<le> beam" using ps(6) by simp
  show "ret ! j = b_ret b ! j" if "j < k" "j < b_cur b" for j
    using that nth [of j] K psK by fastforce
  show "\<not> nb_flag (ret ! k)" if "k < b_cur b" "0 < beam" using ps(7) that by simp
  show "\<not> nb_flag (ret ! j)" if "j < b_cur b" "\<not> nb_flag (b_ret b ! j)" for j
    using that nth [of j] K by (auto split: if_splits)
  show "n_flagged b' + length fr = n_flagged b"
  proof -
    have f: "n_flagged b = card {m. m < b_cur b \<and> nb_flag (b_ret b ! m)}"
      unfolding n_flagged_def length_filter_conv_card cl using cn(1) by (metis (mono_tags, lifting))
    have f': "n_flagged b' = card {m. m < b_cur b \<and> nb_flag (ret ! m)}"
      unfolding n_flagged_def length_filter_conv_card cl using cn(2) by (metis (mono_tags, lifting))
    have e: "{m. m < b_cur b \<and> nb_flag (b_ret b ! m)} = {m. m < b_cur b \<and> nb_flag (ret ! m)} \<union> set ps"
      using nth K ps(3) psK by (auto split: if_splits)
    have d: "{m. m < b_cur b \<and> nb_flag (ret ! m)} \<inter> set ps = {}" using nth K psK by auto
    have "card (set ps) = length fr" using ps(1,4) by (simp add: distinct_card)
    then show ?thesis unfolding f f' e using d by (simp add: card_Un_disjoint)
  qed
  show "blist live pd (ex \<union> set fr) b'"
    unfolding blist_def
  proof (intro conjI)
    have ds: "sorted_wrt (\<lambda>a b. \<not> flt b a) (map nb_dist (cands b'))"
      unfolding dsm using bl(1) by (simp add: pool_ok_def pool_sorted_def sorted_wrt_map cands_def)
    have nums: "\<forall>n \<in> set (cands b'). nb_num n"
      using bl(1) dsm unfolding pool_ok_def cands_def [symmetric] by (metis (no_types, lifting) image_eqI image_iff list.set_map)
    show "pool_ok (b_ret b') (b_cur b')"
      using ds nums K len by (simp add: pool_ok_def pool_sorted_def sorted_wrt_map cands_def assms(3))
    show "distinct (map nb_id (cands b'))" using bl(2) idm by simp
    have "nb_id ` set (cands b') = nb_id ` set (cands b)" using idm by (metis list.set_map)
    then show "nb_id ` set (cands b') \<subseteq> b_vis b'" using bl(3) by (simp add: assms(3))
    show "ex \<union> set fr \<subseteq> b_vis b'" using bl(4) sv by (simp add: assms(3))
    show "\<forall>i \<in> b_vis b'. live i" using bl(5) by (simp add: assms(3))
    show "\<forall>n \<in> set (cands b'). nb_dist n = pd (nb_id n) \<and> nb_flag n = (nb_id n \<notin> ex \<union> set fr)"
    proof
      fix n assume "n \<in> set (cands b')"
      then obtain m where m: "m < b_cur b" "n = ret ! m" using cl cn by (metis in_set_conv_nth)
      have fr: "nb_id (b_ret b ! m) \<in> set fr \<longleftrightarrow> m \<in> set ps"
        unfolding ps(4) using inj psK m(1) by auto
      show "nb_dist n = pd (nb_id n) \<and> nb_flag n = (nb_id n \<notin> ex \<union> set fr)"
        using bl(6) [OF mem [OF m(1)]] bl(7) [OF mem [OF m(1)]] nth [of m] m K fr dx by auto
    qed
  qed
qed

section \<open>Reading and copying nodes\<close>

definition rdisj :: "nat \<Rightarrow> nat \<Rightarrow> nat \<Rightarrow> nat \<Rightarrow> bool" where
  "rdisj a n b m \<longleftrightarrow> a + n \<le> b \<or> b + m \<le> a"

definition in_region :: "nat \<Rightarrow> nat \<Rightarrow> nat \<Rightarrow> bool" where
  "in_region a n x \<longleftrightarrow> a \<le> x \<and> x < a + n"

text \<open>The regions of a buffer do not overlap, and a vector fits its stride.\<close>

definition bufs_ok :: "ssd \<Rightarrow> query_buf \<Rightarrow> bool" where
  "bufs_ok s qb \<longleftrightarrow> rdisj (qb_coord qb) (coord_alloc_size s) (qb_sector qb) sector_alloc_size \<and>
     rdisj (qb_coord qb) (coord_alloc_size s) (qb_query qb) (vec_stride s) \<and>
     rdisj (qb_sector qb) sector_alloc_size (qb_query qb) (vec_stride s) \<and>
     vec_bytes (sx_g s) \<le> vec_stride s \<and> 0 < vec_stride s"

definition pad_len :: "ssd \<Rightarrow> nat" where
  "pad_len s = vec_stride s - vec_bytes (sx_g s)"

text \<open>The elements past \<^verbatim>\<open>data_dim\<close> of every coordinate slot are zero, as \<^verbatim>\<open>init_query_buf\<close> leaves them.\<close>

definition padded :: "ssd \<Rightarrow> query_buf \<Rightarrow> bool" where
  "padded s qb \<longleftrightarrow> (\<forall>k < coord_capacity s.
     peek (sx_mem s) (qb_coord qb + k * vec_stride s + vec_bytes (sx_g s)) (pad_len s) = replicate (pad_len s) 0)"

definition pad :: "ssd \<Rightarrow> byte list \<Rightarrow> byte list" where
  "pad s c = c @ replicate (pad_len s) 0"

lemma capacity_slot:
  assumes "k < coord_capacity s"
  shows "k * vec_stride s + vec_stride s \<le> coord_alloc_size s"
proof -
  have "(k + 1) * vec_stride s \<le> coord_capacity s * vec_stride s" using assms by (intro mult_le_mono1) simp
  also have "\<dots> \<le> coord_alloc_size s" unfolding coord_capacity_def by (rule div_times_less_eq_dividend)
  finally show ?thesis by simp
qed

lemma copy_coords_spec:
  assumes "bufs_ok s qb" "padded s qb" "idx < coord_capacity s"
    and "m' = poke (sx_mem s) a (node_coords (sx_g s) (sx_mem s) nb)" "a = qb_coord qb + idx * vec_stride s"
  shows "copy_coords qb nb idx s = Inr (a, s\<lparr>sx_mem := m'\<rparr>)"
    and "peek m' a (vec_stride s) = pad s (node_coords (sx_g s) (sx_mem s) nb)"
    and "padded (s\<lparr>sx_mem := m'\<rparr>) qb"
    and "\<And>x. \<not> in_region a (vec_bytes (sx_g s)) x \<Longrightarrow> m' x = sx_mem s x"
proof -
  let ?v = "vec_bytes (sx_g s)"
  have v: "?v \<le> vec_stride s" using assms(1) by (simp add: bufs_ok_def)
  then have vp: "vec_stride s = ?v + pad_len s" by (simp add: pad_len_def)
  have lc: "length (node_coords (sx_g s) (sx_mem s) nb) = ?v" by (simp add: node_coords_def)
  show "copy_coords qb nb idx s = Inr (a, s\<lparr>sx_mem := m'\<rparr>)"
    using capacity_slot [OF assms(3)] by (simp add: copy_coords_def assms(4,5) Let_def)
  show fr: "m' x = sx_mem s x" if "\<not> in_region a ?v x" for x
    using that lc by (auto simp: assms(4) poke_def in_region_def)
  have p: "peek m' (qb_coord qb + k * vec_stride s + ?v) (pad_len s) =
      peek (sx_mem s) (qb_coord qb + k * vec_stride s + ?v) (pad_len s)" for k
  proof (rule peek_cong)
    fix x assume x: "qb_coord qb + k * vec_stride s + ?v \<le> x" "x < qb_coord qb + k * vec_stride s + ?v + pad_len s"
    show "m' x = sx_mem s x"
    proof (rule fr, unfold in_region_def assms(5), rule notI)
      assume y: "qb_coord qb + idx * vec_stride s \<le> x \<and> x < qb_coord qb + idx * vec_stride s + ?v"
      then have "idx \<noteq> k" using x(1) by auto
      then have "Suc idx \<le> k \<or> Suc k \<le> idx" by linarith
      then have "Suc idx * vec_stride s \<le> k * vec_stride s \<or> Suc k * vec_stride s \<le> idx * vec_stride s"
        by (metis mult_le_mono1)
      with x y vp show False by auto
    qed
  qed
  show "padded (s\<lparr>sx_mem := m'\<rparr>) qb"
    using assms(2) p by (simp add: padded_def coord_capacity_def vec_stride_def coord_alloc_size_def pad_len_def)
  have "peek m' a (?v + pad_len s) = peek m' a ?v @ peek m' (a + ?v) (pad_len s)" by (rule peek_append)
  also have "peek m' a ?v = node_coords (sx_g s) (sx_mem s) nb" unfolding assms(4) using lc by (rule peek_poke_same)
  also have "peek m' (a + ?v) (pad_len s) = replicate (pad_len s) 0"
    using p [of idx] assms(2,3,5) by (simp add: padded_def)
  finally show "peek m' a (vec_stride s) = pad s (node_coords (sx_g s) (sx_mem s) nb)"
    unfolding vp [symmetric] by (simp add: pad_def)
qed


section \<open>Expanding a node\<close>

text \<open>An index whose graph is in order: every node fits its slot, its neighbors are nodes, its code
  is in the code vector, and its neighbors' distances fit the scratch space.\<close>

definition graph_ok :: "ssd \<Rightarrow> bool" where
  "graph_ok s \<longleftrightarrow> wf_geom (sx_g s) \<and> (\<forall>i loc. id2loc_map (sx_lm s) i = Some loc \<longrightarrow>
     loc < 4294967296 \<and> i < cur_id (sx_lm s) \<and> i * sx_n_chunks s + sx_n_chunks s \<le> length (sx_data s) \<and>
     length (loc_nbrs (sx_g s) (view_of s) loc) \<le> min (max_nbrs (sx_g s)) dist_alloc_floats \<and>
     length (loc_nbrs (sx_g s) (view_of s) loc) * sx_n_chunks s \<le> pq_coord_alloc_size \<and>
     (\<forall>j \<in> set (loc_nbrs (sx_g s) (view_of s) loc). id2loc_map (sx_lm s) j \<noteq> None))"

lemma graph_okD:
  assumes "graph_ok s" "id2loc_map (sx_lm s) i = Some loc"
  shows "loc < 4294967296" "i < cur_id (sx_lm s)" "i * sx_n_chunks s + sx_n_chunks s \<le> length (sx_data s)"
    "length (loc_nbrs (sx_g s) (view_of s) loc) \<le> max_nbrs (sx_g s)"
    "length (loc_nbrs (sx_g s) (view_of s) loc) \<le> dist_alloc_floats"
    "length (loc_nbrs (sx_g s) (view_of s) loc) * sx_n_chunks s \<le> pq_coord_alloc_size"
    "j \<in> set (loc_nbrs (sx_g s) (view_of s) loc) \<Longrightarrow> id2loc_map (sx_lm s) j \<noteq> None"
  using assms unfolding graph_ok_def by (metis min.boundedE)+

definition edges :: "ssd \<Rightarrow> (nat \<times> nat) set" where
  "edges s = {(i, j). \<exists>loc. id2loc_map (sx_lm s) i = Some loc \<and> j \<in> set (loc_nbrs (sx_g s) (view_of s) loc)}"

text \<open>The nodes reachable from the entry points.\<close>

definition live :: "ssd \<Rightarrow> nat set \<Rightarrow> nat \<Rightarrow> bool" where
  "live s starts i \<longleftrightarrow> id2loc_map (sx_lm s) i \<noteq> None \<and> i \<in> (edges s)\<^sup>* `` starts"

lemma live_nbr:
  assumes "graph_ok s" "live s starts i" "id2loc_map (sx_lm s) i = Some loc" "j \<in> set (loc_nbrs (sx_g s) (view_of s) loc)"
  shows "live s starts j"
proof -
  have "(i, j) \<in> edges s" using assms(3,4) by (auto simp: edges_def)
  then show ?thesis using assms(2) graph_okD(7) [OF assms(1,3,4)] by (auto simp: live_def intro: rtrancl_into_rtrancl)
qed

text \<open>What a running search has done to the index: pages pinned, scratch space written.\<close>

definition srch :: "ssd \<Rightarrow> query_buf \<Rightarrow> nat list \<Rightarrow> ssd \<Rightarrow> bool" where
  "srch s0 qb refs s \<longleftrightarrow> s = s0\<lparr>sx_cache := sx_cache s, sx_mem := sx_mem s\<rparr> \<and> cache_inv (sx_cache s) \<and>
     view_of s = view_of s0 \<and> pins (sx_cache s) = (\<lambda>p. pins (sx_cache s0) p + count_list refs p) \<and>
     (\<forall>x. \<not> in_region (qb_coord qb) (coord_alloc_size s0) x \<and> \<not> in_region (qb_sector qb) sector_alloc_size x \<longrightarrow>
        sx_mem s x = sx_mem s0 x) \<and> padded s qb \<and>
     (\<forall>p \<in> set refs. \<exists>i loc. id2loc_map (sx_lm s0) i = Some loc \<and> p = loc_sector_no (sx_g s0) loc)"

lemma srch_same:
  assumes "srch s0 qb refs s"
  shows "sx_g s = sx_g s0" "sx_lm s = sx_lm s0" "sx_data s = sx_data s0" "sx_n_chunks s = sx_n_chunks s0"
    "sx_file s = sx_file s0" "sx_idx_locks s = sx_idx_locks s0" "vec_stride s = vec_stride s0"
    "coord_alloc_size s = coord_alloc_size s0" "coord_capacity s = coord_capacity s0" "bufs_ok s qb = bufs_ok s0 qb"
    "pad s = pad s0" "view_of s = view_of s0" "pad_len s = pad_len s0"
proof -
  have e: "s = s0\<lparr>sx_cache := sx_cache s, sx_mem := sx_mem s\<rparr>" using assms unfolding srch_def by blast
  show "sx_g s = sx_g s0" "sx_lm s = sx_lm s0" "sx_data s = sx_data s0" "sx_n_chunks s = sx_n_chunks s0"
    "sx_file s = sx_file s0" "sx_idx_locks s = sx_idx_locks s0" "vec_stride s = vec_stride s0"
    "coord_alloc_size s = coord_alloc_size s0" "coord_capacity s = coord_capacity s0" "bufs_ok s qb = bufs_ok s0 qb"
    "pad s = pad s0" "pad_len s = pad_len s0"
    by (subst e, simp add: vec_stride_def coord_alloc_size_def coord_capacity_def bufs_ok_def pad_def [abs_def] pad_len_def)+
  show "view_of s = view_of s0" using assms unfolding srch_def by blast
qed

lemma srch_query:
  assumes "srch s0 qb refs s" "bufs_ok s0 qb"
  shows "query_T s qb = query_T s0 qb"
  unfolding query_T_def srch_same(7) [OF assms(1)]
proof (rule peek_cong)
  fix x assume "qb_query qb \<le> x" "x < qb_query qb + vec_stride s0"
  then show "sx_mem s x = sx_mem s0 x"
    using assms unfolding srch_def bufs_ok_def rdisj_def in_region_def by (auto simp: not_le not_less)
qed

text \<open>A node read into a sector buffer.\<close>

definition node_buf_ok :: "ssd \<Rightarrow> query_buf \<Rightarrow> mem \<Rightarrow> nat \<times> nat \<times> nat \<Rightarrow> bool" where
  "node_buf_ok s0 qb m = (\<lambda>(i, loc, buf). id2loc_map (sx_lm s0) i = Some loc \<and>
     qb_sector qb \<le> buf \<and> buf + SECTOR_LEN \<le> qb_sector qb + sector_alloc_size \<and>
     peek m buf SECTOR_LEN = view_of s0 (loc_sector_no (sx_g s0) loc))"

text \<open>The expanded nodes so far: each with its exact distance, and the copies of their coordinates.\<close>

definition expanded :: "ssd_env \<Rightarrow> ssd \<Rightarrow> query_buf \<Rightarrow> neighbor \<Rightarrow> bool" where
  "expanded en s0 qb n \<longleftrightarrow> (\<exists>loc. id2loc_map (sx_lm s0) (nb_id n) = Some loc \<and>
     nb_dist n = en_compare en (query_T s0 qb) (pad s0 (loc_coords (sx_g s0) (view_of s0) loc)))"

definition copied :: "ssd \<Rightarrow> query_buf \<Rightarrow> mem \<Rightarrow> nat \<Rightarrow> nat \<Rightarrow> nat \<Rightarrow> bool" where
  "copied s0 qb m bound i a \<longleftrightarrow> (\<exists>k loc. k < bound \<and> a = qb_coord qb + k * vec_stride s0 \<and>
     id2loc_map (sx_lm s0) i = Some loc \<and> peek m a (vec_bytes (sx_g s0)) = loc_coords (sx_g s0) (view_of s0) loc)"

definition full_ok :: "ssd_env \<Rightarrow> ssd \<Rightarrow> query_buf \<Rightarrow> bool \<Rightarrow> bsearch \<Rightarrow> mem \<Rightarrow> bool" where
  "full_ok en s0 qb use_coord b m \<longleftrightarrow> length (b_full b) = b_idx b \<and> distinct (map nb_id (b_full b)) \<and>
     (\<forall>n \<in> set (b_full b). expanded en s0 qb n) \<and>
     (\<forall>i \<in> nb_id ` set (b_full b). \<forall>j. (i, j) \<in> edges s0 \<longrightarrow> j \<in> b_vis b) \<and>
     (\<forall>i. if use_coord \<and> i \<in> nb_id ` set (b_full b)
          then \<exists>a. b_coord b i = Some a \<and> copied s0 qb m (b_idx b) i a else b_coord b i = None)"

definition full_ids :: "bsearch \<Rightarrow> nat set" where
  "full_ids b = nb_id ` set (b_full b)"

lemma full_ok_coord:
  assumes "full_ok en s0 qb uc b m"
  shows "uc \<Longrightarrow> j \<in> full_ids b \<Longrightarrow> \<exists>a. b_coord b j = Some a \<and> copied s0 qb m (b_idx b) j a"
    and "\<not> (uc \<and> j \<in> full_ids b) \<Longrightarrow> b_coord b j = None"
proof -
  have "if uc \<and> j \<in> full_ids b then \<exists>a. b_coord b j = Some a \<and> copied s0 qb m (b_idx b) j a else b_coord b j = None"
    using assms unfolding full_ok_def full_ids_def by blast
  then show "uc \<Longrightarrow> j \<in> full_ids b \<Longrightarrow> \<exists>a. b_coord b j = Some a \<and> copied s0 qb m (b_idx b) j a"
    "\<not> (uc \<and> j \<in> full_ids b) \<Longrightarrow> b_coord b j = None" by (simp_all split: if_splits)
qed

lemma copied_frame:
  assumes "copied s0 qb m bound i a" "bound \<le> idx" "vec_bytes (sx_g s0) \<le> vec_stride s0"
    and "\<And>x. \<not> in_region (qb_coord qb + idx * vec_stride s0) (vec_bytes (sx_g s0)) x \<Longrightarrow> m' x = m x"
  shows "copied s0 qb m' (Suc idx) i a"
proof -
  from assms(1) obtain k loc where k: "k < bound" "a = qb_coord qb + k * vec_stride s0"
    "id2loc_map (sx_lm s0) i = Some loc" "peek m a (vec_bytes (sx_g s0)) = loc_coords (sx_g s0) (view_of s0) loc"
    unfolding copied_def by blast
  have "peek m' a (vec_bytes (sx_g s0)) = peek m a (vec_bytes (sx_g s0))"
  proof (rule peek_cong, rule assms(4), unfold in_region_def)
    fix x assume x: "a \<le> x" "x < a + vec_bytes (sx_g s0)"
    have "Suc k * vec_stride s0 \<le> idx * vec_stride s0" using k(1) assms(2) by (intro mult_le_mono1) simp
    then show "\<not> (qb_coord qb + idx * vec_stride s0 \<le> x \<and> x < qb_coord qb + idx * vec_stride s0 + vec_bytes (sx_g s0))"
      using x k(2) assms(3) by auto
  qed
  with k assms(2) show ?thesis unfolding copied_def by (metis less_Suc_eq order_less_le_trans)
qed

text \<open>The conditions on numbers and scratch sizes a search needs.\<close>

definition search_ready :: "ssd_env \<Rightarrow> ssd \<Rightarrow> query_buf \<Rightarrow> farr \<Rightarrow> bool" where
  "search_ready en s0 qb pq_dists \<longleftrightarrow> graph_ok s0 \<and> bufs_ok s0 qb \<and> cur_id (sx_lm s0) \<le> coord_capacity s0 \<and>
     (\<forall>i. id2loc_map (sx_lm s0) i \<noteq> None \<longrightarrow> fnum (table_sum pq_dists (sx_n_chunks s0) (pq_code (sx_data s0) (sx_n_chunks s0) i)))"

abbreviation pdist :: "ssd \<Rightarrow> farr \<Rightarrow> nat \<Rightarrow> f32" where
  "pdist s0 pq_dists i \<equiv> table_sum pq_dists (sx_n_chunks s0) (pq_code (sx_data s0) (sx_n_chunks s0) i)"


lemma read_node:
  assumes "graph_ok s0" "srch s0 qb refs s" "node_buf_ok s0 qb m (i, loc, buf)"
  shows "node_coords (sx_g s0) m (offset_to_loc (sx_g s0) buf loc) = loc_coords (sx_g s0) (view_of s0) loc"
    and "get32s m (dn_nbrs (open_node (sx_g s0) m' i (offset_to_loc (sx_g s0) buf loc)))
      (get32 m (offset_to_loc (sx_g s0) buf loc + vec_bytes (sx_g s0))) = loc_nbrs (sx_g s0) (view_of s0) loc"
proof -
  have g: "wf_geom (sx_g s0)" using assms(1) by (simp add: graph_ok_def)
  have b: "peek m buf SECTOR_LEN = view_of s0 (loc_sector_no (sx_g s0) loc)" "id2loc_map (sx_lm s0) i = Some loc"
    using assms(3) by (simp_all add: node_buf_ok_def)
  have "cache_inv (sx_cache s)" using assms(2) by (simp add: srch_def)
  then have l: "length (view_of s0 p) = SECTOR_LEN" for p
    using page_view_length [of "sx_cache s" "sx_file s" p] srch_same(12) [OF assms(2)] by (simp add: view_of_def)
  have "length (loc_nbrs (sx_g s0) (view_of s0) loc) \<le> max_nbrs (sx_g s0)" using graph_okD(4) [OF assms(1) b(2)] .
  note n = buffer_node [OF g l b(1), of loc]
  show "node_coords (sx_g s0) m (offset_to_loc (sx_g s0) buf loc) = loc_coords (sx_g s0) (view_of s0) loc"
    using n(1) by (simp add: loc_coords_def)
  have "node_nbrs (sx_g s0) m (offset_to_loc (sx_g s0) buf loc) = loc_nbrs (sx_g s0) (view_of s0) loc"
    using n(3) graph_okD(4) [OF assms(1) b(2)] by (simp add: loc_nbrs_def)
  then show "get32s m (dn_nbrs (open_node (sx_g s0) m' i (offset_to_loc (sx_g s0) buf loc)))
      (get32 m (offset_to_loc (sx_g s0) buf loc + vec_bytes (sx_g s0))) = loc_nbrs (sx_g s0) (view_of s0) loc"
    by (simp add: node_nbrs_alt open_node_def DiskNode_def offset_to_node_nhood_def)
qed

text \<open>Writing into a coordinate slot leaves the sector buffers alone.\<close>

lemma node_buf_frame:
  assumes "node_buf_ok s0 qb m nd" "bufs_ok s0 qb" "idx < coord_capacity s0"
    and "\<And>x. \<not> in_region (qb_coord qb + idx * vec_stride s0) (vec_bytes (sx_g s0)) x \<Longrightarrow> m' x = m x"
  shows "node_buf_ok s0 qb m' nd"
proof -
  obtain i loc buf where nd: "nd = (i, loc, buf)" by (cases nd)
  have r: "qb_sector qb \<le> buf" "buf + SECTOR_LEN \<le> qb_sector qb + sector_alloc_size"
    using assms(1) by (simp_all add: nd node_buf_ok_def)
  have "peek m' buf SECTOR_LEN = peek m buf SECTOR_LEN"
  proof (rule peek_cong, rule assms(4), unfold in_region_def)
    fix x assume x: "buf \<le> x" "x < buf + SECTOR_LEN"
    show "\<not> (qb_coord qb + idx * vec_stride s0 \<le> x \<and> x < qb_coord qb + idx * vec_stride s0 + vec_bytes (sx_g s0))"
      using capacity_slot [OF assms(3)] assms(2) x r unfolding bufs_ok_def rdisj_def by auto
  qed
  with assms(1) show ?thesis by (simp add: nd node_buf_ok_def)
qed

lemma srch_copy:
  assumes "srch s0 qb refs s" "bufs_ok s0 qb" "idx < coord_capacity s0" "padded (s\<lparr>sx_mem := m'\<rparr>) qb"
    and "\<And>x. \<not> in_region (qb_coord qb + idx * vec_stride s0) (vec_bytes (sx_g s0)) x \<Longrightarrow> m' x = sx_mem s x"
  shows "srch s0 qb refs (s\<lparr>sx_mem := m'\<rparr>)"
proof -
  have e: "s = s0\<lparr>sx_cache := sx_cache s, sx_mem := sx_mem s\<rparr>" using assms(1) unfolding srch_def by blast
  have v: "vec_bytes (sx_g s0) \<le> vec_stride s0" using assms(2) by (simp add: bufs_ok_def)
  have "m' x = sx_mem s x" if "\<not> in_region (qb_coord qb) (coord_alloc_size s0) x" for x
    using that capacity_slot [OF assms(3)] v by (intro assms(5)) (auto simp: in_region_def)
  then have fr: "m' x = sx_mem s0 x" if "\<not> in_region (qb_coord qb) (coord_alloc_size s0) x"
    "\<not> in_region (qb_sector qb) sector_alloc_size x" for x
    using that assms(1) unfolding srch_def by simp
  have "s\<lparr>sx_mem := m'\<rparr> = s0\<lparr>sx_cache := sx_cache s, sx_mem := m'\<rparr>" by (subst e) simp
  moreover have "view_of (s\<lparr>sx_mem := m'\<rparr>) = view_of s" by (simp add: view_of_def)
  ultimately show ?thesis using assms(1,4) fr unfolding srch_def by simp
qed

lemma expand_frontier_node:
  assumes ready: "search_ready en s0 qb pd" and s: "srch s0 qb refs s"
    and bl: "blist (live s0 st) (pdist s0 pd) (insert i (full_ids b \<union> P)) b"
    and fu: "full_ok en s0 qb uc b (sx_mem s)"
    and nd: "node_buf_ok s0 qb (sx_mem s) (i, loc, buf)" "\<forall>n \<in> set rest. node_buf_ok s0 qb (sx_mem s) n"
    and i: "i \<notin> full_ids b" and nk: "b_nk b \<le> b_cur b" and dyn: "dyn \<longrightarrow> counts \<noteq> None"
  shows "\<exists>b' s'. bs_expand en qb pd uc dyn counts original (i, loc, buf) (b, s) = Inr (b', s') \<and> srch s0 qb refs s' \<and>
    sx_cache s' = sx_cache s \<and>
    blist (live s0 st) (pdist s0 pd) (full_ids b' \<union> P) b' \<and> full_ok en s0 qb uc b' (sx_mem s') \<and>
    (\<forall>n \<in> set rest. node_buf_ok s0 qb (sx_mem s') n) \<and> full_ids b' = insert i (full_ids b) \<and> b_idx b' = Suc (b_idx b) \<and>
    unvisited (cur_id (sx_lm s0)) b' + n_flagged b' \<le> unvisited (cur_id (sx_lm s0)) b + n_flagged b \<and>
    unvisited (cur_id (sx_lm s0)) b' + b_cur b' \<le> unvisited (cur_id (sx_lm s0)) b + b_cur b \<and>
    b_cur b \<le> b_cur b' \<and> b_nk b' \<le> b_nk b \<and> take (b_nk b') (b_ret b') = take (b_nk b') (b_ret b) \<and>
    (bcomp original b \<longrightarrow> bcomp original b') \<and> b_vis b \<subseteq> b_vis b'"
proof -
  have gok: "graph_ok s0" and bok: "bufs_ok s0 qb" and cap: "cur_id (sx_lm s0) \<le> coord_capacity s0"
    and num: "\<And>j. id2loc_map (sx_lm s0) j \<noteq> None \<Longrightarrow> fnum (pdist s0 pd j)"
    using ready unfolding search_ready_def by blast+
  note same = srch_same [OF s]
  let ?g = "sx_g s0" and ?w = "view_of s0" and ?N = "cur_id (sx_lm s0)" and ?idx = "b_idx b"
  let ?nb = "offset_to_loc ?g buf loc" and ?a = "qb_coord qb + b_idx b * vec_stride s0"
  have il: "id2loc_map (sx_lm s0) i = Some loc" using nd(1) by (simp add: node_buf_ok_def)
  \<comment> \<open>the copy goes to a slot inside the region\<close>
  have lv: "j < ?N" if "j \<in> b_vis b" for j
  proof -
    from blistD(5) [OF bl that] obtain l where "id2loc_map (sx_lm s0) j = Some l" by (auto simp: live_def)
    then show ?thesis by (rule graph_okD(2) [OF gok])
  qed
  have len: "length (b_full b) = b_idx b" "distinct (map nb_id (b_full b))" using fu by (auto simp: full_ok_def)
  have "card (full_ids b) = b_idx b"
    using distinct_card [OF len(2)] len(1) by (simp add: full_ids_def)
  then have "card (insert i (full_ids b)) = Suc (b_idx b)" using i by (simp add: full_ids_def)
  moreover have "insert i (full_ids b) \<subseteq> {..<?N}" using blistD(4) [OF bl] lv by auto
  ultimately have "Suc (b_idx b) \<le> ?N" by (metis card_lessThan card_mono finite_lessThan)
  with cap have idx: "b_idx b < coord_capacity s0" by simp
  define m1 where "m1 = poke (sx_mem s) ?a (node_coords ?g (sx_mem s) ?nb)"
  have pads: "padded s qb" using s by (simp add: srch_def)
  note cc = copy_coords_spec [of s qb ?idx m1 ?a ?nb, unfolded same, OF bok pads idx m1_def refl]
  note c1 = cc(1-3) and c2 = cc(4)
  have s1: "srch s0 qb refs (s\<lparr>sx_mem := m1\<rparr>)" by (rule srch_copy [OF s bok idx c1(3) c2])
  have nd1: "node_buf_ok s0 qb m1 (i, loc, buf)" "\<forall>n \<in> set rest. node_buf_ok s0 qb m1 n"
    using node_buf_frame [where m = "sx_mem s" and m' = m1, OF _ bok idx c2] nd by blast+
  have cnt: "get32 (sx_mem s) (?nb + vec_bytes ?g) = length (loc_nbrs ?g ?w loc)"
    using arg_cong [OF read_node(2) [OF gok s nd(1), of "sx_mem s"], of length] by simp
  have cnt1: "get32 m1 (?nb + vec_bytes ?g) = length (loc_nbrs ?g ?w loc)"
    using arg_cong [OF read_node(2) [OF gok s1 nd1(1), of "sx_mem s"], of length] by simp
  define node where "node = open_node ?g (sx_mem s) i ?nb"
  have nbrs: "get32s m1 (dn_nbrs node) (dn_nnbrs node) = loc_nbrs ?g ?w loc"
    using read_node(2) [OF gok s1 nd1(1), of "sx_mem s"] cnt cnt1
    by (simp add: node_def open_node_def DiskNode_def offset_to_node_nhood_def)
  have coords: "node_coords ?g (sx_mem s) ?nb = loc_coords ?g ?w loc" by (rule read_node(1) [OF gok s nd(1)])
  \<comment> \<open>the neighbors' distances\<close>
  let ?nbs = "loc_nbrs ?g ?w loc"
  have nb: "live s0 st j \<and> j < ?N \<and> j \<le> ?N \<and> fnum (pdist s0 pd j)" if j: "j \<in> set ?nbs" for j
  proof -
    have "live s0 st i" using blistD(4,5) [OF bl] by blast
    from live_nbr [OF gok this il j] have "live s0 st j" .
    then obtain l where "id2loc_map (sx_lm s0) j = Some l" by (auto simp: live_def)
    with \<open>live s0 st j\<close> graph_okD(2) [OF gok this] num [of j] show ?thesis by auto
  qed
  have "\<forall>j \<in> set ?nbs. j * sx_n_chunks s0 + sx_n_chunks s0 \<le> length (sx_data s0)"
  proof
    fix j assume "j \<in> set ?nbs"
    from graph_okD(7) [OF gok il this] obtain l where "id2loc_map (sx_lm s0) j = Some l" by auto
    then show "j * sx_n_chunks s0 + sx_n_chunks s0 \<le> length (sx_data s0)" by (rule graph_okD(3) [OF gok])
  qed
  from compute_dists_spec [OF this] graph_okD(5,6) [OF gok il]
  have pq: "node_pq_dists pd ?nbs (s\<lparr>sx_mem := m1\<rparr>) = Inr (map (pdist s0 pd) ?nbs)"
    by (simp add: node_pq_dists_def same)
  \<comment> \<open>the candidate list\<close>
  define d where "d = en_compare en (query_T s0 qb) (pad s0 (loc_coords ?g ?w loc))"
  define b1 where "b1 = b\<lparr>b_idx := b_idx b + 1,
     b_coord := (if uc \<and> b_coord b i = None then (b_coord b)(i \<mapsto> ?a) else b_coord b), b_full := b_full b @ [Neighbor i d True]\<rparr>"
  have b1s: "cands b1 = cands b" "b_ret b1 = b_ret b" "b_cur b1 = b_cur b" "b_vis b1 = b_vis b" "b_nk b1 = b_nk b"
    "unvisited ?N b1 = unvisited ?N b" "n_flagged b1 = n_flagged b"
    by (simp_all add: b1_def cands_def unvisited_def n_flagged_def)
  have ids1: "full_ids b1 = insert i (full_ids b)" by (simp add: b1_def full_ids_def Neighbor_def)
  have bl1: "blist (live s0 st) (pdist s0 pd) (full_ids b1 \<union> P) b1"
    using bl unfolding blist_def b1s ids1 by simp
  have nk1: "b_nk b1 \<le> b_cur b1" using nk b1s by simp
  have "\<forall>j \<in> set ?nbs. live s0 st j \<and> j < ?N \<and> j \<le> ?N \<and> fnum (pdist s0 pd j)" using nb by blast
  from bs_visits_spec [OF bl1 this nk1, of original] obtain b2 where
    b2: "foldE (bs_visit ?N) (zip ?nbs (map (pdist s0 pd) ?nbs)) b1 = Inr b2"
      "blist (live s0 st) (pdist s0 pd) (full_ids b1 \<union> P) b2" "b_full b2 = b_full b1" "b_coord b2 = b_coord b1"
      "b_idx b2 = b_idx b1" "unvisited ?N b2 + n_flagged b2 \<le> unvisited ?N b1 + n_flagged b1"
      "unvisited ?N b2 + b_cur b2 \<le> unvisited ?N b1 + b_cur b1" "b_cur b1 \<le> b_cur b2" "b_nk b2 \<le> b_nk b1"
      "take (b_nk b2) (b_ret b2) = take (b_nk b2) (b_ret b1)" "b_vis b2 = b_vis b1 \<union> set ?nbs"
      "bcomp original b1 \<longrightarrow> bcomp original b2" by blast
  obtain l where dy: "bs_dyn dyn counts original b2 = Inr (b2\<lparr>b_l := l\<rparr>)" "original \<le> l \<or> l = b_l b2"
  proof (cases dyn)
    case True
    with dyn obtain f where "counts = Some f" by auto
    then show ?thesis using True by (intro that, simp add: bs_dyn_def, simp)
  next
    case False
    then show ?thesis by (intro that [of "b_l b2"]) (simp_all add: bs_dyn_def)
  qed
  let ?b' = "b2\<lparr>b_l := l\<rparr>"
  have b's: "cands ?b' = cands b2" "full_ids ?b' = full_ids b1" "unvisited ?N ?b' = unvisited ?N b2" "n_flagged ?b' = n_flagged b2"
    using b2(3) by (simp_all add: cands_def full_ids_def unvisited_def n_flagged_def)
  have "bcomp original b1" if "bcomp original b" using that by (simp add: bcomp_def b1_def cands_def)
  with b2(12) have bc: "bcomp original ?b'" if "bcomp original b" using that dy(2) by (auto simp: bcomp_def b's(1))
  have vis: "b_vis ?b' = b_vis b \<union> set ?nbs" using b2(11) b1s(4) by simp
  have bl': "blist (live s0 st) (pdist s0 pd) (full_ids ?b' \<union> P) ?b'"
    using b2(2) unfolding b's(2) by (simp add: blist_def cands_def)
  have run: "bs_expand en qb pd uc dyn counts original (i, loc, buf) (b, s) = Inr (?b', s\<lparr>sx_mem := m1\<rparr>)"
    using c1 pq b2(1) dy(1) nbrs srch_query [OF s1 bok] coords
    by (simp add: bs_expand_def Let_def same srch_same(7) [OF s1] node_def d_def b1_def)
  have v: "vec_bytes ?g \<le> vec_stride s0" using bok by (simp add: bufs_ok_def)
  have cp: "\<exists>a. b_coord b1 j = Some a \<and> copied s0 qb m1 (Suc ?idx) j a" if uc: uc and j: "j \<in> insert i (full_ids b)" for j
  proof (cases "j = i")
    case True
    have "b_coord b i = None" using full_ok_coord(2) [OF fu] i by blast
    moreover have "peek m1 ?a (vec_bytes ?g) = loc_coords ?g ?w loc"
      unfolding m1_def coords by (rule peek_poke_same) simp
    ultimately show ?thesis using True uc il by (auto simp: b1_def copied_def)
  next
    case False
    with j have "j \<in> full_ids b" by simp
    with full_ok_coord(1) [OF fu uc] obtain a where "b_coord b j = Some a" "copied s0 qb (sx_mem s) ?idx j a" by blast
    with copied_frame [OF this(2) order_refl v c2] False show ?thesis by (auto simp: b1_def)
  qed
  have fu': "full_ok en s0 qb uc ?b' m1"
    unfolding full_ok_def
  proof (intro conjI)
    show "length (b_full ?b') = b_idx ?b'" using b2(3,5) len by (simp add: b1_def)
    show "distinct (map nb_id (b_full ?b'))" using b2(3) len i by (auto simp: b1_def Neighbor_def full_ids_def)
    show "\<forall>n \<in> set (b_full ?b'). expanded en s0 qb n"
      using b2(3) fu il by (auto simp: b1_def full_ok_def expanded_def Neighbor_def d_def)
    have im: "nb_id ` set (b_full ?b') = insert i (full_ids b)" using ids1 b2(3) by (simp add: full_ids_def)
    have "j \<in> set ?nbs" if "(i, j) \<in> edges s0" for j using that il by (auto simp: edges_def)
    moreover have "j \<in> b_vis b" if "h \<in> full_ids b" "(h, j) \<in> edges s0" for h j
      using that fu unfolding full_ok_def full_ids_def by blast
    ultimately show "\<forall>h \<in> nb_id ` set (b_full ?b'). \<forall>j. (h, j) \<in> edges s0 \<longrightarrow> j \<in> b_vis ?b'"
      unfolding im vis by blast
    have none: "b_coord b1 j = None" if "\<not> (uc \<and> j \<in> insert i (full_ids b))" for j
      using that full_ok_coord(2) [OF fu, of j] by (auto simp: b1_def)
    show "\<forall>j. if uc \<and> j \<in> nb_id ` set (b_full ?b') then \<exists>a. b_coord ?b' j = Some a \<and> copied s0 qb m1 (b_idx ?b') j a
        else b_coord ?b' j = None"
      unfolding im using cp none b2(4,5) by (auto simp: b1_def)
  qed
  have "sx_mem (s\<lparr>sx_mem := m1\<rparr>) = m1" "sx_cache (s\<lparr>sx_mem := m1\<rparr>) = sx_cache s" by simp_all
  moreover have "b_idx ?b' = Suc (b_idx b)" using b2(5) by (simp add: b1_def)
  ultimately show ?thesis
    using run s1 bl' fu' nd1(2) b2(6-10) b1s b's ids1 bc vis by (intro exI [of _ ?b'] exI [of _ "s\<lparr>sx_mem := m1\<rparr>"]) simp
qed


lemma expand_nodes:
  assumes ready: "search_ready en s0 qb pd" and dyn: "dyn \<longrightarrow> counts \<noteq> None"
    and "srch s0 qb refs s" "blist (live s0 st) (pdist s0 pd) (full_ids b \<union> fst ` set nodes) b"
      "full_ok en s0 qb uc b (sx_mem s)" "\<forall>n \<in> set nodes. node_buf_ok s0 qb (sx_mem s) n"
      "distinct (map fst nodes)" "fst ` set nodes \<inter> full_ids b = {}" "b_nk b \<le> b_cur b"
  shows "\<exists>b' s'. foldE (bs_expand en qb pd uc dyn counts original) nodes (b, s) = Inr (b', s') \<and> srch s0 qb refs s' \<and>
    blist (live s0 st) (pdist s0 pd) (full_ids b') b' \<and> full_ok en s0 qb uc b' (sx_mem s') \<and>
    full_ids b' = full_ids b \<union> fst ` set nodes \<and> b_idx b' = b_idx b + length nodes \<and>
    unvisited (cur_id (sx_lm s0)) b' + n_flagged b' \<le> unvisited (cur_id (sx_lm s0)) b + n_flagged b \<and>
    unvisited (cur_id (sx_lm s0)) b' + b_cur b' \<le> unvisited (cur_id (sx_lm s0)) b + b_cur b \<and>
    b_cur b \<le> b_cur b' \<and> b_nk b' \<le> b_nk b \<and> take (b_nk b') (b_ret b') = take (b_nk b') (b_ret b) \<and>
    (bcomp original b \<longrightarrow> bcomp original b') \<and> b_vis b \<subseteq> b_vis b'"
  using assms(3-)
proof (induction nodes arbitrary: b s)
  case (Cons nd nodes)
  obtain i loc buf where nd: "nd = (i, loc, buf)" by (cases nd)
  let ?P = "fst ` set nodes"
  have ex: "insert i (full_ids b \<union> ?P) = full_ids b \<union> fst ` set (nd # nodes)" by (auto simp: nd)
  have bl: "blist (live s0 st) (pdist s0 pd) (insert i (full_ids b \<union> ?P)) b" unfolding ex by (rule Cons.prems(2))
  have nb: "node_buf_ok s0 qb (sx_mem s) (i, loc, buf)" "\<forall>n \<in> set nodes. node_buf_ok s0 qb (sx_mem s) n" "i \<notin> full_ids b"
    using Cons.prems(4,6) by (auto simp: nd)
  from expand_frontier_node [OF ready Cons.prems(1) bl Cons.prems(3) nb Cons.prems(7) dyn, of original] obtain b1 s1 where
    e: "bs_expand en qb pd uc dyn counts original (i, loc, buf) (b, s) = Inr (b1, s1)" "srch s0 qb refs s1"
      "blist (live s0 st) (pdist s0 pd) (full_ids b1 \<union> ?P) b1" "full_ok en s0 qb uc b1 (sx_mem s1)"
      "\<forall>n \<in> set nodes. node_buf_ok s0 qb (sx_mem s1) n" "full_ids b1 = insert i (full_ids b)" "b_idx b1 = Suc (b_idx b)"
      "unvisited (cur_id (sx_lm s0)) b1 + n_flagged b1 \<le> unvisited (cur_id (sx_lm s0)) b + n_flagged b"
      "unvisited (cur_id (sx_lm s0)) b1 + b_cur b1 \<le> unvisited (cur_id (sx_lm s0)) b + b_cur b"
      "b_cur b \<le> b_cur b1" "b_nk b1 \<le> b_nk b" "take (b_nk b1) (b_ret b1) = take (b_nk b1) (b_ret b)"
      "bcomp original b \<longrightarrow> bcomp original b1" "b_vis b \<subseteq> b_vis b1" by blast
  have d: "distinct (map fst nodes)" "i \<notin> ?P" using Cons.prems(5) by (auto simp: nd)
  then have dj: "?P \<inter> full_ids b1 = {}" using e(6) Cons.prems(6) by (auto simp: nd)
  have nk: "b_nk b1 \<le> b_cur b1" using e(10,11) Cons.prems(7) by linarith
  from Cons.IH [OF e(2,3,4,5) d(1) dj nk] obtain b2 s2 where
    f: "foldE (bs_expand en qb pd uc dyn counts original) nodes (b1, s1) = Inr (b2, s2)" "srch s0 qb refs s2"
      "blist (live s0 st) (pdist s0 pd) (full_ids b2) b2" "full_ok en s0 qb uc b2 (sx_mem s2)"
      "full_ids b2 = full_ids b1 \<union> ?P" "b_idx b2 = b_idx b1 + length nodes"
      "unvisited (cur_id (sx_lm s0)) b2 + n_flagged b2 \<le> unvisited (cur_id (sx_lm s0)) b1 + n_flagged b1"
      "unvisited (cur_id (sx_lm s0)) b2 + b_cur b2 \<le> unvisited (cur_id (sx_lm s0)) b1 + b_cur b1"
      "b_cur b1 \<le> b_cur b2" "b_nk b2 \<le> b_nk b1" "take (b_nk b2) (b_ret b2) = take (b_nk b2) (b_ret b1)"
      "bcomp original b1 \<longrightarrow> bcomp original b2" "b_vis b1 \<subseteq> b_vis b2" by blast
  have tk: "take (b_nk b2) (b_ret b2) = take (b_nk b2) (b_ret b)"
    using f(10,11) e(12) by (metis min.absorb1 take_take)
  have run: "foldE (bs_expand en qb pd uc dyn counts original) (nd # nodes) (b, s) = Inr (b2, s2)"
    using e(1) f(1) by (simp add: nd)
  have ids: "full_ids b2 = full_ids b \<union> fst ` set (nd # nodes)" using f(5) e(6) by (auto simp: nd)
  have idx: "b_idx b2 = b_idx b + length (nd # nodes)" using e(7) f(6) by simp
  show ?case
    by (rule exI [of _ b2], rule exI [of _ s2])
      (use run f(2,3,4) ids idx tk e(8-11,13,14) f(7-10,12,13) in \<open>auto intro: order_trans\<close>)
qed simp

section \<open>Reading the frontier\<close>

lemma view_length: "cache_inv (sx_cache s) \<Longrightarrow> length (view_of s p) = SECTOR_LEN"
  by (simp add: view_of_def page_view_length)

lemma size_per_io_one: "wf_geom g \<Longrightarrow> size_per_io g = SECTOR_LEN"
  by (simp add: size_per_io_def wf_geom_def)

lemma sector_offset:
  assumes "wf_geom g" "loc < 4294967296"
  shows "u64 (loc_sector_no g loc * SECTOR_LEN) = loc_sector_no g loc * SECTOR_LEN"
proof -
  have "loc div nnodes_per_sector g < 4294967296" using assms(2) by (rule le_less_trans [OF div_le_dividend])
  then show ?thesis by (intro u64_id) (simp add: loc_sector_small [OF assms] SECTOR_LEN_def)
qed

lemma frontier_reqs_spec:
  assumes "wf_geom (sx_g s)" "\<forall>(i, loc) \<in> set il. loc < 4294967296"
  shows "length (frontier_reqs s qb il) = length il" "sector_reqs (frontier_reqs s qb il)"
    "map req_page (frontier_reqs s qb il) = map (\<lambda>(i, loc). loc_sector_no (sx_g s) loc) il"
    "\<And>k. k < length il \<Longrightarrow> r_buf (frontier_reqs s qb il ! k) = qb_sector qb + k * SECTOR_LEN"
proof -
  show l: "length (frontier_reqs s qb il) = length il" by (simp add: frontier_reqs_def)
  have nth: "frontier_reqs s qb il ! k =
      \<lparr>r_offset = loc_sector_no (sx_g s) (snd (il ! k)) * SECTOR_LEN, r_len = SECTOR_LEN,
       r_buf = qb_sector qb + k * SECTOR_LEN, r_u_offset = u_loc_offset (sx_g s) (snd (il ! k)),
       r_u_len = max_node_len (sx_g s)\<rparr>" if "k < length il" for k
  proof -
    have "snd (il ! k) < 4294967296" using assms(2) nth_mem [OF that] by fastforce
    with that show ?thesis
      using sector_offset [OF assms(1)] by (simp add: frontier_reqs_def size_per_io_one [OF assms(1)] split_def)
  qed
  show "r_buf (frontier_reqs s qb il ! k) = qb_sector qb + k * SECTOR_LEN" if "k < length il" for k
    using nth [OF that] by simp
  show "map req_page (frontier_reqs s qb il) = map (\<lambda>(i, loc). loc_sector_no (sx_g s) loc) il"
    by (rule nth_equalityI) (auto simp: l nth split_def)
  show "sector_reqs (frontier_reqs s qb il)"
    unfolding sector_reqs_def
  proof (intro conjI)
    show "\<forall>r \<in> set (frontier_reqs s qb il). r_offset r mod SECTOR_LEN = 0 \<and> r_len r = SECTOR_LEN"
      using l nth by (auto simp: in_set_conv_nth)
    show "sorted_wrt (\<lambda>r s. r_buf r + SECTOR_LEN \<le> r_buf s \<or> r_buf s + SECTOR_LEN \<le> r_buf r) (frontier_reqs s qb il)"
      unfolding sorted_wrt_iff_nth_less
    proof (intro allI impI)
      fix i j assume ij: "i < j" "j < length (frontier_reqs s qb il)"
      have "Suc i * SECTOR_LEN \<le> j * SECTOR_LEN" using ij(1) by (intro mult_le_mono1) simp
      then show "r_buf (frontier_reqs s qb il ! i) + SECTOR_LEN \<le> r_buf (frontier_reqs s qb il ! j) \<or>
          r_buf (frontier_reqs s qb il ! j) + SECTOR_LEN \<le> r_buf (frontier_reqs s qb il ! i)"
        using nth [of i] nth [of j] ij l by simp
    qed
  qed
qed

lemma read_frontier_spec:
  assumes gok: "graph_ok s0" and bok: "bufs_ok s0 qb" and s: "srch s0 qb refs s"
    and fr: "\<forall>i \<in> set frontier. id2loc_map (sx_lm s0) i \<noteq> None" "distinct frontier" "length frontier \<le> MAX_N_SECTOR_READS"
    and lk: "lt_inv (sx_idx_locks s0)" "\<forall>i \<in> set frontier. can_acq True (lk (sx_idx_locks s0) i)"
    and pn: "\<forall>p. pins (sx_cache s) p + length frontier < 18446744073709551616"
  shows "\<exists>nodes pages s'. read_frontier qb frontier (page_ref, s) = Inr (nodes, page_ref @ pages, s') \<and>
    srch s0 qb (refs @ pages) s' \<and> length pages = length frontier \<and> map fst nodes = frontier \<and>
    (\<forall>nd \<in> set nodes. node_buf_ok s0 qb (sx_mem s') nd) \<and>
    (\<forall>x. \<not> in_region (qb_sector qb) sector_alloc_size x \<longrightarrow> sx_mem s' x = sx_mem s x)"
proof (cases "frontier = []")
  case True
  with s show ?thesis by (intro exI [of _ "[]"] exI [of _ s]) (simp add: read_frontier_def)
next
  case False
  note same = srch_same [OF s]
  have g: "wf_geom (sx_g s0)" using gok by (simp add: graph_ok_def)
  let ?loc = "\<lambda>i. the (id2loc_map (sx_lm s0) i)"
  let ?il = "zip frontier (map ?loc frontier)"
  define reqs where "reqs = frontier_reqs s qb ?il"
  have mapped: "id2loc_map (sx_lm s0) i = Some (?loc i)" if "i \<in> set frontier" for i using fr(1) that by auto
  have locs: "mapE (id2loc (sx_lm s)) frontier = Inr (map ?loc frontier)"
  proof (rule mapE_total)
    fix i assume "i \<in> set frontier"
    with fr(1) obtain l where "id2loc_map (sx_lm s0) i = Some l" by auto
    then show "id2loc (sx_lm s) i = Inr (?loc i)" by (simp add: id2loc_def same)
  qed
  have ls: "\<forall>(i, loc) \<in> set ?il. loc < 4294967296"
  proof (clarify)
    fix i loc assume "(i, loc) \<in> set ?il"
    then have "i \<in> set frontier" "loc = ?loc i" by (auto simp: zip_map2 in_set_zip)
    with mapped graph_okD(1) [OF gok] show "loc < 4294967296" by metis
  qed
  have gs: "wf_geom (sx_g s)" using g same by simp
  note rq = frontier_reqs_spec [where qb = qb, OF gs ls, folded reqs_def]
  have lq: "length reqs = length frontier" using rq(1) by simp
  have ci: "cache_inv (sx_cache s)" using s by (simp add: srch_def)
  have pn': "\<forall>p. pins (sx_cache s) p + length reqs < 18446744073709551616" using pn lq by simp
  from read_alloc_spec [OF ci rq(2) pn', of "sx_file s" "sx_mem s" page_ref] obtain c' m' where
    r: "read_alloc (sx_file s) reqs (sx_cache s, sx_mem s, page_ref) = Inr (c', m', page_ref @ map req_page reqs)"
      "cache_inv c'" "page_view c' (sx_file s) = page_view (sx_cache s) (sx_file s)"
      "pins c' = (\<lambda>p. pins (sx_cache s) p + count_list (map req_page reqs) p)"
      "\<forall>r \<in> set reqs. peek m' (r_buf r) SECTOR_LEN = page_view (sx_cache s) (sx_file s) (req_page r)"
      "\<forall>x. (\<forall>r \<in> set reqs. outside x r) \<longrightarrow> m' x = sx_mem s x" by blast
  have "\<forall>k \<in> set (get_to_lock_idx kInvalidID frontier). can_acq True (lk (sx_idx_locks s) k)"
    using lk(2) same by (simp add: get_to_lock_idx_def)
  from lock_unlock_idx [OF _ this] lk(1) same obtain ks t where
    l: "lock_idx kInvalidID frontier True (sx_idx_locks s) = Inr (ks, t)" "unlock_idx ks t = Inr (sx_idx_locks s)" by auto
  let ?s' = "s\<lparr>sx_cache := c', sx_mem := m'\<rparr>"
  let ?nodes = "map (\<lambda>((i, loc), r). (i, loc, r_buf r)) (zip ?il reqs)"
  have "length frontier * SECTOR_LEN \<le> sector_alloc_size"
    using fr(3) unfolding sector_alloc_size_def by (rule mult_le_mono1)
  then have run: "read_frontier qb frontier (page_ref, s) = Inr (?nodes, page_ref @ map req_page reqs, ?s')"
    using False l locs r(1) reqs_def by (simp add: read_frontier_def size_per_io_one [OF gs] Let_def)
  have inreg: "in_region (qb_sector qb) sector_alloc_size x" if "\<not> outside x q" "q \<in> set reqs" for x q
  proof -
    from that(2) obtain k where k: "k < length reqs" "q = reqs ! k" by (metis in_set_conv_nth)
    then have kb: "r_buf q = qb_sector qb + k * SECTOR_LEN" using rq(1,4) by simp
    have "Suc k * SECTOR_LEN \<le> MAX_N_SECTOR_READS * SECTOR_LEN" using k(1) lq fr(3) by (intro mult_le_mono1) simp
    then show ?thesis using that(1) kb by (auto simp: outside_def in_region_def sector_alloc_size_def)
  qed
  have frame: "m' x = sx_mem s x" if "\<not> in_region (qb_sector qb) sector_alloc_size x" for x
    using r(6) inreg that by blast
  have nodes: "node_buf_ok s0 qb m' nd" if nd: "nd \<in> set ?nodes" for nd
  proof -
    from nd obtain k where k: "k < length frontier" "nd = (frontier ! k, ?loc (frontier ! k), r_buf (reqs ! k))"
      using lq by (auto simp: in_set_zip in_set_conv_nth split_def)
    have q: "reqs ! k \<in> set reqs" "req_page (reqs ! k) = loc_sector_no (sx_g s) (?loc (frontier ! k))"
    proof -
      show "reqs ! k \<in> set reqs" using k lq by simp
      have "map req_page reqs ! k = loc_sector_no (sx_g s) (?loc (frontier ! k))" unfolding rq(3) using k by simp
      then show "req_page (reqs ! k) = loc_sector_no (sx_g s) (?loc (frontier ! k))" using k lq by simp
    qed
    have "r_buf (reqs ! k) = qb_sector qb + k * SECTOR_LEN" using rq(4) [of k] k by simp
    moreover have "Suc k * SECTOR_LEN \<le> MAX_N_SECTOR_READS * SECTOR_LEN" using k(1) fr(3) by (intro mult_le_mono1) simp
    moreover have "peek m' (r_buf (reqs ! k)) SECTOR_LEN = view_of s0 (loc_sector_no (sx_g s0) (?loc (frontier ! k)))"
      using r(5) q same(1,12) by (simp add: view_of_def)
    ultimately show ?thesis using k mapped [of "frontier ! k"] by (auto simp: node_buf_ok_def sector_alloc_size_def)
  qed
  have fst: "map fst ?nodes = frontier"
    by (rule nth_equalityI) (use lq in \<open>auto simp: split_def\<close>)
  have sr: "srch s0 qb (refs @ map req_page reqs) ?s'"
    unfolding srch_def
  proof (intro conjI)
    have e: "s = s0\<lparr>sx_cache := sx_cache s, sx_mem := sx_mem s\<rparr>" using s unfolding srch_def by blast
    show "?s' = s0\<lparr>sx_cache := sx_cache ?s', sx_mem := sx_mem ?s'\<rparr>" by (subst e) simp
    show "cache_inv (sx_cache ?s')" using r(2) by simp
    show "view_of ?s' = view_of s0" using r(3) same(12) by (simp add: view_of_def)
    show "pins (sx_cache ?s') = (\<lambda>p. pins (sx_cache s0) p + count_list (refs @ map req_page reqs) p)"
      using r(4) s by (simp add: srch_def fun_eq_iff)
    show "\<forall>x. \<not> in_region (qb_coord qb) (coord_alloc_size s0) x \<and> \<not> in_region (qb_sector qb) sector_alloc_size x \<longrightarrow>
        sx_mem ?s' x = sx_mem s0 x" using frame s by (simp add: srch_def)
    have "vec_stride ?s' = vec_stride s" "coord_capacity ?s' = coord_capacity s" "pad_len ?s' = pad_len s"
      by (simp_all add: vec_stride_def coord_capacity_def pad_len_def coord_alloc_size_def)
    then have st: "vec_stride ?s' = vec_stride s0" "coord_capacity ?s' = coord_capacity s0" "pad_len ?s' = pad_len s0"
      "vec_stride s = vec_stride s0" "coord_capacity s = coord_capacity s0" "pad_len s = pad_len s0"
      using same by (simp_all only:)
    have "peek m' (qb_coord qb + k * vec_stride s0 + vec_bytes (sx_g s0)) (pad_len s0) =
        peek (sx_mem s) (qb_coord qb + k * vec_stride s0 + vec_bytes (sx_g s0)) (pad_len s0)"
      if k: "k < coord_capacity s0" for k
    proof (rule peek_cong, rule frame, unfold in_region_def)
      fix x assume "qb_coord qb + k * vec_stride s0 + vec_bytes (sx_g s0) \<le> x"
        "x < qb_coord qb + k * vec_stride s0 + vec_bytes (sx_g s0) + pad_len s0"
      then show "\<not> (qb_sector qb \<le> x \<and> x < qb_sector qb + sector_alloc_size)"
        using capacity_slot [OF k] bok unfolding bufs_ok_def rdisj_def pad_len_def by auto
    qed
    then show "padded ?s' qb" using s unfolding srch_def padded_def st by (simp add: same)
    have "\<exists>i loc. id2loc_map (sx_lm s0) i = Some loc \<and> p = loc_sector_no (sx_g s0) loc" if "p \<in> set (map req_page reqs)" for p
    proof -
      from that obtain n where n: "n < length frontier" "p = loc_sector_no (sx_g s0) (?loc (frontier ! n))"
        unfolding rq(3) same(1) by (auto simp: in_set_zip)
      from nth_mem [OF n(1)] mapped n(2) show ?thesis by blast
    qed
    then show "\<forall>p \<in> set (refs @ map req_page reqs). \<exists>i loc. id2loc_map (sx_lm s0) i = Some loc \<and> p = loc_sector_no (sx_g s0) loc"
      using s unfolding srch_def by auto
  qed
  show ?thesis
    by (rule exI [of _ ?nodes], rule exI [of _ "map req_page reqs"], rule exI [of _ ?s'])
      (use run sr lq fst nodes frame in simp)
qed

section \<open>A round\<close>

lemma copied_region:
  assumes "copied s0 qb m bound i a" "bufs_ok s0 qb" "bound \<le> coord_capacity s0"
    and "\<And>x. \<not> in_region (qb_sector qb) sector_alloc_size x \<Longrightarrow> m' x = m x"
  shows "copied s0 qb m' bound i a"
proof -
  from assms(1) obtain k loc where k: "k < bound" "a = qb_coord qb + k * vec_stride s0"
    "id2loc_map (sx_lm s0) i = Some loc" "peek m a (vec_bytes (sx_g s0)) = loc_coords (sx_g s0) (view_of s0) loc"
    unfolding copied_def by blast
  have "k < coord_capacity s0" using k(1) assms(3) by simp
  note slot = capacity_slot [OF this]
  have "peek m' a (vec_bytes (sx_g s0)) = peek m a (vec_bytes (sx_g s0))"
  proof (rule peek_cong, rule assms(4), unfold in_region_def)
    fix x assume "a \<le> x" "x < a + vec_bytes (sx_g s0)"
    then show "\<not> (qb_sector qb \<le> x \<and> x < qb_sector qb + sector_alloc_size)"
      using slot k(2) assms(2) unfolding bufs_ok_def rdisj_def by auto
  qed
  with k show ?thesis unfolding copied_def by metis
qed

lemma full_ok_region:
  assumes "full_ok en s0 qb uc b m" "bufs_ok s0 qb" "b_idx b \<le> coord_capacity s0"
    and "\<And>x. \<not> in_region (qb_sector qb) sector_alloc_size x \<Longrightarrow> m' x = m x"
  shows "full_ok en s0 qb uc b m'"
proof -
  have "\<exists>a. b_coord b j = Some a \<and> copied s0 qb m' (b_idx b) j a" if "uc" "j \<in> full_ids b" for j
    using full_ok_coord(1) [OF assms(1) that] copied_region [where m = m and m' = m', OF _ assms(2,3)] assms(4) by blast
  with full_ok_coord(2) [OF assms(1)] assms(1) show ?thesis
    unfolding full_ok_def full_ids_def by presburger
qed

text \<open>What holds between two rounds.\<close>

definition bs_inv :: "ssd_env \<Rightarrow> ssd \<Rightarrow> query_buf \<Rightarrow> bool \<Rightarrow> nat set \<Rightarrow> farr \<Rightarrow> nat list \<Rightarrow>
    nat \<times> bsearch \<times> nat list \<times> ssd \<Rightarrow> bool" where
  "bs_inv en s0 qb uc st pd refs0 = (\<lambda>(k, b, page_ref, s). \<exists>refs. page_ref = refs0 @ refs \<and> length refs = b_idx b \<and>
     srch s0 qb refs s \<and> blist (live s0 st) (pdist s0 pd) (full_ids b) b \<and> full_ok en s0 qb uc b (sx_mem s) \<and>
     (\<forall>j. j < k \<and> j < b_cur b \<longrightarrow> \<not> nb_flag (b_ret b ! j)))"

definition bs_measure :: "nat \<Rightarrow> bsearch \<Rightarrow> nat" where
  "bs_measure N b = unvisited N b + n_flagged b"

lemma full_ids_card:
  assumes "full_ok en s0 qb uc b m"
  shows "card (full_ids b) = b_idx b" "finite (full_ids b)"
  using assms distinct_card [of "map nb_id (b_full b)"] by (simp_all add: full_ok_def full_ids_def)

lemma live_bound: "graph_ok s0 \<Longrightarrow> live s0 st i \<Longrightarrow> i < cur_id (sx_lm s0)"
  unfolding live_def using graph_okD(2) by blast

lemma expanded_bound:
  assumes "graph_ok s0" "blist (live s0 st) pd ex b" "A \<subseteq> b_vis b"
  shows "card A \<le> cur_id (sx_lm s0)"
proof -
  have "A \<subseteq> {..<cur_id (sx_lm s0)}" using blistD(5) [OF assms(2)] live_bound [OF assms(1)] assms(3) by auto
  then show ?thesis by (metis card_lessThan card_mono finite_lessThan)
qed

definition locks_free :: "ssd \<Rightarrow> bool" where
  "locks_free s \<longleftrightarrow> lt_inv (sx_idx_locks s) \<and> (\<forall>i. id2loc_map (sx_lm s) i \<noteq> None \<longrightarrow> can_acq True (lk (sx_idx_locks s) i))"

definition pins_room :: "ssd \<Rightarrow> bool" where
  "pins_room s \<longleftrightarrow> (\<forall>p. pins (sx_cache s) p + cur_id (sx_lm s) < 18446744073709551616)"

lemma bs_round_spec:
  assumes ready: "search_ready en s0 qb pd" and dyn: "dyn \<longrightarrow> counts \<noteq> None"
    and lf: "locks_free s0" and pr: "pins_room s0" and beam: "0 < beam" "beam \<le> MAX_N_SECTOR_READS"
    and inv: "bs_inv en s0 qb uc st pd refs0 (k, b, page_ref, s)" and k: "k < b_cur b"
    and N: "N = cur_id (sx_lm s0)"
  shows "\<exists>k' b' page_ref' s'. bs_round en qb pd beam uc dyn counts original (k, b, page_ref, s) = Inr (k', b', page_ref', s') \<and>
    bs_inv en s0 qb uc st pd refs0 (k', b', page_ref', s') \<and> full_ids b \<subseteq> full_ids b' \<and>
    unvisited N b' + b_cur b' \<le> unvisited N b + b_cur b \<and>
    (bs_measure N b' < bs_measure N b \<or> bs_measure N b' = bs_measure N b \<and> k' = Suc k) \<and>
    (bcomp original b \<longrightarrow> bcomp original b') \<and> b_vis b \<subseteq> b_vis b' \<and> b_cur b \<le> b_cur b'"
proof -
  have gok: "graph_ok s0" and bok: "bufs_ok s0 qb" and cap: "cur_id (sx_lm s0) \<le> coord_capacity s0"
    using ready unfolding search_ready_def by blast+
  from inv obtain refs where i: "page_ref = refs0 @ refs" "length refs = b_idx b" "srch s0 qb refs s"
    "blist (live s0 st) (pdist s0 pd) (full_ids b) b" "full_ok en s0 qb uc b (sx_mem s)"
    and pre: "\<And>j. j < k \<Longrightarrow> j < b_cur b \<Longrightarrow> \<not> nb_flag (b_ret b ! j)" unfolding bs_inv_def by auto
  obtain ret fr where pick: "pick_frontier beam [k..<b_cur b] (b_ret b, [], 0) = (ret, fr)" by (cases "pick_frontier beam [k..<b_cur b] (b_ret b, [], 0)")
  let ?b = "b\<lparr>b_ret := ret, b_nk := b_cur b\<rparr>"
  note pk = blist_pick [OF i(4) pick refl]
  have vis: "full_ids b \<union> set fr \<subseteq> b_vis b" using blistD(4) [OF i(4)] pk(4) by blast
  have "card (full_ids b \<union> set fr) = b_idx b + length fr"
    using full_ids_card [OF i(5)] pk(2,3) by (simp add: card_Un_disjoint distinct_card Int_commute)
  with expanded_bound [OF gok i(4) vis] have bnd: "b_idx b + length fr \<le> N" by (simp add: N)
  have mapped: "\<forall>j \<in> set fr. id2loc_map (sx_lm s0) j \<noteq> None"
    using pk(4) blistD(5) [OF i(4)] by (auto simp: live_def)
  have lk: "lt_inv (sx_idx_locks s0)" "\<forall>j \<in> set fr. can_acq True (lk (sx_idx_locks s0) j)"
    using lf mapped by (auto simp: locks_free_def)
  have pn: "\<forall>p. pins (sx_cache s) p + length fr < 18446744073709551616"
  proof
    fix p
    have "pins (sx_cache s) p = pins (sx_cache s0) p + count_list refs p" using i(3) by (simp add: srch_def)
    moreover have "count_list refs p \<le> length refs" by (rule count_le_length)
    moreover have "pins (sx_cache s0) p + N < 18446744073709551616" using pr N by (simp add: pins_room_def)
    ultimately show "pins (sx_cache s) p + length fr < 18446744073709551616" using bnd i(2) by linarith
  qed
  have lfr: "length fr \<le> MAX_N_SECTOR_READS" using pk(5) beam(2) by simp
  from read_frontier_spec [OF gok bok i(3) mapped pk(2) lfr lk pn, of page_ref] obtain nodes pages s1 where
    rd: "read_frontier qb fr (page_ref, s) = Inr (nodes, page_ref @ pages, s1)" "srch s0 qb (refs @ pages) s1"
      "length pages = length fr" "map fst nodes = fr" "\<forall>nd \<in> set nodes. node_buf_ok s0 qb (sx_mem s1) nd"
      "\<forall>x. \<not> in_region (qb_sector qb) sector_alloc_size x \<longrightarrow> sx_mem s1 x = sx_mem s x" by blast
  have fst: "fst ` set nodes = set fr" "length nodes = length fr" using rd(4) by (metis list.set_map, metis length_map)
  have ids: "full_ids ?b = full_ids b" by (simp add: full_ids_def)
  have "b_idx b \<le> coord_capacity s0" using bnd cap N by linarith
  from full_ok_region [OF i(5) bok this] rd(6) have "full_ok en s0 qb uc b (sx_mem s1)" by blast
  then have fu: "full_ok en s0 qb uc ?b (sx_mem s1)" by (simp add: full_ok_def)
  have bl: "blist (live s0 st) (pdist s0 pd) (full_ids ?b \<union> fst ` set nodes) ?b" unfolding ids fst by (rule pk(1))
  have ds: "distinct (map fst nodes)" "fst ` set nodes \<inter> full_ids ?b = {}" unfolding rd(4) fst ids using pk(2,3) by simp_all
  have nk: "b_nk ?b \<le> b_cur ?b" by simp
  from expand_nodes [OF ready dyn rd(2) bl fu rd(5) ds nk, of original] obtain b2 s2 where
    ex: "foldE (bs_expand en qb pd uc dyn counts original) nodes (?b, s1) = Inr (b2, s2)" "srch s0 qb (refs @ pages) s2"
      "blist (live s0 st) (pdist s0 pd) (full_ids b2) b2" "full_ok en s0 qb uc b2 (sx_mem s2)"
      "full_ids b2 = full_ids ?b \<union> fst ` set nodes" "b_idx b2 = b_idx ?b + length nodes"
      "unvisited (cur_id (sx_lm s0)) b2 + n_flagged b2 \<le> unvisited (cur_id (sx_lm s0)) ?b + n_flagged ?b"
      "unvisited (cur_id (sx_lm s0)) b2 + b_cur b2 \<le> unvisited (cur_id (sx_lm s0)) ?b + b_cur ?b"
      "b_cur ?b \<le> b_cur b2" "b_nk b2 \<le> b_nk ?b" "take (b_nk b2) (b_ret b2) = take (b_nk b2) (b_ret ?b)"
      "bcomp original ?b \<longrightarrow> bcomp original b2" "b_vis ?b \<subseteq> b_vis b2" by blast
  have cb: "nb_id ` set (cands ?b) = nb_id ` set (cands b)"
    using pk(11) by (metis list.set_map)
  have bc: "bcomp original b2" if "bcomp original b" using that ex(12) cb by (simp add: bcomp_def)
  define k' where "k' = (if b_nk b2 \<le> k then b_nk b2 else k + 1)"
  have run: "bs_round en qb pd beam uc dyn counts original (k, b, page_ref, s) = Inr (k', b2, page_ref @ pages, s2)"
    using pick rd(1) ex(1) by (simp add: bs_round_def k'_def)
  have same: "b_ret b2 ! j = ret ! j" if "j < b_nk b2" for j
    using arg_cong [OF ex(11), of "\<lambda>xs. xs ! j"] that by simp
  have pre': "\<not> nb_flag (b_ret b2 ! j)" if j: "j < k'" "j < b_cur b2" for j
  proof -
    have jn: "j < b_nk b2" "j \<le> k" using j(1) by (auto simp: k'_def split: if_splits)
    show ?thesis
    proof (cases "j = k")
      case True
      then show ?thesis using same [OF jn(1)] pk(8) [OF k beam(1)] by simp
    next
      case False
      then have "j < k" "j < b_cur b" using jn(2) k by auto
      then show ?thesis using same [OF jn(1)] pk(7) pre by simp
    qed
  qed
  have inv': "bs_inv en s0 qb uc st pd refs0 (k', b2, page_ref @ pages, s2)"
    unfolding bs_inv_def prod.case
    by (rule exI [of _ "refs @ pages"]) (use i(1,2) rd(3) ex(2-4,6) fst(2) pre' in simp)
  have m: "bs_measure N b2 + length fr \<le> bs_measure N b"
    using ex(7) pk(6) by (simp add: bs_measure_def N unvisited_def)
  have "bs_measure N b2 < bs_measure N b \<or> bs_measure N b2 = bs_measure N b \<and> k' = Suc k"
  proof (cases fr)
    case Nil
    then have "nodes = []" using fst(2) by simp
    then have "b2 = ?b" using ex(1) by simp
    then have "b_nk b2 = b_cur b" "bs_measure N b2 = bs_measure N b"
      using pk(6) Nil by (simp_all add: bs_measure_def unvisited_def)
    then show ?thesis using k by (simp add: k'_def)
  next
    case Cons
    then show ?thesis using m by simp
  qed
  moreover have "unvisited N b2 + b_cur b2 \<le> unvisited N b + b_cur b" using ex(8) by (simp add: N unvisited_def)
  moreover have "full_ids b \<subseteq> full_ids b2" using ex(5) ids by blast
  moreover have "b_vis b \<subseteq> b_vis b2" "b_cur b \<le> b_cur b2" using ex(9,13) by simp_all
  ultimately show ?thesis using run inv' bc
    by (intro exI [of _ k'] exI [of _ b2] exI [of _ "page_ref @ pages"] exI [of _ s2] conjI impI)
qed

section \<open>The loop\<close>

lemma bs_loop_spec:
  assumes ready: "search_ready en s0 qb pd" and dyn: "dyn \<longrightarrow> counts \<noteq> None"
    and lf: "locks_free s0" and pr: "pins_room s0" and beam: "0 < beam" "beam \<le> MAX_N_SECTOR_READS"
    and N: "N = cur_id (sx_lm s0)"
    and "bs_inv en s0 qb uc st pd refs0 (k, b, page_ref, s)" "unvisited N b + b_cur b \<le> C"
      "bs_measure N b * Suc C + (C - k) < fuel"
  shows "\<exists>k' b' page_ref' s'. bs_loop en qb pd beam uc dyn counts original fuel (k, b, page_ref, s) = Inr (b', page_ref', s') \<and>
    bs_inv en s0 qb uc st pd refs0 (k', b', page_ref', s') \<and> b_cur b' \<le> k' \<and> full_ids b \<subseteq> full_ids b' \<and>
    (bcomp original b \<longrightarrow> bcomp original b') \<and> b_vis b \<subseteq> b_vis b' \<and> b_cur b \<le> b_cur b'"
  using assms(8-)
proof (induction fuel arbitrary: k b page_ref s)
  case (Suc fuel)
  show ?case
  proof (cases "k < b_cur b")
    case False
    then show ?thesis using Suc.prems(1)
      by (intro exI [of _ k] exI [of _ b] exI [of _ page_ref] exI [of _ s]) (simp add: bs_loop.simps)
  next
    case True
    from bs_round_spec [OF ready dyn lf pr beam Suc.prems(1) True N, of original] obtain k1 b1 p1 s1 where
      r: "bs_round en qb pd beam uc dyn counts original (k, b, page_ref, s) = Inr (k1, b1, p1, s1)"
        "bs_inv en s0 qb uc st pd refs0 (k1, b1, p1, s1)" "full_ids b \<subseteq> full_ids b1"
        "unvisited N b1 + b_cur b1 \<le> unvisited N b + b_cur b"
        "bs_measure N b1 < bs_measure N b \<or> bs_measure N b1 = bs_measure N b \<and> k1 = Suc k"
        "bcomp original b \<longrightarrow> bcomp original b1" "b_vis b \<subseteq> b_vis b1" "b_cur b \<le> b_cur b1" by blast
    have C: "unvisited N b1 + b_cur b1 \<le> C" using r(4) Suc.prems(2) by linarith
    have "bs_measure N b1 * Suc C + (C - k1) < bs_measure N b * Suc C + (C - k)"
    proof (cases "bs_measure N b1 < bs_measure N b")
      case lt: True
      then have "Suc (bs_measure N b1) * Suc C \<le> bs_measure N b * Suc C" by (intro mult_le_mono1) simp
      then show ?thesis by simp
    next
      case False
      with r(5) True Suc.prems(2) show ?thesis by simp
    qed
    with Suc.prems(3) have "bs_measure N b1 * Suc C + (C - k1) < fuel" by linarith
    from Suc.IH [OF r(2) C this] obtain k' b' page_ref' s' where
      l: "bs_loop en qb pd beam uc dyn counts original fuel (k1, b1, p1, s1) = Inr (b', page_ref', s')"
        "bs_inv en s0 qb uc st pd refs0 (k', b', page_ref', s')" "b_cur b' \<le> k'" "full_ids b1 \<subseteq> full_ids b'"
        "bcomp original b1 \<longrightarrow> bcomp original b'" "b_vis b1 \<subseteq> b_vis b'" "b_cur b1 \<le> b_cur b'" by blast
    have "bs_loop en qb pd beam uc dyn counts original (Suc fuel) (k, b, page_ref, s) = Inr (b', page_ref', s')"
      using True r(1) l(1) by (simp add: bs_loop.simps [of _ _ _ _ _ _ _ _ "Suc fuel"])
    moreover have "full_ids b \<subseteq> full_ids b'" "b_vis b \<subseteq> b_vis b'" "b_cur b \<le> b_cur b'" using r(3,7,8) l(4,6,7) by auto
    moreover have "bcomp original b \<longrightarrow> bcomp original b'" using r(6) l(5) by simp
    ultimately show ?thesis using l(2,3) by (intro exI [of _ k'] exI [of _ b'] exI [of _ page_ref'] exI [of _ s'] conjI)
  qed
qed simp

text \<open>When the loop ends, every candidate is expanded.\<close>

lemma bs_inv_done:
  assumes "bs_inv en s0 qb uc st pd refs0 (k, b, page_ref, s)" "b_cur b \<le> k" "n \<in> set (cands b)"
  shows "nb_id n \<in> full_ids b"
proof -
  from assms(1) have bl: "blist (live s0 st) (pdist s0 pd) (full_ids b) b"
    and un: "\<And>j. j < k \<Longrightarrow> j < b_cur b \<Longrightarrow> \<not> nb_flag (b_ret b ! j)" unfolding bs_inv_def by auto
  from assms(3) length_cands [OF blistD(1) [OF bl]] obtain j where j: "j < b_cur b" "n = cands b ! j"
    by (metis in_set_conv_nth)
  then have "n = b_ret b ! j" by (simp add: cands_def)
  with un j(1) assms(2) have "\<not> nb_flag n" by simp
  with blistD(7) [OF bl assms(3)] show ?thesis by simp
qed

section \<open>The start\<close>

definition starts_ok :: "ssd \<Rightarrow> nat list \<Rightarrow> bool" where
  "starts_ok s ids \<longleftrightarrow> ids \<noteq> [] \<and> distinct ids \<and> length ids \<le> dist_alloc_floats \<and>
     length ids * sx_n_chunks s \<le> pq_coord_alloc_size \<and> (\<forall>i \<in> set ids. id2loc_map (sx_lm s) i \<noteq> None)"

lemma bs_add_spec:
  assumes "b_cur b + length ids \<le> length (b_ret b)"
  shows "\<exists>b'. bs_add (zip ids (map pd ids)) b = Inr b' \<and> b_cur b' = b_cur b + length ids \<and>
    b_vis b' = b_vis b \<union> set ids \<and> length (b_ret b') = length (b_ret b) \<and>
    map nb_id (cands b') = map nb_id (cands b) @ ids \<and>
    (\<forall>n \<in> set (cands b'). n \<in> set (cands b) \<or> nb_dist n = pd (nb_id n) \<and> nb_flag n) \<and>
    b_full b' = b_full b \<and> b_coord b' = b_coord b \<and> b_idx b' = b_idx b \<and> b_l b' = b_l b"
  using assms
proof (induction ids arbitrary: b)
  case (Cons i ids)
  define n where "n = (b_ret b ! b_cur b)\<lparr>nb_id := i, nb_dist := pd i, nb_flag := True\<rparr>"
  have n: "nb_id n = i" "nb_dist n = pd i" "nb_flag n" by (simp_all add: n_def)
  define b1 where "b1 = b\<lparr>b_ret := (b_ret b)[b_cur b := n], b_cur := b_cur b + 1, b_vis := insert i (b_vis b)\<rparr>"
  have b1: "b_cur b1 = Suc (b_cur b)" "b_vis b1 = insert i (b_vis b)" "length (b_ret b1) = length (b_ret b)"
    "b_full b1 = b_full b" "b_coord b1 = b_coord b" "b_idx b1 = b_idx b" "b_l b1 = b_l b" by (simp_all add: b1_def)
  have lt: "b_cur b < length (b_ret b)" using Cons.prems by simp
  then have c: "cands b1 = cands b @ [n]" by (simp add: cands_def take_Suc_conv_app_nth b1_def)
  have "b_cur b1 + length ids \<le> length (b_ret b1)" using Cons.prems b1 by simp
  from Cons.IH [OF this] obtain b' where
    b': "bs_add (zip ids (map pd ids)) b1 = Inr b'" "b_cur b' = b_cur b1 + length ids"
      "b_vis b' = b_vis b1 \<union> set ids" "length (b_ret b') = length (b_ret b1)"
      "map nb_id (cands b') = map nb_id (cands b1) @ ids"
      "\<forall>n \<in> set (cands b'). n \<in> set (cands b1) \<or> nb_dist n = pd (nb_id n) \<and> nb_flag n"
      "b_full b' = b_full b1" "b_coord b' = b_coord b1" "b_idx b' = b_idx b1" "b_l b' = b_l b1" by blast
  have mem: "m \<in> set (cands b) \<or> nb_dist m = pd (nb_id m) \<and> nb_flag m" if "m \<in> set (cands b')" for m
  proof -
    from b'(6) that consider "m \<in> set (cands b)" | "m = n" | "nb_dist m = pd (nb_id m) \<and> nb_flag m" unfolding c by auto
    then show ?thesis by cases (simp_all add: n)
  qed
  have "bs_add (zip (i # ids) (map pd (i # ids))) b = Inr b'" using b'(1) lt by (simp add: b1_def n_def)
  moreover have "map nb_id (cands b') = map nb_id (cands b) @ i # ids" unfolding b'(5) c by (simp add: n)
  moreover have "b_cur b' = b_cur b + length (i # ids)" "b_vis b' = b_vis b \<union> set (i # ids)"
    using b'(2,3) b1(1,2) by auto
  ultimately show ?case using b'(4,7-) b1 mem by (intro exI [of _ b'] conjI ballI) simp_all
qed simp

lemma bs_start_spec:
  assumes gok: "graph_ok s" and ids: "ids = start_ids en query mem_L l s" "starts_ok s ids" and l: "1 \<le> l"
    and num: "\<And>j. id2loc_map (sx_lm s) j \<noteq> None \<Longrightarrow> fnum (pdist s pd j)"
  shows "\<exists>b. bs_start en pd query mem_L l s = Inr b \<and> blist (live s (set ids)) (pdist s pd) {} b \<and>
    b_full b = [] \<and> b_coord b = Map.empty \<and> b_idx b = 0 \<and> b_cur b = length ids \<and> b_vis b = set ids \<and> bcomp l b"
proof -
  note so = ids(2) [unfolded starts_ok_def]
  have "\<forall>j \<in> set ids. j * sx_n_chunks s + sx_n_chunks s \<le> length (sx_data s)"
    using so graph_okD(3) [OF gok] by fastforce
  from compute_dists_spec [OF this] so have pq: "node_pq_dists pd ids s = Inr (map (pdist s pd) ids)"
    by (simp add: node_pq_dists_def)
  define b0 where "b0 = \<lparr>b_ret = replicate (mem_L + 10 * l) neighbor_zero, b_cur = 0, b_vis = {}, b_l = l, b_nk = 0,
               b_full = [], b_coord = Map.empty, b_idx = 0\<rparr>"
  have len: "length ids < length (b_ret b0)"
    using l ids(1) by (auto simp: b0_def start_ids_def)
  then have "b_cur b0 + length ids \<le> length (b_ret b0)" by (simp add: b0_def)
  from bs_add_spec [OF this, of "pdist s pd"] obtain b1 where
    b1': "bs_add (zip ids (map (pdist s pd) ids)) b0 = Inr b1" "b_cur b1 = b_cur b0 + length ids"
      "b_vis b1 = b_vis b0 \<union> set ids" "length (b_ret b1) = length (b_ret b0)"
      "map nb_id (cands b1) = map nb_id (cands b0) @ ids"
      "\<forall>n \<in> set (cands b1). n \<in> set (cands b0) \<or> nb_dist n = pdist s pd (nb_id n) \<and> nb_flag n"
      "b_full b1 = b_full b0" "b_coord b1 = b_coord b0" "b_idx b1 = b_idx b0" "b_l b1 = b_l b0" by blast
  have b0: "b_cur b0 = 0" "b_vis b0 = {}" "cands b0 = []" "b_full b0 = []" "b_coord b0 = Map.empty" "b_idx b0 = 0" "b_l b0 = l"
    by (simp_all add: b0_def cands_def)
  note b1 = b1' [unfolded b0, simplified]
  define b where "b = b1\<lparr>b_ret := sort_lt nb_lt (cands b1) @ drop (b_cur b1) (b_ret b1)\<rparr>"
  have run: "bs_start en pd query mem_L l s = Inr b"
    using pq b1(1) ids(1) by (simp add: bs_start_def b_def b0_def start_ids_def cands_def Let_def)
  have lc: "length (cands b1) = length ids" using b1(5) by (metis length_map)
  then have c: "cands b = sort_lt nb_lt (cands b1)" by (simp add: cands_def b_def b1(2))
  have im: "nb_id ` set (cands b) = set ids" unfolding c set_sort_lt using b1(5) by (metis list.set_map)
  have nums: "\<forall>n \<in> set (cands b1). nb_num n"
  proof
    fix n assume n: "n \<in> set (cands b1)"
    then have "nb_id n \<in> set ids" using b1(5) by (metis image_eqI list.set_map)
    then show "nb_num n" using b1(6) n num [of "nb_id n"] so by simp
  qed
  have "blist (live s (set ids)) (pdist s pd) {} b"
    unfolding blist_def
  proof (intro conjI)
    have srt: "pool_sorted (cands b)"
      unfolding c pool_sorted_def
      by (rule sorted_wrt_mono_rel [OF _ sorted_sort_lt [OF nums]]) (auto simp: nb_lt_def)
    have "b_cur b = length ids" "length (b_ret b) = length (b_ret b0)" using b1(2,4) len lc by (simp_all add: b_def)
    then show "pool_ok (b_ret b) (b_cur b)"
      using srt nums so len c unfolding pool_ok_def cands_def [symmetric] by (auto simp: cands_def)
    show "distinct (map nb_id (cands b))" unfolding c distinct_map_sort_lt b1(5) using so by simp
    show "nb_id ` set (cands b) \<subseteq> b_vis b" unfolding im by (simp add: b_def b1(3))
    show "{} \<subseteq> b_vis b" by simp
    show "\<forall>i \<in> b_vis b. live s (set ids) i" using so by (auto simp: b_def b1(3) live_def)
    show "\<forall>n \<in> set (cands b). nb_dist n = pdist s pd (nb_id n) \<and> nb_flag n = (nb_id n \<notin> {})"
      using b1(6) by (simp add: c)
  qed
  moreover have "bcomp l b" using im b1(3,10) by (simp add: bcomp_def b_def)
  ultimately show ?thesis using run b1 by (intro exI [of _ b]) (simp add: b_def)
qed

end
