(* ===== verification/Beam_Correct.thy ===== *)
theory Beam_Correct imports Beam_Props begin

text \<open>
  What a beam search returns: it ends, its results are distinct reachable nodes in order of their
  exact distances, it is exhaustive when the candidate list has room for every reachable node,
  and it leaves mapping, locks, file and page contents as they were.
\<close>

definition search_table :: "ssd_env \<Rightarrow> ssd \<Rightarrow> query_buf \<Rightarrow> farr" where
  "search_table en s0 qb = populate_chunk_distances (sx_pq s0) (en_float en (query_T s0 qb)) (\<lambda>_. f_zero)"

definition search_ok :: "ssd_env \<Rightarrow> ssd \<Rightarrow> query_buf \<Rightarrow> nat \<Rightarrow> nat \<Rightarrow> nat \<Rightarrow> bool" where
  "search_ok en s0 qb mem_L l beam \<longleftrightarrow> search_ready en s0 qb (search_table en s0 qb) \<and> padded s0 qb \<and>
     cache_inv (sx_cache s0) \<and> locks_free s0 \<and> pins_room s0 \<and>
     starts_ok s0 (start_ids en (query_T s0 qb) mem_L l s0) \<and> 256 * sx_n_chunks s0 \<le> pqtable_alloc_floats \<and>
     1 \<le> l \<and> 0 < beam \<and> beam \<le> MAX_N_SECTOR_READS"

definition exact_dist :: "ssd_env \<Rightarrow> ssd \<Rightarrow> query_buf \<Rightarrow> nat \<Rightarrow> f32" where
  "exact_dist en s0 qb i = en_compare en (query_T s0 qb)
     (pad s0 (loc_coords (sx_g s0) (view_of s0) (the (id2loc_map (sx_lm s0) i))))"

definition reachable :: "ssd_env \<Rightarrow> ssd \<Rightarrow> query_buf \<Rightarrow> nat \<Rightarrow> nat \<Rightarrow> nat set" where
  "reachable en s0 qb mem_L l = {i. live s0 (set (start_ids en (query_T s0 qb) mem_L l s0)) i}"

lemma finite_reachable: "graph_ok s0 \<Longrightarrow> finite (reachable en s0 qb mem_L l)"
  by (rule finite_subset [of _ "{..<cur_id (sx_lm s0)}"]) (auto simp: reachable_def live_bound)

lemma reach_closed:
  assumes "set st \<subseteq> A" "\<And>i j. i \<in> A \<Longrightarrow> (i, j) \<in> edges s0 \<Longrightarrow> j \<in> A" "live s0 (set st) i"
  shows "i \<in> A"
proof -
  from assms(3) obtain h where h: "h \<in> set st" "(h, i) \<in> (edges s0)\<^sup>*" unfolding live_def by blast
  from h(2) show ?thesis
    by (induction rule: rtrancl_induct) (use h(1) assms(1,2) in auto)
qed

lemma push_fields:
  "sx_cache (push_query_buf qb s) = sx_cache s" "sx_mem (push_query_buf qb s) = sx_mem s"
  "sx_g (push_query_buf qb s) = sx_g s" "view_of (push_query_buf qb s) = view_of s"
  by (simp_all add: push_query_buf_def view_of_def)

lemma do_beam_search_spec:
  assumes pop: "pop_query_buf en (Some query1) s = Inr (qb, s0)"
    and ok: "search_ok en s0 qb mem_L l beam" and dyn: "dyn \<longrightarrow> exclude \<noteq> None"
    and num: "\<forall>i. id2loc_map (sx_lm s0) i \<noteq> None \<longrightarrow> fnum (exact_dist en s0 qb i)"
    and fuel: "(cur_id (sx_lm s0) + 1) * (cur_id (sx_lm s0) + 1) \<le> fuel"
  shows "\<exists>res coord refs s'.
    do_beam_search en fuel query1 mem_L l beam uc exclude dyn pass s =
      Inr (res, coord, (case pass of Some r \<Rightarrow> r | None \<Rightarrow> []) @ refs, push_query_buf qb s') \<and>
    distinct (map nb_id res) \<and> sorted_wrt (\<lambda>a b. \<not> nb_lt b a) res \<and>
    (\<forall>n \<in> set res. nb_id n \<in> reachable en s0 qb mem_L l \<and> nb_dist n = exact_dist en s0 qb (nb_id n)) \<and>
    (card (reachable en s0 qb mem_L l) \<le> l \<longrightarrow> nb_id ` set res = reachable en s0 qb mem_L l) \<and>
    (uc \<longrightarrow> (\<forall>n \<in> set res. \<exists>a. coord (nb_id n) = Some a \<and> copied s0 qb (sx_mem s') (length res) (nb_id n) a)) \<and>
    s' = s0\<lparr>sx_cache := sx_cache s', sx_mem := sx_mem s'\<rparr> \<and> view_of s' = view_of s0 \<and> padded s' qb \<and>
    (case pass of None \<Rightarrow> sx_cache s' = sx_cache s0 | Some _ \<Rightarrow> srch s0 qb refs s') \<and> res \<noteq> [] \<and> length refs = length res"
proof -
  let ?q = "query_T s0 qb" and ?pd = "search_table en s0 qb" and ?N = "cur_id (sx_lm s0)"
  define ids where "ids = start_ids en ?q mem_L l s0"
  note ok' = ok [unfolded search_ok_def]
  have ready: "search_ready en s0 qb ?pd" and gok: "graph_ok s0" and num': "\<And>j. id2loc_map (sx_lm s0) j \<noteq> None \<Longrightarrow> fnum (pdist s0 ?pd j)"
    using ok' unfolding search_ready_def by blast+
  have so: "starts_ok s0 ids" using ok' by (simp add: ids_def)
  from ok' have l: "1 \<le> l" by simp
  from bs_start_spec [OF gok ids_def so l num'] obtain b where
    b: "bs_start en ?pd ?q mem_L l s0 = Inr b" "blist (live s0 (set ids)) (pdist s0 ?pd) {} b" "b_full b = []"
      "b_coord b = Map.empty" "b_idx b = 0" "b_cur b = length ids" "b_vis b = set ids" "bcomp l b" by blast
  let ?refs0 = "case pass of Some refs \<Rightarrow> refs | None \<Rightarrow> []"
  have sr: "srch s0 qb [] s0" using ok' by (simp add: srch_def)
  have inv: "bs_inv en s0 qb uc (set ids) ?pd ?refs0 (0, b, ?refs0, s0)"
    unfolding bs_inv_def prod.case
    by (rule exI [of _ "[]"]) (use sr b in \<open>simp add: full_ids_def full_ok_def\<close>)
  have sub: "set ids \<subseteq> {..<?N}" using so graph_okD(2) [OF gok] by (auto simp: starts_ok_def)
  have card: "card (set ids) = length ids" using so by (simp add: starts_ok_def distinct_card)
  have u: "unvisited ?N b = ?N - length ids" unfolding unvisited_def b(7)
    using sub card by (simp add: card_Diff_subset)
  have le: "length ids \<le> ?N" using card_mono [OF _ sub] card by simp
  have C: "unvisited ?N b + b_cur b \<le> ?N" using u le b(6) by simp
  have "n_flagged b \<le> b_cur b"
    using length_filter_le [of nb_flag "cands b"] length_cands [OF blistD(1) [OF b(2)]] by (simp add: n_flagged_def)
  then have "bs_measure ?N b \<le> ?N" using C by (simp add: bs_measure_def)
  then have "bs_measure ?N b * Suc ?N \<le> ?N * Suc ?N" by (rule mult_le_mono1)
  then have fu: "bs_measure ?N b * Suc ?N + (?N - 0) < fuel" using fuel by simp
  define counts where "counts = map_option (\<lambda>ex i. \<not> ex (id2tag s0 i)) exclude"
  have dyn': "dyn \<longrightarrow> counts \<noteq> None" using dyn by (simp add: counts_def)
  from ok' have lf: "locks_free s0" and pr: "pins_room s0" and beam: "0 < beam" "beam \<le> MAX_N_SECTOR_READS" by simp_all
  from bs_loop_spec [OF ready dyn' lf pr beam refl inv C fu, of l] obtain k b' page_ref s1 where
    lp: "bs_loop en qb ?pd beam uc dyn counts l fuel (0, b, ?refs0, s0) = Inr (b', page_ref, s1)"
      "bs_inv en s0 qb uc (set ids) ?pd ?refs0 (k, b', page_ref, s1)" "b_cur b' \<le> k"
      "bcomp l b \<longrightarrow> bcomp l b'" "b_vis b \<subseteq> b_vis b'" "b_cur b \<le> b_cur b'" by blast
  from lp(2) obtain refs where r: "page_ref = ?refs0 @ refs" "length refs = b_idx b'" "srch s0 qb refs s1"
    "blist (live s0 (set ids)) (pdist s0 ?pd) (full_ids b') b'" "full_ok en s0 qb uc b' (sx_mem s1)"
    unfolding bs_inv_def by auto
  define res where "res = sort_lt nb_lt (b_full b')"
  define s2 where "s2 = (case pass of None \<Rightarrow> s1\<lparr>sx_cache := deref_pages page_ref (sx_cache s1)\<rparr> | Some _ \<Rightarrow> s1)"
  have ex: "\<forall>n \<in> set (b_full b'). nb_dist n = exact_dist en s0 qb (nb_id n) \<and> id2loc_map (sx_lm s0) (nb_id n) \<noteq> None"
    using r(5) by (auto simp: full_ok_def expanded_def exact_dist_def)
  have run: "do_beam_search en fuel query1 mem_L l beam uc exclude dyn pass s =
      Inr (res, b_coord b', ?refs0 @ refs, push_query_buf qb s2)"
    using pop b(1) lp(1) ok' r(1)
    by (cases pass) (simp_all add: do_beam_search_def search_table_def counts_def res_def s2_def Let_def not_less)
  have ids_res: "nb_id ` set res = full_ids b'" by (simp add: res_def full_ids_def)
  have lv: "full_ids b' \<subseteq> reachable en s0 qb mem_L l"
    using blistD(4,5) [OF r(4)] by (auto simp: reachable_def ids_def)
  have all: "nb_id ` set res = reachable en s0 qb mem_L l" if small: "card (reachable en s0 qb mem_L l) \<le> l"
  proof
    show "nb_id ` set res \<subseteq> reachable en s0 qb mem_L l" using lv ids_res by simp
    have "b_vis b' \<subseteq> reachable en s0 qb mem_L l" using blistD(5) [OF r(4)] by (auto simp: reachable_def ids_def)
    from card_mono [OF finite_reachable [OF gok] this] small have "card (b_vis b') \<le> l" by linarith
    with lp(4) b(8) have "b_vis b' \<subseteq> nb_id ` set (cands b')" by (simp add: bcomp_def)
    with bs_inv_done [OF lp(2,3)] have vf: "b_vis b' \<subseteq> full_ids b'" by blast
    have cl: "j \<in> full_ids b'" if "i \<in> full_ids b'" "(i, j) \<in> edges s0" for i j
      using that r(5) vf unfolding full_ok_def full_ids_def by blast
    have "set ids \<subseteq> full_ids b'" using lp(5) b(7) vf by blast
    then have "i \<in> full_ids b'" if "live s0 (set ids) i" for i
      by (rule reach_closed [OF _ cl that])
    then show "reachable en s0 qb mem_L l \<subseteq> nb_id ` set res"
      unfolding ids_res reachable_def ids_def by blast
  qed
  have m2: "sx_mem s2 = sx_mem s1" by (simp add: s2_def split: option.split)
  have lr: "length res = b_idx b'" using r(5) by (simp add: res_def full_ok_def)
  have coord: "\<exists>a. b_coord b' (nb_id n) = Some a \<and> copied s0 qb (sx_mem s2) (length res) (nb_id n) a"
    if "uc" "n \<in> set res" for n
    using full_ok_coord(1) [OF r(5) that(1), of "nb_id n"] that(2) unfolding m2 lr by (simp add: res_def full_ids_def)
  note same = srch_same [OF r(3)]
  have dr: "deref_pages refs (sx_cache s1) = sx_cache s0"
  proof (rule deref_restores [of _ _ "sx_file s0"])
    show "cache_inv (sx_cache s0)" using ok' by simp
    show "cache_inv (sx_cache s1)" "pins (sx_cache s1) = (\<lambda>p. pins (sx_cache s0) p + count_list refs p)"
      using r(3) by (simp_all add: srch_def)
    show "page_view (sx_cache s1) (sx_file s0) = page_view (sx_cache s0) (sx_file s0)"
      using same(5,12) by (simp add: view_of_def)
  qed
  have st: "s2 = s0\<lparr>sx_cache := sx_cache s2, sx_mem := sx_mem s2\<rparr> \<and> view_of s2 = view_of s0 \<and> padded s2 qb \<and>
    (case pass of None \<Rightarrow> sx_cache s2 = sx_cache s0 | Some _ \<Rightarrow> srch s0 qb refs s2)"
  proof (cases pass)
    case None
    have e: "s1 = s0\<lparr>sx_cache := sx_cache s1, sx_mem := sx_mem s1\<rparr>" using r(3) unfolding srch_def by blast
    have s2: "s2 = s1\<lparr>sx_cache := sx_cache s0\<rparr>" using None r(1) dr by (simp add: s2_def)
    have "s2 = s0\<lparr>sx_mem := sx_mem s1\<rparr>" unfolding s2 by (subst e) simp
    moreover have "padded s2 qb"
      using r(3) unfolding srch_def padded_def s2 pad_len_def coord_capacity_def coord_alloc_size_def vec_stride_def by simp
    ultimately show ?thesis using None by (simp add: view_of_def)
  next
    case (Some refs')
    then have "s2 = s1" by (simp add: s2_def)
    with Some r(3) show ?thesis unfolding srch_def by simp
  qed
  have "distinct (map nb_id res)" using r(5) by (simp add: res_def full_ok_def distinct_map_sort_lt)
  moreover have "sorted_wrt (\<lambda>a b. \<not> nb_lt b a) res"
    unfolding res_def by (rule sorted_sort_lt) (use ex num in auto)
  moreover have "\<forall>n \<in> set res. nb_id n \<in> reachable en s0 qb mem_L l \<and> nb_dist n = exact_dist en s0 qb (nb_id n)"
    using ex lv ids_res by (auto simp: res_def)
  moreover have "res \<noteq> []"
  proof -
    have "0 < length ids" using so by (simp add: starts_ok_def)
    then have "0 < b_cur b'" using b(6) lp(6) by linarith
    then have "0 < length (cands b')" using length_cands [OF blistD(1) [OF r(4)]] by simp
    then have "cands b' ! 0 \<in> set (cands b')" by (rule nth_mem)
    from bs_inv_done [OF lp(2,3) this] show ?thesis unfolding ids_res [symmetric] by auto
  qed
  moreover have "length refs = length res" using r(2) lr by simp
  ultimately show ?thesis using run all coord st
    by (intro exI [of _ res] exI [of _ "b_coord b'"] exI [of _ refs] exI [of _ s2] conjI ballI impI) (simp_all only: not_False_eq_True)
qed

lemma beam_search_spec:
  assumes "pop_query_buf en (Some query1) s = Inr (qb, s0)" "search_ok en s0 qb mem_L l beam"
    "dyn \<longrightarrow> exclude \<noteq> None" "\<forall>i. id2loc_map (sx_lm s0) i \<noteq> None \<longrightarrow> fnum (exact_dist en s0 qb i)"
    "(cur_id (sx_lm s0) + 1) * (cur_id (sx_lm s0) + 1) \<le> fuel" "l < 4294967296" "beam < 4294967296"
  shows "\<exists>res m'. beam_search en fuel query1 k mem_L l beam exclude dyn s =
      Inr (map (\<lambda>n. (id2tag s (nb_id n), exact_dist en s0 qb (nb_id n))) (take (min l k) res),
           push_query_buf qb (s0\<lparr>sx_mem := m'\<rparr>)) \<and>
    distinct (map nb_id res) \<and> sorted_wrt (\<lambda>a b. \<not> nb_lt b a) res \<and> nb_id ` set res \<subseteq> reachable en s0 qb mem_L l \<and>
    (card (reachable en s0 qb mem_L l) \<le> l \<longrightarrow> nb_id ` set res = reachable en s0 qb mem_L l)"
proof -
  from do_beam_search_spec [OF assms(1-5), of False None] obtain res coord refs s' where
    r: "do_beam_search en fuel query1 mem_L l beam False exclude dyn None s = Inr (res, coord, [] @ refs, push_query_buf qb s')"
      "distinct (map nb_id res)" "sorted_wrt (\<lambda>a b. \<not> nb_lt b a) res"
      "\<forall>n \<in> set res. nb_id n \<in> reachable en s0 qb mem_L l \<and> nb_dist n = exact_dist en s0 qb (nb_id n)"
      "card (reachable en s0 qb mem_L l) \<le> l \<longrightarrow> nb_id ` set res = reachable en s0 qb mem_L l"
      "s' = s0\<lparr>sx_cache := sx_cache s', sx_mem := sx_mem s'\<rparr>" "sx_cache s' = sx_cache s0" by auto
  have st: "s' = s0\<lparr>sx_mem := sx_mem s'\<rparr>" by (subst r(6)) (simp add: r(7))
  have tags: "id2tag (push_query_buf qb s') i = id2tag s i" for i
    by (subst st) (use assms(1) in \<open>auto simp: id2tag_def push_query_buf_def pop_query_buf_def split: option.splits prod.splits\<close>)
  have "beam_search en fuel query1 k mem_L l beam exclude dyn s =
      Inr (map (\<lambda>n. (id2tag s (nb_id n), nb_dist n)) (take (min l k) res), push_query_buf qb s')"
    using r(1) tags by (simp add: beam_search_def u32_id assms(6,7))
  also have "map (\<lambda>n. (id2tag s (nb_id n), nb_dist n)) (take (min l k) res) =
      map (\<lambda>n. (id2tag s (nb_id n), exact_dist en s0 qb (nb_id n))) (take (min l k) res)"
    using r(4) set_take_subset [of "min l k" res] by auto
  finally show ?thesis using r(2-5) st by (intro exI [of _ res] exI [of _ "sx_mem s'"]) auto
qed

section \<open>The properties\<close>

text \<open>C34: on an index in order \<^verbatim>\<open>do_beam_search\<close> ends and returns distinct nodes reachable from the
  entry points, each with its exact distance to the query, in their order; when the candidate list
  has room for every reachable node it returns all of them.\<close>

theorem do_beam_search_correct:
  assumes "pop_query_buf en (Some query1) s = Inr (qb, s0)" "search_ok en s0 qb mem_L l beam"
    "dyn \<longrightarrow> exclude \<noteq> None" "\<forall>i. id2loc_map (sx_lm s0) i \<noteq> None \<longrightarrow> fnum (exact_dist en s0 qb i)"
    "(cur_id (sx_lm s0) + 1) * (cur_id (sx_lm s0) + 1) \<le> fuel"
  shows "\<exists>res coord refs s'. do_beam_search en fuel query1 mem_L l beam uc exclude dyn pass s = Inr (res, coord, refs, s') \<and>
    distinct (map nb_id res) \<and> sorted_wrt (\<lambda>a b. \<not> nb_lt b a) res \<and>
    (\<forall>n \<in> set res. nb_id n \<in> reachable en s0 qb mem_L l \<and> nb_dist n = exact_dist en s0 qb (nb_id n)) \<and>
    (card (reachable en s0 qb mem_L l) \<le> l \<longrightarrow> nb_id ` set res = reachable en s0 qb mem_L l)"
  using do_beam_search_spec [OF assms, of uc pass] by blast

text \<open>C35: \<^verbatim>\<open>beam_search\<close> reports tags and exact distances of the first \<^verbatim>\<open>min(k, l)\<close> results, and gives
  mapping, locks, file, page cache and page contents back as it found them.\<close>

theorem beam_search_correct:
  assumes "pop_query_buf en (Some query1) s = Inr (qb, s0)" "search_ok en s0 qb mem_L l beam"
    "dyn \<longrightarrow> exclude \<noteq> None" "\<forall>i. id2loc_map (sx_lm s0) i \<noteq> None \<longrightarrow> fnum (exact_dist en s0 qb i)"
    "(cur_id (sx_lm s0) + 1) * (cur_id (sx_lm s0) + 1) \<le> fuel" "l < 4294967296" "beam < 4294967296"
  shows "\<exists>res m'. beam_search en fuel query1 k mem_L l beam exclude dyn s =
      Inr (map (\<lambda>n. (id2tag s (nb_id n), exact_dist en s0 qb (nb_id n))) (take (min l k) res),
           push_query_buf qb (s0\<lparr>sx_mem := m'\<rparr>)) \<and>
    distinct (map nb_id res) \<and> sorted_wrt (\<lambda>a b. \<not> nb_lt b a) res \<and> nb_id ` set res \<subseteq> reachable en s0 qb mem_L l \<and>
    (card (reachable en s0 qb mem_L l) \<le> l \<longrightarrow> nb_id ` set res = reachable en s0 qb mem_L l)"
  by (rule beam_search_spec [OF assms])

section \<open>Witnesses\<close>

text \<open>Two nodes of four bytes, each the other's neighbor.\<close>

definition demo2_geom :: geom where
  "demo2_geom = \<lparr>max_node_len = 16, nnodes_per_sector = 16, data_dim = 4, sizeof_T = 1\<rparr>"

definition demo2_file :: mem where
  "demo2_file = (\<lambda>x. if x = 4100 \<or> x = 4104 \<or> x = 4116 then 1 else 0)"

definition demo2_buf :: query_buf where
  "demo2_buf = \<lparr>qb_coord = 0, qb_sector = 131072, qb_query = 2228224, qb_update = 2228480\<rparr>"

definition demo2 :: ssd where
  "demo2 = \<lparr>sx_g = demo2_geom, sx_aligned_dim = 8,
    sx_lm = \<lparr>id2loc_map = (\<lambda>i. if i < 2 then Some i else None), page_layout = Map.empty, empty_pages = cq_new kInvalidID,
      cur_id = 2, cur_loc = 2\<rparr>,
    sx_cache = Map.empty, sx_file = demo2_file, sx_mem = (\<lambda>_. 0), sx_pool = \<lparr>cq_q = [Some demo2_buf], null_T = None\<rparr>,
    sx_data = [0, 0, 0, 0], sx_n_chunks = 2, sx_pq = demo_pq, sx_tags = Map.empty, sx_medoid = 0,
    sx_page_locks = Map.empty, sx_vec_locks = Map.empty, sx_page_idx_locks = Map.empty, sx_idx_locks = Map.empty,
    sx_use_page_search = False, sx_bg_tasks = cq_new None, sx_bg_inflight = 0, sx_beam_width = 4, sx_l_index = 16,
    sx_cfg = \<lparr>cf_range = 4, cf_maxc = 750, cf_alpha = f_zero\<rparr>, sx_num_points = 2, sx_num_frozen = 0,
    sx_frozen_location = 0\<rparr>"

definition demo2_env :: ssd_env where
  "demo2_env = \<lparr>en_compare = (\<lambda>a b. FFin False (unat (b ! 0))), en_float = (\<lambda>_ _. f_zero), en_normalize = id,
    en_mem_search = (\<lambda>_ _. [])\<rparr>"

definition demo2_popped :: ssd where
  "demo2_popped = demo2\<lparr>sx_pool := \<lparr>cq_q = [], null_T = None\<rparr>, sx_mem := poke (\<lambda>_. 0) 2228224 [1, 2, 3, 4]\<rparr>"

lemma demo2_pop: "pop_query_buf demo2_env (Some [1, 2, 3, 4]) demo2 = Inr (demo2_buf, demo2_popped)"
  by (simp add: pop_query_buf_def cq_pop_def demo2_def demo2_popped_def demo2_buf_def demo2_env_def demo2_geom_def vec_bytes_def)

lemma demo2_popped_simps:
  "sx_g demo2_popped = demo2_geom" "sx_aligned_dim demo2_popped = 8" "sx_cache demo2_popped = Map.empty"
  "sx_file demo2_popped = demo2_file" "sx_mem demo2_popped = poke (\<lambda>_. 0) 2228224 [1, 2, 3, 4]"
  "sx_data demo2_popped = [0, 0, 0, 0]" "sx_n_chunks demo2_popped = 2" "sx_pq demo2_popped = demo_pq"
  "sx_medoid demo2_popped = 0" "sx_idx_locks demo2_popped = Map.empty" "cur_id (sx_lm demo2_popped) = 2"
  "id2loc_map (sx_lm demo2_popped) = (\<lambda>i. if i < 2 then Some i else None)"
  by (simp_all add: demo2_popped_def demo2_def)

definition demo2_page :: mem where
  "demo2_page = page_mem (view_of demo2_popped 1)"

lemma demo2_view: "x < 4096 \<Longrightarrow> demo2_page x = demo2_file (4096 + x)"
  by (simp add: demo2_page_def page_mem_def view_of_def page_view_def disk_page_def peek_nth demo2_popped_simps SECTOR_LEN_def)

lemma demo2_word:
  "get32 demo2_page 4 = 1" "get32 demo2_page 8 = 1"
  "get32 demo2_page 20 = 1" "get32 demo2_page 24 = 0"
  by (simp_all add: get32_def un_le32_def peek_nth demo2_view demo2_file_def)

lemma demo2_nbrs: "loc_nbrs demo2_geom (view_of demo2_popped) 0 = [1]" "loc_nbrs demo2_geom (view_of demo2_popped) 1 = [0]"
proof -
  have s: "loc_sector_no demo2_geom 0 = 1" "loc_sector_no demo2_geom 1 = 1"
    "offset_to_loc demo2_geom 0 0 = 0" "offset_to_loc demo2_geom 0 1 = 16" "vec_bytes demo2_geom = 4"
    by (simp_all add: loc_sector_no_def demo2_geom_def offset_to_loc_def u64_def vec_bytes_def)
  show "loc_nbrs demo2_geom (view_of demo2_popped) 0 = [1]"
    unfolding loc_nbrs_def s demo2_page_def [symmetric]
    by (simp add: node_nbrs_def open_node_def DiskNode_def offset_to_node_nhood_def s(5) get32s_def demo2_word Let_def)
  show "loc_nbrs demo2_geom (view_of demo2_popped) 1 = [0]"
    unfolding loc_nbrs_def s demo2_page_def [symmetric]
    by (simp add: node_nbrs_def open_node_def DiskNode_def offset_to_node_nhood_def s(5) get32s_def demo2_word Let_def)
qed

lemma demo2_fadd: "fadd f_zero f_zero = f_zero"
  by (simp add: f_zero_def fsgn_def rnd_def rnd_mag_def rhe_def Let_def)

lemma demo2_center: "center_dist demo_pq (\<lambda>_. f_zero) 0 0 = f_zero" "center_dist demo_pq (\<lambda>_. f_zero) 1 0 = f_zero"
  by (simp_all add: center_dist_def demo_pq_simps f_zero_def fsub_def fsq_def fsgn_def Let_def rnd_def rnd_mag_def rhe_def)

lemma demo2_dist: "i < 2 \<Longrightarrow> pdist demo2_popped (search_table demo2_env demo2_popped demo2_buf) i = f_zero"
proof -
  assume i: "i < 2"
  have code: "pq_code [0, 0, 0, 0] 2 i 0 = 0" "pq_code [0, 0, 0, 0] 2 i 1 = 0"
    using i by (auto simp: pq_code_def less_Suc_eq numeral_2_eq_2)
  have "table_sum (search_table demo2_env demo2_popped demo2_buf) 2 (pq_code [0, 0, 0, 0] 2 i) =
      asym_dist demo_pq (\<lambda>_. f_zero) (pq_code [0, 0, 0, 0] 2 i)"
    using table_sum_asym [OF demo_pq_loaded, of "pq_code [0, 0, 0, 0] 2 i" "\<lambda>_. f_zero" "\<lambda>_. f_zero"] pq_code_less
    by (simp add: search_table_def demo2_popped_simps demo_pq_simps demo2_env_def)
  also have "\<dots> = f_zero"
    using code demo2_center demo2_fadd by (simp add: asym_dist_def demo_pq_simps upt_rec [of _ 2])
  finally show ?thesis by (simp add: demo2_popped_simps)
qed

lemma demo2_sizes: "vec_stride demo2_popped = 8" "coord_alloc_size demo2_popped = 131072" "coord_capacity demo2_popped = 16384"
    "pad_len demo2_popped = 4" "vec_bytes demo2_geom = 4" "sector_alloc_size = 2097152"
  by (simp_all add: vec_stride_def coord_alloc_size_def coord_capacity_def pad_len_def demo2_popped_simps demo2_geom_def
    MAX_N_CMPS_def ROUND_UP_def vec_bytes_def sector_alloc_size_def MAX_N_SECTOR_READS_def SECTOR_LEN_def)

lemma demo2_graph: "graph_ok demo2_popped"
proof -
  have "wf_geom demo2_geom" by (simp add: wf_geom_def demo2_geom_def vec_bytes_def SECTOR_LEN_def)
  moreover have "max_nbrs demo2_geom = 2" by (simp add: max_nbrs_def demo2_geom_def vec_bytes_def)
  moreover have "length (loc_nbrs demo2_geom (view_of demo2_popped) i) = 1 \<and>
      (\<forall>j \<in> set (loc_nbrs demo2_geom (view_of demo2_popped) i). j < 2)" if "i < 2" for i
  proof -
    from that consider "i = 0" | "i = 1" by linarith
    then show ?thesis by cases (simp_all add: demo2_nbrs [unfolded One_nat_def])
  qed
  ultimately show ?thesis
    unfolding graph_ok_def demo2_popped_simps
    by (simp add: dist_alloc_floats_def pq_coord_alloc_size_def)
qed

lemma demo2_bufs: "bufs_ok demo2_popped demo2_buf"
  by (simp add: bufs_ok_def demo2_sizes rdisj_def demo2_buf_def demo2_popped_simps)

lemma demo2_padded: "padded demo2_popped demo2_buf"
  unfolding padded_def demo2_sizes
proof (intro allI impI)
  fix k :: nat assume "k < 16384"
  then have "sx_mem demo2_popped (k * 8 + 4 + i) = 0" if "i < 4" for i
    using that by (simp add: demo2_popped_simps poke_def)
  then show "peek (sx_mem demo2_popped) (qb_coord demo2_buf + k * 8 + vec_bytes (sx_g demo2_popped)) 4 = replicate 4 0"
    by (simp add: list_eq_iff_nth_eq peek_nth demo2_popped_simps(1) demo2_sizes demo2_buf_def)
qed

lemma demo2_search_ok: "search_ok demo2_env demo2_popped demo2_buf 0 4 4"
proof -
  have "search_ready demo2_env demo2_popped demo2_buf (search_table demo2_env demo2_popped demo2_buf)"
    unfolding search_ready_def using demo2_graph demo2_bufs demo2_dist
    by (simp add: demo2_sizes demo2_popped_simps f_zero_def)
  moreover have "starts_ok demo2_popped (start_ids demo2_env (query_T demo2_popped demo2_buf) 0 4 demo2_popped)"
    by (simp add: starts_ok_def start_ids_def demo2_popped_simps dist_alloc_floats_def pq_coord_alloc_size_def)
  moreover have "locks_free demo2_popped" "pins_room demo2_popped" "cache_inv (sx_cache demo2_popped)"
    by (simp_all add: locks_free_def lk_def pins_room_def pins_def cache_inv_def demo2_popped_simps)
  ultimately show ?thesis using demo2_padded
    by (simp add: search_ok_def demo2_popped_simps pqtable_alloc_floats_def MAX_N_SECTOR_READS_def)
qed

lemma demo2_reachable: "card (reachable demo2_env demo2_popped demo2_buf 0 4) \<le> 4"
proof -
  have "reachable demo2_env demo2_popped demo2_buf 0 4 \<subseteq> {..<2}"
    by (auto simp: reachable_def live_def demo2_popped_simps split: if_splits)
  from card_mono [OF _ this] show ?thesis by simp
qed

theorem do_beam_search_correct_witness:
  "\<exists>res coord refs s'. do_beam_search demo2_env 9 [1, 2, 3, 4] 0 4 4 True None False (Some []) demo2 = Inr (res, coord, refs, s') \<and>
    nb_id ` set res = reachable demo2_env demo2_popped demo2_buf 0 4"
proof -
  have "\<forall>i. id2loc_map (sx_lm demo2_popped) i \<noteq> None \<longrightarrow> fnum (exact_dist demo2_env demo2_popped demo2_buf i)"
    by (simp add: exact_dist_def demo2_env_def)
  from do_beam_search_correct [OF demo2_pop demo2_search_ok _ this, of False None 9 True "Some []"] demo2_reachable
  show ?thesis by (simp add: demo2_popped_simps) blast
qed

theorem beam_search_correct_witness:
  "\<exists>(res :: neighbor list) m'. beam_search demo2_env 9 [1, 2, 3, 4] 1 0 4 4 None False demo2 =
     Inr (map (\<lambda>n. (id2tag demo2 (nb_id n), exact_dist demo2_env demo2_popped demo2_buf (nb_id n))) (take (min 4 1) res),
          push_query_buf demo2_buf (demo2_popped\<lparr>sx_mem := m'\<rparr>)) \<and>
    nb_id ` set res = reachable demo2_env demo2_popped demo2_buf 0 4"
proof -
  have n: "\<forall>i. id2loc_map (sx_lm demo2_popped) i \<noteq> None \<longrightarrow> fnum (exact_dist demo2_env demo2_popped demo2_buf i)"
    by (simp add: exact_dist_def demo2_env_def)
  have f: "(cur_id (sx_lm demo2_popped) + 1) * (cur_id (sx_lm demo2_popped) + 1) \<le> 9" by (simp add: demo2_popped_simps)
  have d: "False \<longrightarrow> (None :: (nat \<Rightarrow> bool) option) \<noteq> None" and l: "(4 :: nat) < 4294967296" by simp_all
  obtain res :: "neighbor list" and m' where r: "beam_search demo2_env 9 [1, 2, 3, 4] 1 0 4 4 None False demo2 =
     Inr (map (\<lambda>n. (id2tag demo2 (nb_id n), exact_dist demo2_env demo2_popped demo2_buf (nb_id n))) (take (min 4 1) res),
          push_query_buf demo2_buf (demo2_popped\<lparr>sx_mem := m'\<rparr>))"
    and e: "card (reachable demo2_env demo2_popped demo2_buf 0 4) \<le> 4 \<longrightarrow> nb_id ` set res = reachable demo2_env demo2_popped demo2_buf 0 4"
    using beam_search_correct [OF demo2_pop demo2_search_ok d n f l l, of 1] by blast
  from mp [OF e demo2_reachable] have "nb_id ` set res = reachable demo2_env demo2_popped demo2_buf 0 4" .
  with r show ?thesis by blast
qed

end
