(* ===== verification/Filter_Search.thy ===== *)
theory Filter_Search imports Beam_Search begin

text \<open>
  \<^verbatim>\<open>do_filter_beam_search\<close> and \<^verbatim>\<open>filter_beam_search\<close> of \<^verbatim>\<open>src/search/beam_search.cpp\<close>: a beam search
  that keeps two bounded heaps beside the candidate list, one of nodes whose exact distance is known and
  whose tag is a candidate, one of nodes worth reading later.  A heap is the list of its elements in
  ascending order, its top the last one.  The candidate set is the list of its elements in
  the hash set's iteration order.
\<close>

record fheaps =
  fh_exact :: "neighbor list"
  fh_pq :: "neighbor list"
  fh_done :: "nat set"

text \<open>Reading the top of an empty heap (a bound of zero) is undefined.\<close>

definition push_to_heap :: "neighbor \<Rightarrow> nat \<Rightarrow> neighbor list \<Rightarrow> neighbor list res" where
  "push_to_heap n max_size heap =
     (if length heap < max_size then Inr (ins_lt nb_lt n heap)
      else if heap = [] then Inl OutOfRange
      else if flt (nb_dist n) (nb_dist (last heap)) then Inr (ins_lt nb_lt n (butlast heap))
      else Inr heap)"

definition push_exact :: "nat \<Rightarrow> nat \<Rightarrow> f32 \<Rightarrow> fheaps \<Rightarrow> fheaps res" where
  "push_exact k_search i d h = bindE (push_to_heap (Neighbor i d True) k_search (fh_exact h)) (\<lambda>e. Inr (h\<lparr>fh_exact := e\<rparr>))"

definition push_pq :: "nat \<Rightarrow> nat \<Rightarrow> f32 \<Rightarrow> fheaps \<Rightarrow> fheaps res" where
  "push_pq refine_capacity i d h = bindE (push_to_heap (Neighbor i d True) refine_capacity (fh_pq h)) (\<lambda>p. Inr (h\<lparr>fh_pq := p\<rparr>))"

text \<open>The exact distance of a node in a sector buffer: through a copy while the coordinate scratch
  has a slot, else on the buffer itself, \<^verbatim>\<open>aligned_dim\<close> elements of it.\<close>

definition exact_dist_of :: "ssd_env \<Rightarrow> query_buf \<Rightarrow> nat \<Rightarrow> nat \<times> ssd \<Rightarrow> (f32 \<times> nat option \<times> nat \<times> ssd) res" where
  "exact_dist_of en qb node_disk_buf = (\<lambda>(data_buf_idx, s).
     if data_buf_idx < MAX_N_CMPS
     then bindE (copy_coords qb node_disk_buf data_buf_idx s) (\<lambda>(a, s).
            Inr (en_compare en (query_T s qb) (peek (sx_mem s) a (vec_stride s)), Some a, data_buf_idx + 1, s))
     else Inr (en_compare en (query_T s qb) (peek (sx_mem s) node_disk_buf (vec_stride s)), None, data_buf_idx, s))"

section \<open>Prefilling the result heap\<close>

text \<open>One batch: \<^verbatim>\<open>reader->read\<close> goes to the file, whatever the page cache holds; the locations are
  looked up again once the locks are released.\<close>

definition prefill_read :: "query_buf \<Rightarrow> nat list \<Rightarrow> ssd \<Rightarrow> ssd res" where
  "prefill_read qb ids s =
     bindE (lock_idx kInvalidID ids True (sx_idx_locks s)) (\<lambda>(locked, t).
     bindE (mapE (id2loc (sx_lm s)) ids) (\<lambda>locs.
     if sector_alloc_size < length ids * size_per_io (sx_g s) then Inl OutOfRange
     else bindE (unlock_idx locked t) (\<lambda>t.
       Inr (s\<lparr>sx_mem := read_io (sx_file s) (frontier_reqs s qb (zip ids locs)) (sx_mem s), sx_idx_locks := t\<rparr>))))"

fun prefill_nodes :: "ssd_env \<Rightarrow> query_buf \<Rightarrow> nat \<Rightarrow> (nat \<times> nat) list \<Rightarrow> nat \<times> fheaps \<times> ssd \<Rightarrow> (nat \<times> fheaps \<times> ssd) res" where
  "prefill_nodes en qb k_search [] (idx, h, s) = Inr (idx, h, s)"
| "prefill_nodes en qb k_search ((i, sector_buf) # ns) (idx, h, s) =
     bindE (id2loc (sx_lm s) i) (\<lambda>loc.
     bindE (exact_dist_of en qb (offset_to_loc (sx_g s) sector_buf loc) (idx, s)) (\<lambda>(d, _, idx, s).
     bindE (push_exact k_search i d h) (\<lambda>h. prefill_nodes en qb k_search ns (idx, h, s))))"

text \<open>A beam of zero never advances.\<close>

fun prefill_batches :: "ssd_env \<Rightarrow> query_buf \<Rightarrow> nat \<Rightarrow> nat \<Rightarrow> nat \<Rightarrow> nat list \<Rightarrow> nat \<times> fheaps \<times> ssd \<Rightarrow> (nat \<times> fheaps \<times> ssd) res" where
  "prefill_batches en qb k_search beam fuel ids (idx, h, s) =
     (if ids = [] then Inr (idx, h, s)
      else case fuel of 0 \<Rightarrow> Inl OutOfFuel
      | Suc fuel \<Rightarrow>
          let batch = take (min beam (length ids)) ids
          in bindE (prefill_read qb batch s) (\<lambda>s.
             bindE (prefill_nodes en qb k_search
                      (map (\<lambda>(k, i). (i, qb_sector qb + k * size_per_io (sx_g s))) (zip [0..<length batch] batch)) (idx, h, s))
               (prefill_batches en qb k_search beam fuel (drop (length batch) ids))))"

declare prefill_batches.simps [simp del]

definition prefill :: "ssd_env \<Rightarrow> query_buf \<Rightarrow> nat \<Rightarrow> nat \<Rightarrow> nat \<Rightarrow> nat list \<Rightarrow> ssd \<Rightarrow> (nat \<times> fheaps \<times> ssd) res" where
  "prefill en qb k_search beam fuel candidate_set s =
     (let prefill_ids = take (min (u32 (length candidate_set)) k_search) candidate_set
      in prefill_batches en qb k_search beam fuel prefill_ids
           (0, \<lparr>fh_exact = [], fh_pq = [], fh_done = set prefill_ids\<rparr>, s))"

section \<open>The search\<close>

definition refine_capacity :: "nat \<Rightarrow> nat" where
  "refine_capacity k_search = max 3000 (u32 (k_search * 1000))"

definition fb_start :: "ssd_env \<Rightarrow> farr \<Rightarrow> byte list \<Rightarrow> nat \<Rightarrow> nat \<Rightarrow> nat \<Rightarrow> nat list \<Rightarrow> nat \<times> fheaps \<times> ssd \<Rightarrow> (bsearch \<times> fheaps) res" where
  "fb_start en pq_dists query mem_L l_search cap candidate_set = (\<lambda>(idx, h, s).
     let ids = start_ids en query mem_L l_search s
     in bindE (bs_start en pq_dists query mem_L l_search s) (\<lambda>b.
        bindE (node_pq_dists pq_dists ids s) (\<lambda>dists.
        bindE (foldE (\<lambda>(i, d) h. if id2tag s i \<in> set candidate_set then push_pq cap i d h else Inr h) (zip ids dists) h) (\<lambda>h.
          Inr (b\<lparr>b_idx := idx\<rparr>, h)))))"

definition fb_visit :: "ssd \<Rightarrow> nat \<Rightarrow> nat list \<Rightarrow> nat \<times> f32 \<Rightarrow> bsearch \<times> fheaps \<Rightarrow> (bsearch \<times> fheaps) res" where
  "fb_visit s cap candidate_set = (\<lambda>(i, dist) (b, h).
     if cur_id (sx_lm s) < i then Inl Crash
     else if i \<in> b_vis b then Inr (b, h)
     else bindE (if id2tag s i \<in> set candidate_set then push_pq cap i dist h else Inr h) (\<lambda>h.
          bindE (bs_place i dist (b\<lparr>b_vis := insert i (b_vis b)\<rparr>)) (\<lambda>b. Inr (b, h))))"

definition fb_expand :: "ssd_env \<Rightarrow> query_buf \<Rightarrow> farr \<Rightarrow> nat \<Rightarrow> nat \<Rightarrow> nat list \<Rightarrow> bool \<Rightarrow> bool \<Rightarrow> (nat \<Rightarrow> bool) option \<Rightarrow> nat \<Rightarrow>
    nat \<times> nat \<times> nat \<Rightarrow> bsearch \<times> fheaps \<times> ssd \<Rightarrow> (bsearch \<times> fheaps \<times> ssd) res" where
  "fb_expand en qb pq_dists k_search cap candidate_set use_coord dyn counts original = (\<lambda>(i, loc, sector_buf) (b, h, s).
     let g = sx_g s; node_disk_buf = offset_to_loc g sector_buf loc;
         node = open_node g (sx_mem s) i node_disk_buf
     in bindE (copy_coords qb node_disk_buf (b_idx b) s) (\<lambda>(a, s).
     let d = en_compare en (query_T s qb) (peek (sx_mem s) a (vec_stride s));
         b = b\<lparr>b_idx := b_idx b + 1,
               b_coord := (if use_coord \<and> b_coord b i = None then (b_coord b)(i \<mapsto> a) else b_coord b)\<rparr>;
         h = h\<lparr>fh_done := insert i (fh_done h)\<rparr>
     in bindE (if id2tag s i \<in> set candidate_set then push_exact k_search i d h else Inr h) (\<lambda>h.
     let nbrs = get32s (sx_mem s) (dn_nbrs node) (dn_nnbrs node)
     in bindE (node_pq_dists pq_dists nbrs s) (\<lambda>dists.
     bindE (foldE (fb_visit s cap candidate_set) (zip nbrs dists) (b, h)) (\<lambda>(b, h).
     bindE (bs_dyn dyn counts original b) (\<lambda>b. Inr (b, h, s)))))))"

definition fb_round :: "ssd_env \<Rightarrow> query_buf \<Rightarrow> farr \<Rightarrow> nat \<Rightarrow> nat \<Rightarrow> nat list \<Rightarrow> nat \<Rightarrow> bool \<Rightarrow> bool \<Rightarrow> (nat \<Rightarrow> bool) option \<Rightarrow> nat \<Rightarrow>
    nat \<times> bsearch \<times> fheaps \<times> nat list \<times> ssd \<Rightarrow> (nat \<times> bsearch \<times> fheaps \<times> nat list \<times> ssd) res" where
  "fb_round en qb pq_dists k_search cap candidate_set beam use_coord dyn counts original = (\<lambda>(k, b, h, page_ref, s).
     let (ret, frontier) = pick_frontier beam [k..<b_cur b] (b_ret b, [], 0);
         b = b\<lparr>b_ret := ret, b_nk := b_cur b\<rparr>
     in bindE (read_frontier qb frontier (page_ref, s)) (\<lambda>(nodes, page_ref, s).
     bindE (foldE (fb_expand en qb pq_dists k_search cap candidate_set use_coord dyn counts original) nodes (b, h, s)) (\<lambda>(b, h, s).
       Inr (if b_nk b \<le> k then b_nk b else k + 1, b, h, page_ref, s))))"

fun fb_loop :: "ssd_env \<Rightarrow> query_buf \<Rightarrow> farr \<Rightarrow> nat \<Rightarrow> nat \<Rightarrow> nat list \<Rightarrow> nat \<Rightarrow> bool \<Rightarrow> bool \<Rightarrow> (nat \<Rightarrow> bool) option \<Rightarrow> nat \<Rightarrow> nat \<Rightarrow>
    nat \<times> bsearch \<times> fheaps \<times> nat list \<times> ssd \<Rightarrow> (bsearch \<times> fheaps \<times> nat list \<times> ssd) res" where
  "fb_loop en qb pq_dists k_search cap candidate_set beam use_coord dyn counts original fuel (k, b, h, page_ref, s) =
     (if \<not> k < b_cur b then Inr (b, h, page_ref, s)
      else case fuel of 0 \<Rightarrow> Inl OutOfFuel
      | Suc fuel \<Rightarrow> bindE (fb_round en qb pq_dists k_search cap candidate_set beam use_coord dyn counts original (k, b, h, page_ref, s))
          (fb_loop en qb pq_dists k_search cap candidate_set beam use_coord dyn counts original fuel))"

declare fb_loop.simps [simp del]

section \<open>Refinement\<close>

text \<open>The promising nodes from the worst to the best, without those already computed.\<close>

fun refine_ids :: "neighbor list \<Rightarrow> nat set \<Rightarrow> nat list" where
  "refine_ids [] done = []"
| "refine_ids (n # ns) done = (if nb_id n \<in> done then refine_ids ns done else nb_id n # refine_ids ns (insert (nb_id n) done))"

definition refine_node :: "ssd_env \<Rightarrow> query_buf \<Rightarrow> nat \<Rightarrow> bool \<Rightarrow> nat \<times> nat \<times> nat \<Rightarrow> bsearch \<times> fheaps \<times> ssd \<Rightarrow>
    (bsearch \<times> fheaps \<times> ssd) res" where
  "refine_node en qb k_search use_coord = (\<lambda>(i, loc, sector_buf) (b, h, s).
     bindE (exact_dist_of en qb (offset_to_loc (sx_g s) sector_buf loc) (b_idx b, s)) (\<lambda>(d, copy, idx, s).
     let b = b\<lparr>b_idx := idx,
               b_coord := (case copy of Some a \<Rightarrow> if use_coord \<and> b_coord b i = None then (b_coord b)(i \<mapsto> a) else b_coord b
                           | None \<Rightarrow> b_coord b)\<rparr>
     in bindE (push_exact k_search i d h) (\<lambda>h. Inr (b, h, s))))"

fun refine_batches :: "ssd_env \<Rightarrow> query_buf \<Rightarrow> nat \<Rightarrow> nat \<Rightarrow> bool \<Rightarrow> nat \<Rightarrow> nat list \<Rightarrow> bsearch \<times> fheaps \<times> nat list \<times> ssd \<Rightarrow>
    (bsearch \<times> fheaps \<times> nat list \<times> ssd) res" where
  "refine_batches en qb k_search beam use_coord fuel ids (b, h, page_ref, s) =
     (if ids = [] then Inr (b, h, page_ref, s)
      else case fuel of 0 \<Rightarrow> Inl OutOfFuel
      | Suc fuel \<Rightarrow>
          let batch = take (min beam (length ids)) ids
          in bindE (read_frontier qb batch (page_ref, s)) (\<lambda>(nodes, page_ref, s).
             bindE (foldE (refine_node en qb k_search use_coord) nodes (b, h, s)) (\<lambda>(b, h, s).
               refine_batches en qb k_search beam use_coord fuel (drop (length batch) ids) (b, h, page_ref, s))))"

declare refine_batches.simps [simp del]

definition do_filter_beam_search :: "ssd_env \<Rightarrow> nat \<Rightarrow> byte list \<Rightarrow> nat \<Rightarrow> nat \<Rightarrow> nat \<Rightarrow> nat \<Rightarrow> nat list \<Rightarrow> bool \<Rightarrow> (nat \<Rightarrow> bool) option \<Rightarrow>
    bool \<Rightarrow> nat list option \<Rightarrow> ssd \<Rightarrow> (neighbor list \<times> (nat \<Rightarrow> nat option) \<times> nat list \<times> ssd) res" where
  "do_filter_beam_search en fuel query1 k_search mem_L l_search beam candidate_set use_coord exclude dyn passthrough s =
     bindE (pop_query_buf en (Some query1) s) (\<lambda>(qb, s).
     if pqtable_alloc_floats < 256 * sx_n_chunks s then Inl OutOfRange
     else let query = query_T s qb;
         pq_dists = populate_chunk_distances (sx_pq s) (en_float en query) (\<lambda>_. f_zero);
         cap = refine_capacity k_search;
         counts = map_option (\<lambda>ex i. \<not> ex (id2tag s i) \<and> id2tag s i \<in> set candidate_set) exclude
     in bindE (prefill en qb k_search beam fuel candidate_set s) (\<lambda>(idx, h, s).
     bindE (fb_start en pq_dists query mem_L l_search cap candidate_set (idx, h, s)) (\<lambda>(b, h).
     bindE (fb_loop en qb pq_dists k_search cap candidate_set beam use_coord dyn counts l_search fuel
              (0, b, h, (case passthrough of Some refs \<Rightarrow> refs | None \<Rightarrow> []), s)) (\<lambda>(b, h, page_ref, s).
     bindE (refine_batches en qb k_search beam use_coord fuel (refine_ids (rev (fh_pq h)) (fh_done h)) (b, h, page_ref, s))
       (\<lambda>(b, h, page_ref, s).
       let s = (case passthrough of None \<Rightarrow> s\<lparr>sx_cache := deref_pages page_ref (sx_cache s)\<rparr> | Some _ \<Rightarrow> s)
       in Inr (fh_exact h, b_coord b, page_ref, push_query_buf qb s))))))"

text \<open>\<^verbatim>\<open>filter_beam_search\<close>: the first results' tags and distances.\<close>

definition filter_beam_search :: "ssd_env \<Rightarrow> nat \<Rightarrow> byte list \<Rightarrow> nat \<Rightarrow> nat \<Rightarrow> nat \<Rightarrow> nat \<Rightarrow> nat list \<Rightarrow> (nat \<Rightarrow> bool) option \<Rightarrow> bool \<Rightarrow>
    ssd \<Rightarrow> ((nat \<times> f32) list \<times> ssd) res" where
  "filter_beam_search en fuel query k_search mem_L l_search beam candidate_set deleted dyn s =
     bindE (do_filter_beam_search en fuel query (u32 k_search) mem_L (u32 l_search) (u32 beam) candidate_set False deleted dyn None s)
       (\<lambda>(expanded, _, _, s). Inr (map (\<lambda>n. (id2tag s (nb_id n), nb_dist n)) (take k_search expanded), s))"

end
