(* ===== verification/Index_File.thy ===== *)
theory Index_File imports Ssd_State begin

text \<open>
  The files of an index: the header and the PQ and tag files the merges write
  (\<^verbatim>\<open>write_metadata_and_pq\<close>, \<^verbatim>\<open>save_bin\<close>) and \<^verbatim>\<open>SSDIndex::load\<close> with its parts read back
  (\<^verbatim>\<open>src/ssd_index.cpp\<close>, \<^verbatim>\<open>include/utils.h\<close>).  A file is its bytes and its length.
\<close>

record bfile =
  bf_bytes :: mem
  bf_len :: nat

definition empty_file :: bfile where
  "empty_file = \<lparr>bf_bytes = (\<lambda>_. 0), bf_len = 0\<rparr>"

definition fwrite :: "nat \<Rightarrow> byte list \<Rightarrow> bfile \<Rightarrow> bfile" where
  "fwrite off bs f = \<lparr>bf_bytes = poke (bf_bytes f) off bs, bf_len = max (bf_len f) (off + length bs)\<rparr>"

definition ftruncate :: "nat \<Rightarrow> bfile \<Rightarrow> bfile" where
  "ftruncate n f = \<lparr>bf_bytes = (\<lambda>x. if x < n \<and> x < bf_len f then bf_bytes f x else 0), bf_len = n\<rparr>"

text \<open>\<^verbatim>\<open>save_bin\<close> opens an existing file without truncating it.\<close>

definition save_bin :: "nat \<Rightarrow> nat \<Rightarrow> byte list \<Rightarrow> nat \<Rightarrow> bfile \<Rightarrow> bfile" where
  "save_bin npts ndims payload offset f = fwrite (offset + 8) payload (fwrite (offset + 4) (le32 ndims) (fwrite offset (le32 npts) f))"

section \<open>Writing\<close>

definition index_file_size :: "geom \<Rightarrow> nat \<Rightarrow> nat" where
  "index_file_size g new_npoints = SECTOR_LEN + ROUND_UP new_npoints (nnodes_per_sector g) div nnodes_per_sector g * SECTOR_LEN"

definition output_metadata :: "ssd \<Rightarrow> nat \<Rightarrow> nat \<Rightarrow> nat list" where
  "output_metadata s new_npoints medoid =
     [new_npoints, data_dim (sx_g s), medoid, max_node_len (sx_g s), nnodes_per_sector (sx_g s),
      sx_num_frozen s, sx_frozen_location s, index_file_size (sx_g s) new_npoints]"

definition save_metadata :: "nat list \<Rightarrow> bfile \<Rightarrow> bfile" where
  "save_metadata md f = save_bin (length md) 1 (concat (map le64 md)) 0 f"

record index_files =
  if_index :: bfile
  if_tags :: bfile
  if_pq :: bfile

text \<open>Without a tag vector the current tags of the ids below \<^verbatim>\<open>new_npoints\<close> are written.  PQ codes past
  the end of \<^verbatim>\<open>data\<close> are not there to be written.\<close>

definition write_metadata_and_pq :: "nat \<Rightarrow> nat \<Rightarrow> nat list option \<Rightarrow> ssd \<Rightarrow> index_files \<Rightarrow> index_files res" where
  "write_metadata_and_pq new_npoints new_medoid new_tags s fs =
     (if nnodes_per_sector (sx_g s) = 0 then Inl Trap
      else let tags_vec = (case new_tags of None \<Rightarrow> map (id2tag s) [0..<new_npoints] | Some ts \<Rightarrow> ts)
      in if length tags_vec < new_npoints \<or> length (sx_data s) < new_npoints * sx_n_chunks s then Inl OutOfRange
      else Inr \<lparr>if_index = ftruncate (index_file_size (sx_g s) new_npoints)
                  (save_metadata (output_metadata s new_npoints new_medoid) (if_index fs)),
                if_tags = save_bin new_npoints 1 (concat (map le32 (take new_npoints tags_vec))) 0 (if_tags fs),
                if_pq = save_bin new_npoints (sx_n_chunks s) (take (new_npoints * sx_n_chunks s) (sx_data s)) 0 (if_pq fs)\<rparr>)"

section \<open>Loading\<close>

definition read_u32 :: "bfile \<Rightarrow> nat \<Rightarrow> nat" where
  "read_u32 f off = get32 (bf_bytes f) off"

definition read_u64 :: "bfile \<Rightarrow> nat \<Rightarrow> nat" where
  "read_u64 f off = un_le64 (peek (bf_bytes f) off 8)"

record index_header =
  ih_nnodes :: nat
  ih_ndims :: nat
  ih_medoid :: nat
  ih_max_node_len :: nat
  ih_nnodes_per_sector :: nat
  ih_num_frozen :: nat
  ih_frozen_id :: nat

text \<open>The new format: two 32-bit words, then 64-bit words.\<close>

definition read_header :: "bfile \<Rightarrow> index_header" where
  "read_header f =
     \<lparr>ih_nnodes = read_u64 f 8, ih_ndims = read_u64 f 16, ih_medoid = read_u64 f 24, ih_max_node_len = read_u64 f 32,
      ih_nnodes_per_sector = read_u64 f 40, ih_num_frozen = read_u64 f 48, ih_frozen_id = read_u64 f 56\<rparr>"

text \<open>What \<^verbatim>\<open>load\<close> sets from the header; the degree the node length allows replaces another range.
  A page of more than sixteen nodes is refused.\<close>

definition load_header :: "index_header \<Rightarrow> ssd \<Rightarrow> ssd option" where
  "load_header h s =
     (let g = (sx_g s)\<lparr>max_node_len := ih_max_node_len h, nnodes_per_sector := ih_nnodes_per_sector h, data_dim := ih_ndims h\<rparr>;
          max_degree = u64 (max_degree_of g);
          cf = (if max_degree \<noteq> cf_range (sx_cfg s) then (sx_cfg s)\<lparr>cf_range := u32 max_degree\<rparr> else sx_cfg s)
      in if kMaxElemInAPage < ih_nnodes_per_sector h then None
         else Some (s\<lparr>sx_g := g, sx_cfg := cf, sx_num_frozen := ih_num_frozen h,
                sx_frozen_location := (if ih_num_frozen h = 1 then ih_frozen_id h else sx_frozen_location s)\<rparr>))"

text \<open>The old format: no dimension, no frozen point; the range stays.\<close>

definition load_old_header :: "bfile \<Rightarrow> ssd \<Rightarrow> ssd option" where
  "load_old_header f s =
     (if bf_len f \<noteq> read_u64 f 0 then None
      else Some (s\<lparr>sx_g := (sx_g s)\<lparr>max_node_len := read_u64 f 24, nnodes_per_sector := read_u64 f 32\<rparr>\<rparr>))"

text \<open>The environment variables of \<^verbatim>\<open>load\<close>: the numbers in \<^verbatim>\<open>PIPEANN_PQ_EXPECTED_POINTS\<close> and
  \<^verbatim>\<open>PIPEANN_PQ_EXTRA_POINTS\<close>, zero without them, and \<^verbatim>\<open>PIPEANN_SKIP_TAGS_LOAD\<close> and \<^verbatim>\<open>PIPEANN_TAGS_IDENTITY\<close>,
  which are on with a text that does not start with a zero.\<close>

record load_env =
  le_expected_points :: nat
  le_extra_points :: nat
  le_skip_tags_load :: "string option"
  le_tags_identity :: "string option"

definition env_flag :: "string option \<Rightarrow> bool" where
  "env_flag v = (case v of None \<Rightarrow> False | Some [] \<Rightarrow> False | Some (c # cs) \<Rightarrow> c \<noteq> CHR ''0'')"

text \<open>The code file: \<^verbatim>\<open>reserve_pts\<close> is what the environment asks for, at least the file's count.\<close>

definition load_pq_codes :: "load_env \<Rightarrow> bfile \<Rightarrow> ssd \<Rightarrow> ssd option" where
  "load_pq_codes en f s =
     (if bf_len f < 8 then None
      else let npts = read_u32 f 0; nchunks = read_u32 f 4;
               reserve_pts = max (max npts (le_expected_points en)) (u64 (npts + le_extra_points en))
      in if bf_len f < 8 + npts * nchunks then None
      else Some (s\<lparr>sx_data := peek (bf_bytes f) 8 (npts * nchunks) @ replicate ((reserve_pts - npts) * nchunks) 0,
                   sx_num_points := npts, sx_n_chunks := nchunks, sx_lm := (sx_lm s)\<lparr>cur_id := npts\<rparr>\<rparr>))"

text \<open>The tag file, if there is one and no variable says to leave it; every entry is stored, also the equal ones.
  \<^verbatim>\<open>TAGS_IDENTITY_ONLY\<close> is not defined.\<close>

definition load_tags :: "load_env \<Rightarrow> bfile option \<Rightarrow> ssd \<Rightarrow> ssd" where
  "load_tags en tf s =
     (case tf of None \<Rightarrow> s\<lparr>sx_tags := Map.empty\<rparr>
      | Some f \<Rightarrow> if env_flag (le_skip_tags_load en) \<or> env_flag (le_tags_identity en) then s\<lparr>sx_tags := Map.empty\<rparr>
                  else (let tag_num = read_u32 f 0; tag_dim = read_u32 f 4; tag_v = get32s (bf_bytes f) 8 (tag_num * tag_dim)
                   in s\<lparr>sx_tags := fold (\<lambda>i m. m(u32 i \<mapsto> tag_v ! i)) [0..<tag_num] Map.empty\<rparr>))"

text \<open>\<^verbatim>\<open>load\<close>: \<^verbatim>\<open>-1\<close> is \<^verbatim>\<open>Inr None\<close>.  The pivot file's reader is \<^verbatim>\<open>load_pq_centroid_bin\<close>;
  \<^verbatim>\<open>layout\<close> is the page layout it reads, the equal one without a partition file.\<close>

definition load_index :: "load_env \<Rightarrow> (nat \<Rightarrow> pq_table res) \<Rightarrow> query_buf list \<Rightarrow> bool \<Rightarrow> bool \<Rightarrow> (geom \<Rightarrow> nat \<Rightarrow> loc_map \<Rightarrow> loc_map res) \<Rightarrow>
    bool \<Rightarrow> bfile option \<Rightarrow> index_files \<Rightarrow> ssd \<Rightarrow> ssd option res" where
  "load_index en pivots bufs new_index_format use_page_search layout enable_tags tags_file fs s =
     (let f = if_index fs; h = read_header f;
          disk_nnodes = (if new_index_format then ih_nnodes h else read_u64 f 8);
          medoid_id_on_file = (if new_index_format then ih_medoid h else read_u64 f 16)
      in case if new_index_format then load_header h s else load_old_header f s of None \<Rightarrow> Inr None
      | Some s \<Rightarrow> (case load_pq_codes en (if_pq fs) s of None \<Rightarrow> Inr None
      | Some s \<Rightarrow> bindE (pivots (sx_n_chunks s)) (\<lambda>t.
          let s = s\<lparr>sx_pq := t\<rparr>
          in if disk_nnodes \<noteq> sx_num_points s then Inr None
          else let s = s\<lparr>sx_g := (sx_g s)\<lparr>data_dim := pq_ndims t\<rparr>, sx_aligned_dim := ROUND_UP (pq_ndims t) 8,
                         sx_file := bf_bytes f\<rparr>;
                   s = (init_buffers bufs s)\<lparr>sx_use_page_search := use_page_search\<rparr>
          in bindE (layout (sx_g s) (sx_num_points s) (sx_lm s)) (\<lambda>lm.
             let s = s\<lparr>sx_lm := lm\<rparr>;
                 s = (if enable_tags then load_tags en tags_file s else s)
             in Inr (Some (s\<lparr>sx_medoid := u32 medoid_id_on_file\<rparr>))))))"

text \<open>\<^verbatim>\<open>get_vector_by_id\<close> reads the file, not the page cache.\<close>

definition get_vector_by_id :: "bool \<Rightarrow> nat \<Rightarrow> ssd \<Rightarrow> byte list option res" where
  "get_vector_by_id enable_tags i s =
     (if \<not> enable_tags then Inr None
      else bindE (node_sector_no (sx_g s) (sx_lm s) i) (\<lambda>num_sectors.
        let sector_buf = poke (\<lambda>_. 0) 0 (peek (sx_file s) (SECTOR_LEN * num_sectors) (size_per_io (sx_g s)))
        in bindE (offset_to_node (sx_g s) (sx_lm s) 0 i) (\<lambda>node_coords.
             Inr (Some (peek sector_buf node_coords (vec_bytes (sx_g s)))))))"

end
