(* ===== verification/Index_Props.thy ===== *)
theory Index_Props imports Index_File Loc_Alloc Beam_Correct begin

text \<open>
  What the files of an index hold: the header, the codes and the tags read back as they were written, and
  an index loaded from written files has them, with the identity mapping.
\<close>

section \<open>The header\<close>

lemma length_concat_le64 [simp]: "length (concat (map le64 xs)) = 8 * length xs"
  by (induction xs) auto

lemma take_drop_concat_le64: "i < length xs \<Longrightarrow> take 8 (drop (8 * i) (concat (map le64 xs))) = le64 (xs ! i)"
proof (induction xs arbitrary: i)
  case (Cons x xs)
  then show ?case by (cases i) (auto simp: drop_append take_append)
qed simp

lemma length_save_metadata: "bf_len (save_metadata md f) = max (bf_len f) (8 + 8 * length md)"
  by (simp add: save_metadata_def save_bin_def fwrite_def)

lemma read_u64_save:
  assumes "i < length md" "8 + 8 * length md \<le> n"
  shows "read_u64 (ftruncate n (save_metadata md f)) (8 + 8 * i) = u64 (md ! i)"
proof -
  let ?s = "save_metadata md f"
  have "peek (bf_bytes (ftruncate n ?s)) (8 + 8 * i) 8 = peek (bf_bytes ?s) (8 + 8 * i) 8"
    using assms by (intro peek_cong) (auto simp: ftruncate_def length_save_metadata)
  also have "\<dots> = take 8 (drop (8 * i) (concat (map le64 md)))"
    using assms by (simp add: save_metadata_def save_bin_def fwrite_def peek_poke_inside)
  also have "\<dots> = le64 (md ! i)" by (rule take_drop_concat_le64 [OF assms(1)])
  finally show ?thesis by (simp add: read_u64_def)
qed

text \<open>The values of a header fit their words.\<close>

definition meta_ok :: "ssd \<Rightarrow> nat \<Rightarrow> nat \<Rightarrow> bool" where
  "meta_ok s np medoid \<longleftrightarrow> wf_geom (sx_g s) \<and> np < 4294967264 \<and> medoid < 4294967296 \<and> data_dim (sx_g s) < 4294967296 \<and>
     sx_num_frozen s < 4294967296 \<and> sx_frozen_location s < 4294967296 \<and> sx_n_chunks s < 4294967296"

lemma meta_okD:
  assumes "meta_ok s np medoid"
  shows "wf_geom (sx_g s)" "np < 4294967264" "medoid < 4294967296" "data_dim (sx_g s) < 4294967296"
    "sx_num_frozen s < 4294967296" "sx_frozen_location s < 4294967296" "sx_n_chunks s < 4294967296"
    "0 < nnodes_per_sector (sx_g s)" "nnodes_per_sector (sx_g s) \<le> 16" "max_node_len (sx_g s) \<le> 4096"
proof -
  show "wf_geom (sx_g s)" "np < 4294967264" "medoid < 4294967296" "data_dim (sx_g s) < 4294967296"
    "sx_num_frozen s < 4294967296" "sx_frozen_location s < 4294967296" "sx_n_chunks s < 4294967296"
    using assms by (auto simp: meta_ok_def)
  have w: "wf_geom (sx_g s)" using assms by (simp add: meta_ok_def)
  then show n: "0 < nnodes_per_sector (sx_g s)" "nnodes_per_sector (sx_g s) \<le> 16"
    by (auto simp: wf_geom_def)
  have "1 * max_node_len (sx_g s) \<le> nnodes_per_sector (sx_g s) * max_node_len (sx_g s)"
    using n by (intro mult_le_mono1) simp
  also have "\<dots> \<le> 4096" using w by (simp add: wf_geom_def SECTOR_LEN_def)
  finally show "max_node_len (sx_g s) \<le> 4096" by simp
qed

definition header_of :: "ssd \<Rightarrow> nat \<Rightarrow> nat \<Rightarrow> index_header" where
  "header_of s np medoid =
     \<lparr>ih_nnodes = np, ih_ndims = data_dim (sx_g s), ih_medoid = medoid, ih_max_node_len = max_node_len (sx_g s),
      ih_nnodes_per_sector = nnodes_per_sector (sx_g s), ih_num_frozen = sx_num_frozen s, ih_frozen_id = sx_frozen_location s\<rparr>"

lemma index_file_size_ge: "4096 \<le> index_file_size g np"
  by (simp add: index_file_size_def SECTOR_LEN_def)

lemma read_header_save:
  assumes "meta_ok s np medoid"
  shows "read_header (ftruncate (index_file_size (sx_g s) np) (save_metadata (output_metadata s np medoid) f)) = header_of s np medoid"
proof -
  let ?f = "ftruncate (index_file_size (sx_g s) np) (save_metadata (output_metadata s np medoid) f)"
  let ?md = "output_metadata s np medoid"
  have l: "length ?md = 8" by (simp add: output_metadata_def)
  have r: "read_u64 ?f (8 + 8 * i) = u64 (?md ! i)" if "i < 8" for i
    using that index_file_size_ge [of "sx_g s" np] by (intro read_u64_save) (simp_all add: l)
  note d = meta_okD [OF assms]
  show ?thesis
    using r [of 0] r [of 1] r [of 2] r [of 3] r [of 4] r [of 5] r [of 6] d
    by (simp add: read_header_def header_of_def output_metadata_def width_simps)
qed

section \<open>Codes and tags\<close>

lemma fwrite_get32:
  "off + 4 \<le> off' \<Longrightarrow> get32 (bf_bytes (fwrite off' bs f)) off = get32 (bf_bytes f) off"
  by (rule get32_cong) (simp add: fwrite_def peek_poke_disjoint)

lemma save_bin_head:
  "read_u32 (save_bin npts ndims payload 0 f) 0 = u32 npts"
  "read_u32 (save_bin npts ndims payload 0 f) 4 = u32 ndims"
  "bf_len (save_bin npts ndims payload 0 f) = max (bf_len f) (8 + length payload)"
proof -
  have w: "get32 (bf_bytes (fwrite off (le32 n) h)) off = u32 n" for off n h
    using get32_put32 [of "bf_bytes h" off n] by (simp add: fwrite_def put32_def)
  show "read_u32 (save_bin npts ndims payload 0 f) 0 = u32 npts" "read_u32 (save_bin npts ndims payload 0 f) 4 = u32 ndims"
    by (simp_all add: read_u32_def save_bin_def fwrite_get32 w)
  show "bf_len (save_bin npts ndims payload 0 f) = max (bf_len f) (8 + length payload)"
    by (simp add: save_bin_def fwrite_def)
qed

lemma save_bin_payload: "peek (bf_bytes (save_bin npts ndims payload 0 f)) 8 (length payload) = payload"
  by (simp add: save_bin_def fwrite_def peek_poke_same)

lemma save_bin_words: "get32s (bf_bytes (save_bin npts ndims (concat (map le32 xs)) 0 f)) 8 (length xs) = map u32 xs"
  using get32s_put32s [of xs "length xs" "bf_bytes (fwrite 4 (le32 ndims) (fwrite 0 (le32 npts) f))" 8]
  by (simp add: save_bin_def fwrite_def put32s_def)

lemma load_pq_codes_save:
  assumes "npts < 4294967296" "nch < 4294967296" "length codes = npts * nch"
  shows "load_pq_codes en (save_bin npts nch codes 0 f) s =
    Some (s\<lparr>sx_data := codes @ replicate ((max (max npts (le_expected_points en)) (u64 (npts + le_extra_points en)) - npts) * nch) 0, sx_num_points := npts, sx_n_chunks := nch,
            sx_lm := (sx_lm s)\<lparr>cur_id := npts\<rparr>\<rparr>)"
  using assms save_bin_payload [of npts nch codes f]
  by (simp add: load_pq_codes_def save_bin_head u32_id Let_def)

lemma fold_tags: "fold (\<lambda>i m. m(u32 i \<mapsto> v ! i)) [0..<n] Map.empty j = (if j < n then Some (v ! j) else None)"
  if "n \<le> 4294967296"
  using that by (induction n) (auto simp: u32_id)

lemma load_tags_save:
  assumes "length ts = npts" "npts < 4294967296" "\<forall>t \<in> set ts. t < 4294967296"
  shows "load_tags en (Some (save_bin npts 1 (concat (map le32 ts)) 0 f)) s =
    s\<lparr>sx_tags := (if env_flag (le_skip_tags_load en) \<or> env_flag (le_tags_identity en) then Map.empty else (\<lambda>i. if i < npts then Some (ts ! i) else None))\<rparr>"
proof -
  have one: "u32 (Suc 0) = Suc 0" by (simp add: u32_def)
  have "get32s (bf_bytes (save_bin npts 1 (concat (map le32 ts)) 0 f)) 8 npts = ts"
    using save_bin_words [of npts 1 ts f] assms map_idI [of ts u32] by (simp add: u32_id)
  then show ?thesis
    using assms fold_tags [of npts ts] by (simp add: load_tags_def save_bin_head one u32_id Let_def fun_eq_iff)
qed

section \<open>A saved index loads\<close>

lemma init_buffers_keeps:
  "init_buffers bufs s = s\<lparr>sx_mem := sx_mem (init_buffers bufs s), sx_pool := sx_pool (init_buffers bufs s)\<rparr>"
proof (induction bufs arbitrary: s)
  case (Cons qb bufs)
  show ?case
    using Cons [of "push_query_buf qb (init_query_buf qb s)"]
    by (simp add: init_buffers_def push_query_buf_def init_query_buf_def)
qed (simp add: init_buffers_def)

lemma load_header_of:
  assumes "meta_ok s np medoid" "sizeof_T (sx_g s0) = sizeof_T (sx_g s)"
  shows "load_header (header_of s np medoid) s0 =
    Some (s0\<lparr>sx_g := sx_g s, sx_cfg := (sx_cfg s0)\<lparr>cf_range := max_nbrs (sx_g s)\<rparr>, sx_num_frozen := sx_num_frozen s,
      sx_frozen_location := (if sx_num_frozen s = 1 then sx_frozen_location s else sx_frozen_location s0)\<rparr>)"
proof -
  note d = meta_okD [OF assms(1)]
  have g: "(sx_g s0)\<lparr>max_node_len := max_node_len (sx_g s), nnodes_per_sector := nnodes_per_sector (sx_g s),
      data_dim := data_dim (sx_g s)\<rparr> = sx_g s"
    using assms(2) by (intro geom.equality) simp_all
  have m: "u64 (max_degree_of (sx_g s)) = max_nbrs (sx_g s)" "u32 (max_nbrs (sx_g s)) = max_nbrs (sx_g s)"
    using max_degree_max_nbrs [OF d(1)] max_nbrs_less [OF d(1)] by (auto simp: u64_id u32_id)
  have c: "(if max_nbrs (sx_g s) \<noteq> cf_range (sx_cfg s0) then (sx_cfg s0)\<lparr>cf_range := max_nbrs (sx_g s)\<rparr> else sx_cfg s0) =
      (sx_cfg s0)\<lparr>cf_range := max_nbrs (sx_g s)\<rparr>"
    by (simp add: prune_cfg.equality)
  show ?thesis
    unfolding load_header_def Let_def header_of_def index_header.simps g m c
    using d by (simp add: kMaxElemInAPage_def)
qed

text \<open>The record an index is loaded into: no mapping, the size of an element known.\<close>

definition blank :: "ssd \<Rightarrow> ssd \<Rightarrow> bool" where
  "blank s0 s \<longleftrightarrow> sizeof_T (sx_g s0) = sizeof_T (sx_g s) \<and> id2loc_map (sx_lm s0) = Map.empty \<and>
     page_layout (sx_lm s0) = Map.empty \<and> empty_pages (sx_lm s0) = cq_new kInvalidID"

text \<open>What a loaded index has of the one that was saved.\<close>

definition loaded_as :: "ssd \<Rightarrow> ssd \<Rightarrow> nat \<Rightarrow> nat \<Rightarrow> (nat \<rightharpoonup> nat) \<Rightarrow> mem \<Rightarrow> bool" where
  "loaded_as s' s np medoid tags f \<longleftrightarrow> sx_g s' = sx_g s \<and> sx_num_points s' = np \<and> sx_n_chunks s' = sx_n_chunks s \<and>
     sx_medoid s' = medoid \<and> cur_id (sx_lm s') = np \<and> lm_ok (sx_g s') (sx_lm s') \<and> map_ok (sx_g s') (sx_lm s') \<and>
     (\<forall>i. id2loc_map (sx_lm s') i = (if i < np then Some i else None)) \<and>
     sx_tags s' = tags \<and>
     take (np * sx_n_chunks s) (sx_data s') = take (np * sx_n_chunks s) (sx_data s) \<and> sx_file s' = f"

lemma metadata_keeps:
  assumes "4096 \<le> x" "x < bf_len f" "x < index_file_size (sx_g s) np"
  shows "bf_bytes (ftruncate (index_file_size (sx_g s) np) (save_metadata (output_metadata s np medoid) f)) x = bf_bytes f x"
  using assms by (simp add: ftruncate_def length_save_metadata)
    (simp add: save_metadata_def save_bin_def fwrite_def poke_def output_metadata_def)

lemma saved_index_loads_spec:
  assumes "meta_ok s np medoid" "length ts = np" "\<forall>t \<in> set ts. t < 4294967296" "np * sx_n_chunks s \<le> length (sx_data s)"
    and "blank s0 s" "pivots (sx_n_chunks s) = Inr t" "pq_ndims t = data_dim (sx_g s)"
  shows "\<exists>fs' s'. write_metadata_and_pq np medoid (Some ts) s fs = Inr fs' \<and>
    load_index en pivots bufs True up load_equal_layout True (Some (if_tags fs')) fs' s0 = Inr (Some s') \<and>
    loaded_as s' s np medoid (if env_flag (le_skip_tags_load en) \<or> env_flag (le_tags_identity en) then Map.empty else (\<lambda>i. if i < np then Some (ts ! i) else None)) (bf_bytes (if_index fs')) \<and>
    (\<forall>x. 4096 \<le> x \<and> x < bf_len (if_index fs) \<and> x < index_file_size (sx_g s) np \<longrightarrow> sx_file s' x = bf_bytes (if_index fs) x)"
proof -
  note d = meta_okD [OF assms(1)]
  have b: "sizeof_T (sx_g s0) = sizeof_T (sx_g s)" "id2loc_map (sx_lm s0) = Map.empty"
    "page_layout (sx_lm s0) = Map.empty" "empty_pages (sx_lm s0) = cq_new kInvalidID"
    using assms(5) by (simp_all add: blank_def)
  define fi where "fi = ftruncate (index_file_size (sx_g s) np) (save_metadata (output_metadata s np medoid) (if_index fs))"
  define fs' where "fs' = \<lparr>if_index = fi, if_tags = save_bin np 1 (concat (map le32 ts)) 0 (if_tags fs),
    if_pq = save_bin np (sx_n_chunks s) (take (np * sx_n_chunks s) (sx_data s)) 0 (if_pq fs)\<rparr>"
  have w: "write_metadata_and_pq np medoid (Some ts) s fs = Inr fs'"
    using assms(2,4) d by (simp add: write_metadata_and_pq_def fs'_def fi_def Let_def)
  have h: "read_header (if_index fs') = header_of s np medoid"
    unfolding fs'_def fi_def index_files.simps by (rule read_header_save [OF assms(1)])
  define s1 where "s1 = s0\<lparr>sx_g := sx_g s, sx_cfg := (sx_cfg s0)\<lparr>cf_range := max_nbrs (sx_g s)\<rparr>, sx_num_frozen := sx_num_frozen s,
      sx_frozen_location := (if sx_num_frozen s = 1 then sx_frozen_location s else sx_frozen_location s0)\<rparr>"
  have l1: "load_header (header_of s np medoid) s0 = Some s1"
    unfolding s1_def by (rule load_header_of [OF assms(1) b(1)])
  define codes where "codes = take (np * sx_n_chunks s) (sx_data s)"
  define s2 where "s2 = s1\<lparr>sx_data := codes @ replicate ((max (max np (le_expected_points en)) (u64 (np + le_extra_points en)) - np) * sx_n_chunks s) 0, sx_num_points := np,
      sx_n_chunks := sx_n_chunks s, sx_lm := (sx_lm s1)\<lparr>cur_id := np\<rparr>\<rparr>"
  have l2: "load_pq_codes en (if_pq fs') s1 = Some s2"
    unfolding s2_def fs'_def index_files.simps codes_def
    by (rule load_pq_codes_save) (use assms(4) d in simp_all)
  define s3 where "s3 = s2\<lparr>sx_pq := t, sx_g := sx_g s, sx_aligned_dim := ROUND_UP (pq_ndims t) 8, sx_file := bf_bytes (if_index fs')\<rparr>"
  define s4 where "s4 = (init_buffers bufs s3)\<lparr>sx_use_page_search := up\<rparr>"
  have s4: "sx_lm s4 = (sx_lm s0)\<lparr>cur_id := np\<rparr>" "sx_g s4 = sx_g s" "sx_num_points s4 = np" "sx_n_chunks s4 = sx_n_chunks s"
    "sx_data s4 = sx_data s2" "sx_file s4 = bf_bytes (if_index fs')"
    unfolding s4_def by (subst init_buffers_keeps, simp add: s3_def s2_def s1_def)+
  obtain lm where lm: "load_equal_layout (sx_g s) np ((sx_lm s0)\<lparr>cur_id := np\<rparr>) = Inr lm" "lm_ok (sx_g s) lm" "map_ok (sx_g s) lm"
    "\<forall>i. id2loc_map lm i = (if i < np then Some i else None)"
    using load_equal_layout_spec [of "sx_g s" np "(sx_lm s0)\<lparr>cur_id := np\<rparr>"] d b by auto
  have cid: "cur_id lm = np"
    using lm(1) d by (auto simp: load_equal_layout_def kMaxElemInAPage_def Let_def)
  define tg where "tg = (if env_flag (le_skip_tags_load en) \<or> env_flag (le_tags_identity en) then Map.empty else (\<lambda>i. if i < np then Some (ts ! i) else None))"
  define s5 where "s5 = s4\<lparr>sx_lm := lm, sx_tags := tg\<rparr>"
  have l5: "load_tags en (Some (if_tags fs')) (s4\<lparr>sx_lm := lm\<rparr>) = s5"
    unfolding s5_def fs'_def index_files.simps tg_def
    using load_tags_save [of ts np en "if_tags fs" "s4\<lparr>sx_lm := lm\<rparr>"] assms(2,3) d by simp
  have g3: "(sx_g (s2\<lparr>sx_pq := t\<rparr>))\<lparr>data_dim := pq_ndims t\<rparr> = sx_g s"
    using assms(7) by (simp add: s2_def s1_def)
  have r: "load_index en pivots bufs True up load_equal_layout True (Some (if_tags fs')) fs' s0 = Inr (Some (s5\<lparr>sx_medoid := u32 medoid\<rparr>))"
  proof -
    have n: "sx_n_chunks s2 = sx_n_chunks s" "sx_num_points (s2\<lparr>sx_pq := t\<rparr>) = np" "ih_nnodes (header_of s np medoid) = np"
      "ih_medoid (header_of s np medoid) = medoid"
      by (simp_all add: s2_def header_of_def)
    have m3: "s2\<lparr>sx_pq := t, sx_g := sx_g s, sx_aligned_dim := ROUND_UP (pq_ndims t) 8, sx_file := bf_bytes (if_index fs')\<rparr> = s3"
      by (simp add: s3_def)
    show ?thesis
      unfolding load_index_def Let_def if_True h l1 option.case l2 n assms(6) bindE.simps g3 m3
      by (simp add: s4_def [symmetric] s4 lm(1) l5 n)
  qed
  have l: "loaded_as (s5\<lparr>sx_medoid := u32 medoid\<rparr>) s np medoid tg (bf_bytes (if_index fs'))"
    using lm cid d assms(4) by (simp add: loaded_as_def s5_def s4 s2_def codes_def u32_id)
  have "bf_bytes fi x = bf_bytes (if_index fs) x"
    if "4096 \<le> x" "x < bf_len (if_index fs)" "x < index_file_size (sx_g s) np" for x
    unfolding fi_def by (rule metadata_keeps [OF that])
  then have "sx_file (s5\<lparr>sx_medoid := u32 medoid\<rparr>) x = bf_bytes (if_index fs) x"
    if "4096 \<le> x \<and> x < bf_len (if_index fs) \<and> x < index_file_size (sx_g s) np" for x
    using that by (simp add: s5_def s4 fs'_def)
  with w r l [unfolded tg_def] show ?thesis by blast
qed

text \<open>C37: Writing the header, the codes and the tags of an index and loading the written files gives
  an index with the same geometry, codes and medoid, whose mapping is the identity on the
  points and consistent, over a file whose node pages are those that were there.  The tags are the
  saved ones, or none, every id its own tag, when one of the environment variables says so.\<close>

theorem saved_index_loads:
  assumes "meta_ok s np medoid" "length ts = np" "\<forall>t \<in> set ts. t < 4294967296" "np * sx_n_chunks s \<le> length (sx_data s)"
    and "blank s0 s" "pivots (sx_n_chunks s) = Inr t" "pq_ndims t = data_dim (sx_g s)"
  shows "\<exists>fs' s'. write_metadata_and_pq np medoid (Some ts) s fs = Inr fs' \<and>
    load_index en pivots bufs True up load_equal_layout True (Some (if_tags fs')) fs' s0 = Inr (Some s') \<and>
    loaded_as s' s np medoid (if env_flag (le_skip_tags_load en) \<or> env_flag (le_tags_identity en) then Map.empty else (\<lambda>i. if i < np then Some (ts ! i) else None)) (bf_bytes (if_index fs')) \<and>
    (\<forall>x. 4096 \<le> x \<and> x < bf_len (if_index fs) \<and> x < index_file_size (sx_g s) np \<longrightarrow> sx_file s' x = bf_bytes (if_index fs) x)"
  using assms by (rule saved_index_loads_spec [where pivots = pivots])

definition no_load_env :: load_env where
  "no_load_env = \<lparr>le_expected_points = 0, le_extra_points = 0, le_skip_tags_load = None, le_tags_identity = Some ''0''\<rparr>"

theorem saved_index_loads_witness:
  "\<exists>fs' s'. write_metadata_and_pq 2 0 (Some [5, 9]) demo2 \<lparr>if_index = empty_file, if_tags = empty_file, if_pq = empty_file\<rparr> = Inr fs' \<and>
    load_index no_load_env (\<lambda>_. Inr (demo_pq\<lparr>pq_ndims := 4\<rparr>)) [] True False load_equal_layout True (Some (if_tags fs')) fs' (demo2\<lparr>sx_lm := demo_map\<rparr>) =
      Inr (Some s') \<and> sx_tags s' 1 = Some 9 \<and> cur_id (sx_lm s') = 2"
proof -
  have m: "meta_ok demo2 2 0" "blank (demo2\<lparr>sx_lm := demo_map\<rparr>) demo2" "sx_n_chunks demo2 = 2" "length (sx_data demo2) = 4"
    "data_dim (sx_g demo2) = 4"
    by (simp_all add: meta_ok_def blank_def demo2_def demo2_geom_def demo_map_def wf_geom_def vec_bytes_def SECTOR_LEN_def)
  show ?thesis
    using saved_index_loads [where s = demo2 and ?s0.0 = "demo2\<lparr>sx_lm := demo_map\<rparr>" and np = 2 and medoid = 0 and ts = "[5, 9]"
        and en = no_load_env and pivots = "\<lambda>_. Inr (demo_pq\<lparr>pq_ndims := 4\<rparr>)" and t = "demo_pq\<lparr>pq_ndims := 4\<rparr>" and bufs = "[]" and up = False
        and fs = "\<lparr>if_index = empty_file, if_tags = empty_file, if_pq = empty_file\<rparr>"] m
    by (auto simp: loaded_as_def no_load_env_def env_flag_def)
qed

end
