(* ===== verification/Insert.thy ===== *)
theory Insert imports Beam_Search begin

text \<open>
  \<^verbatim>\<open>insert_in_place\<close> and \<^verbatim>\<open>bg_io_thread\<close> of \<^verbatim>\<open>src/update/direct_insert.cpp\<close>, built without
  \<^verbatim>\<open>IN_PLACE_RECORD_UPDATE\<close> and with \<^verbatim>\<open>BG_IO_THREAD\<close> (\<^verbatim>\<open>dp\<close> says whether \<^verbatim>\<open>DELTA_PRUNING\<close> is defined): the new point's code is stored, its
  neighbors are searched and pruned, target and neighbors get new locations, their records are
  rewritten in the update buffer and enter the page cache, the mapping is switched over under
  the index locks, and the write to the file is left to the background thread.  Tracing is left out.
\<close>

section \<open>The code of the new point\<close>

text \<open>\<^verbatim>\<open>resize(1.5 * size)\<close> until the vector is long enough; sizes zero and one never grow.\<close>

fun grow_data :: "nat \<Rightarrow> nat \<Rightarrow> byte list \<Rightarrow> byte list res" where
  "grow_data fuel need data =
     (if \<not> length data < need then Inr data
      else case fuel of 0 \<Rightarrow> Inl OutOfFuel
      | Suc fuel \<Rightarrow> grow_data fuel need (data @ replicate (length data div 2) 0))"

declare grow_data.simps [simp del]

definition write_pq :: "nat \<Rightarrow> nat \<Rightarrow> byte list \<Rightarrow> ssd \<Rightarrow> ssd res" where
  "write_pq fuel target_id pq_coords s =
     (let n_chunks = sx_n_chunks s; pq_offset = u64 (target_id * n_chunks)
      in bindE (grow_data fuel (pq_offset + n_chunks) (sx_data s)) (\<lambda>d.
         Inr (s\<lparr>sx_data := take pq_offset d @ take n_chunks pq_coords @ drop (pq_offset + n_chunks) d\<rparr>)))"

section \<open>Planning the pages\<close>

definition rmw_pages :: "geom \<Rightarrow> nat list \<Rightarrow> nat list" where
  "rmw_pages g locs = sort_unique (map (loc_sector_no g) locs)"

definition page_req :: "geom \<Rightarrow> nat \<Rightarrow> nat \<Rightarrow> io_req" where
  "page_req g page buf = \<lparr>r_offset = u64 (page * SECTOR_LEN), r_len = size_per_io g, r_buf = buf, r_u_offset = 0, r_u_len = 0\<rparr>"

text \<open>One buffer per neighbor, then one per page to write; a page that holds live nodes is read
  into its write buffer too.  The map from (32-bit) page numbers to buffers keeps the last entry.\<close>

definition nbr_reqs :: "geom \<Rightarrow> nat \<Rightarrow> nat list \<Rightarrow> io_req list" where
  "nbr_reqs g update_buf sectors =
     map (\<lambda>(i, p). page_req g p (update_buf + i * size_per_io g)) (zip [0..<length sectors] sectors)"

definition write_reqs :: "geom \<Rightarrow> nat \<Rightarrow> nat \<Rightarrow> nat list \<Rightarrow> io_req list" where
  "write_reqs g update_buf n pages =
     map (\<lambda>(i, p). page_req g p (update_buf + (n + i) * size_per_io g)) (zip [0..<length pages] pages)"

definition page_buf_map :: "io_req list \<Rightarrow> nat \<Rightarrow> nat option" where
  "page_buf_map reqs = map_of (rev (map (\<lambda>r. (u32 (r_offset r div SECTOR_LEN), r_buf r)) reqs))"

text \<open>Runs of consecutive pages become one write; the last element is the sentinel.\<close>

fun coalesce :: "nat \<Rightarrow> io_req list \<Rightarrow> nat list \<Rightarrow> nat \<times> nat \<times> io_req list \<Rightarrow> io_req list" where
  "coalesce spi ws [] (start_idx, cur_off, writes) = writes"
| "coalesce spi ws (i # is) (start_idx, cur_off, writes) =
     (let (start_idx', writes') =
        (if r_offset (ws ! i) \<noteq> u64 (cur_off + spi)
         then (i, writes @ [\<lparr>r_offset = r_offset (ws ! start_idx), r_len = spi * (i - start_idx), r_buf = r_buf (ws ! start_idx),
                             r_u_offset = 0, r_u_len = 0\<rparr>])
         else (start_idx, writes))
      in coalesce spi ws is (start_idx', r_offset (ws ! i), writes'))"

definition sentinel_req :: io_req where
  "sentinel_req = \<lparr>r_offset = 18446744073709551615, r_len = 0, r_buf = 0, r_u_offset = 0, r_u_len = 0\<rparr>"

definition merge_writes :: "nat \<Rightarrow> io_req list \<Rightarrow> io_req list" where
  "merge_writes spi writes_4k =
     (let ws = writes_4k @ [sentinel_req]
      in coalesce spi ws [1..<length ws] (0, r_offset (ws ! 0), []))"

section \<open>Rewriting the nodes\<close>

text \<open>The code-to-code distance \<^verbatim>\<open>prune_neighbors_pq\<close> asks for, one pair at a time; the ids
  have passed the batched call before.\<close>

definition pq_pair_dist :: "pq_table \<Rightarrow> byte list \<Rightarrow> nat \<Rightarrow> nat \<Rightarrow> f32" where
  "pq_pair_dist t data i j = (case compute_pq_dists t data i [j] of Inr (d # _) \<Rightarrow> d | _ \<Rightarrow> FNaN)"

text \<open>Delta pruning: the neighbors with both distances, sorted by the one to the updated node.\<close>

definition delta_nbrs :: "pq_table \<Rightarrow> byte list \<Rightarrow> prune_cfg \<Rightarrow> nat \<Rightarrow> nat \<Rightarrow> nat list \<Rightarrow> nat list res" where
  "delta_nbrs t data cf target_id nb nhood =
     bindE (compute_pq_dists t data target_id nhood) (\<lambda>tgt_dists.
     bindE (compute_pq_dists t data nb nhood) (\<lambda>nbr_dists.
     let tri_pool = sort_lt tn_lt (map (\<lambda>(k, d, e). \<lparr>tn_id = k, tn_tgt_dis = d, tn_distance = e\<rparr>)
                                     (zip nhood (zip tgt_dists nbr_dists)))
     in (case find (\<lambda>k. tn_id (tri_pool ! k) = target_id) [0..<length nhood] of
           None \<Rightarrow> Inl Exit
         | Some tgt_idx \<Rightarrow> delta_prune_neighbors_pq (pq_pair_dist t data) cf tri_pool tgt_idx)))"

definition new_nbrs :: "bool \<Rightarrow> pq_table \<Rightarrow> byte list \<Rightarrow> prune_cfg \<Rightarrow> nat \<Rightarrow> nat \<Rightarrow> nat list \<Rightarrow> nat list res" where
  "new_nbrs dp t data cf target_id nb old =
     (let nhood = old @ [target_id]
      in if length nhood \<le> cf_range cf then Inr nhood
         else if pq_coord_alloc_size < length nhood * pq_n_chunks t then Inl OutOfRange
         else if dp then delta_nbrs t data cf target_id nb nhood
         else bindE (compute_pq_dists t data nb nhood) (\<lambda>dists.
           let pool = map (\<lambda>(i, d). neighbor_zero\<lparr>nb_id := i, nb_dist := d\<rparr>) (zip nhood dists)
           in prune_neighbors_pq (pq_pair_dist t data) cf (sort_lt nb_lt pool) []))"

definition update_nbr :: "bool \<Rightarrow> ssd \<Rightarrow> nat \<Rightarrow> (nat \<Rightarrow> nat option) \<Rightarrow> nat \<times> nat \<Rightarrow> mem \<Rightarrow> mem res" where
  "update_nbr dp s target_id bufs = (\<lambda>(nb, w_loc) m.
     let g = sx_g s
     in bindE (id2loc (sx_lm s) nb) (\<lambda>r_loc.
     (case bufs (u32 (loc_sector_no g r_loc)) of
        None \<Rightarrow> Inl Exit
      | Some r_page \<Rightarrow>
          let r_node = open_node g m nb (offset_to_loc g r_page r_loc)
          in bindE (new_nbrs dp (sx_pq s) (sx_data s) (sx_cfg s) target_id nb (get32s m (dn_nbrs r_node) (dn_nnbrs r_node))) (\<lambda>nhood.
             (case bufs (u32 (loc_sector_no g w_loc)) of
                None \<Rightarrow> Inl OutOfRange
              | Some w_page \<Rightarrow>
                  let w_node = open_node g m nb (offset_to_loc g w_page w_loc);
                      m1 = put32 m (dn_nbrs w_node - 4) (length nhood);
                      m2 = poke m1 (dn_coords w_node) (peek m1 (dn_coords r_node) (vec_bytes g))
                  in Inr (put32s m2 (dn_nbrs w_node) nhood))))))"

section \<open>The insert\<close>

text \<open>The node record of the new point, with the caller's bytes of it.\<close>

definition write_target :: "ssd \<Rightarrow> nat \<Rightarrow> byte list \<Rightarrow> nat list \<Rightarrow> nat \<Rightarrow> (nat \<Rightarrow> nat option) \<Rightarrow> mem \<Rightarrow> mem res" where
  "write_target s target_id point new_nhood loc bufs m =
     (let g = sx_g s
      in (case bufs (u32 (loc_sector_no g loc)) of
            None \<Rightarrow> Inl OutOfRange
          | Some page \<Rightarrow> Inr (store_node g m (open_node g m target_id (offset_to_loc g page loc))
                               (take (vec_bytes g) point) new_nhood)))"

text \<open>Everything between the search and the write-back: the planned writes, the memory with the
  rewritten records, and the pages read.\<close>

definition rewrite_nodes :: "bool \<Rightarrow> nat \<Rightarrow> byte list \<Rightarrow> nat list \<Rightarrow> nat list \<Rightarrow> nat set \<Rightarrow> query_buf \<Rightarrow> nat list \<times> ssd \<Rightarrow>
    (io_req list \<times> nat list \<times> ssd) res" where
  "rewrite_nodes dp target_id point new_nhood locs need read_data = (\<lambda>(page_ref, s).
     let g = sx_g s; pages = rmw_pages g locs; n = length new_nhood
     in bindE (mapE (node_sector_no g (sx_lm s)) new_nhood) (\<lambda>sectors.
     let nreqs = nbr_reqs g (qb_update read_data) sectors;
         writes_4k = write_reqs g (qb_update read_data) n pages;
         reads = nreqs @ filter (\<lambda>r. r_offset r div SECTOR_LEN \<in> need) writes_4k;
         bufs = page_buf_map (nreqs @ writes_4k);
         writes = merge_writes (size_per_io g) writes_4k
     in if update_alloc_size < (n + length pages) * size_per_io g then Inl OutOfRange
     else bindE (read_alloc (sx_file s) reads (sx_cache s, sx_mem s, page_ref)) (\<lambda>(c, m, page_ref).
     bindE (write_target s target_id point new_nhood (locs ! n) bufs m) (\<lambda>m.
     bindE (foldE (update_nbr dp s target_id bufs) (zip new_nhood locs) m) (\<lambda>m.
       Inr (writes, page_ref, s\<lparr>sx_cache := c, sx_mem := m\<rparr>))))))"

text \<open>The switch of the mapping: the target is bound first, the rest under the index locks.\<close>

definition switch_locs :: "nat \<Rightarrow> nat list \<Rightarrow> nat list \<Rightarrow> ssd \<Rightarrow> ssd res" where
  "switch_locs target_id new_nhood locs s =
     (let g = sx_g s;
          lm = (sx_lm s)\<lparr>id2loc_map := (id2loc_map (sx_lm s))(target_id \<mapsto> u32 (locs ! length new_nhood))\<rparr>
      in bindE (lock_idx target_id new_nhood False (sx_idx_locks s)) (\<lambda>(locked, t).
         bindE (lock_page_idx (sx_use_page_search s) (id2page g lm) target_id new_nhood False (sx_page_idx_locks s)) (\<lambda>(page_locked, pt).
         bindE (rebind g target_id new_nhood locs lm) (\<lambda>lm.
         bindE (unlock_page_idx (sx_use_page_search s) page_locked pt) (\<lambda>pt.
         bindE (unlock_idx locked t) (\<lambda>t.
           Inr (s\<lparr>sx_lm := lm, sx_idx_locks := t, sx_page_idx_locks := pt\<rparr>)))))))"

text \<open>With no page read there is no background task: the locks go and the buffer is lost.\<close>

definition hand_over :: "query_buf \<Rightarrow> io_req list \<Rightarrow> nat list \<Rightarrow> nat list \<Rightarrow> nat list \<Rightarrow> ssd \<Rightarrow> ssd res" where
  "hand_over read_data writes pages_locked write_page_ref page_ref s =
     bindE (if page_ref \<noteq> []
            then Inr (s\<lparr>sx_bg_tasks := cq_push (Some \<lparr>bt_thread_data = read_data, bt_writes = writes,
                          bt_pages_to_unlock = pages_locked, bt_pages_to_deref = write_page_ref\<rparr>) (sx_bg_tasks s),
                        sx_bg_inflight := u64 (sx_bg_inflight s + 1)\<rparr>)
            else bindE (unlockReqs pages_locked (sx_page_locks s)) (\<lambda>t. Inr (s\<lparr>sx_page_locks := t\<rparr>))) (\<lambda>s.
       Inr (s\<lparr>sx_cache := deref_pages page_ref (sx_cache s)\<rparr>))"

definition insert_in_place :: "bool \<Rightarrow> ssd_env \<Rightarrow> nat \<Rightarrow> byte list \<Rightarrow> nat \<Rightarrow> (nat \<Rightarrow> bool) option \<Rightarrow> ssd \<Rightarrow> (nat \<times> ssd) res" where
  "insert_in_place dp en fuel point tag deletion_set s =
     bindE (pop_query_buf en None s) (\<lambda>(read_data, s).
     let target_id = u32 (cur_id (sx_lm s));
         s = s\<lparr>sx_lm := (sx_lm s)\<lparr>cur_id := u64 (cur_id (sx_lm s) + 1)\<rparr>\<rparr>;
         pq_coords = deflate_vector (sx_pq s) (sx_n_chunks s) (en_float en point)
     in bindE (write_pq fuel target_id pq_coords s) (\<lambda>s.
     bindE (do_beam_search en fuel point 0 (sx_l_index s) (sx_beam_width s) True deletion_set False (Some []) s)
       (\<lambda>(exp_node_info, coord_map, page_ref, s).
     bindE (prune_neighbors (\<lambda>a b. en_compare en (peek (sx_mem s) a (vec_stride s)) (peek (sx_mem s) b (vec_stride s)))
              coord_map (sx_cfg s) (sx_medoid s) exp_node_info []) (\<lambda>(_, new_nhood).
     bindE (alloc_loc (sx_g s) (length new_nhood + 1) page_ref {} (sx_lm s)) (\<lambda>(locs, need, lm).
     let s = s\<lparr>sx_lm := lm\<rparr>
     in bindE (lockReqs (map (\<lambda>p. page_req (sx_g s) p 0) (rmw_pages (sx_g s) locs)) (sx_page_locks s)) (\<lambda>(pages_locked, pt).
     bindE (lock_vec target_id new_nhood False (sx_vec_locks s)) (\<lambda>vt.
     let s = s\<lparr>sx_page_locks := pt, sx_vec_locks := vt\<rparr>
     in bindE (rewrite_nodes dp target_id point new_nhood locs need read_data (page_ref, s)) (\<lambda>(writes, page_ref, s).
     let s = s\<lparr>sx_tags := (sx_tags s)(target_id \<mapsto> tag)\<rparr>;
         (c, write_page_ref) = wbc_write (sx_mem s) writes (sx_cache s, []);
         s = s\<lparr>sx_cache := c\<rparr>
     in bindE (switch_locs target_id new_nhood locs s) (\<lambda>s.
     bindE (unlock_vec target_id (new_nhood @ [target_id]) (sx_vec_locks s)) (\<lambda>vt.
     bindE (hand_over read_data writes pages_locked write_page_ref page_ref (s\<lparr>sx_vec_locks := vt\<rparr>)) (\<lambda>s.
       Inr (target_id, s))))))))))))"

section \<open>The background thread\<close>

text \<open>One turn: the task's pages reach the file, then their locks, references and the buffer go
  back.  An empty queue blocks.\<close>

definition bg_step :: "ssd \<Rightarrow> ssd res" where
  "bg_step s =
     (case cq_pop (sx_bg_tasks s) of
        (None, q) \<Rightarrow> Inl Blocked
      | (Some task, q) \<Rightarrow>
          bindE (unlockReqs (bt_pages_to_unlock task) (sx_page_locks s)) (\<lambda>t.
            Inr (push_query_buf (bt_thread_data task)
              (s\<lparr>sx_bg_tasks := q, sx_file := write_io (sx_mem s) (bt_writes task) (sx_file s), sx_page_locks := t,
                 sx_cache := deref_pages (bt_pages_to_deref task) (sx_cache s),
                 sx_bg_inflight := u64 (sx_bg_inflight s + 18446744073709551615)\<rparr>))))"

fun bg_steps :: "nat \<Rightarrow> ssd \<Rightarrow> ssd res" where
  "bg_steps 0 s = Inr s"
| "bg_steps (Suc n) s = bindE (bg_step s) (bg_steps n)"

end
