(* ===== verification/Merge.thy ===== *)
theory Merge imports Insert Index_File begin

text \<open>
  \<^verbatim>\<open>src/update/delete_merge.cpp\<close>: the merges that drop deleted nodes (\<^verbatim>\<open>merge_deletes\<close>, the streaming
  \<^verbatim>\<open>merge_deletes_stream_pq_tags\<close>), the two that only rewrite the neighbor lists
  (\<^verbatim>\<open>rebuild_graph_in_place\<close>, \<^verbatim>\<open>merge_graph_only\<close>) and \<^verbatim>\<open>reload\<close>.  The parallel loops run over the locations in
  order; the buffers of their threads are those \<^verbatim>\<open>init_buffers\<close> made, so that there are some.  \<^verbatim>\<open>uset\<close> gives the order in which a hash set built by a sequence of inserts is iterated.
\<close>

definition SECTORS_PER_MERGE :: nat where
  "SECTORS_PER_MERGE = 65536"

definition SECTORS_PER_POPULATE :: nat where
  "SECTORS_PER_POPULATE = 128"

text \<open>The sizes of the I/O buffers are multiples of these; a pq scratch buffer has 16 MB.\<close>

definition thread_pq_buf_size :: nat where
  "thread_pq_buf_size = 16777216"

definition n_sectors :: "ssd \<Rightarrow> nat" where
  "n_sectors s = (cur_loc (sx_lm s) + nnodes_per_sector (sx_g s) - 1) div nnodes_per_sector (sx_g s)"

text \<open>The chunks of sectors a loop goes through.\<close>

definition chunks :: "nat \<Rightarrow> nat \<Rightarrow> (nat \<times> nat) list" where
  "chunks step n = map (\<lambda>k. (k * step, min (k * step + step) n)) [0..<DIV_ROUND_UP n step]"

definition chunk_locs :: "ssd \<Rightarrow> nat \<times> nat \<Rightarrow> nat list" where
  "chunk_locs s = (\<lambda>(st, ed). [st * nnodes_per_sector (sx_g s)..<min (cur_loc (sx_lm s)) (ed * nnodes_per_sector (sx_g s))])"

definition chunk_req :: "ssd \<Rightarrow> nat \<times> nat \<Rightarrow> io_req" where
  "chunk_req s = (\<lambda>(st, ed). \<lparr>r_offset = u64 (loc_sector_no (sx_g s) (st * nnodes_per_sector (sx_g s)) * SECTOR_LEN),
     r_len = (ed - st) * size_per_io (sx_g s), r_buf = 0, r_u_offset = 0, r_u_len = 0\<rparr>)"

definition read_chunk :: "ssd \<Rightarrow> nat \<times> nat \<Rightarrow> mem \<Rightarrow> mem" where
  "read_chunk s ch rbuf = read_io (sx_file s) [chunk_req s ch] rbuf"

text \<open>The node of a location in the buffer of its chunk.\<close>

definition chunk_node :: "ssd \<Rightarrow> nat \<Rightarrow> mem \<Rightarrow> nat \<Rightarrow> nat \<Rightarrow> disk_node" where
  "chunk_node s st rbuf i loc =
     open_node (sx_g s) rbuf i (offset_to_loc (sx_g s) ((loc div nnodes_per_sector (sx_g s) - st) * SECTOR_LEN) loc)"

section \<open>Step 1: new ids and the neighborhoods of deleted nodes\<close>

record merge_state =
  ms_id_map :: "nat \<Rightarrow> nat option"
  ms_nhoods :: "nat \<Rightarrow> nat list option"
  ms_npoints :: nat

text \<open>\<^verbatim>\<open>cuckoohash_map::insert\<close> keeps an entry that is there.\<close>

definition cuckoo_insert :: "'k \<Rightarrow> 'v \<Rightarrow> ('k \<Rightarrow> 'v option) \<Rightarrow> 'k \<Rightarrow> 'v option" where
  "cuckoo_insert k v m = (if m k = None then m(k \<mapsto> v) else m)"

definition live_nhood :: "ssd \<Rightarrow> (nat \<Rightarrow> bool) \<Rightarrow> nat \<Rightarrow> nat list \<Rightarrow> nat list" where
  "live_nhood s deleted n_sampled nbrs = take n_sampled (filter (\<lambda>nb. \<not> deleted (id2tag s nb)) nbrs)"

definition skip_id :: "bool \<Rightarrow> nat \<Rightarrow> bool" where
  "skip_id check_alloc i = (i = kInvalidID \<or> check_alloc \<and> i = kAllocatedID)"

definition populate_loc :: "ssd \<Rightarrow> bool \<Rightarrow> (nat \<Rightarrow> bool) \<Rightarrow> nat \<Rightarrow> nat \<Rightarrow> mem \<Rightarrow> nat \<Rightarrow> merge_state \<Rightarrow> merge_state res" where
  "populate_loc s check_alloc deleted n_sampled st rbuf loc ms =
     bindE (loc2id (sx_g s) (sx_lm s) loc) (\<lambda>i.
       if skip_id check_alloc i then Inr ms
       else if \<not> deleted (id2tag s i)
       then Inr (ms\<lparr>ms_npoints := ms_npoints ms + 1, ms_id_map := cuckoo_insert i (u32 (ms_npoints ms)) (ms_id_map ms)\<rparr>)
       else let node = chunk_node s st rbuf i loc;
                nhood = live_nhood s deleted n_sampled (get32s rbuf (dn_nbrs node) (dn_nnbrs node))
            in Inr (ms\<lparr>ms_nhoods := cuckoo_insert i nhood (ms_nhoods ms)\<rparr>))"

definition populate_chunk :: "ssd \<Rightarrow> bool \<Rightarrow> (nat \<Rightarrow> bool) \<Rightarrow> nat \<Rightarrow> nat \<times> nat \<Rightarrow> mem \<times> merge_state \<Rightarrow> (mem \<times> merge_state) res" where
  "populate_chunk s check_alloc deleted n_sampled ch = (\<lambda>(rbuf, ms).
     let rbuf = read_chunk s ch rbuf
     in bindE (foldE (populate_loc s check_alloc deleted n_sampled (fst ch) rbuf) (chunk_locs s ch) ms) (\<lambda>ms. Inr (rbuf, ms)))"

definition populate :: "ssd \<Rightarrow> bool \<Rightarrow> (nat \<Rightarrow> bool) \<Rightarrow> nat \<Rightarrow> merge_state res" where
  "populate s check_alloc deleted n_sampled =
     bindE (foldE (populate_chunk s check_alloc deleted n_sampled) (chunks SECTORS_PER_POPULATE (n_sectors s))
              (\<lambda>_. 0, \<lparr>ms_id_map = Map.empty, ms_nhoods = Map.empty, ms_npoints = 0\<rparr>)) (\<lambda>(_, ms). Inr ms)"

section \<open>Step 2: new neighbor lists\<close>

text \<open>\<^verbatim>\<open>find\<close> of a cuckoo map throws on a missing key.\<close>

definition map_find :: "('k \<Rightarrow> 'v option) \<Rightarrow> 'k \<Rightarrow> 'v res" where
  "map_find m k = (case m k of None \<Rightarrow> Inl KeyMissing | Some v \<Rightarrow> Inr v)"

text \<open>The ids inserted into the neighbor set, in order: a live neighbor, or a deleted one's
  neighborhood.\<close>

fun gather_nbrs :: "ssd \<Rightarrow> (nat \<Rightarrow> bool) \<Rightarrow> (nat \<Rightarrow> nat list option) \<Rightarrow> nat list \<Rightarrow> nat list res" where
  "gather_nbrs s deleted nhoods [] = Inr []"
| "gather_nbrs s deleted nhoods (nb # nbs) =
     bindE (if deleted (id2tag s nb) then map_find nhoods nb else Inr [nb]) (\<lambda>xs.
     bindE (gather_nbrs s deleted nhoods nbs) (\<lambda>ys. Inr (xs @ ys)))"

text \<open>A list longer than \<^verbatim>\<open>range\<close> is cut to the \<^verbatim>\<open>maxc\<close> nearest and pruned.\<close>

definition shrink_nhood :: "ssd \<Rightarrow> nat \<Rightarrow> nat list \<Rightarrow> nat list res" where
  "shrink_nhood s i nhood =
     (if length nhood \<le> cf_range (sx_cfg s) then Inr nhood
      else if thread_pq_buf_size < length nhood * sx_n_chunks s then Inl OutOfRange
      else bindE (compute_pq_dists (sx_pq s) (sx_data s) i nhood) (\<lambda>dists.
        let pool = sort_lt nb_lt (map (\<lambda>(j, d). neighbor_zero\<lparr>nb_id := j, nb_dist := d\<rparr>) (zip nhood dists))
        in prune_neighbors_pq (pq_pair_dist (sx_pq s) (sx_data s)) (sx_cfg s) (take (cf_maxc (sx_cfg s)) pool) []))"

definition repair_nhood :: "(nat list \<Rightarrow> nat list) \<Rightarrow> ssd \<Rightarrow> (nat \<Rightarrow> bool) \<Rightarrow> merge_state \<Rightarrow> nat \<Rightarrow> nat list \<Rightarrow> nat list res" where
  "repair_nhood uset s deleted ms i nbrs =
     bindE (gather_nbrs s deleted (ms_nhoods ms) nbrs) (\<lambda>ins.
     bindE (shrink_nhood s i (filter (\<lambda>j. j \<noteq> i) (uset ins))) (\<lambda>nhood.
       mapE (map_find (ms_id_map ms)) nhood))"

section \<open>Writing the new file through the sliding window\<close>

definition k_vec_in_wbuf :: "geom \<Rightarrow> nat" where
  "k_vec_in_wbuf g = 2 * SECTORS_PER_MERGE * nnodes_per_sector g"

record window =
  wd_wbuf :: mem
  wd_file :: bfile
  wd_wb_id :: nat
  wd_n_used :: nat

definition write_back :: "geom \<Rightarrow> window \<Rightarrow> window" where
  "write_back g w =
     (let n = SECTORS_PER_MERGE * nnodes_per_sector g;
          buf_id = (wd_wb_id w mod k_vec_in_wbuf g) div (nnodes_per_sector g * SECTORS_PER_MERGE);
          id_delta = min n (wd_n_used w - wd_wb_id w);
          len = ROUND_UP id_delta (nnodes_per_sector g) div nnodes_per_sector g * size_per_io g
      in w\<lparr>wd_file := fwrite (u64 (loc_sector_no g (wd_wb_id w) * SECTOR_LEN))
                        (peek (wd_wbuf w) (buf_id * SECTORS_PER_MERGE * SECTOR_LEN) len) (wd_file w),
           wd_wb_id := wd_wb_id w + id_delta\<rparr>)"

text \<open>\<^verbatim>\<open>while (wb_id < n_used_id) write_back()\<close>.\<close>

function write_back_all :: "geom \<Rightarrow> window \<Rightarrow> window" where
  "write_back_all g w = (if wd_wb_id w < wd_n_used w \<and> 0 < nnodes_per_sector g then write_back_all g (write_back g w) else w)"
  by pat_completeness auto
termination
  by (relation "measure (\<lambda>(g, w). wd_n_used w - wd_wb_id w)")
    (auto simp: write_back_def Let_def SECTORS_PER_MERGE_def)

declare write_back_all.simps [simp del]

definition window_node :: "geom \<Rightarrow> window \<Rightarrow> nat \<Rightarrow> disk_node" where
  "window_node g w new_id =
     (let off = new_id mod k_vec_in_wbuf g
      in open_node g (wd_wbuf w) new_id (offset_to_loc g (off div nnodes_per_sector g * SECTOR_LEN) off))"

text \<open>A node that stays: its record goes to the window, its code and tag to the new id's place.\<close>

definition move_node :: "(nat list \<Rightarrow> nat list) \<Rightarrow> ssd \<Rightarrow> (nat \<Rightarrow> bool) \<Rightarrow> merge_state \<Rightarrow> nat \<Rightarrow> mem \<Rightarrow> nat \<Rightarrow> nat \<Rightarrow> window \<Rightarrow>
    (nat \<times> window) res" where
  "move_node uset s deleted ms st rbuf i loc w =
     (let g = sx_g s; node = chunk_node s st rbuf i loc
      in bindE (repair_nhood uset s deleted ms i (get32s rbuf (dn_nbrs node) (dn_nnbrs node))) (\<lambda>nhood.
         bindE (map_find (ms_id_map ms) i) (\<lambda>new_id.
           Inr (new_id, w\<lparr>wd_wbuf := store_node g (wd_wbuf w) (window_node g w new_id)
                                       (peek rbuf (dn_coords node) (vec_bytes g)) nhood,
                          wd_n_used := wd_n_used w + 1\<rparr>))))"

definition merge_loc :: "(nat list \<Rightarrow> nat list) \<Rightarrow> ssd \<Rightarrow> (nat \<Rightarrow> bool) \<Rightarrow> merge_state \<Rightarrow> nat \<Rightarrow> mem \<Rightarrow> nat \<Rightarrow>
    window \<times> byte list \<times> nat list \<Rightarrow> (window \<times> byte list \<times> nat list) res" where
  "merge_loc uset s deleted ms st rbuf loc = (\<lambda>(w, pq_coords, new_tags).
     bindE (loc2id (sx_g s) (sx_lm s) loc) (\<lambda>i.
       if skip_id True i \<or> deleted (id2tag s i) then Inr (w, pq_coords, new_tags)
       else bindE (move_node uset s deleted ms st rbuf i loc w) (\<lambda>(new_id, w).
         let n = sx_n_chunks s
         in if length (sx_data s) < i * n + n \<or> length pq_coords < new_id * n + n \<or> length new_tags \<le> new_id then Inl OutOfRange
         else Inr (w, take (new_id * n) pq_coords @ take n (drop (i * n) (sx_data s)) @ drop (new_id * n + n) pq_coords,
                   new_tags[new_id := id2tag s i]))))"

definition flush_if_full :: "geom \<Rightarrow> window \<Rightarrow> window" where
  "flush_if_full g w = (if SECTORS_PER_MERGE * nnodes_per_sector g \<le> wd_n_used w - wd_wb_id w then write_back g w else w)"

definition merge_chunk :: "(nat list \<Rightarrow> nat list) \<Rightarrow> ssd \<Rightarrow> (nat \<Rightarrow> bool) \<Rightarrow> merge_state \<Rightarrow> nat \<times> nat \<Rightarrow>
    mem \<times> window \<times> byte list \<times> nat list \<Rightarrow> (mem \<times> window \<times> byte list \<times> nat list) res" where
  "merge_chunk uset s deleted ms ch = (\<lambda>(rbuf, w, pq_coords, new_tags).
     let rbuf = read_chunk s ch rbuf
     in bindE (foldE (merge_loc uset s deleted ms (fst ch) rbuf) (chunk_locs s ch) (w, pq_coords, new_tags))
          (\<lambda>(w, pq_coords, new_tags). Inr (rbuf, flush_if_full (sx_g s) w, pq_coords, new_tags)))"

section \<open>The medoid, and merge\_deletes\<close>

text \<open>A deleted medoid gives way to the first of its live neighbors.\<close>

fun pick_medoid :: "nat \<Rightarrow> ssd \<Rightarrow> (nat \<Rightarrow> bool) \<Rightarrow> (nat \<Rightarrow> nat list option) \<Rightarrow> nat \<Rightarrow> nat res" where
  "pick_medoid fuel s deleted nhoods medoid =
     (if \<not> deleted (id2tag s medoid) then Inr medoid
      else case fuel of 0 \<Rightarrow> Inl OutOfFuel
      | Suc fuel \<Rightarrow> bindE (map_find nhoods medoid) (\<lambda>ns.
          case ns of [] \<Rightarrow> Inl OutOfRange | n # _ \<Rightarrow> pick_medoid fuel s deleted nhoods n))"

declare pick_medoid.simps [simp del]

text \<open>The background queue must be empty; a task taken off it may still be in flight.\<close>

definition wait_bg :: "bool \<Rightarrow> ssd \<Rightarrow> ssd res" where
  "wait_bg inflight s =
     (if \<not> cq_empty (sx_bg_tasks s) \<or> inflight \<and> sx_bg_inflight s \<noteq> 0 then Inl Blocked else Inr s)"

definition merge_scan :: "(nat list \<Rightarrow> nat list) \<Rightarrow> ssd \<Rightarrow> (nat \<Rightarrow> bool) \<Rightarrow> merge_state \<Rightarrow> bfile \<Rightarrow> (window \<times> byte list \<times> nat list) res" where
  "merge_scan uset s deleted ms index_out =
     bindE (foldE (merge_chunk uset s deleted ms) (chunks SECTORS_PER_MERGE (n_sectors s))
              (\<lambda>_. 0, \<lparr>wd_wbuf = (\<lambda>_. 0), wd_file = index_out, wd_wb_id = 0, wd_n_used = 0\<rparr>,
               replicate (ms_npoints ms * sx_n_chunks s) 0, replicate (ms_npoints ms) 0))
       (\<lambda>(_, w, pq_coords, new_tags). Inr (write_back_all (sx_g s) w, pq_coords, new_tags))"

text \<open>The identity mapping of the new ids.\<close>

definition renumber :: "nat list \<Rightarrow> ssd \<Rightarrow> ssd res" where
  "renumber new_tags s =
     bindE (foldE (\<lambda>i lm. set_loc2id (sx_g s) i i (lm\<lparr>id2loc_map := (id2loc_map lm)(i \<mapsto> i)\<rparr>)) [0..<length new_tags]
              ((sx_lm s)\<lparr>id2loc_map := Map.empty, page_layout := Map.empty\<rparr>)) (\<lambda>lm.
       Inr (s\<lparr>sx_lm := lm, sx_tags := (\<lambda>i. if i < length new_tags then Some (new_tags ! i) else None)\<rparr>))"

definition merge_deletes :: "(nat list \<Rightarrow> nat list) \<Rightarrow> (nat \<Rightarrow> bool) \<Rightarrow> nat \<Rightarrow> index_files \<Rightarrow> ssd \<Rightarrow> (index_files \<times> ssd) res" where
  "merge_deletes uset deleted n_sampled fs s =
     (if nnodes_per_sector (sx_g s) = 0 then Inl Trap
      else bindE (wait_bg False s) (\<lambda>s.
      bindE (populate s True deleted n_sampled) (\<lambda>ms.
      bindE (merge_scan uset s deleted ms (if_index fs)) (\<lambda>(w, pq_coords, new_tags).
      bindE (pick_medoid 2 s deleted (ms_nhoods ms) (sx_medoid s)) (\<lambda>medoid.
      bindE (map_find (ms_id_map ms) medoid) (\<lambda>new_medoid.
      bindE (renumber new_tags (s\<lparr>sx_num_points := ms_npoints ms, sx_medoid := new_medoid, sx_data := pq_coords\<rparr>)) (\<lambda>s.
      bindE (write_metadata_and_pq (ms_npoints ms) new_medoid (Some new_tags) s (fs\<lparr>if_index := wd_file w\<rparr>)) (\<lambda>fs.
        Inr (fs, s)))))))))"

text \<open>\<^verbatim>\<open>reload\<close> takes the new file; the counters follow \<^verbatim>\<open>num_points\<close>.\<close>

definition reload :: "mem \<Rightarrow> ssd \<Rightarrow> ssd res" where
  "reload file s =
     (if nnodes_per_sector (sx_g s) = 0 then Inl Trap
      else let n = nnodes_per_sector (sx_g s); np = sx_num_points s
      in Inr (s\<lparr>sx_file := file,
           sx_lm := (sx_lm s)\<lparr>cur_id := np, cur_loc := (if np mod n \<noteq> 0 then np + (n - np mod n) else np),
             empty_pages := snd (cq_drain (empty_pages (sx_lm s)))\<rparr>\<rparr>))"

section \<open>The streaming variant\<close>

text \<open>Codes and tags go straight to their files; a slot handed out by \<^verbatim>\<open>alloc_loc\<close> is not skipped.\<close>

definition stream_loc :: "(nat list \<Rightarrow> nat list) \<Rightarrow> ssd \<Rightarrow> (nat \<Rightarrow> bool) \<Rightarrow> merge_state \<Rightarrow> nat \<Rightarrow> mem \<Rightarrow> nat \<Rightarrow>
    window \<times> bfile \<times> bfile \<Rightarrow> (window \<times> bfile \<times> bfile) res" where
  "stream_loc uset s deleted ms st rbuf loc = (\<lambda>(w, pq_io, tags_io).
     bindE (loc2id (sx_g s) (sx_lm s) loc) (\<lambda>i.
       if skip_id False i \<or> deleted (id2tag s i) then Inr (w, pq_io, tags_io)
       else bindE (move_node uset s deleted ms st rbuf i loc w) (\<lambda>(new_id, w).
         let n = sx_n_chunks s
         in if length (sx_data s) < i * n + n then Inl OutOfRange
         else Inr (w, fwrite (8 + new_id * n) (take n (drop (i * n) (sx_data s))) pq_io,
                   fwrite (8 + new_id * 4) (le32 (id2tag s i)) tags_io))))"

definition stream_chunk :: "(nat list \<Rightarrow> nat list) \<Rightarrow> ssd \<Rightarrow> (nat \<Rightarrow> bool) \<Rightarrow> merge_state \<Rightarrow> nat \<times> nat \<Rightarrow>
    mem \<times> window \<times> bfile \<times> bfile \<Rightarrow> (mem \<times> window \<times> bfile \<times> bfile) res" where
  "stream_chunk uset s deleted ms ch = (\<lambda>(rbuf, w, pq_io, tags_io).
     let rbuf = read_chunk s ch rbuf
     in bindE (foldE (stream_loc uset s deleted ms (fst ch) rbuf) (chunk_locs s ch) (w, pq_io, tags_io))
          (\<lambda>(w, pq_io, tags_io). Inr (rbuf, flush_if_full (sx_g s) w, pq_io, tags_io)))"

definition bin_header :: "nat \<Rightarrow> nat \<Rightarrow> bfile" where
  "bin_header npts ndims = fwrite 4 (le32 ndims) (fwrite 0 (le32 npts) empty_file)"

text \<open>The header carries the medoid's old id; mapping, tags and codes in memory stay as they are.
  \<^verbatim>\<open>order\<close> is the page cache's iteration order.\<close>

definition merge_deletes_stream_pq_tags :: "(nat list \<Rightarrow> nat list) \<Rightarrow> nat list \<Rightarrow> (nat \<Rightarrow> bool) \<Rightarrow> nat \<Rightarrow> index_files \<Rightarrow> ssd \<Rightarrow>
    (index_files \<times> ssd) res" where
  "merge_deletes_stream_pq_tags uset order deleted n_sampled fs s =
     (if nnodes_per_sector (sx_g s) = 0 then Inl Trap
      else bindE (wait_bg True s) (\<lambda>s.
      let (c, file) = flush_page_cache order (sx_cache s) (sx_file s);
          s = s\<lparr>sx_cache := c, sx_file := file\<rparr>
      in bindE (populate s False deleted n_sampled) (\<lambda>ms.
      let np = ms_npoints ms;
          out = ftruncate (index_file_size (sx_g s) np) (if_index fs)
      in bindE (foldE (stream_chunk uset s deleted ms) (chunks SECTORS_PER_MERGE (n_sectors s))
              (\<lambda>_. 0, \<lparr>wd_wbuf = (\<lambda>_. 0), wd_file = out, wd_wb_id = 0, wd_n_used = 0\<rparr>,
               bin_header np (sx_n_chunks s), bin_header np 1)) (\<lambda>(_, w, pq_io, tags_io).
      let w = write_back_all (sx_g s) w
      in bindE (pick_medoid 2 s deleted (ms_nhoods ms) (sx_medoid s)) (\<lambda>medoid.
        Inr (\<lparr>if_index = save_metadata (output_metadata s np medoid) (wd_file w), if_tags = tags_io, if_pq = pq_io\<rparr>, s))))))"

section \<open>Rewriting the graph only\<close>

definition rebuild_loc :: "(nat list \<Rightarrow> nat list) \<Rightarrow> ssd \<Rightarrow> nat \<Rightarrow> nat \<Rightarrow> mem \<Rightarrow> mem res" where
  "rebuild_loc uset s st loc buf =
     bindE (loc2id (sx_g s) (sx_lm s) loc) (\<lambda>i.
       if skip_id True i then Inr buf
       else let node = chunk_node s st buf i loc
            in bindE (shrink_nhood s i (uset (filter (\<lambda>nb. nb \<noteq> i) (get32s buf (dn_nbrs node) (dn_nnbrs node))))) (\<lambda>nhood.
                 Inr (put32s (put32 buf (dn_nbrs node - 4) (length nhood)) (dn_nbrs node) nhood)))"

definition rebuild_chunk :: "(nat list \<Rightarrow> nat list) \<Rightarrow> ssd \<Rightarrow> nat \<times> nat \<Rightarrow> mem \<times> bfile \<Rightarrow> (mem \<times> bfile) res" where
  "rebuild_chunk uset s ch = (\<lambda>(buf, out).
     bindE (foldE (rebuild_loc uset s (fst ch)) (chunk_locs s ch) (read_chunk s ch buf)) (\<lambda>buf.
       Inr (buf, fwrite (r_offset (chunk_req s ch)) (peek buf 0 (r_len (chunk_req s ch))) out)))"

text \<open>In place, each chunk is read before it is written, so the file read is the one before the merge.\<close>

definition rebuild_in_place_chunk :: "(nat list \<Rightarrow> nat list) \<Rightarrow> nat \<times> nat \<Rightarrow> mem \<times> ssd \<Rightarrow> (mem \<times> ssd) res" where
  "rebuild_in_place_chunk uset ch = (\<lambda>(buf, s).
     bindE (foldE (rebuild_loc uset s (fst ch)) (chunk_locs s ch) (read_chunk s ch buf)) (\<lambda>buf.
       Inr (buf, s\<lparr>sx_file := write_io buf [chunk_req s ch] (sx_file s)\<rparr>)))"

definition rebuild_graph_in_place :: "(nat list \<Rightarrow> nat list) \<Rightarrow> nat list \<Rightarrow> ssd \<Rightarrow> ssd res" where
  "rebuild_graph_in_place uset order s =
     (if nnodes_per_sector (sx_g s) = 0 then Inl Trap
      else bindE (wait_bg True s) (\<lambda>s.
      let (c, file) = flush_page_cache order (sx_cache s) (sx_file s);
          s = s\<lparr>sx_cache := c, sx_file := file\<rparr>
      in bindE (foldE (rebuild_in_place_chunk uset) (chunks SECTORS_PER_MERGE (n_sectors s)) (\<lambda>_. 0, s)) (\<lambda>(_, s). Inr s)))"

text \<open>\<^verbatim>\<open>merge_graph_only\<close> writes every record to the location it has, under a header for \<^verbatim>\<open>cur_id\<close>
  points; code and tag files are copies of the input's.\<close>

definition merge_graph_only :: "(nat list \<Rightarrow> nat list) \<Rightarrow> nat list \<Rightarrow> index_files \<Rightarrow> index_files \<Rightarrow> ssd \<Rightarrow> (index_files \<times> ssd) res" where
  "merge_graph_only uset order fs_in fs s =
     (if nnodes_per_sector (sx_g s) = 0 then Inl Trap
      else bindE (wait_bg True s) (\<lambda>s.
      let (c, file) = flush_page_cache order (sx_cache s) (sx_file s);
          s = s\<lparr>sx_cache := c, sx_file := file\<rparr>;
          np = cur_id (sx_lm s);
          out = ftruncate (index_file_size (sx_g s) np) (if_index fs)
      in bindE (foldE (rebuild_chunk uset s) (chunks SECTORS_PER_MERGE (n_sectors s)) (\<lambda>_. 0, out)) (\<lambda>(_, out).
        Inr (\<lparr>if_index = save_metadata (output_metadata s np (sx_medoid s)) out, if_tags = if_tags fs_in, if_pq = if_pq fs_in\<rparr>, s))))"

end
