(* ===== verification/Dynamic_Index.thy ===== *)
theory Dynamic_Index imports Merge begin

text \<open>
  \<^verbatim>\<open>DynamicSSDIndex\<close> (\<^verbatim>\<open>include/v2/dynamic_index.h\<close>, \<^verbatim>\<open>src/update/dynamic_index.cpp\<close>): inserts, searches that
  leave out deleted tags, the two deletion sets that take turns, and the merges.  The journal's
  methods are empty.  The searches of the disk index other than the beam search are parameters.
\<close>

datatype search_mode = BEAM_SEARCH | PAGE_SEARCH | PIPE_SEARCH

record dyn_index =
  dx_disk :: ssd
  dx_active_delete_set :: nat
  dx_deletion_sets :: "nat \<Rightarrow> nat set"
  dx_deleted_tags :: "nat \<Rightarrow> nat list"
  dx_active_del :: "nat \<Rightarrow> bool"
  dx_files_in :: index_files
  dx_files_out :: index_files
  dx_search_mode :: search_mode

definition active_set :: "dyn_index \<Rightarrow> nat set" where
  "active_set dx = dx_deletion_sets dx (dx_active_delete_set dx)"

definition dyn_insert :: "bool \<Rightarrow> ssd_env \<Rightarrow> nat \<Rightarrow> byte list \<Rightarrow> nat \<Rightarrow> dyn_index \<Rightarrow> (nat \<times> dyn_index) res" where
  "dyn_insert dp en fuel point tag dx =
     bindE (insert_in_place dp en fuel point tag (Some (\<lambda>t. t \<in> active_set dx)) (dx_disk dx)) (\<lambda>(i, s).
       Inr (i, dx\<lparr>dx_disk := s\<rparr>))"

text \<open>The results that are not deleted, up to \<^verbatim>\<open>K\<close>; the count is compared after each result, so it
  never equals zero once something was written.\<close>

fun copy_live :: "nat set \<Rightarrow> nat \<Rightarrow> (nat \<times> f32) list \<Rightarrow> (nat \<times> f32) list \<Rightarrow> (nat \<times> f32) list" where
  "copy_live del K [] out = out"
| "copy_live del K ((t, d) # rs) out =
     (let out = (if t \<in> del then out else out @ [(t, d)])
      in if length out = K then out else copy_live del K rs out)"

text \<open>The disk index writes into vectors of 4096 results.\<close>

definition dyn_search :: "ssd_env \<Rightarrow> nat \<Rightarrow> (byte list \<Rightarrow> nat \<Rightarrow> nat \<Rightarrow> nat \<Rightarrow> nat \<Rightarrow> ssd \<Rightarrow> ((nat \<times> f32) list \<times> ssd) res) \<Rightarrow>
    (byte list \<Rightarrow> nat \<Rightarrow> nat \<Rightarrow> nat \<Rightarrow> nat \<Rightarrow> ssd \<Rightarrow> ((nat \<times> f32) list \<times> ssd) res) \<Rightarrow>
    byte list \<Rightarrow> nat \<Rightarrow> nat \<Rightarrow> nat \<Rightarrow> nat \<Rightarrow> bool \<Rightarrow> dyn_index \<Rightarrow> ((nat \<times> f32) list \<times> dyn_index) res" where
  "dyn_search en fuel page_search pipe_search query K mem_L search_L beam_width dyn_search_l dx =
     bindE (case dx_search_mode dx of
              BEAM_SEARCH \<Rightarrow> beam_search en fuel query search_L mem_L search_L beam_width (Some (\<lambda>t. t \<in> active_set dx)) dyn_search_l (dx_disk dx)
            | PAGE_SEARCH \<Rightarrow> page_search query search_L mem_L search_L beam_width (dx_disk dx)
            | PIPE_SEARCH \<Rightarrow> pipe_search query search_L mem_L search_L beam_width (dx_disk dx)) (\<lambda>(res, s).
       if 4096 < length res then Inl OutOfRange
       else Inr (copy_live (active_set dx) K res [], dx\<lparr>dx_disk := s\<rparr>))"

text \<open>A delete sent to a set that is not active is only logged.\<close>

definition lazy_delete :: "nat \<Rightarrow> dyn_index \<Rightarrow> dyn_index" where
  "lazy_delete tag dx =
     (let a = dx_active_delete_set dx
      in if tag \<in> dx_deletion_sets dx a then dx
         else dx\<lparr>dx_deletion_sets := (dx_deletion_sets dx)(a := insert tag (dx_deletion_sets dx a)),
                 dx_deleted_tags := (dx_deleted_tags dx)(a := dx_deleted_tags dx a @ [tag])\<rparr>)"

text \<open>The other set is cleared and becomes the active one.\<close>

definition save_del_set :: "dyn_index \<Rightarrow> dyn_index" where
  "save_del_set dx =
     (let cur_idx = dx_active_delete_set dx; nxt_idx = 1 - cur_idx
      in dx\<lparr>dx_deletion_sets := (dx_deletion_sets dx)(nxt_idx := {}),
            dx_deleted_tags := (dx_deleted_tags dx)(nxt_idx := []),
            dx_active_del := (dx_active_del dx)(nxt_idx := True, cur_idx := False),
            dx_active_delete_set := nxt_idx\<rparr>)"

text \<open>The merges swap the two prefixes once the new files are written.\<close>

definition swap_and_reload :: "index_files \<times> ssd \<Rightarrow> dyn_index \<Rightarrow> dyn_index res" where
  "swap_and_reload = (\<lambda>(fs, s) dx.
     bindE (reload (bf_bytes (if_index fs)) s) (\<lambda>s.
       Inr (dx\<lparr>dx_disk := s, dx_files_in := fs, dx_files_out := dx_files_in dx\<rparr>)))"

definition final_merge :: "(nat list \<Rightarrow> nat list) \<Rightarrow> nat \<Rightarrow> dyn_index \<Rightarrow> dyn_index res" where
  "final_merge uset n_sampled dx =
     (let dx = save_del_set dx; old = 1 - dx_active_delete_set dx
      in bindE (merge_deletes uset (\<lambda>t. t \<in> dx_deletion_sets dx old) n_sampled (dx_files_out dx) (dx_disk dx)) (\<lambda>r.
           swap_and_reload r dx))"

definition final_merge_graph :: "(nat list \<Rightarrow> nat list) \<Rightarrow> nat list \<Rightarrow> dyn_index \<Rightarrow> dyn_index res" where
  "final_merge_graph uset order dx =
     (let dx = save_del_set dx
      in bindE (merge_graph_only uset order (dx_files_in dx) (dx_files_out dx) (dx_disk dx)) (\<lambda>r. swap_and_reload r dx))"

definition final_merge_stream_pq_tags :: "(nat list \<Rightarrow> nat list) \<Rightarrow> nat list \<Rightarrow> nat \<Rightarrow> dyn_index \<Rightarrow> dyn_index res" where
  "final_merge_stream_pq_tags uset order n_sampled dx =
     (let dx = save_del_set dx; old = 1 - dx_active_delete_set dx
      in bindE (merge_deletes_stream_pq_tags uset order (\<lambda>t. t \<in> dx_deletion_sets dx old) n_sampled (dx_files_out dx) (dx_disk dx)) (\<lambda>r.
           swap_and_reload r dx))"

end
