(* ===== verification/Dyn_Props.thy ===== *)
theory Dyn_Props imports Dynamic_Index Beam_Correct begin

text \<open>
  What the dynamic index promises: its searches leave out deleted tags and are otherwise those of the
  disk index, the two deletion sets stay in step whatever operations run, and the graph-only
  merge forgets the deletions.
\<close>

section \<open>Searching\<close>

lemma copy_live_spec:
  "length out < K \<Longrightarrow> copy_live del K rs out = take K (out @ filter (\<lambda>r. fst r \<notin> del) rs)"
proof (induction rs arbitrary: out)
  case (Cons r rs)
  obtain t d where r: "r = (t, d)" by (cases r)
  show ?case
  proof (cases "t \<in> del")
    case True
    with Cons r show ?thesis by (simp add: Let_def)
  next
    case False
    then show ?thesis
      using Cons.IH [of "out @ [(t, d)]"] Cons.prems r by (auto simp: Let_def)
  qed
qed simp

definition undeleted :: "dyn_index \<Rightarrow> ssd \<Rightarrow> neighbor \<Rightarrow> bool" where
  "undeleted dx s n \<longleftrightarrow> id2tag s (nb_id n) \<notin> active_set dx"

text \<open>C36: a search of the dynamic index in beam mode reports the first \<^verbatim>\<open>K\<close> results of the disk
  index's search whose tags are not deleted, with their exact distances; when the candidate list has
  room for every reachable node these are the \<^verbatim>\<open>K\<close> nearest undeleted reachable nodes.\<close>

theorem dyn_search_correct:
  assumes "pop_query_buf en (Some query1) (dx_disk dx) = Inr (qb, s0)" "search_ok en s0 qb mem_L l beam"
    "\<forall>i. id2loc_map (sx_lm s0) i \<noteq> None \<longrightarrow> fnum (exact_dist en s0 qb i)"
    "(cur_id (sx_lm s0) + 1) * (cur_id (sx_lm s0) + 1) \<le> fuel" "l \<le> 4096" "beam < 4294967296"
    "dx_search_mode dx = BEAM_SEARCH" "0 < K"
  shows "\<exists>res m'. dyn_search en fuel ps pps query1 K mem_L l beam dyn dx =
      Inr (take K (map (\<lambda>n. (id2tag (dx_disk dx) (nb_id n), exact_dist en s0 qb (nb_id n)))
                     (filter (undeleted dx (dx_disk dx)) (take l res))),
           dx\<lparr>dx_disk := push_query_buf qb (s0\<lparr>sx_mem := m'\<rparr>)\<rparr>) \<and>
    distinct (map nb_id res) \<and> sorted_wrt (\<lambda>a b. \<not> nb_lt b a) res \<and> nb_id ` set res \<subseteq> reachable en s0 qb mem_L l \<and>
    (card (reachable en s0 qb mem_L l) \<le> l \<longrightarrow> take l res = res \<and> nb_id ` set res = reachable en s0 qb mem_L l)"
proof -
  let ?f = "\<lambda>n. (id2tag (dx_disk dx) (nb_id n), exact_dist en s0 qb (nb_id n))"
  have d: "dyn \<longrightarrow> Some (\<lambda>t. t \<in> active_set dx) \<noteq> None" and l: "l < 4294967296" using assms(5) by simp_all
  from beam_search_spec [OF assms(1,2) d assms(3,4) l assms(6), of l] obtain res m' where
    r: "beam_search en fuel query1 l mem_L l beam (Some (\<lambda>t. t \<in> active_set dx)) dyn (dx_disk dx) =
        Inr (map ?f (take (min l l) res), push_query_buf qb (s0\<lparr>sx_mem := m'\<rparr>))"
      "distinct (map nb_id res)" "sorted_wrt (\<lambda>a b. \<not> nb_lt b a) res" "nb_id ` set res \<subseteq> reachable en s0 qb mem_L l"
      "card (reachable en s0 qb mem_L l) \<le> l \<longrightarrow> nb_id ` set res = reachable en s0 qb mem_L l" by blast
  have "filter (\<lambda>r. fst r \<notin> active_set dx) (map ?f (take l res)) = map ?f (filter (undeleted dx (dx_disk dx)) (take l res))"
    by (induction "take l res") (simp_all add: filter_map o_def undeleted_def [abs_def])
  then have c: "copy_live (active_set dx) K (map ?f (take l res)) [] =
      take K (map ?f (filter (undeleted dx (dx_disk dx)) (take l res)))"
    using copy_live_spec [of "[]" K "active_set dx" "map ?f (take l res)"] assms(8) by simp
  have "length (take l res) \<le> 4096" using assms(5) by simp
  then have run: "dyn_search en fuel ps pps query1 K mem_L l beam dyn dx =
      Inr (take K (map ?f (filter (undeleted dx (dx_disk dx)) (take l res))), dx\<lparr>dx_disk := push_query_buf qb (s0\<lparr>sx_mem := m'\<rparr>)\<rparr>)"
    using r(1) c assms(5) by (simp add: dyn_search_def assms(7))
  have "take l res = res" if "card (reachable en s0 qb mem_L l) \<le> l"
  proof -
    have "length res = card (nb_id ` set res)" using distinct_card [OF r(2)] by simp
    with that r(5) show ?thesis by simp
  qed
  with run r(2-5) show ?thesis by blast
qed

section \<open>The deletion sets\<close>

text \<open>One of two sets is active and takes deletions; beside each set the list of its tags.\<close>

definition del_inv :: "dyn_index \<Rightarrow> bool" where
  "del_inv dx \<longleftrightarrow> dx_active_delete_set dx < 2 \<and> dx_active_del dx (dx_active_delete_set dx) \<and>
     \<not> dx_active_del dx (1 - dx_active_delete_set dx) \<and>
     (\<forall>k < 2. set (dx_deleted_tags dx k) = dx_deletion_sets dx k \<and> distinct (dx_deleted_tags dx k))"

definition fresh_index :: "dyn_index \<Rightarrow> bool" where
  "fresh_index dx \<longleftrightarrow> dx_active_delete_set dx = 0 \<and> dx_active_del dx 0 \<and> \<not> dx_active_del dx 1 \<and>
     (\<forall>k < 2. dx_deletion_sets dx k = {} \<and> dx_deleted_tags dx k = [])"

text \<open>One call of a public operation; what the caller passes is arbitrary.\<close>

inductive dyn_step :: "dyn_index \<Rightarrow> dyn_index \<Rightarrow> bool" where
  "dyn_insert dp en fuel point tag dx = Inr (i, dx') \<Longrightarrow> dyn_step dx dx'"
| "dyn_search en fuel ps pps query K mem_L L beam dyn dx = Inr (res, dx') \<Longrightarrow> dyn_step dx dx'"
| "dyn_step dx (lazy_delete tag dx)"
| "final_merge uset n dx = Inr dx' \<Longrightarrow> dyn_step dx dx'"
| "final_merge_graph uset order dx = Inr dx' \<Longrightarrow> dyn_step dx dx'"
| "final_merge_stream_pq_tags uset order n dx = Inr dx' \<Longrightarrow> dyn_step dx dx'"

inductive_cases dyn_stepE: "dyn_step dx dx'"

definition same_sets :: "dyn_index \<Rightarrow> dyn_index \<Rightarrow> bool" where
  "same_sets dx dx' \<longleftrightarrow> dx_active_delete_set dx' = dx_active_delete_set dx \<and> dx_deletion_sets dx' = dx_deletion_sets dx \<and>
     dx_deleted_tags dx' = dx_deleted_tags dx \<and> dx_active_del dx' = dx_active_del dx"

lemma del_inv_same: "same_sets dx dx' \<Longrightarrow> del_inv dx \<Longrightarrow> del_inv dx'"
  by (simp add: same_sets_def del_inv_def)

lemma swap_same: "swap_and_reload r dx = Inr dx' \<Longrightarrow> same_sets dx dx'"
  by (auto simp: swap_and_reload_def same_sets_def split: prod.splits)

lemma final_merge_same: "final_merge uset n dx = Inr dx' \<Longrightarrow> same_sets (save_del_set dx) dx'"
  by (auto simp: final_merge_def Let_def intro: swap_same)

lemma final_merge_graph_same: "final_merge_graph uset order dx = Inr dx' \<Longrightarrow> same_sets (save_del_set dx) dx'"
  by (auto simp: final_merge_graph_def Let_def intro: swap_same)

lemma final_merge_stream_same: "final_merge_stream_pq_tags uset order n dx = Inr dx' \<Longrightarrow> same_sets (save_del_set dx) dx'"
  by (auto simp: final_merge_stream_pq_tags_def Let_def intro: swap_same)

lemma dyn_insert_same: "dyn_insert dp en fuel point tag dx = Inr (i, dx') \<Longrightarrow> same_sets dx dx'"
  by (auto simp: dyn_insert_def same_sets_def split: prod.splits)

lemma dyn_search_same: "dyn_search en fuel ps pps query K mem_L L beam dyn dx = Inr (res, dx') \<Longrightarrow> same_sets dx dx'"
  unfolding dyn_search_def same_sets_def bindE_Inr by (auto split: prod.splits if_splits simp del: bindE_Inr)

lemma two_cases: "(a :: nat) < 2 \<longleftrightarrow> a = 0 \<or> a = 1"
  by linarith

lemma save_del_set_inv: "del_inv dx \<Longrightarrow> del_inv (save_del_set dx)"
  by (auto simp: del_inv_def save_del_set_def Let_def two_cases)

lemma lazy_delete_inv:
  assumes "del_inv dx"
  shows "del_inv (lazy_delete tag dx)"
proof (cases "tag \<in> dx_deletion_sets dx (dx_active_delete_set dx)")
  case True
  then show ?thesis using assms by (simp add: lazy_delete_def)
next
  case False
  then have t: "tag \<notin> set (dx_deleted_tags dx (dx_active_delete_set dx))" using assms by (simp add: del_inv_def)
  have "set (dx_deleted_tags dx k @ [tag]) = insert tag (dx_deletion_sets dx k) \<and> distinct (dx_deleted_tags dx k @ [tag])"
    if "k = dx_active_delete_set dx" for k
    using t assms that by (simp add: del_inv_def)
  with False show ?thesis using assms by (simp add: del_inv_def lazy_delete_def Let_def)
qed

lemma dyn_step_same: "dyn_step dx dx' \<Longrightarrow>
    same_sets dx dx' \<or> same_sets (save_del_set dx) dx' \<or> (\<exists>tag. dx' = lazy_delete tag dx)"
  by (erule dyn_stepE)
    (fast dest: dyn_insert_same dyn_search_same final_merge_same final_merge_graph_same final_merge_stream_same)+

lemma dyn_step_inv: "dyn_step dx dx' \<Longrightarrow> del_inv dx \<Longrightarrow> del_inv dx'"
  by (auto dest!: dyn_step_same intro: del_inv_same save_del_set_inv lazy_delete_inv)

text \<open>C38: whatever operations run on a freshly opened index, one of the two deletion sets is active and takes
  deletions, the other does not, and the lists of deleted tags handed to the merges hold the elements of
  the sets, each once.\<close>

theorem deletion_sets_in_step:
  assumes "fresh_index dx0" "dyn_step\<^sup>*\<^sup>* dx0 dx"
  shows "del_inv dx"
  using assms(2)
proof (induction rule: rtranclp_induct)
  case base
  then show ?case using assms(1) by (auto simp: fresh_index_def del_inv_def two_cases)
qed (rule dyn_step_inv)

text \<open>C39: a graph-only merge leaves no tag deleted, while the mapping and the tags still hold every node:
  a node deleted before comes back.\<close>

theorem graph_merge_forgets_deletions:
  assumes "final_merge_graph uset order dx = Inr dx'" "dx_active_delete_set dx < 2"
  shows "active_set dx' = {} \<and> id2loc_map (sx_lm (dx_disk dx')) = id2loc_map (sx_lm (dx_disk dx)) \<and>
    page_layout (sx_lm (dx_disk dx')) = page_layout (sx_lm (dx_disk dx)) \<and> sx_tags (dx_disk dx') = sx_tags (dx_disk dx)"
proof -
  from assms(1) have "same_sets (save_del_set dx) dx'" by (rule final_merge_graph_same)
  then have "active_set dx' = {}" using assms(2)
    by (auto simp: same_sets_def active_set_def save_del_set_def Let_def)
  moreover from assms(1) obtain fs s where m: "merge_graph_only uset order (dx_files_in (save_del_set dx)) (dx_files_out (save_del_set dx))
      (dx_disk (save_del_set dx)) = Inr (fs, s)" "swap_and_reload (fs, s) (save_del_set dx) = Inr dx'"
    by (auto simp: final_merge_graph_def Let_def)
  have d: "dx_disk (save_del_set dx) = dx_disk dx" by (simp add: save_del_set_def Let_def)
  have "sx_lm s = sx_lm (dx_disk dx) \<and> sx_tags s = sx_tags (dx_disk dx)"
    using m(1) unfolding d by (auto simp: merge_graph_only_def wait_bg_def Let_def split: if_splits prod.splits)
  moreover have "id2loc_map (sx_lm (dx_disk dx')) = id2loc_map (sx_lm s) \<and> page_layout (sx_lm (dx_disk dx')) = page_layout (sx_lm s) \<and>
      sx_tags (dx_disk dx') = sx_tags s"
    using m(2) by (auto simp: swap_and_reload_def reload_def Let_def split: if_splits)
  ultimately show ?thesis by simp
qed

section \<open>Witnesses\<close>

definition no_files :: index_files where
  "no_files = \<lparr>if_index = empty_file, if_tags = empty_file, if_pq = empty_file\<rparr>"

definition demo_dx :: "nat set \<Rightarrow> dyn_index" where
  "demo_dx del = \<lparr>dx_disk = demo2, dx_active_delete_set = 0, dx_deletion_sets = (\<lambda>k. if k = 0 then del else {}),
     dx_deleted_tags = (\<lambda>k. if k = 0 then sorted_list_of_set del else []), dx_active_del = (\<lambda>k. k = 0),
     dx_files_in = no_files, dx_files_out = no_files, dx_search_mode = BEAM_SEARCH\<rparr>"

lemma demo_dx_simps [simp]: "dx_disk (demo_dx del) = demo2" "dx_search_mode (demo_dx del) = BEAM_SEARCH"
  "active_set (demo_dx del) = del"
  by (simp_all add: demo_dx_def active_set_def)

lemma demo2_num: "\<forall>i. id2loc_map (sx_lm demo2_popped) i \<noteq> None \<longrightarrow> fnum (exact_dist demo2_env demo2_popped demo2_buf i)"
  by (simp add: exact_dist_def demo2_env_def)

theorem dyn_search_correct_witness:
  "\<exists>(res :: neighbor list) m'. dyn_search demo2_env 9 (\<lambda>_ _ _ _ _ _. Inl Crash) (\<lambda>_ _ _ _ _ _. Inl Crash)
        [1, 2, 3, 4] 1 0 4 4 True (demo_dx {0}) =
      Inr (take 1 (map (\<lambda>n. (id2tag demo2 (nb_id n), exact_dist demo2_env demo2_popped demo2_buf (nb_id n)))
                     (filter (undeleted (demo_dx {0}) demo2) (take 4 res))),
           (demo_dx {0})\<lparr>dx_disk := push_query_buf demo2_buf (demo2_popped\<lparr>sx_mem := m'\<rparr>)\<rparr>) \<and>
    nb_id ` set res = reachable demo2_env demo2_popped demo2_buf 0 4"
proof -
  have f: "(cur_id (sx_lm demo2_popped) + 1) * (cur_id (sx_lm demo2_popped) + 1) \<le> 9" by (simp add: demo2_popped_simps)
  have p: "pop_query_buf demo2_env (Some [1, 2, 3, 4]) (dx_disk (demo_dx {0})) = Inr (demo2_buf, demo2_popped)"
    by (simp add: demo2_pop)
  have l: "(4 :: nat) \<le> 4096" "(4 :: nat) < 4294967296" "dx_search_mode (demo_dx {0}) = BEAM_SEARCH" "0 < (1 :: nat)" by simp_all
  obtain res :: "neighbor list" and m' where r: "dyn_search demo2_env 9 (\<lambda>_ _ _ _ _ _. Inl Crash) (\<lambda>_ _ _ _ _ _. Inl Crash)
        [1, 2, 3, 4] 1 0 4 4 True (demo_dx {0}) =
      Inr (take 1 (map (\<lambda>n. (id2tag (dx_disk (demo_dx {0})) (nb_id n), exact_dist demo2_env demo2_popped demo2_buf (nb_id n)))
                     (filter (undeleted (demo_dx {0}) (dx_disk (demo_dx {0}))) (take 4 res))),
           (demo_dx {0})\<lparr>dx_disk := push_query_buf demo2_buf (demo2_popped\<lparr>sx_mem := m'\<rparr>)\<rparr>)"
      "card (reachable demo2_env demo2_popped demo2_buf 0 4) \<le> 4 \<longrightarrow>
        take 4 res = res \<and> nb_id ` set res = reachable demo2_env demo2_popped demo2_buf 0 4"
    using dyn_search_correct [OF p demo2_search_ok demo2_num f l(1,2,3,4),
        of "\<lambda>_ _ _ _ _ _. Inl Crash" "\<lambda>_ _ _ _ _ _. Inl Crash" True] by blast
  from mp [OF r(2) demo2_reachable] r(1) show ?thesis unfolding demo_dx_simps by blast
qed

theorem deletion_sets_in_step_witness: "del_inv (lazy_delete 7 (demo_dx {}))"
proof (rule deletion_sets_in_step)
  show "fresh_index (demo_dx {})" by (simp add: fresh_index_def demo_dx_def)
  show "dyn_step\<^sup>*\<^sup>* (demo_dx {}) (lazy_delete 7 (demo_dx {}))" by (rule r_into_rtranclp) (rule dyn_step.intros)
qed

lemma demo_merge_chunks: "n_sectors demo2 = 1" "chunks SECTORS_PER_MERGE 1 = [(0, 1)]" "chunk_locs demo2 (0, 1) = [0, 1]"
  by (simp_all add: n_sectors_def chunks_def chunk_locs_def demo2_def demo2_geom_def SECTORS_PER_MERGE_def DIV_ROUND_UP_def upt_rec [of _ 2])

theorem graph_merge_forgets_deletions_witness:
  "\<exists>dx'. final_merge_graph (\<lambda>xs. xs) [] (lazy_delete 1 (demo_dx {})) = Inr dx' \<and> active_set (lazy_delete 1 (demo_dx {})) = {1} \<and>
    active_set dx' = {} \<and> id2loc_map (sx_lm (dx_disk dx')) 1 = Some 1"
proof -
  have a: "active_set (lazy_delete 1 (demo_dx {})) = {1}" "dx_active_delete_set (lazy_delete 1 (demo_dx {})) < 2"
    by (simp_all add: lazy_delete_def demo_dx_def active_set_def Let_def)
  have l: "loc2id (sx_g demo2) (sx_lm demo2) loc = Inr kInvalidID" for loc
    by (simp add: loc2id_def slot_no_def demo2_def demo2_geom_def)
  have k: "rebuild_loc (\<lambda>xs. xs) demo2 st loc buf = Inr buf" for st loc buf
    by (simp add: rebuild_loc_def l skip_id_def)
  have d: "dx_disk (save_del_set (lazy_delete 1 (demo_dx {}))) = demo2"
    by (simp add: save_del_set_def lazy_delete_def demo_dx_def Let_def)
  have w: "nnodes_per_sector (sx_g demo2) = 16" "wait_bg True demo2 = Inr demo2"
    by (simp_all add: demo2_def demo2_geom_def wait_bg_def cq_new_def cq_empty_def cq_size_def)
  have fl: "flush_page_cache [] (sx_cache demo2) (sx_file demo2) = (Map.empty, sx_file demo2)"
    by (simp add: flush_page_cache_def cache_clear_def)
  have s: "demo2\<lparr>sx_cache := Map.empty, sx_file := sx_file demo2\<rparr> = demo2" by (simp add: demo2_def)
  have "\<exists>fs'. merge_graph_only (\<lambda>xs. xs) [] fs fs2 demo2 = Inr (fs', demo2)" for fs fs2
    unfolding merge_graph_only_def w Let_def bindE.simps fl prod.case s demo_merge_chunks
    by (simp add: rebuild_chunk_def demo_merge_chunks(3) [unfolded One_nat_def] k)
  then obtain fs' where g: "merge_graph_only (\<lambda>xs. xs) [] (dx_files_in (save_del_set (lazy_delete 1 (demo_dx {}))))
      (dx_files_out (save_del_set (lazy_delete 1 (demo_dx {})))) demo2 = Inr (fs', demo2)" by blast
  have "\<exists>s. reload f demo2 = Inr s" for f by (simp add: reload_def w Let_def)
  then obtain s where "reload (bf_bytes (if_index fs')) demo2 = Inr s" by blast
  then obtain dx' where m: "final_merge_graph (\<lambda>xs. xs) [] (lazy_delete 1 (demo_dx {})) = Inr dx'"
    unfolding final_merge_graph_def Let_def d g bindE.simps swap_and_reload_def prod.case by simp
  from graph_merge_forgets_deletions [OF m a(2)] m a(1) show ?thesis
    by (simp add: lazy_delete_def demo_dx_def demo2_def Let_def)
qed

end
