(* ===== verification/Merge_Window.thy ===== *)
theory Merge_Window imports Merge Loc_Alloc begin

text \<open>
  The loops of a merge: the chunks cover every location once, a chunk's buffer holds the records of its
  locations, and the sliding window writes every record to its place in the new file.
\<close>

section \<open>The chunks\<close>

lemma foldE_upt:
  assumes "J a st" "a \<le> b" "\<And>i st. a \<le> i \<Longrightarrow> i < b \<Longrightarrow> J i st \<Longrightarrow> \<exists>st'. f i st = Inr st' \<and> J (Suc i) st'"
  shows "\<exists>st'. foldE f [a..<b] st = Inr st' \<and> J b st'"
proof -
  have "\<exists>st'. foldE f [a..<a + d] st = Inr st' \<and> J (a + d) st'" if "J a st" "a + d \<le> b" "\<And>i st. a \<le> i \<Longrightarrow> i < b \<Longrightarrow> J i st \<Longrightarrow> \<exists>st'. f i st = Inr st' \<and> J (Suc i) st'"
    for d a st
    using that
  proof (induction d arbitrary: a st)
    case (Suc d)
    from Suc.prems(2) have ab: "a < b" by simp
    from Suc.prems(3) [OF order_refl ab Suc.prems(1)] obtain st1 where s: "f a st = Inr st1" "J (Suc a) st1" by blast
    have "\<exists>st'. foldE f [Suc a..<Suc a + d] st1 = Inr st' \<and> J (Suc a + d) st'"
      by (rule Suc.IH [OF s(2)]) (use Suc.prems in auto)
    moreover have "[a..<a + Suc d] = a # [Suc a..<Suc a + d]" by (simp add: upt_conv_Cons del: upt_Suc)
    ultimately show ?case using s(1) by simp
  qed simp
  from this [of a st "b - a"] assms show ?thesis by simp
qed

lemma chunk_bounds:
  assumes "0 < step" "0 < n" "k < DIV_ROUND_UP ns step" "ns = (c + n - 1) div n"
  shows "k * step < ns" "k * step * n < c"
proof -
  show k: "k * step < ns"
  proof -
    have "Suc k \<le> ns div step + (if ns mod step \<noteq> 0 then 1 else 0)" using assms(3) by (simp add: DIV_ROUND_UP_def)
    then consider "Suc k \<le> ns div step" | "k \<le> ns div step" "0 < ns mod step" by (auto split: if_splits)
    then show ?thesis
    proof cases
      case 1
      then have "Suc k * step \<le> ns div step * step" by (rule mult_le_mono1)
      then have "step + k * step \<le> ns div step * step" by simp
      then show ?thesis using div_mult_mod_eq [of ns step] assms(1) by linarith
    next
      case 2
      then have "k * step \<le> ns div step * step" by (intro mult_le_mono1)
      with 2 show ?thesis using div_mult_mod_eq [of ns step] by linarith
    qed
  qed
  then have "Suc (k * step) * n \<le> ns * n" by (intro mult_le_mono1) simp
  also have "\<dots> \<le> c + n - 1" unfolding assms(4) by (rule div_times_less_eq_dividend)
  finally show "k * step * n < c" using assms(2) by simp
qed

text \<open>A loop over the chunks, with an invariant on the number of locations gone through.\<close>

lemma chunks_run:
  fixes J :: "nat \<Rightarrow> 'st \<Rightarrow> bool" and f :: "nat \<times> nat \<Rightarrow> 'r \<times> 'st \<Rightarrow> ('r \<times> 'st) res"
  assumes "J 0 st" "0 < step" "0 < nnodes_per_sector (sx_g s)"
    and "\<And>ch rbuf st. ch \<in> set (chunks step (n_sectors s)) \<Longrightarrow> J (fst ch * nnodes_per_sector (sx_g s)) st \<Longrightarrow>
      \<exists>rbuf' st'. f ch (rbuf, st) = Inr (rbuf', st') \<and> J (min (cur_loc (sx_lm s)) (snd ch * nnodes_per_sector (sx_g s))) st'"
  shows "\<exists>rbuf' st'. foldE f (chunks step (n_sectors s)) (rbuf, st) = Inr (rbuf', st') \<and> J (cur_loc (sx_lm s)) st'"
proof -
  let ?n = "nnodes_per_sector (sx_g s)" and ?c = "cur_loc (sx_lm s)" and ?ns = "n_sectors s"
  let ?ch = "\<lambda>k. (k * step, min (k * step + step) ?ns)" and ?K = "DIV_ROUND_UP ?ns step"
  have ns: "?ns = (?c + ?n - 1) div ?n" by (simp add: n_sectors_def)
  note cb = chunk_bounds [OF assms(2,3) _ ns]
  let ?P = "\<lambda>k (x :: 'r \<times> 'st). J (min ?c (min (k * step) ?ns * ?n)) (snd x)"
  have map: "foldE f (map ?ch xs) x = foldE (\<lambda>k. f (?ch k)) xs x" for xs x
    by (induction xs arbitrary: x) (auto intro!: bindE_cong)
  have "\<exists>x'. foldE (\<lambda>k. f (?ch k)) [0..<?K] (rbuf, st) = Inr x' \<and> ?P ?K x'"
  proof (rule foldE_upt)
    show "?P 0 (rbuf, st)" using assms(1) by simp
    fix k x assume k: "k < ?K" and P: "?P k x"
    note b = cb [OF k]
    have e: "min ?c (min (k * step) ?ns * ?n) = fst (?ch k) * ?n" using b by simp
    have "?ch k \<in> set (chunks step ?ns)" 
      unfolding chunks_def set_map set_upt by (rule image_eqI [OF refl]) (simp add: k)
    from assms(4) [OF this, of "snd x" "fst x"] P obtain rbuf' st' where
      "f (?ch k) x = Inr (rbuf', st')" "J (min ?c (snd (?ch k) * ?n)) st'" unfolding e by auto
    then show "\<exists>x'. f (?ch k) x = Inr x' \<and> ?P (Suc k) x'" by (auto simp: add.commute)
  qed simp
  then obtain rbuf' st' where r: "foldE f (chunks step ?ns) (rbuf, st) = Inr (rbuf', st')" "?P ?K (rbuf', st')"
    unfolding chunks_def map by auto
  have "?ns \<le> ?K * step"
  proof -
    have "?ns div step * step + ?ns mod step = ?ns" by (rule div_mult_mod_eq)
    then show ?thesis using mod_less_divisor [OF assms(2), of ?ns]
      unfolding DIV_ROUND_UP_def add_mult_distrib by (simp only: split: if_split) linarith
  qed
  moreover have "?c \<le> ?ns * ?n"
  proof -
    have "?ns * ?n + (?c + ?n - 1) mod ?n = ?c + ?n - 1" unfolding ns by (rule div_mult_mod_eq)
    then show ?thesis using mod_less_divisor [OF assms(3), of "?c + ?n - 1"] by linarith
  qed
  ultimately have "min ?c (min (?K * step) ?ns * ?n) = ?c" by simp
  with r show ?thesis by auto
qed

section \<open>Records in a chunk's buffer\<close>

text \<open>The record of a location in the file, whatever the page cache holds.\<close>

definition disk_coords :: "ssd \<Rightarrow> nat \<Rightarrow> byte list" where
  "disk_coords s l = loc_coords (sx_g s) (disk_page (sx_file s)) l"

definition disk_nbrs :: "ssd \<Rightarrow> nat \<Rightarrow> nat list" where
  "disk_nbrs s l = loc_nbrs (sx_g s) (disk_page (sx_file s)) l"

lemma length_disk_page [simp]: "length (disk_page f p) = SECTOR_LEN"
  by (simp add: disk_page_def)

lemma chunk_page:
  assumes wf: "wf_geom (sx_g s)" and c: "cur_loc (sx_lm s) \<le> 4294967280"
    and ch: "ch \<in> set (chunks step (n_sectors s))" "0 < step" and l: "l \<in> set (chunk_locs s ch)"
  shows "l < cur_loc (sx_lm s)" "fst ch \<le> l div nnodes_per_sector (sx_g s)"
    and "peek (read_chunk s ch rbuf) ((l div nnodes_per_sector (sx_g s) - fst ch) * SECTOR_LEN) SECTOR_LEN =
      disk_page (sx_file s) (loc_sector_no (sx_g s) l)"
proof -
  let ?n = "nnodes_per_sector (sx_g s)" and ?c = "cur_loc (sx_lm s)" and ?q = "l div nnodes_per_sector (sx_g s)"
  have n: "0 < ?n" using wf_geomD [OF wf] by simp
  obtain st ed where e: "ch = (st, ed)" by (cases ch)
  from ch(1) e obtain k where k: "k < DIV_ROUND_UP (n_sectors s) step" "st = k * step" by (auto simp: chunks_def)
  have ns: "n_sectors s = (?c + ?n - 1) div ?n" by (simp add: n_sectors_def)
  have stn: "st * ?n < ?c" using chunk_bounds(2) [OF ch(2) n k(1) ns] k(2) by simp
  from l e have b: "st * ?n \<le> l" "l < ?c" "l < ed * ?n" by (auto simp: chunk_locs_def)
  have q: "st \<le> ?q" "?q < ed"
    using div_le_mono [OF b(1), of ?n] n b(3) by (simp_all add: less_mult_imp_div_less)
  have ql: "?q < 4294967296" using b(2) c div_le_dividend [of l ?n] by linarith
  have off: "u64 (loc_sector_no (sx_g s) (st * ?n) * SECTOR_LEN) = (1 + st) * SECTOR_LEN"
    using stn c n q(1) ql by (simp add: loc_sector_small [OF wf] u64_id SECTOR_LEN_def)
  have rd: "read_chunk s ch rbuf = poke rbuf 0 (peek (sx_file s) ((1 + st) * SECTOR_LEN) ((ed - st) * SECTOR_LEN))"
    by (simp add: read_chunk_def read_io_def chunk_req_def e off size_per_io_wf [OF wf])
  have fit: "(?q - st) * SECTOR_LEN + SECTOR_LEN \<le> (ed - st) * SECTOR_LEN"
  proof -
    have "Suc (?q - st) \<le> ed - st" using q by linarith
    from mult_le_mono1 [OF this, of SECTOR_LEN] show ?thesis by simp
  qed
  have sec: "loc_sector_no (sx_g s) l = 1 + ?q" using loc_sector_small [OF wf] b(2) c by simp
  have "peek (read_chunk s ch rbuf) ((?q - st) * SECTOR_LEN) SECTOR_LEN =
      take SECTOR_LEN (drop ((?q - st) * SECTOR_LEN) (peek (sx_file s) ((1 + st) * SECTOR_LEN) ((ed - st) * SECTOR_LEN)))"
    unfolding rd using fit by (subst peek_poke_inside) simp_all
  also have "\<dots> = peek (sx_file s) ((1 + st) * SECTOR_LEN + (?q - st) * SECTOR_LEN) SECTOR_LEN"
    by (rule peek_sub [OF fit])
  also have "(1 + st) * SECTOR_LEN + (?q - st) * SECTOR_LEN = (1 + ?q) * SECTOR_LEN"
    using q(1) by (simp add: add_mult_distrib [symmetric])
  finally show "peek (read_chunk s ch rbuf) ((?q - fst ch) * SECTOR_LEN) SECTOR_LEN = disk_page (sx_file s) (loc_sector_no (sx_g s) l)"
    unfolding e fst_conv sec disk_page_def .
  show "l < ?c" "fst ch \<le> ?q" using b q e by simp_all
qed

lemma chunk_node_reads:
  assumes "wf_geom (sx_g s)" "cur_loc (sx_lm s) \<le> 4294967280" "ch \<in> set (chunks step (n_sectors s))" "0 < step"
    and "l \<in> set (chunk_locs s ch)" "length (disk_nbrs s l) \<le> max_nbrs (sx_g s)"
    and node_def: "node = chunk_node s (fst ch) (read_chunk s ch rbuf) i l"
  shows "get32s (read_chunk s ch rbuf) (dn_nbrs node) (dn_nnbrs node) = disk_nbrs s l"
    and "peek (read_chunk s ch rbuf) (dn_coords node) (vec_bytes (sx_g s)) = disk_coords s l"
proof -
  note p = chunk_page(3) [OF assms(1-5), of rbuf]
  note b = buffer_node [OF assms(1) length_disk_page p]
  show "get32s (read_chunk s ch rbuf) (dn_nbrs node) (dn_nnbrs node) = disk_nbrs s l"
    unfolding node_def chunk_node_def open_node_nbrs using b(3) assms(6) by (simp add: disk_nbrs_def loc_nbrs_def)
  show "peek (read_chunk s ch rbuf) (dn_coords node) (vec_bytes (sx_g s)) = disk_coords s l"
    unfolding node_def chunk_node_def open_node_coords using b(1) by (simp add: disk_coords_def loc_coords_def)
qed

section \<open>The sliding window\<close>

definition buf_addr :: "geom \<Rightarrow> nat \<Rightarrow> nat" where
  "buf_addr g off = offset_to_loc g (off div nnodes_per_sector g * SECTOR_LEN) off"

definition buf_rec :: "geom \<Rightarrow> mem \<Rightarrow> nat \<Rightarrow> node_rec" where
  "buf_rec g m off = (node_coords g m (buf_addr g off), node_nbrs g m (buf_addr g off))"

definition file_rec :: "geom \<Rightarrow> mem \<Rightarrow> nat \<Rightarrow> node_rec" where
  "file_rec g f j = (loc_coords g (disk_page f) j, loc_nbrs g (disk_page f) j)"

definition half :: "geom \<Rightarrow> nat" where
  "half g = SECTORS_PER_MERGE * nnodes_per_sector g"

text \<open>The window after the records \<^verbatim>\<open>recs\<close>: those below \<^verbatim>\<open>wb_id\<close> are in the file, the rest in the buffer.\<close>

definition win_ok :: "geom \<Rightarrow> window \<Rightarrow> node_rec list \<Rightarrow> bool" where
  "win_ok g w recs \<longleftrightarrow> wd_n_used w = length recs \<and> wd_wb_id w \<le> length recs \<and> wd_wb_id w mod half g = 0 \<and>
     (\<forall>r \<in> set recs. rec_ok g r) \<and> (\<forall>j < wd_wb_id w. file_rec g (bf_bytes (wd_file w)) j = recs ! j) \<and>
     (\<forall>j. wd_wb_id w \<le> j \<and> j < length recs \<longrightarrow> buf_rec g (wd_wbuf w) (j mod k_vec_in_wbuf g) = recs ! j) \<and>
     (0 < wd_wb_id w \<longrightarrow> SECTOR_LEN * (1 + wd_wb_id w div nnodes_per_sector g) \<le> bf_len (wd_file w))"

lemma k_half: "k_vec_in_wbuf g = 2 * half g"
  by (simp add: k_vec_in_wbuf_def half_def)

lemma buf_addr_disjoint:
  assumes "wf_geom g" "off \<noteq> off'"
  shows "buf_addr g off + max_node_len g \<le> buf_addr g off' \<or> buf_addr g off' + max_node_len g \<le> buf_addr g off"
proof (cases "off div nnodes_per_sector g = off' div nnodes_per_sector g")
  case True
  with assms(2) have "off mod nnodes_per_sector g \<noteq> off' mod nnodes_per_sector g" by (metis div_mult_mod_eq)
  from slots_disjoint [OF assms(1) this] show ?thesis by (simp add: buf_addr_def True)
next
  case False
  let ?b = "\<lambda>i. i div nnodes_per_sector g * SECTOR_LEN"
  have in_s: "?b i \<le> buf_addr g i \<and> buf_addr g i + max_node_len g \<le> ?b i + SECTOR_LEN" for i
    using slot_fits [OF assms(1), of "?b i" i] by (simp add: buf_addr_def)
  have "x < y \<Longrightarrow> x * SECTOR_LEN + SECTOR_LEN \<le> y * SECTOR_LEN" for x y :: nat
    using mult_le_mono1 [of "Suc x" y SECTOR_LEN] by simp
  with False in_s [of off] in_s [of off'] show ?thesis by (meson le_trans linorder_neqE_nat)
qed

lemma buf_rec_cong:
  assumes "wf_geom g" "\<And>x. buf_addr g off \<le> x \<Longrightarrow> x < buf_addr g off + max_node_len g \<Longrightarrow> m' x = m x"
    and "length (snd (buf_rec g m off)) \<le> max_nbrs g"
  shows "buf_rec g m' off = buf_rec g m off"
proof -
  have e: "peek m (buf_addr g off) (max_node_len g) = peek m' (buf_addr g off) (max_node_len g)"
    by (rule peek_cong) (simp add: assms(2))
  from slot_cong(1,3) [OF e assms(1)] assms(3) show ?thesis by (simp add: buf_rec_def)
qed

lemma mod_differ: "j < (u :: nat) \<Longrightarrow> u - j < k \<Longrightarrow> j mod k \<noteq> u mod k"
  using mod_eq_dvd_iff_nat [of j u k] dvd_imp_le [of k "u - j"] by auto

lemma window_store:
  assumes wf: "wf_geom g" and w: "win_ok g w recs" and r: "rec_ok g r" and room: "length recs - wd_wb_id w < k_vec_in_wbuf g"
  defines "w' \<equiv> w\<lparr>wd_wbuf := store_node g (wd_wbuf w) (window_node g w (length recs)) (fst r) (snd r), wd_n_used := wd_n_used w + 1\<rparr>"
  shows "win_ok g w' (recs @ [r]) \<and> wd_wb_id w' = wd_wb_id w"
proof -
  let ?k = "k_vec_in_wbuf g" and ?u = "length recs"
  let ?b = "buf_addr g (?u mod ?k)" and ?m = "wd_wbuf w"
  have w_node: "window_node g w ?u = open_node g ?m ?u ?b" by (simp add: window_node_def buf_addr_def Let_def)
  have rl: "length (fst r) = vec_bytes g" "length (snd r) \<le> max_nbrs g" "\<forall>x \<in> set (snd r). x < 4294967296"
    using r by (auto simp: rec_ok_def)
  have wb': "wd_wbuf w' = store_node g ?m (open_node g ?m ?u ?b) (fst r) (snd r)" by (simp add: w'_def w_node)
  have small: "length (snd r) < 4294967296" using rl(2) max_nbrs_less [OF wf] by simp
  have new: "buf_rec g (wd_wbuf w') (?u mod ?k) = r"
    using store_node_same [OF rl(1), where m = ?m and i = ?u and b = ?b and nhood = "snd r"] small rl(3)
    by (simp add: wb' buf_rec_def u32_id map_idI prod_eq_iff)
  have old: "buf_rec g (wd_wbuf w') (j mod ?k) = recs ! j" if j: "wd_wb_id w \<le> j" "j < ?u" for j
  proof -
    have o: "buf_rec g ?m (j mod ?k) = recs ! j" using w j by (simp add: win_ok_def)
    have ok: "rec_ok g (recs ! j)" using w j by (simp add: win_ok_def)
    have ne: "j mod ?k \<noteq> ?u mod ?k" using j room by (intro mod_differ) auto
    have fit: "vec_bytes g + 4 + 4 * length (snd r) \<le> max_node_len g" by (rule node_fits [OF wf rl(2)])
    have "wd_wbuf w' x = ?m x" if "buf_addr g (j mod ?k) \<le> x" "x < buf_addr g (j mod ?k) + max_node_len g" for x
      unfolding wb' by (rule store_node_frame [OF rl(1)]) (use that fit buf_addr_disjoint [OF wf ne] in linarith)
    from buf_rec_cong [OF wf this] o ok show ?thesis by (simp add: rec_ok_def)
  qed
  have "buf_rec g (wd_wbuf w') (j mod ?k) = (recs @ [r]) ! j" if "wd_wb_id w \<le> j" "j < Suc ?u" for j
    using that old new by (cases "j = ?u") (auto simp: nth_append)
  then show ?thesis using w r by (auto simp: win_ok_def w'_def nth_append)
qed

section \<open>Writing back\<close>

lemma offset_mod: "a mod nnodes_per_sector g = b mod nnodes_per_sector g \<Longrightarrow> offset_to_loc g base a = offset_to_loc g base b"
  by (simp add: offset_to_loc_def)

lemma half_pos: "wf_geom g \<Longrightarrow> 0 < half g"
  using wf_geomD(1) by (simp add: half_def SECTORS_PER_MERGE_def)

definition wb_delta :: "geom \<Rightarrow> window \<Rightarrow> nat" where
  "wb_delta g w = min (half g) (wd_n_used w - wd_wb_id w)"

lemma write_back_pages:
  assumes wf: "wf_geom g" and w: "win_ok g w recs" and c: "length recs \<le> 4294967280"
  defines "R \<equiv> ROUND_UP (wb_delta g w) (nnodes_per_sector g) div nnodes_per_sector g"
    and "q \<equiv> wd_wb_id w div nnodes_per_sector g"
    and "buf_id \<equiv> (wd_wb_id w mod k_vec_in_wbuf g) div half g"
  shows "disk_page (bf_bytes (wd_file (write_back g w))) p =
      (if 1 + q \<le> p \<and> p < 1 + q + R then peek (wd_wbuf w) ((buf_id * SECTORS_PER_MERGE + (p - 1 - q)) * SECTOR_LEN) SECTOR_LEN
       else disk_page (bf_bytes (wd_file w)) p)"
    and "bf_len (wd_file (write_back g w)) = max (bf_len (wd_file w)) ((1 + q + R) * SECTOR_LEN)"
proof -
  let ?n = "nnodes_per_sector g"
  have wb: "wd_wb_id w < 4294967296" using w c by (simp add: win_ok_def)
  have sec: "loc_sector_no g (wd_wb_id w) = 1 + q" using loc_sector_small [OF wf wb] by (simp add: q_def)
  have "q < 4294967296" unfolding q_def using wb div_le_dividend [of "wd_wb_id w" ?n] by linarith
  then have off: "u64 (loc_sector_no g (wd_wb_id w) * SECTOR_LEN) = (1 + q) * SECTOR_LEN"
    unfolding sec by (simp add: u64_id SECTOR_LEN_def)
  have f: "wd_file (write_back g w) = fwrite ((1 + q) * SECTOR_LEN) (peek (wd_wbuf w) (buf_id * SECTORS_PER_MERGE * SECTOR_LEN) (R * SECTOR_LEN)) (wd_file w)"
    unfolding write_back_def Let_def off by (simp add: size_per_io_wf [OF wf] R_def wb_delta_def buf_id_def half_def mult.commute)
  have inner: "take SECTOR_LEN (drop ((p - (1 + q)) * SECTOR_LEN) (peek (wd_wbuf w) (buf_id * SECTORS_PER_MERGE * SECTOR_LEN) (R * SECTOR_LEN))) =
      peek (wd_wbuf w) ((buf_id * SECTORS_PER_MERGE + (p - 1 - q)) * SECTOR_LEN) SECTOR_LEN" if "1 + q \<le> p" "p < 1 + q + R"
  proof -
    have "Suc (p - (1 + q)) \<le> R" using that by linarith
    from mult_le_mono1 [OF this, of SECTOR_LEN] have "(p - (1 + q)) * SECTOR_LEN + SECTOR_LEN \<le> R * SECTOR_LEN" by simp
    from peek_sub [OF this] show ?thesis by (simp add: add_mult_distrib)
  qed
  show "disk_page (bf_bytes (wd_file (write_back g w))) p =
      (if 1 + q \<le> p \<and> p < 1 + q + R then peek (wd_wbuf w) ((buf_id * SECTORS_PER_MERGE + (p - 1 - q)) * SECTOR_LEN) SECTOR_LEN
       else disk_page (bf_bytes (wd_file w)) p)"
    unfolding f fwrite_def bfile.simps using inner by (subst disk_page_poke [of _ R]) simp_all
  show "bf_len (wd_file (write_back g w)) = max (bf_len (wd_file w)) ((1 + q + R) * SECTOR_LEN)"
    unfolding f by (simp add: fwrite_def add_mult_distrib)
qed

lemma write_back_recs:
  assumes wf: "wf_geom g" and w: "win_ok g w recs" and c: "length recs \<le> 4294967280"
  shows "j < wd_wb_id w + wb_delta g w \<Longrightarrow> file_rec g (bf_bytes (wd_file (write_back g w))) j = recs ! j"
proof -
  assume j: "j < wd_wb_id w + wb_delta g w"
  let ?n = "nnodes_per_sector g" and ?wb = "wd_wb_id w" and ?d = "wb_delta g w" and ?k = "k_vec_in_wbuf g"
  define q where "q = ?wb div ?n"
  define B where "B = (?wb mod ?k) div half g"
  define R where "R = ROUND_UP ?d ?n div ?n"
  let ?f' = "bf_bytes (wd_file (write_back g w))"
  have n: "0 < ?n" using wf_geomD [OF wf] by simp
  note pg = write_back_pages(1) [OF wf w c, folded q_def B_def R_def]
  have wb: "?wb \<le> length recs" "?wb mod half g = 0" "wd_n_used w = length recs" using w by (auto simp: win_ok_def)
  have jl: "j < length recs" using j wb by (auto simp: wb_delta_def)
  have sec: "loc_sector_no g j = 1 + j div ?n" using loc_sector_small [OF wf, of j] jl c by simp
  have hn: "half g = SECTORS_PER_MERGE * ?n" by (simp add: half_def)
  have wbn: "?wb = q * ?n"
  proof -
    have "half g dvd ?wb" using wb(2) by (simp add: mod_eq_0_iff_dvd)
    then have "?n dvd ?wb" unfolding hn by (rule dvd_mult_right)
    then show ?thesis by (simp add: q_def)
  qed
  show ?thesis
  proof (cases "j < ?wb")
    case True
    then have "j div ?n < q" using wbn n by (metis less_mult_imp_div_less)
    then have "disk_page ?f' (loc_sector_no g j) = disk_page (bf_bytes (wd_file w)) (loc_sector_no g j)"
      unfolding pg sec by simp
    then have "file_rec g ?f' j = file_rec g (bf_bytes (wd_file w)) j"
      by (simp add: file_rec_def loc_coords_def loc_nbrs_def)
    with True w show ?thesis by (simp add: win_ok_def)
  next
    case False
    define r where "r = j - ?wb"
    have jr: "j = q * ?n + r" "r < ?d" "r < half g" using False j wbn by (auto simp: r_def wb_delta_def)
    have jn: "j div ?n = q + r div ?n" "j mod ?n = r mod ?n" using n by (simp_all add: jr(1))
    have kk: "?wb mod ?k = B * half g" "B < 2"
    proof -
      have "(?wb mod ?k) mod half g = 0" using wb(2) by (simp add: k_half mod_mod_cancel)
      then show "?wb mod ?k = B * half g" by (auto simp: B_def)
      have "?wb mod ?k < 2 * half g" using half_pos [OF wf] by (simp add: k_half)
      then show "B < 2" unfolding B_def by (rule less_mult_imp_div_less)
    qed
    have lt: "B * half g + r < ?k" 
    proof -
      have "Suc B * half g \<le> 2 * half g" using kk(2) by (intro mult_le_mono1) simp
      then have "half g + B * half g \<le> 2 * half g" by (simp only: mult_Suc)
      then show ?thesis using jr(3) unfolding k_half by linarith
    qed
    have off: "j mod ?k = B * half g + r"
    proof -
      have "j mod ?k = (?wb mod ?k + r) mod ?k" using jr(1) wbn by (simp add: mod_add_left_eq)
      with lt show ?thesis by (simp add: kk(1))
    qed
    have od: "(j mod ?k) div ?n = B * SECTORS_PER_MERGE + r div ?n" "(j mod ?k) mod ?n = r mod ?n"
    proof -
      have e: "B * half g + r = r + (B * SECTORS_PER_MERGE) * ?n" by (simp add: hn)
      show "(j mod ?k) div ?n = B * SECTORS_PER_MERGE + r div ?n" "(j mod ?k) mod ?n = r mod ?n"
        unfolding off e using n by (simp_all only: div_mult_self1 mod_mult_self1 neq0_conv)
    qed
    have rR: "r div ?n < R"
    proof -
      have "r < R * ?n" using jr(2) ROUND_UP_ge [OF n, of ?d] ROUND_UP_dvd [of ?n ?d] by (simp add: R_def)
      then show ?thesis by (rule less_mult_imp_div_less)
    qed
    have page: "peek (wd_wbuf w) ((B * SECTORS_PER_MERGE + r div ?n) * SECTOR_LEN) SECTOR_LEN = disk_page ?f' (loc_sector_no g j)"
      unfolding pg sec jn using rR by simp
    have ba: "buf_addr g (j mod ?k) = offset_to_loc g ((B * SECTORS_PER_MERGE + r div ?n) * SECTOR_LEN) j"
      unfolding buf_addr_def od(1) by (rule offset_mod) (simp add: od(2) jn(2))
    have br: "buf_rec g (wd_wbuf w) (j mod ?k) = recs ! j" using w False jl by (simp add: win_ok_def)
    have ok: "rec_ok g (recs ! j)" using w jl by (simp add: win_ok_def)
    note b = buffer_node [OF wf length_disk_page page, of j]
    have "length (node_nbrs g (page_mem (disk_page ?f' (loc_sector_no g j))) (offset_to_loc g 0 j)) =
        length (node_nbrs g (wd_wbuf w) (buf_addr g (j mod ?k)))"
      unfolding ba node_nbrs_alt by (simp add: b(2))
    also have "\<dots> \<le> max_nbrs g" using ok unfolding br [symmetric] by (simp add: buf_rec_def rec_ok_def)
    finally have "node_nbrs g (wd_wbuf w) (buf_addr g (j mod ?k)) = loc_nbrs g (disk_page ?f') j"
      unfolding ba loc_nbrs_def by (rule b(3))
    moreover have "node_coords g (wd_wbuf w) (buf_addr g (j mod ?k)) = loc_coords g (disk_page ?f') j"
      unfolding ba loc_coords_def by (rule b(1))
    ultimately show ?thesis using br by (simp add: file_rec_def buf_rec_def)
  qed
qed

lemma write_back_fields:
  "wd_n_used (write_back g w) = wd_n_used w" "wd_wbuf (write_back g w) = wd_wbuf w"
  "wd_wb_id (write_back g w) = wd_wb_id w + wb_delta g w"
  by (simp_all add: write_back_def wb_delta_def half_def Let_def)

lemma write_back_len:
  assumes wf: "wf_geom g" and w: "win_ok g w recs" and c: "length recs \<le> 4294967280"
  shows "SECTOR_LEN * (1 + ROUND_UP (wd_wb_id w + wb_delta g w) (nnodes_per_sector g) div nnodes_per_sector g) \<le>
      bf_len (wd_file (write_back g w))"
proof -
  let ?n = "nnodes_per_sector g"
  have n: "0 < ?n" using wf_geomD [OF wf] by simp
  have "half g dvd wd_wb_id w" using w by (simp add: win_ok_def mod_eq_0_iff_dvd)
  then have "?n dvd wd_wb_id w" unfolding half_def by (rule dvd_mult_right)
  then obtain q where q: "wd_wb_id w = q * ?n" by (metis dvd_div_mult_self)
  have "ROUND_UP (q * ?n + wb_delta g w) ?n div ?n = q + ROUND_UP (wb_delta g w) ?n div ?n"
    using n by (simp add: ROUND_UP_def)
  then show ?thesis unfolding write_back_pages(2) [OF wf w c] q using n by (simp add: algebra_simps)
qed

lemma write_back_ok:
  assumes "wf_geom g" "win_ok g w recs" "length recs \<le> 4294967280" "half g \<le> length recs - wd_wb_id w"
  shows "win_ok g (write_back g w) recs"
    and "wd_wb_id (write_back g w) = wd_wb_id w + half g"
proof -
  have u: "wd_n_used w = length recs" using assms(2) by (simp add: win_ok_def)
  then have d: "wb_delta g w = half g" using assms(4) by (simp add: wb_delta_def)
  have l: "wd_wb_id w + half g \<le> length recs" using assms(4) half_pos [OF assms(1)] by linarith
  show "wd_wb_id (write_back g w) = wd_wb_id w + half g" by (simp add: write_back_fields d)
  have "(wd_wb_id w + half g) div nnodes_per_sector g \<le> ROUND_UP (wd_wb_id w + half g) (nnodes_per_sector g) div nnodes_per_sector g"
    using ROUND_UP_ge [OF wf_geomD(1) [OF assms(1)]] by (rule div_le_mono)
  then have "SECTOR_LEN * (1 + (wd_wb_id w + half g) div nnodes_per_sector g) \<le>
      SECTOR_LEN * (1 + ROUND_UP (wd_wb_id w + half g) (nnodes_per_sector g) div nnodes_per_sector g)"
    by (intro mult_le_mono2) simp
  also have "\<dots> \<le> bf_len (wd_file (write_back g w))" using write_back_len [OF assms(1-3)] unfolding d .
  finally have "SECTOR_LEN * (1 + (wd_wb_id w + half g) div nnodes_per_sector g) \<le> bf_len (wd_file (write_back g w))" .
  moreover have "(wd_wb_id w + half g) mod half g = 0" using assms(2) by (simp add: win_ok_def)
  moreover have "file_rec g (bf_bytes (wd_file (write_back g w))) j = recs ! j" if "j < wd_wb_id w + half g" for j
    using write_back_recs [OF assms(1-3)] that by (simp add: d)
  ultimately show "win_ok g (write_back g w) recs"
    using assms(2) l unfolding win_ok_def write_back_fields d by simp
qed

lemma flush_ok:
  assumes "wf_geom g" "win_ok g w recs" "length recs \<le> 4294967280" "length recs - wd_wb_id w < 2 * half g"
  shows "win_ok g (flush_if_full g w) recs" "length recs - wd_wb_id (flush_if_full g w) < half g"
proof -
  have u: "wd_n_used w = length recs" using assms(2) by (simp add: win_ok_def)
  have "win_ok g (flush_if_full g w) recs \<and> length recs - wd_wb_id (flush_if_full g w) < half g"
  proof (cases "half g \<le> length recs - wd_wb_id w")
    case True
    from write_back_ok [OF assms(1-3) True] True assms(4) show ?thesis
      by (auto simp: flush_if_full_def u half_def [symmetric])
  next
    case False
    with assms(2) show ?thesis by (simp add: flush_if_full_def u half_def [symmetric])
  qed
  then show "win_ok g (flush_if_full g w) recs" "length recs - wd_wb_id (flush_if_full g w) < half g" by simp_all
qed

text \<open>In the end every record is in the file, at its id's place.\<close>

definition in_file :: "geom \<Rightarrow> bfile \<Rightarrow> node_rec list \<Rightarrow> bool" where
  "in_file g f recs \<longleftrightarrow> (\<forall>j < length recs. file_rec g (bf_bytes f) j = recs ! j) \<and>
     (recs \<noteq> [] \<longrightarrow> index_file_size g (length recs) \<le> bf_len f)"

lemma write_back_all_ok:
  assumes "wf_geom g" "win_ok g w recs" "length recs \<le> 4294967280"
  shows "in_file g (wd_file (write_back_all g w)) recs"
  using assms(2)
proof (induction "length recs - wd_wb_id w" arbitrary: w rule: less_induct)
  case less
  have u: "wd_n_used w = length recs" "wd_wb_id w \<le> length recs" using less.prems by (auto simp: win_ok_def)
  have n: "0 < nnodes_per_sector g" using wf_geomD [OF assms(1)] by simp
  show ?case
  proof (cases "wd_wb_id w < length recs")
    case False
    then have e: "wd_wb_id w = length recs" using u by simp
    have "half g dvd wd_wb_id w" using less.prems by (simp add: win_ok_def mod_eq_0_iff_dvd)
    then have "nnodes_per_sector g dvd wd_wb_id w" unfolding half_def by (rule dvd_mult_right)
    then have "index_file_size g (length recs) = SECTOR_LEN * (1 + wd_wb_id w div nnodes_per_sector g)"
      using n by (auto simp: index_file_size_def e [symmetric] ROUND_UP_def)
    moreover have "write_back_all g w = w" using False u by (simp add: write_back_all.simps)
    ultimately show ?thesis using less.prems e by (auto simp: in_file_def win_ok_def)
  next
    case True
    then have s: "write_back_all g w = write_back_all g (write_back g w)" using u n by (simp add: write_back_all.simps [of g w])
    show ?thesis
    proof (cases "half g \<le> length recs - wd_wb_id w")
      case full: True
      note k = write_back_ok [OF assms(1) less.prems assms(3) full]
      have "length recs - wd_wb_id (write_back g w) < length recs - wd_wb_id w"
        using True half_pos [OF assms(1)] unfolding k(2) by linarith
      from less.hyps [OF this k(1)] show ?thesis by (simp add: s)
    next
      case False
      then have d: "wd_wb_id w + wb_delta g w = length recs" using True u by (simp add: wb_delta_def)
      have "write_back_all g (write_back g w) = write_back g w"
        by (simp add: write_back_all.simps [of g "write_back g w"] write_back_fields d u)
      moreover have "index_file_size g (length recs) \<le> bf_len (wd_file (write_back g w))"
        using write_back_len [OF assms(1) less.prems assms(3)] unfolding d by (simp add: index_file_size_def algebra_simps)
      ultimately show ?thesis
        using write_back_recs [OF assms(1) less.prems assms(3)] d by (simp add: in_file_def s)
    qed
  qed
qed

end
