(* ===== verification/Merge_Props.thy ===== *)
theory Merge_Props imports Merge_Window Prune_Props PQ_Props begin

text \<open>
  The two scans of a merge: \<^verbatim>\<open>populate\<close> numbers the surviving nodes in the order of their locations and
  keeps the neighborhoods of the deleted ones, and the repair of a neighbor list replaces deleted neighbors
  by their neighborhoods, names only survivors, and never misses a key.
\<close>

section \<open>Survivors\<close>

definition node_ids :: "ssd \<Rightarrow> nat \<Rightarrow> nat list" where
  "node_ids s L = filter (\<lambda>i. i \<noteq> kInvalidID \<and> i \<noteq> kAllocatedID) (map (slot (sx_g s) (sx_lm s)) [0..<L])"

definition survivors :: "ssd \<Rightarrow> (nat \<Rightarrow> bool) \<Rightarrow> nat \<Rightarrow> nat list" where
  "survivors s deleted L = filter (\<lambda>i. \<not> deleted (id2tag s i)) (node_ids s L)"

definition loc_of :: "ssd \<Rightarrow> nat \<Rightarrow> nat" where
  "loc_of s i = the (id2loc_map (sx_lm s) i)"

text \<open>An index a merge can run on: the mapping is consistent, every record on disk fits its slot and names nodes
  of the index only, every node has a code, and the pq distances are numbers.  A neighbor list gathers at most
  \<^verbatim>\<open>max_nbrs\<close> squared ids, which the scratch buffer and \<^verbatim>\<open>compute_pq_dists\<close> have room for.\<close>

definition merge_ready :: "ssd \<Rightarrow> bool" where
  "merge_ready s \<longleftrightarrow> wf_geom (sx_g s) \<and> lm_ok (sx_g s) (sx_lm s) \<and> map_ok (sx_g s) (sx_lm s) \<and>
     (\<forall>i l. id2loc_map (sx_lm s) i = Some l \<longrightarrow> length (disk_nbrs s l) \<le> max_nbrs (sx_g s) \<and>
        (\<forall>nb \<in> set (disk_nbrs s l). id2loc_map (sx_lm s) nb \<noteq> None) \<and>
        i * sx_n_chunks s + sx_n_chunks s \<le> length (sx_data s)) \<and>
     pq_n_chunks (sx_pq s) = sx_n_chunks s \<and> pq_pairs_ok (sx_pq s) \<and>
     (\<forall>i j. id2loc_map (sx_lm s) i \<noteq> None \<longrightarrow> id2loc_map (sx_lm s) j \<noteq> None \<longrightarrow>
        fnum (code_dist (sx_pq s) (pq_code (sx_data s) (sx_n_chunks s) i) (pq_code (sx_data s) (sx_n_chunks s) j))) \<and>
     f_below_inf (cf_alpha (sx_cfg s)) \<and> cf_range (sx_cfg s) \<le> max_nbrs (sx_g s) \<and>
     max_nbrs (sx_g s) * max_nbrs (sx_g s) < 32768 \<and>
     max_nbrs (sx_g s) * max_nbrs (sx_g s) * sx_n_chunks s \<le> thread_pq_buf_size"

lemma merge_readyD:
  assumes "merge_ready s"
  shows "wf_geom (sx_g s)" "lm_ok (sx_g s) (sx_lm s)" "map_ok (sx_g s) (sx_lm s)"
    and "id2loc_map (sx_lm s) i = Some l \<Longrightarrow> length (disk_nbrs s l) \<le> max_nbrs (sx_g s)"
    and "id2loc_map (sx_lm s) i = Some l \<Longrightarrow> nb \<in> set (disk_nbrs s l) \<Longrightarrow> id2loc_map (sx_lm s) nb \<noteq> None"
    and "id2loc_map (sx_lm s) i = Some l \<Longrightarrow> i * sx_n_chunks s + sx_n_chunks s \<le> length (sx_data s)"
    and "cur_loc (sx_lm s) \<le> 4294967280" "0 < nnodes_per_sector (sx_g s)"
  using assms lm_okD(5) wf_geomD(1) unfolding merge_ready_def by blast+

text \<open>A slot holds a node, is free, or is handed out.\<close>

lemma node_slot:
  assumes "merge_ready s" "slot (sx_g s) (sx_lm s) l \<noteq> kInvalidID" "slot (sx_g s) (sx_lm s) l \<noteq> kAllocatedID"
  shows "id2loc_map (sx_lm s) (slot (sx_g s) (sx_lm s) l) = Some l"
  using map_okD(4) [OF merge_readyD(3) [OF assms(1)] assms(2,3)] .

lemma node_ids_iff:
  assumes "merge_ready s"
  shows "i \<in> set (node_ids s L) \<longleftrightarrow> (\<exists>l < L. id2loc_map (sx_lm s) i = Some l)"
proof
  assume "i \<in> set (node_ids s L)"
  then show "\<exists>l < L. id2loc_map (sx_lm s) i = Some l" using node_slot [OF assms] by (auto simp: node_ids_def)
next
  assume "\<exists>l < L. id2loc_map (sx_lm s) i = Some l"
  then obtain l where l: "l < L" "id2loc_map (sx_lm s) i = Some l" by blast
  have "slot (sx_g s) (sx_lm s) l = i" "i < kAllocatedID"
    using map_okD(2,3) [OF merge_readyD(3) [OF assms] l(2)] by auto
  then show "i \<in> set (node_ids s L)" using l(1) live_id [of i] by (force simp: node_ids_def)
qed

lemma distinct_node_ids: "merge_ready s \<Longrightarrow> distinct (node_ids s L)"
proof (induction L)
  case (Suc L)
  let ?i = "slot (sx_g s) (sx_lm s) L"
  have "?i \<notin> set (node_ids s L)" if "?i \<noteq> kInvalidID" "?i \<noteq> kAllocatedID"
    using node_slot [OF Suc.prems that] node_ids_iff [OF Suc.prems] by auto
  with Suc show ?case by (auto simp: node_ids_def)
qed (simp add: node_ids_def)

lemma distinct_survivors: "merge_ready s \<Longrightarrow> distinct (survivors s deleted L)"
  by (simp add: survivors_def distinct_node_ids)

lemma survivors_le: "length (survivors s deleted L) \<le> L"
  unfolding survivors_def node_ids_def by (rule order_trans [OF length_filter_le]) (rule order_trans [OF length_filter_le], simp)

lemma survivors_iff: "merge_ready s \<Longrightarrow> i \<in> set (survivors s deleted L) \<longleftrightarrow>
    (\<exists>l < L. id2loc_map (sx_lm s) i = Some l) \<and> \<not> deleted (id2tag s i)"
  by (auto simp: survivors_def node_ids_iff)

section \<open>populate\<close>

text \<open>The state of the first scan after \<^verbatim>\<open>L\<close> locations.\<close>

definition pop_state :: "ssd \<Rightarrow> (nat \<Rightarrow> bool) \<Rightarrow> nat \<Rightarrow> nat \<Rightarrow> merge_state" where
  "pop_state s deleted n L = (let sv = survivors s deleted L in
     \<lparr>ms_id_map = map_of (zip sv [0..<length sv]),
      ms_nhoods = (\<lambda>i. if i \<in> set (node_ids s L) \<and> deleted (id2tag s i)
        then Some (live_nhood s deleted n (disk_nbrs s (loc_of s i))) else None),
      ms_npoints = length sv\<rparr>)"

lemma map_of_zip_snoc:
  "length xs = length ys \<Longrightarrow> k \<notin> set xs \<Longrightarrow> map_of (zip (xs @ [k]) (ys @ [v])) = (map_of (zip xs ys))(k \<mapsto> v)"
  by (induction xs ys rule: list_induct2) (auto simp: fun_eq_iff)

lemma pop_state_step:
  assumes "merge_ready s" "L < cur_loc (sx_lm s)"
  defines "i \<equiv> slot (sx_g s) (sx_lm s) L"
  shows "i = kInvalidID \<or> i = kAllocatedID \<Longrightarrow> pop_state s deleted n (Suc L) = pop_state s deleted n L"
    and "i \<noteq> kInvalidID \<Longrightarrow> i \<noteq> kAllocatedID \<Longrightarrow> \<not> deleted (id2tag s i) \<Longrightarrow> pop_state s deleted n (Suc L) =
      (pop_state s deleted n L)\<lparr>ms_npoints := ms_npoints (pop_state s deleted n L) + 1,
        ms_id_map := cuckoo_insert i (u32 (ms_npoints (pop_state s deleted n L))) (ms_id_map (pop_state s deleted n L))\<rparr>"
    and "i \<noteq> kInvalidID \<Longrightarrow> i \<noteq> kAllocatedID \<Longrightarrow> deleted (id2tag s i) \<Longrightarrow> pop_state s deleted n (Suc L) =
      (pop_state s deleted n L)\<lparr>ms_nhoods := cuckoo_insert i (live_nhood s deleted n (disk_nbrs s L)) (ms_nhoods (pop_state s deleted n L))\<rparr>"
proof -
  have ids: "node_ids s (Suc L) = node_ids s L @ (if i = kInvalidID \<or> i = kAllocatedID then [] else [i])"
    by (simp add: node_ids_def i_def)
  show "pop_state s deleted n (Suc L) = pop_state s deleted n L" if "i = kInvalidID \<or> i = kAllocatedID"
    using that by (simp add: pop_state_def survivors_def ids)
  assume v: "i \<noteq> kInvalidID" "i \<noteq> kAllocatedID"
  have loc: "id2loc_map (sx_lm s) i = Some L" unfolding i_def by (rule node_slot [OF assms(1)]) (use v in \<open>simp_all add: i_def\<close>)
  have new: "i \<notin> set (node_ids s L)" by (auto simp: node_ids_iff [OF assms(1)] loc)
  have ids': "node_ids s (Suc L) = node_ids s L @ [i]" using v by (simp add: ids)
  let ?sv = "survivors s deleted L"
  {
    assume d: "\<not> deleted (id2tag s i)"
    have sv: "survivors s deleted (Suc L) = ?sv @ [i]" using d by (simp add: survivors_def ids')
    have n: "i \<notin> set ?sv" using new by (simp add: survivors_def)
    have "length ?sv < 4294967296" using survivors_le [of s deleted L] assms(2) merge_readyD(7) [OF assms(1)] by linarith
    then have u: "u32 (length ?sv) = length ?sv" by (simp add: u32_id)
    have m: "map_of (zip ?sv [0..<length ?sv]) i = None" using n by (simp add: map_of_zip_is_None)
    have "map_of (zip (?sv @ [i]) [0..<length (?sv @ [i])]) = (map_of (zip ?sv [0..<length ?sv]))(i \<mapsto> length ?sv)"
      using map_of_zip_snoc [of ?sv "[0..<length ?sv]" i "length ?sv"] n by simp
    with m u d new show "pop_state s deleted n (Suc L) =
      (pop_state s deleted n L)\<lparr>ms_npoints := ms_npoints (pop_state s deleted n L) + 1,
        ms_id_map := cuckoo_insert i (u32 (ms_npoints (pop_state s deleted n L))) (ms_id_map (pop_state s deleted n L))\<rparr>"
      by (auto simp: pop_state_def sv ids' cuckoo_insert_def Let_def fun_eq_iff)
  next
    assume d: "deleted (id2tag s i)"
    have sv: "survivors s deleted (Suc L) = ?sv" using d by (simp add: survivors_def ids')
    have l: "loc_of s i = L" by (simp add: loc_of_def loc)
    show "pop_state s deleted n (Suc L) =
      (pop_state s deleted n L)\<lparr>ms_nhoods := cuckoo_insert i (live_nhood s deleted n (disk_nbrs s L)) (ms_nhoods (pop_state s deleted n L))\<rparr>"
      using d new l by (auto simp: pop_state_def sv ids' cuckoo_insert_def Let_def fun_eq_iff)
  }
qed

text \<open>The streaming merge does not skip handed-out slots, so it needs that there are none.\<close>

definition no_allocated :: "ssd \<Rightarrow> bool" where
  "no_allocated s \<longleftrightarrow> (\<forall>l < cur_loc (sx_lm s). slot (sx_g s) (sx_lm s) l \<noteq> kAllocatedID)"

lemma chunk_locs_range:
  assumes "L \<in> set (chunk_locs s ch)"
  shows "fst ch * nnodes_per_sector (sx_g s) \<le> L" "L < cur_loc (sx_lm s)"
  using assms by (auto simp: chunk_locs_def split: prod.splits)

lemma merge_populate_spec:
  assumes "merge_ready s" "chk \<or> no_allocated s"
  shows "populate s chk deleted n = Inr (pop_state s deleted n (cur_loc (sx_lm s)))"
proof -
  let ?n = "nnodes_per_sector (sx_g s)" and ?c = "cur_loc (sx_lm s)"
  let ?J = "\<lambda>L ms. ms = pop_state s deleted n L"
  note rd = merge_readyD [OF assms(1)]
  have step: "populate_loc s chk deleted n (fst ch) (read_chunk s ch rbuf) L ms = Inr (pop_state s deleted n (Suc L))"
    if ch: "ch \<in> set (chunks SECTORS_PER_POPULATE (n_sectors s))" and L: "L \<in> set (chunk_locs s ch)" and ms: "?J L ms"
    for ch L ms rbuf
  proof -
    have sp: "0 < SECTORS_PER_POPULATE" by (simp add: SECTORS_PER_POPULATE_def)
    have lc: "L < ?c" using chunk_locs_range [OF L] by simp
    define i where "i = slot (sx_g s) (sx_lm s) L"
    have id: "loc2id (sx_g s) (sx_lm s) L = Inr i"
      unfolding i_def by (rule loc2id_slot [OF rd(1,2)]) (use lc rd(7) in simp)
    have sk: "skip_id chk i \<longleftrightarrow> i = kInvalidID \<or> i = kAllocatedID"
      using assms(2) lc by (auto simp: skip_id_def no_allocated_def i_def)
    note st = pop_state_step [OF assms(1) lc, folded i_def]
    consider "i = kInvalidID \<or> i = kAllocatedID" | "i \<noteq> kInvalidID" "i \<noteq> kAllocatedID" "\<not> deleted (id2tag s i)"
      | "i \<noteq> kInvalidID" "i \<noteq> kAllocatedID" "deleted (id2tag s i)" by blast
    then show ?thesis
    proof cases
      case 1
      then show ?thesis using st(1) by (simp add: populate_loc_def id sk ms)
    next
      case 2
      then show ?thesis using st(2) by (simp add: populate_loc_def id sk ms)
    next
      case 3
      have loc: "id2loc_map (sx_lm s) i = Some L" unfolding i_def by (rule node_slot [OF assms(1)]) (use 3 in \<open>simp_all add: i_def\<close>)
      note r = chunk_node_reads(1) [OF rd(1,7) ch sp L rd(4) [OF loc] refl, where i = i and rbuf = rbuf]
      from 3 show ?thesis using st(3) by (simp add: populate_loc_def id sk ms r Let_def)
    qed
  qed
  have "\<exists>rbuf' st'. foldE (populate_chunk s chk deleted n) (chunks SECTORS_PER_POPULATE (n_sectors s))
      (\<lambda>_. 0, pop_state s deleted n 0) = Inr (rbuf', st') \<and> ?J ?c st'"
  proof (rule chunks_run)
    fix ch rbuf st
    assume ch: "ch \<in> set (chunks SECTORS_PER_POPULATE (n_sectors s))" and J: "?J (fst ch * ?n) st"
    have e: "chunk_locs s ch = [fst ch * ?n..<min ?c (snd ch * ?n)]" by (simp add: chunk_locs_def split: prod.splits)
    have le: "fst ch * ?n \<le> min ?c (snd ch * ?n)"
    proof -
      from ch obtain k where k: "k < DIV_ROUND_UP (n_sectors s) SECTORS_PER_POPULATE" "ch = (k * SECTORS_PER_POPULATE,
          min (k * SECTORS_PER_POPULATE + SECTORS_PER_POPULATE) (n_sectors s))" by (auto simp: chunks_def)
      have sp: "0 < SECTORS_PER_POPULATE" by (simp add: SECTORS_PER_POPULATE_def)
      have ns: "n_sectors s = (?c + ?n - 1) div ?n" by (simp add: n_sectors_def)
      note b = chunk_bounds [OF sp rd(8) k(1) ns]
      then show ?thesis using k(2) by (auto intro: mult_le_mono1)
    qed
    have "\<exists>st'. foldE (populate_loc s chk deleted n (fst ch) (read_chunk s ch rbuf)) [fst ch * ?n..<min ?c (snd ch * ?n)] st = Inr st' \<and>
        ?J (min ?c (snd ch * ?n)) st'"
      by (rule foldE_upt [where J = ?J, OF J le]) (use step [OF ch] in \<open>simp add: e\<close>)
    then show "\<exists>rbuf' st'. populate_chunk s chk deleted n ch (rbuf, st) = Inr (rbuf', st') \<and> ?J (min ?c (snd ch * ?n)) st'"
      by (auto simp: populate_chunk_def e Let_def)
  qed (simp_all add: SECTORS_PER_POPULATE_def rd(8))
  moreover have "pop_state s deleted n 0 = \<lparr>ms_id_map = Map.empty, ms_nhoods = Map.empty, ms_npoints = 0\<rparr>"
    by (simp add: pop_state_def survivors_def node_ids_def)
  ultimately show ?thesis by (auto simp: populate_def)
qed

section \<open>Repairing a neighbor list\<close>

definition uset_ok :: "(nat list \<Rightarrow> nat list) \<Rightarrow> bool" where
  "uset_ok uset \<longleftrightarrow> (\<forall>xs. distinct (uset xs) \<and> set (uset xs) = set xs)"

text \<open>Where the edges of a node lead once deleted nodes are bypassed.\<close>

definition bypass_of :: "ssd \<Rightarrow> (nat \<Rightarrow> bool) \<Rightarrow> nat \<Rightarrow> nat list \<Rightarrow> nat set" where
  "bypass_of s deleted n nbrs = (\<Union>nb \<in> set nbrs. if deleted (id2tag s nb)
     then set (live_nhood s deleted n (disk_nbrs s (loc_of s nb))) else {nb})"

definition bypass :: "ssd \<Rightarrow> (nat \<Rightarrow> bool) \<Rightarrow> nat \<Rightarrow> nat \<Rightarrow> nat set" where
  "bypass s deleted n i = bypass_of s deleted n (disk_nbrs s (loc_of s i)) - {i}"

definition repaired :: "ssd \<Rightarrow> (nat \<Rightarrow> bool) \<Rightarrow> nat \<Rightarrow> nat \<Rightarrow> nat list \<Rightarrow> bool" where
  "repaired s deleted n i l \<longleftrightarrow> distinct l \<and> set l \<subseteq> bypass s deleted n i \<and> length l \<le> cf_range (sx_cfg s) \<and>
     (card (bypass s deleted n i) \<le> cf_range (sx_cfg s) \<longrightarrow> set l = bypass s deleted n i)"

lemma live_nhood_sub: "set (live_nhood s deleted n nbrs) \<subseteq> {nb \<in> set nbrs. \<not> deleted (id2tag s nb)}"
  unfolding live_nhood_def by (rule order_trans [OF set_take_subset]) auto

lemma mapped_loc: "id2loc_map (sx_lm s) i \<noteq> None \<Longrightarrow> id2loc_map (sx_lm s) i = Some (loc_of s i)"
  by (auto simp: loc_of_def)

lemma bypass_survivor:
  assumes "merge_ready s" "id2loc_map (sx_lm s) i \<noteq> None" "x \<in> bypass s deleted n i"
  shows "x \<in> set (survivors s deleted (cur_loc (sx_lm s)))" "x \<noteq> i"
proof -
  note rd = merge_readyD [OF assms(1)]
  note li = mapped_loc [OF assms(2)]
  from assms(3) obtain nb where nb: "nb \<in> set (disk_nbrs s (loc_of s i))"
    "x \<in> (if deleted (id2tag s nb) then set (live_nhood s deleted n (disk_nbrs s (loc_of s nb))) else {nb})"
    by (auto simp: bypass_def bypass_of_def)
  note m = rd(5) [OF li nb(1)]
  have "id2loc_map (sx_lm s) x \<noteq> None \<and> \<not> deleted (id2tag s x)"
  proof (cases "deleted (id2tag s nb)")
    case True
    with nb(2) live_nhood_sub [of s deleted n "disk_nbrs s (loc_of s nb)"] rd(5) [OF mapped_loc [OF m], of x] show ?thesis by auto
  next
    case False
    with nb(2) m show ?thesis by simp
  qed
  then obtain l where "id2loc_map (sx_lm s) x = Some l" "\<not> deleted (id2tag s x)" by auto
  with map_okD(1) [OF rd(3)] show "x \<in> set (survivors s deleted (cur_loc (sx_lm s)))"
    by (auto simp: survivors_iff [OF assms(1)])
  show "x \<noteq> i" using assms(3) by (auto simp: bypass_def)
qed

lemma gather_spec:
  assumes "merge_ready s" "\<forall>nb \<in> set nbrs. id2loc_map (sx_lm s) nb \<noteq> None" "nbrs = [] \<or> 0 < max_nbrs (sx_g s)"
    and ms_def: "ms = pop_state s deleted n (cur_loc (sx_lm s))"
  shows "\<exists>ys. gather_nbrs s deleted (ms_nhoods ms) nbrs = Inr ys \<and> set ys = bypass_of s deleted n nbrs \<and>
    length ys \<le> length nbrs * max_nbrs (sx_g s)"
  using assms(2,3)
proof (induction nbrs)
  case (Cons nb nbs)
  note rd = merge_readyD [OF assms(1)]
  from Cons obtain ys where ys: "gather_nbrs s deleted (ms_nhoods ms) nbs = Inr ys" "set ys = bypass_of s deleted n nbs"
    "length ys \<le> length nbs * max_nbrs (sx_g s)" by auto
  have m: "id2loc_map (sx_lm s) nb = Some (loc_of s nb)" using Cons.prems(1) by (intro mapped_loc) simp
  have M: "0 < max_nbrs (sx_g s)" using Cons.prems(2) by simp
  show ?case
  proof (cases "deleted (id2tag s nb)")
    case True
    let ?h = "live_nhood s deleted n (disk_nbrs s (loc_of s nb))"
    have "nb \<in> set (node_ids s (cur_loc (sx_lm s)))"
      using m map_okD(1) [OF rd(3) m] by (auto simp: node_ids_iff [OF assms(1)])
    then have f: "map_find (ms_nhoods ms) nb = Inr ?h" using True by (simp add: map_find_def ms_def pop_state_def Let_def)
    have "length ?h \<le> length (disk_nbrs s (loc_of s nb))"
      by (simp add: live_nhood_def) (meson length_filter_le min.coboundedI1 min.coboundedI2)
    with rd(4) [OF m] have "length ?h \<le> max_nbrs (sx_g s)" by linarith
    with True f ys show ?thesis by (simp add: bypass_of_def)
  next
    case False
    with ys M show ?thesis by (simp add: bypass_of_def)
  qed
qed (simp add: bypass_of_def)

lemma shrink_spec:
  assumes rdy: "merge_ready s" and xs: "distinct xs" "\<forall>x \<in> set xs. id2loc_map (sx_lm s) x \<noteq> None"
    "length xs \<le> max_nbrs (sx_g s) * max_nbrs (sx_g s)" and i: "id2loc_map (sx_lm s) i \<noteq> None"
  shows "\<exists>l. shrink_nhood s i xs = Inr l \<and> distinct l \<and> set l \<subseteq> set xs \<and> length l \<le> cf_range (sx_cfg s) \<and>
    (length xs \<le> cf_range (sx_cfg s) \<longrightarrow> l = xs)"
proof (cases "length xs \<le> cf_range (sx_cfg s)")
  case True
  with xs(1) show ?thesis by (simp add: shrink_nhood_def)
next
  case False
  let ?t = "sx_pq s" and ?n = "sx_n_chunks s" and ?M = "max_nbrs (sx_g s) * max_nbrs (sx_g s)"
  let ?d = "\<lambda>j. code_dist ?t (pq_code (sx_data s) ?n i) (pq_code (sx_data s) ?n j)"
  have r: "pq_n_chunks ?t = ?n" "pq_pairs_ok ?t" "?M < 32768" "?M * ?n \<le> thread_pq_buf_size" "f_below_inf (cf_alpha (sx_cfg s))"
    "\<And>j. id2loc_map (sx_lm s) j \<noteq> None \<Longrightarrow> fnum (?d j)"
    using rdy i unfolding merge_ready_def by blast+
  have code: "j * ?n + ?n \<le> length (sx_data s)" if "id2loc_map (sx_lm s) j \<noteq> None" for j
    using merge_readyD(6) [OF rdy] that by auto
  have dists: "compute_pq_dists ?t (sx_data s) i xs = Inr (map ?d xs)"
    using compute_pq_dists_spec [of ?t xs i "sx_data s"] r(1,2,3) xs(2,3) i code by auto
  have "length xs * ?n \<le> ?M * ?n" using xs(3) by (rule mult_le_mono1)
  with r(4) have buf: "\<not> thread_pq_buf_size < length xs * ?n" by linarith
  define pool where "pool = sort_lt nb_lt (map (\<lambda>(j, d). neighbor_zero\<lparr>nb_id := j, nb_dist := d\<rparr>) (zip xs (map ?d xs)))"
  define cut where "cut = take (cf_maxc (sx_cfg s)) pool"
  have z: "map (\<lambda>(j, d). neighbor_zero\<lparr>nb_id := j, nb_dist := d\<rparr>) (zip xs (map ?d xs)) = map (\<lambda>j. neighbor_zero\<lparr>nb_id := j, nb_dist := ?d j\<rparr>) xs"
    by (simp add: zip_map2 zip_same_conv_map o_def)
  have pool: "distinct (map nb_id pool)" "\<forall>p \<in> set pool. nb_id p \<in> set xs \<and> nb_num p"
    unfolding pool_def z using xs(1,2) r(6) by (auto simp: distinct_map_sort_lt o_def)
  have cut: "pool_good cut" "nb_id ` set cut \<subseteq> set xs"
    using pool set_take_subset [of "cf_maxc (sx_cfg s)" pool]
    by (auto simp: pool_good_def cut_def take_map [symmetric])
  have run: "shrink_nhood s i xs = prune_neighbors_pq (pq_pair_dist ?t (sx_data s)) (sx_cfg s) cut []"
    using False buf dists by (simp add: shrink_nhood_def Let_def cut_def pool_def)
  show ?thesis
  proof (cases "cut = []")
    case True
    then show ?thesis using False by (simp add: run prune_neighbors_pq_def)
  next
    case ne: False
    from prune_pq_spec [OF ne cut(1) r(5), of "pq_pair_dist ?t (sx_data s)" "[]"] cut(2) False
    show ?thesis unfolding run by auto
  qed
qed

lemma map_find_survivor:
  assumes "x \<in> set (survivors s deleted L)"
  shows "\<exists>j < length (survivors s deleted L). ms_id_map (pop_state s deleted n L) x = Some j"
proof -
  have "x \<in> dom (map_of (zip (survivors s deleted L) [0..<length (survivors s deleted L)]))" using assms by simp
  then obtain j where j: "map_of (zip (survivors s deleted L) [0..<length (survivors s deleted L)]) x = Some j" by blast
  from map_of_SomeD [OF j] have "j < length (survivors s deleted L)" by (auto dest: set_zip_rightD)
  with j show ?thesis by (simp add: pop_state_def Let_def)
qed

text \<open>The id a survivor gets.\<close>

definition new_id :: "ssd \<Rightarrow> (nat \<Rightarrow> bool) \<Rightarrow> nat \<Rightarrow> nat" where
  "new_id s deleted i = the (map_of (zip (survivors s deleted (cur_loc (sx_lm s)))
     [0..<length (survivors s deleted (cur_loc (sx_lm s)))]) i)"

lemma new_id_find:
  assumes "x \<in> set (survivors s deleted (cur_loc (sx_lm s)))"
  shows "map_find (ms_id_map (pop_state s deleted n (cur_loc (sx_lm s)))) x = Inr (new_id s deleted x)"
    and "new_id s deleted x < length (survivors s deleted (cur_loc (sx_lm s)))"
  using map_find_survivor [OF assms, of n] by (auto simp: map_find_def new_id_def pop_state_def Let_def)

lemma new_id_nth:
  assumes "merge_ready s" "j < length (survivors s deleted (cur_loc (sx_lm s)))"
  shows "new_id s deleted (survivors s deleted (cur_loc (sx_lm s)) ! j) = j"
  using map_of_zip_nth [of "survivors s deleted (cur_loc (sx_lm s))" "[0..<length (survivors s deleted (cur_loc (sx_lm s)))]" j]
    distinct_survivors [OF assms(1)] assms(2) by (simp add: new_id_def)

lemma repair_spec:
  assumes rdy: "merge_ready s" and i: "id2loc_map (sx_lm s) i \<noteq> None" and us: "uset_ok uset"
    and ms_def: "ms = pop_state s deleted n (cur_loc (sx_lm s))"
  shows "\<exists>l. repair_nhood uset s deleted ms i (disk_nbrs s (loc_of s i)) = Inr (map (new_id s deleted) l) \<and> repaired s deleted n i l"
proof -
  note rd = merge_readyD [OF rdy]
  note li = mapped_loc [OF i]
  let ?N = "disk_nbrs s (loc_of s i)"
  have N: "\<forall>nb \<in> set ?N. id2loc_map (sx_lm s) nb \<noteq> None" "length ?N \<le> max_nbrs (sx_g s)"
    using rd(4,5) [OF li] by blast+
  then have "?N = [] \<or> 0 < max_nbrs (sx_g s)" by (cases ?N) auto
  from gather_spec [OF rdy N(1) this refl, of deleted n] obtain ys where
    ys: "gather_nbrs s deleted (ms_nhoods ms) ?N = Inr ys" "set ys = bypass_of s deleted n ?N"
      "length ys \<le> length ?N * max_nbrs (sx_g s)" unfolding ms_def by blast
  define xs where "xs = filter (\<lambda>j. j \<noteq> i) (uset ys)"
  have xs: "distinct xs" "set xs = bypass s deleted n i"
    using us by (auto simp: xs_def uset_ok_def bypass_def ys(2))
  have "length xs \<le> length (uset ys)" by (simp add: xs_def)
  also have "\<dots> = card (set ys)" using us distinct_card [of "uset ys"] by (simp add: uset_ok_def)
  also have "\<dots> \<le> length ys" by (rule card_length)
  also have "\<dots> \<le> length ?N * max_nbrs (sx_g s)" by (rule ys(3))
  also have "\<dots> \<le> max_nbrs (sx_g s) * max_nbrs (sx_g s)" using N(2) by (rule mult_le_mono1)
  finally have len: "length xs \<le> max_nbrs (sx_g s) * max_nbrs (sx_g s)" .
  have sv: "set xs \<subseteq> set (survivors s deleted (cur_loc (sx_lm s)))"
    using bypass_survivor(1) [OF rdy i] xs(2) by blast
  have mp: "\<forall>x \<in> set xs. id2loc_map (sx_lm s) x \<noteq> None"
  proof
    fix x assume "x \<in> set xs"
    then have "x \<in> set (survivors s deleted (cur_loc (sx_lm s)))" using sv by blast
    then show "id2loc_map (sx_lm s) x \<noteq> None" by (auto simp: survivors_iff [OF rdy])
  qed
  from shrink_spec [OF rdy xs(1) mp len i] obtain l where
    l: "shrink_nhood s i xs = Inr l" "distinct l" "set l \<subseteq> set xs" "length l \<le> cf_range (sx_cfg s)"
      "length xs \<le> cf_range (sx_cfg s) \<longrightarrow> l = xs" by blast
  have "mapE (map_find (ms_id_map ms)) l = Inr (map (new_id s deleted) l)"
    by (rule mapE_total) (use l(3) sv new_id_find(1) in \<open>auto simp: ms_def\<close>)
  then have run: "repair_nhood uset s deleted ms i ?N = Inr (map (new_id s deleted) l)"
    using ys(1) l(1) by (simp add: repair_nhood_def xs_def [symmetric])
  have "card (bypass s deleted n i) = length xs" using distinct_card [OF xs(1)] xs(2) by simp
  with run l xs(2) show ?thesis by (auto simp: repaired_def)
qed

end
