(* ===== verification/Merge_Correct.thy ===== *)
theory Merge_Correct imports Merge_Props Index_Props Dyn_Props begin

text \<open>
  \<^verbatim>\<open>merge_deletes\<close> refines an operation on graphs: the nodes whose tags are not deleted, numbered in the order of
  their locations, each with its coordinates, code and tag and with a neighbor list in which deleted
  neighbors are bypassed.
\<close>

section \<open>The second scan\<close>

abbreviation all_survivors :: "ssd \<Rightarrow> (nat \<Rightarrow> bool) \<Rightarrow> nat list" where
  "all_survivors s deleted \<equiv> survivors s deleted (cur_loc (sx_lm s))"

text \<open>A record of the new file for the survivor \<^verbatim>\<open>i\<close>.\<close>

definition merged_rec :: "ssd \<Rightarrow> (nat \<Rightarrow> bool) \<Rightarrow> nat \<Rightarrow> nat \<Rightarrow> node_rec \<Rightarrow> bool" where
  "merged_rec s deleted n i r \<longleftrightarrow> fst r = disk_coords s (loc_of s i) \<and>
     (\<exists>l. repaired s deleted n i l \<and> snd r = map (new_id s deleted) l)"

lemma survivors_Suc:
  "survivors s deleted (Suc L) = survivors s deleted L @
    (let i = slot (sx_g s) (sx_lm s) L in if i = kInvalidID \<or> i = kAllocatedID \<or> deleted (id2tag s i) then [] else [i])"
  by (simp add: survivors_def node_ids_def Let_def)

lemma survivors_prefix: "L \<le> L' \<Longrightarrow> \<exists>zs. survivors s deleted L' = survivors s deleted L @ zs"
  by (induction L' rule: dec_induct) (auto simp: survivors_Suc)

lemma survivors_nth:
  assumes "L \<le> L'" "j < length (survivors s deleted L)"
  shows "j < length (survivors s deleted L')" "survivors s deleted L' ! j = survivors s deleted L ! j"
  using survivors_prefix [OF assms(1), of s deleted] assms(2) by (auto simp: nth_append)

text \<open>A survivor's record is moved to the window at the next id.\<close>

lemma move_node_spec:
  assumes rdy: "merge_ready s" and us: "uset_ok uset" and L: "L < cur_loc (sx_lm s)"
    and i: "i = slot (sx_g s) (sx_lm s) L" "i \<noteq> kInvalidID" "i \<noteq> kAllocatedID" "\<not> deleted (id2tag s i)"
    and reads: "get32s rbuf (dn_nbrs (chunk_node s st rbuf i L)) (dn_nnbrs (chunk_node s st rbuf i L)) = disk_nbrs s L"
      "peek rbuf (dn_coords (chunk_node s st rbuf i L)) (vec_bytes (sx_g s)) = disk_coords s L"
    and w: "win_ok (sx_g s) w recs" "length recs = length (survivors s deleted L)"
      "length recs - wd_wb_id w < k_vec_in_wbuf (sx_g s)"
  shows "\<exists>w' r. move_node uset s deleted (pop_state s deleted n (cur_loc (sx_lm s))) st rbuf i L w = Inr (length recs, w') \<and>
    win_ok (sx_g s) w' (recs @ [r]) \<and> wd_wb_id w' = wd_wb_id w \<and> merged_rec s deleted n i r"
proof -
  note rd = merge_readyD [OF rdy]
  have loc: "id2loc_map (sx_lm s) i = Some L" unfolding i(1) by (rule node_slot [OF rdy]) (use i in simp_all)
  then have l: "loc_of s i = L" and m: "id2loc_map (sx_lm s) i \<noteq> None" by (simp_all add: loc_of_def)
  from repair_spec [OF rdy m us refl, of deleted n] obtain l where
    rp: "repair_nhood uset s deleted (pop_state s deleted n (cur_loc (sx_lm s))) i (disk_nbrs s L) = Inr (map (new_id s deleted) l)"
      "repaired s deleted n i l" unfolding l by blast
  have sv: "i \<in> set (all_survivors s deleted)" using loc L i(4) by (auto simp: survivors_iff [OF rdy])
  have "survivors s deleted (Suc L) = survivors s deleted L @ [i]" using i by (simp add: survivors_Suc Let_def)
  then have at: "length recs < length (all_survivors s deleted)" "all_survivors s deleted ! length recs = i"
    using survivors_nth [of "Suc L" "cur_loc (sx_lm s)" "length recs" s deleted] L w(2) by (simp_all add: Suc_le_eq)
  have nid: "new_id s deleted i = length recs" using new_id_nth [OF rdy at(1)] at(2) by simp
  let ?r = "(disk_coords s L, map (new_id s deleted) l)"
  have np: "length (all_survivors s deleted) \<le> 4294967280"
    using survivors_le [of s deleted "cur_loc (sx_lm s)"] rd(7) by linarith
  have "new_id s deleted x < 4294967296" if "x \<in> set l" for x
  proof -
    have "x \<in> bypass s deleted n i" using rp(2) that by (auto simp: repaired_def)
    from new_id_find(2) [OF bypass_survivor(1) [OF rdy m this]] np show ?thesis by linarith
  qed
  moreover have "length l \<le> max_nbrs (sx_g s)" using rp(2) rdy by (auto simp: repaired_def merge_ready_def)
  ultimately have ok: "rec_ok (sx_g s) ?r" by (simp add: rec_ok_def disk_coords_def)
  have f: "map_find (ms_id_map (pop_state s deleted n (cur_loc (sx_lm s)))) i = Inr (length recs)"
    using new_id_find(1) [OF sv] nid by simp
  have run: "move_node uset s deleted (pop_state s deleted n (cur_loc (sx_lm s))) st rbuf i L w =
      Inr (length recs, w\<lparr>wd_wbuf := store_node (sx_g s) (wd_wbuf w) (window_node (sx_g s) w (length recs)) (fst ?r) (snd ?r),
        wd_n_used := wd_n_used w + 1\<rparr>)"
    unfolding move_node_def Let_def reads by (simp add: rp(1) f)
  have "merged_rec s deleted n i ?r" using rp(2) by (auto simp: merged_rec_def l)
  with run window_store [OF rd(1) w(1) ok w(3)] show ?thesis by blast
qed

text \<open>Codes are copied block by block.\<close>

lemma block_upd:
  assumes "length xs = np * n" "k < np" "length c = n"
  defines "ys \<equiv> take (k * n) xs @ c @ drop (k * n + n) xs"
  shows "length ys = np * n" "j < np \<Longrightarrow> take n (drop (j * n) ys) = (if j = k then c else take n (drop (j * n) xs))"
proof -
  have kn: "k * n + n \<le> np * n" using mult_le_mono1 [of "Suc k" np n] assms(2) by simp
  then show len: "length ys = np * n" using assms by (simp add: ys_def)
  assume j: "j < np"
  have jn: "j * n + n \<le> np * n" using mult_le_mono1 [of "Suc j" np n] j by simp
  consider "j = k" | "j < k" | "k < j" by linarith
  then show "take n (drop (j * n) ys) = (if j = k then c else take n (drop (j * n) xs))"
  proof cases
    case 1
    then show ?thesis using kn assms by (simp add: ys_def)
  next
    case 2
    have "j * n + n \<le> k * n" using mult_le_mono1 [of "Suc j" k n] 2 by simp
    then have n: "n \<le> k * n - j * n" "j * n \<le> k * n" by linarith+
    have "length (take (k * n) xs) = k * n" using kn assms(1) by simp
    then have "take n (drop (j * n) ys) = take n (drop (j * n) (take (k * n) xs))"
      using n by (simp add: ys_def)
    also have "\<dots> = take n (drop (j * n) xs)" using n(1) by (simp add: drop_take min_def)
    finally show ?thesis using 2 by simp
  next
    case 3
    have b: "k * n + n \<le> j * n" using mult_le_mono1 [of "Suc k" j n] 3 by simp
    have "length (take (k * n) xs @ c) = k * n + n" using kn assms(1,3) by simp
    then have "drop (j * n) ys = drop (j * n - (k * n + n)) (drop (k * n + n) xs)"
      using b unfolding ys_def append_assoc [symmetric] by (subst drop_append) simp
    also have "\<dots> = drop (j * n) xs" using b by simp
    finally show ?thesis using 3 by simp
  qed
qed

text \<open>The state of the second scan after \<^verbatim>\<open>L\<close> locations.\<close>

definition scanned :: "ssd \<Rightarrow> (nat \<Rightarrow> bool) \<Rightarrow> nat \<Rightarrow> nat \<Rightarrow> window \<Rightarrow> bool" where
  "scanned s deleted n L w \<longleftrightarrow> (\<exists>recs. win_ok (sx_g s) w recs \<and> length recs = length (survivors s deleted L) \<and>
     (\<forall>j < length recs. merged_rec s deleted n (survivors s deleted L ! j) (recs ! j)))"

definition copied_to :: "ssd \<Rightarrow> (nat \<Rightarrow> bool) \<Rightarrow> nat \<Rightarrow> byte list \<times> nat list \<Rightarrow> bool" where
  "copied_to s deleted L = (\<lambda>(pq, tags).
     length pq = length (all_survivors s deleted) * sx_n_chunks s \<and> length tags = length (all_survivors s deleted) \<and>
     (\<forall>j < length (survivors s deleted L).
        take (sx_n_chunks s) (drop (j * sx_n_chunks s) pq) = code_of s (survivors s deleted L ! j) \<and>
        tags ! j = id2tag s (survivors s deleted L ! j)))"

definition pending :: "ssd \<Rightarrow> (nat \<Rightarrow> bool) \<Rightarrow> nat \<Rightarrow> window \<Rightarrow> nat" where
  "pending s deleted L w = length (survivors s deleted L) - wd_wb_id w"

lemma survivors_Suc_len: "length (survivors s deleted (Suc L)) \<le> Suc (length (survivors s deleted L))"
  by (simp add: survivors_Suc Let_def)

lemma chunk_width:
  assumes "ch \<in> set (chunks step (n_sectors s))" "0 < step" "0 < nnodes_per_sector (sx_g s)"
  shows "fst ch * nnodes_per_sector (sx_g s) \<le> min (cur_loc (sx_lm s)) (snd ch * nnodes_per_sector (sx_g s))"
    and "snd ch * nnodes_per_sector (sx_g s) \<le> fst ch * nnodes_per_sector (sx_g s) + step * nnodes_per_sector (sx_g s)"
    and "chunk_locs s ch = [fst ch * nnodes_per_sector (sx_g s)..<min (cur_loc (sx_lm s)) (snd ch * nnodes_per_sector (sx_g s))]"
proof -
  let ?n = "nnodes_per_sector (sx_g s)" and ?c = "cur_loc (sx_lm s)"
  from assms(1) obtain k where k: "k < DIV_ROUND_UP (n_sectors s) step" "ch = (k * step, min (k * step + step) (n_sectors s))"
    by (auto simp: chunks_def)
  have ns: "n_sectors s = (?c + ?n - 1) div ?n" by (simp add: n_sectors_def)
  note b = chunk_bounds [OF assms(2,3) k(1) ns]
  then show "fst ch * ?n \<le> min ?c (snd ch * ?n)" using k(2) by (auto intro: mult_le_mono1)
  have "snd ch \<le> k * step + step" using k(2) by simp
  from mult_le_mono1 [OF this, of ?n] show "snd ch * ?n \<le> fst ch * ?n + step * ?n" using k(2) by (simp add: add_mult_distrib)
  show "chunk_locs s ch = [fst ch * ?n..<min ?c (snd ch * ?n)]" by (simp add: chunk_locs_def split: prod.splits)
qed

text \<open>One location: what the two variants of the scan share.\<close>

lemma scan_step:
  assumes rdy: "merge_ready s" and us: "uset_ok uset" and ch: "ch \<in> set (chunks SECTORS_PER_MERGE (n_sectors s))"
    and L: "L \<in> set (chunk_locs s ch)" and w: "scanned s deleted n L w" "pending s deleted L w < k_vec_in_wbuf (sx_g s)"
  defines "i \<equiv> slot (sx_g s) (sx_lm s) L"
  shows "loc2id (sx_g s) (sx_lm s) L = Inr i"
    and "i = kInvalidID \<or> i = kAllocatedID \<or> deleted (id2tag s i) \<Longrightarrow>
      survivors s deleted (Suc L) = survivors s deleted L \<and> scanned s deleted n (Suc L) w"
    and "\<not> (i = kInvalidID \<or> i = kAllocatedID \<or> deleted (id2tag s i)) \<Longrightarrow>
      \<exists>w'. move_node uset s deleted (pop_state s deleted n (cur_loc (sx_lm s))) (fst ch) (read_chunk s ch rbuf) i L w =
          Inr (length (survivors s deleted L), w') \<and> survivors s deleted (Suc L) = survivors s deleted L @ [i] \<and>
        scanned s deleted n (Suc L) w' \<and> wd_wb_id w' = wd_wb_id w \<and>
        length (survivors s deleted L) < length (all_survivors s deleted) \<and> id2loc_map (sx_lm s) i = Some L"
proof -
  note rd = merge_readyD [OF rdy]
  have sp: "0 < SECTORS_PER_MERGE" by (simp add: SECTORS_PER_MERGE_def)
  have lc: "L < cur_loc (sx_lm s)" using chunk_locs_range [OF L] by simp
  show "loc2id (sx_g s) (sx_lm s) L = Inr i"
    unfolding i_def by (rule loc2id_slot [OF rd(1,2)]) (use lc rd(7) in simp)
  show "survivors s deleted (Suc L) = survivors s deleted L \<and> scanned s deleted n (Suc L) w"
    if "i = kInvalidID \<or> i = kAllocatedID \<or> deleted (id2tag s i)"
    using that w(1) by (simp add: survivors_Suc Let_def i_def [symmetric] scanned_def)
  assume live: "\<not> (i = kInvalidID \<or> i = kAllocatedID \<or> deleted (id2tag s i))"
  have loc: "id2loc_map (sx_lm s) i = Some L" unfolding i_def by (rule node_slot [OF rdy]) (use live in \<open>simp_all add: i_def\<close>)
  note r = chunk_node_reads [OF rd(1,7) ch sp L rd(4) [OF loc] refl, where i = i and rbuf = rbuf]
  from w(1) obtain recs where recs: "win_ok (sx_g s) w recs" "length recs = length (survivors s deleted L)"
    "\<forall>j < length recs. merged_rec s deleted n (survivors s deleted L ! j) (recs ! j)" unfolding scanned_def by blast
  have room: "length recs - wd_wb_id w < k_vec_in_wbuf (sx_g s)" using w(2) recs(2) by (simp add: pending_def)
  from live have lv: "i \<noteq> kInvalidID" "i \<noteq> kAllocatedID" "\<not> deleted (id2tag s i)" by blast+
  from move_node_spec [OF rdy us lc i_def [THEN meta_eq_to_obj_eq] lv r recs(1,2) room, of n] obtain w' r' where
    m: "move_node uset s deleted (pop_state s deleted n (cur_loc (sx_lm s))) (fst ch) (read_chunk s ch rbuf) i L w = Inr (length recs, w')"
      "win_ok (sx_g s) w' (recs @ [r'])" "wd_wb_id w' = wd_wb_id w" "merged_rec s deleted n i r'" by blast
  have sv: "survivors s deleted (Suc L) = survivors s deleted L @ [i]" using live by (simp add: survivors_Suc Let_def i_def)
  have "scanned s deleted n (Suc L) w'"
    unfolding scanned_def
  proof (intro exI conjI allI impI)
    show "win_ok (sx_g s) w' (recs @ [r'])" by (rule m(2))
    show "length (recs @ [r']) = length (survivors s deleted (Suc L))" by (simp add: sv recs(2))
    fix j assume "j < length (recs @ [r'])"
    then show "merged_rec s deleted n (survivors s deleted (Suc L) ! j) ((recs @ [r']) ! j)"
      using recs(2,3) m(4) by (auto simp: sv nth_append less_Suc_eq)
  qed
  moreover have "length (survivors s deleted L) < length (all_survivors s deleted)"
    using survivors_nth(1) [of "Suc L" "cur_loc (sx_lm s)" "length (survivors s deleted L)" s deleted] lc by (simp add: sv Suc_le_eq)
  ultimately show "\<exists>w'. move_node uset s deleted (pop_state s deleted n (cur_loc (sx_lm s))) (fst ch) (read_chunk s ch rbuf) i L w =
          Inr (length (survivors s deleted L), w') \<and> survivors s deleted (Suc L) = survivors s deleted L @ [i] \<and>
        scanned s deleted n (Suc L) w' \<and> wd_wb_id w' = wd_wb_id w \<and>
        length (survivors s deleted L) < length (all_survivors s deleted) \<and> id2loc_map (sx_lm s) i = Some L"
    using m sv recs(2) loc by (intro exI [of _ w'] conjI) simp_all
qed

lemma merge_loc_step:
  assumes rdy: "merge_ready s" and us: "uset_ok uset" and ch: "ch \<in> set (chunks SECTORS_PER_MERGE (n_sectors s))"
    and L: "L \<in> set (chunk_locs s ch)" and w: "scanned s deleted n L w" "pending s deleted L w < b" "b \<le> k_vec_in_wbuf (sx_g s)"
    and c: "copied_to s deleted L (pq, tags)"
  shows "\<exists>w' pq' tags'. merge_loc uset s deleted (pop_state s deleted n (cur_loc (sx_lm s))) (fst ch) (read_chunk s ch rbuf) L (w, pq, tags) =
      Inr (w', pq', tags') \<and> scanned s deleted n (Suc L) w' \<and> pending s deleted (Suc L) w' < Suc b \<and> copied_to s deleted (Suc L) (pq', tags')"
proof -
  define i where "i = slot (sx_g s) (sx_lm s) L"
  have b: "pending s deleted L w < k_vec_in_wbuf (sx_g s)" using w by simp
  note st = scan_step [OF rdy us ch L w(1) b, folded i_def]
  have more: "pending s deleted (Suc L) w' < Suc b" if "wd_wb_id w' = wd_wb_id w" for w'
    using survivors_Suc_len [of s deleted L] w(2) that by (simp add: pending_def)
  show ?thesis
  proof (cases "i = kInvalidID \<or> i = kAllocatedID \<or> deleted (id2tag s i)")
    case True
    then have "merge_loc uset s deleted (pop_state s deleted n (cur_loc (sx_lm s))) (fst ch) (read_chunk s ch rbuf) L (w, pq, tags) = Inr (w, pq, tags)"
      by (auto simp: merge_loc_def st(1) skip_id_def)
    with st(2) [OF True] c more [of w] show ?thesis by (auto simp: copied_to_def)
  next
    case False
    let ?k = "length (survivors s deleted L)" and ?np = "length (all_survivors s deleted)" and ?n = "sx_n_chunks s"
    from st(3) [OF False, where rbuf = rbuf] obtain w' where m:
      "move_node uset s deleted (pop_state s deleted n (cur_loc (sx_lm s))) (fst ch) (read_chunk s ch rbuf) i L w = Inr (?k, w')"
      "survivors s deleted (Suc L) = survivors s deleted L @ [i]" "scanned s deleted n (Suc L) w'" "wd_wb_id w' = wd_wb_id w"
      "?k < ?np" "id2loc_map (sx_lm s) i = Some L" by blast
    have pl: "length pq = ?np * ?n" "length tags = ?np" using c by (simp_all add: copied_to_def)
    have code: "i * ?n + ?n \<le> length (sx_data s)" by (rule merge_readyD(6) [OF rdy m(6)])
    have kn: "?k * ?n + ?n \<le> length pq" using mult_le_mono1 [of "Suc ?k" ?np ?n] m(5) pl(1) by simp
    define pq' where "pq' = take (?k * ?n) pq @ code_of s i @ drop (?k * ?n + ?n) pq"
    define tags' where "tags' = tags[?k := id2tag s i]"
    have lc: "length (code_of s i) = ?n" using code by (simp add: code_of_def)
    note bu = block_upd [OF pl(1) m(5) lc, folded pq'_def]
    have run: "merge_loc uset s deleted (pop_state s deleted n (cur_loc (sx_lm s))) (fst ch) (read_chunk s ch rbuf) L (w, pq, tags) = Inr (w', pq', tags')"
      using False code kn m(5) pl(2)
      by (simp add: merge_loc_def st(1) skip_id_def m(1) pq'_def tags'_def code_of_def Let_def)
    have "copied_to s deleted (Suc L) (pq', tags')"
      using c bu m(5) pl(2) by (auto simp: copied_to_def m(2) nth_append tags'_def less_Suc_eq)
    with run m(3) more [OF m(4)] show ?thesis by blast
  qed
qed

lemma merge_scan_spec:
  assumes rdy: "merge_ready s" and us: "uset_ok uset"
    and ms_def: "ms = pop_state s deleted n (cur_loc (sx_lm s))"
  shows "\<exists>w pq tags recs. merge_scan uset s deleted ms f = Inr (w, pq, tags) \<and> in_file (sx_g s) (wd_file w) recs \<and>
    length recs = length (all_survivors s deleted) \<and>
    (\<forall>j < length recs. merged_rec s deleted n (all_survivors s deleted ! j) (recs ! j)) \<and>
    copied_to s deleted (cur_loc (sx_lm s)) (pq, tags)"
proof -
  let ?g = "sx_g s" and ?n = "nnodes_per_sector (sx_g s)" and ?c = "cur_loc (sx_lm s)"
  note rd = merge_readyD [OF rdy]
  have sp: "0 < SECTORS_PER_MERGE" by (simp add: SECTORS_PER_MERGE_def)
  let ?J = "\<lambda>L (w, pq, tags). scanned s deleted n L w \<and> pending s deleted L w < half ?g \<and> copied_to s deleted L (pq, tags)"
  let ?st0 = "(\<lparr>wd_wbuf = (\<lambda>_. 0), wd_file = f, wd_wb_id = 0, wd_n_used = 0\<rparr>,
               replicate (ms_npoints ms * sx_n_chunks s) 0, replicate (ms_npoints ms) 0)"
  have np: "ms_npoints ms = length (all_survivors s deleted)" by (simp add: ms_def pop_state_def Let_def)
  have sv0: "survivors s deleted 0 = []" by (simp add: survivors_def node_ids_def)
  have "\<exists>rbuf' st'. foldE (merge_chunk uset s deleted ms) (chunks SECTORS_PER_MERGE (n_sectors s)) (\<lambda>_. 0, ?st0) = Inr (rbuf', st') \<and> ?J ?c st'"
  proof (rule chunks_run)
    have "win_ok ?g \<lparr>wd_wbuf = (\<lambda>_. 0), wd_file = f, wd_wb_id = 0, wd_n_used = 0\<rparr> []" by (simp add: win_ok_def)
    then show "?J 0 ?st0" using half_pos [OF rd(1)] by (auto simp: scanned_def pending_def copied_to_def sv0 np)
    fix ch rbuf and st :: "window \<times> byte list \<times> nat list"
    assume ch: "ch \<in> set (chunks SECTORS_PER_MERGE (n_sectors s))" and J: "?J (fst ch * ?n) st"
    obtain w pq tags where st: "st = (w, pq, tags)" by (cases st)
    note cw = chunk_width [OF ch sp rd(8)]
    let ?a = "fst ch * ?n" and ?b = "min ?c (snd ch * ?n)"
    have ba: "?b \<le> ?a + half ?g" using cw(2) by (simp add: half_def min.coboundedI2)
    let ?K = "\<lambda>L (w, pq, tags). scanned s deleted n L w \<and> pending s deleted L w < half ?g + (L - ?a) \<and> copied_to s deleted L (pq, tags)"
    have "\<exists>st'. foldE (merge_loc uset s deleted ms (fst ch) (read_chunk s ch rbuf)) [?a..<?b] st = Inr st' \<and> ?K ?b st'"
    proof (rule foldE_upt)
      show "?K ?a st" using J by (simp add: st)
      show "?a \<le> ?b" by (rule cw(1))
      fix L and x :: "window \<times> byte list \<times> nat list" assume L: "?a \<le> L" "L < ?b" and K: "?K L x"
      obtain w pq tags where x: "x = (w, pq, tags)" by (cases x)
      have in_ch: "L \<in> set (chunk_locs s ch)" using L by (simp add: cw(3))
      have bd: "half ?g + (L - ?a) \<le> k_vec_in_wbuf ?g" using L ba unfolding k_half by linarith
      from merge_loc_step [OF rdy us ch in_ch _ _ bd, of deleted n w pq tags rbuf] K
      show "\<exists>x'. merge_loc uset s deleted ms (fst ch) (read_chunk s ch rbuf) L x = Inr x' \<and> ?K (Suc L) x'"
        unfolding x ms_def using L by (auto simp: Suc_diff_le)
    qed
    then obtain w' pq' tags' where k: "foldE (merge_loc uset s deleted ms (fst ch) (read_chunk s ch rbuf)) [?a..<?b] st = Inr (w', pq', tags')"
      "scanned s deleted n ?b w'" "pending s deleted ?b w' < half ?g + (?b - ?a)" "copied_to s deleted ?b (pq', tags')" by auto
    from k(2) obtain recs where recs: "win_ok ?g w' recs" "length recs = length (survivors s deleted ?b)"
      "\<forall>j < length recs. merged_rec s deleted n (survivors s deleted ?b ! j) (recs ! j)" unfolding scanned_def by blast
    have cl: "length recs \<le> 4294967280" using survivors_le [of s deleted ?b] rd(7) recs(2) by linarith
    have "length recs - wd_wb_id w' < 2 * half ?g" using k(3) ba recs(2) by (simp add: pending_def)
    note fl = flush_ok [OF rd(1) recs(1) cl this]
    have "?J ?b (flush_if_full ?g w', pq', tags')"
      using fl recs k(4) unfolding scanned_def pending_def prod.case by (metis (no_types, lifting))
    moreover have "merge_chunk uset s deleted ms ch (rbuf, st) = Inr (read_chunk s ch rbuf, flush_if_full ?g w', pq', tags')"
      using k(1) by (simp add: merge_chunk_def st Let_def cw(3))
    ultimately show "\<exists>rbuf' st'. merge_chunk uset s deleted ms ch (rbuf, st) = Inr (rbuf', st') \<and> ?J ?b st'" by blast
  qed (use sp rd(8) in simp_all)
  then obtain rbuf' w pq tags where r: "foldE (merge_chunk uset s deleted ms) (chunks SECTORS_PER_MERGE (n_sectors s)) (\<lambda>_. 0, ?st0) = Inr (rbuf', w, pq, tags)"
    "scanned s deleted n ?c w" "copied_to s deleted ?c (pq, tags)" by auto
  from r(2) obtain recs where recs: "win_ok ?g w recs" "length recs = length (all_survivors s deleted)"
    "\<forall>j < length recs. merged_rec s deleted n (all_survivors s deleted ! j) (recs ! j)" unfolding scanned_def by blast
  have "length recs \<le> 4294967280" using survivors_le [of s deleted ?c] rd(7) recs(2) by linarith
  from write_back_all_ok [OF rd(1) recs(1) this] recs(2,3) r(1,3) show ?thesis
    unfolding merge_scan_def by (intro exI [of _ "write_back_all ?g w"] exI [of _ pq] exI [of _ tags] exI [of _ recs]) simp
qed

section \<open>The mapping and the medoid\<close>

lemma renumber_spec:
  assumes wf: "wf_geom (sx_g s)" and N: "length tags \<le> 4294967280"
  shows "\<exists>lm. renumber tags s = Inr (s\<lparr>sx_lm := lm, sx_tags := (\<lambda>i. if i < length tags then Some (tags ! i) else None)\<rparr>) \<and>
    (\<forall>i. id2loc_map lm i = (if i < length tags then Some i else None)) \<and>
    (\<forall>l. slot (sx_g s) lm l = (if l < length tags then l else kInvalidID)) \<and> arr_ok lm \<and>
    cur_id lm = cur_id (sx_lm s) \<and> cur_loc lm = cur_loc (sx_lm s) \<and> empty_pages lm = empty_pages (sx_lm s)"
proof -
  let ?g = "sx_g s"
  let ?f = "\<lambda>i lm. set_loc2id ?g i i (lm\<lparr>id2loc_map := (id2loc_map lm)(i \<mapsto> i)\<rparr>)"
  let ?J = "\<lambda>k lm. arr_ok lm \<and> (\<forall>i. id2loc_map lm i = (if i < k then Some i else None)) \<and>
    (\<forall>l. slot ?g lm l = (if l < k then l else kInvalidID)) \<and>
    cur_id lm = cur_id (sx_lm s) \<and> cur_loc lm = cur_loc (sx_lm s) \<and> empty_pages lm = empty_pages (sx_lm s)"
  have "\<exists>lm. foldE ?f [0..<length tags] ((sx_lm s)\<lparr>id2loc_map := Map.empty, page_layout := Map.empty\<rparr>) = Inr lm \<and> ?J (length tags) lm"
  proof (rule foldE_upt)
    show "?J 0 ((sx_lm s)\<lparr>id2loc_map := Map.empty, page_layout := Map.empty\<rparr>)" by (simp add: arr_ok_def slot_def)
    fix k lm assume k: "k < length tags" and J: "?J k lm"
    let ?lm = "lm\<lparr>id2loc_map := (id2loc_map lm)(k \<mapsto> k)\<rparr>"
    have a: "arr_ok ?lm" using J by (simp add: arr_ok_def)
    have kl: "k < 4294967280" using k N by simp
    have sl: "slot ?g ?lm l = slot ?g lm l" for l by (simp add: slot_def)
    from set_loc2id_spec [OF wf a kl, of k] obtain v where v: "set_loc2id ?g (u32 k) k ?lm =
        Inr (?lm\<lparr>page_layout := (page_layout ?lm)(1 + k div nnodes_per_sector ?g \<mapsto> v)\<rparr>)" "length v = 16"
      "\<forall>l. slot ?g (?lm\<lparr>page_layout := (page_layout ?lm)(1 + k div nnodes_per_sector ?g \<mapsto> v)\<rparr>) l = (if l = k then k else slot ?g ?lm l)" by blast
    have u: "u32 k = k" using kl by (simp add: u32_id)
    show "\<exists>lm'. ?f k lm = Inr lm' \<and> ?J (Suc k) lm'"
      using v(1,2) J v(3) by (intro exI conjI) (simp add: u, auto simp: arr_ok_def sl less_Suc_eq)
  qed simp
  then show ?thesis unfolding renumber_def by auto
qed

definition medoid_ok :: "ssd \<Rightarrow> (nat \<Rightarrow> bool) \<Rightarrow> nat \<Rightarrow> bool" where
  "medoid_ok s deleted n \<longleftrightarrow> id2loc_map (sx_lm s) (sx_medoid s) \<noteq> None \<and>
     (deleted (id2tag s (sx_medoid s)) \<longrightarrow> live_nhood s deleted n (disk_nbrs s (loc_of s (sx_medoid s))) \<noteq> [])"

lemma pick_medoid_spec:
  assumes rdy: "merge_ready s" and ok: "medoid_ok s deleted n" and ms_def: "ms = pop_state s deleted n (cur_loc (sx_lm s))"
  shows "\<exists>i. pick_medoid 2 s deleted (ms_nhoods ms) (sx_medoid s) = Inr i \<and> i \<in> set (all_survivors s deleted)"
proof -
  note rd = merge_readyD [OF rdy]
  let ?m = "sx_medoid s"
  have m: "id2loc_map (sx_lm s) ?m \<noteq> None" using ok by (simp add: medoid_ok_def)
  note lm = mapped_loc [OF m]
  show ?thesis
  proof (cases "deleted (id2tag s ?m)")
    case False
    then have "?m \<in> set (all_survivors s deleted)" using lm map_okD(1) [OF rd(3) lm] by (auto simp: survivors_iff [OF rdy])
    with False show ?thesis by (simp add: pick_medoid.simps)
  next
    case True
    with ok obtain x xs where x: "live_nhood s deleted n (disk_nbrs s (loc_of s ?m)) = x # xs"
      by (auto simp: medoid_ok_def neq_Nil_conv)
    then have "x \<in> set (live_nhood s deleted n (disk_nbrs s (loc_of s ?m)))" by simp
    with live_nhood_sub [of s deleted n "disk_nbrs s (loc_of s ?m)"]
    have xl: "x \<in> set (disk_nbrs s (loc_of s ?m))" "\<not> deleted (id2tag s x)" by auto
    have xm: "id2loc_map (sx_lm s) x \<noteq> None" by (rule rd(5) [OF lm xl(1)])
    note lx = mapped_loc [OF xm]
    have xs: "x \<in> set (all_survivors s deleted)" using lx xl(2) map_okD(1) [OF rd(3) lx] by (auto simp: survivors_iff [OF rdy])
    have "?m \<in> set (node_ids s (cur_loc (sx_lm s)))" using lm map_okD(1) [OF rd(3) lm] by (auto simp: node_ids_iff [OF rdy])
    then have f: "map_find (ms_nhoods ms) ?m = Inr (x # xs)" using True x by (simp add: map_find_def ms_def pop_state_def Let_def)
    have s1: "pick_medoid 1 s deleted (ms_nhoods ms) x = Inr x" using xl(2) by (simp add: pick_medoid.simps)
    have "pick_medoid 2 s deleted (ms_nhoods ms) ?m = Inr x"
      using True f s1 by (simp add: pick_medoid.simps [of "Suc (Suc 0)"] numeral_2_eq_2)
    with xs show ?thesis by blast
  qed
qed

section \<open>The abstract merge\<close>

text \<open>An index as a graph: a partial map from ids to tag, code, coordinates and neighbors.\<close>

record gnode =
  gn_tag :: nat
  gn_code :: "byte list"
  gn_coords :: "byte list"
  gn_nbrs :: "nat list"

definition disk_graph :: "ssd \<Rightarrow> nat \<Rightarrow> gnode option" where
  "disk_graph s i = map_option (\<lambda>l. \<lparr>gn_tag = id2tag s i, gn_code = code_of s i, gn_coords = disk_coords s l,
     gn_nbrs = disk_nbrs s l\<rparr>) (id2loc_map (sx_lm s) i)"

definition gdeleted :: "(nat \<Rightarrow> bool) \<Rightarrow> (nat \<Rightarrow> gnode option) \<Rightarrow> nat \<Rightarrow> bool" where
  "gdeleted deleted G i \<longleftrightarrow> deleted (gn_tag (the (G i)))"

definition glive :: "(nat \<Rightarrow> bool) \<Rightarrow> (nat \<Rightarrow> gnode option) \<Rightarrow> nat set" where
  "glive deleted G = {i \<in> dom G. \<not> gdeleted deleted G i}"

text \<open>Where the edges of \<^verbatim>\<open>i\<close> lead when each deleted neighbor stands for the first \<^verbatim>\<open>n\<close> live ones of its own.\<close>

definition gbypass :: "(nat \<Rightarrow> bool) \<Rightarrow> nat \<Rightarrow> (nat \<Rightarrow> gnode option) \<Rightarrow> nat \<Rightarrow> nat set" where
  "gbypass deleted n G i = (\<Union>nb \<in> set (gn_nbrs (the (G i))). if gdeleted deleted G nb
     then set (take n (filter (\<lambda>j. \<not> gdeleted deleted G j) (gn_nbrs (the (G nb))))) else {nb}) - {i}"

text \<open>\<^verbatim>\<open>G'\<close> is \<^verbatim>\<open>G\<close> without the deleted nodes, renamed by \<^verbatim>\<open>f\<close>: nothing else of a node changes than its
  neighbors, and these are its bypass when that has at most \<^verbatim>\<open>R\<close> elements, at most \<^verbatim>\<open>R\<close> of it otherwise.\<close>

definition merge_rel :: "(nat \<Rightarrow> bool) \<Rightarrow> nat \<Rightarrow> nat \<Rightarrow> (nat \<Rightarrow> nat) \<Rightarrow> (nat \<Rightarrow> gnode option) \<Rightarrow> (nat \<Rightarrow> gnode option) \<Rightarrow> bool" where
  "merge_rel deleted n R f G G' \<longleftrightarrow> bij_betw f (glive deleted G) {..<card (glive deleted G)} \<and> dom G' = f ` glive deleted G \<and>
     (\<forall>i \<in> glive deleted G. \<exists>l. G' (f i) = Some ((the (G i))\<lparr>gn_nbrs := map f l\<rparr>) \<and> distinct l \<and>
        set l \<subseteq> gbypass deleted n G i \<and> length l \<le> R \<and> (card (gbypass deleted n G i) \<le> R \<longrightarrow> set l = gbypass deleted n G i))"

lemma gdeleted_disk: "id2loc_map (sx_lm s) i \<noteq> None \<Longrightarrow> gdeleted deleted (disk_graph s) i \<longleftrightarrow> deleted (id2tag s i)"
  by (auto simp: gdeleted_def disk_graph_def)

lemma glive_disk:
  assumes "merge_ready s"
  shows "glive deleted (disk_graph s) = set (all_survivors s deleted)"
  using map_okD(1) [OF merge_readyD(3) [OF assms]]
  by (auto simp: glive_def survivors_iff [OF assms] gdeleted_disk disk_graph_def gdeleted_def dom_def) 

lemma gbypass_disk:
  assumes "merge_ready s" "id2loc_map (sx_lm s) i \<noteq> None"
  shows "gbypass deleted n (disk_graph s) i = bypass s deleted n i"
proof -
  note rd = merge_readyD [OF assms(1)]
  have gn: "gn_nbrs (the (disk_graph s j)) = disk_nbrs s (loc_of s j)" if "id2loc_map (sx_lm s) j \<noteq> None" for j
    using that by (auto simp: disk_graph_def loc_of_def)
  have step: "(if gdeleted deleted (disk_graph s) nb
      then set (take n (filter (\<lambda>j. \<not> gdeleted deleted (disk_graph s) j) (gn_nbrs (the (disk_graph s nb))))) else {nb}) =
    (if deleted (id2tag s nb) then set (live_nhood s deleted n (disk_nbrs s (loc_of s nb))) else {nb})"
    if nb: "nb \<in> set (disk_nbrs s (loc_of s i))" for nb
  proof -
    have m: "id2loc_map (sx_lm s) nb \<noteq> None" by (rule rd(5) [OF mapped_loc [OF assms(2)] nb])
    have "filter (\<lambda>j. \<not> gdeleted deleted (disk_graph s) j) (disk_nbrs s (loc_of s nb)) =
        filter (\<lambda>j. \<not> deleted (id2tag s j)) (disk_nbrs s (loc_of s nb))"
      by (rule filter_cong [OF refl]) (use rd(5) [OF mapped_loc [OF m]] gdeleted_disk in blast)
    then show ?thesis by (simp add: gdeleted_disk [OF m] gn [OF m] live_nhood_def)
  qed
  show ?thesis unfolding gbypass_def bypass_def bypass_of_def gn [OF assms(2)] using step by simp
qed

text \<open>Survivors with merged records are the merged graph.\<close>

lemma merge_relI:
  assumes rdy: "merge_ready s" and g: "sx_g s' = sx_g s" and nc: "sx_n_chunks s' = sx_n_chunks s"
    and m: "\<forall>j. id2loc_map (sx_lm s') j = (if j < length (all_survivors s deleted) then Some j else None)"
    and t: "\<forall>j < length (all_survivors s deleted). sx_tags s' j = Some (id2tag s (all_survivors s deleted ! j))"
    and c: "\<forall>j < length (all_survivors s deleted). code_of s' j = code_of s (all_survivors s deleted ! j)"
    and r: "\<forall>j < length (all_survivors s deleted). merged_rec s deleted n (all_survivors s deleted ! j) (file_rec (sx_g s) (sx_file s') j)"
  shows "merge_rel deleted n (cf_range (sx_cfg s)) (new_id s deleted) (disk_graph s) (disk_graph s')"
proof -
  let ?sv = "all_survivors s deleted"
  have d: "distinct ?sv" by (rule distinct_survivors [OF rdy])
  have L: "glive deleted (disk_graph s) = set ?sv" by (rule glive_disk [OF rdy])
  have card: "card (set ?sv) = length ?sv" by (rule distinct_card [OF d])
  have nn: "new_id s deleted (?sv ! j) = j" if "j < length ?sv" for j by (rule new_id_nth [OF rdy that])
  have img: "new_id s deleted ` set ?sv = {..<length ?sv}"
  proof -
    have "set ?sv = (\<lambda>j. ?sv ! j) ` {..<length ?sv}" by (auto simp: set_conv_nth)
    then have "new_id s deleted ` set ?sv = (\<lambda>j. new_id s deleted (?sv ! j)) ` {..<length ?sv}" by (simp add: image_image)
    also have "\<dots> = (\<lambda>j. j) ` {..<length ?sv}" by (rule image_cong [OF refl]) (simp add: nn)
    finally show ?thesis by simp
  qed
  have inj: "inj_on (new_id s deleted) (set ?sv)"
    by (rule inj_onI) (metis nn in_set_conv_nth)
  have node: "\<exists>l. disk_graph s' (new_id s deleted i) = Some ((the (disk_graph s i))\<lparr>gn_nbrs := map (new_id s deleted) l\<rparr>) \<and>
      repaired s deleted n i l" if i: "i \<in> set ?sv" for i
  proof -
    from i obtain j where j: "j < length ?sv" "?sv ! j = i" by (auto simp: in_set_conv_nth)
    from i have im: "id2loc_map (sx_lm s) i \<noteq> None" by (auto simp: survivors_iff [OF rdy])
    from r j obtain l where l: "repaired s deleted n i l" "loc_nbrs (sx_g s) (disk_page (sx_file s')) j = map (new_id s deleted) l"
      "loc_coords (sx_g s) (disk_page (sx_file s')) j = disk_coords s (loc_of s i)"
      by (auto simp: merged_rec_def file_rec_def)
    have "new_id s deleted i = j" using nn [OF j(1)] j(2) by simp
    moreover have "disk_graph s i = Some \<lparr>gn_tag = id2tag s i, gn_code = code_of s i, gn_coords = disk_coords s (loc_of s i),
        gn_nbrs = disk_nbrs s (loc_of s i)\<rparr>"
      by (simp add: disk_graph_def mapped_loc [OF im])
    moreover have "disk_graph s' j = Some \<lparr>gn_tag = id2tag s i, gn_code = code_of s i, gn_coords = disk_coords s (loc_of s i),
        gn_nbrs = map (new_id s deleted) l\<rparr>"
    proof -
      have "id2loc_map (sx_lm s') j = Some j" "sx_tags s' j = Some (id2tag s i)" "code_of s' j = code_of s i"
        using m t c j by simp_all
      then show ?thesis using l(2,3) by (simp add: disk_graph_def disk_coords_def disk_nbrs_def g id2tag_def [of s'])
    qed
    ultimately show ?thesis using l(1) by auto
  qed
  show ?thesis
    unfolding merge_rel_def L card
  proof (intro conjI ballI)
    show "bij_betw (new_id s deleted) (set ?sv) {..<length ?sv}" by (simp add: bij_betw_def inj img)
    show "dom (disk_graph s') = new_id s deleted ` set ?sv" unfolding img using m by (auto simp: disk_graph_def dom_def split: if_splits)
    fix i assume i: "i \<in> set ?sv"
    then have im: "id2loc_map (sx_lm s) i \<noteq> None" by (auto simp: survivors_iff [OF rdy])
    from node [OF i] obtain l where l: "disk_graph s' (new_id s deleted i) = Some ((the (disk_graph s i))\<lparr>gn_nbrs := map (new_id s deleted) l\<rparr>)"
      "repaired s deleted n i l" by blast
    then show "\<exists>l. disk_graph s' (new_id s deleted i) = Some ((the (disk_graph s i))\<lparr>gn_nbrs := map (new_id s deleted) l\<rparr>) \<and>
        distinct l \<and> set l \<subseteq> gbypass deleted n (disk_graph s) i \<and> length l \<le> cf_range (sx_cfg s) \<and>
        (card (gbypass deleted n (disk_graph s) i) \<le> cf_range (sx_cfg s) \<longrightarrow> set l = gbypass deleted n (disk_graph s) i)"
      unfolding gbypass_disk [OF rdy im] repaired_def by (intro exI [of _ l]) simp
  qed
qed

section \<open>merge\_deletes\<close>

definition header_ok :: "ssd \<Rightarrow> bool" where
  "header_ok s \<longleftrightarrow> meta_ok s 0 0 \<and> cur_loc (sx_lm s) < 4294967264"

lemma file_rec_header:
  assumes wf: "wf_geom g" and N: "np \<le> 4294967280" and j: "j < np" and len: "index_file_size g np \<le> bf_len f"
    and same: "\<And>x. 4096 \<le> x \<Longrightarrow> x < bf_len f \<Longrightarrow> x < index_file_size g np \<Longrightarrow> m x = bf_bytes f x"
  shows "file_rec g m j = file_rec g (bf_bytes f) j"
proof -
  let ?n = "nnodes_per_sector g"
  have n: "0 < ?n" using wf_geomD [OF wf] by simp
  have sec: "loc_sector_no g j = 1 + j div ?n" using loc_sector_small [OF wf, of j] j N by simp
  have "j div ?n < ROUND_UP np ?n div ?n"
  proof -
    have "j < ROUND_UP np ?n div ?n * ?n" using j ROUND_UP_ge [OF n, of np] ROUND_UP_dvd [of ?n np] by simp
    then show ?thesis by (rule less_mult_imp_div_less)
  qed
  then have "Suc (1 + j div ?n) * SECTOR_LEN \<le> (1 + ROUND_UP np ?n div ?n) * SECTOR_LEN" by (intro mult_le_mono1) simp
  also have "\<dots> = index_file_size g np" by (simp add: index_file_size_def add_mult_distrib)
  finally have top: "(1 + j div ?n) * SECTOR_LEN + SECTOR_LEN \<le> index_file_size g np" by simp
  have "disk_page m (1 + j div ?n) = disk_page (bf_bytes f) (1 + j div ?n)"
    unfolding disk_page_def
  proof (rule peek_cong)
    fix x assume x: "(1 + j div ?n) * SECTOR_LEN \<le> x" "x < (1 + j div ?n) * SECTOR_LEN + SECTOR_LEN"
    have "4096 \<le> (1 + j div ?n) * SECTOR_LEN" by (simp add: SECTOR_LEN_def)
    then show "m x = bf_bytes f x" using x top len by (intro same) linarith+
  qed
  then show ?thesis by (simp add: file_rec_def loc_coords_def loc_nbrs_def sec)
qed

definition merged :: "ssd \<Rightarrow> (nat \<Rightarrow> bool) \<Rightarrow> nat \<Rightarrow> index_files \<Rightarrow> ssd \<Rightarrow> bool" where
  "merged s deleted n fs' s' \<longleftrightarrow> sx_num_points s' = length (all_survivors s deleted) \<and>
     sx_medoid s' < length (all_survivors s deleted) \<and>
     read_header (if_index fs') = header_of s (length (all_survivors s deleted)) (sx_medoid s') \<and>
     (\<forall>l. slot (sx_g s) (sx_lm s') l = (if l < length (all_survivors s deleted) then l else kInvalidID)) \<and>
     (\<forall>i. id2loc_map (sx_lm s') i = (if i < length (all_survivors s deleted) then Some i else None)) \<and>
     merge_rel deleted n (cf_range (sx_cfg s)) (new_id s deleted) (disk_graph s)
       (disk_graph (s'\<lparr>sx_file := bf_bytes (if_index fs')\<rparr>))"

lemma merge_deletes_spec:
  assumes rdy: "merge_ready s" and hd: "header_ok s" and us: "uset_ok uset" and q: "cq_empty (sx_bg_tasks s)"
    and md: "medoid_ok s deleted n"
  shows "\<exists>fs' s'. merge_deletes uset deleted n fs s = Inr (fs', s') \<and> merged s deleted n fs' s' \<and>
    s' = s\<lparr>sx_num_points := sx_num_points s', sx_medoid := sx_medoid s', sx_data := sx_data s', sx_lm := sx_lm s', sx_tags := sx_tags s'\<rparr>"
proof -
  let ?sv = "all_survivors s deleted" and ?c = "cur_loc (sx_lm s)" and ?g = "sx_g s"
  define np where "np = length ?sv"
  note rd = merge_readyD [OF rdy]
  define ms where "ms = pop_state s deleted n ?c"
  have pop: "populate s True deleted n = Inr ms" unfolding ms_def by (rule merge_populate_spec [OF rdy]) simp
  have msn: "ms_npoints ms = np" by (simp add: ms_def pop_state_def np_def Let_def)
  have npc: "np \<le> ?c" unfolding np_def by (rule survivors_le)
  have npl: "np < 4294967264" using npc hd by (simp add: header_ok_def)
  from merge_scan_spec [OF rdy us ms_def, where f = "if_index fs"] obtain w pq tags recs where
    sc: "merge_scan uset s deleted ms (if_index fs) = Inr (w, pq, tags)" "in_file ?g (wd_file w) recs" "length recs = np"
      "\<forall>j < np. merged_rec s deleted n (?sv ! j) (recs ! j)" "copied_to s deleted ?c (pq, tags)" unfolding np_def by force
  have cp: "length pq = np * sx_n_chunks s" "length tags = np"
    "\<forall>j < np. take (sx_n_chunks s) (drop (j * sx_n_chunks s) pq) = code_of s (?sv ! j) \<and> tags ! j = id2tag s (?sv ! j)"
    using sc(5) by (simp_all add: copied_to_def np_def)
  from pick_medoid_spec [OF rdy md ms_def] obtain i where i: "pick_medoid 2 s deleted (ms_nhoods ms) (sx_medoid s) = Inr i" "i \<in> set ?sv" by blast
  define nm where "nm = new_id s deleted i"
  have nm: "map_find (ms_id_map ms) i = Inr nm" "nm < np" using new_id_find [OF i(2)] by (simp_all add: ms_def nm_def np_def)
  define s1 where "s1 = s\<lparr>sx_num_points := np, sx_medoid := nm, sx_data := pq\<rparr>"
  have g1: "sx_g s1 = ?g" by (simp add: s1_def)
  have wf1: "wf_geom (sx_g s1)" and tl: "length tags \<le> 4294967280" using rd(1) g1 cp(2) npl by simp_all
  from renumber_spec [OF wf1 tl] obtain lm where lm:
    "renumber tags s1 = Inr (s1\<lparr>sx_lm := lm, sx_tags := (\<lambda>i. if i < length tags then Some (tags ! i) else None)\<rparr>)"
    "\<forall>i. id2loc_map lm i = (if i < length tags then Some i else None)"
    "\<forall>l. slot (sx_g s1) lm l = (if l < length tags then l else kInvalidID)" by blast
  define s2 where "s2 = s1\<lparr>sx_lm := lm, sx_tags := (\<lambda>i. if i < length tags then Some (tags ! i) else None)\<rparr>"
  have f2: "sx_g s2 = ?g" "sx_n_chunks s2 = sx_n_chunks s" "sx_num_points s2 = np" "sx_medoid s2 = nm" "sx_data s2 = pq" "sx_lm s2 = lm"
    "sx_tags s2 = (\<lambda>i. if i < np then Some (tags ! i) else None)" "sx_num_frozen s2 = sx_num_frozen s" "sx_frozen_location s2 = sx_frozen_location s"
    by (simp_all add: s2_def s1_def cp(2))
  have mo: "meta_ok s2 np nm" using hd npl nm(2) by (simp add: header_ok_def meta_ok_def f2)
  define fi where "fi = ftruncate (index_file_size (sx_g s2) np) (save_metadata (output_metadata s2 np nm) (wd_file w))"
  define fs' where "fs' = \<lparr>if_index = fi, if_tags = save_bin np 1 (concat (map le32 (take np tags))) 0 (if_tags fs),
    if_pq = save_bin np (sx_n_chunks s2) (take (np * sx_n_chunks s2) (sx_data s2)) 0 (if_pq fs)\<rparr>"
  have wr: "write_metadata_and_pq np nm (Some tags) s2 (fs\<lparr>if_index := wd_file w\<rparr>) = Inr fs'"
    using cp rd(8) by (simp add: write_metadata_and_pq_def f2 fs'_def fi_def Let_def)
  have run: "merge_deletes uset deleted n fs s = Inr (fs', s2)"
    using rd(8) q pop sc(1) i(1) nm(1) lm(1) wr
    by (simp add: merge_deletes_def wait_bg_def msn s1_def [symmetric] s2_def [symmetric])
  have hdr: "read_header (if_index fs') = header_of s np nm"
    using read_header_save [OF mo, of "wd_file w"] by (simp add: fs'_def fi_def header_of_def f2)
  have rec: "merged_rec s deleted n (?sv ! j) (file_rec ?g (bf_bytes fi) j)" if j: "j < np" for j
  proof -
    have ne: "recs \<noteq> []" using j sc(3) by auto
    with sc(2,3) have len: "index_file_size ?g np \<le> bf_len (wd_file w)" by (simp add: in_file_def)
    have "file_rec ?g (bf_bytes fi) j = file_rec ?g (bf_bytes (wd_file w)) j"
      by (rule file_rec_header [OF rd(1) _ j len]) (use npl metadata_keeps [of _ "wd_file w" s2 np nm] in \<open>simp_all add: fi_def f2(1)\<close>)
    also have "\<dots> = recs ! j" using sc(2,3) j by (simp add: in_file_def)
    finally show ?thesis using sc(4) j by simp
  qed
  have "merge_rel deleted n (cf_range (sx_cfg s)) (new_id s deleted) (disk_graph s) (disk_graph (s2\<lparr>sx_file := bf_bytes fi\<rparr>))"
  proof (rule merge_relI [OF rdy])
    show "\<forall>j < length ?sv. code_of (s2\<lparr>sx_file := bf_bytes fi\<rparr>) j = code_of s (?sv ! j)"
      using cp(3) by (simp add: code_of_def f2 np_def)
    show "\<forall>j. id2loc_map (sx_lm (s2\<lparr>sx_file := bf_bytes fi\<rparr>)) j = (if j < length ?sv then Some j else None)"
      using lm(2) cp(2) by (simp add: f2 np_def)
    show "\<forall>j < length ?sv. sx_tags (s2\<lparr>sx_file := bf_bytes fi\<rparr>) j = Some (id2tag s (?sv ! j))"
      using cp(2,3) by (simp add: f2 np_def)
    show "\<forall>j < length ?sv. merged_rec s deleted n (?sv ! j) (file_rec ?g (sx_file (s2\<lparr>sx_file := bf_bytes fi\<rparr>)) j)"
      using rec by (simp add: np_def)
  qed (simp_all add: f2)
  then have "merged s deleted n fs' s2"
    using lm(2,3) cp(2) hdr nm(2) by (simp add: merged_def f2 np_def [symmetric] g1 fs'_def)
  moreover have "s2 = s\<lparr>sx_num_points := sx_num_points s2, sx_medoid := sx_medoid s2, sx_data := sx_data s2, sx_lm := sx_lm s2, sx_tags := sx_tags s2\<rparr>"
    by (simp add: s2_def s1_def)
  ultimately show ?thesis using run by blast
qed

text \<open>C1: on an index in order \<^verbatim>\<open>merge_deletes\<close> succeeds, and the new file with the new mapping, codes and tags is the
  graph of the old index without the deleted nodes: the others are renamed one to one onto an initial
  segment, keep tag, code and coordinates, and deleted neighbors are bypassed.\<close>

theorem merge_deletes_refines:
  assumes "merge_ready s" "header_ok s" "uset_ok uset" "cq_empty (sx_bg_tasks s)" "medoid_ok s deleted n"
  shows "\<exists>fs' s'. merge_deletes uset deleted n fs s = Inr (fs', s') \<and> merged s deleted n fs' s'"
  using merge_deletes_spec [OF assms, of fs] by blast

section \<open>A merge of the dynamic index\<close>

lemma map_ok_identity:
  assumes "\<forall>i. id2loc_map lm i = (if i < np then Some i else None)" "\<forall>l. slot g lm l = (if l < np then l else kInvalidID)"
    and "np \<le> cur_loc lm" "np < 4294967264"
  shows "map_ok g lm"
  using assms by (auto simp: map_ok_def kInvalidID_def kAllocatedID_def)

lemma reload_spec:
  assumes "0 < nnodes_per_sector (sx_g s)"
  shows "\<exists>lm. reload f s = Inr (s\<lparr>sx_file := f, sx_lm := lm\<rparr>) \<and> id2loc_map lm = id2loc_map (sx_lm s) \<and>
    page_layout lm = page_layout (sx_lm s) \<and> cur_id lm = sx_num_points s \<and> sx_num_points s \<le> cur_loc lm"
proof -
  define lm where "lm = (sx_lm s)\<lparr>cur_id := sx_num_points s,
    cur_loc := (if sx_num_points s mod nnodes_per_sector (sx_g s) \<noteq> 0
      then sx_num_points s + (nnodes_per_sector (sx_g s) - sx_num_points s mod nnodes_per_sector (sx_g s)) else sx_num_points s),
    empty_pages := snd (cq_drain (empty_pages (sx_lm s)))\<rparr>"
  have "reload f s = Inr (s\<lparr>sx_file := f, sx_lm := lm\<rparr>)" using assms by (simp add: reload_def Let_def lm_def)
  moreover have "id2loc_map lm = id2loc_map (sx_lm s)" "page_layout lm = page_layout (sx_lm s)" "cur_id lm = sx_num_points s"
    "sx_num_points s \<le> cur_loc lm" by (simp_all add: lm_def)
  ultimately show ?thesis by blast
qed

text \<open>C2: a merge of the dynamic index leaves an index whose graph is the old one without the nodes
  deleted so far, with an entry point in it, a consistent mapping, and no tag deleted.\<close>

theorem final_merge_refines:
  assumes "merge_ready (dx_disk dx)" "header_ok (dx_disk dx)" "uset_ok uset" "cq_empty (sx_bg_tasks (dx_disk dx))"
    "medoid_ok (dx_disk dx) (\<lambda>t. t \<in> active_set dx) n" "dx_active_delete_set dx < 2"
  shows "\<exists>dx' f. final_merge uset n dx = Inr dx' \<and>
    merge_rel (\<lambda>t. t \<in> active_set dx) n (cf_range (sx_cfg (dx_disk dx))) f (disk_graph (dx_disk dx)) (disk_graph (dx_disk dx')) \<and>
    active_set dx' = {} \<and> sx_medoid (dx_disk dx') \<in> dom (disk_graph (dx_disk dx')) \<and>
    map_ok (sx_g (dx_disk dx')) (sx_lm (dx_disk dx')) \<and> cur_id (sx_lm (dx_disk dx')) = sx_num_points (dx_disk dx')"
proof -
  let ?s = "dx_disk dx" and ?del = "\<lambda>t. t \<in> active_set dx" and ?dx1 = "save_del_set dx"
  have d: "dx_disk ?dx1 = ?s" "dx_deletion_sets ?dx1 (1 - dx_active_delete_set ?dx1) = active_set dx" "active_set ?dx1 = {}"
    using assms(6) [unfolded two_cases] by (elim disjE; simp add: save_del_set_def active_set_def Let_def)+
  from merge_deletes_spec [OF assms(1-5), of "dx_files_out ?dx1"] obtain fs' s' where
    m: "merge_deletes uset ?del n (dx_files_out ?dx1) ?s = Inr (fs', s')" "merged ?s ?del n fs' s'"
      "s' = ?s\<lparr>sx_num_points := sx_num_points s', sx_medoid := sx_medoid s', sx_data := sx_data s', sx_lm := sx_lm s', sx_tags := sx_tags s'\<rparr>" by blast
  have g: "sx_g s' = sx_g ?s" by (subst m(3)) simp
  have n: "0 < nnodes_per_sector (sx_g s')" using merge_readyD(8) [OF assms(1)] g by simp
  from reload_spec [OF n, of "bf_bytes (if_index fs')"] obtain lm where r:
    "reload (bf_bytes (if_index fs')) s' = Inr (s'\<lparr>sx_file := bf_bytes (if_index fs'), sx_lm := lm\<rparr>)"
    "id2loc_map lm = id2loc_map (sx_lm s')" "page_layout lm = page_layout (sx_lm s')" "cur_id lm = sx_num_points s'"
    "sx_num_points s' \<le> cur_loc lm" by blast
  define s2 where "s2 = s'\<lparr>sx_file := bf_bytes (if_index fs'), sx_lm := lm\<rparr>"
  define dx' where "dx' = ?dx1\<lparr>dx_disk := s2, dx_files_in := fs', dx_files_out := dx_files_in ?dx1\<rparr>"
  have run: "final_merge uset n dx = Inr dx'"
    by (simp add: final_merge_def Let_def d [simplified] m(1) swap_and_reload_def r(1) dx'_def s2_def)
  have graph: "disk_graph s2 = disk_graph (s'\<lparr>sx_file := bf_bytes (if_index fs')\<rparr>)"
    by (simp add: disk_graph_def s2_def r(2) id2tag_def code_of_def disk_coords_def disk_nbrs_def fun_eq_iff)
  note mm = m(2) [unfolded merged_def]
  have np: "sx_num_points s' < 4294967264"
    using mm assms(2) survivors_le [of ?s ?del "cur_loc (sx_lm ?s)"] by (simp add: header_ok_def)
  have sl: "slot (sx_g ?s) lm l = slot (sx_g ?s) (sx_lm s') l" for l by (simp add: slot_def r(3))
  have "map_ok (sx_g s2) lm"
    by (rule map_ok_identity [OF _ _ r(5) np]) (use mm in \<open>simp_all add: r(2) sl s2_def g\<close>)
  moreover have "sx_medoid s2 \<in> dom (disk_graph s2)"
    using mm by (simp add: disk_graph_def s2_def r(2) dom_def)
  moreover have "active_set dx' = {}" using d(3) by (simp add: dx'_def active_set_def)
  moreover have "merge_rel ?del n (cf_range (sx_cfg ?s)) (new_id ?s ?del) (disk_graph ?s) (disk_graph s2)"
    unfolding graph using mm by blast
  ultimately show ?thesis
    using run r(4) by (intro exI [of _ dx'] exI [of _ "new_id ?s ?del"]) (simp add: dx'_def s2_def)
qed

section \<open>Witnesses\<close>

text \<open>The two nodes of \<^verbatim>\<open>demo2\<close> with the mapping a load gives them; each node's neighbor is the other.\<close>

definition demo3_map :: loc_map where
  "demo3_map = (case load_equal_layout demo2_geom 2 demo_map of Inr lm \<Rightarrow> lm | Inl e \<Rightarrow> demo_map)"

definition demo3 :: ssd where
  "demo3 = demo2\<lparr>sx_lm := demo3_map, sx_cfg := \<lparr>cf_range = 2, cf_maxc = 750, cf_alpha = f_zero\<rparr>\<rparr>"

lemma demo3_map_spec: "lm_ok demo2_geom demo3_map" "map_ok demo2_geom demo3_map"
  "id2loc_map demo3_map = (\<lambda>i. if i < 2 then Some i else None)" "cur_loc demo3_map = 16"
proof -
  have wf: "wf_geom demo2_geom" by (simp add: wf_geom_def demo2_geom_def vec_bytes_def SECTOR_LEN_def)
  have d: "id2loc_map demo_map = Map.empty" "page_layout demo_map = Map.empty" "empty_pages demo_map = cq_new kInvalidID"
    by (simp_all add: demo_map_def)
  have "(2 :: nat) < 4294967264" by simp
  from load_equal_layout_spec [OF wf this d] obtain lm where lm: "load_equal_layout demo2_geom 2 demo_map = Inr lm"
    "lm_ok demo2_geom lm" "map_ok demo2_geom lm" "\<forall>i. id2loc_map lm i = (if i < 2 then Some i else None)" by blast
  then have e: "demo3_map = lm" by (simp add: demo3_map_def)
  show "lm_ok demo2_geom demo3_map" "map_ok demo2_geom demo3_map" using lm e by simp_all
  show "id2loc_map demo3_map = (\<lambda>i. if i < 2 then Some i else None)" using lm(4) e by (simp add: fun_eq_iff)
  have "cur_loc lm = 16" using lm(1) by (auto simp: load_equal_layout_def demo2_geom_def kMaxElemInAPage_def Let_def)
  then show "cur_loc demo3_map = 16" using e by simp
qed

lemma demo3_simps: "sx_g demo3 = demo2_geom" "sx_lm demo3 = demo3_map" "sx_n_chunks demo3 = 2" "sx_data demo3 = [0, 0, 0, 0]"
  "sx_pq demo3 = demo_pq" "sx_medoid demo3 = 0" "sx_cfg demo3 = \<lparr>cf_range = 2, cf_maxc = 750, cf_alpha = f_zero\<rparr>"
  "sx_bg_tasks demo3 = cq_new None" "sx_tags demo3 = Map.empty" "sx_file demo3 = demo2_file" "sx_num_frozen demo3 = 0"
  "sx_frozen_location demo3 = 0"
  by (simp_all add: demo3_def demo2_def)

lemma demo3_nbrs: "disk_nbrs demo3 0 = [1]" "disk_nbrs demo3 1 = [0]"
proof -
  have "view_of demo2_popped = disk_page demo2_file"
    by (simp add: fun_eq_iff view_of_def page_view_def demo2_popped_simps)
  with demo2_nbrs show "disk_nbrs demo3 0 = [1]" "disk_nbrs demo3 1 = [0]"
    by (simp_all add: disk_nbrs_def demo3_simps)
qed

lemma demo3_ready: "merge_ready demo3"
proof -
  have wf: "wf_geom demo2_geom" by (simp add: wf_geom_def demo2_geom_def vec_bytes_def SECTOR_LEN_def)
  have R: "max_nbrs demo2_geom = 2" by (simp add: max_nbrs_def demo2_geom_def vec_bytes_def)
  have nb: "length (disk_nbrs demo3 l) = 1 \<and> (\<forall>nb \<in> set (disk_nbrs demo3 l). nb < 2)" if "l < 2" for l
  proof -
    from that consider "l = 0" | "l = 1" by linarith
    then show ?thesis by cases (simp_all add: demo3_nbrs [unfolded One_nat_def])
  qed
  have code: "pq_code [0, 0, 0, 0] 2 i c = 0" if "i < 2" "c < 2" for i c
    using that by (auto simp: pq_code_def less_Suc_eq numeral_2_eq_2)
  have fin: "finite_tables demo_pq" unfolding finite_tables_def demo_pq_simps by blast
  have dist: "code_dist demo_pq (pq_code [0, 0, 0, 0] 2 i) (pq_code [0, 0, 0, 0] 2 j) = f_zero" if "i < 2" "j < 2" for i j
    by (rule code_dist_zero [OF fin]) (use that in \<open>simp add: code demo_pq_simps\<close>)
  have num: "fnum f_zero" "f_below_inf f_zero" by (simp_all add: f_zero_def)
  show ?thesis
    unfolding merge_ready_def demo3_simps R demo3_map_spec(3)
    using wf demo3_map_spec nb dist num demo_pq_pairs
    by (auto simp: demo_pq_simps thread_pq_buf_size_def split: if_splits)
qed

lemma demo3_header: "header_ok demo3"
  by (simp add: header_ok_def meta_ok_def demo3_simps demo3_map_spec(4) wf_geom_def demo2_geom_def vec_bytes_def SECTOR_LEN_def)

lemma demo3_medoid: "medoid_ok demo3 (\<lambda>t. t = 1) 5"
  by (simp add: medoid_ok_def demo3_simps demo3_map_spec(3) id2tag_def)

lemma demo_uset: "uset_ok remdups"
  by (simp add: uset_ok_def)

lemma demo3_idle: "cq_empty (sx_bg_tasks demo3)"
  by (simp add: demo3_simps cq_new_def cq_empty_def cq_size_def)

theorem merge_deletes_refines_witness:
  "\<exists>fs' s'. merge_deletes remdups (\<lambda>t. t = 1) 5 no_files demo3 = Inr (fs', s') \<and> merged demo3 (\<lambda>t. t = 1) 5 fs' s'"
  by (rule merge_deletes_refines [OF demo3_ready demo3_header demo_uset demo3_idle demo3_medoid])

theorem final_merge_refines_witness:
  "\<exists>dx' f. final_merge remdups 5 ((demo_dx {1})\<lparr>dx_disk := demo3\<rparr>) = Inr dx' \<and>
    merge_rel (\<lambda>t. t = 1) 5 2 f (disk_graph demo3) (disk_graph (dx_disk dx')) \<and> active_set dx' = {}"
proof -
  let ?dx = "(demo_dx {1})\<lparr>dx_disk := demo3\<rparr>"
  have a: "dx_disk ?dx = demo3" "(\<lambda>t. t \<in> active_set ?dx) = (\<lambda>t. t = 1)" "dx_active_delete_set ?dx < 2"
    by (simp_all add: active_set_def demo_dx_def)
  have c: "cf_range (sx_cfg demo3) = 2" by (simp add: demo3_simps)
  show ?thesis
    using final_merge_refines [of ?dx remdups 5, unfolded a(1,2), OF demo3_ready demo3_header demo_uset demo3_idle demo3_medoid a(3)]
    unfolding c by blast
qed

end
