(* ===== verification/Insert_Writes.thy ===== *)
theory Insert_Writes imports Insert begin

text \<open>
  The planned writes of an insert: the coalesced requests write the pages of the single ones, in the same
  order and from the same buffers; and the buffers of the plan do not overlap.
\<close>

section \<open>Coalescing\<close>

text \<open>Page requests whose buffers lie side by side, as \<^verbatim>\<open>writes_4k\<close> are built.\<close>

definition block_reqs :: "io_req list \<Rightarrow> bool" where
  "block_reqs ws \<longleftrightarrow> (\<forall>i < length ws. r_offset (ws ! i) mod SECTOR_LEN = 0 \<and>
     r_offset (ws ! i) + SECTOR_LEN < 18446744073709551615 \<and> r_len (ws ! i) = SECTOR_LEN \<and>
     r_buf (ws ! i) = r_buf (ws ! 0) + i * SECTOR_LEN)"

abbreviation sectors_of :: "io_req list \<Rightarrow> (nat \<times> nat) list" where
  "sectors_of reqs \<equiv> concat (map req_sectors reqs)"

definition aligned_reqs :: "io_req list \<Rightarrow> bool" where
  "aligned_reqs reqs \<longleftrightarrow> (\<forall>r \<in> set reqs. r_offset r mod SECTOR_LEN = 0 \<and> r_len r mod SECTOR_LEN = 0)"

lemma div_round_up_mult [simp]: "DIV_ROUND_UP (SECTOR_LEN * n) SECTOR_LEN = n"
  by (simp add: DIV_ROUND_UP_def SECTOR_LEN_def)

lemma run_sectors:
  assumes "\<And>k. k < n \<Longrightarrow> f (s + k) = ((off + k * SECTOR_LEN) div SECTOR_LEN, buf + k * SECTOR_LEN)"
  shows "req_sectors \<lparr>r_offset = off, r_len = SECTOR_LEN * n, r_buf = buf, r_u_offset = u, r_u_len = v\<rparr> = map f [s..<s + n]"
  using assms by (simp add: req_sectors_def list_eq_iff_nth_eq)

text \<open>With \<^verbatim>\<open>start\<close> the first request not yet covered and the ones up to \<^verbatim>\<open>i\<close> in one run.\<close>

text \<open>The request of the run from \<^verbatim>\<open>s\<close> up to \<^verbatim>\<open>i\<close> covers exactly the requests in it.\<close>

definition run_req :: "io_req list \<Rightarrow> nat \<Rightarrow> nat \<Rightarrow> io_req" where
  "run_req ws s i = \<lparr>r_offset = r_offset (ws ! s), r_len = SECTOR_LEN * (i - s), r_buf = r_buf (ws ! s), r_u_offset = 0, r_u_len = 0\<rparr>"

definition sector_at :: "io_req list \<Rightarrow> nat \<Rightarrow> nat \<times> nat" where
  "sector_at base j = (r_offset (base ! j) div SECTOR_LEN, r_buf (base ! j))"

definition one_run :: "io_req list \<Rightarrow> nat \<Rightarrow> nat \<Rightarrow> bool" where
  "one_run base s i \<longleftrightarrow> s < i \<and> i \<le> length base \<and>
     (\<forall>k < i - s. r_offset (base ! (s + k)) = r_offset (base ! s) + k * SECTOR_LEN)"

lemma run_req_spec:
  assumes blk: "block_reqs base" and run: "one_run base s i" and ws: "ws ! s = base ! s"
  shows "req_sectors (run_req ws s i) = map (sector_at base) [s..<i]" "aligned_reqs [run_req ws s i]"
proof -
  have s: "s < i" "i \<le> length base" using run by (simp_all add: one_run_def)
  have b: "r_buf (base ! k) = r_buf (base ! 0) + k * SECTOR_LEN" "r_offset (base ! k) mod SECTOR_LEN = 0" if "k < length base" for k
    using blk that by (simp_all add: block_reqs_def)
  have f: "sector_at base (s + k) = ((r_offset (base ! s) + k * SECTOR_LEN) div SECTOR_LEN, r_buf (base ! s) + k * SECTOR_LEN)" if "k < i - s" for k
  proof -
    have k: "s + k < length base" "s < length base" using that s by simp_all
    have "r_offset (base ! (s + k)) = r_offset (base ! s) + k * SECTOR_LEN" using run that by (simp add: one_run_def)
    moreover have "r_buf (base ! (s + k)) = r_buf (base ! s) + k * SECTOR_LEN"
      using b(1) [OF k(1)] b(1) [OF k(2)] by (simp add: add_mult_distrib)
    ultimately show ?thesis by (simp add: sector_at_def)
  qed
  show "req_sectors (run_req ws s i) = map (sector_at base) [s..<i]"
    unfolding run_req_def ws using run_sectors [of "i - s" "sector_at base" s, OF f] s(1) by simp
  show "aligned_reqs [run_req ws s i]" using b(2) [of s] s ws by (simp add: aligned_reqs_def run_req_def)
qed

lemma one_run_next:
  assumes "one_run base s i" "i < length base" "r_offset (base ! i) = r_offset (base ! (i - 1)) + SECTOR_LEN"
  shows "one_run base s (Suc i)"
  unfolding one_run_def
proof (intro conjI allI impI)
  show "s < Suc i" "Suc i \<le> length base" using assms(1,2) by (simp_all add: one_run_def)
  fix k assume k: "k < Suc i - s"
  show "r_offset (base ! (s + k)) = r_offset (base ! s) + k * SECTOR_LEN"
  proof (cases "s + k = i")
    case True
    have s: "s < i" using assms(1) by (simp add: one_run_def)
    with True obtain k' where k': "k = Suc k'" by (cases k) auto
    have "r_offset (base ! (s + k')) = r_offset (base ! s) + k' * SECTOR_LEN" using assms(1) True k' by (simp add: one_run_def)
    moreover have "s + k' = i - 1" using True k' by simp
    ultimately show ?thesis using assms(3) True k' by simp
  next
    case False
    then have "k < i - s" using k by simp
    then show ?thesis using assms(1) by (simp add: one_run_def)
  qed
qed

lemma coalesce_step:
  "coalesce SECTOR_LEN ws (i # is) (s, off, W) =
    (if r_offset (ws ! i) \<noteq> u64 (off + SECTOR_LEN) then coalesce SECTOR_LEN ws is (i, r_offset (ws ! i), W @ [run_req ws s i])
     else coalesce SECTOR_LEN ws is (s, r_offset (ws ! i), W))"
  by (simp add: run_req_def)

lemma coalesce_spec:
  assumes blk: "block_reqs base" and ws_def: "ws = base @ [sentinel_req]"
    and run: "one_run base s i" and W: "sectors_of W = map (sector_at base) [0..<s]" "aligned_reqs W"
  shows "sectors_of (coalesce SECTOR_LEN ws [i..<length ws] (s, r_offset (ws ! (i - 1)), W)) = map (sector_at base) [0..<length base] \<and>
    aligned_reqs (coalesce SECTOR_LEN ws [i..<length ws] (s, r_offset (ws ! (i - 1)), W))"
  using run W
proof (induction "length base - i" arbitrary: i s W)
  case (0 i s W)
  let ?N = "length base"
  have s: "s < i" "i = ?N" using 0 by (simp_all add: one_run_def)
  have ws: "ws ! i = sentinel_req" "ws ! s = base ! s" "ws ! (i - 1) = base ! (i - 1)" and up: "[i..<length ws] = [i]"
    using s by (simp_all add: ws_def nth_append)
  have "i - 1 < ?N" using s by simp
  then have "r_offset (base ! (i - 1)) + SECTOR_LEN < 18446744073709551615" using blk unfolding block_reqs_def by blast
  then have ne: "r_offset (ws ! i) \<noteq> u64 (r_offset (ws ! (i - 1)) + SECTOR_LEN)"
    unfolding ws by (simp add: u64_id sentinel_req_def)
  note r = run_req_spec [OF blk 0(2) ws(2)]
  have c: "coalesce SECTOR_LEN ws [i..<length ws] (s, r_offset (ws ! (i - 1)), W) = W @ [run_req ws s i]"
    unfolding up coalesce_step if_P [OF ne] by simp
  have "[0..<i] = [0..<s] @ [s..<i]" using s(1) upt_add_eq_append [of 0 s "i - s"] by simp
  then have "sectors_of (W @ [run_req ws s i]) = map (sector_at base) [0..<?N]" using 0(3) r(1) s(2) by simp
  moreover have "aligned_reqs (W @ [run_req ws s i])" using 0(4) r(2) by (simp add: aligned_reqs_def)
  ultimately show ?case unfolding c by blast
next
  case (Suc d i s W)
  let ?N = "length base"
  have i: "i < ?N" "s < i" "i - 1 < ?N" using Suc.hyps(2) Suc.prems(1) by (simp_all add: one_run_def)
  have ws: "ws ! i = base ! i" "ws ! s = base ! s" "ws ! (i - 1) = base ! (i - 1)" "length ws = Suc ?N"
    using i by (simp_all add: ws_def nth_append)
  have "r_offset (base ! (i - 1)) + SECTOR_LEN < 18446744073709551615" using blk i(3) unfolding block_reqs_def by blast
  then have u: "u64 (r_offset (ws ! (i - 1)) + SECTOR_LEN) = r_offset (base ! (i - 1)) + SECTOR_LEN" unfolding ws by (simp add: u64_id)
  have up: "[i..<length ws] = i # [Suc i..<length ws]" using i ws by (simp add: upt_conv_Cons)
  have d: "d = ?N - Suc i" using Suc.hyps(2) by simp
  have si: "Suc i - 1 = i" by simp
  show ?case
  proof (cases "r_offset (base ! i) = r_offset (base ! (i - 1)) + SECTOR_LEN")
    case True
    then have eq: "\<not> r_offset (ws ! i) \<noteq> u64 (r_offset (ws ! (i - 1)) + SECTOR_LEN)" by (simp only: not_not ws(1) u True)
    show ?thesis unfolding up coalesce_step if_not_P [OF eq]
      using Suc.hyps(1) [OF d one_run_next [OF Suc.prems(1) i(1) True] Suc.prems(2,3)] unfolding si .
  next
    case False
    have ne: "r_offset (ws ! i) \<noteq> u64 (r_offset (ws ! (i - 1)) + SECTOR_LEN)" unfolding u unfolding ws(1) by (rule False)
    note r = run_req_spec [OF blk Suc.prems(1) ws(2)]
    have "[0..<i] = [0..<s] @ [s..<i]" using i(2) upt_add_eq_append [of 0 s "i - s"] by simp
    then have W: "sectors_of (W @ [run_req ws s i]) = map (sector_at base) [0..<i]" using Suc.prems(2) r(1) by simp
    have al: "aligned_reqs (W @ [run_req ws s i])" using Suc.prems(3) r(2) by (simp add: aligned_reqs_def)
    have run: "one_run base i (Suc i)" using i(1) by (simp add: one_run_def)
    show ?thesis unfolding up coalesce_step if_P [OF ne]
      using Suc.hyps(1) [OF d run W al] unfolding si .
  qed
qed

lemma sectors_single: "block_reqs ws \<Longrightarrow> sectors_of ws = map (\<lambda>r. (r_offset r div SECTOR_LEN, r_buf r)) ws"
proof -
  assume b: "block_reqs ws"
  have "req_sectors r = [(r_offset r div SECTOR_LEN, r_buf r)]" if "r \<in> set ws" for r
  proof -
    from that b have "r_len r = SECTOR_LEN" by (auto simp: in_set_conv_nth block_reqs_def)
    then show ?thesis by (simp add: req_sectors_def DIV_ROUND_UP_def SECTOR_LEN_def)
  qed
  then show ?thesis by (induction ws) simp_all
qed

lemma merge_writes_cover:
  assumes "block_reqs ws" "ws \<noteq> []"
  shows "sectors_of (merge_writes SECTOR_LEN ws) = map (sector_at ws) [0..<length ws] \<and> aligned_reqs (merge_writes SECTOR_LEN ws)"
proof -
  have run: "one_run ws 0 1" using assms(2) by (cases ws) (simp_all add: one_run_def)
  have W: "sectors_of [] = map (sector_at ws) [0..<0]" "aligned_reqs []" by (simp_all add: aligned_reqs_def)
  have z: "(1 :: nat) - 1 = 0" by simp
  show ?thesis unfolding merge_writes_def Let_def using coalesce_spec [OF assms(1) refl run W] unfolding z .
qed

lemma merge_writes_spec:
  assumes "block_reqs ws"
  shows "sectors_of (merge_writes SECTOR_LEN ws) = sectors_of ws" "aligned_reqs (merge_writes SECTOR_LEN ws)"
proof -
  have e: "map (sector_at ws) [0..<length ws] = map (\<lambda>r. (r_offset r div SECTOR_LEN, r_buf r)) ws"
    by (rule nth_equalityI) (simp_all add: sector_at_def)
  have n: "merge_writes SECTOR_LEN [] = []" by (simp add: merge_writes_def)
  have a: "aligned_reqs []" by (simp add: aligned_reqs_def)
  have "sectors_of (merge_writes SECTOR_LEN ws) = sectors_of ws \<and> aligned_reqs (merge_writes SECTOR_LEN ws)"
  proof (cases "ws = []")
    case False
    show ?thesis using merge_writes_cover [OF assms False] unfolding e sectors_single [OF assms] .
  qed (simp add: n a)
  then show "sectors_of (merge_writes SECTOR_LEN ws) = sectors_of ws" "aligned_reqs (merge_writes SECTOR_LEN ws)" by blast+
qed

text \<open>An aligned request writes its sectors one after the other.\<close>

lemma poke_append: "poke f a (xs @ ys) = poke (poke f a xs) (a + length xs) ys"
  by (rule ext) (auto simp: poke_def nth_append)

lemma poke_sectors:
  "poke f a (peek m b (n * SECTOR_LEN)) =
    fold (\<lambda>k f. poke f (a + k * SECTOR_LEN) (peek m (b + k * SECTOR_LEN) SECTOR_LEN)) [0..<n] f"
proof (induction n)
  case (Suc n)
  have "peek m b (Suc n * SECTOR_LEN) = peek m b (n * SECTOR_LEN) @ peek m (b + n * SECTOR_LEN) SECTOR_LEN"
    using peek_append [of m b "n * SECTOR_LEN" SECTOR_LEN] by (simp add: add.commute)
  then show ?case using Suc by (simp add: poke_append)
qed simp

lemma write_one:
  assumes "r_offset r mod SECTOR_LEN = 0" "r_len r mod SECTOR_LEN = 0"
  shows "poke f (r_offset r) (peek m (r_buf r) (r_len r)) =
    fold (\<lambda>(p, a) f. poke f (p * SECTOR_LEN) (peek m a SECTOR_LEN)) (req_sectors r) f"
proof -
  obtain q n where q: "r_offset r = q * SECTOR_LEN" "r_len r = n * SECTOR_LEN" using assms by (metis dvd_div_mult_self mod_0_imp_dvd)
  have d: "DIV_ROUND_UP (n * SECTOR_LEN) SECTOR_LEN = n" using div_round_up_mult [of n] by (simp add: mult.commute)
  have e: "(q * SECTOR_LEN + k * SECTOR_LEN) div SECTOR_LEN * SECTOR_LEN = q * SECTOR_LEN + k * SECTOR_LEN" for k
    by (simp add: SECTOR_LEN_def)
  show ?thesis unfolding q poke_sectors by (simp only: req_sectors_def q d fold_map o_def prod.case e)
qed

lemma write_io_sectors:
  assumes "aligned_reqs reqs"
  shows "write_io m reqs f = fold (\<lambda>(p, a) f. poke f (p * SECTOR_LEN) (peek m a SECTOR_LEN)) (sectors_of reqs) f"
  using assms
proof (induction reqs arbitrary: f)
  case (Cons r rs)
  have "write_io m (r # rs) f = write_io m rs (poke f (r_offset r) (peek m (r_buf r) (r_len r)))" by (simp add: write_io_def)
  with Cons show ?case by (simp add: aligned_reqs_def write_one)
qed (simp add: write_io_def)

lemma block_aligned: "block_reqs ws \<Longrightarrow> aligned_reqs ws"
  by (auto simp: block_reqs_def aligned_reqs_def in_set_conv_nth)

text \<open>C40: the coalesced writes put the same bytes on disk and the same pages in the cache, in
  the same order, as the page-sized writes they replace.\<close>

theorem merge_writes_equivalent:
  assumes "block_reqs ws"
  shows "write_io m (merge_writes SECTOR_LEN ws) f = write_io m ws f \<and>
    wbc_write m (merge_writes SECTOR_LEN ws) st = wbc_write m ws st"
proof
  show "write_io m (merge_writes SECTOR_LEN ws) f = write_io m ws f"
    using write_io_sectors [OF merge_writes_spec(2) [OF assms]] write_io_sectors [OF block_aligned [OF assms]]
      merge_writes_spec(1) [OF assms] by simp
  show "wbc_write m (merge_writes SECTOR_LEN ws) st = wbc_write m ws st"
    by (simp add: wbc_write_def merge_writes_spec(1) [OF assms])
qed

theorem merge_writes_equivalent_witness:
  "write_io (\<lambda>_. 7) (merge_writes SECTOR_LEN [demo_req 3 0, demo_req 4 SECTOR_LEN, demo_req 9 (2 * SECTOR_LEN)]) (\<lambda>_. 0) =
    write_io (\<lambda>_. 7) [demo_req 3 0, demo_req 4 SECTOR_LEN, demo_req 9 (2 * SECTOR_LEN)] (\<lambda>_. 0)"
proof -
  have "block_reqs [demo_req 3 0, demo_req 4 SECTOR_LEN, demo_req 9 (2 * SECTOR_LEN)]"
    unfolding block_reqs_def by (simp add: demo_req_def SECTOR_LEN_def less_Suc_eq)
  from merge_writes_equivalent [OF this] show ?thesis by blast
qed

end
