(* ===== verification/Insert_Rewrite.thy ===== *)
theory Insert_Rewrite imports Insert_Writes Loc_Alloc begin

text \<open>
  The rewriting step of an insert: the pages it reads land in buffers that do not overlap, the new
  records are written into their slots, every other record of a page stays what it was, and
  the write-back makes exactly that visible.
\<close>

section \<open>Records in buffers and pages\<close>

definition view_rec :: "geom \<Rightarrow> (nat \<Rightarrow> byte list) \<Rightarrow> nat \<Rightarrow> node_rec" where
  "view_rec g w l = (loc_coords g w l, loc_nbrs g w l)"

definition addr_rec :: "geom \<Rightarrow> mem \<Rightarrow> nat \<Rightarrow> node_rec" where
  "addr_rec g m a = (node_coords g m a, node_nbrs g m a)"

lemma length_addr_rec: "length (snd (addr_rec g m a)) = get32 m (a + vec_bytes g)"
  by (simp add: addr_rec_def node_nbrs_alt)

lemma addr_rec_cong:
  assumes "peek m a (max_node_len g) = peek m' a' (max_node_len g)" "wf_geom g" "length (snd (addr_rec g m a)) \<le> max_nbrs g"
  shows "addr_rec g m' a' = addr_rec g m a"
  using slot_cong(1,3) [OF assms(1,2)] assms(3) by (simp add: addr_rec_def)

lemma page_slot_peek:
  assumes "wf_geom g" "length p = SECTOR_LEN" "peek m base SECTOR_LEN = p"
  shows "peek m (offset_to_loc g base l) (max_node_len g) = peek (page_mem p) (offset_to_loc g 0 l) (max_node_len g)"
proof -
  let ?o = "offset_to_loc g 0 l"
  have o: "offset_to_loc g base l = base + ?o" by (simp add: offset_to_loc_def)
  have fit: "?o + max_node_len g \<le> SECTOR_LEN" using slot_fits [OF assms(1), of 0 l] by simp
  have "peek m (base + ?o) (max_node_len g) = take (max_node_len g) (drop ?o (peek m base SECTOR_LEN))"
    using peek_sub [OF fit] by simp
  then show ?thesis unfolding o assms(3) using fit assms(2)
    by (auto simp: list_eq_iff_nth_eq peek_nth page_mem_def)
qed

lemma view_rec_page: "view_rec g w l = addr_rec g (page_mem (w (loc_sector_no g l))) (offset_to_loc g 0 l)"
  by (simp add: view_rec_def addr_rec_def loc_coords_def loc_nbrs_def)

lemma page_rec:
  assumes "wf_geom g" "length (w (loc_sector_no g l)) = SECTOR_LEN" "peek m base SECTOR_LEN = w (loc_sector_no g l)"
  shows "length (snd (view_rec g w l)) \<le> max_nbrs g \<Longrightarrow> addr_rec g m (offset_to_loc g base l) = view_rec g w l"
    and "length (snd (addr_rec g m (offset_to_loc g base l))) \<le> max_nbrs g \<Longrightarrow> view_rec g w l = addr_rec g m (offset_to_loc g base l)"
  using addr_rec_cong [OF page_slot_peek [OF assms, symmetric] assms(1)] addr_rec_cong [OF page_slot_peek [OF assms] assms(1)]
  unfolding view_rec_page by blast+

section \<open>The buffers\<close>

lemma page_req_page: "p < 4294967296 \<Longrightarrow> r_offset (page_req g p b) div SECTOR_LEN = p"
  by (simp add: page_req_def u64_id SECTOR_LEN_def)

lemma length_nbr_reqs [simp]: "length (nbr_reqs g U ps) = length ps"
  by (simp add: nbr_reqs_def)

lemma nbr_reqs_nth: "k < length ps \<Longrightarrow> nbr_reqs g U ps ! k = page_req g (ps ! k) (U + k * size_per_io g)"
  by (simp add: nbr_reqs_def)

lemma plan_reqs: "nbr_reqs g U sectors @ write_reqs g U (length sectors) pages = nbr_reqs g U (sectors @ pages)"
  by (rule nth_equalityI) (auto simp: nth_append nbr_reqs_nth write_reqs_def nbr_reqs_def)

lemma page_bufs_some:
  assumes "page_buf_map (nbr_reqs g U ps) p = Some a" "\<forall>p \<in> set ps. p < 4294967296" "size_per_io g = SECTOR_LEN"
  shows "\<exists>k < length ps. ps ! k = p \<and> a = U + k * SECTOR_LEN"
proof -
  from assms(1) have "(p, a) \<in> set (map (\<lambda>r. (u32 (r_offset r div SECTOR_LEN), r_buf r)) (nbr_reqs g U ps))"
    unfolding page_buf_map_def by (metis map_of_SomeD set_rev)
  then obtain k where k: "k < length ps" "(p, a) = (u32 (r_offset (nbr_reqs g U ps ! k) div SECTOR_LEN), r_buf (nbr_reqs g U ps ! k))"
    by (auto simp: in_set_conv_nth)
  have "ps ! k < 4294967296" using assms(2) k(1) by simp
  then have "p = ps ! k" using k by (simp add: nbr_reqs_nth page_req_page u32_id)
  moreover have "a = U + k * SECTOR_LEN" using k by (simp add: nbr_reqs_nth page_req_def assms(3))
  ultimately show ?thesis using k(1) by blast
qed

lemma page_bufs_dom:
  assumes "p \<in> set ps" "\<forall>p \<in> set ps. p < 4294967296"
  shows "\<exists>a. page_buf_map (nbr_reqs g U ps) p = Some a"
proof -
  obtain k where k: "k < length ps" "ps ! k = p" using assms(1) by (auto simp: in_set_conv_nth)
  have p: "p < 4294967296" using assms by blast
  have "nbr_reqs g U ps ! k \<in> set (nbr_reqs g U ps)" using k(1) by (intro nth_mem) simp
  moreover have "u32 (r_offset (nbr_reqs g U ps ! k) div SECTOR_LEN) = p" using k p by (simp add: nbr_reqs_nth page_req_page u32_id)
  ultimately have "p \<in> fst ` set (map (\<lambda>r. (u32 (r_offset r div SECTOR_LEN), r_buf r)) (nbr_reqs g U ps))" by force
  then have "page_buf_map (nbr_reqs g U ps) p \<noteq> None" unfolding page_buf_map_def by (simp add: map_of_eq_None_iff del: set_map)
  then show ?thesis by blast
qed

text \<open>A page to write has its write buffer, even when it is read for a neighbor as well.\<close>

lemma page_bufs_write:
  assumes "p \<in> set pages" "\<forall>p \<in> set (sectors @ pages). p < 4294967296" "size_per_io g = SECTOR_LEN"
  shows "\<exists>k < length pages. pages ! k = p \<and>
    page_buf_map (nbr_reqs g U (sectors @ pages)) p = Some (U + (length sectors + k) * SECTOR_LEN)"
proof -
  let ?key = "\<lambda>r. (u32 (r_offset r div SECTOR_LEN), r_buf r)"
  let ?n = "length sectors"
  have w: "write_reqs g U ?n pages = nbr_reqs g (U + ?n * SECTOR_LEN) pages"
    by (rule nth_equalityI) (auto simp: nbr_reqs_nth write_reqs_def assms(3) add_mult_distrib add.assoc)
  have e: "page_buf_map (nbr_reqs g U (sectors @ pages)) =
      page_buf_map (nbr_reqs g U sectors) ++ page_buf_map (nbr_reqs g (U + ?n * SECTOR_LEN) pages)"
    by (simp add: page_buf_map_def plan_reqs [symmetric] w)
  have ps: "\<forall>p \<in> set pages. p < 4294967296" using assms(2) by simp
  from page_bufs_dom [OF assms(1) ps] obtain a where a: "page_buf_map (nbr_reqs g (U + ?n * SECTOR_LEN) pages) p = Some a" by blast
  from page_bufs_some [OF a ps assms(3)] obtain k where k: "k < length pages" "pages ! k = p" "a = U + ?n * SECTOR_LEN + k * SECTOR_LEN" by blast
  then show ?thesis using a e by (intro exI [of _ k]) (simp add: add_mult_distrib add.assoc)
qed

text \<open>The slot of a location in the buffer of its page.\<close>

definition slot_addr :: "geom \<Rightarrow> (nat \<Rightarrow> nat option) \<Rightarrow> nat \<Rightarrow> nat" where
  "slot_addr g bufs l = offset_to_loc g (the (bufs (loc_sector_no g l))) l"

definition bufs_apart :: "(nat \<Rightarrow> nat option) \<Rightarrow> bool" where
  "bufs_apart bufs \<longleftrightarrow> (\<forall>p q a b. bufs p = Some a \<longrightarrow> bufs q = Some b \<longrightarrow> p \<noteq> q \<longrightarrow> a + SECTOR_LEN \<le> b \<or> b + SECTOR_LEN \<le> a)"

lemma page_bufs_apart:
  assumes "\<forall>p \<in> set ps. p < 4294967296" "size_per_io g = SECTOR_LEN"
  shows "bufs_apart (page_buf_map (nbr_reqs g U ps))"
  unfolding bufs_apart_def
proof (intro allI impI)
  fix p q a b
  assume a: "page_buf_map (nbr_reqs g U ps) p = Some a" and b: "page_buf_map (nbr_reqs g U ps) q = Some b" and ne: "p \<noteq> q"
  from page_bufs_some [OF a assms] obtain k where k: "ps ! k = p" "a = U + k * SECTOR_LEN" by blast
  from page_bufs_some [OF b assms] obtain j where j: "ps ! j = q" "b = U + j * SECTOR_LEN" by blast
  have "k \<noteq> j" using k j ne by blast
  moreover have "x < y \<Longrightarrow> x * SECTOR_LEN + SECTOR_LEN \<le> y * SECTOR_LEN" for x y :: nat
    using mult_le_mono1 [of "Suc x" y SECTOR_LEN] by simp
  ultimately show "a + SECTOR_LEN \<le> b \<or> b + SECTOR_LEN \<le> a" using k(2) j(2) by (metis add.assoc linorder_neqE_nat nat_add_left_cancel_le)
qed

definition has_buf :: "geom \<Rightarrow> (nat \<Rightarrow> nat option) \<Rightarrow> nat \<Rightarrow> bool" where
  "has_buf g bufs l \<longleftrightarrow> l < 4294967280 \<and> bufs (loc_sector_no g l) \<noteq> None"

lemma slots_apart:
  assumes "wf_geom g" "bufs_apart bufs" "has_buf g bufs l" "has_buf g bufs l'" "l \<noteq> l'"
  shows "slot_addr g bufs l + max_node_len g \<le> slot_addr g bufs l' \<or> slot_addr g bufs l' + max_node_len g \<le> slot_addr g bufs l"
proof -
  let ?n = "nnodes_per_sector g"
  obtain a where a: "bufs (loc_sector_no g l) = Some a" using assms(3) by (auto simp: has_buf_def)
  obtain b where b: "bufs (loc_sector_no g l') = Some b" using assms(4) by (auto simp: has_buf_def)
  show ?thesis
  proof (cases "loc_sector_no g l = loc_sector_no g l'")
    case True
    then have "l div ?n = l' div ?n"
      using loc_sector_small [OF assms(1)] assms(3,4) by (simp add: has_buf_def)
    then have "l mod ?n \<noteq> l' mod ?n" using assms(5) by (metis div_mult_mod_eq)
    from slots_disjoint [OF assms(1) this] show ?thesis using True by (simp add: slot_addr_def)
  next
    case False
    with assms(2) a b have "a + SECTOR_LEN \<le> b \<or> b + SECTOR_LEN \<le> a" unfolding bufs_apart_def by blast
    then show ?thesis
      using slot_fits [OF assms(1), of a l] slot_fits [OF assms(1), of b l'] a b by (simp add: slot_addr_def) linarith
  qed
qed

text \<open>A record written in its slot, and nothing else.\<close>

definition stored :: "geom \<Rightarrow> (nat \<Rightarrow> nat option) \<Rightarrow> mem \<Rightarrow> nat \<Rightarrow> node_rec \<Rightarrow> mem \<Rightarrow> bool" where
  "stored g bufs m l r m' \<longleftrightarrow> addr_rec g m' (slot_addr g bufs l) = r \<and>
     (\<forall>x. x < slot_addr g bufs l \<or> slot_addr g bufs l + max_node_len g \<le> x \<longrightarrow> m' x = m x)"

lemma stored_other:
  assumes "wf_geom g" "bufs_apart bufs" "has_buf g bufs l" "stored g bufs m l r m'" "has_buf g bufs l'" "l' \<noteq> l"
  shows "peek m' (slot_addr g bufs l') (max_node_len g) = peek m (slot_addr g bufs l') (max_node_len g)"
proof (rule peek_cong)
  fix x assume "slot_addr g bufs l' \<le> x" "x < slot_addr g bufs l' + max_node_len g"
  with slots_apart [OF assms(1,2,3,5)] assms(4,6) show "m' x = m x" unfolding stored_def by force
qed

lemma store_stored:
  assumes "wf_geom g" "rec_ok g r" "m' = store_node g m (open_node g m0 i (slot_addr g bufs l)) (fst r) (snd r)"
  shows "stored g bufs m l r m'"
proof -
  have r: "length (fst r) = vec_bytes g" "length (snd r) \<le> max_nbrs g" "map u32 (snd r) = snd r"
    using assms(2) by (auto simp: rec_ok_def u32_id intro!: map_idI)
  have small: "length (snd r) < 4294967296" using r(2) max_nbrs_less [OF assms(1)] by simp
  have fit: "vec_bytes g + 4 + 4 * length (snd r) \<le> max_node_len g" by (rule node_fits [OF assms(1) r(2)])
  have e: "m' = store_node g m (open_node g m i (slot_addr g bufs l)) (fst r) (snd r)"
    unfolding assms(3) by (simp add: store_node_def open_node_def DiskNode_def Let_def)
  have "m' x = m x" if "x < slot_addr g bufs l \<or> slot_addr g bufs l + max_node_len g \<le> x" for x
    unfolding e by (rule store_node_frame [OF r(1)]) (use that fit in linarith)
  moreover have "addr_rec g m' (slot_addr g bufs l) = r"
    using store_node_same [OF r(1), where m = m and i = i and b = "slot_addr g bufs l" and nhood = "snd r"] small r(3)
    by (simp add: e addr_rec_def prod_eq_iff)
  ultimately show ?thesis by (simp add: stored_def)
qed

lemma poke_commute: "a + length xs \<le> b \<or> b + length ys \<le> a \<Longrightarrow> poke (poke m a xs) b ys = poke (poke m b ys) a xs"
  by (rule ext) (auto simp: poke_def)

lemma loc_sector_u32: "wf_geom g \<Longrightarrow> l < 4294967280 \<Longrightarrow> u32 (loc_sector_no g l) = loc_sector_no g l \<and> loc_sector_no g l < 4294967296"
proof -
  assume a: "wf_geom g" "l < 4294967280"
  have "l div nnodes_per_sector g < 4294967280" using a(2) by (rule le_less_trans [OF div_le_dividend])
  then show ?thesis using loc_sector_small [OF a(1), of l] a(2) by (simp add: u32_id)
qed

lemma slot_addr_bufs: "wf_geom g \<Longrightarrow> has_buf g bufs l \<Longrightarrow>
    \<exists>a. bufs (u32 (loc_sector_no g l)) = Some a \<and> slot_addr g bufs l = offset_to_loc g a l"
  using loc_sector_u32 [of g l] by (auto simp: has_buf_def slot_addr_def)

section \<open>One neighbor\<close>

lemma update_nbr_spec:
  assumes wf: "wf_geom g" and g_def: "g = sx_g s" and ap: "bufs_apart bufs" and hb: "has_buf g bufs r_loc" "has_buf g bufs w_loc" "r_loc \<noteq> w_loc"
    and r: "id2loc_map (sx_lm s) nb = Some r_loc" "addr_rec g m (slot_addr g bufs r_loc) = old"
    and l: "new_nbrs dp (sx_pq s) (sx_data s) (sx_cfg s) target_id nb (snd old) = Inr l" "rec_ok g (fst old, l)"
  shows "\<exists>m'. update_nbr dp s target_id bufs (nb, w_loc) m = Inr m' \<and> stored g bufs m w_loc (fst old, l) m'"
proof -
  let ?v = "vec_bytes g"
  define A where "A = slot_addr g bufs w_loc"
  define R where "R = slot_addr g bufs r_loc"
  obtain a where a: "bufs (u32 (loc_sector_no g r_loc)) = Some a" "offset_to_loc g a r_loc = R"
    using slot_addr_bufs [OF wf hb(1)] by (auto simp: R_def)
  obtain b where b: "bufs (u32 (loc_sector_no g w_loc)) = Some b" "offset_to_loc g b w_loc = A"
    using slot_addr_bufs [OF wf hb(2)] by (auto simp: A_def)
  have apart: "R + max_node_len g \<le> A \<or> A + max_node_len g \<le> R" using slots_apart [OF wf ap hb] by (simp add: A_def R_def)
  have v: "?v + 4 \<le> max_node_len g" using wf by (simp add: wf_geom_def)
  have old: "fst old = peek m R ?v" "snd old = get32s m (dn_nbrs (open_node g m nb R)) (dn_nnbrs (open_node g m nb R))"
    using r(2) by (auto simp: addr_rec_def node_coords_def offset_to_node_coords_def open_node_nbrs R_def)
  define m1 where "m1 = put32 m (A + ?v) (length l)"
  have coords: "peek m1 R ?v = peek m R ?v"
    unfolding m1_def put32_def by (rule peek_poke_disjoint) (use apart v in auto)
  have comm: "poke m1 A (peek m R ?v) = put32 (poke m A (peek m R ?v)) (A + ?v) (length l)"
    unfolding m1_def put32_def by (rule poke_commute) simp
  define m' where "m' = store_node g m (open_node g m nb A) (peek m R ?v) l"
  have "update_nbr dp s target_id bufs (nb, w_loc) m = Inr m'"
    using a b l(1) [unfolded old(2)] coords comm r(1)
    by (simp add: update_nbr_def g_def [symmetric] id2loc_def m'_def store_node_def open_node_def DiskNode_def Let_def
        offset_to_node_nhood_def offset_to_node_coords_def m1_def)
  moreover have "stored g bufs m w_loc (fst old, l) m'"
    by (rule store_stored [OF wf l(2)]) (simp add: m'_def old(1) A_def)
  ultimately show ?thesis by blast
qed

section \<open>All neighbors\<close>

lemma update_nbrs_spec:
  assumes wf: "wf_geom g" and g_def: "g = sx_g s" and ap: "bufs_apart bufs"
    and "length nbs \<le> length ws" "distinct ws" "\<forall>w \<in> set ws. has_buf g bufs w"
    and "\<forall>nb \<in> set nbs. id2loc_map (sx_lm s) nb = Some (rl nb) \<and> has_buf g bufs (rl nb) \<and> rl nb \<notin> set ws \<and>
      addr_rec g m (slot_addr g bufs (rl nb)) = old nb \<and> length (snd (old nb)) \<le> max_nbrs g \<and>
      new_nbrs dp (sx_pq s) (sx_data s) (sx_cfg s) target_id nb (snd (old nb)) = Inr (nl nb) \<and> rec_ok g (fst (old nb), nl nb)"
  shows "\<exists>m'. foldE (update_nbr dp s target_id bufs) (zip nbs ws) m = Inr m' \<and>
    (\<forall>(nb, w) \<in> set (zip nbs ws). addr_rec g m' (slot_addr g bufs w) = (fst (old nb), nl nb)) \<and>
    (\<forall>l. has_buf g bufs l \<longrightarrow> l \<notin> set (take (length nbs) ws) \<longrightarrow>
       peek m' (slot_addr g bufs l) (max_node_len g) = peek m (slot_addr g bufs l) (max_node_len g))"
  using assms(4-)
proof (induction nbs arbitrary: ws m)
  case (Cons nb nbs)
  then obtain w ws' where ws: "ws = w # ws'" by (cases ws) auto
  have h: "id2loc_map (sx_lm s) nb = Some (rl nb)" "has_buf g bufs (rl nb)" "rl nb \<noteq> w" "has_buf g bufs w"
      "addr_rec g m (slot_addr g bufs (rl nb)) = old nb"
      "new_nbrs dp (sx_pq s) (sx_data s) (sx_cfg s) target_id nb (snd (old nb)) = Inr (nl nb)" "rec_ok g (fst (old nb), nl nb)"
    using Cons.prems(3,4) ws by auto
  from update_nbr_spec [OF wf g_def ap h(2,4,3,1,5,6,7)] obtain m1 where
    m1: "update_nbr dp s target_id bufs (nb, w) m = Inr m1" "stored g bufs m w (fst (old nb), nl nb) m1" by blast
  have other: "peek m1 (slot_addr g bufs l) (max_node_len g) = peek m (slot_addr g bufs l) (max_node_len g)"
    if "has_buf g bufs l" "l \<noteq> w" for l by (rule stored_other [OF wf ap h(4) m1(2) that])
  have "\<forall>nb \<in> set nbs. id2loc_map (sx_lm s) nb = Some (rl nb) \<and> has_buf g bufs (rl nb) \<and> rl nb \<notin> set ws' \<and>
      addr_rec g m1 (slot_addr g bufs (rl nb)) = old nb \<and> length (snd (old nb)) \<le> max_nbrs g \<and>
      new_nbrs dp (sx_pq s) (sx_data s) (sx_cfg s) target_id nb (snd (old nb)) = Inr (nl nb) \<and> rec_ok g (fst (old nb), nl nb)"
  proof
    fix k assume "k \<in> set nbs"
    with Cons.prems(4) have k: "id2loc_map (sx_lm s) k = Some (rl k)" "has_buf g bufs (rl k)" "rl k \<notin> set ws"
        "addr_rec g m (slot_addr g bufs (rl k)) = old k" "length (snd (old k)) \<le> max_nbrs g"
        "new_nbrs dp (sx_pq s) (sx_data s) (sx_cfg s) target_id k (snd (old k)) = Inr (nl k)" "rec_ok g (fst (old k), nl k)" by auto
    have "rl k \<noteq> w" using k(3) ws by auto
    have l: "length (snd (addr_rec g m (slot_addr g bufs (rl k)))) \<le> max_nbrs g" using k(4,5) by simp
    from addr_rec_cong [OF other [OF k(2) \<open>rl k \<noteq> w\<close>, symmetric] wf l] k ws
    show "id2loc_map (sx_lm s) k = Some (rl k) \<and> has_buf g bufs (rl k) \<and> rl k \<notin> set ws' \<and>
      addr_rec g m1 (slot_addr g bufs (rl k)) = old k \<and> length (snd (old k)) \<le> max_nbrs g \<and>
      new_nbrs dp (sx_pq s) (sx_data s) (sx_cfg s) target_id k (snd (old k)) = Inr (nl k) \<and> rec_ok g (fst (old k), nl k)" by simp
  qed
  moreover have "length nbs \<le> length ws'" "distinct ws'" "\<forall>w \<in> set ws'. has_buf g bufs w" using Cons.prems(1-3) ws by auto
  ultimately obtain m' where m': "foldE (update_nbr dp s target_id bufs) (zip nbs ws') m1 = Inr m'"
      "\<forall>(nb, w) \<in> set (zip nbs ws'). addr_rec g m' (slot_addr g bufs w) = (fst (old nb), nl nb)"
      "\<forall>l. has_buf g bufs l \<longrightarrow> l \<notin> set (take (length nbs) ws') \<longrightarrow>
         peek m' (slot_addr g bufs l) (max_node_len g) = peek m1 (slot_addr g bufs l) (max_node_len g)"
    using Cons.IH [of ws' m1] by blast
  have w: "w \<notin> set (take (length nbs) ws')" using Cons.prems(2) ws set_take_subset [of "length nbs" ws'] by auto
  have "length (snd (addr_rec g m1 (slot_addr g bufs w))) \<le> max_nbrs g" "addr_rec g m1 (slot_addr g bufs w) = (fst (old nb), nl nb)"
    using m1(2) h(7) by (simp_all add: stored_def rec_ok_def)
  then have "addr_rec g m' (slot_addr g bufs w) = (fst (old nb), nl nb)"
    using addr_rec_cong [OF m'(3) [rule_format, OF h(4) w, symmetric] wf] by simp
  then show ?case using m1(1) m' other ws by auto
qed simp

section \<open>Reading and rewriting\<close>

text \<open>What the plan of an insert has to satisfy: the neighbors' records are elsewhere than the slots to be written,
  and a page that holds one of them is read before it is written.\<close>

definition insert_plan :: "ssd \<Rightarrow> nat list \<Rightarrow> nat list \<Rightarrow> nat set \<Rightarrow> bool" where
  "insert_plan s nhood locs need \<longleftrightarrow> wf_geom (sx_g s) \<and> cache_inv (sx_cache s) \<and>
     (\<forall>p. pins (sx_cache s) p + (2 * MAX_N_EDGES + 2) < 18446744073709551616) \<and> length nhood \<le> MAX_N_EDGES \<and>
     length locs = Suc (length nhood) \<and> distinct locs \<and> (\<forall>l \<in> set locs. l < 4294967280) \<and>
     (\<forall>nb \<in> set nhood. \<exists>l < 4294967280. id2loc_map (sx_lm s) nb = Some l \<and> l \<notin> set locs \<and>
        (loc_sector_no (sx_g s) l \<in> loc_sector_no (sx_g s) ` set locs \<longrightarrow> loc_sector_no (sx_g s) l \<in> need))"

definition nbr_loc :: "ssd \<Rightarrow> nat \<Rightarrow> nat" where
  "nbr_loc s nb = the (id2loc_map (sx_lm s) nb)"

definition old_rec :: "ssd \<Rightarrow> nat \<Rightarrow> node_rec" where
  "old_rec s nb = view_rec (sx_g s) (view_of s) (nbr_loc s nb)"

definition plan_pages :: "ssd \<Rightarrow> nat list \<Rightarrow> nat list \<Rightarrow> nat list" where
  "plan_pages s nhood locs = map (\<lambda>nb. loc_sector_no (sx_g s) (nbr_loc s nb)) nhood @ rmw_pages (sx_g s) locs"

text \<open>The new lists of the neighbors, and the new node's own.\<close>

definition new_lists :: "bool \<Rightarrow> ssd \<Rightarrow> nat \<Rightarrow> nat list \<Rightarrow> (nat \<Rightarrow> nat list) \<Rightarrow> bool" where
  "new_lists dp s target_id nhood nl \<longleftrightarrow> length nhood \<le> max_nbrs (sx_g s) \<and> (\<forall>nb \<in> set nhood. nb < 4294967296) \<and>
     (\<forall>nb \<in> set nhood. length (snd (old_rec s nb)) \<le> max_nbrs (sx_g s) \<and>
        new_nbrs dp (sx_pq s) (sx_data s) (sx_cfg s) target_id nb (snd (old_rec s nb)) = Inr (nl nb) \<and>
        length (nl nb) \<le> max_nbrs (sx_g s) \<and> (\<forall>x \<in> set (nl nb). x < 4294967296))"

lemma insert_planD:
  assumes "insert_plan s nhood locs need"
  shows "wf_geom (sx_g s)" "cache_inv (sx_cache s)" "pins (sx_cache s) p + (2 * MAX_N_EDGES + 2) < 18446744073709551616"
    "length nhood \<le> MAX_N_EDGES" "length locs = Suc (length nhood)" "distinct locs" "l \<in> set locs \<Longrightarrow> l < 4294967280"
    and "nb \<in> set nhood \<Longrightarrow> id2loc_map (sx_lm s) nb = Some (nbr_loc s nb)" "nb \<in> set nhood \<Longrightarrow> nbr_loc s nb < 4294967280"
      "nb \<in> set nhood \<Longrightarrow> nbr_loc s nb \<notin> set locs"
      "nb \<in> set nhood \<Longrightarrow> loc_sector_no (sx_g s) (nbr_loc s nb) \<in> loc_sector_no (sx_g s) ` set locs \<Longrightarrow>
        loc_sector_no (sx_g s) (nbr_loc s nb) \<in> need"
  using assms unfolding insert_plan_def nbr_loc_def by fastforce+

lemma plan_pages_small:
  assumes "insert_plan s nhood locs need"
  shows "\<forall>p \<in> set (plan_pages s nhood locs). p < 4294967296" "length (plan_pages s nhood locs) \<le> 2 * MAX_N_EDGES + 1"
    "set (rmw_pages (sx_g s) locs) = loc_sector_no (sx_g s) ` set locs" "distinct (rmw_pages (sx_g s) locs)"
proof -
  note d = insert_planD [OF assms]
  show r: "set (rmw_pages (sx_g s) locs) = loc_sector_no (sx_g s) ` set locs" "distinct (rmw_pages (sx_g s) locs)"
    by (simp_all add: rmw_pages_def)
  show "\<forall>p \<in> set (plan_pages s nhood locs). p < 4294967296"
    using loc_sector_u32 [OF d(1)] d(7,9) by (auto simp: plan_pages_def r(1))
  have "length (rmw_pages (sx_g s) locs) = card (loc_sector_no (sx_g s) ` set locs)" using distinct_card [OF r(2)] r(1) by simp
  also have "\<dots> \<le> length locs" using card_image_le [of "set locs"] distinct_card [OF d(6)] by simp
  finally show "length (plan_pages s nhood locs) \<le> 2 * MAX_N_EDGES + 1" using d(4,5) by (simp add: plan_pages_def)
qed

text \<open>The requests sent are page requests with their own buffers.\<close>

lemma plan_sector_reqs:
  assumes "size_per_io g = SECTOR_LEN" "\<forall>p \<in> set ps. p < 4294967296"
  shows "sector_reqs (nbr_reqs g U ps)"
  unfolding sector_reqs_def
proof
  show "\<forall>r \<in> set (nbr_reqs g U ps). r_offset r mod SECTOR_LEN = 0 \<and> r_len r = SECTOR_LEN"
  proof
    fix r assume "r \<in> set (nbr_reqs g U ps)"
    then obtain k where k: "k < length ps" "r = page_req g (ps ! k) (U + k * SECTOR_LEN)"
      by (auto simp: in_set_conv_nth nbr_reqs_nth assms(1))
    have "ps ! k < 4294967296" using assms(2) k(1) by simp
    then show "r_offset r mod SECTOR_LEN = 0 \<and> r_len r = SECTOR_LEN"
      using assms(1) k(2) by (simp add: page_req_def u64_id SECTOR_LEN_def)
  qed
  have lt: "x < y \<Longrightarrow> x * SECTOR_LEN + SECTOR_LEN \<le> y * SECTOR_LEN" for x y :: nat
    using mult_le_mono1 [of "Suc x" y SECTOR_LEN] by simp
  have a: "U + i * SECTOR_LEN + SECTOR_LEN \<le> U + j * SECTOR_LEN" if "i < j" for i j using lt [OF that] by linarith
  show "sorted_wrt (\<lambda>r s. r_buf r + SECTOR_LEN \<le> r_buf s \<or> r_buf s + SECTOR_LEN \<le> r_buf r) (nbr_reqs g U ps)"
    unfolding sorted_wrt_iff_nth_less by (auto simp: nbr_reqs_nth page_req_def assms(1) dest: a)
qed

lemma sector_reqs_part:
  assumes "sector_reqs (xs @ ys)"
  shows "sector_reqs (xs @ filter P ys)"
  using assms unfolding sector_reqs_def by (auto simp: sorted_wrt_append intro: sorted_wrt_filter)

text \<open>A page of the plan that is read shows its content in its buffer.\<close>

lemma read_buffers:
  assumes plan: "insert_plan s nhood locs need" and g_def: "g = sx_g s" and U: "U = qb_update rd"
    and n: "n = length nhood"
    and sectors: "sectors = map (\<lambda>nb. loc_sector_no g (nbr_loc s nb)) nhood" and pages: "pages = rmw_pages g locs"
    and reads: "reads = nbr_reqs g U sectors @ filter (\<lambda>r. r_offset r div SECTOR_LEN \<in> need) (write_reqs g U n pages)"
    and bufs: "bufs = page_buf_map (nbr_reqs g U sectors @ write_reqs g U n pages)"
    and m: "\<forall>r \<in> set reads. peek m (r_buf r) SECTOR_LEN = view_of s (req_page r)"
    and p: "bufs p = Some a" "p \<in> set sectors \<or> p \<in> need"
  shows "peek m a SECTOR_LEN = view_of s p"
proof -
  have wf: "wf_geom g" using insert_planD(1) [OF plan] by (simp add: g_def)
  note spi = size_per_io_wf [OF wf]
  have ps: "sectors @ pages = plan_pages s nhood locs" by (simp add: plan_pages_def sectors pages g_def)
  note small = plan_pages_small(1) [OF plan, folded ps]
  have n': "n = length sectors" by (simp add: n sectors)
  have R: "nbr_reqs g U sectors @ write_reqs g U n pages = nbr_reqs g U (sectors @ pages)" unfolding n' by (rule plan_reqs)
  have b: "bufs = page_buf_map (nbr_reqs g U (sectors @ pages))" by (simp only: bufs R)
  show ?thesis
  proof (cases "p \<in> set pages")
    case True
    from page_bufs_write [OF this small spi, of U] obtain k where k: "k < length pages" "pages ! k = p"
      "bufs p = Some (U + (n + k) * SECTOR_LEN)" unfolding b n' by blast
    then have ka: "a = U + (n + k) * SECTOR_LEN" using p(1) by simp
    have need: "p \<in> need"
    proof (cases "p \<in> need")
      case False
      then obtain nb where "nb \<in> set nhood" "p = loc_sector_no g (nbr_loc s nb)" using p(2) by (auto simp: sectors)
      then show ?thesis using insert_planD(11) [OF plan, of nb] True plan_pages_small(3) [OF plan] by (simp add: g_def pages)
    qed
    have r: "write_reqs g U n pages ! k = page_req g p a" using k ka by (simp add: write_reqs_def spi)
    have "write_reqs g U n pages ! k \<in> set (write_reqs g U n pages)" using k(1) by (intro nth_mem) (simp add: write_reqs_def)
    moreover have pp: "r_offset (page_req g p a) div SECTOR_LEN = p" using small True by (intro page_req_page) simp
    ultimately have "page_req g p a \<in> set reads" using need r unfolding reads by simp
    from bspec [OF m this] show ?thesis unfolding pp by (simp add: page_req_def)
  next
    case False
    from page_bufs_some [OF p(1) [unfolded b] small spi] obtain k where
      k: "k < length (sectors @ pages)" "(sectors @ pages) ! k = p" "a = U + k * SECTOR_LEN" by blast
    have kn: "k < length sectors"
    proof (rule ccontr)
      assume "\<not> k < length sectors"
      then have "(sectors @ pages) ! k \<in> set pages" using k(1) by (simp add: nth_append)
      with k(2) False show False by simp
    qed
    then have r: "nbr_reqs g U sectors ! k = page_req g p a" using k by (simp add: nbr_reqs_nth spi nth_append)
    have "nbr_reqs g U sectors ! k \<in> set (nbr_reqs g U sectors)" using kn by (intro nth_mem) simp
    then have mem: "page_req g p a \<in> set reads" using r unfolding reads by simp
    have "p \<in> set (sectors @ pages)" using nth_mem [OF k(1)] k(2) by simp
    then have pp: "r_offset (page_req g p a) div SECTOR_LEN = p" using small by (intro page_req_page) blast
    from bspec [OF m mem] show ?thesis unfolding pp by (simp add: page_req_def)
  qed
qed

definition plan_bufs :: "ssd \<Rightarrow> nat \<Rightarrow> nat list \<Rightarrow> nat list \<Rightarrow> nat \<Rightarrow> nat option" where
  "plan_bufs s U nhood locs = page_buf_map (nbr_reqs (sx_g s) U (plan_pages s nhood locs))"

lemma plan_bufs_locs:
  assumes plan: "insert_plan s nhood locs need" and g_def: "g = sx_g s" and b_def: "bufs = plan_bufs s U nhood locs"
  shows "bufs_apart bufs" "l \<in> set locs \<Longrightarrow> has_buf g bufs l" "nb \<in> set nhood \<Longrightarrow> has_buf g bufs (nbr_loc s nb)"
proof -
  have wf: "wf_geom g" using insert_planD(1) [OF plan] by (simp add: g_def)
  note small = plan_pages_small [OF plan]
  show "bufs_apart bufs" unfolding b_def plan_bufs_def
    by (rule page_bufs_apart [OF small(1) size_per_io_wf]) (use wf g_def in simp)
  have dom: "p \<in> set (plan_pages s nhood locs) \<Longrightarrow> bufs p \<noteq> None" for p
    using page_bufs_dom [OF _ small(1), of p "sx_g s" U] unfolding b_def plan_bufs_def by blast
  show "l \<in> set locs \<Longrightarrow> has_buf g bufs l"
    using insert_planD(7) [OF plan] dom small(3) by (simp add: has_buf_def plan_pages_def g_def)
  show "nb \<in> set nhood \<Longrightarrow> has_buf g bufs (nbr_loc s nb)"
    using insert_planD(9) [OF plan] dom by (simp add: has_buf_def plan_pages_def g_def)
qed

lemma write_target_spec:
  assumes wf: "wf_geom g" and g_def: "g = sx_g s" and hb: "has_buf g bufs l"
    and r: "vec_bytes g \<le> length point" "length nhood \<le> max_nbrs g" "\<forall>nb \<in> set nhood. nb < 4294967296"
  shows "\<exists>m'. write_target s target_id point nhood l bufs m = Inr m' \<and>
    stored g bufs m l (take (vec_bytes g) point, nhood) m'"
proof -
  obtain b where b: "bufs (u32 (loc_sector_no g l)) = Some b" "slot_addr g bufs l = offset_to_loc g b l"
    using slot_addr_bufs [OF wf hb] by blast
  have "rec_ok g (take (vec_bytes g) point, nhood)" using r by (simp add: rec_ok_def)
  from store_stored [OF wf this refl, where m = m and ?m0.0 = m and i = target_id and bufs = bufs and l = l] b
  show ?thesis by (simp add: write_target_def g_def [symmetric] Let_def)
qed

lemma rewrite_nodes_spec:
  assumes plan: "insert_plan s nhood locs need" and g_def: "g = sx_g s" and U: "U = qb_update rd"
    and nl: "new_lists dp s target_id nhood nl" and pt: "vec_bytes g \<le> length point"
    and b_def: "bufs = plan_bufs s U nhood locs"
  shows "\<exists>refs c m. rewrite_nodes dp target_id point nhood locs need rd (page_ref, s) =
      Inr (merge_writes SECTOR_LEN (write_reqs g U (length nhood) (rmw_pages g locs)), page_ref @ refs, s\<lparr>sx_cache := c, sx_mem := m\<rparr>) \<and>
    cache_inv c \<and> page_view c (sx_file s) = view_of s \<and> pins c = (\<lambda>p. pins (sx_cache s) p + count_list refs p) \<and>
    length refs \<le> 2 * MAX_N_EDGES + 1 \<and> (nhood \<noteq> [] \<longrightarrow> refs \<noteq> []) \<and>
    addr_rec g m (slot_addr g bufs (last locs)) = (take (vec_bytes g) point, nhood) \<and>
    (\<forall>(nb, l) \<in> set (zip nhood locs). addr_rec g m (slot_addr g bufs l) = (fst (old_rec s nb), nl nb)) \<and>
    (\<forall>l. has_buf g bufs l \<longrightarrow> l \<notin> set locs \<longrightarrow> loc_sector_no g l \<in> need \<longrightarrow> length (snd (view_rec g (view_of s) l)) \<le> max_nbrs g \<longrightarrow>
       addr_rec g m (slot_addr g bufs l) = view_rec g (view_of s) l)"
proof -
  let ?n = "length nhood" and ?f = "sx_file s" and ?lm = "sx_lm s"
  note d = insert_planD [OF plan]
  have wf: "wf_geom g" using d(1) by (simp add: g_def)
  note spi = size_per_io_wf [OF wf] and small = plan_pages_small [OF plan] and bl = plan_bufs_locs [OF plan g_def b_def]
  define sectors where "sectors = map (\<lambda>nb. loc_sector_no g (nbr_loc s nb)) nhood"
  define pages where "pages = rmw_pages g locs"
  define reads where "reads = nbr_reqs g U sectors @ filter (\<lambda>r. r_offset r div SECTOR_LEN \<in> need) (write_reqs g U ?n pages)"
  have ps: "plan_pages s nhood locs = sectors @ pages" by (simp add: plan_pages_def sectors_def pages_def g_def)
  have n: "?n = length sectors" by (simp add: sectors_def)
  have R: "nbr_reqs g U sectors @ write_reqs g U ?n pages = nbr_reqs g U (sectors @ pages)" unfolding n by (rule plan_reqs)
  have bufs: "bufs = page_buf_map (nbr_reqs g U sectors @ write_reqs g U ?n pages)"
    by (rule b_def [unfolded plan_bufs_def ps, folded g_def, folded R])
  have sec: "mapE (node_sector_no g ?lm) nhood = Inr sectors"
    unfolding sectors_def by (rule mapE_total) (simp add: node_sector_no_def id2loc_def d(8))
  have sr: "sector_reqs reads" unfolding reads_def
    by (rule sector_reqs_part) (use plan_sector_reqs [OF spi small(1)] R ps in simp)
  have "length reads \<le> length (nbr_reqs g U sectors) + length (write_reqs g U ?n pages)"
    by (simp add: reads_def)
  also have "\<dots> = length (plan_pages s nhood locs)" by (simp add: ps write_reqs_def)
  finally have lr: "length reads \<le> 2 * MAX_N_EDGES + 1" using small(2) by simp
  have room: "\<forall>p. pins (sx_cache s) p + length reads < 18446744073709551616"
  proof
    fix p show "pins (sx_cache s) p + length reads < 18446744073709551616" using d(3) [of p] lr by linarith
  qed
  from read_alloc_spec [OF d(2) sr room, of ?f "sx_mem s" page_ref] obtain c m1 where
    rd: "read_alloc ?f reads (sx_cache s, sx_mem s, page_ref) = Inr (c, m1, page_ref @ map req_page reads)"
      "cache_inv c" "page_view c ?f = view_of s" "pins c = (\<lambda>p. pins (sx_cache s) p + count_list (map req_page reads) p)"
      "\<forall>r \<in> set reads. peek m1 (r_buf r) SECTOR_LEN = view_of s (req_page r)"
    unfolding view_of_def by blast
  have len: "length (view_of s p) = SECTOR_LEN" for p unfolding view_of_def by (rule page_view_length [OF d(2)])
  have rec1: "addr_rec g m1 (slot_addr g bufs l) = view_rec g (view_of s) l"
    if l: "has_buf g bufs l" "loc_sector_no g l \<in> set sectors \<or> loc_sector_no g l \<in> need" "length (snd (view_rec g (view_of s) l)) \<le> max_nbrs g" for l
  proof -
    obtain a where a: "bufs (loc_sector_no g l) = Some a" using l(1) by (auto simp: has_buf_def)
    have "peek m1 a SECTOR_LEN = view_of s (loc_sector_no g l)"
      by (rule read_buffers [OF plan g_def U refl sectors_def pages_def reads_def bufs rd(5) a l(2)])
    from page_rec(1) [OF wf len this l(3)] a show ?thesis by (simp add: slot_addr_def)
  qed
  note nl' = nl [unfolded new_lists_def]
  have last: "last locs = locs ! ?n" "last locs \<in> set locs" using d(5) by (auto simp: last_conv_nth simp flip: length_greater_0_conv)
  from write_target_spec [OF wf g_def bl(2) [OF last(2)] pt] nl' obtain m2 where
    m2: "write_target s target_id point nhood (last locs) bufs m1 = Inr m2"
      "stored g bufs m1 (last locs) (take (vec_bytes g) point, nhood) m2" unfolding g_def by blast
  have keep2: "peek m2 (slot_addr g bufs l) (max_node_len g) = peek m1 (slot_addr g bufs l) (max_node_len g)"
    if "has_buf g bufs l" "l \<noteq> last locs" for l
    by (rule stored_other [OF wf bl(1) bl(2) [OF last(2)] m2(2) that])
  define ws where "ws = take ?n locs"
  have zip: "zip nhood locs = zip nhood ws" using take_zip [of ?n nhood locs] by (simp add: ws_def)
  have locs: "set locs = insert (last locs) (set ws)" "last locs \<notin> set ws"
  proof -
    have e: "locs = ws @ [last locs]" using d(5) last(1) by (simp add: ws_def take_Suc_conv_app_nth [symmetric])
    show "set locs = insert (last locs) (set ws)" by (subst e) simp
    have "distinct (ws @ [last locs])" using d(6) e by simp
    then show "last locs \<notin> set ws" by simp
  qed
  have ws: "length nhood \<le> length ws" "distinct ws" "\<forall>w \<in> set ws. has_buf g bufs w"
    using d(5,6) bl(2) locs by (auto simp: ws_def)
  have old: "\<forall>nb \<in> set nhood. id2loc_map ?lm nb = Some (nbr_loc s nb) \<and> has_buf g bufs (nbr_loc s nb) \<and> nbr_loc s nb \<notin> set ws \<and>
      addr_rec g m2 (slot_addr g bufs (nbr_loc s nb)) = old_rec s nb \<and> length (snd (old_rec s nb)) \<le> max_nbrs g \<and>
      new_nbrs dp (sx_pq s) (sx_data s) (sx_cfg s) target_id nb (snd (old_rec s nb)) = Inr (nl nb) \<and> rec_ok g (fst (old_rec s nb), nl nb)"
  proof
    fix nb assume nb: "nb \<in> set nhood"
    have o: "old_rec s nb = view_rec g (view_of s) (nbr_loc s nb)" by (simp add: old_rec_def g_def)
    have l: "length (snd (old_rec s nb)) \<le> max_nbrs g" using nl' nb by (simp add: g_def)
    have "loc_sector_no g (nbr_loc s nb) \<in> set sectors" using nb by (simp add: sectors_def)
    then have r1: "addr_rec g m1 (slot_addr g bufs (nbr_loc s nb)) = old_rec s nb" using rec1 [OF bl(3) [OF nb]] l o by simp
    have ne: "nbr_loc s nb \<noteq> last locs" using d(10) [OF nb] last(2) by metis
    have "length (snd (addr_rec g m1 (slot_addr g bufs (nbr_loc s nb)))) \<le> max_nbrs g" using r1 l by simp
    from addr_rec_cong [OF keep2 [OF bl(3) [OF nb] ne, symmetric] wf this] r1
    have "addr_rec g m2 (slot_addr g bufs (nbr_loc s nb)) = old_rec s nb" by simp
    moreover have "rec_ok g (fst (old_rec s nb), nl nb)" using nl' nb by (simp add: rec_ok_def old_rec_def view_rec_def g_def)
    ultimately show "id2loc_map ?lm nb = Some (nbr_loc s nb) \<and> has_buf g bufs (nbr_loc s nb) \<and> nbr_loc s nb \<notin> set ws \<and>
      addr_rec g m2 (slot_addr g bufs (nbr_loc s nb)) = old_rec s nb \<and> length (snd (old_rec s nb)) \<le> max_nbrs g \<and>
      new_nbrs dp (sx_pq s) (sx_data s) (sx_cfg s) target_id nb (snd (old_rec s nb)) = Inr (nl nb) \<and> rec_ok g (fst (old_rec s nb), nl nb)"
      using nb nl' d(8) d(10) [OF nb] bl(3) [OF nb] l locs(1) by simp
  qed
  from update_nbrs_spec [OF wf g_def bl(1) ws old] obtain m3 where
    m3: "foldE (update_nbr dp s target_id bufs) (zip nhood ws) m2 = Inr m3"
      "\<forall>(nb, w) \<in> set (zip nhood ws). addr_rec g m3 (slot_addr g bufs w) = (fst (old_rec s nb), nl nb)"
      "\<forall>l. has_buf g bufs l \<longrightarrow> l \<notin> set (take (length nhood) ws) \<longrightarrow>
        peek m3 (slot_addr g bufs l) (max_node_len g) = peek m2 (slot_addr g bufs l) (max_node_len g)" by blast
  have tw: "take (length nhood) ws = ws" using d(5) by (simp add: ws_def)
  have lr2: "length (map req_page reads) \<le> 2 * MAX_N_EDGES + 1" using lr by simp
  have ne: "nhood \<noteq> [] \<longrightarrow> map req_page reads \<noteq> []" by (auto simp: reads_def sectors_def nbr_reqs_def)
  have target: "addr_rec g m3 (slot_addr g bufs (last locs)) = (take (vec_bytes g) point, nhood)"
  proof -
    have r: "addr_rec g m2 (slot_addr g bufs (last locs)) = (take (vec_bytes g) point, nhood)" using m2(2) by (simp add: stored_def)
    then have "length (snd (addr_rec g m2 (slot_addr g bufs (last locs)))) \<le> max_nbrs g" using nl' by (simp add: g_def)
    with addr_rec_cong [OF m3(3) [rule_format, OF bl(2) [OF last(2)], unfolded tw, OF locs(2), symmetric] wf] r show ?thesis by simp
  qed
  have rest: "addr_rec g m3 (slot_addr g bufs l) = view_rec g (view_of s) l"
    if l: "has_buf g bufs l" "l \<notin> set locs" "loc_sector_no g l \<in> need" "length (snd (view_rec g (view_of s) l)) \<le> max_nbrs g" for l
  proof -
    have r: "addr_rec g m1 (slot_addr g bufs l) = view_rec g (view_of s) l" using rec1 l by blast
    have n2: "l \<noteq> last locs" "l \<notin> set ws" using l(2) locs(1) by auto
    have "peek m3 (slot_addr g bufs l) (max_node_len g) = peek m1 (slot_addr g bufs l) (max_node_len g)"
      using m3(3) [rule_format, OF l(1), unfolded tw, OF n2(2)] keep2 [OF l(1) n2(1)] by simp
    from addr_rec_cong [OF this [symmetric] wf] r l(4) show ?thesis by simp
  qed
  have alloc: "\<not> update_alloc_size < (?n + length pages) * size_per_io g"
  proof -
    have "?n + length pages \<le> 2 * MAX_N_EDGES + 1" using small(2) by (simp add: ps n)
    from mult_le_mono1 [OF this, of SECTOR_LEN] show ?thesis unfolding spi update_alloc_size_def by linarith
  qed
  have "rewrite_nodes dp target_id point nhood locs need rd (page_ref, s) =
      Inr (merge_writes SECTOR_LEN (write_reqs g U ?n pages), page_ref @ map req_page reads, s\<lparr>sx_cache := c, sx_mem := m3\<rparr>)"
    unfolding rewrite_nodes_def prod.case Let_def g_def [symmetric] pages_def [symmetric] sec U [symmetric] bindE.simps
      bufs [symmetric] reads_def [symmetric] if_not_P [OF alloc] rd(1) last(1) [symmetric] m2(1) zip m3(1) unfolding spi ..
  then show ?thesis
    using rd(2,3,4) lr2 ne target m3(2) rest unfolding zip pages_def by blast
qed

section \<open>Writing back\<close>

abbreviation plan_writes :: "ssd \<Rightarrow> nat \<Rightarrow> nat list \<Rightarrow> nat list \<Rightarrow> io_req list" where
  "plan_writes s U nhood locs \<equiv> merge_writes SECTOR_LEN (write_reqs (sx_g s) U (length nhood) (rmw_pages (sx_g s) locs))"

lemma plan_writes_spec:
  assumes plan: "insert_plan s nhood locs need" and pg_def: "pages = rmw_pages (sx_g s) locs"
  shows "sectors_of (plan_writes s U nhood locs) = map (\<lambda>k. (pages ! k, U + (length nhood + k) * SECTOR_LEN)) [0..<length pages]"
    "page_writes (plan_writes s U nhood locs)"
proof -
  let ?g = "sx_g s" and ?n = "length nhood"
  let ?ws = "write_reqs ?g U ?n pages"
  note spi = size_per_io_wf [OF insert_planD(1) [OF plan]] and small = plan_pages_small [OF plan]
  have len: "length ?ws = length pages" by (simp add: write_reqs_def)
  have nth: "?ws ! k = page_req ?g (pages ! k) (U + (?n + k) * SECTOR_LEN)" if "k < length pages" for k
    using that by (simp add: write_reqs_def spi)
  have p: "pages ! k < 4294967296" if "k < length pages" for k
    using small(1) nth_mem [OF that] unfolding pg_def plan_pages_def by simp
  have blk: "block_reqs ?ws"
    unfolding block_reqs_def len
  proof (intro allI impI)
    fix k assume k: "k < length pages"
    then have k0: "0 < length pages" by (rule le_less_trans [OF le0])
    show "r_offset (?ws ! k) mod SECTOR_LEN = 0 \<and> r_offset (?ws ! k) + SECTOR_LEN < 18446744073709551615 \<and>
        r_len (?ws ! k) = SECTOR_LEN \<and> r_buf (?ws ! k) = r_buf (?ws ! 0) + k * SECTOR_LEN"
      unfolding nth [OF k] nth [OF k0] using p [OF k] spi by (simp add: page_req_def u64_id SECTOR_LEN_def)
  qed
  note m = merge_writes_spec [OF blk]
  have "sectors_of ?ws = map (\<lambda>k. (pages ! k, U + (?n + k) * SECTOR_LEN)) [0..<length pages]"
    unfolding sectors_single [OF blk]
  proof (rule nth_equalityI)
    fix i assume "i < length (map (\<lambda>r. (r_offset r div SECTOR_LEN, r_buf r)) ?ws)"
    then have i: "i < length pages" by (simp add: len)
    show "map (\<lambda>r. (r_offset r div SECTOR_LEN, r_buf r)) ?ws ! i = map (\<lambda>k. (pages ! k, U + (?n + k) * SECTOR_LEN)) [0..<length pages] ! i"
      using i page_req_page [OF p [OF i]] by (simp add: len nth) (simp add: page_req_def)
  qed (simp add: len)
  then show s: "sectors_of (plan_writes s U nhood locs) = map (\<lambda>k. (pages ! k, U + (?n + k) * SECTOR_LEN)) [0..<length pages]"
    using m(1) by (simp add: pg_def)
  have "map fst (sectors_of (plan_writes s U nhood locs)) = pages" unfolding s by (simp add: o_def map_nth)
  then show "page_writes (plan_writes s U nhood locs)"
    using m(2) small(4) by (simp add: page_writes_def aligned_reqs_def pg_def)
qed

lemma commit_pages:
  assumes plan: "insert_plan s nhood locs need" and b_def: "bufs = plan_bufs s U nhood locs" and pg_def: "pages = rmw_pages (sx_g s) locs"
    and c: "cache_inv c" "\<forall>p. pins c p < 18446744073709551615"
    and w: "wbc_write m (plan_writes s U nhood locs) (c, []) = (c', wref)"
  shows "cache_inv c'" "wref = pages" "pins c' = (\<lambda>p. pins c p + (if p \<in> set pages then 1 else 0))"
    "page_view c' f p = (if p \<in> set pages then peek m (the (bufs p)) SECTOR_LEN else page_view c f p)"
    "\<forall>(p, b) \<in> set (write_pages m (plan_writes s U nhood locs)). page_view c' f p = b"
    "map fst (write_pages m (plan_writes s U nhood locs)) = pages"
proof -
  let ?g = "sx_g s" and ?n = "length nhood"
  define wp where "wp = write_pages m (plan_writes s U nhood locs)"
  note spi = size_per_io_wf [OF insert_planD(1) [OF plan]] and small = plan_pages_small [OF plan]
  note ps = plan_writes_spec [OF plan pg_def, of U]
  note ws = wbc_write_spec [OF c(1) ps(2) c(2) w, folded wp_def]
  have wp: "wp = map (\<lambda>k. (pages ! k, peek m (U + (?n + k) * SECTOR_LEN) SECTOR_LEN)) [0..<length pages]"
    unfolding wp_def write_pages_def ps(1) by simp
  have fst: "map fst wp = pages" unfolding wp by (simp add: o_def map_nth)
  then have dom: "fst ` set wp = set pages" by (metis set_map)
  show "cache_inv c'" "wref = pages" "pins c' = (\<lambda>p. pins c p + (if p \<in> set pages then 1 else 0))"
    using ws [where f = f] fst by (simp_all add: dom)
  have view: "page_view c' f p = overlay wp (page_view c f) p" for p using ws [where f = f] by simp
  show "map fst (write_pages m (plan_writes s U nhood locs)) = pages" using fst unfolding wp_def .
  have "distinct (map fst wp)" using fst small(4) by (simp add: pg_def)
  then show "\<forall>(p, b) \<in> set (write_pages m (plan_writes s U nhood locs)). page_view c' f p = b"
    unfolding view wp_def [symmetric] by (auto simp: overlay_def)
  show "page_view c' f p = (if p \<in> set pages then peek m (the (bufs p)) SECTOR_LEN else page_view c f p)"
  proof (cases "p \<in> set pages")
    case True
    have dp: "plan_pages s nhood locs = map (\<lambda>nb. loc_sector_no ?g (nbr_loc s nb)) nhood @ pages" by (simp add: plan_pages_def pg_def)
    from page_bufs_write [OF True small(1) [unfolded dp] spi, of U] obtain k where
      k: "k < length pages" "pages ! k = p" "bufs p = Some (U + (?n + k) * SECTOR_LEN)" unfolding b_def plan_bufs_def dp by auto
    have "(p, peek m (U + (?n + k) * SECTOR_LEN) SECTOR_LEN) \<in> set wp" using k(1,2) unfolding wp by force
    moreover have "distinct (map fst wp)" using fst small(4) by (simp add: pg_def)
    ultimately have "map_of wp p = Some (peek m (U + (?n + k) * SECTOR_LEN) SECTOR_LEN)" by simp
    then show ?thesis using view True k(3) by (simp add: overlay_def)
  next
    case False
    then have "map_of wp p = None" using dom by (simp add: map_of_eq_None_iff)
    then show ?thesis using view False by (simp add: overlay_def)
  qed
qed

text \<open>Rewriting and writing back: the records at the new locations, and every other record as before.\<close>

lemma rewrite_commit:
  assumes plan: "insert_plan s nhood locs need" and g_def: "g = sx_g s" and U: "U = qb_update rd"
    and nl: "new_lists dp s target_id nhood nl" and pt: "vec_bytes g \<le> length point" and pg_def: "pages = rmw_pages g locs"
  shows "\<exists>refs c m c'. rewrite_nodes dp target_id point nhood locs need rd (page_ref, s) =
      Inr (plan_writes s U nhood locs, page_ref @ refs, s\<lparr>sx_cache := c, sx_mem := m\<rparr>) \<and>
    wbc_write m (plan_writes s U nhood locs) (c, []) = (c', pages) \<and> cache_inv c' \<and>
    pins c' = (\<lambda>p. pins (sx_cache s) p + count_list refs p + (if p \<in> set pages then 1 else 0)) \<and> (nhood \<noteq> [] \<longrightarrow> refs \<noteq> []) \<and>
    (\<forall>p. p \<notin> set pages \<longrightarrow> page_view c' (sx_file s) p = view_of s p) \<and>
    (\<forall>(p, b) \<in> set (write_pages m (plan_writes s U nhood locs)). page_view c' (sx_file s) p = b) \<and>
    map fst (write_pages m (plan_writes s U nhood locs)) = pages \<and>
    view_rec g (page_view c' (sx_file s)) (last locs) = (take (vec_bytes g) point, nhood) \<and>
    (\<forall>(nb, l) \<in> set (zip nhood locs). view_rec g (page_view c' (sx_file s)) l = (fst (old_rec s nb), nl nb)) \<and>
    (\<forall>l. l < 4294967280 \<longrightarrow> l \<notin> set locs \<longrightarrow> (loc_sector_no g l \<in> set pages \<longrightarrow> loc_sector_no g l \<in> need) \<longrightarrow>
       length (snd (view_rec g (view_of s) l)) \<le> max_nbrs g \<longrightarrow>
       view_rec g (page_view c' (sx_file s)) l = view_rec g (view_of s) l)"
proof -
  define bufs where "bufs = plan_bufs s U nhood locs"
  from rewrite_nodes_spec [OF plan g_def U nl pt bufs_def, of page_ref] obtain refs c m where
    r: "rewrite_nodes dp target_id point nhood locs need rd (page_ref, s) =
        Inr (merge_writes SECTOR_LEN (write_reqs g U (length nhood) (rmw_pages g locs)), page_ref @ refs, s\<lparr>sx_cache := c, sx_mem := m\<rparr>)"
      "cache_inv c" "page_view c (sx_file s) = view_of s" "pins c = (\<lambda>p. pins (sx_cache s) p + count_list refs p)"
      "length refs \<le> 2 * MAX_N_EDGES + 1" "nhood \<noteq> [] \<longrightarrow> refs \<noteq> []"
      "addr_rec g m (slot_addr g bufs (last locs)) = (take (vec_bytes g) point, nhood)"
      "\<forall>(nb, l) \<in> set (zip nhood locs). addr_rec g m (slot_addr g bufs l) = (fst (old_rec s nb), nl nb)"
      "\<forall>l. has_buf g bufs l \<longrightarrow> l \<notin> set locs \<longrightarrow> loc_sector_no g l \<in> need \<longrightarrow> length (snd (view_rec g (view_of s) l)) \<le> max_nbrs g \<longrightarrow>
        addr_rec g m (slot_addr g bufs l) = view_rec g (view_of s) l" by blast
  note d = insert_planD [OF plan]
  have wf: "wf_geom g" using d(1) by (simp add: g_def)
  note bl = plan_bufs_locs [OF plan g_def bufs_def]
  obtain c' wref where w: "wbc_write m (plan_writes s U nhood locs) (c, []) = (c', wref)"
    by (cases "wbc_write m (plan_writes s U nhood locs) (c, [])")
  have room: "\<forall>p. pins c p < 18446744073709551615"
  proof
    fix p
    have "count_list refs p \<le> length refs" by (rule count_le_length)
    then show "pins c p < 18446744073709551615" using d(3) [of p] r(4,5) by simp
  qed
  have pg: "pages = rmw_pages (sx_g s) locs" by (simp add: pg_def g_def)
  note cp = commit_pages [OF plan bufs_def pg r(2) room w]
  let ?w = "page_view c' (sx_file s)"
  have in_page: "loc_sector_no g l \<in> set pages" if "l \<in> set locs" for l
    using that plan_pages_small(3) [OF plan] by (simp add: pg g_def)
  have rec: "view_rec g ?w l = addr_rec g m (slot_addr g bufs l)"
    if l: "has_buf g bufs l" "loc_sector_no g l \<in> set pages" "length (snd (addr_rec g m (slot_addr g bufs l))) \<le> max_nbrs g" for l
  proof -
    have e: "peek m (the (bufs (loc_sector_no g l))) SECTOR_LEN = ?w (loc_sector_no g l)" using cp(4) l(2) by simp
    have len: "length (?w (loc_sector_no g l)) = SECTOR_LEN" by (rule page_view_length [OF cp(1)])
    from page_rec(2) [where w = ?w, OF wf len e] l(3) show ?thesis by (simp add: slot_addr_def)
  qed
  note nl' = nl [unfolded new_lists_def, folded g_def]
  have last: "last locs \<in> set locs" using d(5) by (cases locs) auto
  have target: "view_rec g ?w (last locs) = (take (vec_bytes g) point, nhood)"
    using rec [OF bl(2) [OF last] in_page [OF last]] r(7) nl' by simp
  have nbrs: "\<forall>(nb, l) \<in> set (zip nhood locs). view_rec g ?w l = (fst (old_rec s nb), nl nb)"
  proof clarify
    fix nb l assume nb: "(nb, l) \<in> set (zip nhood locs)"
    then have m: "nb \<in> set nhood" "l \<in> set locs" by (auto dest: set_zip_leftD set_zip_rightD)
    have a: "addr_rec g m (slot_addr g bufs l) = (fst (old_rec s nb), nl nb)" using r(8) nb by blast
    then show "view_rec g ?w l = (fst (old_rec s nb), nl nb)" using rec [OF bl(2) [OF m(2)] in_page [OF m(2)]] nl' m(1) by simp
  qed
  have off: "?w p = view_of s p" if "p \<notin> set pages" for p using cp(4) that r(3) by simp
  have rest: "view_rec g ?w l = view_rec g (view_of s) l"
    if l: "l < 4294967280" "l \<notin> set locs" "loc_sector_no g l \<in> set pages \<longrightarrow> loc_sector_no g l \<in> need"
      "length (snd (view_rec g (view_of s) l)) \<le> max_nbrs g" for l
  proof (cases "loc_sector_no g l \<in> set pages")
    case True
    then obtain k where k: "k \<in> set locs" "loc_sector_no g k = loc_sector_no g l"
      using plan_pages_small(3) [OF plan] by (auto simp: pg g_def)
    have hb: "has_buf g bufs l" using bl(2) [OF k(1)] k(2) l(1) by (simp add: has_buf_def)
    have a: "addr_rec g m (slot_addr g bufs l) = view_rec g (view_of s) l" using r(9) hb l True by blast
    show ?thesis using rec [OF hb True] a l(4) by simp
  next
    case False
    then show ?thesis using off by (simp add: view_rec_page)
  qed
  have "pins c' = (\<lambda>p. pins (sx_cache s) p + count_list refs p + (if p \<in> set pages then 1 else 0))"
    unfolding cp(3) r(4) ..
  moreover have "wbc_write m (plan_writes s U nhood locs) (c, []) = (c', pages)" using w cp(2) by simp
  moreover have "\<forall>p. p \<notin> set pages \<longrightarrow> ?w p = view_of s p" using off by blast
  moreover have "\<forall>l. l < 4294967280 \<longrightarrow> l \<notin> set locs \<longrightarrow> (loc_sector_no g l \<in> set pages \<longrightarrow> loc_sector_no g l \<in> need) \<longrightarrow>
       length (snd (view_rec g (view_of s) l)) \<le> max_nbrs g \<longrightarrow> view_rec g ?w l = view_rec g (view_of s) l"
    using rest by blast
  moreover note r(1) [unfolded g_def] r(6) cp(1) cp(5) [where f = "sx_file s"] cp(6) target nbrs
  ultimately show ?thesis
    by (intro exI [of _ refs] exI [of _ c] exI [of _ m] exI [of _ c'] conjI)
qed

end
