(* ===== verification/Insert_Correct.thy ===== *)
theory Insert_Correct imports Insert_Rewrite Prune_Props Beam_Correct begin

text \<open>
  \<^verbatim>\<open>insert_in_place\<close> as a step of the index: the new node is added with its code and tag, linked to
  neighbors the search found, each of them gets the new node or a pruned list, every other node is
  untouched, and the index is in order again.
\<close>

section \<open>Room for the code\<close>

lemma grow_data_spec:
  assumes "2 \<le> length data" "need \<le> length data + fuel"
  shows "\<exists>k. grow_data fuel need data = Inr (data @ replicate k 0) \<and> need \<le> length data + k"
  using assms
proof (induction fuel arbitrary: data)
  case 0
  then show ?case by (intro exI [of _ 0]) (simp add: grow_data.simps)
next
  case (Suc fuel)
  show ?case
  proof (cases "length data < need")
    case True
    let ?d = "data @ replicate (length data div 2) 0"
    have h: "1 \<le> length data div 2" using Suc.prems(1) by simp
    have "2 \<le> length ?d" "need \<le> length ?d + fuel" using Suc.prems h by simp_all
    from Suc.IH [OF this] obtain k where k: "grow_data fuel need ?d = Inr (?d @ replicate k 0)" "need \<le> length ?d + k" by blast
    have "grow_data (Suc fuel) need data = Inr (data @ replicate (length data div 2 + k) 0)"
      using True k(1) by (simp add: grow_data.simps [of "Suc fuel"] replicate_add)
    then show ?thesis using k(2) by (intro exI [of _ "length data div 2 + k"]) simp
  next
    case False
    then show ?thesis by (intro exI [of _ 0]) (simp add: grow_data.simps)
  qed
qed

lemma grow_data_stuck: "length data < 2 \<Longrightarrow> length data < need \<Longrightarrow> grow_data fuel need data = Inl OutOfFuel"
  by (induction fuel) (simp_all add: grow_data.simps)

lemma code_prefix:
  "i * n + n \<le> length (data :: byte list) \<Longrightarrow> take n (drop (i * n) (data @ xs)) = take n (drop (i * n) data)"
  by simp

lemma write_pq_spec:
  assumes "2 \<le> length (sx_data s)" "t * sx_n_chunks s + sx_n_chunks s \<le> length (sx_data s) + fuel"
    and "t * sx_n_chunks s + sx_n_chunks s < 18446744073709551616" "length code = sx_n_chunks s"
  shows "\<exists>d. write_pq fuel t code s = Inr (s\<lparr>sx_data := d\<rparr>) \<and> t * sx_n_chunks s + sx_n_chunks s \<le> length d \<and>
    length (sx_data s) \<le> length d \<and> code_of (s\<lparr>sx_data := d\<rparr>) t = code \<and>
    (\<forall>i < t. i * sx_n_chunks s + sx_n_chunks s \<le> length (sx_data s) \<longrightarrow> code_of (s\<lparr>sx_data := d\<rparr>) i = code_of s i)"
proof -
  let ?n = "sx_n_chunks s"
  have o: "u64 (t * ?n) = t * ?n" using assms(3) by (intro u64_id) simp
  from grow_data_spec [OF assms(1,2)] obtain k where
    k: "grow_data fuel (t * ?n + ?n) (sx_data s) = Inr (sx_data s @ replicate k 0)" "t * ?n + ?n \<le> length (sx_data s) + k" by blast
  define d0 where "d0 = sx_data s @ replicate k 0"
  define d where "d = take (t * ?n) d0 @ code @ drop (t * ?n + ?n) d0"
  have len: "length d = length d0" "t * ?n + ?n \<le> length d0" using k(2) assms(4) by (simp_all add: d_def d0_def)
  have run: "write_pq fuel t code s = Inr (s\<lparr>sx_data := d\<rparr>)"
    using k(1) assms(4) by (simp add: write_pq_def Let_def o d_def d0_def)
  have tl: "length (take (t * ?n) d0) = t * ?n" using len(2) by simp
  have "take ?n (drop (t * ?n) d) = code" using tl assms(4) by (simp add: d_def)
  moreover have "take ?n (drop (i * ?n) d) = take ?n (drop (i * ?n) (sx_data s))" if i: "i < t" "i * ?n + ?n \<le> length (sx_data s)" for i
  proof -
    have "Suc i * ?n \<le> t * ?n" using i(1) by (intro mult_le_mono1) simp
    then have le: "i * ?n + ?n \<le> t * ?n" by simp
    have "take ?n (drop (i * ?n) d) = take ?n (drop (i * ?n) (take (t * ?n) d0))"
      using le tl by (simp add: d_def)
    also have "\<dots> = take ?n (drop (i * ?n) d0)" using le by (simp add: drop_take)
    also have "\<dots> = take ?n (drop (i * ?n) (sx_data s))" using i(2) by (simp add: d0_def)
    finally show ?thesis .
  qed
  ultimately show ?thesis using run len by (intro exI [of _ d]) (simp add: code_of_def d0_def)
qed

section \<open>The neighbors' new lists\<close>

lemma delta_nbrs_spec:
  assumes pairs: "pq_pairs_ok t" and alpha: "f_below_inf (cf_alpha cf)"
    and nh: "distinct nhood" "target_id \<in> set nhood" "length nhood < 32768"
    and codes: "\<forall>i \<in> insert nb (set nhood). i * pq_n_chunks t + pq_n_chunks t \<le> length data"
  shows "\<exists>l. delta_nbrs t data cf target_id nb nhood = Inr l \<and> distinct l \<and> set l \<subseteq> set nhood \<and> Suc (length l) = length nhood"
proof -
  let ?d = "\<lambda>src. map (\<lambda>i. code_dist t (pq_code data (pq_n_chunks t) src) (pq_code data (pq_n_chunks t) i)) nhood"
  have d: "compute_pq_dists t data src nhood = Inr (?d src)" if "src \<in> insert nb (set nhood)" for src
    by (rule compute_pq_dists_spec [OF pairs nh(3)]) (use codes that in blast)
  define pool where "pool = sort_lt tn_lt (map (\<lambda>(k, d, e). \<lparr>tn_id = k, tn_tgt_dis = d, tn_distance = e\<rparr>)
    (zip nhood (zip (?d target_id) (?d nb))))"
  have m0: "map tn_id (map (\<lambda>(k, d, e). \<lparr>tn_id = k, tn_tgt_dis = d, tn_distance = e\<rparr>) (zip nhood (zip (?d target_id) (?d nb)))) = nhood"
    by (rule nth_equalityI) simp_all
  have ms: "mset (map tn_id pool) = mset nhood" unfolding pool_def by (subst mset_map, subst mset_sort_lt, subst mset_map [symmetric], subst m0) (rule refl)
  have ids: "set (map tn_id pool) = set nhood" "distinct (map tn_id pool)" "length pool = length nhood"
    using mset_eq_setD [OF ms] mset_eq_imp_distinct_iff [OF ms] nh(1) mset_eq_length [OF ms] by (simp_all only: length_map)
  have "target_id \<in> set (map tn_id pool)" using ids(1) nh(2) by blast
  then obtain j where j: "j < length pool" "tn_id (pool ! j) = target_id" by (auto simp: in_set_conv_nth)
  then have "find (\<lambda>k. tn_id (pool ! k) = target_id) [0..<length nhood] \<noteq> None"
    using ids(3) by (auto simp: find_None_iff)
  then obtain i where i: "find (\<lambda>k. tn_id (pool ! k) = target_id) [0..<length nhood] = Some i" by blast
  then have "i < length pool" using ids(3) by (auto simp: find_Some_iff)
  from delta_prune_spec [OF this alpha, of "pq_pair_dist t data"] obtain e where
    e: "e < length pool" "delta_prune_neighbors_pq (pq_pair_dist t data) cf pool i = Inr (map tn_id (take e pool @ drop (e + 1) pool))" by blast
  have "delta_nbrs t data cf target_id nb nhood = Inr (map tn_id (take e pool @ drop (e + 1) pool))"
    using d nh(2) i e(2) by (simp add: delta_nbrs_def pool_def [symmetric] Let_def)
  moreover have "distinct (map tn_id (take e pool @ drop (e + 1) pool))"
  proof -
    have "distinct (take e (map tn_id pool) @ drop (e + 1) (map tn_id pool))"
      using ids(2) set_take_disj_set_drop_if_distinct [OF ids(2), of e "e + 1"] by simp
    then show ?thesis by (simp only: map_append take_map drop_map)
  qed
  moreover have "set (map tn_id (take e pool @ drop (e + 1) pool)) \<subseteq> set nhood"
    using ids(1) set_take_subset [of e pool] set_drop_subset [of "e + 1" pool] by auto
  moreover have "Suc (length (map tn_id (take e pool @ drop (e + 1) pool))) = length nhood" using e(1) ids(3) by simp
  ultimately show ?thesis by blast
qed

lemma zip_pool_ids: "length ids = length ds \<Longrightarrow> map nb_id (map (\<lambda>(i, d). neighbor_zero\<lparr>nb_id := i, nb_dist := d\<rparr>) (zip ids ds)) = ids"
  by (induction ids ds rule: list_induct2) simp_all

lemma new_nbrs_spec:
  assumes pairs: "pq_pairs_ok t" and fin: "pq_finite t" and alpha: "f_below_inf (cf_alpha cf)"
    and old: "distinct old" "target_id \<notin> set old" "length old \<le> cf_range cf" "cf_range cf < 32767"
    and room: "(cf_range cf + 1) * pq_n_chunks t \<le> pq_coord_alloc_size"
    and codes: "\<forall>i \<in> insert nb (insert target_id (set old)). i * pq_n_chunks t + pq_n_chunks t \<le> length data"
  shows "\<exists>l. new_nbrs dp t data cf target_id nb old = Inr l \<and> distinct l \<and> set l \<subseteq> insert target_id (set old) \<and>
    length l \<le> cf_range cf \<and> (length old < cf_range cf \<longrightarrow> l = old @ [target_id])"
proof (cases "length (old @ [target_id]) \<le> cf_range cf")
  case True
  then show ?thesis using old by (simp add: new_nbrs_def)
next
  case False
  let ?nh = "old @ [target_id]"
  have full: "length old = cf_range cf" using False old(3) by simp
  have d: "distinct ?nh" "target_id \<in> set ?nh" "length ?nh < 32768" using old full by simp_all
  have room': "\<not> pq_coord_alloc_size < length ?nh * pq_n_chunks t" using room full by simp
  have codes': "\<forall>i \<in> insert nb (set ?nh). i * pq_n_chunks t + pq_n_chunks t \<le> length data" using codes by auto
  have "\<exists>l. new_nbrs dp t data cf target_id nb old = Inr l \<and> distinct l \<and> set l \<subseteq> set ?nh \<and> length l \<le> cf_range cf"
  proof (cases dp)
    case True
    from delta_nbrs_spec [OF pairs alpha d codes'] obtain l where
      l: "delta_nbrs t data cf target_id nb ?nh = Inr l" "distinct l" "set l \<subseteq> set ?nh" "Suc (length l) = length ?nh" by blast
    have "new_nbrs dp t data cf target_id nb old = Inr l"
      using True False room' l(1) by (simp add: new_nbrs_def Let_def)
    then show ?thesis using l full by simp
  next
    case ndp: False
    let ?ds = "map (\<lambda>i. code_dist t (pq_code data (pq_n_chunks t) nb) (pq_code data (pq_n_chunks t) i)) ?nh"
    define pool where "pool = map (\<lambda>(i, d). neighbor_zero\<lparr>nb_id := i, nb_dist := d\<rparr>) (zip ?nh ?ds)"
    have ds: "compute_pq_dists t data nb ?nh = Inr ?ds" by (rule compute_pq_dists_spec [OF pairs d(3) codes'])
    have ids: "map nb_id pool = ?nh" unfolding pool_def by (rule zip_pool_ids) simp
    have num: "nb_num n" if "n \<in> set pool" for n
      using that code_dist_num [OF fin] by (auto simp: pool_def in_set_zip)
    have good: "pool_good (sort_lt nb_lt pool)"
      by (rule pool_good_sort) (use ids d(1) num in \<open>simp add: pool_good_def\<close>)
    have ne: "sort_lt nb_lt pool \<noteq> []"
    proof
      assume "sort_lt nb_lt pool = []"
      then have "set pool = {}" using set_sort_lt [of nb_lt pool] by simp
      then show False using ids by simp
    qed
    from prune_pq_spec [OF ne good alpha, of "pq_pair_dist t data" "[]"] obtain l where
      l: "prune_neighbors_pq (pq_pair_dist t data) cf (sort_lt nb_lt pool) [] = Inr l" "distinct l"
        "set l \<subseteq> nb_id ` set (sort_lt nb_lt pool)" "length l \<le> cf_range cf" by blast
    have "new_nbrs dp t data cf target_id nb old = Inr l"
      using ndp False room' ds l(1) by (simp add: new_nbrs_def Let_def pool_def)
    moreover have "set l \<subseteq> set ?nh" using l(3) arg_cong [OF ids, of set] by simp
    ultimately show ?thesis using l(2,4) by blast
  qed
  then obtain l where "new_nbrs dp t data cf target_id nb old = Inr l" "distinct l" "set l \<subseteq> set ?nh" "length l \<le> cf_range cf" by blast
  then show ?thesis using full by (intro exI [of _ l]) auto
qed

section \<open>An index in order\<close>

text \<open>The data: mapping and graph are consistent, the neighbor lists within the range and without repetition.\<close>

definition index_ok :: "ssd \<Rightarrow> bool" where
  "index_ok s \<longleftrightarrow> lm_ok (sx_g s) (sx_lm s) \<and> map_ok (sx_g s) (sx_lm s) \<and> graph_ok s \<and> cache_inv (sx_cache s) \<and>
     id2loc_map (sx_lm s) (sx_medoid s) \<noteq> None \<and>
     (\<forall>i l. id2loc_map (sx_lm s) i = Some l \<longrightarrow> distinct (loc_nbrs (sx_g s) (view_of s) l) \<and>
        length (loc_nbrs (sx_g s) (view_of s) l) \<le> cf_range (sx_cfg s))"

text \<open>What is fixed when an index is set up: the parameters, the product quantiser, the distances.\<close>

definition setup_ok :: "ssd_env \<Rightarrow> ssd \<Rightarrow> bool" where
  "setup_ok en s \<longleftrightarrow> pq_loaded (sx_pq s) \<and> pq_pairs_ok (sx_pq s) \<and> pq_finite (sx_pq s) \<and> pq_n_chunks (sx_pq s) = sx_n_chunks s \<and>
     f_below_inf (cf_alpha (sx_cfg s)) \<and> fle f_one (cf_alpha (sx_cfg s)) \<and> 0 < cf_maxc (sx_cfg s) \<and> 0 < cf_range (sx_cfg s) \<and>
     cf_range (sx_cfg s) \<le> max_nbrs (sx_g s) \<and> cf_range (sx_cfg s) < MAX_N_EDGES \<and>
     (cf_range (sx_cfg s) + 1) * sx_n_chunks s \<le> pq_coord_alloc_size \<and> 256 * sx_n_chunks s \<le> pqtable_alloc_floats \<and>
     1 \<le> sx_l_index s \<and> 0 < sx_beam_width s \<and> sx_beam_width s \<le> MAX_N_SECTOR_READS \<and>
     (\<forall>a b. fnum (en_compare en a b)) \<and> (\<forall>v k. ffin (en_float en v k))"

definition no_locks :: "ssd \<Rightarrow> bool" where
  "no_locks s \<longleftrightarrow> sx_page_locks s = Map.empty \<and> sx_vec_locks s = Map.empty \<and> sx_page_idx_locks s = Map.empty \<and> sx_idx_locks s = Map.empty"

text \<open>Room for one more node, and fuel for the search and the growth of the codes.\<close>

definition insert_room :: "nat \<Rightarrow> ssd \<Rightarrow> bool" where
  "insert_room fuel s \<longleftrightarrow> cur_id (sx_lm s) < kAllocatedID \<and> Suc (cur_id (sx_lm s)) \<le> coord_capacity s \<and>
     cur_loc (sx_lm s) + cf_range (sx_cfg s) + 17 \<le> 4294967280 \<and>
     (\<forall>p. pins (sx_cache s) p < 9223372036854775808) \<and> 2 \<le> length (sx_data s) \<and> sx_n_chunks s < 4294967296 \<and>
     Suc (cur_id (sx_lm s)) * sx_n_chunks s \<le> length (sx_data s) + fuel \<and>
     (cur_id (sx_lm s) + 2) * (cur_id (sx_lm s) + 2) \<le> fuel"

lemma index_okD:
  assumes "index_ok s"
  shows "lm_ok (sx_g s) (sx_lm s)" "map_ok (sx_g s) (sx_lm s)" "graph_ok s" "cache_inv (sx_cache s)" "wf_geom (sx_g s)"
    "id2loc_map (sx_lm s) (sx_medoid s) \<noteq> None"
    and "id2loc_map (sx_lm s) i = Some l \<Longrightarrow> distinct (loc_nbrs (sx_g s) (view_of s) l)"
      "id2loc_map (sx_lm s) i = Some l \<Longrightarrow> length (loc_nbrs (sx_g s) (view_of s) l) \<le> cf_range (sx_cfg s)"
  using assms unfolding index_ok_def graph_ok_def by blast+

section \<open>The search for neighbors\<close>

definition padded_bufs :: "ssd \<Rightarrow> query_buf \<Rightarrow> bool" where
  "padded_bufs s qb \<longleftrightarrow> bufs_ok s qb \<and> padded s qb"

lemma insert_search:
  assumes ok: "index_ok s" "setup_ok en s" "no_locks s" "insert_room fuel s" "padded_bufs s qb"
    and pool: "cq_q (sx_pool s) = Some rd # Some qb # bufs" and d: "length (sx_data s) \<le> length d"
    and s3_def: "s3 = s\<lparr>sx_pool := (sx_pool s)\<lparr>cq_q := Some qb # bufs\<rparr>, sx_lm := (sx_lm s)\<lparr>cur_id := Suc (cur_id (sx_lm s))\<rparr>, sx_data := d\<rparr>"
  shows "\<exists>res coord refs c m nh. do_beam_search en fuel point 0 (sx_l_index s) (sx_beam_width s) True excl False (Some []) s3 =
      Inr (res, coord, refs, push_query_buf qb (s3\<lparr>sx_pool := (sx_pool s)\<lparr>cq_q := bufs\<rparr>, sx_cache := c, sx_mem := m\<rparr>)) \<and>
    prune_neighbors (compare m) coord (sx_cfg s) (sx_medoid s) res [] = Inr (sort_lt nb_lt res, nh) \<and> nh \<noteq> [] \<and> distinct nh \<and>
    set nh \<subseteq> {i. live s {sx_medoid s} i} \<and> length nh \<le> cf_range (sx_cfg s) \<and> cache_inv c \<and> page_view c (sx_file s) = view_of s \<and>
    pins c = (\<lambda>p. pins (sx_cache s) p + count_list refs p) \<and> length refs \<le> cur_id (sx_lm s) \<and> (\<forall>p \<in> set refs. p < 4294967296)"
proof -
  note ix = index_okD [OF ok(1)]
  note st = ok(2) [unfolded setup_ok_def] and rm = ok(4) [unfolded insert_room_def] and pb = ok(5) [unfolded padded_bufs_def]
  define q where "q = take (vec_bytes (sx_g s)) (en_normalize en point)"
  define s0 where "s0 = s3\<lparr>sx_pool := (sx_pool s)\<lparr>cq_q := bufs\<rparr>, sx_mem := poke (sx_mem s) (qb_query qb) q\<rparr>"
  have f: "sx_g s0 = sx_g s" "sx_lm s0 = (sx_lm s)\<lparr>cur_id := Suc (cur_id (sx_lm s))\<rparr>" "sx_data s0 = d" "sx_n_chunks s0 = sx_n_chunks s"
      "sx_pq s0 = sx_pq s" "sx_cache s0 = sx_cache s" "sx_file s0 = sx_file s" "sx_idx_locks s0 = sx_idx_locks s" "view_of s0 = view_of s"
      "vec_stride s0 = vec_stride s" "coord_alloc_size s0 = coord_alloc_size s" "coord_capacity s0 = coord_capacity s" "pad_len s0 = pad_len s"
      "sx_medoid s0 = sx_medoid s" "sx_mem s0 = poke (sx_mem s) (qb_query qb) q"
    by (simp_all add: s0_def s3_def view_of_def vec_stride_def coord_alloc_size_def coord_capacity_def pad_len_def)
  have pop: "pop_query_buf en (Some point) s3 = Inr (qb, s0)"
    by (simp add: pop_query_buf_def s3_def cq_pop_def s0_def q_def)
  have bk: "bufs_ok s0 qb" using pb by (simp add: bufs_ok_def f)
  have lq: "length q \<le> vec_stride s" using pb by (auto simp: q_def bufs_ok_def intro: min.coboundedI2)
  have pd: "padded s0 qb"
    unfolding padded_def f
  proof (intro allI impI)
    fix k assume k: "k < coord_capacity s"
    have "peek (poke (sx_mem s) (qb_query qb) q) (qb_coord qb + k * vec_stride s + vec_bytes (sx_g s)) (pad_len s) =
        peek (sx_mem s) (qb_coord qb + k * vec_stride s + vec_bytes (sx_g s)) (pad_len s)"
      by (rule peek_poke_disjoint) (use capacity_slot [OF k] pb lq in \<open>auto simp: bufs_ok_def rdisj_def pad_len_def\<close>)
    then show "peek (poke (sx_mem s) (qb_query qb) q) (qb_coord qb + k * vec_stride s + vec_bytes (sx_g s)) (pad_len s) = replicate (pad_len s) 0"
      using pb k by (simp add: padded_def)
  qed
  have gok: "graph_ok s0" using ix(3) d unfolding graph_ok_def f by (fastforce simp: less_Suc_eq)
  have num: "fnum (table_sum (search_table en s0 qb) (sx_n_chunks s0) (pq_code (sx_data s0) (sx_n_chunks s0) i))" for i
  proof -
    have "table_sum (search_table en s0 qb) (pq_n_chunks (sx_pq s)) (pq_code d (pq_n_chunks (sx_pq s)) i) =
        asym_dist (sx_pq s) (en_float en (query_T s0 qb)) (pq_code d (pq_n_chunks (sx_pq s)) i)"
      unfolding search_table_def f by (rule table_sum_asym) (use st pq_code_less in auto)
    then show ?thesis using st asym_dist_num by (simp add: f)
  qed
  have ready: "search_ready en s0 qb (search_table en s0 qb)"
    using gok bk rm num by (simp add: search_ready_def f)
  have sids: "start_ids en (query_T s0 qb) 0 (sx_l_index s) s0 = [sx_medoid s]" by (simp add: start_ids_def f)
  have "1 * sx_n_chunks s \<le> (cf_range (sx_cfg s) + 1) * sx_n_chunks s" by (intro mult_le_mono1) simp
  then have "sx_n_chunks s \<le> pq_coord_alloc_size" using st by linarith
  then have so: "starts_ok s0 [sx_medoid s]" using ix(6) by (simp add: starts_ok_def f dist_alloc_floats_def)
  have lf: "locks_free s0" using ok(3) by (simp add: locks_free_def f no_locks_def lk_def)
  have small: "cur_id (sx_lm s) < 4294967296" using rm by (simp add: kAllocatedID_def)
  have pr: "pins_room s0"
    unfolding pins_room_def f
  proof
    fix p have "pins (sx_cache s) p < 9223372036854775808" using rm by blast
    then show "pins (sx_cache s) p + cur_id ((sx_lm s)\<lparr>cur_id := Suc (cur_id (sx_lm s))\<rparr>) < 18446744073709551616" using small by simp
  qed
  have sok: "search_ok en s0 qb 0 (sx_l_index s) (sx_beam_width s)"
    using ready pd ix(4) lf pr so st by (simp add: search_ok_def f sids)
  have nm: "\<forall>i. id2loc_map (sx_lm s0) i \<noteq> None \<longrightarrow> fnum (exact_dist en s0 qb i)" using st by (simp add: exact_dist_def)
  have fu: "(cur_id (sx_lm s0) + 1) * (cur_id (sx_lm s0) + 1) \<le> fuel" using rm by (simp add: f)
  have nd: "False \<longrightarrow> excl \<noteq> None" by simp
  from do_beam_search_spec [OF pop sok nd nm fu, of True "Some []", unfolded option.case append_Nil] obtain res coord refs s' where
    b: "do_beam_search en fuel point 0 (sx_l_index s) (sx_beam_width s) True excl False (Some []) s3 =
        Inr (res, coord, refs, push_query_buf qb s')" "distinct (map nb_id res)"
      "\<forall>n \<in> set res. nb_id n \<in> reachable en s0 qb 0 (sx_l_index s) \<and> nb_dist n = exact_dist en s0 qb (nb_id n)"
      "True \<longrightarrow> (\<forall>n \<in> set res. \<exists>a. coord (nb_id n) = Some a \<and> copied s0 qb (sx_mem s') (length res) (nb_id n) a)" "s' = s0\<lparr>sx_cache := sx_cache s', sx_mem := sx_mem s'\<rparr>"
      "view_of s' = view_of s0" "srch s0 qb refs s'" "res \<noteq> []" "length refs = length res" by blast
  have live: "live s {sx_medoid s} i" if "i \<in> reachable en s0 qb 0 (sx_l_index s)" for i
    using that unfolding reachable_def live_def edges_def sids f by simp
  have good: "pool_good res" using b(2,3) st by (auto simp: pool_good_def exact_dist_def)
  have "prune_ready coord (sx_cfg s) res" using b(4,8) good st by (fastforce simp: prune_ready_def)
  note pn = prune_neighbors_spec [OF this, of "compare (sx_mem s')" "sx_medoid s" "[]"]
  have pm: "0 < cf_maxc (sx_cfg s)" "0 < cf_range (sx_cfg s)" "fle f_one (cf_alpha (sx_cfg s))" using st by simp_all
  from pn pm obtain nh where
    nh: "prune_neighbors (compare (sx_mem s')) coord (sx_cfg s) (sx_medoid s) res [] = Inr (sort_lt nb_lt res, nh)" "distinct nh"
      "set nh \<subseteq> nb_id ` set res" "length nh \<le> cf_range (sx_cfg s)" "nh \<noteq> []" by blast
  have nl: "set nh \<subseteq> {i. live s {sx_medoid s} i}" using nh(3) b(3) live by blast
  have ids: "nb_id ` set res \<subseteq> {..<cur_id (sx_lm s)}"
    using b(3) live live_bound [OF ix(3)] by blast
  have "length res = card (nb_id ` set res)" using distinct_card [OF b(2)] by simp
  also have "\<dots> \<le> cur_id (sx_lm s)" using card_mono [OF _ ids] by simp
  finally have lr: "length refs \<le> cur_id (sx_lm s)" using b(9) by simp
  have refs: "p < 4294967296" if p: "p \<in> set refs" for p
  proof -
    from b(7) p obtain i loc where i: "id2loc_map (sx_lm s) i = Some loc" "p = loc_sector_no (sx_g s) loc"
      unfolding srch_def f by auto
    have "loc < 4294967280" using map_okD(1) [OF ix(2) i(1)] lm_okD(5) [OF ix(1)] by simp
    then show ?thesis using loc_sector_u32 [OF ix(5)] i(2) by simp
  qed
  have s': "s' = s3\<lparr>sx_pool := (sx_pool s)\<lparr>cq_q := bufs\<rparr>, sx_cache := sx_cache s', sx_mem := sx_mem s'\<rparr>"
    by (subst b(5)) (simp add: s0_def)
  have "sx_file s' = sx_file s" by (subst b(5)) (simp add: f)
  then have view: "page_view (sx_cache s') (sx_file s) = view_of s" using b(6) f(9) by (simp add: view_of_def)
  have c: "cache_inv (sx_cache s')" "pins (sx_cache s') = (\<lambda>p. pins (sx_cache s) p + count_list refs p)"
    using b(7) by (simp_all add: srch_def f)
  show ?thesis
    using b(1) nh(1,5,2) nl nh(4) c(1) view c(2) lr refs s'
    by (intro exI [of _ res] exI [of _ coord] exI [of _ refs] exI [of _ "sx_cache s'"] exI [of _ "sx_mem s'"] exI [of _ nh]) auto
qed

section \<open>Locks on empty tables\<close>

lemma lock_all_empty:
  assumes "distinct ks"
  shows "\<exists>t. lock_all False ks Map.empty = Inr t \<and> (\<forall>js. distinct js \<longrightarrow> set js = set ks \<longrightarrow> foldE unlock js t = Inr Map.empty)"
proof -
  have "\<forall>k \<in> set ks. can_acq False (lk Map.empty k)" by (simp add: lk_def)
  from slt.take_all_total [OF lt_inv_empty assms this] obtain t where t: "foldE (lockm False) ks Map.empty = Inr t" by blast
  show ?thesis using t slt.release_all_restores [OF lt_inv_empty assms t] by (auto simp: lock_all_alt)
qed

lemma lockReqs_empty: "\<exists>ks t. lockReqs reqs Map.empty = Inr (ks, t) \<and> unlockReqs ks t = Inr Map.empty"
proof -
  let ?ks = "sort_unique (map fst (sectors_of reqs))"
  have d: "distinct ?ks" by simp
  from lock_all_empty [OF d] obtain t where "lock_all False ?ks Map.empty = Inr t" "foldE unlock ?ks t = Inr Map.empty" using d by blast
  then show ?thesis by (simp add: lockReqs_def unlockReqs_def)
qed

text \<open>\<^verbatim>\<open>unlock_vec\<close> is given the target twice; the second release finds no entry.\<close>

lemma lock_vec_empty:
  assumes "distinct (target # nh)" "target \<noteq> kInvalidID"
  shows "\<exists>t. lock_vec target nh False Map.empty = Inr t \<and> unlock_vec target (nh @ [target]) t = Inr Map.empty"
proof -
  have d: "distinct (sort (nh @ [target]))" "set (target # nh) = set (sort (nh @ [target]))" using assms(1) by auto
  from lock_all_empty [OF d(1)] obtain t where t: "lock_all False (sort (nh @ [target])) Map.empty = Inr t"
    "foldE unlock (target # nh) t = Inr Map.empty" using assms(1) d(2) by blast
  then obtain t1 where t1: "unlock target t = Inr t1" "foldE unlock nh t1 = Inr Map.empty" by auto
  have "foldE unlock (nh @ [target]) t1 = Inr Map.empty"
    unfolding foldE_append t1(2) by (simp add: unlock_def)
  then show ?thesis using t(1) t1(1) assms(2) by (simp add: lock_vec_def unlock_vec_def Let_def)
qed

lemma lock_idx_empty: "\<exists>ks t. lock_idx target nh False Map.empty = Inr (ks, t) \<and> unlock_idx ks t = Inr Map.empty"
  by (rule lock_unlock_idx) (simp_all add: lk_def)

lemma lock_page_idx_empty:
  assumes "\<forall>i \<in> insert target (set nh). \<exists>p. pg i = Inr p"
  shows "\<exists>ks t. lock_page_idx use pg target nh False Map.empty = Inr (ks, t) \<and> unlock_page_idx use ks t = Inr Map.empty"
proof (cases use)
  case True
  let ?ids = "nh @ (if target \<noteq> kInvalidID then [target] else [])"
  define ps where "ps = map (\<lambda>i. case pg i of Inr p \<Rightarrow> p | Inl e \<Rightarrow> 0) ?ids"
  have m: "mapE pg ?ids = Inr ps" unfolding ps_def
  proof (rule mapE_total)
    fix i assume "i \<in> set ?ids"
    then have "i \<in> insert target (set nh)" by (auto split: if_splits)
    with assms obtain p where "pg i = Inr p" by blast
    then show "pg i = Inr (case pg i of Inr p \<Rightarrow> p | Inl e \<Rightarrow> 0)" by simp
  qed
  have d: "distinct (sort_unique (map u32 ps))" by simp
  from lock_all_empty [OF d] obtain t where t: "lock_all False (sort_unique (map u32 ps)) Map.empty = Inr t"
    "foldE unlock (sort_unique (map u32 ps)) t = Inr Map.empty" using d by blast
  have "lock_page_idx use pg target nh False Map.empty = Inr (sort_unique (map u32 ps), t)"
    unfolding lock_page_idx_def m bindE.simps Let_def t(1) using True by simp
  then show ?thesis using t(2) True by (simp add: unlock_page_idx_def)
qed (simp add: lock_page_idx_def unlock_page_idx_def)

lemma switch_locs_spec:
  assumes t: "sx_idx_locks s = Map.empty" "sx_page_idx_locks s = Map.empty"
    and m: "\<forall>nb \<in> set nh. id2loc_map (sx_lm s) nb \<noteq> None"
    and r: "rebind (sx_g s) target nh locs (sx_lm s) = Inr lm"
  shows "switch_locs target nh locs s = Inr (s\<lparr>sx_lm := lm\<rparr>)"
proof -
  let ?lm = "(sx_lm s)\<lparr>id2loc_map := (id2loc_map (sx_lm s))(target \<mapsto> u32 (locs ! length nh))\<rparr>"
  have "rebind (sx_g s) target nh locs ?lm = rebind (sx_g s) target nh locs (sx_lm s)" by (simp add: rebind_def)
  then have rb: "rebind (sx_g s) target nh locs ?lm = Inr lm" using r by (rule trans)
  have "\<forall>i \<in> insert target (set nh). \<exists>p. id2page (sx_g s) ?lm i = Inr p"
    using m by (auto simp: id2page_def id2loc_def split: option.split)
  from lock_page_idx_empty [OF this, of "sx_use_page_search s"] obtain pks pt where
    p: "lock_page_idx (sx_use_page_search s) (id2page (sx_g s) ?lm) target nh False Map.empty = Inr (pks, pt)"
      "unlock_page_idx (sx_use_page_search s) pks pt = Inr Map.empty" by blast
  from lock_idx_empty [of target nh] obtain ks tt where
    l: "lock_idx target nh False Map.empty = Inr (ks, tt)" "unlock_idx ks tt = Inr Map.empty" by blast
  have "s\<lparr>sx_lm := lm, sx_idx_locks := Map.empty, sx_page_idx_locks := Map.empty\<rparr> = s\<lparr>sx_lm := lm\<rparr>" using t by (cases s) simp
  then show ?thesis unfolding switch_locs_def Let_def t l(1) p(1) bindE.simps prod.case rb p(2) l(2) by simp
qed

section \<open>Locations for the target and its neighbors\<close>

lemma cur_id_frame:
  "lm_ok g (lm\<lparr>cur_id := k\<rparr>) = lm_ok g lm" "map_ok g (lm\<lparr>cur_id := k\<rparr>) = map_ok g lm" "slot g (lm\<lparr>cur_id := k\<rparr>) l = slot g lm l"
  by (simp_all add: lm_ok_def map_ok_def slot_def)

lemma insert_alloc:
  assumes ok: "index_ok s" and nh: "distinct nh" "\<forall>nb \<in> set nh. id2loc_map (sx_lm s) nb \<noteq> None" "length nh < MAX_N_EDGES"
    and room: "cur_loc (sx_lm s) + length nh + 17 \<le> 4294967280" and refs: "\<forall>p \<in> set refs. p < 4294967296"
    and lm3_def: "lm3 = (sx_lm s)\<lparr>cur_id := k\<rparr>"
  shows "\<exists>locs need lm1. alloc_loc (sx_g s) (length nh + 1) refs {} lm3 = Inr (locs, need, lm1) \<and>
    took (sx_g s) lm3 lm1 locs \<and> length locs = Suc (length nh) \<and> covers (sx_g s) lm3 locs need"
proof -
  note ix = index_okD [OF ok]
  have lm: "lm_ok (sx_g s) lm3" using ix(1) by (simp add: lm3_def cur_id_frame)
  have c: "cur_loc lm3 + (length nh + 1) + 16 \<le> 4294967280" using room by (simp add: lm3_def)
  from alloc_loc_spec [OF ix(5) lm _ refs c, of "{}"] show ?thesis by auto
qed

text \<open>A node of the index is not at a slot handed out, and its page is read before it is written.\<close>

lemma covers_node:
  assumes ok: "index_ok s" and lm3_def: "lm3 = (sx_lm s)\<lparr>cur_id := k\<rparr>"
    and t: "took (sx_g s) lm3 lm1 locs" and c: "covers (sx_g s) lm3 locs need" and i: "id2loc_map (sx_lm s) i = Some l"
  shows "l < 4294967280" "l \<notin> set locs" "loc_sector_no (sx_g s) l \<in> loc_sector_no (sx_g s) ` set locs \<longrightarrow> loc_sector_no (sx_g s) l \<in> need"
proof -
  note ix = index_okD [OF ok]
  note m = map_okD [OF ix(2)]
  have l: "l < cur_loc (sx_lm s)" "slot (sx_g s) lm3 l = i" "i < kAllocatedID" using m(1-3) i by (simp_all add: lm3_def cur_id_frame)
  then show small: "l < 4294967280" using lm_okD(5) [OF ix(1)] by simp
  have live: "slot (sx_g s) lm3 l \<noteq> kInvalidID" using l(2,3) live_id by simp
  then show "l \<notin> set locs" using tookD(3) [OF t] by blast
  show "loc_sector_no (sx_g s) l \<in> loc_sector_no (sx_g s) ` set locs \<longrightarrow> loc_sector_no (sx_g s) l \<in> need"
  proof
    assume "loc_sector_no (sx_g s) l \<in> loc_sector_no (sx_g s) ` set locs"
    then obtain l' where l': "l' \<in> set locs" "loc_sector_no (sx_g s) l' = loc_sector_no (sx_g s) l" by auto
    have "l' < 4294967280" using tookD(4) [OF t l'(1)] lm_okD(5) [OF tookD(1) [OF t]] by simp
    then have "l div nnodes_per_sector (sx_g s) = l' div nnodes_per_sector (sx_g s)"
      using l'(2) small loc_sector_small [OF ix(5)] by simp
    then have "loc_sector_no (sx_g s) l' \<in> need" using c l'(1) live unfolding covers_def by blast
    then show "loc_sector_no (sx_g s) l \<in> need" using l'(2) by simp
  qed
qed

lemma plan_of_took:
  assumes ok: "index_ok s" and lm3_def: "lm3 = (sx_lm s)\<lparr>cur_id := k\<rparr>"
    and t: "took (sx_g s) lm3 lm1 locs" and c: "covers (sx_g s) lm3 locs need" and len: "length locs = Suc (length nh)"
    and nh: "\<forall>nb \<in> set nh. id2loc_map (sx_lm s) nb \<noteq> None" "length nh < MAX_N_EDGES"
    and s4: "sx_g s4 = sx_g s" "sx_lm s4 = lm1" "cache_inv (sx_cache s4)"
      "\<forall>p. pins (sx_cache s4) p + (2 * MAX_N_EDGES + 2) < 18446744073709551616"
  shows "insert_plan s4 nh locs need"
  unfolding insert_plan_def s4
proof (intro conjI ballI)
  note ix = index_okD [OF ok]
  show "wf_geom (sx_g s)" by (rule ix(5))
  show "cache_inv (sx_cache s4)" "\<forall>p. pins (sx_cache s4) p + (2 * MAX_N_EDGES + 2) < 18446744073709551616" by (rule s4)+
  show "length nh \<le> MAX_N_EDGES" using nh(2) by simp
  show "length locs = Suc (length nh)" "distinct locs" by (rule len, rule tookD(2) [OF t])
  show "l < 4294967280" if "l \<in> set locs" for l using tookD(4) [OF t that] lm_okD(5) [OF tookD(1) [OF t]] by simp
  fix nb assume "nb \<in> set nh"
  then obtain l where l: "id2loc_map (sx_lm s) nb = Some l" using nh(1) by blast
  have "id2loc_map lm1 nb = Some l" using l tookD(6) [OF t] by (simp add: lm3_def)
  with covers_node [OF ok lm3_def t c l]
  show "\<exists>l < 4294967280. id2loc_map lm1 nb = Some l \<and> l \<notin> set locs \<and>
      (loc_sector_no (sx_g s) l \<in> loc_sector_no (sx_g s) ` set locs \<longrightarrow> loc_sector_no (sx_g s) l \<in> need)" by blast
qed

lemma rebind_took:
  assumes ok: "index_ok s" and lm3_def: "lm3 = (sx_lm s)\<lparr>cur_id := k\<rparr>" and t: "took (sx_g s) lm3 lm1 locs"
    and nh: "distinct nh" "\<forall>nb \<in> set nh. id2loc_map (sx_lm s) nb \<noteq> None" and len: "length locs = Suc (length nh)"
    and tg: "target < kAllocatedID" "id2loc_map (sx_lm s) target = None"
  shows "\<exists>lm. rebind (sx_g s) target nh locs lm1 = Inr lm \<and> lm_ok (sx_g s) lm \<and> map_ok (sx_g s) lm \<and>
    id2loc_map lm = (id2loc_map (sx_lm s))(nh @ [target] [\<mapsto>] locs)"
proof -
  note ix = index_okD [OF ok]
  have m3: "map_ok (sx_g s) lm3" using ix(2) by (simp add: lm3_def cur_id_frame)
  have i: "id2loc_map lm1 = id2loc_map (sx_lm s)" using tookD(6) [OF t] by (simp add: lm3_def)
  have "target \<notin> set nh" using nh(2) tg(2) by auto
  then have d: "distinct (nh @ [target])" using nh(1) by simp
  have l: "\<forall>l \<in> set locs. l < cur_loc lm1 \<and> slot (sx_g s) lm1 l = kAllocatedID" using tookD(4,5) [OF t] by simp
  have len': "length locs = length (nh @ [target])" using len by simp
  from rebind_spec [OF ix(5) tookD(1) [OF t] took_map_ok [OF t m3] d tg(1) _ _ len' tookD(2) [OF t] l] tg(2) nh(2)
  show ?thesis unfolding i by blast
qed

text \<open>The counters are not touched by a change of the mapping.\<close>

lemma set_loc2id_cur: "set_loc2id g l i lm = Inr lm' \<Longrightarrow> cur_id lm' = cur_id lm \<and> cur_loc lm' = cur_loc lm"
  unfolding set_loc2id_def Let_def by (auto split: option.splits)

lemma erase_loc2id_cur: "erase_loc2id g l lm = Inr lm' \<Longrightarrow> cur_id lm' = cur_id lm \<and> cur_loc lm' = cur_loc lm"
  unfolding erase_loc2id_def Let_def by (auto split: option.splits if_splits)

lemma rebind_nbrs_cur: "rebind_nbrs nbs ls (lm, orig) = Inr (lm', orig') \<Longrightarrow> cur_id lm' = cur_id lm \<and> cur_loc lm' = cur_loc lm"
proof (induction nbs arbitrary: ls lm orig)
  case (Cons nb nbs)
  then show ?case by (cases ls) fastforce+
qed simp

lemma foldE_cur:
  assumes "foldE f xs (lm :: loc_map) = Inr lm'" "\<And>x lm lm'. f x lm = Inr lm' \<Longrightarrow> cur_id lm' = cur_id lm \<and> cur_loc lm' = cur_loc lm"
  shows "cur_id lm' = cur_id lm \<and> cur_loc lm' = cur_loc lm"
  using assms(1)
proof (induction xs arbitrary: lm)
  case (Cons x xs)
  then show ?case using assms(2) by fastforce
qed simp

lemma rebind_cur: "rebind g target nh locs lm = Inr lm' \<Longrightarrow> cur_id lm' = cur_id lm \<and> cur_loc lm' = cur_loc lm"
proof -
  assume r: "rebind g target nh locs lm = Inr lm'"
  let ?lm = "lm\<lparr>id2loc_map := (id2loc_map lm)(target \<mapsto> u32 (locs ! length nh))\<rparr>"
  from r obtain lm1 orig where 1: "rebind_nbrs nh locs (?lm, []) = Inr (lm1, orig)" "erase_and_set_loc g orig locs (nh @ [target]) lm1 = Inr lm'"
    by (auto simp: rebind_def split: if_splits)
  then obtain lm2 where 2: "foldE (\<lambda>(l, i). set_loc2id g (u32 l) i) (zip locs (nh @ [target])) lm1 = Inr lm2"
    "foldE (\<lambda>l. erase_loc2id g (u32 l)) orig lm2 = Inr lm'" by (auto simp: erase_and_set_loc_def split: if_splits)
  have a: "cur_id lm1 = cur_id lm \<and> cur_loc lm1 = cur_loc lm" using rebind_nbrs_cur [OF 1(1)] by simp
  have b: "cur_id lm2 = cur_id lm1 \<and> cur_loc lm2 = cur_loc lm1"
    by (rule foldE_cur [OF 2(1)]) (auto dest: set_loc2id_cur split: prod.splits)
  have c: "cur_id lm' = cur_id lm2 \<and> cur_loc lm' = cur_loc lm2"
    by (rule foldE_cur [OF 2(2)]) (auto dest: erase_loc2id_cur)
  from a b c show ?thesis by simp
qed

section \<open>The new lists\<close>

definition new_list :: "bool \<Rightarrow> ssd \<Rightarrow> nat \<Rightarrow> nat \<Rightarrow> nat list" where
  "new_list dp s target nb = (case new_nbrs dp (sx_pq s) (sx_data s) (sx_cfg s) target nb (snd (old_rec s nb)) of Inr l \<Rightarrow> l | Inl e \<Rightarrow> [])"

lemma insert_lists:
  assumes ok: "index_ok s" "setup_ok en s" and tg: "target = cur_id (sx_lm s)" "target < kAllocatedID"
    and s4: "sx_g s4 = sx_g s" "id2loc_map (sx_lm s4) = id2loc_map (sx_lm s)" "view_of s4 = view_of s" "sx_pq s4 = sx_pq s" "sx_cfg s4 = sx_cfg s"
      "target * sx_n_chunks s + sx_n_chunks s \<le> length (sx_data s4)" "length (sx_data s) \<le> length (sx_data s4)"
    and nh: "\<forall>nb \<in> set nh. id2loc_map (sx_lm s) nb \<noteq> None" "length nh \<le> cf_range (sx_cfg s)"
  shows "new_lists dp s4 target nh (new_list dp s4 target)"
    "\<forall>nb \<in> set nh. \<exists>c old. old_rec s4 nb = (c, old) \<and> distinct (new_list dp s4 target nb) \<and>
       set (new_list dp s4 target nb) \<subseteq> insert target (set old) \<and> length (new_list dp s4 target nb) \<le> cf_range (sx_cfg s) \<and>
       (length old < cf_range (sx_cfg s) \<longrightarrow> new_list dp s4 target nb = old @ [target])"
proof -
  note ix = index_okD [OF ok(1)] and st = ok(2) [unfolded setup_ok_def]
  note gok = graph_okD [OF ix(3)]
  have small: "i < 4294967296" if m: "id2loc_map (sx_lm s) i \<noteq> None" for i
  proof -
    from m obtain l where l: "id2loc_map (sx_lm s) i = Some l" by blast
    have "i < cur_id (sx_lm s)" by (rule gok(2) [OF l])
    then show ?thesis using tg by (simp add: kAllocatedID_def)
  qed
  have nb: "length (snd (old_rec s4 nb)) \<le> max_nbrs (sx_g s) \<and> (\<exists>l. new_nbrs dp (sx_pq s4) (sx_data s4) (sx_cfg s4) target nb (snd (old_rec s4 nb)) = Inr l \<and>
      distinct l \<and> set l \<subseteq> insert target (set (snd (old_rec s4 nb))) \<and> length l \<le> cf_range (sx_cfg s) \<and>
      (length (snd (old_rec s4 nb)) < cf_range (sx_cfg s) \<longrightarrow> l = snd (old_rec s4 nb) @ [target]) \<and> (\<forall>x \<in> set l. x < 4294967296))"
    if nb: "nb \<in> set nh" for nb
  proof -
    from nh(1) nb obtain l where l: "id2loc_map (sx_lm s) nb = Some l" by blast
    define old where "old = loc_nbrs (sx_g s) (view_of s) l"
    have o: "snd (old_rec s4 nb) = old" by (simp add: old_rec_def view_rec_def nbr_loc_def s4 l old_def)
    have mp: "\<forall>x \<in> set old. id2loc_map (sx_lm s) x \<noteq> None" using gok(7) [OF l] by (simp add: old_def)
    have tn: "target \<notin> set old" using mp gok(2) tg(1) by blast
    have code: "\<forall>x \<in> insert nb (insert target (set old)). x * pq_n_chunks (sx_pq s) + pq_n_chunks (sx_pq s) \<le> length (sx_data s4)"
    proof
      fix x assume "x \<in> insert nb (insert target (set old))"
      then consider "x = target" | "id2loc_map (sx_lm s) x \<noteq> None" using mp l by auto
      then show "x * pq_n_chunks (sx_pq s) + pq_n_chunks (sx_pq s) \<le> length (sx_data s4)"
      proof cases
        case 2
        then obtain lx where "id2loc_map (sx_lm s) x = Some lx" by blast
        from gok(3) [OF this] s4(7) st show ?thesis by simp
      qed (use s4(6) st in simp)
    qed
    have lo: "distinct old" "length old \<le> cf_range (sx_cfg s)" using ix(7,8) [OF l] by (simp_all add: old_def)
    have pr: "pq_pairs_ok (sx_pq s)" "pq_finite (sx_pq s)" "f_below_inf (cf_alpha (sx_cfg s))" "cf_range (sx_cfg s) < 32767"
      "(cf_range (sx_cfg s) + 1) * pq_n_chunks (sx_pq s) \<le> pq_coord_alloc_size" "cf_range (sx_cfg s) \<le> max_nbrs (sx_g s)"
      using st by (simp_all add: MAX_N_EDGES_def)
    from new_nbrs_spec [OF pr(1-3) lo(1) tn lo(2) pr(4,5) code, of dp] obtain l' where
      l': "new_nbrs dp (sx_pq s) (sx_data s4) (sx_cfg s) target nb old = Inr l'" "distinct l'" "set l' \<subseteq> insert target (set old)"
        "length l' \<le> cf_range (sx_cfg s)" "length old < cf_range (sx_cfg s) \<longrightarrow> l' = old @ [target]" by blast
    have "\<forall>x \<in> set l'. x < 4294967296"
    proof
      fix x assume "x \<in> set l'"
      with l'(3) have "x = target \<or> x \<in> set old" by blast
      then show "x < 4294967296" using small mp tg(2) by (auto simp: kAllocatedID_def)
    qed
    then show ?thesis using l' lo(2) pr(6) unfolding o s4 by (intro conjI exI [of _ l']) simp_all
  qed
  have nl: "new_nbrs dp (sx_pq s4) (sx_data s4) (sx_cfg s4) target nb (snd (old_rec s4 nb)) = Inr (new_list dp s4 target nb)" if "nb \<in> set nh" for nb
    using nb [OF that] by (auto simp: new_list_def)
  have rm: "cf_range (sx_cfg s) \<le> max_nbrs (sx_g s)" using st by simp
  show "new_lists dp s4 target nh (new_list dp s4 target)"
    unfolding new_lists_def s4(1)
  proof (intro conjI ballI)
    show "length nh \<le> max_nbrs (sx_g s)" using nh(2) rm by simp
    fix i assume i: "i \<in> set nh"
    show "i < 4294967296" using small nh(1) i by blast
    show "length (snd (old_rec s4 i)) \<le> max_nbrs (sx_g s)" using nb [OF i] by blast
    show "new_nbrs dp (sx_pq s4) (sx_data s4) (sx_cfg s4) target i (snd (old_rec s4 i)) = Inr (new_list dp s4 target i)" by (rule nl [OF i])
    show "length (new_list dp s4 target i) \<le> max_nbrs (sx_g s)" using nb [OF i] nl [OF i] rm by auto
    show "x < 4294967296" if "x \<in> set (new_list dp s4 target i)" for x using nb [OF i] nl [OF i] that by auto
  qed
  show "\<forall>nb \<in> set nh. \<exists>c old. old_rec s4 nb = (c, old) \<and> distinct (new_list dp s4 target nb) \<and>
       set (new_list dp s4 target nb) \<subseteq> insert target (set old) \<and> length (new_list dp s4 target nb) \<le> cf_range (sx_cfg s) \<and>
       (length old < cf_range (sx_cfg s) \<longrightarrow> new_list dp s4 target nb = old @ [target])"
  proof
    fix i assume i: "i \<in> set nh"
    show "\<exists>c old. old_rec s4 i = (c, old) \<and> distinct (new_list dp s4 target i) \<and>
       set (new_list dp s4 target i) \<subseteq> insert target (set old) \<and> length (new_list dp s4 target i) \<le> cf_range (sx_cfg s) \<and>
       (length old < cf_range (sx_cfg s) \<longrightarrow> new_list dp s4 target i = old @ [target])"
      using nb [OF i] nl [OF i] by (intro exI [of _ "fst (old_rec s4 i)"] exI [of _ "snd (old_rec s4 i)"]) auto
  qed
qed

section \<open>The whole insert\<close>

lemma length_deflate_vector: "length (deflate_vector t n v) = n"
proof -
  have "length (fold (\<lambda>c out. out[c := snd (deflate_chunk t v c (out ! c))]) cs out) = length out" for cs and out :: "nat list"
    by (induction cs arbitrary: out) simp_all
  then show ?thesis by (simp add: deflate_vector_def deflate_vec_def)
qed

end
