(* ===== verification/Insert_Run.thy ===== *)
theory Insert_Run imports Insert_Correct Merge_Correct begin

text \<open>
  \<^verbatim>\<open>insert_in_place\<close> as a whole: on an index in order it returns, the new node is linked into the
  graph, nothing else changes, and the index is in order again; the background thread's turn then
  brings the file up to date, frees the page locks and gives the buffer and the page references back.
\<close>

section \<open>What an insert leaves\<close>

text \<open>The state an insert leaves: the mapping, the codes, the tag; the page buffers and the cache;
  the pages locked and handed to the background thread.\<close>

definition insert_result :: "ssd \<Rightarrow> query_buf \<Rightarrow> nat \<Rightarrow> loc_map \<Rightarrow> byte list \<Rightarrow> page_cache \<Rightarrow> mem \<Rightarrow> nat lock_table \<Rightarrow> bg_task \<Rightarrow> ssd" where
  "insert_result s qb tag lm d c m pt task =
     s\<lparr>sx_pool := cq_push (Some qb) ((sx_pool s)\<lparr>cq_q := tl (tl (cq_q (sx_pool s)))\<rparr>), sx_lm := lm, sx_data := d,
       sx_tags := (sx_tags s)(cur_id (sx_lm s) \<mapsto> tag), sx_cache := c, sx_mem := m, sx_page_locks := pt,
       sx_bg_tasks := cq_push (Some task) (sx_bg_tasks s), sx_bg_inflight := u64 (sx_bg_inflight s + 1)\<rparr>"

text \<open>The nodes as the index shows them.\<close>

definition node_at :: "ssd \<Rightarrow> nat \<Rightarrow> node_rec option" where
  "node_at s i = map_option (view_rec (sx_g s) (view_of s)) (id2loc_map (sx_lm s) i)"

text \<open>The graph with the new node in it: its list is of live nodes, each of which keeps its vector and
  gets the new node appended or, when its list is full, a list chosen from its old one and the new node.\<close>

definition linked :: "ssd \<Rightarrow> nat \<Rightarrow> byte list \<Rightarrow> nat list \<Rightarrow> (nat \<Rightarrow> nat list) \<Rightarrow> (nat \<Rightarrow> node_rec option) \<Rightarrow> bool" where
  "linked s tg point nh nl nodes \<longleftrightarrow> nh \<noteq> [] \<and> distinct nh \<and> set nh \<subseteq> {i. live s {sx_medoid s} i} \<and> length nh \<le> cf_range (sx_cfg s) \<and>
     nodes tg = Some (take (vec_bytes (sx_g s)) point, nh) \<and>
     (\<forall>nb \<in> set nh. \<exists>c old. node_at s nb = Some (c, old) \<and> nodes nb = Some (c, nl nb) \<and> distinct (nl nb) \<and>
        set (nl nb) \<subseteq> insert tg (set old) \<and> length (nl nb) \<le> cf_range (sx_cfg s) \<and>
        (length old < cf_range (sx_cfg s) \<longrightarrow> nl nb = old @ [tg])) \<and>
     (\<forall>i. i \<noteq> tg \<longrightarrow> i \<notin> set nh \<longrightarrow> nodes i = node_at s i)"

text \<open>The codes: room for the new one, which is stored; the others are kept.\<close>

definition data_grown :: "ssd \<Rightarrow> nat \<Rightarrow> byte list \<Rightarrow> byte list \<Rightarrow> bool" where
  "data_grown s tg code d \<longleftrightarrow> tg * sx_n_chunks s + sx_n_chunks s \<le> length d \<and> length (sx_data s) \<le> length d \<and>
     code_of (s\<lparr>sx_data := d\<rparr>) tg = code \<and>
     (\<forall>i < tg. i * sx_n_chunks s + sx_n_chunks s \<le> length (sx_data s) \<longrightarrow> code_of (s\<lparr>sx_data := d\<rparr>) i = code_of s i)"

text \<open>The pages handed over: what the buffers hold is what the cache shows, and each is pinned.\<close>

definition pending :: "page_cache \<Rightarrow> mem \<Rightarrow> mem \<Rightarrow> bg_task \<Rightarrow> bool" where
  "pending c f m task \<longleftrightarrow> page_writes (bt_writes task) \<and> map fst (write_pages m (bt_writes task)) = bt_pages_to_deref task \<and>
     (\<forall>(p, b) \<in> set (write_pages m (bt_writes task)). page_view c f p = b)"

lemma linked_moved:
  assumes nh: "nh \<noteq> []" "distinct nh" "set nh \<subseteq> {i. live s {sx_medoid s} i}" "length nh \<le> cf_range (sx_cfg s)"
    and tn: "id2loc_map (sx_lm s) tg = None" and len: "length locs = Suc (length nh)"
    and lm: "id2loc_map lm = (id2loc_map (sx_lm s))(nh @ [tg] [\<mapsto>] locs)"
    and target: "view_rec (sx_g s) v (last locs) = (take (vec_bytes (sx_g s)) point, nh)"
    and nbs: "\<forall>(nb, l) \<in> set (zip nh locs). view_rec (sx_g s) v l = (fst (old nb), nl nb)"
    and old: "\<forall>nb \<in> set nh. node_at s nb = Some (old nb)"
    and lists: "\<forall>nb \<in> set nh. \<exists>c o'. old nb = (c, o') \<and> distinct (nl nb) \<and> set (nl nb) \<subseteq> insert tg (set o') \<and>
      length (nl nb) \<le> cf_range (sx_cfg s) \<and> (length o' < cf_range (sx_cfg s) \<longrightarrow> nl nb = o' @ [tg])"
    and rest: "\<And>i l. id2loc_map (sx_lm s) i = Some l \<Longrightarrow> view_rec (sx_g s) v l = view_rec (sx_g s) (view_of s) l"
  shows "linked s tg point nh nl (\<lambda>i. map_option (view_rec (sx_g s) v) (id2loc_map lm i))"
proof -
  have nm: "\<forall>nb \<in> set nh. id2loc_map (sx_lm s) nb \<noteq> None" using nh(3) by (auto simp: live_def)
  then have d: "distinct (nh @ [tg])" using nh(2) tn by auto
  have len': "length locs = length (nh @ [tg])" using len by simp
  note val = upds_val [OF d len', of "id2loc_map (sx_lm s)", folded lm]
  have nth: "id2loc_map lm ((nh @ [tg]) ! j) = Some (locs ! j)" if "j < length locs" for j
    unfolding val using map_of_zip_nth [OF len' [symmetric] d that] by simp
  have "locs \<noteq> []" using len by auto
  then have "id2loc_map lm tg = Some (last locs)" using nth [of "length nh"] len by (simp add: last_conv_nth)
  then have t: "map_option (view_rec (sx_g s) v) (id2loc_map lm tg) = Some (take (vec_bytes (sx_g s)) point, nh)" using target by simp
  have n: "\<exists>c o'. node_at s nb = Some (c, o') \<and> map_option (view_rec (sx_g s) v) (id2loc_map lm nb) = Some (c, nl nb) \<and> distinct (nl nb) \<and>
        set (nl nb) \<subseteq> insert tg (set o') \<and> length (nl nb) \<le> cf_range (sx_cfg s) \<and>
        (length o' < cf_range (sx_cfg s) \<longrightarrow> nl nb = o' @ [tg])" if nb: "nb \<in> set nh" for nb
  proof -
    from nb obtain j where j: "j < length nh" "nb = nh ! j" by (auto simp: in_set_conv_nth)
    have "(nb, locs ! j) \<in> set (zip nh locs)" using j len by (auto simp: in_set_zip)
    from bspec [OF nbs this] have "view_rec (sx_g s) v (locs ! j) = (fst (old nb), nl nb)" by simp
    then have "map_option (view_rec (sx_g s) v) (id2loc_map lm nb) = Some (fst (old nb), nl nb)"
      using nth [of j] j len by (simp add: nth_append)
    then show ?thesis using bspec [OF lists nb] bspec [OF old nb] by auto
  qed
  have r: "map_option (view_rec (sx_g s) v) (id2loc_map lm i) = node_at s i" if "i \<noteq> tg" "i \<notin> set nh" for i
  proof -
    have "map_of (zip (nh @ [tg]) locs) i = None" using that len by (simp add: map_of_zip_is_None)
    then have "id2loc_map lm i = id2loc_map (sx_lm s) i" unfolding val by simp
    then show ?thesis using rest [of i] by (cases "id2loc_map (sx_lm s) i") (simp_all add: node_at_def)
  qed
  show ?thesis unfolding linked_def using nh t n r by blast
qed

lemma insert_run:
  assumes ok: "index_ok s" "setup_ok en s" "no_locks s" "insert_room fuel s" "padded_bufs s qb"
    and pool: "cq_q (sx_pool s) = Some rd # Some qb # bufs" and pt: "vec_bytes (sx_g s) \<le> length point"
    and tg_def: "tg = cur_id (sx_lm s)"
  shows "\<exists>d nh nl lm c m t task.
    insert_in_place dp en fuel point tag del s = Inr (tg, insert_result s qb tag lm d c m t task) \<and>
    unlockReqs (bt_pages_to_unlock task) t = Inr Map.empty \<and> bt_thread_data task = rd \<and> pending c (sx_file s) m task \<and>
    cache_inv c \<and> pins c = (\<lambda>p. pins (sx_cache s) p + (if p \<in> set (bt_pages_to_deref task) then 1 else 0)) \<and>
    data_grown s tg (deflate_vector (sx_pq s) (sx_n_chunks s) (en_float en point)) d \<and>
    lm_ok (sx_g s) lm \<and> map_ok (sx_g s) lm \<and> cur_id lm = Suc tg \<and> dom (id2loc_map lm) = insert tg (dom (id2loc_map (sx_lm s))) \<and>
    linked s tg point nh nl (\<lambda>i. map_option (view_rec (sx_g s) (page_view c (sx_file s))) (id2loc_map lm i))"
proof -
  note ix = index_okD [OF ok(1)]
  note st = ok(2) [unfolded setup_ok_def] and rm = ok(4) [unfolded insert_room_def] and pb = ok(5) [unfolded padded_bufs_def]
  define g where "g = sx_g s"
  define n where "n = sx_n_chunks s"
  have tg: "tg < kAllocatedID" "tg < 4294967296" "u32 tg = tg" "u64 (tg + 1) = Suc tg"
    using rm by (simp_all add: tg_def kAllocatedID_def u32_id u64_id)
  define s1 where "s1 = s\<lparr>sx_pool := (sx_pool s)\<lparr>cq_q := Some qb # bufs\<rparr>, sx_lm := (sx_lm s)\<lparr>cur_id := Suc tg\<rparr>\<rparr>"
  have pop: "pop_query_buf en None s = Inr (rd, s\<lparr>sx_pool := (sx_pool s)\<lparr>cq_q := Some qb # bufs\<rparr>\<rparr>)"
    by (simp add: pop_query_buf_def pool cq_pop_def)
  have e1: "s\<lparr>sx_pool := (sx_pool s)\<lparr>cq_q := Some qb # bufs\<rparr>, sx_lm := (sx_lm s)\<lparr>cur_id := Suc tg\<rparr>\<rparr> = s1" by (simp add: s1_def)
  have "Suc tg * n < 4294967296 * 4294967296" by (rule mult_strict_mono) (use tg rm in \<open>simp_all add: n_def kAllocatedID_def\<close>)
  then have w: "2 \<le> length (sx_data s1)" "tg * sx_n_chunks s1 + sx_n_chunks s1 \<le> length (sx_data s1) + fuel"
    "tg * sx_n_chunks s1 + sx_n_chunks s1 < 18446744073709551616" "length (deflate_vector (sx_pq s1) (sx_n_chunks s1) (en_float en point)) = sx_n_chunks s1"
    using rm by (simp_all add: s1_def n_def tg_def length_deflate_vector)
  from write_pq_spec [OF w] obtain d where
    d: "write_pq fuel tg (deflate_vector (sx_pq s1) (sx_n_chunks s1) (en_float en point)) s1 = Inr (s1\<lparr>sx_data := d\<rparr>)"
      "data_grown s tg (deflate_vector (sx_pq s) (sx_n_chunks s) (en_float en point)) d"
    by (auto simp: s1_def data_grown_def code_of_def)
  note dg = d(2) [unfolded data_grown_def]
  have d: "write_pq fuel tg (deflate_vector (sx_pq s1) (sx_n_chunks s1) (en_float en point)) s1 = Inr (s1\<lparr>sx_data := d\<rparr>)"
    "tg * n + n \<le> length d" "length (sx_data s) \<le> length d" "data_grown s tg (deflate_vector (sx_pq s) (sx_n_chunks s) (en_float en point)) d"
    using d dg by (simp_all add: n_def)
  have s3: "s1\<lparr>sx_data := d\<rparr> = s\<lparr>sx_pool := (sx_pool s)\<lparr>cq_q := Some qb # bufs\<rparr>, sx_lm := (sx_lm s)\<lparr>cur_id := Suc (cur_id (sx_lm s))\<rparr>, sx_data := d\<rparr>"
    by (simp add: s1_def tg_def)
  from insert_search [OF ok pool d(3) s3, where compare = "\<lambda>m a b. en_compare en (peek m a (vec_stride s)) (peek m b (vec_stride s))"
      and point = point and excl = del]
  obtain res coord refs c1 m1 nh where
    b: "do_beam_search en fuel point 0 (sx_l_index s) (sx_beam_width s) True del False (Some []) (s1\<lparr>sx_data := d\<rparr>) =
      Inr (res, coord, refs, push_query_buf qb (s1\<lparr>sx_data := d, sx_pool := (sx_pool s)\<lparr>cq_q := bufs\<rparr>, sx_cache := c1, sx_mem := m1\<rparr>))"
    "prune_neighbors (\<lambda>a b. en_compare en (peek m1 a (vec_stride s)) (peek m1 b (vec_stride s))) coord (sx_cfg s) (sx_medoid s) res [] = Inr (sort_lt nb_lt res, nh)"
    "nh \<noteq> []" "distinct nh" "set nh \<subseteq> {i. live s {sx_medoid s} i}" "length nh \<le> cf_range (sx_cfg s)"
    "cache_inv c1" "page_view c1 (sx_file s) = view_of s" "pins c1 = (\<lambda>p. pins (sx_cache s) p + count_list refs p)"
    "length refs \<le> cur_id (sx_lm s)" "\<forall>p \<in> set refs. p < 4294967296" by blast
  define cmp where "cmp = (\<lambda>a b. en_compare en (peek m1 a (vec_stride s)) (peek m1 b (vec_stride s)))"
  define s4 where "s4 = push_query_buf qb (s1\<lparr>sx_data := d, sx_pool := (sx_pool s)\<lparr>cq_q := bufs\<rparr>, sx_cache := c1, sx_mem := m1\<rparr>)"
  have f4: "sx_g s4 = g" "sx_lm s4 = (sx_lm s)\<lparr>cur_id := Suc tg\<rparr>" "sx_mem s4 = m1" "sx_cfg s4 = sx_cfg s" "sx_medoid s4 = sx_medoid s"
      "vec_stride s4 = vec_stride s" "sx_page_locks s4 = Map.empty" "sx_vec_locks s4 = Map.empty" "sx_l_index s4 = sx_l_index s" "sx_beam_width s4 = sx_beam_width s"
    using ok(3) by (simp_all add: s4_def s1_def push_query_buf_def g_def vec_stride_def no_locks_def)
  have nm: "\<forall>nb \<in> set nh. id2loc_map (sx_lm s) nb \<noteq> None" using b(5) by (auto simp: live_def)
  have ln: "length nh < MAX_N_EDGES" using b(6) st by simp
  have rl: "cur_loc (sx_lm s) + length nh + 17 \<le> 4294967280" using rm b(6) by simp
  from insert_alloc [OF ok(1) b(4) nm ln rl b(11) refl, of "Suc tg"] obtain locs need lm1 where
    al: "alloc_loc g (length nh + 1) refs {} ((sx_lm s)\<lparr>cur_id := Suc tg\<rparr>) = Inr (locs, need, lm1)"
      "took g ((sx_lm s)\<lparr>cur_id := Suc tg\<rparr>) lm1 locs" "length locs = Suc (length nh)" "covers g ((sx_lm s)\<lparr>cur_id := Suc tg\<rparr>) locs need"
    unfolding g_def by blast
  define pages where "pages = rmw_pages g locs"
  from lockReqs_empty [of "map (\<lambda>p. page_req g p 0) pages"] obtain pks t where
    lr: "lockReqs (map (\<lambda>p. page_req g p 0) pages) Map.empty = Inr (pks, t)" "unlockReqs pks t = Inr Map.empty" by blast
  have tn: "id2loc_map (sx_lm s) tg = None"
  proof (rule ccontr)
    assume "id2loc_map (sx_lm s) tg \<noteq> None"
    then obtain l where "id2loc_map (sx_lm s) tg = Some l" by blast
    from graph_okD(2) [OF ix(3) this] show False by (simp add: tg_def)
  qed
  have dn: "distinct (tg # nh)" "tg \<noteq> kInvalidID" using b(4) nm tn tg by (auto simp: kAllocatedID_def kInvalidID_def)
  from lock_vec_empty [OF dn] obtain vt where
    lv: "lock_vec tg nh False Map.empty = Inr vt" "unlock_vec tg (nh @ [tg]) vt = Inr Map.empty" by blast
  define s5 where "s5 = s4\<lparr>sx_lm := lm1, sx_page_locks := t, sx_vec_locks := vt\<rparr>"
  have s5: "s5 = s\<lparr>sx_pool := cq_push (Some qb) ((sx_pool s)\<lparr>cq_q := bufs\<rparr>), sx_lm := lm1, sx_data := d, sx_cache := c1, sx_mem := m1,
      sx_page_locks := t, sx_vec_locks := vt\<rparr>"
    by (simp add: s5_def s4_def s1_def push_query_buf_def)
  have f5: "sx_g s5 = sx_g s" "sx_lm s5 = lm1" "cache_inv (sx_cache s5)" "id2loc_map (sx_lm s5) = id2loc_map (sx_lm s)"
      "view_of s5 = view_of s" "sx_pq s5 = sx_pq s" "sx_cfg s5 = sx_cfg s" "sx_data s5 = d" "sx_file s5 = sx_file s"
      "sx_cache s5 = c1"
    using b(7,8) tookD(6) [OF al(2)] by (simp_all add: s5 view_of_def)
  have pr: "\<forall>p. pins (sx_cache s5) p + (2 * MAX_N_EDGES + 2) < 18446744073709551616"
  proof
    fix p have "pins (sx_cache s) p < 9223372036854775808" using rm by blast
    moreover have "count_list refs p \<le> length refs" by (rule count_le_length)
    ultimately show "pins (sx_cache s5) p + (2 * MAX_N_EDGES + 2) < 18446744073709551616"
      using b(10) tg(2) unfolding f5(10) b(9) tg_def by (simp add: MAX_N_EDGES_def)
  qed
  have plan: "insert_plan s5 nh locs need"
    by (rule plan_of_took [OF ok(1) refl al(2,4) [unfolded g_def] al(3) nm ln f5(1-3) pr])
  note il = insert_lists [OF ok(1,2) tg_def tg(1) f5(1,4,5,6,7), of nh dp, unfolded f5(8)]
  define nl where "nl = new_list dp s5 tg"
  have dn': "tg * sx_n_chunks s + sx_n_chunks s \<le> length d" using d(2) by (simp add: n_def)
  note il = il [OF dn' d(3) nm b(6)]
  define ws where "ws = plan_writes s5 (qb_update rd) nh locs"
  from rewrite_commit [OF plan f5(1) [symmetric] refl il(1) pt pages_def [unfolded g_def], where page_ref = refs and rd = rd] obtain refs2 c2 m2 c3 where
    rw: "rewrite_nodes dp tg point nh locs need rd (refs, s5) = Inr (ws, refs @ refs2, s5\<lparr>sx_cache := c2, sx_mem := m2\<rparr>)"
      "wbc_write m2 ws (c2, []) = (c3, pages)" "cache_inv c3"
      "pins c3 = (\<lambda>p. pins (sx_cache s5) p + count_list refs2 p + (if p \<in> set pages then 1 else 0))" "nh \<noteq> [] \<longrightarrow> refs2 \<noteq> []"
      "\<forall>p. p \<notin> set pages \<longrightarrow> page_view c3 (sx_file s5) p = view_of s5 p"
      "\<forall>(p, b) \<in> set (write_pages m2 ws). page_view c3 (sx_file s5) p = b" "map fst (write_pages m2 ws) = pages"
      "view_rec (sx_g s) (page_view c3 (sx_file s5)) (last locs) = (take (vec_bytes (sx_g s)) point, nh)"
      "\<forall>(nb, l) \<in> set (zip nh locs). view_rec (sx_g s) (page_view c3 (sx_file s5)) l = (fst (old_rec s5 nb), new_list dp s5 tg nb)"
      "\<forall>l. l < 4294967280 \<longrightarrow> l \<notin> set locs \<longrightarrow> (loc_sector_no (sx_g s) l \<in> set pages \<longrightarrow> loc_sector_no (sx_g s) l \<in> need) \<longrightarrow>
        length (snd (view_rec (sx_g s) (view_of s5) l)) \<le> max_nbrs (sx_g s) \<longrightarrow>
        view_rec (sx_g s) (page_view c3 (sx_file s5)) l = view_rec (sx_g s) (view_of s5) l"
    unfolding ws_def by blast
  from rebind_took [OF ok(1) refl al(2) [unfolded g_def] b(4) nm al(3) tg(1) tn] obtain lm where
    rb: "rebind (sx_g s) tg nh locs lm1 = Inr lm" "lm_ok (sx_g s) lm" "map_ok (sx_g s) lm"
      "id2loc_map lm = (id2loc_map (sx_lm s))(nh @ [tg] [\<mapsto>] locs)" by blast
  define s6 where "s6 = s5\<lparr>sx_cache := c3, sx_mem := m2, sx_tags := (sx_tags s)(tg \<mapsto> tag)\<rparr>"
  have f6: "sx_idx_locks s6 = Map.empty" "sx_page_idx_locks s6 = Map.empty" "sx_lm s6 = lm1" "sx_g s6 = sx_g s"
    using ok(3) by (simp_all add: s6_def s5 no_locks_def)
  have nm6: "\<forall>nb \<in> set nh. id2loc_map (sx_lm s6) nb \<noteq> None" using nm f5(4) by (simp add: f6 f5)
  have rb6: "rebind (sx_g s6) tg nh locs (sx_lm s6) = Inr lm" by (simp add: f6 rb(1))
  note sw = switch_locs_spec [OF f6(1,2) nm6 rb6]
  define cf where "cf = deref_pages (refs @ refs2) c3"
  define task where "task = \<lparr>bt_thread_data = rd, bt_writes = ws, bt_pages_to_unlock = pks, bt_pages_to_deref = pages\<rparr>"
  have lm0: "sx_lm (s\<lparr>sx_pool := (sx_pool s)\<lparr>cq_q := Some qb # bufs\<rparr>\<rparr>) = sx_lm s" by simp
  note tg' = tg(3,4) [unfolded tg_def]
  have tge: "cur_id (sx_lm s) = tg" by (simp add: tg_def)
  have f1: "sx_pq s1 = sx_pq s" "sx_n_chunks s1 = sx_n_chunks s" "sx_l_index (s1\<lparr>sx_data := d\<rparr>) = sx_l_index s" 
   "sx_beam_width (s1\<lparr>sx_data := d\<rparr>) = sx_beam_width s"
    by (simp_all add: s1_def)
  have f4b: "sx_g (s4\<lparr>sx_lm := lm1\<rparr>) = g" "sx_page_locks (s4\<lparr>sx_lm := lm1\<rparr>) = Map.empty" "sx_vec_locks (s4\<lparr>sx_lm := lm1\<rparr>) = Map.empty"
    by (simp_all add: f4)
  have s6': "s5\<lparr>sx_cache := c2, sx_mem := m2, sx_tags := (sx_tags (s5\<lparr>sx_cache := c2, sx_mem := m2\<rparr>))(tg \<mapsto> tag), sx_cache := c3\<rparr> = s6"
    by (simp add: s6_def s5)
  have f6b: "sx_mem (s5\<lparr>sx_cache := c2, sx_mem := m2, sx_tags := (sx_tags (s5\<lparr>sx_cache := c2, sx_mem := m2\<rparr>))(tg \<mapsto> tag)\<rparr>) = m2"
    "sx_cache (s5\<lparr>sx_cache := c2, sx_mem := m2, sx_tags := (sx_tags (s5\<lparr>sx_cache := c2, sx_mem := m2\<rparr>))(tg \<mapsto> tag)\<rparr>) = c2"
    "sx_vec_locks (s6\<lparr>sx_lm := lm\<rparr>) = vt"
    by (simp_all add: s6_def s5)
  have ne: "refs @ refs2 \<noteq> []" using rw(5) b(3) by simp
  have ho: "hand_over rd ws pks pages (refs @ refs2) (s6\<lparr>sx_lm := lm, sx_vec_locks := Map.empty\<rparr>) =
      Inr (insert_result s qb tag lm d cf m2 t task)"
    using ok(3) ne by (simp add: hand_over_def insert_result_def s6_def s5 cf_def task_def pool tg_def no_locks_def)
  have "insert_in_place dp en fuel point tag del s = Inr (tg, insert_result s qb tag lm d cf m2 t task)"
    unfolding insert_in_place_def pop bindE.simps prod.case Let_def lm0 tge tg(3,4) e1 d(1) f1(3,4) b(1) s4_def [symmetric] f4 cmp_def [symmetric]
 b(2) [unfolded cmp_def [symmetric]] g_def [symmetric] al(1) pages_def [symmetric]
    f4b(1-3) lr(1) lv(1) s5_def [symmetric] rw(1) f6b rw(2) s6' sw lv(2) ho ..
  moreover have dr: "cache_inv cf \<and> page_view cf (sx_file s) = page_view c3 (sx_file s) \<and>
      pins cf = (\<lambda>p. pins (sx_cache s) p + (if p \<in> set pages then 1 else 0))"
    unfolding cf_def
  proof (rule deref_reads [OF ix(4) rw(3)])
    show "pins c3 = (\<lambda>p. pins (sx_cache s) p + count_list (refs @ refs2) p + (if p \<in> set pages then 1 else 0))"
      unfolding rw(4) f5(10) b(9) count_list_append by (simp add: add.assoc)
    show "\<forall>p. p \<notin> set pages \<longrightarrow> page_view c3 (sx_file s) p = page_view (sx_cache s) (sx_file s) p"
      using rw(6) unfolding f5(9) f5(5) unfolding view_of_def .
  qed
  moreover have "pending cf (sx_file s) m2 task"
    using plan_writes_spec(2) [OF plan refl, of "qb_update rd"] rw(7,8) dr unfolding pending_def task_def f5(9)
    by (simp add: ws_def)
  moreover have "cur_id lm = Suc tg" using rebind_cur [OF rb(1)] tookD(7) [OF al(2)] by simp
  moreover have "dom (id2loc_map lm) = insert tg (dom (id2loc_map (sx_lm s)))"
    using nm al(3) unfolding rb(4) by (auto simp: dom_map_upds)
  moreover have "linked s tg point nh nl (\<lambda>i. map_option (view_rec (sx_g s) (page_view cf (sx_file s))) (id2loc_map lm i))"
  proof (rule linked_moved [OF b(3-6) tn al(3) rb(4)])
    have v: "page_view cf (sx_file s) = page_view c3 (sx_file s5)" using dr by (simp add: f5(9))
    show "view_rec (sx_g s) (page_view cf (sx_file s)) (last locs) = (take (vec_bytes (sx_g s)) point, nh)"
      unfolding v by (rule rw(9))
    show "\<forall>(nb, l) \<in> set (zip nh locs). view_rec (sx_g s) (page_view cf (sx_file s)) l = (fst (old_rec s5 nb), nl nb)"
      unfolding v nl_def by (rule rw(10))
    show "\<forall>nb \<in> set nh. node_at s nb = Some (old_rec s5 nb)"
      using nm by (auto simp: node_at_def old_rec_def nbr_loc_def f5(1,4,5))
    show "\<forall>nb \<in> set nh. \<exists>c o'. old_rec s5 nb = (c, o') \<and> distinct (nl nb) \<and> set (nl nb) \<subseteq> insert tg (set o') \<and>
        length (nl nb) \<le> cf_range (sx_cfg s) \<and> (length o' < cf_range (sx_cfg s) \<longrightarrow> nl nb = o' @ [tg])"
      unfolding nl_def by (rule il(2))
    fix i l assume i: "id2loc_map (sx_lm s) i = Some l"
    have rmw: "set pages = loc_sector_no (sx_g s) ` set locs" by (simp add: pages_def rmw_pages_def g_def)
    have "length (snd (view_rec (sx_g s) (view_of s) l)) \<le> max_nbrs (sx_g s)" using graph_okD(4) [OF ix(3) i] by (simp add: view_rec_def)
    with rw(11) covers_node [OF ok(1) refl al(2,4) [unfolded g_def] i]
    show "view_rec (sx_g s) (page_view cf (sx_file s)) l = view_rec (sx_g s) (view_of s) l"
      unfolding v f5(5) rmw by blast
  qed
  ultimately show ?thesis using lr(2) d(4) rb(2,3)
    by (intro exI [of _ d] exI [of _ nh] exI [of _ nl] exI [of _ lm] exI [of _ cf] exI [of _ m2] exI [of _ t] exI [of _ task])
      (simp add: task_def)
qed

section \<open>The index after an insert\<close>

lemma index_ok_linked:
  assumes ok: "index_ok s" "setup_ok en s" and tg: "tg = cur_id (sx_lm s)" "tg < kAllocatedID"
    and lm: "lm_ok (sx_g s) (sx_lm s')" "map_ok (sx_g s) (sx_lm s')" "cur_id (sx_lm s') = Suc tg"
      "dom (id2loc_map (sx_lm s')) = insert tg (dom (id2loc_map (sx_lm s)))"
    and same: "sx_g s' = sx_g s" "sx_cfg s' = sx_cfg s" "sx_n_chunks s' = sx_n_chunks s" "sx_medoid s' = sx_medoid s" "cache_inv (sx_cache s')"
    and d: "data_grown s tg code (sx_data s')" and l: "linked s tg point nh nl (node_at s')"
  shows "index_ok s'"
proof -
  note ix = index_okD [OF ok(1)] and st = ok(2) [unfolded setup_ok_def] and lk = l [unfolded linked_def]
  have mapped: "id2loc_map (sx_lm s) nb \<noteq> None" if "nb \<in> set nh" for nb using lk that by (auto simp: live_def)
  have nbrs: "distinct ns \<and> length ns \<le> cf_range (sx_cfg s) \<and> (\<forall>j \<in> set ns. id2loc_map (sx_lm s') j \<noteq> None)"
    if i: "node_at s' i = Some (c, ns)" for i c ns
  proof -
    have old: "distinct os \<and> length os \<le> cf_range (sx_cfg s) \<and> (\<forall>j \<in> set os. id2loc_map (sx_lm s) j \<noteq> None)"
      if "node_at s i = Some (c, os)" for i c os
      using that ix(7,8) graph_okD(7) [OF ix(3)] by (auto simp: node_at_def view_rec_def)
    have sub: "id2loc_map (sx_lm s') j \<noteq> None" if "j = tg \<or> id2loc_map (sx_lm s) j \<noteq> None" for j using lm(4) that by blast
    consider "i = tg" | "i \<in> set nh" | "i \<noteq> tg" "i \<notin> set nh" by blast
    then show ?thesis
    proof cases
      case 1
      then have "ns = nh" using i lk by simp
      then show ?thesis using lk mapped sub by blast
    next
      case 2
      from lk have "\<forall>nb \<in> set nh. \<exists>c old. node_at s nb = Some (c, old) \<and> node_at s' nb = Some (c, nl nb) \<and> distinct (nl nb) \<and>
        set (nl nb) \<subseteq> insert tg (set old) \<and> length (nl nb) \<le> cf_range (sx_cfg s)" by blast
      from bspec [OF this 2] obtain c' os where o: "node_at s i = Some (c', os)" "ns = nl i" "distinct (nl i)"
        "set (nl i) \<subseteq> insert tg (set os)" "length (nl i) \<le> cf_range (sx_cfg s)" using i by auto
      then show ?thesis using old [OF o(1)] sub by blast
    next
      case 3
      then have "node_at s i = Some (c, ns)" using i lk by simp
      then show ?thesis using old sub by blast
    qed
  qed
  have n: "node_at s' i = Some (loc_coords (sx_g s) (view_of s') loc, loc_nbrs (sx_g s) (view_of s') loc)"
    if "id2loc_map (sx_lm s') i = Some loc" for i loc using that same(1) by (simp add: node_at_def view_rec_def)
  have g: "graph_ok s'"
    unfolding graph_ok_def same(1,3)
  proof (intro conjI allI impI ballI)
    show "wf_geom (sx_g s)" by (rule ix(5))
    fix i loc assume i: "id2loc_map (sx_lm s') i = Some loc"
    note ni = nbrs [OF n [OF i]]
    show "loc < 4294967296" using map_okD(1) [OF lm(2) i] lm_okD(5) [OF lm(1)] by simp
    have or: "i = tg \<or> (\<exists>l. id2loc_map (sx_lm s) i = Some l)" using lm(4) i by blast
    then show "i < cur_id (sx_lm s')" using graph_okD(2) [OF ix(3)] tg(1) lm(3) by fastforce
    from or show "i * sx_n_chunks s + sx_n_chunks s \<le> length (sx_data s')"
    proof
      assume "\<exists>l. id2loc_map (sx_lm s) i = Some l"
      then obtain l where "id2loc_map (sx_lm s) i = Some l" ..
      from graph_okD(3) [OF ix(3) this] d show ?thesis by (simp add: data_grown_def)
    qed (use d in \<open>simp add: data_grown_def\<close>)
    have "length (loc_nbrs (sx_g s) (view_of s') loc) * sx_n_chunks s \<le> (cf_range (sx_cfg s) + 1) * sx_n_chunks s"
      using ni by (intro mult_le_mono1) simp
    then show "length (loc_nbrs (sx_g s) (view_of s') loc) * sx_n_chunks s \<le> pq_coord_alloc_size" using st by linarith
    show "length (loc_nbrs (sx_g s) (view_of s') loc) \<le> min (max_nbrs (sx_g s)) dist_alloc_floats"
      using ni st by (simp add: MAX_N_EDGES_def dist_alloc_floats_def)
    show "id2loc_map (sx_lm s') j \<noteq> None" if "j \<in> set (loc_nbrs (sx_g s) (view_of s') loc)" for j using ni that by blast
  qed
  have "id2loc_map (sx_lm s') (sx_medoid s) \<noteq> None" using ix(6) lm(4) by blast
  then show ?thesis using lm(1,2) g same(5) nbrs n unfolding index_ok_def same by blast
qed

text \<open>The outcome of an insert: the id, the index with the new node, the code and the tag, and the
  pages that wait for the background thread.\<close>

definition inserted :: "ssd_env \<Rightarrow> ssd \<Rightarrow> byte list \<Rightarrow> nat \<Rightarrow> ssd \<Rightarrow> bool" where
  "inserted en s point tag s' \<longleftrightarrow> (let tg = cur_id (sx_lm s) in cur_id (sx_lm s') = Suc tg \<and> sx_tags s' = (sx_tags s)(tg \<mapsto> tag) \<and>
     code_of s' tg = deflate_vector (sx_pq s) (sx_n_chunks s) (en_float en point) \<and>
     (\<forall>i. id2loc_map (sx_lm s) i \<noteq> None \<longrightarrow> code_of s' i = code_of s i) \<and>
     (\<exists>nh nl. linked s tg point nh nl (node_at s')))"

lemma insert_spec:
  assumes ok: "index_ok s" "setup_ok en s" "no_locks s" "insert_room fuel s" "padded_bufs s qb"
    and pool: "cq_q (sx_pool s) = Some rd # Some qb # bufs" and pt: "vec_bytes (sx_g s) \<le> length point"
  shows "\<exists>s' lm d c m t task. insert_in_place dp en fuel point tag del s = Inr (cur_id (sx_lm s), s') \<and> inserted en s point tag s' \<and> index_ok s' \<and>
    s' = insert_result s qb tag lm d c m t task \<and>
    unlockReqs (bt_pages_to_unlock task) (sx_page_locks s') = Inr Map.empty \<and> bt_thread_data task = rd \<and>
    pending (sx_cache s') (sx_file s') (sx_mem s') task \<and>
    pins (sx_cache s') = (\<lambda>p. pins (sx_cache s) p + (if p \<in> set (bt_pages_to_deref task) then 1 else 0))"
proof -
  from insert_run [OF ok pool pt refl, of dp tag del] obtain d nh nl lm c m t task where
    r: "insert_in_place dp en fuel point tag del s = Inr (cur_id (sx_lm s), insert_result s qb tag lm d c m t task)"
    "unlockReqs (bt_pages_to_unlock task) t = Inr Map.empty" "bt_thread_data task = rd" "pending c (sx_file s) m task"
    "cache_inv c" "pins c = (\<lambda>p. pins (sx_cache s) p + (if p \<in> set (bt_pages_to_deref task) then 1 else 0))"
    "data_grown s (cur_id (sx_lm s)) (deflate_vector (sx_pq s) (sx_n_chunks s) (en_float en point)) d"
    "lm_ok (sx_g s) lm" "map_ok (sx_g s) lm" "cur_id lm = Suc (cur_id (sx_lm s))" "dom (id2loc_map lm) = insert (cur_id (sx_lm s)) (dom (id2loc_map (sx_lm s)))"
    "linked s (cur_id (sx_lm s)) point nh nl (\<lambda>i. map_option (view_rec (sx_g s) (page_view c (sx_file s))) (id2loc_map lm i))" by blast
  define s' where "s' = insert_result s qb tag lm d c m t task"
  have f: "sx_g s' = sx_g s" "sx_lm s' = lm" "sx_cache s' = c" "sx_file s' = sx_file s" "sx_mem s' = m" "sx_data s' = d" "sx_cfg s' = sx_cfg s"
      "sx_n_chunks s' = sx_n_chunks s" "sx_medoid s' = sx_medoid s" "sx_page_locks s' = t" "sx_tags s' = (sx_tags s)(cur_id (sx_lm s) \<mapsto> tag)"
      "code_of s' = code_of (s\<lparr>sx_data := d\<rparr>)"
    by (simp_all add: s'_def insert_result_def code_of_def fun_eq_iff)
  have na: "node_at s' = (\<lambda>i. map_option (view_rec (sx_g s) (page_view c (sx_file s))) (id2loc_map lm i))"
    by (simp add: node_at_def view_of_def f fun_eq_iff)
  have tg: "cur_id (sx_lm s) < kAllocatedID" using ok(4) by (simp add: insert_room_def)
  have "index_ok s'"
    by (rule index_ok_linked [OF ok(1,2) refl tg _ _ _ _ f(1,7,8,9)]) (use r(5,7-12) in \<open>simp_all add: f na\<close>)
  moreover have "inserted en s point tag s'"
  proof -
    have "code_of (s\<lparr>sx_data := d\<rparr>) i = code_of s i" if i: "id2loc_map (sx_lm s) i = Some l" for i l
      using graph_okD(2,3) [OF index_okD(3) [OF ok(1)] i] r(7) unfolding data_grown_def by blast
    then show ?thesis using r(7,10,12) unfolding inserted_def Let_def f na data_grown_def by blast
  qed
  ultimately show ?thesis using r(1-4,6) unfolding s'_def [symmetric]
    by (intro exI [of _ s'] exI [of _ lm] exI [of _ d] exI [of _ c] exI [of _ m] exI [of _ t] exI [of _ task]) (simp add: f s'_def [symmetric])
qed

section \<open>The background thread's turn\<close>

lemma index_ok_view:
  assumes "index_ok s" "cache_inv (sx_cache s')" "view_of s' = view_of s"
    and "sx_g s' = sx_g s" "sx_lm s' = sx_lm s" "sx_cfg s' = sx_cfg s" "sx_n_chunks s' = sx_n_chunks s" "sx_medoid s' = sx_medoid s" "sx_data s' = sx_data s"
  shows "index_ok s'"
  using assms unfolding index_ok_def graph_ok_def by simp

lemma pins_none: "cache_inv c \<Longrightarrow> c p = None \<longleftrightarrow> pins c p = 0"
  by (cases "c p") (auto simp: cache_inv_def pins_def)

lemma bg_step_spec:
  assumes ok: "index_ok s" and q: "cq_q (sx_bg_tasks s) = [Some task]" and u: "unlockReqs (bt_pages_to_unlock task) (sx_page_locks s) = Inr Map.empty"
    and p: "pending (sx_cache s) (sx_file s) (sx_mem s) task"
    and pins: "pins (sx_cache s) = (\<lambda>p. r p + (if p \<in> set (bt_pages_to_deref task) then 1 else 0))"
  shows "\<exists>s'. bg_step s = Inr s' \<and> index_ok s' \<and> node_at s' = node_at s \<and> code_of s' = code_of s \<and> pins (sx_cache s') = r \<and>
    s' = push_query_buf (bt_thread_data task) (s\<lparr>sx_bg_tasks := (sx_bg_tasks s)\<lparr>cq_q := []\<rparr>, sx_file := sx_file s', sx_page_locks := Map.empty,
      sx_cache := sx_cache s', sx_bg_inflight := u64 (sx_bg_inflight s + 18446744073709551615)\<rparr>)"
proof -
  let ?ps = "bt_pages_to_deref task" and ?f = "write_io (sx_mem s) (bt_writes task) (sx_file s)"
  define s' where "s' = push_query_buf (bt_thread_data task) (s\<lparr>sx_bg_tasks := (sx_bg_tasks s)\<lparr>cq_q := []\<rparr>, sx_file := ?f, sx_page_locks := Map.empty,
      sx_cache := deref_pages ?ps (sx_cache s), sx_bg_inflight := u64 (sx_bg_inflight s + 18446744073709551615)\<rparr>)"
  have f: "sx_cache s' = deref_pages ?ps (sx_cache s)" "sx_file s' = ?f" "sx_g s' = sx_g s" "sx_lm s' = sx_lm s" "sx_cfg s' = sx_cfg s"
      "sx_n_chunks s' = sx_n_chunks s" "sx_medoid s' = sx_medoid s" "sx_data s' = sx_data s"
    by (simp_all add: s'_def push_query_buf_def)
  note pd = p [unfolded pending_def]
  have ps: "?ps = map fst (write_pages (sx_mem s) (bt_writes task))" and pw: "page_writes (bt_writes task)" using pd by simp_all
  have v: "\<forall>(p, b) \<in> set (write_pages (sx_mem s) (bt_writes task)). page_view (sx_cache s) (sx_file s) p = b" by (rule conjunct2 [OF conjunct2 [OF pd]])
  have pos: "\<forall>p \<in> set ?ps. 0 < pins (sx_cache s) p" unfolding pins by simp
  note w = write_pending [OF index_okD(4) [OF ok] pw refl ps v pos]
  have vw: "view_of s' = view_of s" using w by (simp add: view_of_def f)
  have "bg_step s = Inr s'" using q u by (simp add: bg_step_def cq_pop_def s'_def)
  moreover have "index_ok s'" by (rule index_ok_view [OF ok _ vw f(3-8)]) (use w in \<open>simp add: f\<close>)
  moreover have "node_at s' = node_at s" "code_of s' = code_of s" by (simp_all add: node_at_def code_of_def vw f fun_eq_iff)
  moreover have "pins (sx_cache s') = r" using w unfolding f pins by (simp add: fun_eq_iff)
  ultimately show ?thesis by (intro exI [of _ s']) (simp add: f s'_def [symmetric])
qed

text \<open>An insert followed by the background thread's turn.\<close>

abbreviation insert_and_flush :: "bool \<Rightarrow> ssd_env \<Rightarrow> nat \<Rightarrow> byte list \<Rightarrow> nat \<Rightarrow> (nat \<Rightarrow> bool) option \<Rightarrow> ssd \<Rightarrow> (nat \<times> ssd) res" where
  "insert_and_flush dp en fuel point tag del s \<equiv>
     bindE (insert_in_place dp en fuel point tag del s) (\<lambda>(t, s). bindE (bg_step s) (\<lambda>s. Inr (t, s)))"

lemma insert_and_flush_spec:
  assumes ok: "index_ok s" "setup_ok en s" "no_locks s" "insert_room fuel s" "padded_bufs s qb"
    and pool: "cq_q (sx_pool s) = Some rd # Some qb # bufs" and pt: "vec_bytes (sx_g s) \<le> length point"
    and idle: "cq_q (sx_bg_tasks s) = []" "sx_bg_inflight s < 18446744073709551616"
  shows "\<exists>s'. insert_and_flush dp en fuel point tag del s = Inr (cur_id (sx_lm s), s') \<and> inserted en s point tag s' \<and> index_ok s' \<and>
    no_locks s' \<and> pins (sx_cache s') = pins (sx_cache s) \<and> (sx_cache s = Map.empty \<longrightarrow> sx_cache s' = Map.empty) \<and>
    cq_q (sx_pool s') = bufs @ [Some qb, Some rd] \<and> cq_q (sx_bg_tasks s') = [] \<and> sx_bg_inflight s' = sx_bg_inflight s"
proof -
  from insert_spec [OF ok pool pt, of dp tag del] obtain s1 lm d c m t task where
    i: "insert_in_place dp en fuel point tag del s = Inr (cur_id (sx_lm s), s1)" "inserted en s point tag s1" "index_ok s1"
    "s1 = insert_result s qb tag lm d c m t task" "unlockReqs (bt_pages_to_unlock task) (sx_page_locks s1) = Inr Map.empty" "bt_thread_data task = rd"
    "pending (sx_cache s1) (sx_file s1) (sx_mem s1) task"
    "pins (sx_cache s1) = (\<lambda>p. pins (sx_cache s) p + (if p \<in> set (bt_pages_to_deref task) then 1 else 0))" by blast
  have q: "cq_q (sx_bg_tasks s1) = [Some task]" using idle(1) by (simp add: i(4) insert_result_def cq_push_def)
  from bg_step_spec [OF i(3) q i(5,7,8)] obtain s2 where
    b: "bg_step s1 = Inr s2" "index_ok s2" "node_at s2 = node_at s1" "code_of s2 = code_of s1" "pins (sx_cache s2) = pins (sx_cache s)"
      "s2 = push_query_buf rd (s1\<lparr>sx_bg_tasks := (sx_bg_tasks s1)\<lparr>cq_q := []\<rparr>, sx_file := sx_file s2, sx_page_locks := Map.empty,
        sx_cache := sx_cache s2, sx_bg_inflight := u64 (sx_bg_inflight s1 + 18446744073709551615)\<rparr>)"
    unfolding i(6) by blast
  have f: "sx_lm s2 = sx_lm s1" "sx_tags s2 = sx_tags s1" "sx_page_locks s2 = Map.empty" "sx_vec_locks s2 = sx_vec_locks s" "sx_idx_locks s2 = sx_idx_locks s"
      "sx_page_idx_locks s2 = sx_page_idx_locks s" "cq_q (sx_bg_tasks s2) = []" "cq_q (sx_pool s2) = bufs @ [Some qb, Some rd]"
      "sx_bg_inflight s2 = u64 (u64 (sx_bg_inflight s + 1) + 18446744073709551615)"
    by (subst b(6), simp add: i(4) push_query_buf_def insert_result_def cq_push_def pool)+
  have "u64 (u64 (sx_bg_inflight s + 1) + 18446744073709551615) = sx_bg_inflight s"
    using idle(2) by (simp add: u64_def mod_add_left_eq)
  moreover have "sx_cache s2 = Map.empty" if "sx_cache s = Map.empty"
    using pins_none [OF index_okD(4) [OF b(2)]] b(5) that by (auto simp: pins_def fun_eq_iff)
  moreover have "inserted en s point tag s2" using i(2) b(3,4) f(1,2) by (simp add: inserted_def)
  ultimately show ?thesis using i(1) b(1,2,5) f ok(3)
    by (intro exI [of _ s2]) (simp add: no_locks_def)
qed

section \<open>Properties of inserts\<close>

text \<open>Two nodes, two query buffers.\<close>

definition demo4 :: ssd where
  "demo4 = demo3\<lparr>sx_cfg := \<lparr>cf_range = 2, cf_maxc = 750, cf_alpha = f_1_2\<rparr>,
     sx_pool := \<lparr>cq_q = [Some (demo2_buf\<lparr>qb_update := 4194304\<rparr>), Some demo2_buf], null_T = None\<rparr>\<rparr>"

lemma demo4_simps: "sx_g demo4 = demo2_geom" "sx_lm demo4 = demo3_map" "sx_n_chunks demo4 = 2" "sx_data demo4 = [0, 0, 0, 0]"
  "sx_pq demo4 = demo_pq" "sx_medoid demo4 = 0" "sx_cfg demo4 = \<lparr>cf_range = 2, cf_maxc = 750, cf_alpha = f_1_2\<rparr>"
  "sx_bg_tasks demo4 = cq_new None" "sx_bg_inflight demo4 = 0" "sx_cache demo4 = Map.empty" "sx_mem demo4 = (\<lambda>_. 0)"
  "sx_page_locks demo4 = Map.empty" "sx_vec_locks demo4 = Map.empty" "sx_page_idx_locks demo4 = Map.empty" "sx_idx_locks demo4 = Map.empty"
  "sx_beam_width demo4 = 4" "sx_l_index demo4 = 16" "view_of demo4 = view_of demo2_popped"
  "sx_pool demo4 = \<lparr>cq_q = [Some (demo2_buf\<lparr>qb_update := 4194304\<rparr>), Some demo2_buf], null_T = None\<rparr>"
  by (simp_all add: demo4_def demo3_def demo2_def demo2_popped_def view_of_def)

lemma demo4_sizes: "vec_stride demo4 = 8" "coord_alloc_size demo4 = 131072" "coord_capacity demo4 = 16384" "pad_len demo4 = 4"
  using demo2_sizes by (simp_all add: vec_stride_def coord_alloc_size_def coord_capacity_def pad_len_def demo4_def demo3_def demo2_popped_def)

lemma demo3_cur_id: "cur_id demo3_map = 10"
  by (simp add: demo3_map_def load_equal_layout_def demo2_geom_def demo_map_def kMaxElemInAPage_def Let_def)

lemma demo4_index: "index_ok demo4"
proof -
  have "graph_ok demo4" using demo2_graph
    by (simp add: graph_ok_def demo4_simps demo3_map_spec(3) demo2_popped_simps demo3_cur_id)
  moreover have "distinct (loc_nbrs demo2_geom (view_of demo2_popped) l) \<and> length (loc_nbrs demo2_geom (view_of demo2_popped) l) \<le> 2" if "l < 2" for l
  proof -
    from that consider "l = 0" | "l = 1" by linarith
    then show ?thesis by cases (simp_all add: demo2_nbrs [unfolded One_nat_def])
  qed
  ultimately show ?thesis using demo3_map_spec
    by (simp add: index_ok_def demo4_simps cache_inv_def)
qed

lemma demo4_ready: "setup_ok demo2_env demo4" "no_locks demo4" "insert_room 200 demo4" "padded_bufs demo4 demo2_buf"
proof -
  have "pq_finite demo_pq" by (simp add: pq_finite_def demo_pq_simps f_zero_def)
  moreover have "fle f_one f_1_2" using f_1_2_gt_one by (simp add: fle_def)
  ultimately show "setup_ok demo2_env demo4"
    using demo_pq_loaded demo_pq_pairs f_1_2_below_inf
    by (simp add: setup_ok_def demo4_simps demo_pq_simps demo2_env_def max_nbrs_def demo2_geom_def vec_bytes_def MAX_N_EDGES_def
      pq_coord_alloc_size_def pqtable_alloc_floats_def MAX_N_SECTOR_READS_def f_zero_def)
  show "no_locks demo4" by (simp add: no_locks_def demo4_simps)
  show "insert_room 200 demo4"
    by (simp add: insert_room_def demo4_simps demo3_cur_id demo3_map_spec demo4_sizes kAllocatedID_def pins_def)
  show "padded_bufs demo4 demo2_buf"
    using demo2_bufs by (simp add: padded_bufs_def padded_def bufs_ok_def demo4_sizes demo4_simps demo2_sizes demo2_popped_simps
      list_eq_iff_nth_eq peek_nth)
qed

text \<open>C3: on an index in order \<^verbatim>\<open>insert_in_place\<close> returns the next id and leaves the index in
  order with one more node: its vector, code and tag are stored, its list is of distinct live nodes,
  at most \<^verbatim>\<open>range\<close> of them and at least one; each of them keeps its vector and gets the new id appended or, when
  its list is full, a pruned list; every other node, code and tag is as before.\<close>

theorem insert_in_place_correct:
  assumes "index_ok s" "setup_ok en s" "no_locks s" "insert_room fuel s" "padded_bufs s qb"
    and "cq_q (sx_pool s) = Some rd # Some qb # bufs" "vec_bytes (sx_g s) \<le> length point"
  shows "\<exists>s'. insert_in_place dp en fuel point tag del s = Inr (cur_id (sx_lm s), s') \<and> inserted en s point tag s' \<and> index_ok s'"
  using insert_spec [OF assms, of dp tag del] by blast

theorem insert_in_place_correct_witness:
  "\<exists>s'. insert_in_place True demo2_env 200 [9, 8, 7, 6] 77 None demo4 = Inr (10, s') \<and>
     inserted demo2_env demo4 [9, 8, 7, 6] 77 s' \<and> index_ok s'"
  using insert_in_place_correct [OF demo4_index demo4_ready, of "demo2_buf\<lparr>qb_update := 4194304\<rparr>" "[]" "[9, 8, 7, 6]" True 77 None]
  by (simp add: demo4_simps demo2_sizes demo3_cur_id)

text \<open>C4: an insert and the background thread's turn together leave the index in order with the new
  node in it, no lock held, the page references as they were (an empty cache is empty again, so
  every node is in the file), the queue of tasks empty and both query buffers back in the pool.\<close>

theorem insert_flush_invariant:
  assumes "index_ok s" "setup_ok en s" "no_locks s" "insert_room fuel s" "padded_bufs s qb"
    and "cq_q (sx_pool s) = Some rd # Some qb # bufs" "vec_bytes (sx_g s) \<le> length point"
    and "cq_q (sx_bg_tasks s) = []" "sx_bg_inflight s < 18446744073709551616"
  shows "\<exists>s'. bindE (insert_in_place dp en fuel point tag del s) (\<lambda>(t, s). bindE (bg_step s) (\<lambda>s. Inr (t, s))) = Inr (cur_id (sx_lm s), s') \<and>
    inserted en s point tag s' \<and> index_ok s' \<and>
    no_locks s' \<and> pins (sx_cache s') = pins (sx_cache s) \<and> (sx_cache s = Map.empty \<longrightarrow> sx_cache s' = Map.empty) \<and>
    cq_q (sx_pool s') = bufs @ [Some qb, Some rd] \<and> cq_q (sx_bg_tasks s') = [] \<and> sx_bg_inflight s' = sx_bg_inflight s"
  by (rule insert_and_flush_spec [OF assms])

theorem insert_flush_invariant_witness:
  "\<exists>s'. bindE (insert_in_place False demo2_env 200 [9, 8, 7, 6] 77 None demo4) (\<lambda>(t, s). bindE (bg_step s) (\<lambda>s. Inr (t, s))) = Inr (10, s') \<and>
     index_ok s' \<and> no_locks s' \<and> sx_cache s' = Map.empty"
proof -
  have q: "cq_q (sx_pool demo4) = Some (demo2_buf\<lparr>qb_update := 4194304\<rparr>) # Some demo2_buf # []" "vec_bytes (sx_g demo4) \<le> length [9, 8, 7, 6 :: byte]"
      "cq_q (sx_bg_tasks demo4) = []" "sx_bg_inflight demo4 < 18446744073709551616" "cur_id (sx_lm demo4) = 10"
    by (simp_all add: demo4_simps demo2_sizes demo3_cur_id cq_new_def)
  from insert_flush_invariant [OF demo4_index demo4_ready q(1-4), of False 77 None] show ?thesis
    unfolding q(5) demo4_simps(10) by blast
qed

end
