(* ===== verification/Mem_Index.thy ===== *)
theory Mem_Index
  imports Prune
begin

text \<open>
  The in-memory graph index of \<^verbatim>\<open>src/index.cpp\<close> and \<^verbatim>\<open>include/index.h\<close>: its state and
  its searches; the updates are in \<^verbatim>\<open>Mem_Update\<close> and \<^verbatim>\<open>Mem_Build\<close>.  A row of \<^verbatim>\<open>_data\<close> is a byte list.  Every operation
  runs alone: the locks it takes are free and are given back, so they do not appear.  Given from outside
  are the distance object, the elements of a row as floats, the first element and the iteration order of a hash set, and what freshly allocated
  memory holds.  \<^verbatim>\<open>NDEBUG\<close> is defined, so assertions are not code.
\<close>

record mem_index =
  mi_dim :: nat
  mi_aligned_dim :: nat
  mi_sizeof_T :: nat
  mi_nd :: nat
  mi_max_points :: nat
  mi_num_frozen :: nat
  mi_width :: nat
  mi_ep :: nat
  mi_saturate :: bool
  mi_dynamic :: bool
  mi_enable_tags :: bool
  mi_data :: "byte list list"
  mi_graph :: "nat list list"
  mi_tag2loc :: "nat \<Rightarrow> nat option"
  mi_loc2tag :: "nat \<Rightarrow> nat option"
  mi_delete_set :: "nat set"
  mi_empty_slots :: "nat set"
  mi_eager_done :: bool
  mi_lazy_done :: bool
  mi_compacted :: bool

record mem_env =
  me_compare :: "byte list \<Rightarrow> byte list \<Rightarrow> f32"
  me_float :: "byte list \<Rightarrow> nat \<Rightarrow> f32"
  me_first :: "nat set \<Rightarrow> nat"
  me_order :: "nat list \<Rightarrow> nat list"
  me_fresh :: "nat \<Rightarrow> byte list"

definition vget :: "'a list \<Rightarrow> nat \<Rightarrow> 'a res" where
  "vget v i = (if i < length v then Inr (v ! i) else Inl OutOfRange)"

definition mi_vec_bytes :: "mem_index \<Rightarrow> nat" where
  "mi_vec_bytes mi = mi_sizeof_T mi * mi_dim mi"

definition mi_row_bytes :: "mem_index \<Rightarrow> nat" where
  "mi_row_bytes mi = mi_sizeof_T mi * mi_aligned_dim mi"

definition mi_total :: "mem_index \<Rightarrow> nat" where
  "mi_total mi = mi_max_points mi + mi_num_frozen mi"

text \<open>The constructor.\<close>

definition mem_new :: "mem_env \<Rightarrow> nat \<Rightarrow> nat \<Rightarrow> nat \<Rightarrow> bool \<Rightarrow> bool \<Rightarrow> mem_index" where
  "mem_new en sizeof_T dim max_points dynamic_index enable_tags =
     (let frozen = (if dynamic_index then 1 else 0); max_points = (if max_points = 0 then 1 else max_points)
      in \<lparr>mi_dim = dim, mi_aligned_dim = ROUND_UP dim 8, mi_sizeof_T = sizeof_T, mi_nd = 0, mi_max_points = max_points,
          mi_num_frozen = frozen, mi_width = 0, mi_ep = u32 max_points, mi_saturate = False, mi_dynamic = dynamic_index,
          mi_enable_tags = (enable_tags \<or> dynamic_index), mi_data = map (me_fresh en) [0..<max_points + 1],
          mi_graph = replicate (max_points + frozen) [], mi_tag2loc = Map.empty, mi_loc2tag = Map.empty,
          mi_delete_set = {}, mi_empty_slots = {}, mi_eager_done = False, mi_lazy_done = False, mi_compacted = True\<rparr>)"

definition mem_dist :: "mem_env \<Rightarrow> mem_index \<Rightarrow> nb_dist_fn" where
  "mem_dist en mi a b = bindE (vget (mi_data mi) a) (\<lambda>x. bindE (vget (mi_data mi) b) (\<lambda>y. Inr (me_compare en x y)))"

section \<open>Search\<close>

record msearch =
  sr_best :: "neighbor list"
  sr_l :: nat
  sr_seen :: "nat set"
  sr_expanded :: "neighbor list"
  sr_cmps :: nat

text \<open>The initial candidates; the loop ends when the list is full.\<close>

fun seed_pool :: "(nat \<Rightarrow> f32 res) \<Rightarrow> nat \<Rightarrow> nat list \<Rightarrow> neighbor list \<times> nat \<times> nat set \<Rightarrow> (neighbor list \<times> nat \<times> nat set) res" where
  "seed_pool dist L [] (best, l, seen) = Inr (best, l, seen)"
| "seed_pool dist L (i # is) (best, l, seen) =
     bindE (dist i) (\<lambda>d.
     bindE (if i \<in> seen then Inr (best, l, seen)
            else if length best \<le> l then Inl OutOfRange
            else Inr (best[l := Neighbor i d True], l + 1, insert i seen)) (\<lambda>(best, l, seen).
       if l = L then Inr (best, l, seen) else seed_pool dist L is (best, l, seen)))"

text \<open>One neighbor of an expanded node; \<^verbatim>\<open>nk\<close> is the lowest position filled.\<close>

definition visit_nbr :: "(nat \<Rightarrow> f32 res) \<Rightarrow> nat \<Rightarrow> nat \<Rightarrow> msearch \<times> nat \<Rightarrow> (msearch \<times> nat) res" where
  "visit_nbr dist L i = (\<lambda>(st, nk).
     if i \<in> sr_seen st then Inr (st, nk)
     else bindE (dist i) (\<lambda>d.
       let st = st\<lparr>sr_seen := insert i (sr_seen st), sr_cmps := u32 (sr_cmps st + 1)\<rparr>; l = sr_l st; best = sr_best st
       in if l = 0 \<or> length best < l then Inl OutOfRange
          else if fge d (nb_dist (best ! (l - 1))) \<and> l = L then Inr (st, nk)
          else bindE (InsertIntoPool best l (Neighbor i d True)) (\<lambda>(r, best).
                 Inr (st\<lparr>sr_best := best, sr_l := (if l < L then l + 1 else l)\<rparr>, if r < nk then r else nk))))"

definition is_frozen_ep :: "mem_index \<Rightarrow> nat \<Rightarrow> bool" where
  "is_frozen_ep mi n = (n = mi_ep mi \<and> 0 < mi_num_frozen mi)"

text \<open>The expansion of the candidate at \<^verbatim>\<open>k\<close>: the state and the next \<^verbatim>\<open>k\<close>.  \<^verbatim>\<open>search_with_tags_fast\<close>
  does not check the ids.\<close>

definition expand_at :: "(nat \<Rightarrow> f32 res) \<Rightarrow> mem_index \<Rightarrow> bool \<Rightarrow> bool \<Rightarrow> nat \<Rightarrow> nat \<Rightarrow> msearch \<Rightarrow> (msearch \<times> nat) res" where
  "expand_at dist mi check ret_frozen L k st =
     (let c = (sr_best st ! k)\<lparr>nb_flag := False\<rparr>;
          st = st\<lparr>sr_best := (sr_best st)[k := c],
                  sr_expanded := (if is_frozen_ep mi (nb_id c) \<and> \<not> ret_frozen then sr_expanded st else sr_expanded st @ [c])\<rparr>
      in bindE (vget (mi_graph mi) (nb_id c)) (\<lambda>des.
         if check \<and> (\<exists>x \<in> set des. mi_total mi \<le> x) then Inl Crash
         else bindE (foldE (visit_nbr dist L) des (st, sr_l st)) (\<lambda>(st, nk).
           Inr (st, if nk \<le> k then nk else k + 1))))"

fun search_loop :: "(nat \<Rightarrow> f32 res) \<Rightarrow> mem_index \<Rightarrow> bool \<Rightarrow> bool \<Rightarrow> nat \<Rightarrow> nat \<Rightarrow> msearch \<times> nat \<Rightarrow> msearch res" where
  "search_loop dist mi check ret_frozen L fuel (st, k) =
     (if \<not> k < sr_l st then Inr st
      else case fuel of 0 \<Rightarrow> Inl OutOfFuel
      | Suc fuel \<Rightarrow>
          bindE (vget (sr_best st) k) (\<lambda>c.
            if nb_flag c then bindE (expand_at dist mi check ret_frozen L k st) (search_loop dist mi check ret_frozen L fuel)
            else search_loop dist mi check ret_frozen L fuel (st, k + 1)))"

declare search_loop.simps [simp del]

definition empty_pool :: "nat \<Rightarrow> neighbor list" where
  "empty_pool n = replicate n (neighbor_zero\<lparr>nb_dist := FLT_MAX\<rparr>)"

text \<open>\<^verbatim>\<open>best_L_nodes\<close> keeps its \<^verbatim>\<open>L + 1\<close> entries, filled or not.\<close>

definition iterate_to_fixed_point :: "mem_env \<Rightarrow> nat \<Rightarrow> mem_index \<Rightarrow> byte list \<Rightarrow> nat \<Rightarrow> nat list \<Rightarrow> bool \<Rightarrow> msearch res" where
  "iterate_to_fixed_point en fuel mi node_coords L init_ids ret_frozen =
     bindE (seed_pool (\<lambda>i. bindE (vget (mi_data mi) i) (\<lambda>x. Inr (me_compare en x node_coords))) L init_ids
              (empty_pool (L + 1), 0, {})) (\<lambda>(best, l, seen).
     search_loop (\<lambda>i. bindE (vget (mi_data mi) i) (\<lambda>x. Inr (me_compare en node_coords x))) mi True ret_frozen L fuel
       (\<lparr>sr_best = sort_lt nb_lt (take l best) @ drop l best, sr_l = l, sr_seen = seen, sr_expanded = [], sr_cmps = 0\<rparr>, 0))"

text \<open>The nodes expanded on the way to a stored point.\<close>

definition get_expanded_nodes :: "mem_env \<Rightarrow> nat \<Rightarrow> mem_index \<Rightarrow> nat \<Rightarrow> nat \<Rightarrow> nat list \<Rightarrow> neighbor list res" where
  "get_expanded_nodes en fuel mi node_id L init_ids =
     bindE (vget (mi_data mi) node_id) (\<lambda>node_coords.
     bindE (iterate_to_fixed_point en fuel mi node_coords L (if init_ids = [] then [mi_ep mi] else init_ids) True)
       (\<lambda>st. Inr (sr_expanded st)))"

text \<open>The query, padded with zeros to the aligned dimension.\<close>

definition aligned_query :: "mem_index \<Rightarrow> byte list \<Rightarrow> byte list" where
  "aligned_query mi query = take (mi_vec_bytes mi) query @ replicate (mi_row_bytes mi - mi_vec_bytes mi) 0"

fun collect :: "(neighbor \<Rightarrow> 'a option) \<Rightarrow> nat \<Rightarrow> neighbor list \<Rightarrow> ('a \<times> f32) list \<Rightarrow> ('a \<times> f32) list" where
  "collect f K [] out = out"
| "collect f K (n # ns) out =
     (let out = (case f n of None \<Rightarrow> out | Some a \<Rightarrow> out @ [(a, nb_dist n)])
      in if length out = K then out else collect f K ns out)"

definition search_tags :: "mem_env \<Rightarrow> nat \<Rightarrow> mem_index \<Rightarrow> byte list \<Rightarrow> nat \<Rightarrow> nat \<Rightarrow> (nat \<times> f32) list res" where
  "search_tags en fuel mi query K L =
     bindE (iterate_to_fixed_point en fuel mi (aligned_query mi query) L [mi_ep mi] False) (\<lambda>st.
       Inr (collect (\<lambda>n. mi_loc2tag mi (nb_id n)) K (sr_best st) []))"

definition search_indices :: "mem_env \<Rightarrow> nat \<Rightarrow> mem_index \<Rightarrow> byte list \<Rightarrow> nat \<Rightarrow> nat \<Rightarrow> (nat \<times> f32) list res" where
  "search_indices en fuel mi query K L =
     bindE (iterate_to_fixed_point en fuel mi (aligned_query mi query) L [mi_ep mi] True) (\<lambda>st.
       Inr (collect (\<lambda>n. if nb_id n < mi_max_points mi then Some (nb_id n) else None) K (sr_best st) []))"

definition search_from :: "mem_env \<Rightarrow> nat \<Rightarrow> mem_index \<Rightarrow> byte list \<Rightarrow> nat \<Rightarrow> nat \<Rightarrow> nat list \<Rightarrow> (nat \<times> f32) list res" where
  "search_from en fuel mi query K L init_ids =
     bindE (iterate_to_fixed_point en fuel mi (aligned_query mi query) (u32 L) (if init_ids = [] then [mi_ep mi] else init_ids) True) (\<lambda>st.
       Inr (collect (\<lambda>n. Some (nb_id n)) K (sr_best st) []))"

text \<open>\<^verbatim>\<open>search_with_tags\<close> goes through \<^verbatim>\<open>L\<close> entries of the arrays \<^verbatim>\<open>search\<close> filled.\<close>

fun tags_of :: "(nat \<Rightarrow> nat option) \<Rightarrow> nat \<Rightarrow> (nat \<times> f32) list \<Rightarrow> (nat \<times> f32) list \<Rightarrow> (nat \<times> f32) list" where
  "tags_of loc2tag K [] out = out"
| "tags_of loc2tag K ((i, d) # rs) out =
     (case loc2tag i of None \<Rightarrow> tags_of loc2tag K rs out
      | Some t \<Rightarrow> (let out = out @ [(t, d)] in if length out = K then out else tags_of loc2tag K rs out))"

definition search_with_tags :: "mem_env \<Rightarrow> nat \<Rightarrow> mem_index \<Rightarrow> byte list \<Rightarrow> nat \<Rightarrow> nat \<Rightarrow> (nat \<times> f32) list res" where
  "search_with_tags en fuel mi query K L =
     bindE (search_indices en fuel mi query L L) (\<lambda>rs.
       if length rs < L then Inl OutOfRange else Inr (tags_of (mi_loc2tag mi) K (take L rs) []))"

text \<open>The variant that also returns vectors puts them at the index of the candidate, not of the tag.\<close>

fun tags_vecs :: "(nat \<Rightarrow> nat option) \<Rightarrow> nat \<Rightarrow> nat \<Rightarrow> (nat \<times> f32) list \<Rightarrow> (nat \<times> f32) list \<times> (nat \<Rightarrow> nat option) \<Rightarrow>
    (nat \<times> f32) list \<times> (nat \<Rightarrow> nat option)" where
  "tags_vecs loc2tag K k [] (out, vecs) = (out, vecs)"
| "tags_vecs loc2tag K k ((i, d) # rs) (out, vecs) =
     (case loc2tag i of None \<Rightarrow> tags_vecs loc2tag K (k + 1) rs (out, vecs)
      | Some t \<Rightarrow> (let out = out @ [(t, d)]; vecs = vecs(k \<mapsto> i)
                  in if length out = K then (out, vecs) else tags_vecs loc2tag K (k + 1) rs (out, vecs)))"

definition search_with_tags_vecs :: "mem_env \<Rightarrow> nat \<Rightarrow> mem_index \<Rightarrow> byte list \<Rightarrow> nat \<Rightarrow> nat \<Rightarrow>
    ((nat \<times> f32) list \<times> (nat \<Rightarrow> nat option)) res" where
  "search_with_tags_vecs en fuel mi query K L =
     bindE (search_indices en fuel mi query L L) (\<lambda>rs.
       if length rs < L then Inl OutOfRange else Inr (tags_vecs (mi_loc2tag mi) K 0 (take L rs) ([], Map.empty)))"

text \<open>\<^verbatim>\<open>_location_to_tag[...]\<close> of a location without a tag enters the tag zero.\<close>

fun fast_tags :: "neighbor list \<Rightarrow> (nat \<Rightarrow> nat option) \<times> (nat \<times> f32) list \<Rightarrow> (nat \<Rightarrow> nat option) \<times> (nat \<times> f32) list" where
  "fast_tags [] (m, out) = (m, out)"
| "fast_tags (n # ns) (m, out) =
     (let t = (case m (nb_id n) of None \<Rightarrow> 0 | Some t \<Rightarrow> t)
      in fast_tags ns (m(nb_id n \<mapsto> t), out @ [(t, nb_dist n)]))"

definition search_with_tags_fast :: "mem_env \<Rightarrow> nat \<Rightarrow> mem_index \<Rightarrow> byte list \<Rightarrow> nat \<Rightarrow> ((nat \<times> f32) list \<times> mem_index) res" where
  "search_with_tags_fast en fuel mi node_coords L =
     bindE (vget (mi_data mi) (mi_ep mi)) (\<lambda>x.
     bindE (search_loop (\<lambda>i. bindE (vget (mi_data mi) i) (\<lambda>x. Inr (me_compare en node_coords x))) mi False True L fuel
              (\<lparr>sr_best = (empty_pool (L + 1))[0 := Neighbor (mi_ep mi) (me_compare en x node_coords) True], sr_l = 1,
                sr_seen = {mi_ep mi}, sr_expanded = [], sr_cmps = 0\<rparr>, 0)) (\<lambda>st.
     let (m, out) = fast_tags (take L (sr_best st)) (mi_loc2tag mi, [])
     in Inr (out, mi\<lparr>mi_loc2tag := m\<rparr>)))"

definition get_vector_by_tag :: "mem_index \<Rightarrow> nat \<Rightarrow> byte list option res" where
  "get_vector_by_tag mi tag =
     (case mi_tag2loc mi tag of None \<Rightarrow> Inr None
      | Some location \<Rightarrow> bindE (vget (mi_data mi) location) (\<lambda>x. Inr (Some x)))"

definition get_active_tags :: "mem_index \<Rightarrow> nat set" where
  "get_active_tags mi = dom (mi_tag2loc mi)"

end
