(* ===== verification/Mem_Update.thy ===== *)
theory Mem_Update
  imports Mem_Index
begin

text \<open>
  Changes of the in-memory index of \<^verbatim>\<open>src/index.cpp\<close>: pruning, linking in, building, insertion of a
  tagged point, lazy deletion, consolidation, compaction, growth.  A list of neighbors may grow to
  \<^verbatim>\<open>SLACK_FACTOR * R\<close> before it is pruned back to \<^verbatim>\<open>R\<close>.
\<close>

section \<open>Pruning\<close>

fun mem_occ_pass :: "nb_dist_fn \<Rightarrow> prune_cfg \<Rightarrow> neighbor list \<Rightarrow> f32 \<Rightarrow> nat list \<Rightarrow> f32 list \<times> neighbor list \<Rightarrow>
    (f32 list \<times> neighbor list) res" where
  "mem_occ_pass dist cf pool cur_alpha [] (occ, result) = Inr (occ, result)"
| "mem_occ_pass dist cf pool cur_alpha (start # ss) (occ, result) =
     (if \<not> length result < cf_range cf then Inr (occ, result)
      else if fgt (occ ! start) cur_alpha then mem_occ_pass dist cf pool cur_alpha ss (occ, result)
      else bindE (occ_update dist cf pool (pool ! start) [start + 1..<occ_limit cf pool] (occ[start := FLT_MAX]))
             (\<lambda>occ. mem_occ_pass dist cf pool cur_alpha ss (occ, result @ [pool ! start])))"

fun mem_occ_rounds :: "nb_dist_fn \<Rightarrow> prune_cfg \<Rightarrow> neighbor list \<Rightarrow> nat \<Rightarrow> f32 \<Rightarrow> f32 list \<times> neighbor list \<Rightarrow>
    (f32 list \<times> neighbor list) res" where
  "mem_occ_rounds dist cf pool fuel cur_alpha (occ, result) =
     (if fle cur_alpha (cf_alpha cf) \<and> length result < cf_range cf
      then (case fuel of 0 \<Rightarrow> Inl OutOfFuel
            | Suc fuel \<Rightarrow> bindE (mem_occ_pass dist cf pool cur_alpha [0..<occ_limit cf pool] (occ, result))
                           (mem_occ_rounds dist cf pool fuel (fmul cur_alpha f_1_2)))
      else Inr (occ, result))"

declare mem_occ_rounds.simps [simp del]

definition mem_occlude_list :: "nb_dist_fn \<Rightarrow> prune_cfg \<Rightarrow> neighbor list \<Rightarrow> neighbor list res" where
  "mem_occlude_list dist cf pool =
     (if pool = [] then Inr []
      else bindE (mem_occ_rounds dist cf pool alpha_fuel f_one (replicate (length pool) f_zero, [])) (\<lambda>(occ, result). Inr result))"

fun fill_up :: "nat \<Rightarrow> nat \<Rightarrow> neighbor list \<Rightarrow> nat list \<Rightarrow> nat list" where
  "fill_up R location [] pruned = pruned"
| "fill_up R location (n # ns) pruned =
     (if \<not> length pruned < R then pruned
      else fill_up R location ns (if nb_id n \<notin> set pruned \<and> nb_id n \<noteq> location then pruned @ [nb_id n] else pruned))"

definition mem_prune_neighbors :: "mem_env \<Rightarrow> prune_cfg \<Rightarrow> nat \<Rightarrow> neighbor list \<Rightarrow> mem_index \<Rightarrow> (nat list \<times> mem_index) res" where
  "mem_prune_neighbors en cf location pool mi =
     (if pool = [] then Inl Crash
      else let pool = sort_lt nb_lt pool
      in bindE (mem_occlude_list (mem_dist en mi) cf pool) (\<lambda>result.
        let pruned = filter (\<lambda>i. i \<noteq> location) (map nb_id result)
        in Inr (if mi_saturate mi \<and> fgt (cf_alpha cf) f_one then fill_up (cf_range cf) location pool pruned else pruned,
                mi\<lparr>mi_width := max (mi_width mi) (cf_range cf)\<rparr>)))"

section \<open>Linking a node in\<close>

text \<open>\<^verbatim>\<open>(_u64) (SLACK_FACTOR * range)\<close>, the factor being \<^verbatim>\<open>1.3\<close>.\<close>

definition slack_range :: "nat \<Rightarrow> nat" where
  "slack_range R = 13 * R div 10"

text \<open>Each neighbor once, without the node itself.\<close>

fun nbr_pool :: "mem_env \<Rightarrow> mem_index \<Rightarrow> nat \<Rightarrow> nat list \<Rightarrow> nat set \<times> neighbor list \<Rightarrow> neighbor list res" where
  "nbr_pool en mi des [] (visited, pool) = Inr pool"
| "nbr_pool en mi des (i # is) (visited, pool) =
     (if i \<notin> visited \<and> i \<noteq> des
      then bindE (mem_dist en mi des i) (\<lambda>d. nbr_pool en mi des is (insert i visited, pool @ [Neighbor i d True]))
      else nbr_pool en mi des is (visited, pool))"

definition set_nbrs :: "nat \<Rightarrow> nat list \<Rightarrow> mem_index \<Rightarrow> mem_index res" where
  "set_nbrs i nbrs mi = (if i < length (mi_graph mi) then Inr (mi\<lparr>mi_graph := (mi_graph mi)[i := nbrs]\<rparr>) else Inl OutOfRange)"

definition inter_insert_one :: "mem_env \<Rightarrow> prune_cfg \<Rightarrow> nat \<Rightarrow> nat \<Rightarrow> mem_index \<Rightarrow> mem_index res" where
  "inter_insert_one en cf n des mi =
     bindE (vget (mi_graph mi) des) (\<lambda>des_pool.
       if n \<in> set des_pool then Inr mi
       else if length des_pool < slack_range (cf_range cf) then set_nbrs des (des_pool @ [n]) mi
       else bindE (nbr_pool en mi des (des_pool @ [n]) ({}, [])) (\<lambda>pool.
            bindE (mem_prune_neighbors en cf des pool mi) (\<lambda>(new_out, mi). set_nbrs des new_out mi)))"

definition inter_insert :: "mem_env \<Rightarrow> prune_cfg \<Rightarrow> nat \<Rightarrow> nat list \<Rightarrow> mem_index \<Rightarrow> mem_index res" where
  "inter_insert en cf n pruned_list mi = foldE (inter_insert_one en cf n) pruned_list mi"

section \<open>Slots\<close>

text \<open>\<^verbatim>\<open>reserve_location\<close>: no location when the index is full.\<close>

definition reserve_location :: "mem_env \<Rightarrow> mem_index \<Rightarrow> (nat option \<times> mem_index) res" where
  "reserve_location en mi =
     (if mi_max_points mi \<le> mi_nd mi then Inr (None, mi)
      else if mi_compacted mi
      then Inr (Some (mi_nd mi), mi\<lparr>mi_empty_slots := mi_empty_slots mi - {mi_nd mi}, mi_nd := mi_nd mi + 1\<rparr>)
      else if mi_empty_slots mi = {} then Inl OutOfRange
      else let location = me_first en (mi_empty_slots mi)
           in Inr (Some location, mi\<lparr>mi_empty_slots := mi_empty_slots mi - {location},
                     mi_delete_set := mi_delete_set mi - {location}, mi_nd := mi_nd mi + 1\<rparr>))"

definition release_location :: "mem_index \<Rightarrow> mem_index" where
  "release_location mi = mi\<lparr>mi_nd := u64 (mi_nd mi + 18446744073709551615)\<rparr>"

definition enable_delete :: "mem_index \<Rightarrow> int \<times> mem_index" where
  "enable_delete mi =
     (if \<not> mi_enable_tags mi then (-2, mi)
      else (0, mi\<lparr>mi_empty_slots := (if mi_compacted mi then mi_empty_slots mi \<union> {mi_nd mi..<mi_max_points mi} else mi_empty_slots mi),
                  mi_lazy_done := False, mi_eager_done := False\<rparr>))"

definition rename_nbr :: "nat \<Rightarrow> nat \<Rightarrow> nat \<Rightarrow> nat" where
  "rename_nbr old new x = (if x = old then new else x)"

text \<open>The new list gets as many entries of the old one as node \<^verbatim>\<open>_nd\<close> has.\<close>

definition reposition_point :: "nat \<Rightarrow> nat \<Rightarrow> mem_index \<Rightarrow> mem_index res" where
  "reposition_point old_location new_location mi =
     (let nd = mi_nd mi; g = mi_graph mi; data = mi_data mi
      in if length g \<le> nd \<or> length g \<le> new_location \<or> length g \<le> old_location then Inl OutOfRange
         else let g = map (map (rename_nbr old_location new_location)) (take nd g) @ drop nd g;
                  g = g[new_location := []]; n = length (g ! nd)
              in if length (g ! old_location) < n then Inl OutOfRange
                 else let g = g[new_location := take n (g ! old_location)]; g = g[old_location := []]
                 in if length data \<le> old_location \<or> length data \<le> new_location then Inl OutOfRange
                 else Inr (mi\<lparr>mi_graph := g,
                       mi_data := data[new_location := data ! old_location, old_location := replicate (mi_row_bytes mi) 0]\<rparr>))"

definition reposition_frozen_point_to_end :: "mem_index \<Rightarrow> mem_index res" where
  "reposition_frozen_point_to_end mi =
     (if mi_num_frozen mi = 0 \<or> mi_nd mi = mi_max_points mi then Inr mi
      else bindE (reposition_point (mi_nd mi) (mi_max_points mi) mi) (\<lambda>mi. Inr (mi\<lparr>mi_ep := u32 (mi_max_points mi)\<rparr>)))"

text \<open>\<^verbatim>\<open>resize\<close>: the data is copied to a new allocation, the frozen point moves to its end.\<close>

definition resize_index :: "mem_env \<Rightarrow> nat \<Rightarrow> mem_index \<Rightarrow> mem_index res" where
  "resize_index en new_max_points mi =
     (let n = mi_max_points mi
      in if new_max_points < n \<or> length (mi_data mi) < n + 1 then Inl OutOfRange
         else bindE (reposition_point n new_max_points
                (mi\<lparr>mi_data := take (n + 1) (mi_data mi) @ map (me_fresh en) [n + 1..<new_max_points + 1],
                    mi_graph := take (new_max_points + 1) (mi_graph mi) @
                      replicate (new_max_points + 1 - length (mi_graph mi)) []\<rparr>)) (\<lambda>mi.
           Inr (mi\<lparr>mi_max_points := new_max_points, mi_ep := new_max_points,
                   mi_empty_slots := mi_empty_slots mi \<union> {mi_nd mi..<new_max_points}\<rparr>)))"

text \<open>\<^verbatim>\<open>(size_t) (_max_points * INDEX_GROWTH_FACTOR)\<close> with the factor \<^verbatim>\<open>1.5f\<close>; \<^verbatim>\<open>resize\<close> takes 32 bits.\<close>

fun f_trunc :: "f32 \<Rightarrow> nat" where
  "f_trunc (FFin s m) = m div f_unit"
| "f_trunc (FInf s) = 0"
| "f_trunc FNaN = 0"

definition f_1_5 :: f32 where
  "f_1_5 = FFin False (3 * 2 ^ 148)"

definition grown_points :: "nat \<Rightarrow> nat" where
  "grown_points n = u32 (f_trunc (fmul (f_of_nat n) f_1_5))"

section \<open>Insertion and lazy deletion\<close>

definition drop_tag :: "nat \<Rightarrow> mem_index \<Rightarrow> mem_index" where
  "drop_tag tag mi =
     (case mi_tag2loc mi tag of None \<Rightarrow> mi
      | Some l \<Rightarrow> mi\<lparr>mi_delete_set := insert l (mi_delete_set mi), mi_loc2tag := (mi_loc2tag mi)(l := None),
                     mi_tag2loc := (mi_tag2loc mi)(tag := None)\<rparr>)"

text \<open>A location for the new point, after growing a full index once.\<close>

definition get_location :: "mem_env \<Rightarrow> mem_index \<Rightarrow> (nat \<times> mem_index) res" where
  "get_location en mi =
     bindE (reserve_location en mi) (\<lambda>(location, mi).
       case location of Some l \<Rightarrow> Inr (l, mi)
       | None \<Rightarrow>
           bindE (if mi_max_points mi \<le> mi_nd mi then resize_index en (grown_points (mi_max_points mi)) mi else Inr mi) (\<lambda>mi.
           bindE (reserve_location en mi) (\<lambda>(location, mi).
             case location of Some l \<Rightarrow> Inr (l, mi) | None \<Rightarrow> Inl Crash)))"

definition put_row :: "nat \<Rightarrow> byte list \<Rightarrow> mem_index \<Rightarrow> mem_index res" where
  "put_row location row mi = (if location < length (mi_data mi) then Inr (mi\<lparr>mi_data := (mi_data mi)[location := row]\<rparr>) else Inl OutOfRange)"

fun erase_id :: "nat \<Rightarrow> neighbor list \<Rightarrow> neighbor list" where
  "erase_id i [] = []"
| "erase_id i (n # ns) = (if nb_id n = i then ns else n # erase_id i ns)"

definition insert_point :: "mem_env \<Rightarrow> nat \<Rightarrow> prune_cfg \<Rightarrow> nat \<Rightarrow> byte list \<Rightarrow> nat \<Rightarrow> mem_index \<Rightarrow> mem_index res" where
  "insert_point en fuel cf L point tag mi =
     (let mi = (if mi_enable_tags mi \<and> mi_tag2loc mi tag \<noteq> None then drop_tag tag (mi\<lparr>mi_lazy_done := True\<rparr>) else mi)
      in bindE (get_location en mi) (\<lambda>(location, mi).
         let mi = mi\<lparr>mi_tag2loc := (mi_tag2loc mi)(tag \<mapsto> location), mi_loc2tag := (mi_loc2tag mi)(location \<mapsto> tag)\<rparr>
         in bindE (put_row location (aligned_query mi point) mi) (\<lambda>mi.
         bindE (get_expanded_nodes en fuel mi location L []) (\<lambda>pool.
         bindE (mem_prune_neighbors en cf location (erase_id location pool) mi) (\<lambda>(pruned_list, mi).
         bindE (set_nbrs location pruned_list mi) (inter_insert en cf location pruned_list))))))"

definition mem_lazy_delete :: "nat \<Rightarrow> mem_index \<Rightarrow> int \<times> mem_index" where
  "mem_lazy_delete tag mi =
     (if mi_eager_done mi \<and> \<not> mi_compacted mi then (-2, mi)
      else let mi = mi\<lparr>mi_lazy_done := True\<rparr>
           in if mi_tag2loc mi tag = None then (-1, mi) else (0, drop_tag tag mi))"

fun delete_tags :: "nat list \<Rightarrow> nat list \<times> mem_index \<Rightarrow> nat list \<times> mem_index" where
  "delete_tags [] (failed, mi) = (failed, mi)"
| "delete_tags (t # ts) (failed, mi) =
     delete_tags ts (if mi_tag2loc mi t = None then (failed @ [t], mi) else (failed, drop_tag t mi))"

definition lazy_delete_tags :: "nat list \<Rightarrow> nat list \<Rightarrow> mem_index \<Rightarrow> int \<times> nat list \<times> mem_index" where
  "lazy_delete_tags tags failed_tags mi =
     (if failed_tags \<noteq> [] then (-3, failed_tags, mi)
      else if mi_eager_done mi \<and> \<not> mi_compacted mi then (-2, failed_tags, mi)
      else (0, delete_tags tags (failed_tags, mi\<lparr>mi_lazy_done := True\<rparr>)))"

section \<open>Consolidation\<close>

fun gather_live :: "mem_index \<Rightarrow> nat list \<Rightarrow> nat list res" where
  "gather_live mi [] = Inr []"
| "gather_live mi (ngh # nghs) =
     bindE (if ngh \<in> mi_delete_set mi
            then bindE (vget (mi_graph mi) ngh) (\<lambda>l. Inr (filter (\<lambda>j. j \<notin> mi_delete_set mi) l))
            else Inr [ngh]) (\<lambda>xs.
     bindE (gather_live mi nghs) (\<lambda>ys. Inr (xs @ ys)))"

text \<open>A node with a deleted neighbor gets a pruned list of the neighbors' live neighbors.\<close>

definition consolidate_node :: "mem_env \<Rightarrow> prune_cfg \<Rightarrow> nat \<Rightarrow> mem_index \<Rightarrow> mem_index res" where
  "consolidate_node en cf i mi =
     (if i \<in> mi_delete_set mi \<or> i \<in> mi_empty_slots mi then Inr mi
      else bindE (vget (mi_graph mi) i) (\<lambda>nghs.
           bindE (gather_live mi nghs) (\<lambda>candidates.
             if \<not> (\<exists>ngh \<in> set nghs. ngh \<in> mi_delete_set mi) then Inr mi
             else bindE (mapE (\<lambda>j. bindE (mem_dist en mi i j) (\<lambda>d. Inr (Neighbor j d True))) (me_order en candidates)) (\<lambda>pool.
               bindE (mem_occlude_list (mem_dist en mi) cf (sort_lt nb_lt pool)) (\<lambda>result.
                 set_nbrs i (filter (\<lambda>j. j \<noteq> i \<and> j \<notin> mi_delete_set mi) (map nb_id result)) mi)))))"

definition consolidate_deletes :: "mem_env \<Rightarrow> prune_cfg \<Rightarrow> mem_index \<Rightarrow> (nat \<times> mem_index) res" where
  "consolidate_deletes en cf mi =
     (if mi_eager_done mi then Inr (0, mi)
      else bindE (foldE (consolidate_node en cf) [0..<mi_total mi] mi) (\<lambda>mi.
        let nd = u64 (mi_nd mi + (18446744073709551616 - card (mi_delete_set mi)))
        in Inr (nd, mi\<lparr>mi_empty_slots := mi_empty_slots mi \<union> mi_delete_set mi, mi_nd := nd,
                       mi_compacted := (card (mi_delete_set mi) = 0)\<rparr>)))"

end
