(* ===== verification/Mem_Build.thy ===== *)
theory Mem_Build
  imports Mem_Update
begin

text \<open>
  Compaction and building of the in-memory index of \<^verbatim>\<open>src/index.cpp\<close>: the renumbering that closes the
  gaps deletions leave, the frozen point's place, the entry point and the one-pass construction of
  the graph, its parallel loop run in order.
\<close>

section \<open>Compaction\<close>

text \<open>The frozen point behind the last point, as the files have it.\<close>

definition compact_frozen_point :: "mem_index \<Rightarrow> mem_index res" where
  "compact_frozen_point mi =
     (let nd = mi_nd mi; m = mi_max_points mi; g = mi_graph mi; vb = mi_vec_bytes mi
      in if \<not> (nd < m \<and> 0 < mi_num_frozen mi) then Inr mi
         else let mi = mi\<lparr>mi_ep := u32 nd\<rparr>
         in if length g \<le> m \<or> length (mi_data mi) \<le> m then Inl OutOfRange
         else if g ! m = [] then Inr mi
         else let g = map (map (rename_nbr m (u32 nd))) (take nd g) @ drop nd g;
                  g = g[nd := g ! m]; g = g[m := []];
                  data = (mi_data mi)[nd := take vb (mi_data mi ! m) @ drop vb (mi_data mi ! nd)];
                  data = data[m := replicate (mi_row_bytes mi) 0]
              in Inr (mi\<lparr>mi_graph := g, mi_data := data\<rparr>))"

text \<open>Every location with a tag gets the next number, the others (and the frozen point) \<^verbatim>\<open>_max_points\<close>.\<close>

fun number_locs :: "nat \<Rightarrow> (nat \<Rightarrow> nat option) \<Rightarrow> nat list \<Rightarrow> nat \<Rightarrow> nat list" where
  "number_locs m loc2tag [] new_counter = []"
| "number_locs m loc2tag (old # olds) new_counter =
     (if loc2tag old \<noteq> None then new_counter # number_locs m loc2tag olds (new_counter + 1)
      else m # number_locs m loc2tag olds new_counter)"

text \<open>A deleted start node is replaced by its first neighbor that is in the delete set.\<close>

definition replace_start :: "mem_index \<Rightarrow> mem_index res" where
  "replace_start mi =
     (if mi_ep mi \<notin> mi_delete_set mi then Inr mi
      else bindE (vget (mi_graph mi) (mi_ep mi)) (\<lambda>nbrs.
           (case find (\<lambda>x. x \<in> mi_delete_set mi) nbrs of
              None \<Rightarrow> Inl Crash
            | Some x \<Rightarrow> if x = mi_ep mi then Inl Crash else Inr (mi\<lparr>mi_ep := x\<rparr>))))"

definition move_loc :: "nat list \<Rightarrow> nat \<Rightarrow> mem_index \<Rightarrow> mem_index res" where
  "move_loc new_location old mi =
     (let m = mi_max_points mi; g = mi_graph mi
      in bindE (vget new_location old) (\<lambda>new.
         if length g \<le> old then Inl OutOfRange
         else if \<not> (new < m \<or> old = m) then Inr (mi\<lparr>mi_graph := g[old := []]\<rparr>)
         else bindE (mapE (\<lambda>x. bindE (vget new_location x) (\<lambda>y. if x < y then Inl Crash else Inr y)) (g ! old)) (\<lambda>nbrs.
           if new = old then Inr (mi\<lparr>mi_graph := g[old := nbrs]\<rparr>)
           else if length g \<le> new \<or> length (mi_data mi) \<le> old \<or> length (mi_data mi) \<le> new then Inl OutOfRange
           else Inr (mi\<lparr>mi_graph := g[new := nbrs, old := g ! new],
                        mi_data := (mi_data mi)[new := mi_data mi ! old]\<rparr>))))"

text \<open>The tag maps after the move.\<close>

definition moved_tag2loc :: "nat list \<Rightarrow> (nat \<Rightarrow> nat option) \<Rightarrow> nat \<Rightarrow> nat option" where
  "moved_tag2loc new_location loc2tag =
     fold (\<lambda>l m. case loc2tag l of None \<Rightarrow> m | Some t \<Rightarrow> m(t \<mapsto> new_location ! l)) [0..<length new_location] Map.empty"

definition moved_loc2tag :: "nat list \<Rightarrow> (nat \<Rightarrow> nat option) \<Rightarrow> nat \<Rightarrow> nat option" where
  "moved_loc2tag new_location loc2tag =
     fold (\<lambda>l m. case loc2tag l of None \<Rightarrow> m | Some t \<Rightarrow> m(new_location ! l \<mapsto> t)) [0..<length new_location] Map.empty"

definition clear_rows :: "nat \<Rightarrow> nat \<Rightarrow> nat list list \<Rightarrow> nat list list" where
  "clear_rows a b g = fold (\<lambda>i g. g[i := []]) [a..<b] g"

definition compact_data :: "mem_index \<Rightarrow> mem_index res" where
  "compact_data mi =
     (if \<not> mi_dynamic mi \<or> \<not> mi_lazy_done mi \<and> \<not> mi_eager_done mi \<or> mi_compacted mi then Inr mi
      else let m = mi_max_points mi;
               new_location = number_locs m (mi_loc2tag mi) [0..<mi_total mi] 0
           in bindE (replace_start mi) (\<lambda>mi.
              bindE (foldE (move_loc new_location) [0..<m + 1] mi) (\<lambda>mi.
                Inr (mi\<lparr>mi_tag2loc := moved_tag2loc new_location (mi_loc2tag mi),
                        mi_loc2tag := moved_loc2tag new_location (mi_loc2tag mi),
                        mi_graph := clear_rows (mi_nd mi) m (mi_graph mi), mi_delete_set := {},
                        mi_empty_slots := {mi_nd mi..<m}, mi_lazy_done := False, mi_eager_done := False, mi_compacted := True\<rparr>))))"

definition consolidate :: "mem_env \<Rightarrow> prune_cfg \<Rightarrow> mem_index \<Rightarrow> mem_index res" where
  "consolidate en cf mi = bindE (consolidate_deletes en cf mi) (\<lambda>(_, mi). compact_data mi)"

definition clear_index :: "mem_index \<Rightarrow> mem_index" where
  "clear_index mi =
     mi\<lparr>mi_data := map (\<lambda>i. if i < mi_total mi then replicate (mi_row_bytes mi) 0 else mi_data mi ! i) [0..<length (mi_data mi)],
        mi_nd := 0, mi_graph := map (\<lambda>_. []) (mi_graph mi), mi_tag2loc := Map.empty, mi_loc2tag := Map.empty,
        mi_delete_set := {}, mi_empty_slots := {}\<rparr>"

section \<open>The entry point\<close>

text \<open>The closest point to the centroid: one running minimum per run of 65536 points, 256 of them in
  turn, then the minimum of these.\<close>

definition centroid :: "mem_env \<Rightarrow> mem_index \<Rightarrow> nat \<Rightarrow> f32" where
  "centroid en mi j = fdiv (fold (\<lambda>i c. fadd c (me_float en (mi_data mi ! i) j)) [0..<mi_nd mi] f_zero) (f_of_nat (mi_nd mi))"

definition centroid_dist :: "mem_env \<Rightarrow> mem_index \<Rightarrow> nat \<Rightarrow> f32" where
  "centroid_dist en mi i =
     fold (\<lambda>j s. let d = fsub (centroid en mi j) (me_float en (mi_data mi ! i) j) in fadd s (fmul d d)) [0..<mi_aligned_dim mi] f_zero"

definition min_update :: "(nat \<Rightarrow> f32) \<Rightarrow> nat \<Rightarrow> nat \<times> f32 \<Rightarrow> nat \<times> f32" where
  "min_update dist i = (\<lambda>(idx, d). if flt (dist i) d then (i, dist i) else (idx, d))"

definition bucket_mins :: "(nat \<Rightarrow> f32) \<Rightarrow> nat \<Rightarrow> nat \<Rightarrow> nat \<times> f32" where
  "bucket_mins dist n = fold (\<lambda>i b. b((i div 65536) mod 256 := min_update dist i (b ((i div 65536) mod 256)))) [0..<n] (\<lambda>_. (0, FLT_MAX))"

definition bucket_argmin :: "(nat \<Rightarrow> f32) \<Rightarrow> nat \<Rightarrow> nat" where
  "bucket_argmin dist n =
     (let b = bucket_mins dist n
      in fst (fold (\<lambda>k (idx, d). if flt (snd (b k)) d then b k else (idx, d)) [0..<256] (0, FLT_MAX)))"

definition calculate_entry_point :: "mem_env \<Rightarrow> mem_index \<Rightarrow> nat res" where
  "calculate_entry_point en mi =
     (if length (mi_data mi) < mi_nd mi then Inl OutOfRange else Inr (bucket_argmin (centroid_dist en mi) (mi_nd mi)))"

definition generate_frozen_point :: "mem_env \<Rightarrow> mem_index \<Rightarrow> (int \<times> mem_index) res" where
  "generate_frozen_point en mi =
     (if mi_num_frozen mi = 0 then Inr (0, mi)
      else if mi_nd mi = 0
      then bindE (put_row (mi_max_points mi) (replicate (mi_row_bytes mi) 0) mi) (\<lambda>mi. Inr (1, mi))
      else bindE (calculate_entry_point en mi) (\<lambda>res. bindE (vget (mi_data mi) res) (\<lambda>row.
           bindE (put_row (mi_max_points mi) row mi) (\<lambda>mi. Inr (0, mi)))))"

section \<open>Building\<close>

definition link_node :: "mem_env \<Rightarrow> nat \<Rightarrow> prune_cfg \<Rightarrow> nat \<Rightarrow> nat list \<Rightarrow> nat \<Rightarrow> mem_index \<Rightarrow> mem_index res" where
  "link_node en fuel cf L init_ids node mi =
     bindE (get_expanded_nodes en fuel mi node L init_ids) (\<lambda>pool.
     bindE (mem_prune_neighbors en cf node (filter (\<lambda>n. nb_id n \<noteq> node) pool) mi) (\<lambda>(pruned_list, mi).
     bindE (set_nbrs node pruned_list mi) (inter_insert en cf node pruned_list)))"

definition trim_node :: "mem_env \<Rightarrow> prune_cfg \<Rightarrow> nat \<Rightarrow> mem_index \<Rightarrow> mem_index res" where
  "trim_node en cf node mi =
     bindE (vget (mi_graph mi) node) (\<lambda>nbrs.
       if length nbrs \<le> cf_range cf then Inr mi
       else bindE (nbr_pool en mi node nbrs ({}, [])) (\<lambda>pool.
            bindE (mem_prune_neighbors en cf node pool mi) (\<lambda>(new_out, mi). set_nbrs node new_out mi)))"

definition link_graph :: "mem_env \<Rightarrow> nat \<Rightarrow> prune_cfg \<Rightarrow> nat \<Rightarrow> bool \<Rightarrow> mem_index \<Rightarrow> mem_index res" where
  "link_graph en fuel cf L saturate_graph mi =
     (let n = mi_nd mi + mi_num_frozen mi
      in bindE (if 0 < mi_num_frozen mi then Inr (u32 (mi_max_points mi)) else calculate_entry_point en mi) (\<lambda>ep.
         bindE (foldE (link_node en fuel cf L [ep]) [0..<n] (mi\<lparr>mi_saturate := saturate_graph, mi_ep := ep\<rparr>))
           (foldE (trim_node en cf) [0..<n])))"

text \<open>\<^verbatim>\<open>build\<close> on the content of the data file: its rows, its dimension, and the tags given.\<close>

definition build_index :: "mem_env \<Rightarrow> nat \<Rightarrow> prune_cfg \<Rightarrow> nat \<Rightarrow> bool \<Rightarrow> byte list list \<Rightarrow> nat \<Rightarrow> nat \<Rightarrow> nat list \<Rightarrow> mem_index \<Rightarrow> mem_index res" where
  "build_index en fuel cf L saturate_graph file_rows file_dim num_points_to_load tags mi =
     (if mi_max_points mi < length file_rows \<or> length file_rows < num_points_to_load then Inl Crash
      else if file_dim \<noteq> mi_dim mi then Inl Crash
      else let mi = mi\<lparr>mi_data := map (aligned_query mi) file_rows @ drop (length file_rows) (mi_data mi), mi_nd := num_points_to_load\<rparr>
      in if mi_enable_tags mi \<and> length tags \<noteq> num_points_to_load then Inl Crash
      else let n = (if mi_enable_tags mi then length tags else 0);
               mi = mi\<lparr>mi_tag2loc := (mi_tag2loc mi)(take n tags [\<mapsto>] [0..<n]), mi_loc2tag := (mi_loc2tag mi)([0..<n] [\<mapsto>] take n tags)\<rparr>
      in bindE (generate_frozen_point en mi) (\<lambda>(_, mi).
         bindE (link_graph en fuel cf L saturate_graph mi) (\<lambda>mi.
         Inr (mi\<lparr>mi_width := max (u32 (Max (insert 0 (set (map length (take (mi_nd mi) (mi_graph mi))))))) (mi_width mi)\<rparr>))))"

end
