(* ===== verification/Mem_Search.thy ===== *)
theory Mem_Search
  imports Beam_Correct Mem_Build
begin

text \<open>
  Greedy search of the in-memory index: it ends within a bound on the steps, and at a fixed point;
  every neighbor of a node of the result is in the result or no closer than its last node.
\<close>

section \<open>The candidate list\<close>

abbreviation pool_of :: "msearch \<Rightarrow> neighbor list" where
  "pool_of st \<equiv> take (sr_l st) (sr_best st)"

text \<open>An id seen is in the list, or the list is full and no entry is farther.\<close>

definition pool_inv :: "(nat \<Rightarrow> f32) \<Rightarrow> nat \<Rightarrow> nat \<Rightarrow> msearch \<Rightarrow> bool" where
  "pool_inv d L N st \<longleftrightarrow> sr_l st \<le> L \<and> length (sr_best st) = L + 1 \<and> pool_ok (sr_best st) (sr_l st) \<and>
     distinct (map nb_id (pool_of st)) \<and> nb_id ` set (pool_of st) \<subseteq> sr_seen st \<and> sr_seen st \<subseteq> {..<N} \<and>
     (\<forall>n \<in> set (pool_of st). nb_dist n = d (nb_id n)) \<and>
     (sr_l st < L \<longrightarrow> drop (sr_l st) (sr_best st) = empty_pool (L + 1 - sr_l st)) \<and>
     (\<forall>s \<in> sr_seen st. s \<in> nb_id ` set (pool_of st) \<or> sr_l st = L \<and> \<not> flt (d s) (nb_dist (sr_best st ! (L - 1))))"

lemma pool_invD:
  assumes "pool_inv d L N st"
  shows "sr_l st \<le> L" "0 < sr_l st" "length (sr_best st) = L + 1" "pool_ok (sr_best st) (sr_l st)"
    "distinct (map nb_id (pool_of st))" "nb_id ` set (pool_of st) \<subseteq> sr_seen st" "sr_seen st \<subseteq> {..<N}"
    and "n \<in> set (pool_of st) \<Longrightarrow> nb_dist n = d (nb_id n)"
    and "s \<in> sr_seen st \<Longrightarrow> s \<in> nb_id ` set (pool_of st) \<or> sr_l st = L \<and> \<not> flt (d s) (nb_dist (sr_best st ! (L - 1)))"
    and "sr_l st < L \<Longrightarrow> drop (sr_l st) (sr_best st) = empty_pool (L + 1 - sr_l st)"
  using assms pool_okD(1) unfolding pool_inv_def by blast+

lemma in_pool: "k < sr_l st \<Longrightarrow> sr_l st \<le> length (sr_best st) \<Longrightarrow> sr_best st ! k \<in> set (pool_of st)"
  by (auto simp: set_conv_nth intro!: exI [of _ k])

text \<open>Putting an entry into the list keeps the others in order; a full list loses its last.\<close>

lemma put_shrunk:
  assumes put: "pool_put best l nn r best'" and l: "l \<le> length best"
    and l'_def: "l' = (if l < L then l + 1 else l)" and lL: "l \<le> L"
  shows "set (take l' best') \<subseteq> insert nn (set (take l best))"
    "j < r \<Longrightarrow> best' ! j = best ! j"
    "l < L \<Longrightarrow> set (take l' best') = insert nn (set (take l best))"
    "l < L \<Longrightarrow> map f (take l' best') = map f (take r best) @ f nn # map f (drop r (take l best))"
    "\<not> l < L \<Longrightarrow> take l best' = butlast (take r best @ nn # drop r (take l best))"
proof -
  have r: "r \<le> l" "take (l + 1) best' = take r best @ nn # drop r (take l best)" "length best' = length best" using put by (simp_all add: pool_put_def)
  have split: "take l best = take r best @ drop r (take l best)" using r(1) by (metis append_take_drop_id min.absorb1 take_take)
  have s: "set (take (l + 1) best') = insert nn (set (take l best))" unfolding r(2) by (subst split) auto
  have sub: "set (take l best') \<subseteq> set (take (l + 1) best')" by (rule set_take_subset_set_take) simp
  show "set (take l' best') \<subseteq> insert nn (set (take l best))" using s sub l'_def by auto
  show "l < L \<Longrightarrow> set (take l' best') = insert nn (set (take l best))" using s l'_def by simp
  show "l < L \<Longrightarrow> map f (take l' best') = map f (take r best) @ f nn # map f (drop r (take l best))"
    using r(2) l'_def by simp
  show "best' ! j = best ! j" if "j < r"
  proof -
    have "best' ! j = take (l + 1) best' ! j" using that r(1) by simp
    also have "\<dots> = best ! j" unfolding r(2) using that r(1) l by (simp add: nth_append)
    finally show ?thesis .
  qed
  have len: "length (take (l + 1) best') = l + 1" if "\<not> l < L" using put l by (simp add: pool_put_def pool_ok_def)
  show "take l best' = butlast (take r best @ nn # drop r (take l best))" if "\<not> l < L"
    using len [OF that] r(2) by (simp flip: r(2) add: butlast_take)
qed

lemma sorted_last:
  assumes "pool_sorted Q" "length Q = L + 1" "x \<in> set Q" "0 < L"
  shows "x \<in> set (butlast Q) \<or> \<not> flt (nb_dist x) (nb_dist (Q ! (L - 1)))"
proof -
  have q: "Q = butlast Q @ [last Q]" using assms(2) by (cases Q rule: rev_cases) simp_all
  have "\<not> flt (nb_dist (last Q)) (nb_dist (Q ! (L - 1)))"
    using assms(1,2,4) unfolding pool_sorted_def sorted_wrt_iff_nth_less by (simp add: last_conv_nth) (metis diff_less length_0_conv less_Suc_eq less_numeral_extra(1) nat.distinct(1) last_conv_nth diff_Suc_1)
  moreover have "x \<in> set (butlast Q) \<or> x = last Q" using assms(3) by (subst (asm) q) auto
  ultimately show ?thesis by auto
qed

lemma visit_nbr_spec:
  assumes inv: "pool_inv d L N st" and i: "i < N" "dist i = Inr (d i)" and num: "\<And>i. fnum (d i)"
  shows "\<exists>st' nk'. visit_nbr dist L i (st, nk) = Inr (st', nk') \<and> pool_inv d L N st' \<and> sr_seen st' = insert i (sr_seen st) \<and>
    sr_expanded st' = sr_expanded st \<and> sr_l st \<le> sr_l st' \<and> nk' \<le> nk \<and>
    (\<forall>j < min nk' (sr_l st). sr_best st' ! j = sr_best st ! j) \<and>
    set (pool_of st') \<subseteq> set (pool_of st) \<union> (if i \<in> sr_seen st then {} else {Neighbor i (d i) True})"
proof (cases "i \<in> sr_seen st")
  case True
  then have "visit_nbr dist L i (st, nk) = Inr (st, nk)" "insert i (sr_seen st) = sr_seen st" by (auto simp: visit_nbr_def)
  then show ?thesis using inv by (intro exI [of _ st] exI [of _ nk]) simp
next
  case new: False
  note D = pool_invD [OF inv]
  let ?l = "sr_l st" and ?best = "sr_best st" and ?nn = "Neighbor i (d i) True"
  define s1 where "s1 = st\<lparr>sr_seen := insert i (sr_seen st), sr_cmps := u32 (sr_cmps st + 1)\<rparr>"
  have s1: "sr_l s1 = ?l" "sr_best s1 = ?best" "sr_seen s1 = insert i (sr_seen st)" "sr_expanded s1 = sr_expanded st" by (simp_all add: s1_def)
  have g: "\<not> (?l = 0 \<or> length ?best < ?l)" using D(1-3) by simp
  have last: "nb_num (?best ! (?l - 1))" using pool_okD(3) [OF D(4)] D(2) by simp
  show ?thesis
  proof (cases "fge (d i) (nb_dist (?best ! (?l - 1))) \<and> ?l = L")
    case True
    note T = conjunct1 [OF True] conjunct2 [OF True]
    have "\<not> flt (d i) (nb_dist (?best ! (L - 1)))"
      using T fle_not_flt [OF last num [of i]] by simp
    then have "pool_inv d L N s1" using inv i(1) T(2) unfolding pool_inv_def s1 by auto
    moreover have "visit_nbr dist L i (st, nk) = Inr (s1, nk)"
      unfolding visit_nbr_def using new i(2) g T by (simp add: s1_def Let_def)
    ultimately show ?thesis using s1 by (intro exI [of _ s1] exI [of _ nk]) auto
  next
    case False
    have nn: "nb_num ?nn" "nb_id ?nn = i" "nb_dist ?nn = d i" using num by (simp_all add: Neighbor_def)
    from InsertIntoPool_spec [OF D(4) nn(1)] obtain r best' where ip: "InsertIntoPool ?best ?l ?nn = Inr (r, best')"
      "if r = ?l + 1 then best' = ?best \<and> (\<exists>n \<in> set (take ?l ?best). nb_id n = nb_id ?nn)
       else pool_put ?best ?l ?nn r best' \<and> (\<forall>n \<in> set (take ?l ?best). feq (nb_dist n) (nb_dist ?nn) \<longrightarrow> nb_id n \<noteq> nb_id ?nn)" by blast
    have "i \<notin> nb_id ` set (take ?l ?best)" using new D(6) by blast
    then have "r \<noteq> ?l + 1" using ip(2) nn(2) by (auto simp: image_iff)
    with ip(2) have put: "pool_put ?best ?l ?nn r best'" by simp
    define l' where "l' = (if ?l < L then ?l + 1 else ?l)"
    define s2 where "s2 = s1\<lparr>sr_best := best', sr_l := l'\<rparr>"
    have s2: "sr_l s2 = l'" "sr_best s2 = best'" "sr_seen s2 = insert i (sr_seen st)" "sr_expanded s2 = sr_expanded st" by (simp_all add: s2_def s1)
    have run: "visit_nbr dist L i (st, nk) = Inr (s2, if r < nk then r else nk)"
      using new i(2) g False ip(1) by (cases "?l = L") (simp_all add: visit_nbr_def s2_def s1_def l'_def Let_def)
    have ll: "?l \<le> length ?best" using D(1,3) by simp
    note ps = put_shrunk [OF put ll l'_def D(1)]
    have P: "pool_ok best' ?l" "pool_sorted (take (?l + 1) best')" "length best' = length ?best" using put unfolding pool_put_def by blast+
    have P: "pool_ok best' ?l" "pool_sorted (take (?l + 1) best')" "length best' = L + 1" using P D(3) by simp_all
    have base: "nb_id ` set (take l' best') \<subseteq> insert i (sr_seen st)" "\<forall>n \<in> set (take l' best'). nb_dist n = d (nb_id n)"
      using ps(1) D(6,8) nn(2,3) by (auto dest!: subsetD)
    have parts: "take ?l ?best = take r ?best @ drop r (take ?l ?best)"
      using put by (simp add: pool_put_def) (metis append_take_drop_id min.absorb1 take_take)
    have dm: "distinct (map nb_id (take r ?best) @ i # map nb_id (drop r (take ?l ?best)))"
    proof -
      have "distinct (map nb_id (take r ?best) @ map nb_id (drop r (take ?l ?best)))" using D(5) by (subst (asm) parts) simp
      moreover have "i \<notin> nb_id ` set (take ?l ?best)" using new D(6) by blast
      then have "i \<notin> set (map nb_id (take r ?best)) \<and> i \<notin> set (map nb_id (drop r (take ?l ?best)))" by (subst (asm) parts) auto
      ultimately show ?thesis by auto
    qed
    have "pool_inv d L N s2"
    proof (cases "?l < L")
      case True
      then have l': "l' = ?l + 1" by (simp add: l'_def)
      have "pool_ok best' l'" using P True l' ps(3) nn D(4) unfolding pool_ok_def by (simp add: pool_okD)
      moreover have "distinct (map nb_id (take l' best'))" unfolding ps(4) [OF True] nn using dm .
      moreover have "\<forall>s \<in> insert i (sr_seen st). s \<in> nb_id ` set (take l' best')"
        using ps(3) [OF True] D(9) True nn(2) by auto
      moreover have "drop l' best' = empty_pool (L + 1 - l')"
      proof -
        have "drop l' best' = drop (?l + 1) ?best" using put unfolding pool_put_def l' by blast
        also have "\<dots> = drop 1 (drop ?l ?best)" by simp
        also have "\<dots> = drop 1 (empty_pool (L + 1 - ?l))" unfolding D(10) [OF True] ..
        finally show ?thesis by (simp add: empty_pool_def l')
      qed
      ultimately show ?thesis using base D(7) i(1) P(3) True l' unfolding pool_inv_def s2 by auto
    next
      case False
      then have l': "l' = ?l" "?l = L" using D(1) by (simp_all add: l'_def)
      define Q where "Q = take (?l + 1) best'"
      have "Q = take r ?best @ ?nn # drop r (take ?l ?best)" unfolding Q_def using put unfolding pool_put_def by blast
      moreover from this have "take ?l best' = butlast Q" using ps(5) [OF False] by (simp only:)
      moreover have "length Q = L + 1" "pool_sorted Q" using P l' by (simp_all add: Q_def)
      ultimately have Q: "Q = take r ?best @ ?nn # drop r (take ?l ?best)" "take ?l best' = butlast Q" "length Q = L + 1" "pool_sorted Q" .
      have QL: "Q ! (L - 1) = best' ! (L - 1)" using l' by (simp add: Q_def)
      have inQ: "x \<in> set Q" if "x = ?nn \<or> x \<in> set (take ?l ?best)" for x using that unfolding Q(1) by (subst (asm) parts) auto
      have out: "nb_id x \<in> nb_id ` set (take ?l best') \<or> \<not> flt (nb_dist x) (nb_dist (best' ! (L - 1)))" if "x \<in> set Q" for x
        using sorted_last [OF Q(4,3) that] D(2) l' unfolding QL Q(2) by auto
      have lastP: "\<not> flt (nb_dist (?best ! (L - 1))) (nb_dist (best' ! (L - 1)))"
      proof (cases "r < ?l")
        case True
        have "last Q = last (drop r (take ?l ?best))" unfolding Q(1) using True ll by simp
        also have "\<dots> = last (take ?l ?best)" using True ll by (intro last_drop) simp
        also have "\<dots> = ?best ! (L - 1)" using l' D(2) ll by (subst last_conv_nth) auto
        finally have "last Q = ?best ! (L - 1)" .
        then show ?thesis using Q(3,4) D(2) l' unfolding pool_sorted_def sorted_wrt_iff_nth_less QL [symmetric]
          by (simp add: last_conv_nth) (metis diff_less length_0_conv less_Suc_eq less_numeral_extra(1) nat.distinct(1) last_conv_nth diff_Suc_1)
      next
        case False
        then have "r = ?l" using put by (simp add: pool_put_def)
        then have "Q ! (L - 1) = ?best ! (L - 1)" unfolding Q(1) using l' D(2,3) by (simp add: nth_append)
        then show ?thesis unfolding QL by simp
      qed
      have lastn: "nb_num (?best ! (L - 1))" using last l' by simp
      have "\<forall>s \<in> insert i (sr_seen st). s \<in> nb_id ` set (take ?l best') \<or> \<not> flt (d s) (nb_dist (best' ! (L - 1)))"
      proof
        fix s assume "s \<in> insert i (sr_seen st)"
        then consider "s = i" | "s \<in> nb_id ` set (take ?l ?best)" | "\<not> flt (d s) (nb_dist (?best ! (L - 1)))" using D(9) [of s] by blast
        then show "s \<in> nb_id ` set (take ?l best') \<or> \<not> flt (d s) (nb_dist (best' ! (L - 1)))"
        proof cases
          case 1
          then show ?thesis using out [OF inQ [of ?nn]] nn by auto
        next
          case 2
          then obtain x where "x \<in> set (take ?l ?best)" "nb_id x = s" by auto
          then show ?thesis using out [OF inQ [of x]] D(8) [of x] by auto
        next
          case 3
          then show ?thesis using not_flt_trans [OF lastn lastP 3] by simp
        qed
      qed
      moreover have "distinct (map nb_id (take ?l best'))" unfolding Q(2) map_butlast using dm by (intro distinct_butlast) (simp add: Q(1) nn)
      ultimately show ?thesis using base D(7) i(1) P l' unfolding pool_inv_def s2 by auto
    qed
    then show ?thesis using run s2 ps(1,2) D(1)
      by (intro exI [of _ s2] exI [of _ "if r < nk then r else nk"]) (auto simp: l'_def new)
  qed
qed

lemma visit_all_spec:
  assumes "pool_inv d L N st" "\<forall>i \<in> set des. i < N" "\<And>i. i < N \<Longrightarrow> dist i = Inr (d i)" "\<And>i. fnum (d i)"
  shows "\<exists>st' nk'. foldE (visit_nbr dist L) des (st, nk) = Inr (st', nk') \<and> pool_inv d L N st' \<and> sr_seen st' = sr_seen st \<union> set des \<and>
    sr_expanded st' = sr_expanded st \<and> sr_l st \<le> sr_l st' \<and> nk' \<le> nk \<and>
    (\<forall>j < min nk' (sr_l st). sr_best st' ! j = sr_best st ! j) \<and>
    set (pool_of st') \<subseteq> set (pool_of st) \<union> {Neighbor i (d i) True |i. i \<notin> sr_seen st}"
  using assms(1,2)
proof (induction des arbitrary: st nk)
  case Nil
  then show ?case by (intro exI [of _ st] exI [of _ nk]) auto
next
  case (Cons i des)
  have i: "i < N" "dist i = Inr (d i)" using Cons.prems(2) assms(3) by simp_all
  from visit_nbr_spec [where d = d and dist = dist and i = i, OF Cons.prems(1) i assms(4), of nk] obtain s1 n1 where
    1: "visit_nbr dist L i (st, nk) = Inr (s1, n1)" "pool_inv d L N s1" "sr_seen s1 = insert i (sr_seen st)" "sr_expanded s1 = sr_expanded st"
      "sr_l st \<le> sr_l s1" "n1 \<le> nk" "\<forall>j < min n1 (sr_l st). sr_best s1 ! j = sr_best st ! j"
      "set (pool_of s1) \<subseteq> set (pool_of st) \<union> (if i \<in> sr_seen st then {} else {Neighbor i (d i) True})" by blast
  have des: "\<forall>i \<in> set des. i < N" using Cons.prems(2) by simp
  from Cons.IH [OF 1(2) des, of n1] obtain s2 n2 where
    2: "foldE (visit_nbr dist L) des (s1, n1) = Inr (s2, n2)" "pool_inv d L N s2" "sr_seen s2 = sr_seen s1 \<union> set des" "sr_expanded s2 = sr_expanded s1"
      "sr_l s1 \<le> sr_l s2" "n2 \<le> n1" "\<forall>j < min n2 (sr_l s1). sr_best s2 ! j = sr_best s1 ! j"
      "set (pool_of s2) \<subseteq> set (pool_of s1) \<union> {Neighbor i (d i) True |i. i \<notin> sr_seen s1}" by blast
  have "set (pool_of s2) \<subseteq> set (pool_of st) \<union> {Neighbor i (d i) True |i. i \<notin> sr_seen st}"
    using 1(3,8) 2(8) by (auto split: if_splits dest!: subsetD)
  moreover have "\<forall>j < min n2 (sr_l st). sr_best s2 ! j = sr_best st ! j" using 1(5,7) 2(6,7) by auto
  ultimately show ?case using 1 2 by (intro exI [of _ s2] exI [of _ n2]) auto
qed

section \<open>The loop\<close>

text \<open>\<^verbatim>\<open>E\<close> holds the ids expanded so far, \<^verbatim>\<open>R\<close> the nodes that can be reached.\<close>

definition loop_inv :: "(nat \<Rightarrow> f32) \<Rightarrow> nat \<Rightarrow> nat \<Rightarrow> mem_index \<Rightarrow> bool \<Rightarrow> nat set \<Rightarrow> nat set \<Rightarrow> msearch \<Rightarrow> nat \<Rightarrow> bool" where
  "loop_inv d L N mi ret R E st k \<longleftrightarrow> pool_inv d L N st \<and> k \<le> sr_l st \<and> E \<subseteq> sr_seen st \<and> sr_seen st \<subseteq> R \<and>
     (\<forall>n \<in> set (pool_of st). nb_flag n \<longleftrightarrow> nb_id n \<notin> E) \<and> (\<forall>j < k. \<not> nb_flag (sr_best st ! j)) \<and>
     (\<forall>e \<in> E. set (mi_graph mi ! e) \<subseteq> sr_seen st) \<and>
     distinct (map nb_id (sr_expanded st)) \<and> (\<forall>n \<in> set (sr_expanded st). nb_dist n = d (nb_id n)) \<and>
     nb_id ` set (sr_expanded st) = {e \<in> E. ret \<or> \<not> is_frozen_ep mi e}"

definition rows_ok :: "mem_index \<Rightarrow> bool" where
  "rows_ok mi \<longleftrightarrow> length (mi_graph mi) = mi_total mi \<and> mi_total mi \<le> length (mi_data mi) \<and>
     (\<forall>i < mi_total mi. \<forall>x \<in> set (mi_graph mi ! i). x < mi_total mi)"

lemma pool_ok_map: "pool_ok addr K \<longleftrightarrow> 0 < K \<and> K < length addr \<and> sorted_wrt (\<lambda>a b. \<not> flt b a) (map nb_dist (take K addr)) \<and>
    (\<forall>x \<in> set (map nb_dist (take K addr)). fnum x)"
  unfolding pool_ok_def pool_sorted_def sorted_wrt_map by simp

lemma pool_dist_map: "(\<forall>n \<in> set xs. nb_dist n = d (nb_id n)) \<longleftrightarrow> map nb_dist xs = map d (map nb_id xs)"
  by simp

lemma expand_at_spec:
  assumes inv: "loop_inv d L (mi_total mi) mi ret R E st k" and k: "k < sr_l st" "nb_flag (sr_best st ! k)"
    and rows: "rows_ok mi" and R: "\<And>i. i \<in> R \<Longrightarrow> set (mi_graph mi ! i) \<subseteq> R"
    and dist: "\<And>i. i < mi_total mi \<Longrightarrow> dist i = Inr (d i)" "\<And>i. fnum (d i)"
  shows "\<exists>st' k'. expand_at dist mi check ret L k st = Inr (st', k') \<and> nb_id (sr_best st ! k) \<notin> E \<and>
    loop_inv d L (mi_total mi) mi ret R (insert (nb_id (sr_best st ! k)) E) st' k'"
proof -
  note I = inv [unfolded loop_inv_def]
  have pinv: "pool_inv d L (mi_total mi) st" using I by blast
  note D = pool_invD [OF pinv]
  let ?N = "mi_total mi" and ?best = "sr_best st" and ?l = "sr_l st"
  define c where "c = (?best ! k)\<lparr>nb_flag := False\<rparr>"
  define e where "e = nb_id (?best ! k)"
  have c: "nb_id c = e" "nb_dist c = nb_dist (?best ! k)" "\<not> nb_flag c" by (simp_all add: c_def e_def)
  have kin: "?best ! k \<in> set (pool_of st)" using in_pool [OF k(1)] D(1,3) by simp
  have e: "e \<notin> E" "e \<in> sr_seen st" "e < ?N" "nb_dist (?best ! k) = d e"
    using I kin k(2) D(6-8) by (auto simp: e_def)
  define s1 where "s1 = st\<lparr>sr_best := ?best[k := c], sr_expanded := (if is_frozen_ep mi e \<and> \<not> ret then sr_expanded st else sr_expanded st @ [c])\<rparr>"
  have s1: "sr_best s1 = ?best[k := c]" "sr_l s1 = ?l" "sr_seen s1 = sr_seen st" by (simp_all add: s1_def)
  have P1: "pool_of s1 = (pool_of st)[k := c]" using k(1) by (simp add: s1 take_update_swap)
  have upd_map: "map f ((pool_of st)[k := x]) = map f (pool_of st)" if "f x = f (?best ! k)" for f :: "neighbor \<Rightarrow> 'z" and x
  proof -
    have "map f (pool_of st) ! k = f (?best ! k)" using k(1) D(1,3) by simp
    then show ?thesis unfolding map_update that by (metis list_update_id)
  qed
  have ids1: "map nb_id (pool_of s1) = map nb_id (pool_of st)" "map nb_dist (pool_of s1) = map nb_dist (pool_of st)"
    by (simp_all only: P1 upd_map c e_def)
  have ds: "nb_dist (sr_best s1 ! j) = nb_dist (?best ! j)" for j
    using c(2) k(1) D(1,3) by (cases "j = k") (simp_all add: s1)
  have "sr_l s1 = sr_l st" "length (sr_best s1) = length ?best" "drop ?l (sr_best s1) = drop ?l ?best" using k(1) by (simp_all add: s1)
  then have pinv1: "pool_inv d L ?N s1" using pinv ids1 dist(2) unfolding pool_inv_def pool_ok_map set_map [symmetric] ds s1(3) pool_dist_map by simp
  define des where "des = mi_graph mi ! e"
  have des: "\<forall>i \<in> set des. i < ?N" "vget (mi_graph mi) e = Inr des" "\<not> (\<exists>x \<in> set des. ?N \<le> x)"
    using rows e(3) by (auto simp: rows_ok_def des_def vget_def not_le)
  from visit_all_spec [where d = d, OF pinv1 des(1) dist, of ?l] obtain s2 nk where
    v: "foldE (visit_nbr dist L) des (s1, ?l) = Inr (s2, nk)" "pool_inv d L ?N s2" "sr_seen s2 = sr_seen s1 \<union> set des" "sr_expanded s2 = sr_expanded s1"
      "sr_l s1 \<le> sr_l s2" "nk \<le> ?l" "\<forall>j < min nk (sr_l s1). sr_best s2 ! j = sr_best s1 ! j"
      "set (pool_of s2) \<subseteq> set (pool_of s1) \<union> {Neighbor i (d i) True |i. i \<notin> sr_seen s1}" by blast
  let ?k = "if nk \<le> k then nk else k + 1"
  have run: "expand_at dist mi check ret L k st = Inr (s2, ?k)"
    using des(2,3) v(1) by (simp add: expand_at_def Let_def c_def [symmetric] c(1) s1_def [symmetric] s1(2))
  have dP: "distinct (pool_of st)" using D(5) by (simp add: distinct_map)
  have kl: "k < length (pool_of st)" "pool_of st ! k = ?best ! k" using k(1) D(1,3) by simp_all
  have old: "nb_flag n \<longleftrightarrow> nb_id n \<notin> insert e E" if n: "n \<in> set (pool_of s1)" for n
  proof -
    from n have "n = c \<or> n \<in> set (pool_of st) - {?best ! k}" unfolding P1 set_update_distinct [OF dP kl(1)] kl(2) by blast
    then show ?thesis
    proof
      assume n: "n \<in> set (pool_of st) - {?best ! k}"
      then have "nb_id n \<noteq> e" using kin D(5) unfolding e_def distinct_map by (auto dest: inj_onD)
      then show ?thesis using I n by auto
    qed (simp add: c)
  qed
  have seen: "insert e E \<subseteq> sr_seen st" using I e(2) by blast
  have flags: "\<forall>n \<in> set (pool_of s2). nb_flag n \<longleftrightarrow> nb_id n \<notin> insert e E"
  proof
    fix n assume "n \<in> set (pool_of s2)"
    then have "n \<in> set (pool_of s1) \<or> (\<exists>i. i \<notin> sr_seen st \<and> n = Neighbor i (d i) True)" using v(8) s1(3) by auto
    then show "nb_flag n \<longleftrightarrow> nb_id n \<notin> insert e E" using old seen by (auto simp: Neighbor_def)
  qed
  have below: "\<forall>j < ?k. \<not> nb_flag (sr_best s2 ! j)"
  proof (intro allI impI)
    fix j assume j: "j < ?k"
    have "j < min nk (sr_l s1) \<and> j \<le> k" using j k(1) s1(2) by (auto split: if_splits)
    then have "sr_best s2 ! j = ?best[k := c] ! j" using v(7) s1(1) by auto
    then show "\<not> nb_flag (sr_best s2 ! j)" using I \<open>j < min nk (sr_l s1) \<and> j \<le> k\<close> c(3) D(1,3) k(1) by (cases "j = k") auto
  qed
  have ex: "sr_expanded s2 = (if is_frozen_ep mi e \<and> \<not> ret then sr_expanded st else sr_expanded st @ [c])" using v(4) by (simp add: s1_def)
  have idx: "nb_id ` set (sr_expanded st) = {e \<in> E. ret \<or> \<not> is_frozen_ep mi e}" using I by blast
  have "distinct (map nb_id (sr_expanded s2)) \<and> (\<forall>n \<in> set (sr_expanded s2). nb_dist n = d (nb_id n)) \<and>
      nb_id ` set (sr_expanded s2) = {x \<in> insert e E. ret \<or> \<not> is_frozen_ep mi x}"
    using I e(1,4) c idx unfolding ex by auto
  moreover have "sr_seen s2 \<subseteq> R" "\<forall>x \<in> insert e E. set (mi_graph mi ! x) \<subseteq> sr_seen s2"
    using I v(3) s1(3) R [of e] e(2) by (auto simp: des_def)
  moreover have "insert e E \<subseteq> sr_seen s2" "?k \<le> sr_l s2" using seen v(3,5,6) s1 k(1) by auto
  ultimately have "loop_inv d L ?N mi ret R (insert e E) s2 ?k" using v(2) flags below unfolding loop_inv_def by blast
  then show ?thesis using run e(1) by (auto simp: e_def)
qed

lemma search_loop_spec:
  assumes "loop_inv d L (mi_total mi) mi ret R E st k" and rows: "rows_ok mi" and R: "\<And>i. i \<in> R \<Longrightarrow> set (mi_graph mi ! i) \<subseteq> R"
    and dist: "\<And>i. i < mi_total mi \<Longrightarrow> dist i = Inr (d i)" "\<And>i. fnum (d i)"
    and "card ({..<mi_total mi} - E) * (L + 1) + (L - k) \<le> fuel"
  shows "\<exists>st' E'. search_loop dist mi check ret L fuel (st, k) = Inr st' \<and> loop_inv d L (mi_total mi) mi ret R E' st' (sr_l st') \<and> E \<subseteq> E'"
  using assms(1,6)
proof (induction fuel arbitrary: E st k)
  case 0
  have "\<not> k < sr_l st" using 0 pool_invD(1) unfolding loop_inv_def by fastforce
  then have "k = sr_l st" using 0(1) unfolding loop_inv_def by simp
  then show ?case using 0(1) by (auto simp: search_loop.simps)
next
  case (Suc fuel)
  note I = Suc.prems(1) [unfolded loop_inv_def]
  have pinv: "pool_inv d L (mi_total mi) st" using I by blast
  note D = pool_invD [OF pinv]
  show ?case
  proof (cases "k < sr_l st")
    case False
    then have "k = sr_l st" using I by simp
    then show ?thesis using Suc.prems(1) by (auto simp: search_loop.simps)
  next
    case True
    have g: "vget (sr_best st) k = Inr (sr_best st ! k)" using True D(1,3) by (simp add: vget_def)
    show ?thesis
    proof (cases "nb_flag (sr_best st ! k)")
      case False
      have "loop_inv d L (mi_total mi) mi ret R E st (k + 1)" using Suc.prems(1) True False unfolding loop_inv_def by (auto simp: less_Suc_eq)
      moreover have "card ({..<mi_total mi} - E) * (L + 1) + (L - (k + 1)) \<le> fuel" using Suc.prems(2) True D(1) by simp
      ultimately obtain st' E' where "search_loop dist mi check ret L fuel (st, k + 1) = Inr st'"
        "loop_inv d L (mi_total mi) mi ret R E' st' (sr_l st')" "E \<subseteq> E'" using Suc.IH by blast
      then show ?thesis using True False g by (auto simp: search_loop.simps [of _ _ _ _ _ "Suc fuel"])
    next
      case flag: True
      from expand_at_spec [OF Suc.prems(1) True flag rows R dist, of check] obtain s1 k1 where
        e: "expand_at dist mi check ret L k st = Inr (s1, k1)" "nb_id (sr_best st ! k) \<notin> E"
          "loop_inv d L (mi_total mi) mi ret R (insert (nb_id (sr_best st ! k)) E) s1 k1" by blast
      let ?e = "nb_id (sr_best st ! k)"
      have "?e \<in> nb_id ` set (pool_of st)" using in_pool [OF True] D(1,3) by simp
      then have "?e < mi_total mi" using D(6,7) by blast
      then have "card ({..<mi_total mi} - E) = Suc (card ({..<mi_total mi} - insert ?e E))"
        using e(2) by (metis Diff_insert DiffI card_Suc_Diff1 finite_Diff finite_lessThan lessThan_iff)
      then have "card ({..<mi_total mi} - insert ?e E) * (L + 1) + (L - k1) \<le> fuel" using Suc.prems(2) by simp
      from Suc.IH [OF e(3) this] obtain st' E' where "search_loop dist mi check ret L fuel (s1, k1) = Inr st'"
        "loop_inv d L (mi_total mi) mi ret R E' st' (sr_l st')" "insert ?e E \<subseteq> E'" by blast
      then show ?thesis using True flag g e(1) by (auto simp: search_loop.simps [of _ _ _ _ _ "Suc fuel"])
    qed
  qed
qed

section \<open>The fixed point\<close>

abbreviation fresh_nb :: "(nat \<Rightarrow> f32) \<Rightarrow> nat \<Rightarrow> neighbor" where
  "fresh_nb d i \<equiv> Neighbor i (d i) True"

lemma seed_pool_spec:
  assumes "distinct xs" "length xs < L" "\<forall>i \<in> set is. dist i = Inr (d i)"
  shows "\<exists>ys. seed_pool dist L is (map (fresh_nb d) xs @ empty_pool (L + 1 - length xs), length xs, set xs) =
      Inr (map (fresh_nb d) ys @ empty_pool (L + 1 - length ys), length ys, set ys) \<and>
    distinct ys \<and> length ys \<le> L \<and> set xs \<subseteq> set ys \<and> set ys \<subseteq> set xs \<union> set is \<and> (is \<noteq> [] \<longrightarrow> ys \<noteq> [])"
  using assms
proof (induction "is" arbitrary: xs)
  case Nil
  then show ?case by (intro exI [of _ xs]) simp
next
  case (Cons i "is")
  show ?case
  proof (cases "i \<in> set xs")
    case True
    then have "xs \<noteq> []" by auto
    have "\<forall>i \<in> set is. dist i = Inr (d i)" using Cons.prems by simp
    from Cons.IH [OF Cons.prems(1,2) this] obtain ys where
      "seed_pool dist L is (map (fresh_nb d) xs @ empty_pool (L + 1 - length xs), length xs, set xs) =
        Inr (map (fresh_nb d) ys @ empty_pool (L + 1 - length ys), length ys, set ys)" "distinct ys" "length ys \<le> L" "set xs \<subseteq> set ys"
      "set ys \<subseteq> set xs \<union> set is" by blast
    then show ?thesis using True Cons.prems \<open>xs \<noteq> []\<close> by (intro exI [of _ ys]) auto
  next
    case False
    define xs1 where "xs1 = xs @ [i]"
    define b0 where "b0 = map (fresh_nb d) xs @ empty_pool (L + 1 - length xs)"
    define b1 where "b1 = map (fresh_nb d) xs1 @ empty_pool (L + 1 - length xs1)"
    have len: "length xs1 = length xs + 1" "length xs < length b0" using Cons.prems(2) by (simp_all add: xs1_def b0_def empty_pool_def)
    have "empty_pool (L + 1 - length xs) = neighbor_zero\<lparr>nb_dist := FLT_MAX\<rparr> # empty_pool (L + 1 - length xs1)"
      using Cons.prems(2) by (simp add: empty_pool_def len(1) Suc_diff_le flip: replicate_Suc)
    then have upd: "b0[length xs := fresh_nb d i] = b1" by (simp add: b0_def b1_def xs1_def list_update_append)
    have d: "distinct xs1" "dist i = Inr (d i)" "set xs1 = insert i (set xs)" "xs1 \<noteq> []" using Cons.prems False by (auto simp: xs1_def)
    have step: "seed_pool dist L (i # is) (b0, length xs, set xs) =
        (if length xs1 = L then Inr (b1, length xs1, set xs1) else seed_pool dist L is (b1, length xs1, set xs1))"
      using d(2,3) False len upd by simp
    show ?thesis
    proof (cases "length xs1 = L")
      case True
      then show ?thesis unfolding b0_def [symmetric] step using d unfolding b1_def by (intro exI [of _ xs1]) auto
    next
      case nL: False
      then have "length xs1 < L" "\<forall>i \<in> set is. dist i = Inr (d i)" using Cons.prems len by simp_all
      from Cons.IH [OF d(1) this, folded b1_def] obtain ys where
        "seed_pool dist L is (b1, length xs1, set xs1) =
          Inr (map (fresh_nb d) ys @ empty_pool (L + 1 - length ys), length ys, set ys)" "distinct ys" "length ys \<le> L" "set xs1 \<subseteq> set ys"
        "set ys \<subseteq> set xs1 \<union> set is" by blast
      then show ?thesis unfolding b0_def [symmetric] step using nL d by (intro exI [of _ ys]) auto
    qed
  qed
qed

definition graph_edges :: "mem_index \<Rightarrow> (nat \<times> nat) set" where
  "graph_edges mi = {(i, j). j \<in> set (mi_graph mi ! i)}"

definition dist_ok_fn :: "mem_env \<Rightarrow> bool" where
  "dist_ok_fn en \<longleftrightarrow> (\<forall>a b. fnum (me_compare en a b) \<and> me_compare en a b = me_compare en b a)"

text \<open>What a search ends with: the list is sorted, its nodes are reached and all expanded; a neighbor of
  one of them is in the list, or the list is full and the neighbor no closer than its last.\<close>

definition fixed_point :: "(nat \<Rightarrow> f32) \<Rightarrow> mem_index \<Rightarrow> nat \<Rightarrow> nat list \<Rightarrow> bool \<Rightarrow> msearch \<Rightarrow> bool" where
  "fixed_point d mi L init_ids ret_frozen st \<longleftrightarrow>
     0 < sr_l st \<and> sr_l st \<le> L \<and> length (sr_best st) = L + 1 \<and> pool_sorted (pool_of st) \<and> distinct (map nb_id (pool_of st)) \<and>
     (\<forall>n \<in> set (pool_of st). nb_dist n = d (nb_id n) \<and> nb_id n < mi_total mi \<and> nb_id n \<in> (graph_edges mi)\<^sup>* `` set init_ids \<and>
        (\<forall>j \<in> set (mi_graph mi ! nb_id n). j \<in> nb_id ` set (pool_of st) \<or>
           sr_l st = L \<and> \<not> flt (d j) (nb_dist (sr_best st ! (L - 1))))) \<and>
     (sr_l st < L \<longrightarrow> drop (sr_l st) (sr_best st) = empty_pool (L + 1 - sr_l st)) \<and>
     distinct (map nb_id (sr_expanded st)) \<and>
     (\<forall>n \<in> set (sr_expanded st). nb_dist n = d (nb_id n) \<and> nb_id n < mi_total mi \<and> nb_id n \<in> (graph_edges mi)\<^sup>* `` set init_ids) \<and>
     (\<forall>n \<in> set (pool_of st). ret_frozen \<or> \<not> is_frozen_ep mi (nb_id n) \<longrightarrow> nb_id n \<in> nb_id ` set (sr_expanded st))"

lemma iterate_spec:
  assumes rows: "rows_ok mi" and en: "dist_ok_fn en" and L: "0 < L" and init: "init_ids \<noteq> []" "\<forall>i \<in> set init_ids. i < mi_total mi"
    and fuel: "(mi_total mi + 1) * (L + 1) \<le> fuel"
  shows "\<exists>st. iterate_to_fixed_point en fuel mi q L init_ids ret_frozen = Inr st \<and>
    fixed_point (\<lambda>i. me_compare en q (mi_data mi ! i)) mi L init_ids ret_frozen st"
proof -
  define d where "d = (\<lambda>i. me_compare en q (mi_data mi ! i))"
  let ?N = "mi_total mi" and ?R = "(graph_edges mi)\<^sup>* `` set init_ids"
  have num: "fnum (d i)" for i using en by (simp add: dist_ok_fn_def d_def)
  have di: "bindE (vget (mi_data mi) i) (\<lambda>x. Inr (me_compare en q x)) = Inr (d i)" if "i < ?N" for i
    using rows that by (simp add: rows_ok_def vget_def d_def)
  have ds: "bindE (vget (mi_data mi) i) (\<lambda>x. Inr (me_compare en x q)) = Inr (d i)" if "i < ?N" for i
    using rows that en by (simp add: rows_ok_def vget_def d_def dist_ok_fn_def)
  have i0: "\<forall>i \<in> set init_ids. bindE (vget (mi_data mi) i) (\<lambda>x. Inr (me_compare en x q)) = Inr (d i)" using ds init(2) by blast
  have "distinct ([] :: nat list)" "length ([] :: nat list) < L" using L by simp_all
  from seed_pool_spec [OF this i0] obtain ys where
    ys: "seed_pool (\<lambda>i. bindE (vget (mi_data mi) i) (\<lambda>x. Inr (me_compare en x q))) L init_ids (empty_pool (L + 1), 0, {}) =
      Inr (map (fresh_nb d) ys @ empty_pool (L + 1 - length ys), length ys, set ys)" "distinct ys" "length ys \<le> L" "set ys \<subseteq> set init_ids" "ys \<noteq> []"
    using init(1) by (simp only: list.map append_Nil list.size set_simps diff_zero Un_empty_left) blast
  define P where "P = sort_lt nb_lt (map (fresh_nb d) ys)"
  have P: "length P = length ys" "set P = fresh_nb d ` set ys" "distinct (map nb_id P)"
    using ys(2) by (simp_all add: P_def distinct_map_sort_lt comp_def Neighbor_def)
  have nums: "\<forall>n \<in> set P. nb_num n" using num by (simp add: P(2) Neighbor_def)
  have srt: "pool_sorted P"
  proof -
    have "sorted_wrt (\<lambda>a b. \<not> nb_lt b a) P" unfolding P_def by (rule sorted_sort_lt) (use num in \<open>simp add: Neighbor_def\<close>)
    then show ?thesis unfolding pool_sorted_def by (rule sorted_wrt_mono_rel [rotated]) (simp add: nb_lt_def)
  qed
  define st0 where "st0 = \<lparr>sr_best = P @ empty_pool (L + 1 - length ys), sr_l = length ys, sr_seen = set ys, sr_expanded = [], sr_cmps = 0\<rparr>"
  have it: "iterate_to_fixed_point en fuel mi q L init_ids ret_frozen =
      search_loop (\<lambda>i. bindE (vget (mi_data mi) i) (\<lambda>x. Inr (me_compare en q x))) mi True ret_frozen L fuel (st0, 0)"
    unfolding iterate_to_fixed_point_def ys(1) by (simp add: st0_def P_def)
  have ids: "nb_id ` set P = set ys" by (simp add: P(2) image_image Neighbor_def)
  have tk: "pool_of st0 = P" by (simp add: st0_def P(1) [symmetric])
  have f0: "sr_l st0 = length ys" "length (sr_best st0) = L + 1" "sr_seen st0 = set ys" "0 < length ys"
      "drop (length ys) (sr_best st0) = empty_pool (L + 1 - length ys)"
    using ys(3,5) by (simp_all add: st0_def P(1) empty_pool_def)
  have po: "pool_ok (sr_best st0) (sr_l st0)" using f0 ys(3) srt nums unfolding pool_ok_def tk by simp
  have "\<forall>n \<in> set P. nb_dist n = d (nb_id n)" by (simp add: P(2) Neighbor_def)
  then have "pool_inv d L ?N st0"
    using po f0 ys(3,4) P(3) init(2) ids unfolding pool_inv_def tk by (simp add: subset_iff)
  then have inv0: "loop_inv d L ?N mi ret_frozen ?R {} st0 0"
    using ys(4) P(2) unfolding loop_inv_def by (auto simp: st0_def P(1) Neighbor_def)
  have R: "set (mi_graph mi ! i) \<subseteq> ?R" if i: "i \<in> ?R" for i
  proof
    fix j assume "j \<in> set (mi_graph mi ! i)"
    then have "(i, j) \<in> graph_edges mi" by (simp add: graph_edges_def)
    then show "j \<in> ?R" using i by (auto intro: rtrancl_into_rtrancl)
  qed
  have fu: "card ({..<?N} - {}) * (L + 1) + (L - 0) \<le> fuel" using fuel by simp
  from search_loop_spec [where d = d, OF inv0 rows R di num fu] obtain st E where
    s: "search_loop (\<lambda>i. bindE (vget (mi_data mi) i) (\<lambda>x. Inr (me_compare en q x))) mi True ret_frozen L fuel (st0, 0) = Inr st"
      "loop_inv d L ?N mi ret_frozen ?R E st (sr_l st)" by blast
  have pinv: "pool_inv d L ?N st" and I: "E \<subseteq> sr_seen st" "sr_seen st \<subseteq> ?R" "\<forall>n \<in> set (pool_of st). nb_flag n \<longleftrightarrow> nb_id n \<notin> E"
    "\<forall>j < sr_l st. \<not> nb_flag (sr_best st ! j)" "\<forall>e \<in> E. set (mi_graph mi ! e) \<subseteq> sr_seen st" "distinct (map nb_id (sr_expanded st))"
    "\<forall>n \<in> set (sr_expanded st). nb_dist n = d (nb_id n)" "nb_id ` set (sr_expanded st) = {e \<in> E. ret_frozen \<or> \<not> is_frozen_ep mi e}"
    using s(2) unfolding loop_inv_def by simp_all
  note D = pool_invD [OF pinv]
  have E: "nb_id n \<in> E" if "n \<in> set (pool_of st)" for n
  proof -
    from that obtain j where "j < sr_l st" "n = sr_best st ! j" using D(1,3) by (auto simp: set_conv_nth)
    then have "\<not> nb_flag n" using I(4) by blast
    then show ?thesis using I(3) that by blast
  qed
  have "fixed_point d mi L init_ids ret_frozen st"
    unfolding fixed_point_def
  proof (intro conjI ballI)
    show "pool_sorted (pool_of st)" using D(4) by (simp add: pool_ok_def)
    show "sr_l st < L \<longrightarrow> drop (sr_l st) (sr_best st) = empty_pool (L + 1 - sr_l st)" using D(10) by blast
    show "distinct (map nb_id (sr_expanded st))" by (rule I(6))
  next
    fix n assume n: "n \<in> set (pool_of st)"
    have seen: "nb_id n \<in> sr_seen st" using D(6) n by blast
    show "nb_dist n = d (nb_id n)" by (rule D(8) [OF n])
    show "nb_id n < ?N" using D(7) seen by blast
    show "nb_id n \<in> ?R" using I(2) seen by blast
    show "j \<in> nb_id ` set (pool_of st) \<or> sr_l st = L \<and> \<not> flt (d j) (nb_dist (sr_best st ! (L - 1)))" if "j \<in> set (mi_graph mi ! nb_id n)" for j
      by (rule D(9)) (use I(5) E [OF n] that in blast)
    show "ret_frozen \<or> \<not> is_frozen_ep mi (nb_id n) \<longrightarrow> nb_id n \<in> nb_id ` set (sr_expanded st)" unfolding I(8) using E [OF n] by blast
  next
    fix n assume n: "n \<in> set (sr_expanded st)"
    then have "nb_id n \<in> E" using I(8) by blast
    then have seen: "nb_id n \<in> sr_seen st" using I(1) by blast
    show "nb_dist n = d (nb_id n)" using I(7) n by blast
    show "nb_id n < ?N" using D(7) seen by blast
    show "nb_id n \<in> ?R" using I(2) seen by blast
  qed (rule D(1,2,3,5))+
  then show ?thesis using it s(1) by (auto simp: d_def)
qed

end
