(* ===== verification/Mem_Prune.thy ===== *)
theory Mem_Prune
  imports Mem_Search Prune_Props
begin

text \<open>
  Pruning in the in-memory index: for every \<^verbatim>\<open>alpha\<close> below the largest single the loop ends, the result has
  no candidate twice, at most \<^verbatim>\<open>R\<close> of them and never the node itself.
\<close>

lemma occ_update_keep: "occ_update dist cf pool p ts occ = Inr occ' \<Longrightarrow> fgt (occ ! t) (cf_alpha cf) \<Longrightarrow> occ' ! t = occ ! t"
proof (induction ts arbitrary: occ)
  case (Cons u us)
  show ?case
  proof (cases "fgt (occ ! u) (cf_alpha cf)")
    case True
    then show ?thesis using Cons by simp
  next
    case False
    then have ne: "t \<noteq> u" using Cons.prems(2) by auto
    from Cons.prems(1) False obtain x where "occ_update dist cf pool p us (occ[u := fmax (occ ! u) x]) = Inr occ'" by auto
    from Cons.IH [OF this] Cons.prems(2) ne show ?thesis by simp
  qed
qed simp

definition vinv :: "prune_cfg \<Rightarrow> neighbor list \<Rightarrow> f32 list \<Rightarrow> neighbor list \<Rightarrow> nat list \<Rightarrow> bool" where
  "vinv cf pool occ v S \<longleftrightarrow> length occ = length pool \<and> (\<forall>x \<in> set occ. fnum x) \<and> v = map ((!) pool) S \<and> distinct S \<and>
     (\<forall>i \<in> set S. i < occ_limit cf pool \<and> occ ! i = FLT_MAX) \<and> length S \<le> cf_range cf"

lemma vinv_select:
  assumes v: "vinv cf pool occ v S" and s: "start < occ_limit cf pool" "\<not> fgt (occ ! start) cur" "length v < cf_range cf"
    and a: "fle cur (cf_alpha cf)" "flt (cf_alpha cf) FLT_MAX" and dist: "dist_ok dist d pool"
  shows "\<exists>occ'. occ_update dist cf pool (pool ! start) [start + 1..<occ_limit cf pool] (occ[start := FLT_MAX]) = Inr occ' \<and>
    vinv cf pool occ' (v @ [pool ! start]) (S @ [start])"
proof -
  note V = v [unfolded vinv_def]
  have len: "start < length pool" "occ_limit cf pool \<le> length pool" using s(1) occ_limit_le [of cf pool] by simp_all
  let ?o = "occ[start := FLT_MAX]"
  have ts: "\<forall>t \<in> set [start + 1..<occ_limit cf pool]. dist (nb_id (pool ! t)) (nb_id (pool ! start)) = Inr (d (nb_id (pool ! t)) (nb_id (pool ! start)))"
    using dist len unfolding dist_ok_def by simp
  have tl: "\<forall>t \<in> set [start + 1..<occ_limit cf pool]. t < length ?o" using V len by simp
  have nm: "\<forall>x \<in> set ?o. fnum x" using V by (auto dest: set_update_subset_insert [THEN subsetD])
  from occ_update_spec [where dist = dist and d = d and pool = pool and i = start, OF ts tl nm, of cf] obtain occ' where
    o: "occ_update dist cf pool (pool ! start) [start + 1..<occ_limit cf pool] ?o = Inr occ'" "length occ' = length ?o" "\<forall>x \<in> set occ'. fnum x" by blast
  have gt: "fgt FLT_MAX (cf_alpha cf)" using a(2) by simp
  have keep: "occ' ! i = FLT_MAX" if "?o ! i = FLT_MAX" for i using occ_update_keep [OF o(1), of i] gt that by simp
  have new: "start \<notin> set S"
  proof
    assume "start \<in> set S"
    then have e: "occ ! start = FLT_MAX" using V by blast
    have "flt cur FLT_MAX" using a by (auto simp: fle_def dest: flt_trans feq_flt)
    then show False using s(2) e by simp
  qed
  have m: "occ' ! i = FLT_MAX" if "i \<in> set (S @ [start])" for i
  proof (rule keep)
    show "?o ! i = FLT_MAX" using that V len by (cases "i = start") auto
  qed
  have "vinv cf pool occ' (v @ [pool ! start]) (S @ [start])"
    using V o(2,3) new s(1,3) m unfolding vinv_def by auto
  then show ?thesis using o(1) by blast
qed

lemma mem_occ_pass_spec:
  assumes "vinv cf pool occ v S" and ss: "\<forall>s \<in> set ss. s < occ_limit cf pool"
    and a: "fle cur (cf_alpha cf)" "flt (cf_alpha cf) FLT_MAX" and dist: "dist_ok dist d pool"
  shows "\<exists>occ' v' S'. mem_occ_pass dist cf pool cur ss (occ, v) = Inr (occ', v') \<and> vinv cf pool occ' v' S' \<and> length S \<le> length S' \<and>
    (ss \<noteq> [] \<and> 0 < cf_range cf \<and> \<not> fgt (occ ! hd ss) cur \<longrightarrow> S' \<noteq> [])"
  using assms(1,2)
proof (induction ss arbitrary: occ v S)
  case (Cons s ss)
  have ss: "\<forall>s \<in> set ss. s < occ_limit cf pool" "s < occ_limit cf pool" using Cons.prems(2) by simp_all
  consider "\<not> length v < cf_range cf" | "length v < cf_range cf" "fgt (occ ! s) cur" | "length v < cf_range cf" "\<not> fgt (occ ! s) cur" by blast
  then show ?case
  proof cases
    case 1
    have "length v = length S" using Cons.prems(1) by (simp add: vinv_def)
    then show ?thesis using 1 Cons.prems(1) by (intro exI [of _ occ] exI [of _ v] exI [of _ S]) auto
  next
    case 2
    from Cons.IH [OF Cons.prems(1) ss(1)] 2 show ?thesis by fastforce
  next
    case 3
    from vinv_select [OF Cons.prems(1) ss(2) 3(2,1) a dist] obtain o1 where
      o: "occ_update dist cf pool (pool ! s) [s + 1..<occ_limit cf pool] (occ[s := FLT_MAX]) = Inr o1"
        "vinv cf pool o1 (v @ [pool ! s]) (S @ [s])" by blast
    from Cons.IH [OF o(2) ss(1)] obtain occ' v' S' where
      "mem_occ_pass dist cf pool cur ss (o1, v @ [pool ! s]) = Inr (occ', v')" "vinv cf pool occ' v' S'" "length (S @ [s]) \<le> length S'" by blast
    then show ?thesis using 3 o(1) by (intro exI [of _ occ'] exI [of _ v'] exI [of _ S']) auto
  qed
qed (auto intro: exI)

lemma mem_rounds_stop: "\<not> fle cur (cf_alpha cf) \<Longrightarrow> mem_occ_rounds dist cf pool fuel cur st = Inr st"
  by (cases st) (simp add: mem_occ_rounds.simps)

lemma mem_rounds_spec:
  assumes a: "f_below_inf (cf_alpha cf)" "flt (cf_alpha cf) FLT_MAX" and dist: "dist_ok dist d pool"
    and "f_unit \<le> n" "f_mag (cf_alpha cf) * 100 ^ fuel < n * 119 ^ fuel" "vinv cf pool occ v S"
  shows "\<exists>occ' v' S'. mem_occ_rounds dist cf pool fuel (FFin False n) (occ, v) = Inr (occ', v') \<and> vinv cf pool occ' v' S' \<and> length S \<le> length S' \<and>
    (fle (FFin False n) (cf_alpha cf) \<and> 0 < occ_limit cf pool \<and> 0 < cf_range cf \<and> \<not> fgt (occ ! 0) (FFin False n) \<longrightarrow> S' \<noteq> [])"
  using assms(4-6)
proof (induction fuel arbitrary: n occ v S)
  case 0
  then have "\<not> fle (FFin False n) (cf_alpha cf)" using fle_mag [OF a(1)] by fastforce
  then show ?case using mem_rounds_stop 0 by blast
next
  case (Suc fuel)
  show ?case
  proof (cases "fle (FFin False n) (cf_alpha cf) \<and> length v < cf_range cf")
    case False
    have "length v = length S" using Suc.prems(3) by (simp add: vinv_def)
    then show ?thesis using False Suc.prems(3) by (intro exI [of _ occ] exI [of _ v] exI [of _ S]) (auto simp: mem_occ_rounds.simps)
  next
    case True
    have ss: "\<forall>s \<in> set [0..<occ_limit cf pool]. s < occ_limit cf pool" by simp
    from mem_occ_pass_spec [OF Suc.prems(3) ss conjunct1 [OF True] a(2) dist] obtain o1 v1 S1 where
      p: "mem_occ_pass dist cf pool (FFin False n) [0..<occ_limit cf pool] (occ, v) = Inr (o1, v1)" "vinv cf pool o1 v1 S1" "length S \<le> length S1"
        "[0..<occ_limit cf pool] \<noteq> [] \<and> 0 < cf_range cf \<and> \<not> fgt (occ ! hd [0..<occ_limit cf pool]) (FFin False n) \<longrightarrow> S1 \<noteq> []" by blast
    have step: "mem_occ_rounds dist cf pool (Suc fuel) (FFin False n) (occ, v) = mem_occ_rounds dist cf pool fuel (fmul (FFin False n) f_1_2) (o1, v1)"
      using True p(1) by (subst mem_occ_rounds.simps) simp
    have "\<exists>occ' v' S'. mem_occ_rounds dist cf pool fuel (fmul (FFin False n) f_1_2) (o1, v1) = Inr (occ', v') \<and> vinv cf pool occ' v' S' \<and> length S1 \<le> length S'"
    proof (cases "fmul (FFin False n) f_1_2 = FInf False")
      case True
      then show ?thesis using mem_rounds_stop [OF fle_inf [OF a(1)]] p(2) by auto
    next
      case False
      with fmul_1_2 [OF Suc.prems(1)] obtain r where r: "fmul (FFin False n) f_1_2 = FFin False r" "119 * n \<le> 100 * r" by blast
      have u: "f_unit \<le> r" using Suc.prems(1) r(2) by linarith
      have "100 * (f_mag (cf_alpha cf) * 100 ^ fuel) < 119 * n * 119 ^ fuel" using Suc.prems(2) by (simp add: ac_simps)
      also have "\<dots> \<le> 100 * r * 119 ^ fuel" using r(2) by (rule mult_le_mono1)
      finally have "f_mag (cf_alpha cf) * 100 ^ fuel < r * 119 ^ fuel" by simp
      from Suc.IH [OF u this p(2)] show ?thesis unfolding r(1) by blast
    qed
    then obtain occ' v' S' where q: "mem_occ_rounds dist cf pool fuel (fmul (FFin False n) f_1_2) (o1, v1) = Inr (occ', v')"
      "vinv cf pool occ' v' S'" "length S1 \<le> length S'" by blast
    have "0 < occ_limit cf pool \<longrightarrow> hd [0..<occ_limit cf pool] = 0" by (simp add: upt_conv_Cons)
    then show ?thesis unfolding step using q p(3,4) by (intro exI [of _ occ'] exI [of _ v'] exI [of _ S']) auto
  qed
qed

lemma mem_occlude_spec:
  assumes "f_below_inf (cf_alpha cf)" "flt (cf_alpha cf) FLT_MAX" "dist_ok dist d pool"
  shows "\<exists>S. mem_occlude_list dist cf pool = Inr (map ((!) pool) S) \<and> distinct S \<and> (\<forall>i \<in> set S. i < length pool) \<and> length S \<le> cf_range cf \<and>
    (pool \<noteq> [] \<and> 0 < cf_maxc cf \<and> 0 < cf_range cf \<and> fle f_one (cf_alpha cf) \<longrightarrow> S \<noteq> [])"
proof (cases "pool = []")
  case True
  then show ?thesis by (intro exI [of _ "[]"]) (simp add: mem_occlude_list_def)
next
  case False
  let ?z = "replicate (length pool) f_zero"
  have v: "vinv cf pool ?z [] []" by (simp add: vinv_def f_zero_def)
  from mem_rounds_spec [OF assms order_refl alpha_fuel_enough [OF f_mag_bound [OF assms(1)]] v] obtain occ' v' S where
    r: "mem_occ_rounds dist cf pool alpha_fuel f_one (?z, []) = Inr (occ', v')" "vinv cf pool occ' v' S"
      "fle f_one (cf_alpha cf) \<and> 0 < occ_limit cf pool \<and> 0 < cf_range cf \<and> \<not> fgt (?z ! 0) f_one \<longrightarrow> S \<noteq> []"
    unfolding f_one_def by blast
  have z: "\<not> fgt (?z ! 0) f_one" using False by (simp add: f_zero_def f_one_def fsgn_def f_unit_def)
  have "0 < occ_limit cf pool" if "0 < cf_maxc cf" using False that by (simp add: occ_limit_def)
  then show ?thesis using r z False occ_limit_le [of cf pool] by (intro exI [of _ S]) (auto simp: mem_occlude_list_def vinv_def)
qed

end
