(* ===== verification/Mem_Link.thy ===== *)
theory Mem_Link
  imports Mem_Prune
begin

text \<open>Linking nodes into the in-memory graph: what pruning and the back links do to the lists.\<close>

definition params_ok :: "prune_cfg \<Rightarrow> bool" where
  "params_ok cf \<longleftrightarrow> 0 < cf_range cf \<and> 0 < cf_maxc cf \<and> fle f_one (cf_alpha cf) \<and> f_below_inf (cf_alpha cf) \<and> flt (cf_alpha cf) FLT_MAX"

lemma fill_up_spec:
  assumes "distinct pruned" "length pruned \<le> R" "location \<notin> set pruned"
  shows "distinct (fill_up R location ns pruned) \<and> length (fill_up R location ns pruned) \<le> R \<and> location \<notin> set (fill_up R location ns pruned) \<and>
    set pruned \<subseteq> set (fill_up R location ns pruned) \<and> set (fill_up R location ns pruned) \<subseteq> set pruned \<union> nb_id ` set ns"
  using assms
proof (induction ns arbitrary: pruned)
  case (Cons n ns)
  show ?case
  proof (cases "length pruned < R \<and> nb_id n \<notin> set pruned \<and> nb_id n \<noteq> location")
    case True
    then have "distinct (pruned @ [nb_id n])" "length (pruned @ [nb_id n]) \<le> R" "location \<notin> set (pruned @ [nb_id n])" using Cons.prems by auto
    from Cons.IH [OF this] True show ?thesis by auto
  next
    case False
    then show ?thesis using Cons.IH [OF Cons.prems] Cons.prems by auto
  qed
qed simp

definition row_dist :: "mem_env \<Rightarrow> mem_index \<Rightarrow> nat \<Rightarrow> nat \<Rightarrow> f32" where
  "row_dist en mi a b = me_compare en (mi_data mi ! a) (mi_data mi ! b)"

lemma mem_dist_row: "a < length (mi_data mi) \<Longrightarrow> b < length (mi_data mi) \<Longrightarrow> mem_dist en mi a b = Inr (row_dist en mi a b)"
  by (simp add: mem_dist_def vget_def row_dist_def)

text \<open>Occlusion keeps some of the candidates, each once, and at most \<^verbatim>\<open>R\<close>.\<close>

lemma occlude_sorted_spec:
  assumes cf: "params_ok cf" and pool: "pool \<noteq> []" "distinct (map nb_id pool)" "\<forall>n \<in> set pool. nb_id n < length (mi_data mi)"
  shows "\<exists>result. mem_occlude_list (mem_dist en mi) cf (sort_lt nb_lt pool) = Inr result \<and> distinct (map nb_id result) \<and> result \<noteq> [] \<and>
    nb_id ` set result \<subseteq> nb_id ` set pool \<and> length result \<le> cf_range cf"
proof -
  define p where "p = sort_lt nb_lt pool"
  have p: "p \<noteq> []" "set p = set pool" "distinct (map nb_id p)"
    using pool(1,2) distinct_map_sort_lt [of nb_id nb_lt pool] set_sort_lt [of nb_lt pool] by (auto simp: p_def simp del: set_sort_lt)
  have "dist_ok (mem_dist en mi) (row_dist en mi) p" unfolding dist_ok_def
  proof (intro allI impI)
    have b: "nb_id (p ! t) < length (mi_data mi)" if "t < length p" for t using pool(3) p(2) nth_mem [OF that] by auto
    fix t u assume "t < length p" "u < length p"
    then show "mem_dist en mi (nb_id (p ! t)) (nb_id (p ! u)) = Inr (row_dist en mi (nb_id (p ! t)) (nb_id (p ! u)))"
      by (intro mem_dist_row b)
  qed
  from mem_occlude_spec [OF _ _ this] cf obtain S where
    S: "mem_occlude_list (mem_dist en mi) cf p = Inr (map ((!) p) S)" "distinct S" "\<forall>i \<in> set S. i < length p" "length S \<le> cf_range cf" "S \<noteq> []"
    unfolding params_ok_def using p(1) by blast
  have "inj_on (\<lambda>i. nb_id (p ! i)) (set S)" using p(3) S(3) by (auto simp: inj_on_def distinct_conv_nth)
  then have "distinct (map nb_id (map ((!) p) S))" using S(2) by (simp add: distinct_map comp_def)
  moreover have "nb_id ` set (map ((!) p) S) \<subseteq> nb_id ` set pool" using S(3) p(2) nth_mem by auto
  ultimately show ?thesis using S(1,4,5) by (intro exI [of _ "map ((!) p) S"]) (simp add: p_def)
qed

lemma mem_prune_spec:
  assumes cf: "params_ok cf" and pool: "pool \<noteq> []" "distinct (map nb_id pool)" "\<forall>n \<in> set pool. nb_id n < length (mi_data mi)"
  shows "\<exists>l. mem_prune_neighbors en cf location pool mi = Inr (l, mi\<lparr>mi_width := max (mi_width mi) (cf_range cf)\<rparr>) \<and>
    distinct l \<and> location \<notin> set l \<and> set l \<subseteq> nb_id ` set pool \<and> length l \<le> cf_range cf \<and> (location \<notin> nb_id ` set pool \<longrightarrow> l \<noteq> [])"
proof -
  from occlude_sorted_spec [OF cf pool, of en] obtain result where
    S: "mem_occlude_list (mem_dist en mi) cf (sort_lt nb_lt pool) = Inr result" "distinct (map nb_id result)" "result \<noteq> []"
      "nb_id ` set result \<subseteq> nb_id ` set pool" "length result \<le> cf_range cf" by blast
  define ids where "ids = map nb_id result"
  have ids: "distinct ids" "set ids \<subseteq> nb_id ` set pool" "ids \<noteq> []" "length ids \<le> cf_range cf" using S(2-5) by (simp_all add: ids_def)
  define pr where "pr = filter (\<lambda>i. i \<noteq> location) ids"
  have pr: "distinct pr" "length pr \<le> cf_range cf" "location \<notin> set pr" "set pr \<subseteq> nb_id ` set pool" "location \<notin> nb_id ` set pool \<longrightarrow> pr \<noteq> []"
    using ids le_trans [OF length_filter_le ids(4)] by (auto simp: pr_def filter_empty_conv) (metis last_in_set subsetD)
  define l where "l = (if mi_saturate mi \<and> fgt (cf_alpha cf) f_one then fill_up (cf_range cf) location (sort_lt nb_lt pool) pr else pr)"
  have "mem_prune_neighbors en cf location pool mi = Inr (l, mi\<lparr>mi_width := max (mi_width mi) (cf_range cf)\<rparr>)"
    using pool(1) S(1) by (simp add: mem_prune_neighbors_def l_def pr_def ids_def Let_def)
  moreover have "distinct l \<and> location \<notin> set l \<and> set l \<subseteq> nb_id ` set pool \<and> length l \<le> cf_range cf \<and> (location \<notin> nb_id ` set pool \<longrightarrow> l \<noteq> [])"
    using pr fill_up_spec [OF pr(1-3), of "sort_lt nb_lt pool"] set_sort_lt [of nb_lt pool] by (auto simp: l_def simp del: set_sort_lt)
  ultimately show ?thesis by blast
qed

lemma nbr_pool_spec:
  assumes "\<forall>i \<in> insert des (set is). i < length (mi_data mi)" "distinct (map nb_id pool)" "nb_id ` set pool = seen"
  shows "\<exists>pool'. nbr_pool en mi des is (seen, pool) = Inr pool' \<and> distinct (map nb_id pool') \<and> nb_id ` set pool' = seen \<union> (set is - {des})"
  using assms
proof (induction "is" arbitrary: seen pool)
  case (Cons i "is")
  have b: "\<forall>i \<in> insert des (set is). i < length (mi_data mi)" using Cons.prems(1) by simp
  show ?case
  proof (cases "i \<notin> seen \<and> i \<noteq> des")
    case True
    have d: "mem_dist en mi des i = Inr (row_dist en mi des i)" using Cons.prems(1) by (simp add: mem_dist_row)
    have "distinct (map nb_id (pool @ [Neighbor i (row_dist en mi des i) True]))" "nb_id ` set (pool @ [Neighbor i (row_dist en mi des i) True]) = insert i seen"
      using Cons.prems(2,3) True by (auto simp: Neighbor_def)
    from Cons.IH [OF b this] True d show ?thesis by auto
  next
    case False
    then show ?thesis using Cons.IH [OF b Cons.prems(2,3)] by auto
  qed
qed auto

section \<open>Back links\<close>

text \<open>What linking may do to the list of a node: nothing, append \<^verbatim>\<open>n\<close>, or prune.\<close>

definition relinked :: "prune_cfg \<Rightarrow> nat \<Rightarrow> nat \<Rightarrow> nat list \<Rightarrow> nat list \<Rightarrow> bool" where
  "relinked cf n des old new \<longleftrightarrow> distinct new \<and> des \<notin> set new \<and> set new \<subseteq> insert n (set old) \<and> length new \<le> slack_range (cf_range cf) \<and>
     (n \<in> set old \<longrightarrow> new = old) \<and>
     (n \<notin> set old \<longrightarrow> (if length old < slack_range (cf_range cf) then new = old @ [n] else new \<noteq> [] \<and> length new \<le> cf_range cf))"

lemma slack_ge: "R \<le> slack_range R"
  by (simp add: slack_range_def)

lemma inter_insert_one_spec:
  assumes cf: "params_ok cf" and des: "des < length (mi_graph mi)" "des \<noteq> n" "n < length (mi_data mi)" "des < length (mi_data mi)"
    and old: "distinct (mi_graph mi ! des)" "des \<notin> set (mi_graph mi ! des)" "\<forall>x \<in> set (mi_graph mi ! des). x < length (mi_data mi)"
      "length (mi_graph mi ! des) \<le> slack_range (cf_range cf)"
  shows "\<exists>new w. inter_insert_one en cf n des mi = Inr (mi\<lparr>mi_graph := (mi_graph mi)[des := new], mi_width := w\<rparr>) \<and>
    relinked cf n des (mi_graph mi ! des) new"
proof -
  let ?old = "mi_graph mi ! des"
  have g: "vget (mi_graph mi) des = Inr ?old" using des(1) by (simp add: vget_def)
  consider "n \<in> set ?old" | "n \<notin> set ?old" "length ?old < slack_range (cf_range cf)" | "n \<notin> set ?old" "\<not> length ?old < slack_range (cf_range cf)" by blast
  then show ?thesis
  proof cases
    case 1
    then show ?thesis using g old by (intro exI [of _ ?old] exI [of _ "mi_width mi"]) (auto simp: inter_insert_one_def relinked_def)
  next
    case 2
    then show ?thesis using g old des by (intro exI [of _ "?old @ [n]"] exI [of _ "mi_width mi"]) (auto simp: inter_insert_one_def relinked_def set_nbrs_def)
  next
    case 3
    have "\<forall>i \<in> insert des (set (?old @ [n])). i < length (mi_data mi)" using old(3) des(3,4) by auto
    from nbr_pool_spec [OF this, of "[]" "{}" en] obtain pool where
      p: "nbr_pool en mi des (?old @ [n]) ({}, []) = Inr pool" "distinct (map nb_id pool)" "nb_id ` set pool = set (?old @ [n]) - {des}" by auto
    have ne: "pool \<noteq> []" using p(3) des(2) by auto
    have b: "\<forall>x \<in> set pool. nb_id x < length (mi_data mi)" using p(3) old(3) des(3) by auto
    from mem_prune_spec [OF cf ne p(2) b, of en des] obtain l where
      l: "mem_prune_neighbors en cf des pool mi = Inr (l, mi\<lparr>mi_width := max (mi_width mi) (cf_range cf)\<rparr>)" "distinct l" "des \<notin> set l"
        "set l \<subseteq> nb_id ` set pool" "length l \<le> cf_range cf" "des \<notin> nb_id ` set pool \<longrightarrow> l \<noteq> []" by blast
    have "inter_insert_one en cf n des mi = Inr (mi\<lparr>mi_graph := (mi_graph mi)[des := l], mi_width := max (mi_width mi) (cf_range cf)\<rparr>)"
      using g 3 p(1) l(1) des(1) by (simp add: inter_insert_one_def set_nbrs_def)
    moreover have "relinked cf n des ?old l" using l(2-6) p(3) 3 slack_ge [of "cf_range cf"] by (auto simp: relinked_def)
    ultimately show ?thesis by blast
  qed
qed

text \<open>A list of a node: without repetition, without the node, of rows that exist, not too long.\<close>

definition nbrs_ok :: "prune_cfg \<Rightarrow> nat \<Rightarrow> nat \<Rightarrow> nat list \<Rightarrow> bool" where
  "nbrs_ok cf m i l \<longleftrightarrow> distinct l \<and> i \<notin> set l \<and> (\<forall>x \<in> set l. x < m) \<and> length l \<le> slack_range (cf_range cf)"

lemma relinked_ok: "relinked cf n des old new \<Longrightarrow> nbrs_ok cf m des old \<Longrightarrow> n < m \<Longrightarrow> nbrs_ok cf m des new"
  by (auto simp: relinked_def nbrs_ok_def)

lemma inter_insert_spec:
  assumes cf: "params_ok cf" and "distinct pruned" "n \<notin> set pruned" "n < length (mi_data mi)" "length (mi_graph mi) \<le> length (mi_data mi)"
    and "\<forall>des \<in> set pruned. des < length (mi_graph mi) \<and> nbrs_ok cf (length (mi_data mi)) des (mi_graph mi ! des)"
  shows "\<exists>g w. inter_insert en cf n pruned mi = Inr (mi\<lparr>mi_graph := g, mi_width := w\<rparr>) \<and> length g = length (mi_graph mi) \<and>
    (\<forall>i. i \<notin> set pruned \<longrightarrow> g ! i = mi_graph mi ! i) \<and> (\<forall>des \<in> set pruned. relinked cf n des (mi_graph mi ! des) (g ! des))"
  unfolding inter_insert_def using assms(2-6)
proof (induction pruned arbitrary: mi)
  case Nil
  then show ?case by (intro exI [of _ "mi_graph mi"] exI [of _ "mi_width mi"]) simp
next
  case (Cons des pruned)
  have d: "des < length (mi_graph mi)" "des \<noteq> n" "des < length (mi_data mi)" "nbrs_ok cf (length (mi_data mi)) des (mi_graph mi ! des)"
    using Cons.prems by auto
  from inter_insert_one_spec [OF cf d(1,2) Cons.prems(3) d(3)] d(4) obtain new w where
    o: "inter_insert_one en cf n des mi = Inr (mi\<lparr>mi_graph := (mi_graph mi)[des := new], mi_width := w\<rparr>)" "relinked cf n des (mi_graph mi ! des) new"
    unfolding nbrs_ok_def by blast
  define m1 where "m1 = mi\<lparr>mi_graph := (mi_graph mi)[des := new], mi_width := w\<rparr>"
  have m1: "mi_graph m1 = (mi_graph mi)[des := new]" "mi_data m1 = mi_data mi" by (simp_all add: m1_def)
  have p: "distinct pruned" "n \<notin> set pruned" "n < length (mi_data m1)" "length (mi_graph m1) \<le> length (mi_data m1)"
    "\<forall>x \<in> set pruned. x < length (mi_graph m1) \<and> nbrs_ok cf (length (mi_data m1)) x (mi_graph m1 ! x)"
    using Cons.prems unfolding m1 by (auto simp: nth_list_update)
  from Cons.IH [OF p] obtain g w' where
    i: "foldE (inter_insert_one en cf n) pruned m1 = Inr (m1\<lparr>mi_graph := g, mi_width := w'\<rparr>)" "length g = length (mi_graph m1)"
      "\<forall>i. i \<notin> set pruned \<longrightarrow> g ! i = mi_graph m1 ! i" "\<forall>des \<in> set pruned. relinked cf n des (mi_graph m1 ! des) (g ! des)" by blast
  have e: "m1\<lparr>mi_graph := g, mi_width := w'\<rparr> = mi\<lparr>mi_graph := g, mi_width := w'\<rparr>" by (simp add: m1_def)
  have dn: "des \<notin> set pruned" using Cons.prems(1) by simp
  have "\<forall>x \<in> set (des # pruned). relinked cf n x (mi_graph mi ! x) (g ! x)"
  proof
    fix x assume x: "x \<in> set (des # pruned)"
    show "relinked cf n x (mi_graph mi ! x) (g ! x)"
    proof (cases "x = des")
      case True
      then show ?thesis using i(3) dn m1(1) d(1) o(2) by simp
    next
      case False
      then show ?thesis using i(4) x m1(1) by (metis nth_list_update_neq set_ConsD)
    qed
  qed
  moreover have "\<forall>x. x \<notin> set (des # pruned) \<longrightarrow> g ! x = mi_graph mi ! x" using i(3) m1(1) by simp
  ultimately show ?case using o(1) i(1,2) e m1(1) by (intro exI [of _ g] exI [of _ w']) (simp add: m1_def)
qed

end
