(* ===== verification/Mem_Ok.thy ===== *)
theory Mem_Ok
  imports Mem_Link
begin

text \<open>
  The in-memory index in order, and the map from tags to vectors it stands for.
\<close>

section \<open>The invariant\<close>

text \<open>The locations in use: of a point with a tag, or of a deleted one that is not yet free.\<close>

definition mem_occ :: "mem_index \<Rightarrow> nat set" where
  "mem_occ mi = dom (mi_loc2tag mi) \<union> (mi_delete_set mi - mi_empty_slots mi)"

definition slots_ok :: "mem_index \<Rightarrow> bool" where
  "slots_ok mi \<longleftrightarrow> (\<forall>t l. mi_tag2loc mi t = Some l \<longleftrightarrow> mi_loc2tag mi l = Some t) \<and>
     dom (mi_loc2tag mi) \<union> mi_delete_set mi \<union> mi_empty_slots mi = {..<mi_max_points mi} \<and>
     dom (mi_loc2tag mi) \<inter> (mi_delete_set mi \<union> mi_empty_slots mi) = {} \<and> mi_nd mi = card (mem_occ mi) \<and>
     (mi_compacted mi \<longrightarrow> mem_occ mi = {..<mi_nd mi} \<and> mi_delete_set mi \<inter> mi_empty_slots mi = {})"

definition shape_ok :: "mem_index \<Rightarrow> bool" where
  "shape_ok mi \<longleftrightarrow> mi_num_frozen mi = 1 \<and> mi_dynamic mi \<and> mi_enable_tags mi \<and> \<not> mi_eager_done mi \<and> 0 < mi_max_points mi \<and>
     mi_max_points mi < 4294967296 \<and> mi_ep mi = mi_max_points mi \<and> length (mi_graph mi) = mi_max_points mi + 1 \<and>
     length (mi_data mi) = mi_max_points mi + 1 \<and> (\<forall>i \<le> mi_max_points mi. \<forall>x \<in> set (mi_graph mi ! i). x \<le> mi_max_points mi)"

text \<open>The lists of the nodes in use (but those in \<^verbatim>\<open>X\<close>) lead to nodes in use.\<close>

definition lists_ok :: "prune_cfg \<Rightarrow> nat set \<Rightarrow> mem_index \<Rightarrow> bool" where
  "lists_ok cf X mi \<longleftrightarrow> (\<forall>i \<in> insert (mi_max_points mi) (mem_occ mi) - X.
     nbrs_ok cf (mi_max_points mi + 1) i (mi_graph mi ! i) \<and> set (mi_graph mi ! i) \<subseteq> insert (mi_max_points mi) (mem_occ mi) - X)"

definition mem_ok :: "prune_cfg \<Rightarrow> mem_index \<Rightarrow> bool" where
  "mem_ok cf mi \<longleftrightarrow> slots_ok mi \<and> shape_ok mi \<and> lists_ok cf {} mi"

text \<open>The abstract view: a map from tags to rows.\<close>

definition vec_of :: "mem_index \<Rightarrow> nat \<Rightarrow> byte list option" where
  "vec_of mi t = map_option ((!) (mi_data mi)) (mi_tag2loc mi t)"

lemma slots_okD:
  assumes "slots_ok mi"
  shows "mi_tag2loc mi t = Some l \<longleftrightarrow> mi_loc2tag mi l = Some t"
    "dom (mi_loc2tag mi) \<union> mi_delete_set mi \<union> mi_empty_slots mi = {..<mi_max_points mi}"
    "dom (mi_loc2tag mi) \<inter> (mi_delete_set mi \<union> mi_empty_slots mi) = {}" "mi_nd mi = card (mem_occ mi)"
    "mi_compacted mi \<Longrightarrow> mem_occ mi = {..<mi_nd mi}" "mi_compacted mi \<Longrightarrow> mi_delete_set mi \<inter> mi_empty_slots mi = {}"
  using assms unfolding slots_ok_def by blast+

lemma occ_split:
  assumes "slots_ok mi"
  shows "mem_occ mi \<subseteq> {..<mi_max_points mi}" "finite (mem_occ mi)" "mem_occ mi = {..<mi_max_points mi} - mi_empty_slots mi"
    "mi_nd mi \<le> mi_max_points mi" "mi_nd mi = mi_max_points mi \<Longrightarrow> mi_empty_slots mi = {}"
proof -
  note D = slots_okD [OF assms]
  show sub: "mem_occ mi \<subseteq> {..<mi_max_points mi}" unfolding mem_occ_def D(2) [symmetric] by blast
  then show fin: "finite (mem_occ mi)" by (rule finite_subset) simp
  show eq: "mem_occ mi = {..<mi_max_points mi} - mi_empty_slots mi" unfolding mem_occ_def D(2) [symmetric] using D(3) by blast
  show "mi_nd mi \<le> mi_max_points mi" using card_mono [OF _ sub] D(4) by simp
  assume "mi_nd mi = mi_max_points mi"
  then have "mem_occ mi = {..<mi_max_points mi}" using card_subset_eq [OF _ sub] D(4) by simp
  then show "mi_empty_slots mi = {}" using eq D(2) by blast
qed

lemma rows_ok_shape: "shape_ok mi \<Longrightarrow> rows_ok mi"
  by (auto simp: shape_ok_def rows_ok_def mi_total_def less_Suc_eq_le)

section \<open>Dropping a tag\<close>

lemma drop_tag_ok:
  assumes ok: "mem_ok cf mi" and l: "mi_tag2loc mi tag = Some l"
  shows "mem_ok cf (drop_tag tag mi)" "vec_of (drop_tag tag mi) = (vec_of mi)(tag := None)" "mem_occ (drop_tag tag mi) = mem_occ mi"
    "mi_delete_set (drop_tag tag mi) = insert l (mi_delete_set mi)"
proof -
  have S: "slots_ok mi" using ok by (simp add: mem_ok_def)
  note D = slots_okD [OF S]
  define m where "m = drop_tag tag mi"
  have m: "mi_delete_set m = insert l (mi_delete_set mi)" "mi_loc2tag m = (mi_loc2tag mi)(l := None)" "mi_tag2loc m = (mi_tag2loc mi)(tag := None)"
    "mi_empty_slots m = mi_empty_slots mi" "mi_nd m = mi_nd mi" "mi_max_points m = mi_max_points mi" "mi_compacted m = mi_compacted mi"
    "mi_graph m = mi_graph mi" "mi_data m = mi_data mi" "shape_ok m = shape_ok mi"
    by (simp_all add: m_def drop_tag_def l shape_ok_def)
  have lt: "mi_loc2tag mi l = Some tag" using D(1) l by blast
  then have ld: "l \<in> dom (mi_loc2tag mi)" by blast
  have occ: "mem_occ m = mem_occ mi" using ld D(3) unfolding mem_occ_def m by auto
  have "slots_ok m"
    unfolding slots_ok_def occ m(4-7)
  proof (intro conjI allI impI)
    show "mi_tag2loc m t = Some k \<longleftrightarrow> mi_loc2tag m k = Some t" for t k using D(1) [of t k] D(1) [of tag k] lt l unfolding m by auto
    show "dom (mi_loc2tag m) \<union> mi_delete_set m \<union> mi_empty_slots mi = {..<mi_max_points mi}" using D(2) ld unfolding m by auto
    show "dom (mi_loc2tag m) \<inter> (mi_delete_set m \<union> mi_empty_slots mi) = {}" using D(3) unfolding m by auto
    show "mi_nd mi = card (mem_occ mi)" by (rule D(4))
    show "mem_occ mi = {..<mi_nd mi}" if "mi_compacted mi" by (rule D(5) [OF that])
    show "mi_delete_set m \<inter> mi_empty_slots mi = {}" if "mi_compacted mi" using D(6) [OF that] D(3) ld unfolding m by auto
  qed
  then show "mem_ok cf (drop_tag tag mi)" using ok unfolding mem_ok_def m_def [symmetric] lists_ok_def occ m by blast
  show "vec_of (drop_tag tag mi) = (vec_of mi)(tag := None)" by (simp add: vec_of_def m_def [symmetric] m fun_eq_iff)
  show "mem_occ (drop_tag tag mi) = mem_occ mi" using occ by (simp add: m_def)
  show "mi_delete_set (drop_tag tag mi) = insert l (mi_delete_set mi)" using m(1) by (simp add: m_def)
qed

lemma lazy_done_frame:
  "mem_ok cf (mi\<lparr>mi_lazy_done := b\<rparr>) = mem_ok cf mi" "vec_of (mi\<lparr>mi_lazy_done := b\<rparr>) = vec_of mi" "mem_occ (mi\<lparr>mi_lazy_done := b\<rparr>) = mem_occ mi"
  by (simp_all add: mem_ok_def slots_ok_def shape_ok_def lists_ok_def vec_of_def mem_occ_def fun_eq_iff)

section \<open>Taking a slot\<close>

definition first_ok :: "mem_env \<Rightarrow> bool" where
  "first_ok en \<longleftrightarrow> (\<forall>S. finite S \<longrightarrow> S \<noteq> {} \<longrightarrow> me_first en S \<in> S)"

lemma reserve_spec:
  assumes S: "slots_ok mi" and en: "first_ok en" and room: "mi_nd mi < mi_max_points mi"
  shows "\<exists>l. reserve_location en mi = Inr (Some l, mi\<lparr>mi_empty_slots := mi_empty_slots mi - {l}, mi_delete_set := mi_delete_set mi - {l}, mi_nd := mi_nd mi + 1\<rparr>) \<and>
    l \<in> mi_empty_slots mi \<and> (mi_compacted mi \<longrightarrow> l = mi_nd mi)"
proof -
  note D = slots_okD [OF S] and O = occ_split [OF S]
  have fe: "finite (mi_empty_slots mi)" by (rule finite_subset [of _ "{..<mi_max_points mi}"]) (use D(2) in auto)
  show ?thesis
  proof (cases "mi_compacted mi")
    case True
    have "mi_nd mi \<notin> mem_occ mi" using D(5) [OF True] by simp
    then have e: "mi_nd mi \<in> mi_empty_slots mi" using O(3) room by auto
    then have "mi_nd mi \<notin> mi_delete_set mi" using D(6) [OF True] by blast
    then have "mi_delete_set mi = mi_delete_set mi - {mi_nd mi}" by blast
    then have "mi\<lparr>mi_empty_slots := mi_empty_slots mi - {mi_nd mi}, mi_nd := mi_nd mi + 1\<rparr> =
        mi\<lparr>mi_empty_slots := mi_empty_slots mi - {mi_nd mi}, mi_delete_set := mi_delete_set mi - {mi_nd mi}, mi_nd := mi_nd mi + 1\<rparr>" by (cases mi) simp
    then show ?thesis using True room e by (intro exI [of _ "mi_nd mi"]) (simp add: reserve_location_def)
  next
    case False
    have ne: "mi_empty_slots mi \<noteq> {}"
    proof
      assume "mi_empty_slots mi = {}"
      then have "card (mem_occ mi) = mi_max_points mi" using O(3) by simp
      then show False using D(4) room by simp
    qed
    then have "me_first en (mi_empty_slots mi) \<in> mi_empty_slots mi" using en fe by (simp add: first_ok_def)
    then show ?thesis using False room ne by (intro exI [of _ "me_first en (mi_empty_slots mi)"]) (simp add: reserve_location_def Let_def)
  qed
qed

text \<open>The slot taken and given to a tag: the list of the slot is still to be written.\<close>

lemma disjoint_step: "A \<inter> (B \<union> C) = {} \<Longrightarrow> insert l A \<inter> ((B - {l}) \<union> (C - {l})) = {}"
  by blast

lemma take_slot_ok:
  assumes ok: "mem_ok cf mi" and l: "l \<in> mi_empty_slots mi" "mi_compacted mi \<longrightarrow> l = mi_nd mi" and t: "mi_tag2loc mi tag = None"
    and m_def: "m = mi\<lparr>mi_empty_slots := mi_empty_slots mi - {l}, mi_delete_set := mi_delete_set mi - {l}, mi_nd := mi_nd mi + 1,
      mi_tag2loc := (mi_tag2loc mi)(tag \<mapsto> l), mi_loc2tag := (mi_loc2tag mi)(l \<mapsto> tag), mi_data := (mi_data mi)[l := row]\<rparr>"
  shows "slots_ok m" "shape_ok m" "lists_ok cf {l} m" "vec_of m = (vec_of mi)(tag \<mapsto> row)" "mem_occ m = insert l (mem_occ mi)" "l \<notin> mem_occ mi"
    "l < mi_max_points mi"
proof -
  have S: "slots_ok mi" and sh: "shape_ok mi" using ok by (simp_all add: mem_ok_def)
  note D = slots_okD [OF S] and O = occ_split [OF S]
  have m: "mi_delete_set m = mi_delete_set mi - {l}" "mi_empty_slots m = mi_empty_slots mi - {l}" "mi_loc2tag m = (mi_loc2tag mi)(l \<mapsto> tag)"
    "mi_tag2loc m = (mi_tag2loc mi)(tag \<mapsto> l)" "mi_nd m = mi_nd mi + 1" "mi_max_points m = mi_max_points mi" "mi_compacted m = mi_compacted mi"
    "mi_graph m = mi_graph mi" "mi_data m = (mi_data mi)[l := row]"
    by (simp_all add: m_def)
  show lm: "l < mi_max_points mi" using D(2) l(1) by blast
  show lo: "l \<notin> mem_occ mi" using O(3) l(1) by blast
  have ll: "mi_loc2tag mi l = None" using D(3) l(1) by blast
  show occ: "mem_occ m = insert l (mem_occ mi)" using l(1) unfolding mem_occ_def m by auto
  show "slots_ok m"
    unfolding slots_ok_def
  proof (intro conjI allI impI)
    have none: "mi_tag2loc mi t' \<noteq> Some l" for t' using D(1) [of t' l] ll by simp
    have none': "mi_loc2tag mi k \<noteq> Some tag" for k using D(1) [of tag k] t by simp
    show "mi_tag2loc m t' = Some k \<longleftrightarrow> mi_loc2tag m k = Some t'" for t' k using D(1) [of t' k] none [of t'] none' [of k] unfolding m by auto
    show "dom (mi_loc2tag m) \<union> mi_delete_set m \<union> mi_empty_slots m = {..<mi_max_points m}" using D(2) l(1) unfolding m by auto
    show "dom (mi_loc2tag m) \<inter> (mi_delete_set m \<union> mi_empty_slots m) = {}" unfolding m(1-3) using disjoint_step [OF D(3)] by simp
    show "mi_nd m = card (mem_occ m)" unfolding occ m using D(4) O(2) lo by simp
    show "mem_occ m = {..<mi_nd m}" if c: "mi_compacted m"
    proof -
      have "mem_occ mi = {..<mi_nd mi}" "l = mi_nd mi" using D(5) c l(2) unfolding m(7) by blast+
      then show ?thesis unfolding occ m(5) by (simp only: lessThan_Suc Suc_eq_plus1 [symmetric])
    qed
    show "mi_delete_set m \<inter> mi_empty_slots m = {}" if "mi_compacted m" using D(6) that unfolding m by auto
  qed
  show "shape_ok m" using sh by (simp add: shape_ok_def m_def)
  have mo: "l \<noteq> mi_max_points mi" using lm by simp
  then have "insert (mi_max_points mi) (insert l (mem_occ mi)) - {l} = insert (mi_max_points mi) (mem_occ mi)" using lo by blast
  then show "lists_ok cf {l} m" using ok unfolding mem_ok_def lists_ok_def occ m by simp
  show "vec_of m = (vec_of mi)(tag \<mapsto> row)"
  proof
    fix t'
    have "mi_tag2loc mi t' \<noteq> Some l" using D(1) [of t' l] ll by simp
    moreover have "l < length (mi_data mi)" using sh lm by (simp add: shape_ok_def)
    ultimately show "vec_of m t' = ((vec_of mi)(tag \<mapsto> row)) t'" unfolding vec_of_def m by (cases "mi_tag2loc mi t'") (auto simp: nth_list_update)
  qed
qed

end
