(* ===== verification/Mem_Grow.thy ===== *)
theory Mem_Grow
  imports Mem_Ok
begin

text \<open>Growth of the in-memory index, and the slot an insertion takes.\<close>

section \<open>Growth\<close>

lemma rename_inj: "(\<forall>x \<in> set l. x \<noteq> new) \<Longrightarrow> distinct (map (rename_nbr old new) l) = distinct l"
  by (induction l) (auto simp: rename_nbr_def)

text \<open>Deleted points are known to the flag that lets a compaction run.\<close>

definition pending_ok :: "mem_index \<Rightarrow> bool" where
  "pending_ok mi \<longleftrightarrow> (mi_delete_set mi \<noteq> {} \<longrightarrow> mi_lazy_done mi)"

lemma resize_spec:
  assumes ok: "mem_ok cf mi" and full: "mi_nd mi = mi_max_points mi" and new: "mi_max_points mi < new" "new < 4294967296"
  shows "\<exists>m. resize_index en new mi = Inr m \<and> mem_ok cf m \<and> vec_of m = vec_of mi \<and> mi_tag2loc m = mi_tag2loc mi \<and> mi_nd m = mi_nd mi \<and>
    mi_max_points m = new \<and> aligned_query m = aligned_query mi \<and> mi_compacted m = mi_compacted mi \<and> pending_ok m = pending_ok mi"
proof -
  have S: "slots_ok mi" and sh: "shape_ok mi" and li: "lists_ok cf {} mi" using ok by (simp_all add: mem_ok_def)
  note D = slots_okD [OF S] and O = occ_split [OF S] and H = sh [unfolded shape_ok_def]
  define n where "n = mi_max_points mi"
  define g where "g = mi_graph mi"
  define data where "data = mi_data mi"
  define d1 where "d1 = data @ map (me_fresh en) [n + 1..<new + 1]"
  define g1 where "g1 = g @ replicate (new - n) []"
  have len: "length g = n + 1" "length data = n + 1" "length d1 = new + 1" "length g1 = new + 1"
    using H new(1) by (simp_all add: g_def data_def n_def d1_def g1_def)
  define g2 where "g2 = map (map (rename_nbr n new)) (take n g1) @ drop n g1"
  define g3 where "g3 = g2[new := g ! n, n := []]"
  define d3 where "d3 = d1[new := data ! n, n := replicate (mi_row_bytes mi) 0]"
  have nn: "n < new" using new(1) by (simp add: n_def)
  have g2n: "g2 ! n = g ! n" "g2 ! new = []" "length g2 = new + 1"
    using len nn by (simp_all add: g2_def g1_def nth_append)
  then have g2e: "g2[new := []] = g2" by (metis list_update_id)
  have g2i: "g2 ! i = map (rename_nbr n new) (g ! i)" if "i < n" for i using that len nn by (simp add: g2_def g1_def nth_append)
  define m where "m = mi\<lparr>mi_graph := g3, mi_data := d3, mi_max_points := new, mi_ep := new, mi_empty_slots := mi_empty_slots mi \<union> {n..<new}\<rparr>"
  define m0 where "m0 = mi\<lparr>mi_data := take (n + 1) data @ map (me_fresh en) [n + 1..<new + 1],
      mi_graph := take (new + 1) g @ replicate (new + 1 - length g) []\<rparr>"
  have m0: "mi_graph m0 = g1" "mi_data m0 = d1" "mi_nd m0 = n" "mi_row_bytes m0 = mi_row_bytes mi"
    using len nn full by (simp_all add: m0_def g1_def d1_def n_def mi_row_bytes_def)
  have rp: "reposition_point n new m0 = Inr (m0\<lparr>mi_graph := g3, mi_data := d3\<rparr>)"
    unfolding reposition_point_def m0 Let_def g2_def [symmetric] g2e
    using len g2n nn by (simp add: g3_def d3_def d1_def nth_append list_update_swap)
  have e0: "mi_max_points mi = n" "mi_graph mi = g" "mi_data mi = data" by (simp_all add: n_def g_def data_def)
  have run: "resize_index en new mi = Inr m"
    unfolding resize_index_def Let_def e0 m0_def [symmetric] rp using len nn full by (simp add: m_def m0_def n_def)
  have g3n: "g3 ! new = g ! n" "g3 ! n = []" "length g3 = new + 1" using g2n nn by (simp_all add: g3_def)
  have g3i: "g3 ! i = map (rename_nbr n new) (g ! i)" if "i < n" for i using g2i [OF that] that nn by (simp add: g3_def)
  have g3e: "g3 ! i = []" if "n < i" "i < new" for i using that len by (simp add: g3_def g2_def g1_def nth_append)
  have f: "mi_delete_set m = mi_delete_set mi" "mi_empty_slots m = {n..<new}" "mi_loc2tag m = mi_loc2tag mi" "mi_tag2loc m = mi_tag2loc mi"
    "mi_nd m = n" "mi_max_points m = new" "mi_compacted m = mi_compacted mi" "mi_graph m = g3" "mi_data m = d3"
    using O(5) [OF full] full by (simp_all add: m_def n_def)
  have e: "mi_empty_slots mi = {}" by (rule O(5) [OF full])
  have un: "dom (mi_loc2tag mi) \<union> mi_delete_set mi = {..<n}" using D(2) e by (simp add: n_def)
  then have dn: "dom (mi_loc2tag mi) \<subseteq> {..<n}" "mi_delete_set mi \<subseteq> {..<n}" by blast+
  have occ: "mem_occ m = {..<n}" "mem_occ mi = {..<n}" using un unfolding mem_occ_def f e by auto
  have old: "x \<le> n" if "x \<in> set (g ! i)" "i \<le> n" for x i using H that by (auto simp: g_def n_def)
  have lsti: "nbrs_ok cf (n + 1) i (g ! i)" "set (g ! i) \<subseteq> insert n {..<n}" if "i \<le> n" for i
    using li that unfolding lists_ok_def occ e0 by (auto simp: le_less)
  have "slots_ok m"
    unfolding slots_ok_def occ f
  proof (intro conjI allI impI)
    show "mi_tag2loc mi t = Some l \<longleftrightarrow> mi_loc2tag mi l = Some t" for t l by (rule D(1))
    show "dom (mi_loc2tag mi) \<union> mi_delete_set mi \<union> {n..<new} = {..<new}" unfolding un using nn by auto
    show "dom (mi_loc2tag mi) \<inter> (mi_delete_set mi \<union> {n..<new}) = {}" using D(3) dn by fastforce
    show "mi_delete_set mi \<inter> {n..<new} = {}" using dn by fastforce
  qed simp_all
  moreover have "shape_ok m"
  proof -
    have "x \<le> new" if i: "i \<le> new" and x: "x \<in> set (g3 ! i)" for i x
    proof -
      consider "i < n" | "i = n" | "n < i" "i < new" | "i = new" using i by linarith
      then show ?thesis
      proof cases
        case 1
        obtain y where "y \<in> set (g ! i)" "x = rename_nbr n new y" using x 1 g3i by auto
        then show ?thesis using old [of y i] 1 nn by (auto simp: rename_nbr_def split: if_splits)
      next
        case 4
        then show ?thesis using x g3n(1) old [of x n] nn by simp
      qed (use x g3n g3e in auto)
    qed
    then show ?thesis using H new g3n(3) len(3) unfolding shape_ok_def m_def by (simp add: d3_def)
  qed
  moreover have "lists_ok cf {} m"
    unfolding lists_ok_def occ f
  proof
    fix i assume "i \<in> insert new {..<n} - {}"
    then consider "i < n" | "i = new" by blast
    then show "nbrs_ok cf (new + 1) i (g3 ! i) \<and> set (g3 ! i) \<subseteq> insert new {..<n} - {}"
    proof cases
      case 1
      have b: "\<forall>x \<in> set (g ! i). x \<le> n \<and> x \<noteq> new" using old [of _ i] 1 nn by fastforce
      then show ?thesis using lsti [of i] 1 nn rename_inj [of "g ! i" new n] unfolding g3i [OF 1] nbrs_ok_def
        by (auto simp: rename_nbr_def)
    next
      case 2
      have "n \<notin> set (g ! n)" using lsti(1) [of n] by (simp add: nbrs_ok_def)
      then have "\<forall>x \<in> set (g ! n). x < n" using lsti(2) [of n] by auto
      then show ?thesis using 2 lsti(1) [of n] nn g3n(1) unfolding nbrs_ok_def by auto
    qed
  qed
  moreover have "vec_of m = vec_of mi"
  proof
    fix t
    have "l < n" if "mi_tag2loc mi t = Some l" for l using that D(1) [of t l] un by blast
    then show "vec_of m t = vec_of mi t" unfolding vec_of_def f e0 using nn len by (cases "mi_tag2loc mi t") (auto simp: d3_def d1_def nth_append)
  qed
  moreover have "aligned_query m = aligned_query mi" by (simp add: m_def aligned_query_def mi_vec_bytes_def mi_row_bytes_def fun_eq_iff)
  moreover have "pending_ok m = pending_ok mi" by (simp add: m_def pending_ok_def)
  ultimately show ?thesis using run f full by (intro exI [of _ m]) (simp add: mem_ok_def n_def)
qed

section \<open>A location for the point\<close>

definition can_insert :: "nat \<Rightarrow> nat \<Rightarrow> mem_index \<Rightarrow> bool" where
  "can_insert fuel L mi \<longleftrightarrow> (mi_nd mi < mi_max_points mi \<or> mi_max_points mi < grown_points (mi_max_points mi)) \<and>
     (max (mi_max_points mi) (grown_points (mi_max_points mi)) + 2) * (L + 1) \<le> fuel"

text \<open>The state with a free slot reserved, and with the slot bound to a tag and a row.\<close>

definition reserved :: "nat \<Rightarrow> mem_index \<Rightarrow> mem_index" where
  "reserved l mi = mi\<lparr>mi_empty_slots := mi_empty_slots mi - {l}, mi_delete_set := mi_delete_set mi - {l}, mi_nd := mi_nd mi + 1\<rparr>"

definition bound_to :: "nat \<Rightarrow> nat \<Rightarrow> byte list \<Rightarrow> mem_index \<Rightarrow> mem_index" where
  "bound_to l tag row mi = mi\<lparr>mi_tag2loc := (mi_tag2loc mi)(tag \<mapsto> l), mi_loc2tag := (mi_loc2tag mi)(l \<mapsto> tag), mi_data := (mi_data mi)[l := row]\<rparr>"

definition slot_ready :: "prune_cfg \<Rightarrow> nat \<Rightarrow> mem_index \<Rightarrow> bool" where
  "slot_ready cf l m \<longleftrightarrow> slots_ok m \<and> shape_ok m \<and> lists_ok cf {l} m \<and> l \<in> mem_occ m \<and> l < mi_max_points m"

lemma reserved_frame:
  "mi_compacted (reserved l mi) = mi_compacted mi" "pending_ok mi \<Longrightarrow> pending_ok (reserved l mi)" "mi_nd (reserved l mi) = mi_nd mi + 1" "mi_max_points (reserved l mi) = mi_max_points mi"
  "mi_graph (reserved l mi) = mi_graph mi" "aligned_query (reserved l mi) = aligned_query mi" "mi_max_points (bound_to l tag row (reserved l mi)) = mi_max_points mi"
  by (auto simp add: reserved_def pending_ok_def bound_to_def aligned_query_def mi_vec_bytes_def mi_row_bytes_def fun_eq_iff)

lemma reserve_bind:
  assumes ok: "mem_ok cf mi" and en: "first_ok en" and room: "mi_nd mi < mi_max_points mi" and t: "mi_tag2loc mi tag = None"
  shows "\<exists>l. reserve_location en mi = Inr (Some l, reserved l mi) \<and> slot_ready cf l (bound_to l tag row (reserved l mi)) \<and>
    vec_of (bound_to l tag row (reserved l mi)) = (vec_of mi)(tag \<mapsto> row)"
proof -
  have s: "slots_ok mi" using ok by (simp add: mem_ok_def)
  from reserve_spec [OF s en room] obtain l where
    l: "reserve_location en mi = Inr (Some l, reserved l mi)" "l \<in> mi_empty_slots mi" "mi_compacted mi \<longrightarrow> l = mi_nd mi" unfolding reserved_def by blast
  have e: "bound_to l tag row (reserved l mi) = mi\<lparr>mi_empty_slots := mi_empty_slots mi - {l}, mi_delete_set := mi_delete_set mi - {l}, mi_nd := mi_nd mi + 1,
      mi_tag2loc := (mi_tag2loc mi)(tag \<mapsto> l), mi_loc2tag := (mi_loc2tag mi)(l \<mapsto> tag), mi_data := (mi_data mi)[l := row]\<rparr>" by (simp add: bound_to_def reserved_def)
  note T = take_slot_ok [OF ok l(2,3) t e]
  have "l < mi_max_points (bound_to l tag row (reserved l mi))" using T(7) by (simp add: reserved_frame)
  then show ?thesis using l(1) T unfolding slot_ready_def by blast
qed

lemma get_location_spec:
  assumes ok: "mem_ok cf mi" and en: "first_ok en" and t: "mi_tag2loc mi tag = None" and room: "can_insert fuel L mi"
  shows "\<exists>l m. get_location en mi = Inr (l, m) \<and> slot_ready cf l (bound_to l tag row m) \<and> vec_of (bound_to l tag row m) = (vec_of mi)(tag \<mapsto> row) \<and>
    aligned_query m = aligned_query mi \<and> (mi_max_points m + 2) * (L + 1) \<le> fuel \<and> mi_compacted m = mi_compacted mi \<and> (pending_ok mi \<longrightarrow> pending_ok m) \<and>
    (mi_nd mi < mi_max_points mi \<longrightarrow> mi_nd m = mi_nd mi + 1 \<and> mi_max_points m = mi_max_points mi \<and> mi_graph m = mi_graph mi)"
proof (cases "mi_nd mi < mi_max_points mi")
  case True
  from reserve_bind [OF ok en True t] obtain l where l: "reserve_location en mi = Inr (Some l, reserved l mi)"
    "slot_ready cf l (bound_to l tag row (reserved l mi))" "vec_of (bound_to l tag row (reserved l mi)) = (vec_of mi)(tag \<mapsto> row)" by blast
  have "(mi_max_points mi + 2) * (L + 1) \<le> fuel" using room unfolding can_insert_def by (meson add_mono le_refl le_trans max.cobounded1 mult_le_mono1)
  moreover have "mi_max_points (reserved l mi) = mi_max_points mi" by (simp add: reserved_def)
  ultimately show ?thesis using l by (intro exI [of _ l] exI [of _ "reserved l mi"]) (simp add: get_location_def reserved_frame)
next
  case False
  have S: "slots_ok mi" using ok by (simp add: mem_ok_def)
  have full: "mi_nd mi = mi_max_points mi" using occ_split(4) [OF S] False by simp
  define new where "new = grown_points (mi_max_points mi)"
  have new: "mi_max_points mi < new" "(new + 2) * (L + 1) \<le> fuel" using room False unfolding can_insert_def new_def [symmetric] by (auto simp: max_def)
  have n32: "new < 4294967296" by (simp add: new_def grown_points_def u32_def)
  from resize_spec [OF ok full new(1) n32, of en] obtain k where
    k: "resize_index en new mi = Inr k" "mem_ok cf k" "vec_of k = vec_of mi" "mi_tag2loc k = mi_tag2loc mi" "mi_nd k = mi_nd mi" "mi_max_points k = new"
      "aligned_query k = aligned_query mi" "mi_compacted k = mi_compacted mi" "pending_ok k = pending_ok mi" by blast
  have kn: "mi_nd k < mi_max_points k" "mi_tag2loc k tag = None" using k(4-6) full new(1) t by simp_all
  from reserve_bind [OF k(2) en kn] obtain l where l: "reserve_location en k = Inr (Some l, reserved l k)"
    "slot_ready cf l (bound_to l tag row (reserved l k))" "vec_of (bound_to l tag row (reserved l k)) = (vec_of k)(tag \<mapsto> row)" by blast
  have r1: "reserve_location en mi = Inr (None, mi)" using full by (simp add: reserve_location_def)
  have "mi_max_points (reserved l k) = new" using k(6) by (simp add: reserved_def)
  then show ?thesis using l k(1,3,7-9) new(2) full r1
    by (intro exI [of _ l] exI [of _ "reserved l k"]) (simp add: get_location_def new_def [symmetric] reserved_frame)
qed

end
