(* ===== verification/Mem_Insert.thy ===== *)
theory Mem_Insert
  imports Mem_Grow
begin

text \<open>An insertion binds its tag to its point, and keeps the index in order.\<close>

section \<open>The insertion\<close>

lemma erase_absent: "i \<notin> nb_id ` set ns \<Longrightarrow> erase_id i ns = ns"
  by (induction ns) auto

lemma reached_closed:
  assumes "\<And>i. i \<in> U \<Longrightarrow> set (mi_graph mi ! i) \<subseteq> U" "set init \<subseteq> U"
  shows "(graph_edges mi)\<^sup>* `` set init \<subseteq> U"
proof
  fix j assume "j \<in> (graph_edges mi)\<^sup>* `` set init"
  then obtain i where "i \<in> U" "(i, j) \<in> (graph_edges mi)\<^sup>*" using assms(2) by blast
  from this(2,1) show "j \<in> U" by (induction rule: rtrancl_induct) (use assms(1) in \<open>auto simp: graph_edges_def\<close>)
qed

text \<open>The search for the new node's neighbors: it meets nodes in use only, so not the node itself.\<close>

lemma expanded_spec:
  assumes r: "slot_ready cf l m" and en: "dist_ok_fn en" and L: "0 < L" and fuel: "(mi_max_points m + 2) * (L + 1) \<le> fuel"
  shows "\<exists>pool. get_expanded_nodes en fuel m l L [] = Inr pool \<and> pool \<noteq> [] \<and> distinct (map nb_id pool) \<and>
    nb_id ` set pool \<subseteq> insert (mi_max_points m) (mem_occ m) - {l}"
proof -
  have s: "slots_ok m" and sh: "shape_ok m" and li: "lists_ok cf {l} m" and l: "l < mi_max_points m" using r by (simp_all add: slot_ready_def)
  note H = sh [unfolded shape_ok_def]
  let ?U = "insert (mi_max_points m) (mem_occ m) - {l}"
  have tot: "mi_total m = mi_max_points m + 1" and ep: "mi_ep m = mi_max_points m" using H by (simp_all add: mi_total_def)
  have ini: "[mi_ep m] \<noteq> []" "\<forall>i \<in> set [mi_ep m]. i < mi_total m" using tot ep by simp_all
  have fu: "(mi_total m + 1) * (L + 1) \<le> fuel" using fuel tot by simp
  define q where "q = mi_data m ! l"
  from iterate_spec [OF rows_ok_shape [OF sh] en L ini fu, of q True] obtain st where
    st: "iterate_to_fixed_point en fuel m q L [mi_ep m] True = Inr st" "fixed_point (\<lambda>i. me_compare en q (mi_data m ! i)) m L [mi_ep m] True st" by blast
  have "vget (mi_data m) l = Inr q" using H l by (simp add: vget_def q_def)
  then have g: "get_expanded_nodes en fuel m l L [] = Inr (sr_expanded st)" using st(1) by (simp add: get_expanded_nodes_def)
  have U: "set (mi_graph m ! i) \<subseteq> ?U" if "i \<in> ?U" for i using li that unfolding lists_ok_def by blast
  have eU: "set [mi_ep m] \<subseteq> ?U" using ep l by simp
  note F = st(2) [unfolded fixed_point_def]
  have "nb_id ` set (sr_expanded st) \<subseteq> (graph_edges m)\<^sup>* `` set [mi_ep m]" using F by blast
  then have sub: "nb_id ` set (sr_expanded st) \<subseteq> ?U" using reached_closed [where U = ?U and mi = m, OF U eU] by blast
  have "take (sr_l st) (sr_best st) \<noteq> []" using F by auto
  then obtain n where "n \<in> set (take (sr_l st) (sr_best st))" using list.set_intros(1) by (metis neq_Nil_conv)
  then have "nb_id n \<in> nb_id ` set (sr_expanded st)" using F by blast
  then have "sr_expanded st \<noteq> []" by auto
  then show ?thesis using g sub F by blast
qed

lemma query_frame: "mi_dim k = mi_dim mi \<Longrightarrow> mi_aligned_dim k = mi_aligned_dim mi \<Longrightarrow> mi_sizeof_T k = mi_sizeof_T mi \<Longrightarrow>
    aligned_query k = aligned_query mi"
  by (simp add: aligned_query_def mi_vec_bytes_def mi_row_bytes_def fun_eq_iff)

lemma drop_tag_frame:
  "mi_dim (drop_tag tag mi) = mi_dim mi" "mi_aligned_dim (drop_tag tag mi) = mi_aligned_dim mi" "mi_sizeof_T (drop_tag tag mi) = mi_sizeof_T mi"
  "mi_nd (drop_tag tag mi) = mi_nd mi" "mi_max_points (drop_tag tag mi) = mi_max_points mi" "mi_tag2loc (drop_tag tag mi) tag = None"
  "mi_graph (drop_tag tag mi) = mi_graph mi" "mi_compacted (drop_tag tag mi) = mi_compacted mi" "mi_lazy_done (drop_tag tag mi) = mi_lazy_done mi"
  by (simp_all add: drop_tag_def split: option.split)

text \<open>The point that had the tag is dropped first.\<close>

definition tag_freed :: "nat \<Rightarrow> mem_index \<Rightarrow> mem_index" where
  "tag_freed tag mi = (if mi_enable_tags mi \<and> mi_tag2loc mi tag \<noteq> None then drop_tag tag (mi\<lparr>mi_lazy_done := True\<rparr>) else mi)"

lemma tag_freed_frame:
  "aligned_query (tag_freed tag mi) = aligned_query mi" "can_insert fuel L (tag_freed tag mi) = can_insert fuel L mi"
  "mi_nd (tag_freed tag mi) = mi_nd mi" "mi_max_points (tag_freed tag mi) = mi_max_points mi" "mi_compacted (tag_freed tag mi) = mi_compacted mi"
  "mi_graph (tag_freed tag mi) = mi_graph mi" "pending_ok mi \<Longrightarrow> pending_ok (tag_freed tag mi)"
  by (auto simp: tag_freed_def can_insert_def pending_ok_def drop_tag_frame intro!: query_frame)

lemma tag_freed_spec:
  assumes ok: "mem_ok cf mi"
  shows "mem_ok cf (tag_freed tag mi)" "mi_tag2loc (tag_freed tag mi) tag = None" "(vec_of (tag_freed tag mi))(tag \<mapsto> r) = (vec_of mi)(tag \<mapsto> r)"
proof -
  have et: "mi_enable_tags mi" using ok by (simp add: mem_ok_def shape_ok_def)
  have "mem_ok cf (tag_freed tag mi) \<and> mi_tag2loc (tag_freed tag mi) tag = None \<and> (vec_of (tag_freed tag mi))(tag \<mapsto> r) = (vec_of mi)(tag \<mapsto> r)"
  proof (cases "mi_tag2loc mi tag")
    case None
    then show ?thesis using ok by (simp add: tag_freed_def)
  next
    case (Some x)
    have e: "tag_freed tag mi = drop_tag tag (mi\<lparr>mi_lazy_done := True\<rparr>)" using Some et by (simp add: tag_freed_def)
    have o: "mem_ok cf (mi\<lparr>mi_lazy_done := True\<rparr>)" using ok by (simp only: lazy_done_frame)
    have x: "mi_tag2loc (mi\<lparr>mi_lazy_done := True\<rparr>) tag = Some x" using Some by simp
    show ?thesis unfolding e using drop_tag_ok(1,2) [OF o x] by (simp add: lazy_done_frame drop_tag_frame)
  qed
  then show "mem_ok cf (tag_freed tag mi)" "mi_tag2loc (tag_freed tag mi) tag = None" "(vec_of (tag_freed tag mi))(tag \<mapsto> r) = (vec_of mi)(tag \<mapsto> r)" by blast+
qed

lemma graph_frame: "slots_ok (m\<lparr>mi_graph := g, mi_width := w\<rparr>) = slots_ok m" "vec_of (m\<lparr>mi_graph := g, mi_width := w\<rparr>) = vec_of m"
  by (simp_all add: slots_ok_def mem_occ_def vec_of_def fun_eq_iff)

lemma graph_shape:
  assumes "shape_ok m" "\<And>i. i \<le> mi_max_points m \<Longrightarrow> \<forall>x \<in> set (g ! i). x \<le> mi_max_points m" "length g = mi_max_points m + 1"
  shows "shape_ok (m\<lparr>mi_graph := g, mi_width := w\<rparr>)"
proof -
  have "shape_ok (m\<lparr>mi_graph := g, mi_width := w\<rparr>) \<longleftrightarrow> mi_num_frozen m = 1 \<and> mi_dynamic m \<and> mi_enable_tags m \<and> \<not> mi_eager_done m \<and>
     0 < mi_max_points m \<and> mi_max_points m < 4294967296 \<and> mi_ep m = mi_max_points m \<and> length g = mi_max_points m + 1 \<and>
     length (mi_data m) = mi_max_points m + 1 \<and> (\<forall>i \<le> mi_max_points m. \<forall>x \<in> set (g ! i). x \<le> mi_max_points m)"
    by (simp add: shape_ok_def)
  then show ?thesis using assms unfolding shape_ok_def by blast
qed

text \<open>The node takes the pruned list, and each of its neighbors links back.\<close>

lemma link_in_spec:
  assumes cf: "params_ok cf" and r: "slot_ready cf l m"
    and pl: "distinct pl" "l \<notin> set pl" "set pl \<subseteq> insert (mi_max_points m) (mem_occ m) - {l}" "length pl \<le> cf_range cf"
  shows "\<exists>g w'. bindE (set_nbrs l pl (m\<lparr>mi_width := w\<rparr>)) (inter_insert en cf l pl) = Inr (m\<lparr>mi_graph := g, mi_width := w'\<rparr>) \<and>
    mem_ok cf (m\<lparr>mi_graph := g, mi_width := w'\<rparr>) \<and> length g = length (mi_graph m) \<and> g ! l = pl \<and> (\<forall>i. i \<noteq> l \<and> i \<notin> set pl \<longrightarrow> g ! i = mi_graph m ! i) \<and>
    (\<forall>n \<in> set pl. l \<notin> set (mi_graph m ! n) \<and> relinked cf l n (mi_graph m ! n) (g ! n))"
proof -
  have sh: "shape_ok m" and so: "slots_ok m" and li: "lists_ok cf {l} m" and l: "l \<in> mem_occ m" "l < mi_max_points m" using r by (simp_all add: slot_ready_def)
  let ?M = "mi_max_points m" and ?U = "insert (mi_max_points m) (mem_occ m)"
  have UM: "?U \<subseteq> {..?M}" using occ_split(1) [OF so] by auto
  have len: "length (mi_data m) = ?M + 1" "length (mi_graph m) = ?M + 1" and rng: "\<forall>i \<le> ?M. \<forall>x \<in> set (mi_graph m ! i). x \<le> ?M"
    using sh unfolding shape_ok_def by blast+
  define m2 where "m2 = m\<lparr>mi_graph := (mi_graph m)[l := pl], mi_width := w\<rparr>"
  have sn: "set_nbrs l pl (m\<lparr>mi_width := w\<rparr>) = Inr m2" using len l(2) by (simp add: set_nbrs_def m2_def)
  have old: "nbrs_ok cf (?M + 1) i (mi_graph m ! i)" "set (mi_graph m ! i) \<subseteq> ?U - {l}" if "i \<in> ?U - {l}" for i
    using li that unfolding lists_ok_def by blast+
  have m2: "mi_data m2 = mi_data m" "mi_graph m2 = (mi_graph m)[l := pl]" by (simp_all add: m2_def)
  have lnd: "l < length (mi_data m2)" "length (mi_graph m2) \<le> length (mi_data m2)" using len l(2) m2 by simp_all
  have des: "\<forall>des \<in> set pl. des < length (mi_graph m2) \<and> nbrs_ok cf (length (mi_data m2)) des (mi_graph m2 ! des)"
  proof
    fix des assume "des \<in> set pl"
    then have d: "des \<in> ?U - {l}" using pl(3) by blast
    then have "des \<le> ?M" "des \<noteq> l" using UM by blast+
    then show "des < length (mi_graph m2) \<and> nbrs_ok cf (length (mi_data m2)) des (mi_graph m2 ! des)" using old(1) [OF d] len m2 by simp
  qed
  from inter_insert_spec [OF cf pl(1,2) lnd des, of en] obtain g w' where
    ii: "inter_insert en cf l pl m2 = Inr (m2\<lparr>mi_graph := g, mi_width := w'\<rparr>)" "length g = length (mi_graph m2)"
      "\<forall>i. i \<notin> set pl \<longrightarrow> g ! i = mi_graph m2 ! i" "\<forall>des \<in> set pl. relinked cf l des (mi_graph m2 ! des) (g ! des)" by blast
  have e: "m2\<lparr>mi_graph := g, mi_width := w'\<rparr> = m\<lparr>mi_graph := g, mi_width := w'\<rparr>" by (simp add: m2_def)
  have gl: "g ! l = pl" using ii(3) pl(2) m2(2) len l(2) by simp
  have gr: "relinked cf l i (mi_graph m ! i) (g ! i)" if "i \<in> set pl" for i using ii(4) that m2(2) pl(2) by (metis nth_list_update_neq)
  have gi: "g ! i = mi_graph m ! i" if "i \<notin> set pl" "i \<noteq> l" for i using ii(3) that m2(2) by simp
  have lists: "nbrs_ok cf (?M + 1) i (g ! i)" "set (g ! i) \<subseteq> ?U" if i: "i \<in> ?U" for i
  proof -
    consider "i = l" | "i \<noteq> l" "i \<in> set pl" | "i \<noteq> l" "i \<notin> set pl" by blast
    then have "nbrs_ok cf (?M + 1) i (g ! i) \<and> set (g ! i) \<subseteq> ?U"
    proof cases
      case 1
      have "\<forall>x \<in> set pl. x < ?M + 1" using pl(3) UM by fastforce
      moreover have "length pl \<le> slack_range (cf_range cf)" using pl(4) slack_ge by (rule le_trans)
      ultimately show ?thesis using 1 gl pl(1-3) unfolding nbrs_ok_def by blast
    next
      case 2
      have "i \<in> ?U - {l}" using i 2 by blast
      note o = old [OF this]
      have "set (g ! i) \<subseteq> insert l (set (mi_graph m ! i))" using gr [OF 2(2)] by (simp add: relinked_def)
      moreover have "l < ?M + 1" using l(2) by simp
      ultimately show ?thesis using relinked_ok [OF gr [OF 2(2)] o(1)] o(2) l(1) by blast
    next
      case 3
      have "i \<in> ?U - {l}" using i 3 by blast
      then show ?thesis using old [of i] gi [OF 3(2,1)] by auto
    qed
    then show "nbrs_ok cf (?M + 1) i (g ! i)" "set (g ! i) \<subseteq> ?U" by blast+
  qed
  let ?m = "m\<lparr>mi_graph := g, mi_width := w'\<rparr>"
  have oc: "mem_occ ?m = mem_occ m" by (simp add: mem_occ_def)
  have "lists_ok cf {} ?m" unfolding lists_ok_def oc using lists by simp
  moreover have "slots_ok ?m" using so by (simp only: graph_frame)
  moreover have "shape_ok ?m"
  proof -
    have "\<forall>x \<in> set (g ! i). x \<le> ?M" if i: "i \<le> ?M" for i
    proof (cases "i = l \<or> i \<in> set pl")
      case True
      then have "i \<in> ?U" using l(1) pl(3) by blast
      then show ?thesis using lists(2) [of i] UM by blast
    next
      case False
      then show ?thesis using rng i gi [of i] by simp
    qed
    moreover have "length g = ?M + 1" using ii(2) m2(2) len by simp
    ultimately show ?thesis by (rule graph_shape [OF sh])
  qed
  moreover have "l \<notin> set (mi_graph m ! n) \<and> relinked cf l n (mi_graph m ! n) (g ! n)" if "n \<in> set pl" for n
    using gr [OF that] old(2) [of n] pl(3) that by blast
  ultimately show ?thesis using sn ii(1,2) m2(2) gl gi by (intro exI [of _ g] exI [of _ w']) (simp add: e mem_ok_def)
qed

lemma insert_point_spec:
  assumes ok: "mem_ok cf mi" and cf: "params_ok cf" and en: "first_ok en" "dist_ok_fn en" and L: "0 < L" and room: "can_insert fuel L mi"
  shows "\<exists>mi' l k. get_location en (tag_freed tag mi) = Inr (l, k) \<and> insert_point en fuel cf L point tag mi = Inr mi' \<and> mem_ok cf mi' \<and> vec_of mi' = (vec_of mi)(tag \<mapsto> aligned_query mi point) \<and>
    mi_tag2loc mi' tag = Some l \<and> mi_graph mi' ! l \<noteq> [] \<and> length (mi_graph mi' ! l) \<le> cf_range cf \<and>
    (\<forall>n \<in> set (mi_graph mi' ! l). l \<notin> set (mi_graph k ! n) \<and> relinked cf l n (mi_graph k ! n) (mi_graph mi' ! n)) \<and>
    (\<forall>n. n \<noteq> l \<and> n \<notin> set (mi_graph mi' ! l) \<longrightarrow> mi_graph mi' ! n = mi_graph k ! n) \<and> length (mi_graph mi') = length (mi_graph k) \<and> (mi_nd mi < mi_max_points mi \<longrightarrow> mi_graph k = mi_graph mi) \<and>
    aligned_query mi' = aligned_query mi \<and> mi_compacted mi' = mi_compacted mi \<and> (pending_ok mi \<longrightarrow> pending_ok mi') \<and>
    (mi_nd mi < mi_max_points mi \<longrightarrow> mi_nd mi' = mi_nd mi + 1 \<and> mi_max_points mi' = mi_max_points mi)"
proof -
  define row where "row = aligned_query mi point"
  have rk: "can_insert fuel L (tag_freed tag mi)" using room by (simp add: tag_freed_frame)
  from get_location_spec [OF tag_freed_spec(1) [OF ok] en(1) tag_freed_spec(2) [OF ok] rk, of row] obtain l k1 where
    g: "get_location en (tag_freed tag mi) = Inr (l, k1)" "slot_ready cf l (bound_to l tag row k1)"
      "vec_of (bound_to l tag row k1) = (vec_of (tag_freed tag mi))(tag \<mapsto> row)"
      "aligned_query k1 = aligned_query (tag_freed tag mi)" "(mi_max_points k1 + 2) * (L + 1) \<le> fuel"
      "mi_compacted k1 = mi_compacted (tag_freed tag mi)" "pending_ok (tag_freed tag mi) \<longrightarrow> pending_ok k1"
      "mi_nd (tag_freed tag mi) < mi_max_points (tag_freed tag mi) \<longrightarrow> mi_nd k1 = mi_nd (tag_freed tag mi) + 1 \<and> mi_max_points k1 = mi_max_points (tag_freed tag mi) \<and>
         mi_graph k1 = mi_graph (tag_freed tag mi)" by blast
  define m where "m = bound_to l tag row k1"
  have r: "slot_ready cf l m" using g(2) by (simp add: m_def)
  have fm: "(mi_max_points m + 2) * (L + 1) \<le> fuel" using g(5) by (simp add: m_def bound_to_def)
  let ?U = "insert (mi_max_points m) (mem_occ m)"
  have so: "slots_ok m" and l: "l < mi_max_points m" and len: "length (mi_data m) = mi_max_points m + 1"
    using r unfolding slot_ready_def shape_ok_def by blast+
  have UM: "?U \<subseteq> {..mi_max_points m}" using occ_split(1) [OF so] by auto
  have rowk: "aligned_query (k1\<lparr>mi_tag2loc := a, mi_loc2tag := b\<rparr>) point = row" for a b
    using query_frame [of "k1\<lparr>mi_tag2loc := a, mi_loc2tag := b\<rparr>" k1] g(4) by (simp add: tag_freed_frame row_def)
  have "l < length (mi_data k1)" using len l by (simp add: m_def bound_to_def)
  then have put: "put_row l row (k1\<lparr>mi_tag2loc := (mi_tag2loc k1)(tag \<mapsto> l), mi_loc2tag := (mi_loc2tag k1)(l \<mapsto> tag)\<rparr>) = Inr m"
    by (simp add: put_row_def m_def bound_to_def)
  from expanded_spec [OF r en(2) L fm] obtain pool where
    p: "get_expanded_nodes en fuel m l L [] = Inr pool" "pool \<noteq> []" "distinct (map nb_id pool)" "nb_id ` set pool \<subseteq> ?U - {l}" by blast
  have er: "erase_id l pool = pool" by (rule erase_absent) (use p(4) in blast)
  have pb: "\<forall>n \<in> set pool. nb_id n < length (mi_data m)"
  proof
    fix n assume "n \<in> set pool"
    then have "nb_id n \<in> ?U" using p(4) by blast
    then show "nb_id n < length (mi_data m)" using UM len by auto
  qed
  from mem_prune_spec [OF cf p(2,3) pb, of en l] obtain pl where
    pl: "mem_prune_neighbors en cf l pool m = Inr (pl, m\<lparr>mi_width := max (mi_width m) (cf_range cf)\<rparr>)" "distinct pl" "l \<notin> set pl"
      "set pl \<subseteq> nb_id ` set pool" "length pl \<le> cf_range cf" "pl \<noteq> []" using p(4) by blast
  have plU: "set pl \<subseteq> ?U - {l}" using pl(4) p(4) by blast
  from link_in_spec [OF cf r pl(2,3) plU pl(5), of "max (mi_width m) (cf_range cf)" en] obtain gr w where
    i: "bindE (set_nbrs l pl (m\<lparr>mi_width := max (mi_width m) (cf_range cf)\<rparr>)) (inter_insert en cf l pl) = Inr (m\<lparr>mi_graph := gr, mi_width := w\<rparr>)"
      "mem_ok cf (m\<lparr>mi_graph := gr, mi_width := w\<rparr>)" "gr ! l = pl" "length gr = length (mi_graph m)" "\<forall>n. n \<noteq> l \<and> n \<notin> set pl \<longrightarrow> gr ! n = mi_graph m ! n"
      "\<forall>n \<in> set pl. l \<notin> set (mi_graph m ! n) \<and> relinked cf l n (mi_graph m ! n) (gr ! n)" by blast
  define m3 where "m3 = m\<lparr>mi_graph := gr, mi_width := w\<rparr>"
  have "insert_point en fuel cf L point tag mi = Inr m3"
    unfolding insert_point_def tag_freed_def [symmetric] Let_def
    by (simp only: g(1) bindE.simps prod.case rowk put p(1) er pl(1) i(1) m3_def)
  moreover have "vec_of m3 = (vec_of mi)(tag \<mapsto> aligned_query mi point)"
  proof -
    have "vec_of m3 = vec_of m" by (simp add: vec_of_def m3_def fun_eq_iff)
    then show ?thesis using g(3) tag_freed_spec(3) [OF ok, of tag row] by (simp add: m_def row_def)
  qed
  moreover have "mi_tag2loc m3 tag = Some l" "mi_graph m3 = gr" by (simp_all add: m3_def m_def bound_to_def)
  moreover have "mem_ok cf m3" using i(2) by (simp only: m3_def)
  moreover have "aligned_query m3 = aligned_query mi"
    using query_frame [of m3 k1] g(4) by (simp add: m3_def m_def bound_to_def tag_freed_frame)
  moreover have "mi_compacted m3 = mi_compacted mi" "mi_nd m3 = mi_nd k1" "mi_max_points m3 = mi_max_points k1" "pending_ok m3 = pending_ok k1"
    using g(6) by (simp_all add: m3_def m_def bound_to_def tag_freed_frame pending_ok_def)
  moreover have "mi_graph m = mi_graph k1" by (simp add: m_def bound_to_def)
  ultimately show ?thesis using i(3-6) pl(5,6) g(1,7,8) by (intro exI [of _ m3] exI [of _ l] exI [of _ k1]) (simp add: tag_freed_frame)
qed

end
