(* ===== verification/Mem_Consolidate.thy ===== *)
theory Mem_Consolidate
  imports Mem_Insert
begin

text \<open>Lazy deletion and consolidation: the tags go, and no list of a point that stays leads to a deleted one.\<close>

section \<open>Lazy deletion\<close>

lemma mem_lazy_delete_spec:
  assumes ok: "mem_ok cf mi"
  shows "\<exists>rc mi'. mem_lazy_delete tag mi = (rc, mi') \<and> mem_ok cf mi' \<and> vec_of mi' = (vec_of mi)(tag := None) \<and>
    rc = (if vec_of mi tag = None then -1 else 0) \<and> mem_occ mi' = mem_occ mi \<and> mi_lazy_done mi' \<and> mi_nd mi' = mi_nd mi \<and>
    mi_max_points mi' = mi_max_points mi \<and> mi_compacted mi' = mi_compacted mi \<and> aligned_query mi' = aligned_query mi"
proof -
  define m where "m = mi\<lparr>mi_lazy_done := True\<rparr>"
  have m: "mem_ok cf m" "vec_of m = vec_of mi" "mem_occ m = mem_occ mi" "mi_tag2loc m = mi_tag2loc mi"
    using ok by (simp_all only: m_def lazy_done_frame) simp
  have fr: "mi_nd m = mi_nd mi" "mi_max_points m = mi_max_points mi" "mi_compacted m = mi_compacted mi" "aligned_query m = aligned_query mi"
    "aligned_query (drop_tag tag m) = aligned_query mi" "mi_lazy_done m"
    by (auto simp: m_def drop_tag_frame intro!: query_frame)
  have e: "\<not> mi_eager_done mi" using ok by (simp add: mem_ok_def shape_ok_def)
  have v: "vec_of mi tag = None \<longleftrightarrow> mi_tag2loc mi tag = None" by (simp add: vec_of_def)
  show ?thesis
  proof (cases "mi_tag2loc mi tag")
    case None
    then have "mem_lazy_delete tag mi = (-1, m)" using e by (simp add: mem_lazy_delete_def m_def)
    moreover have "(vec_of mi)(tag := None) = vec_of mi" using None v by (simp add: fun_upd_idem)
    ultimately show ?thesis using None v m fr by simp
  next
    case (Some l)
    then have "mem_lazy_delete tag mi = (0, drop_tag tag m)" using e by (simp add: mem_lazy_delete_def m_def)
    moreover have "mi_tag2loc m tag = Some l" using Some m(4) by simp
    ultimately show ?thesis using Some v m fr drop_tag_ok [of cf m tag l] by (simp add: drop_tag_frame)
  qed
qed

section \<open>Consolidation of one node\<close>

definition order_ok :: "mem_env \<Rightarrow> bool" where
  "order_ok en \<longleftrightarrow> (\<forall>xs. distinct (me_order en xs) \<and> set (me_order en xs) = set xs)"

text \<open>The nodes that stay.\<close>

definition kept :: "mem_index \<Rightarrow> nat set" where
  "kept mi = insert (mi_max_points mi) (dom (mi_loc2tag mi))"

lemma keptD:
  assumes ok: "mem_ok cf mi"
  shows "kept mi \<inter> (mi_delete_set mi \<union> mi_empty_slots mi) = {}" "insert (mi_max_points mi) (mem_occ mi) = kept mi \<union> (mi_delete_set mi - mi_empty_slots mi)"
    "kept mi \<subseteq> {..mi_max_points mi}" "insert (mi_max_points mi) (mem_occ mi) \<subseteq> {..mi_max_points mi}"
    "i \<le> mi_max_points mi \<Longrightarrow> i \<notin> mi_delete_set mi \<Longrightarrow> i \<notin> mi_empty_slots mi \<Longrightarrow> i \<in> kept mi"
proof -
  have S: "slots_ok mi" using ok by (simp add: mem_ok_def)
  note D = slots_okD [OF S]
  have lt: "mi_delete_set mi \<union> mi_empty_slots mi \<subseteq> {..<mi_max_points mi}" using D(2) by blast
  then show "kept mi \<inter> (mi_delete_set mi \<union> mi_empty_slots mi) = {}" using D(3) unfolding kept_def by auto
  show "insert (mi_max_points mi) (mem_occ mi) = kept mi \<union> (mi_delete_set mi - mi_empty_slots mi)" unfolding kept_def mem_occ_def by blast
  show "kept mi \<subseteq> {..mi_max_points mi}"
  proof -
    have "dom (mi_loc2tag mi) \<subseteq> {..<mi_max_points mi}" using D(2) by blast
    then show ?thesis unfolding kept_def by auto
  qed
  show "insert (mi_max_points mi) (mem_occ mi) \<subseteq> {..mi_max_points mi}" using occ_split(1) [OF S] by auto
  show "i \<in> kept mi" if "i \<le> mi_max_points mi" "i \<notin> mi_delete_set mi" "i \<notin> mi_empty_slots mi"
    using D(2) that unfolding kept_def by (cases "i = mi_max_points mi") auto
qed

lemma gather_live_spec:
  assumes "\<forall>x \<in> set l. x < length (mi_graph mi)"
  shows "\<exists>xs. gather_live mi l = Inr xs \<and> set xs = (set l - mi_delete_set mi) \<union> (\<Union>x \<in> set l \<inter> mi_delete_set mi. set (mi_graph mi ! x) - mi_delete_set mi)"
  using assms
proof (induction l)
  case (Cons x l)
  then obtain ys where y: "gather_live mi l = Inr ys"
    "set ys = (set l - mi_delete_set mi) \<union> (\<Union>x \<in> set l \<inter> mi_delete_set mi. set (mi_graph mi ! x) - mi_delete_set mi)" by auto
  have v: "vget (mi_graph mi) x = Inr (mi_graph mi ! x)" using Cons.prems by (simp add: vget_def)
  show ?case
  proof (cases "x \<in> mi_delete_set mi")
    case True
    then show ?thesis using y v by auto
  next
    case False
    then show ?thesis using y by auto
  qed
qed simp

lemma consolidate_node_spec:
  assumes ok: "mem_ok cf mi" and cf: "params_ok cf" and en: "order_ok en" and m: "m = mi\<lparr>mi_graph := g\<rparr>" "length g = mi_max_points mi + 1"
    and same: "\<And>j. j = i \<or> j \<notin> kept mi \<Longrightarrow> g ! j = mi_graph mi ! j" and i: "i \<le> mi_max_points mi"
  shows "\<exists>l. consolidate_node en cf i m = Inr (mi\<lparr>mi_graph := g[i := l]\<rparr>) \<and> (i \<notin> kept mi \<longrightarrow> l = g ! i) \<and>
    (i \<in> kept mi \<longrightarrow> nbrs_ok cf (mi_max_points mi + 1) i l \<and> set l \<subseteq> kept mi)"
proof (cases "i \<in> mi_delete_set mi \<or> i \<in> mi_empty_slots mi")
  case True
  then have "i \<notin> kept mi" using keptD(1) [OF ok] by blast
  moreover have "consolidate_node en cf i m = Inr (mi\<lparr>mi_graph := g[i := g ! i]\<rparr>)" using True m by (auto simp: consolidate_node_def)
  ultimately show ?thesis by blast
next
  case False
  then have notin: "i \<notin> mi_delete_set mi" "i \<notin> mi_empty_slots mi" by blast+
  note K = keptD [OF ok]
  let ?D = "mi_delete_set mi" and ?M = "mi_max_points mi" and ?V = "kept mi"
  have iV: "i \<in> ?V" using K(5) i False by blast
  define nghs where "nghs = mi_graph mi ! i"
  have li: "nbrs_ok cf (?M + 1) j (mi_graph mi ! j)" "set (mi_graph mi ! j) \<subseteq> insert ?M (mem_occ mi)" if "j \<in> insert ?M (mem_occ mi)" for j
    using ok that unfolding mem_ok_def lists_ok_def by blast+
  have iU: "i \<in> insert ?M (mem_occ mi)" using iV K(2) by blast
  have ln: "length (mi_data mi) = ?M + 1" using ok unfolding mem_ok_def shape_ok_def by blast
  have f: "mi_delete_set m = ?D" "mi_empty_slots m = mi_empty_slots mi" "mi_graph m = g" "mi_data m = mi_data mi" by (simp_all add: m)
  have gi: "vget g i = Inr nghs" using i m(2) same [of i] by (simp add: vget_def nghs_def)
  have nU: "set nghs \<subseteq> insert ?M (mem_occ mi)" using li(2) [OF iU] by (simp add: nghs_def)
  then have nb: "\<forall>x \<in> set nghs. x < length (mi_graph m)" using K(4) m(2) f(3) by fastforce
  from gather_live_spec [OF nb] obtain xs where
    xs: "gather_live m nghs = Inr xs" "set xs = (set nghs - ?D) \<union> (\<Union>x \<in> set nghs \<inter> ?D. set (g ! x) - ?D)" unfolding f by blast
  have "set (g ! x) - ?D \<subseteq> ?V" if x: "x \<in> set nghs \<inter> ?D" for x
  proof -
    have "x \<notin> ?V" using x K(1) by blast
    then have "g ! x = mi_graph mi ! x" using same by blast
    moreover have "x \<in> insert ?M (mem_occ mi)" using x nU by blast
    then have "set (mi_graph mi ! x) \<subseteq> ?V \<union> ?D" using li(2) [of x] K(2) by auto
    ultimately show ?thesis by auto
  qed
  moreover have "set nghs - ?D \<subseteq> ?V" using nU K(2) by blast
  ultimately have xV: "set xs \<subseteq> ?V" unfolding xs(2) by (intro Un_least UN_least)
  show ?thesis
  proof (cases "\<exists>n \<in> set nghs. n \<in> ?D")
    case False
    have "set nghs \<subseteq> ?V" using False xs(2) xV by blast
    moreover have "consolidate_node en cf i m = Inr (mi\<lparr>mi_graph := g[i := nghs]\<rparr>)"
    proof -
      have "nghs = g ! i" using same [of i] by (simp add: nghs_def)
      then have "g[i := nghs] = g" by (simp only: list_update_id)
      then have e: "mi\<lparr>mi_graph := g[i := nghs]\<rparr> = m" by (simp only: m(1))
      show ?thesis unfolding e consolidate_node_def f gi bindE.simps xs(1) using notin False by simp
    qed
    ultimately show ?thesis using iV li(1) [OF iU] by (intro exI [of _ nghs]) (simp add: nghs_def)
  next
    case True
    define os where "os = me_order en xs"
    have os: "distinct os" "set os = set xs" using en by (simp_all add: order_ok_def os_def)
    define pool where "pool = map (\<lambda>j. Neighbor j (row_dist en m i j) True) os"
    have lt: "j < length (mi_data m)" if "j \<in> ?V" for j using that K(3) ln f(4) by fastforce
    have "mapE (\<lambda>j. bindE (mem_dist en m i j) (\<lambda>d. Inr (Neighbor j d True))) os = Inr pool"
      unfolding pool_def
    proof (rule mapE_total)
      fix j assume "j \<in> set os"
      then have "j \<in> ?V" using os(2) xV by blast
      then show "bindE (mem_dist en m i j) (\<lambda>d. Inr (Neighbor j d True)) = Inr (Neighbor j (row_dist en m i j) True)"
        using lt iV by (simp add: mem_dist_row)
    qed
    note mp = this
    have p: "map nb_id pool = os" by (simp add: pool_def comp_def Neighbor_def)
    have ids: "nb_id ` set pool = set os" using p by (metis set_map)
    obtain result where r: "mem_occlude_list (mem_dist en m) cf (sort_lt nb_lt pool) = Inr result" "distinct (map nb_id result)"
      "nb_id ` set result \<subseteq> set os" "length result \<le> cf_range cf"
    proof (cases "pool = []")
      case True
      have "set (sort_lt nb_lt ([] :: neighbor list)) = {}" by simp
      then have "sort_lt nb_lt ([] :: neighbor list) = []" by (simp only: set_empty)
      with True have "mem_occlude_list (mem_dist en m) cf (sort_lt nb_lt pool) = Inr []" by (simp add: mem_occlude_list_def)
      then show ?thesis by (rule that) simp_all
    next
      case False
      have "\<forall>n \<in> set pool. nb_id n < length (mi_data m)"
      proof
        fix n assume "n \<in> set pool"
        then have "nb_id n \<in> ?V" using ids os(2) xV by blast
        then show "nb_id n < length (mi_data m)" by (rule lt)
      qed
      then show ?thesis using occlude_sorted_spec [OF cf False, of m en] that p os(1) ids by auto
    qed
    define l where "l = filter (\<lambda>j. j \<noteq> i \<and> j \<notin> ?D) (map nb_id result)"
    have "consolidate_node en cf i m = Inr (mi\<lparr>mi_graph := g[i := l]\<rparr>)"
    proof -
      have "set_nbrs i l m = Inr (mi\<lparr>mi_graph := g[i := l]\<rparr>)" using i m(2) unfolding set_nbrs_def f(3) by (simp add: m(1))
      then show ?thesis unfolding consolidate_node_def f gi bindE.simps xs(1) os_def [symmetric] mp r(1) using notin True by (simp add: l_def)
    qed
    moreover have "set l \<subseteq> ?V" using r(3) os(2) xV unfolding l_def by auto
    moreover have "nbrs_ok cf (?M + 1) i l"
    proof -
      have "length l \<le> slack_range (cf_range cf)"
        using le_trans [OF length_filter_le] r(4) slack_ge [of "cf_range cf"] unfolding l_def by (metis le_trans length_map)
      moreover have "\<forall>x \<in> set l. x < ?M + 1" using \<open>set l \<subseteq> ?V\<close> K(3) by fastforce
      moreover have "distinct l" "i \<notin> set l" using r(2) by (auto simp: l_def)
      ultimately show ?thesis by (simp add: nbrs_ok_def)
    qed
    ultimately show ?thesis using iV by blast
  qed
qed

section \<open>Consolidation\<close>

lemma consolidate_prefix:
  assumes ok: "mem_ok cf mi" and cf: "params_ok cf" and en: "order_ok en" and "k \<le> mi_max_points mi + 1"
  shows "\<exists>g. foldE (consolidate_node en cf) [0..<k] mi = Inr (mi\<lparr>mi_graph := g\<rparr>) \<and> length g = mi_max_points mi + 1 \<and>
    (\<forall>j. j \<ge> k \<or> j \<notin> kept mi \<longrightarrow> g ! j = mi_graph mi ! j) \<and>
    (\<forall>j \<in> kept mi. j < k \<longrightarrow> nbrs_ok cf (mi_max_points mi + 1) j (g ! j) \<and> set (g ! j) \<subseteq> kept mi)"
  using assms(4)
proof (induction k)
  case 0
  have "length (mi_graph mi) = mi_max_points mi + 1" using ok unfolding mem_ok_def shape_ok_def by blast
  then show ?case by (intro exI [of _ "mi_graph mi"]) simp
next
  case (Suc k)
  have "k \<le> mi_max_points mi + 1" using Suc.prems by simp
  from Suc.IH [OF this] obtain g where
    g: "foldE (consolidate_node en cf) [0..<k] mi = Inr (mi\<lparr>mi_graph := g\<rparr>)" "length g = mi_max_points mi + 1"
      "\<And>j. j \<ge> k \<or> j \<notin> kept mi \<Longrightarrow> g ! j = mi_graph mi ! j"
      "\<And>j. j \<in> kept mi \<Longrightarrow> j < k \<Longrightarrow> nbrs_ok cf (mi_max_points mi + 1) j (g ! j) \<and> set (g ! j) \<subseteq> kept mi" by blast
  have same: "g ! j = mi_graph mi ! j" if "j = k \<or> j \<notin> kept mi" for j using g(3) [of j] that by blast
  have km: "k \<le> mi_max_points mi" using Suc.prems by simp
  from consolidate_node_spec [OF ok cf en refl g(2) same km] obtain l where
    l: "consolidate_node en cf k (mi\<lparr>mi_graph := g\<rparr>) = Inr (mi\<lparr>mi_graph := g[k := l]\<rparr>)" "k \<notin> kept mi \<longrightarrow> l = g ! k"
      "k \<in> kept mi \<longrightarrow> nbrs_ok cf (mi_max_points mi + 1) k l \<and> set l \<subseteq> kept mi" by blast
  have kl: "k < length g" using km g(2) by simp
  have "foldE (consolidate_node en cf) [0..<Suc k] mi = Inr (mi\<lparr>mi_graph := g[k := l]\<rparr>)" using g(1) l(1) by (simp add: foldE_append)
  moreover have "g[k := l] ! j = mi_graph mi ! j" if "j \<ge> Suc k \<or> j \<notin> kept mi" for j
  proof (cases "j = k")
    case True
    then show ?thesis using that l(2) g(3) [of k] kl by simp
  next
    case False
    then show ?thesis using that g(3) [of j] by auto
  qed
  moreover have "nbrs_ok cf (mi_max_points mi + 1) j (g[k := l] ! j) \<and> set (g[k := l] ! j) \<subseteq> kept mi" if "j \<in> kept mi" "j < Suc k" for j
  proof (cases "j = k")
    case True
    then show ?thesis using that l(3) kl by simp
  next
    case False
    then have "j < k" using that(2) by simp
    then show ?thesis using g(4) [OF that(1)] by (simp add: False)
  qed
  ultimately show ?case using g(2) by (intro exI [of _ "g[k := l]"]) simp
qed

lemma tags_card:
  assumes "slots_ok mi"
  shows "card (dom (mi_loc2tag mi)) = card (dom (vec_of mi))"
proof -
  have a: "mi_loc2tag mi l = Some t \<Longrightarrow> mi_tag2loc mi t = Some l" and b: "mi_tag2loc mi t = Some l \<Longrightarrow> mi_loc2tag mi l = Some t" for l t
    using slots_okD(1) [OF assms] by blast+
  have "bij_betw (\<lambda>l. the (mi_loc2tag mi l)) (dom (mi_loc2tag mi)) (dom (mi_tag2loc mi))"
  proof (rule bij_betw_byWitness [where f' = "\<lambda>t. the (mi_tag2loc mi t)"])
    show "\<forall>l \<in> dom (mi_loc2tag mi). the (mi_tag2loc mi (the (mi_loc2tag mi l))) = l" by (simp add: dom_def, metis a option.sel)
    show "\<forall>t \<in> dom (mi_tag2loc mi). the (mi_loc2tag mi (the (mi_tag2loc mi t))) = t" by (simp add: dom_def, metis b option.sel)
    show "(\<lambda>l. the (mi_loc2tag mi l)) ` dom (mi_loc2tag mi) \<subseteq> dom (mi_tag2loc mi)" using a by (auto intro: domI)
    show "(\<lambda>t. the (mi_tag2loc mi t)) ` dom (mi_tag2loc mi) \<subseteq> dom (mi_loc2tag mi)" using b by (auto intro: domI)
  qed
  moreover have "dom (vec_of mi) = dom (mi_tag2loc mi)" by (auto simp: vec_of_def)
  ultimately show ?thesis by (simp add: bij_betw_same_card)
qed

lemma consolidate_deletes_spec:
  assumes ok: "mem_ok cf mi" and cf: "params_ok cf" and en: "order_ok en" and fresh: "mi_delete_set mi \<inter> mi_empty_slots mi = {}"
    and gap: "mi_compacted mi \<or> mi_delete_set mi \<noteq> {}"
  shows "\<exists>mi'. consolidate_deletes en cf mi = Inr (card (dom (vec_of mi)), mi') \<and> mem_ok cf mi' \<and> vec_of mi' = vec_of mi \<and>
    mi_nd mi' = card (dom (vec_of mi)) \<and> mi_delete_set mi' \<subseteq> mi_empty_slots mi' \<and> mi_lazy_done mi' = mi_lazy_done mi \<and>
    mi_loc2tag mi' = mi_loc2tag mi \<and> mi_compacted mi' = (mi_delete_set mi = {}) \<and>
    mi_max_points mi' = mi_max_points mi \<and> aligned_query mi' = aligned_query mi \<and> mi_delete_set mi' = mi_delete_set mi \<and> mi_nd mi' \<le> mi_nd mi"
proof -
  have S: "slots_ok mi" and sh: "shape_ok mi" using ok by (simp_all add: mem_ok_def)
  note D = slots_okD [OF S]
  note K = keptD [OF ok]
  let ?M = "mi_max_points mi" and ?D = "mi_delete_set mi"
  have eager: "\<not> mi_eager_done mi" and tot: "mi_total mi = ?M + 1" and M32: "?M < 4294967296" using sh unfolding shape_ok_def mi_total_def by auto
  from consolidate_prefix [OF ok cf en, of "?M + 1"] obtain g where
    g: "foldE (consolidate_node en cf) [0..<?M + 1] mi = Inr (mi\<lparr>mi_graph := g\<rparr>)" "length g = ?M + 1"
      "\<And>j. j \<notin> kept mi \<Longrightarrow> g ! j = mi_graph mi ! j"
      "\<And>j. j \<in> kept mi \<Longrightarrow> j < ?M + 1 \<Longrightarrow> nbrs_ok cf (?M + 1) j (g ! j) \<and> set (g ! j) \<subseteq> kept mi" by blast
  define n where "n = card (dom (mi_loc2tag mi))"
  have fd: "finite ?D" and fl: "finite (dom (mi_loc2tag mi))"
    by (rule finite_subset [of _ "{..<?M}"], use D(2) in blast, simp)+
  have "mem_occ mi = dom (mi_loc2tag mi) \<union> ?D" "dom (mi_loc2tag mi) \<inter> ?D = {}" using fresh D(3) unfolding mem_occ_def by blast+
  then have nd: "mi_nd mi = n + card ?D" using D(4) card_Un_disjoint [OF fl fd] by (simp add: n_def)
  have "mi_nd mi \<le> ?M" by (rule occ_split(4) [OF S])
  then have sub: "u64 (mi_nd mi + (18446744073709551616 - card ?D)) = n" using nd M32 by (simp add: u64_def)
  define mi' where "mi' = mi\<lparr>mi_graph := g, mi_empty_slots := mi_empty_slots mi \<union> ?D, mi_nd := n, mi_compacted := (card ?D = 0)\<rparr>"
  have run: "consolidate_deletes en cf mi = Inr (n, mi')"
    using eager g(1) sub by (simp add: consolidate_deletes_def tot mi'_def Let_def)
  have f: "mi_delete_set mi' = ?D" "mi_empty_slots mi' = mi_empty_slots mi \<union> ?D" "mi_loc2tag mi' = mi_loc2tag mi" "mi_tag2loc mi' = mi_tag2loc mi"
    "mi_nd mi' = n" "mi_max_points mi' = ?M" "mi_compacted mi' = (card ?D = 0)" "mi_graph mi' = g" "mi_data mi' = mi_data mi" "mi_lazy_done mi' = mi_lazy_done mi"
    by (simp_all add: mi'_def)
  have occ: "mem_occ mi' = dom (mi_loc2tag mi)" unfolding mem_occ_def f by blast
  have so: "slots_ok mi'"
    unfolding slots_ok_def occ f
  proof (intro conjI allI impI)
    show "mi_tag2loc mi t = Some l \<longleftrightarrow> mi_loc2tag mi l = Some t" for t l by (rule D(1))
    show "dom (mi_loc2tag mi) \<union> ?D \<union> (mi_empty_slots mi \<union> ?D) = {..<?M}" using D(2) by blast
    show "dom (mi_loc2tag mi) \<inter> (?D \<union> (mi_empty_slots mi \<union> ?D)) = {}" using D(3) by blast
    show "n = card (dom (mi_loc2tag mi))" by (rule n_def)
    show "dom (mi_loc2tag mi) = {..<n}" if "card ?D = 0"
    proof -
      have e: "?D = {}" using that fd by simp
      then have "mi_compacted mi" using gap by blast
      from D(5) [OF this] show ?thesis using e nd unfolding mem_occ_def by simp
    qed
    show "?D \<inter> (mi_empty_slots mi \<union> ?D) = {}" if "card ?D = 0" using that fd by simp
  qed
  have li: "lists_ok cf {} mi'"
    unfolding lists_ok_def occ f kept_def [symmetric]
  proof
    fix i assume "i \<in> kept mi - {}"
    then have "i \<in> kept mi" "i < ?M + 1" using K(3) by auto
    from g(4) [OF this] show "nbrs_ok cf (?M + 1) i (g ! i) \<and> set (g ! i) \<subseteq> kept mi - {}" by simp
  qed
  have rng: "\<forall>x \<in> set (g ! i). x \<le> ?M" if i: "i \<le> ?M" for i
  proof (cases "i \<in> kept mi")
    case True
    then show ?thesis using g(4) [OF True] i K(3) by auto
  next
    case False
    then show ?thesis using g(3) [OF False] sh i unfolding shape_ok_def by simp
  qed
  have "shape_ok (mi\<lparr>mi_graph := g, mi_width := mi_width mi\<rparr>)" by (rule graph_shape [OF sh rng g(2)])
  then have "shape_ok mi'" by (simp add: shape_ok_def mi'_def)
  with so li have "mem_ok cf mi'" by (simp add: mem_ok_def)
  moreover have "vec_of mi' = vec_of mi" by (simp add: vec_of_def f fun_eq_iff)
  moreover have "n = card (dom (vec_of mi))" using tags_card [OF S] by (simp add: n_def)
  moreover have "(card ?D = 0) = (?D = {})" using fd by simp
  moreover have "aligned_query mi' = aligned_query mi" by (rule query_frame) (simp_all add: mi'_def)
  ultimately show ?thesis using run f nd by (intro exI [of _ mi']) simp
qed

end
