(* ===== verification/Mem_Compact.thy ===== *)
theory Mem_Compact
  imports Mem_Consolidate
begin

text \<open>Compaction renumbers the points that stay, closes the gaps, and keeps every tag's vector and neighbors.\<close>

section \<open>The new numbers\<close>

definition rank_in :: "nat set \<Rightarrow> nat \<Rightarrow> nat" where
  "rank_in S x = card {y \<in> S. y < x}"

lemma rank_le: "rank_in S x \<le> x"
proof -
  have "{y \<in> S. y < x} \<subseteq> {..<x}" by blast
  from card_mono [OF _ this] show ?thesis by (simp add: rank_in_def)
qed

lemma rank_less:
  assumes "x \<in> S" "x < y"
  shows "rank_in S x < rank_in S y"
proof -
  have "{z \<in> S. z < x} \<subset> {z \<in> S. z < y}" using assms by auto
  then show ?thesis unfolding rank_in_def by (intro psubset_card_mono) simp_all
qed

lemma rank_inj: "inj_on (rank_in S) S"
  by (rule linorder_inj_onI') (use rank_less in \<open>metis nat_neq_iff\<close>)

lemma rank_below: "finite S \<Longrightarrow> x \<in> S \<Longrightarrow> rank_in S x < card S"
  unfolding rank_in_def by (intro psubset_card_mono) auto

lemma rank_image:
  assumes "finite S"
  shows "rank_in S ` S = {..<card S}"
proof (rule card_subset_eq)
  show "rank_in S ` S \<subseteq> {..<card S}" using rank_below [OF assms] by blast
  show "card (rank_in S ` S) = card {..<card S}" by (simp add: card_image [OF rank_inj])
qed simp

lemma number_locs_nth:
  assumes "i < b - a"
  shows "number_locs m f [a..<b] c ! i = (if f (a + i) \<noteq> None then c + card {y \<in> dom f. a \<le> y \<and> y < a + i} else m)"
  using assms
proof (induction "b - a" arbitrary: a c i)
  case (Suc n)
  have ab: "a < b" using Suc.hyps(2) by linarith
  have u: "[a..<b] = a # [Suc a..<b]" using ab by (rule upt_conv_Cons)
  have n: "n = b - Suc a" using Suc.hyps(2) by linarith
  show ?case
  proof (cases i)
    case 0
    then show ?thesis unfolding u by simp
  next
    case (Suc j)
    have j: "j < b - Suc a" using Suc.prems Suc by linarith
    have s: "{y \<in> dom f. a \<le> y \<and> y < a + Suc j} = (if f a \<noteq> None then {a} else {}) \<union> {y \<in> dom f. Suc a \<le> y \<and> y < Suc a + j}"
      by (auto simp: Suc_le_eq le_less)
    have fin: "finite {y \<in> dom f. Suc a \<le> y \<and> y < Suc a + j}" by simp
    have "a \<notin> {y \<in> dom f. Suc a \<le> y \<and> y < Suc a + j}" by simp
    then have "card {y \<in> dom f. a \<le> y \<and> y < a + Suc j} = (if f a \<noteq> None then 1 else 0) + card {y \<in> dom f. Suc a \<le> y \<and> y < Suc a + j}"
      unfolding s using fin by simp
    then show ?thesis using Suc.hyps(1) [OF n j] unfolding u Suc by simp
  qed
qed simp

lemma number_locs_length: "length (number_locs m f xs c) = length xs"
  by (induction xs arbitrary: c) auto

text \<open>The number of a kept node: its rank among the tagged locations, or, for the frozen point, its place.\<close>

definition new_loc :: "mem_index \<Rightarrow> nat \<Rightarrow> nat" where
  "new_loc mi x = (if mi_loc2tag mi x \<noteq> None then rank_in (dom (mi_loc2tag mi)) x else mi_max_points mi)"

lemma new_location_nth:
  assumes "mi_total mi = mi_max_points mi + 1" "x \<le> mi_max_points mi"
  shows "number_locs (mi_max_points mi) (mi_loc2tag mi) [0..<mi_total mi] 0 ! x = new_loc mi x"
proof -
  have "x < mi_total mi - 0" using assms by simp
  from number_locs_nth [OF this] show ?thesis by (simp add: new_loc_def rank_in_def)
qed

lemma new_loc_facts:
  assumes S: "slots_ok mi"
  shows "x \<in> kept mi \<Longrightarrow> new_loc mi x \<le> x" "inj_on (new_loc mi) (kept mi)"
    "new_loc mi ` dom (mi_loc2tag mi) = {..<card (dom (mi_loc2tag mi))}" "new_loc mi (mi_max_points mi) = mi_max_points mi"
    "card (dom (mi_loc2tag mi)) \<le> mi_max_points mi" "x \<in> dom (mi_loc2tag mi) \<Longrightarrow> new_loc mi x < mi_max_points mi"
    "x \<in> dom (mi_loc2tag mi) \<Longrightarrow> y \<in> dom (mi_loc2tag mi) \<Longrightarrow> x < y \<Longrightarrow> new_loc mi x < new_loc mi y"
proof -
  let ?L = "dom (mi_loc2tag mi)" and ?M = "mi_max_points mi"
  note D = slots_okD [OF S]
  have sub: "?L \<subseteq> {..<?M}" using D(2) by blast
  then have fin: "finite ?L" by (rule finite_subset) simp
  have live: "new_loc mi x = rank_in ?L x" if "x \<in> ?L" for x using that by (auto simp: new_loc_def)
  have nm: "?M \<notin> ?L" using sub by blast
  then show top: "new_loc mi ?M = ?M" by (auto simp: new_loc_def)
  show le: "card ?L \<le> ?M" using card_mono [OF _ sub] by simp
  show lt: "new_loc mi x < ?M" if "x \<in> ?L" for x using rank_below [OF fin that] live [OF that] le by simp
  show "x \<in> kept mi \<Longrightarrow> new_loc mi x \<le> x" for x using top live rank_le unfolding kept_def by (metis insertE order_refl)
  show mono: "new_loc mi x < new_loc mi y" if "x \<in> ?L" "y \<in> ?L" "x < y" for x y using rank_less [OF that(1,3)] live that by simp
  have "new_loc mi ` ?L = rank_in ?L ` ?L" by (rule image_cong) (simp_all add: live)
  then show "new_loc mi ` ?L = {..<card ?L}" using rank_image [OF fin] by simp
  have "inj_on (new_loc mi) ?L" using rank_inj [of ?L] live by (metis inj_on_cong)
  moreover have "new_loc mi ?M \<notin> new_loc mi ` (?L - {?M})" using lt top by fastforce
  ultimately show "inj_on (new_loc mi) (kept mi)" unfolding kept_def by simp
qed

section \<open>Moving the rows\<close>

text \<open>Before location \<^verbatim>\<open>k\<close>: the nodes below are at their new places, the rest are where they were.\<close>

definition moved :: "mem_index \<Rightarrow> nat \<Rightarrow> nat list list \<Rightarrow> byte list list \<Rightarrow> bool" where
  "moved mi k g data \<longleftrightarrow> length g = mi_max_points mi + 1 \<and> length data = mi_max_points mi + 1 \<and>
     (\<forall>l \<in> kept mi. l < k \<longrightarrow> g ! new_loc mi l = map (new_loc mi) (mi_graph mi ! l) \<and> data ! new_loc mi l = mi_data mi ! l) \<and>
     (\<forall>j. k \<le> j \<longrightarrow> g ! j = mi_graph mi ! j \<and> data ! j = mi_data mi ! j)"

lemma move_loc_spec:
  assumes ok: "mem_ok cf mi" and cons: "mi_delete_set mi \<subseteq> mi_empty_slots mi" and mv: "moved mi k g data" and k: "k \<le> mi_max_points mi"
    and nl: "length nl = mi_max_points mi + 1" "\<And>x. x \<le> mi_max_points mi \<Longrightarrow> nl ! x = new_loc mi x"
  shows "\<exists>g' data'. move_loc nl k (mi\<lparr>mi_graph := g, mi_data := data\<rparr>) = Inr (mi\<lparr>mi_graph := g', mi_data := data'\<rparr>) \<and> moved mi (Suc k) g' data'"
proof -
  have S: "slots_ok mi" using ok by (simp add: mem_ok_def)
  note K = keptD [OF ok] and N = new_loc_facts [OF S]
  let ?M = "mi_max_points mi" and ?L = "dom (mi_loc2tag mi)" and ?\<rho> = "new_loc mi"
  define m where "m = mi\<lparr>mi_graph := g, mi_data := data\<rparr>"
  have f: "mi_max_points m = ?M" "mi_graph m = g" "mi_data m = data" by (simp_all add: m_def)
  have len: "length g = ?M + 1" "length data = ?M + 1" using mv by (simp_all add: moved_def)
  have prev: "g ! ?\<rho> l = map ?\<rho> (mi_graph mi ! l)" "data ! ?\<rho> l = mi_data mi ! l" if "l \<in> kept mi" "l < k" for l
    using mv that unfolding moved_def by blast+
  have same: "g ! j = mi_graph mi ! j" "data ! j = mi_data mi ! j" if "k \<le> j" for j using mv that unfolding moved_def by blast+
  have v: "vget nl k = Inr (?\<rho> k)" using nl k by (simp add: vget_def)
  show ?thesis
  proof (cases "k \<in> kept mi")
    case False
    then have "\<not> (?\<rho> k < ?M \<or> k = ?M)" by (auto simp: kept_def new_loc_def)
    then have "move_loc nl k m = Inr (m\<lparr>mi_graph := g[k := []]\<rparr>)" using len k unfolding move_loc_def Let_def f v bindE.simps by simp
    moreover have "m\<lparr>mi_graph := g[k := []]\<rparr> = mi\<lparr>mi_graph := g[k := []], mi_data := data\<rparr>" by (simp add: m_def)
    moreover have "moved mi (Suc k) (g[k := []]) data"
    proof -
      have "g[k := []] ! ?\<rho> l = map ?\<rho> (mi_graph mi ! l) \<and> data ! ?\<rho> l = mi_data mi ! l" if l: "l \<in> kept mi" "l < Suc k" for l
      proof -
        have "l < k" using l False by (cases "l = k") auto
        moreover have "?\<rho> l \<le> l" using N(1) l(1) by blast
        ultimately show ?thesis using prev [OF l(1)] by simp
      qed
      then show ?thesis using len same unfolding moved_def by simp
    qed
    ultimately show ?thesis unfolding m_def [symmetric] by metis
  next
    case True
    define nbrs where "nbrs = map ?\<rho> (mi_graph mi ! k)"
    have U: "insert ?M (mem_occ mi) = kept mi" using K(2) cons by blast
    have sub: "set (mi_graph mi ! k) \<subseteq> kept mi" using ok True unfolding mem_ok_def lists_ok_def U by blast
    have nb: "mapE (\<lambda>x. bindE (vget nl x) (\<lambda>y. if x < y then Inl Crash else Inr y)) (g ! k) = Inr nbrs"
      unfolding nbrs_def same(1) [OF le_refl]
    proof (rule mapE_total)
      fix x assume "x \<in> set (mi_graph mi ! k)"
      then have x: "x \<in> kept mi" "x \<le> ?M" using sub K(3) by auto
      then have "vget nl x = Inr (?\<rho> x)" "\<not> x < ?\<rho> x" using nl N(1) [OF x(1)] by (simp_all add: vget_def)
      then show "bindE (vget nl x) (\<lambda>y. if x < y then Inl Crash else Inr y) = Inr (?\<rho> x)" by simp
    qed
    have go: "?\<rho> k < ?M \<or> k = ?M" using True N(6) unfolding kept_def by blast
    have rk: "?\<rho> k \<le> k" by (rule N(1) [OF True])
    have other: "?\<rho> l \<noteq> ?\<rho> k" "?\<rho> l \<noteq> k" if "l \<in> kept mi" "l < k" for l
    proof -
      show "?\<rho> l \<noteq> ?\<rho> k" using N(2) True that unfolding inj_on_def by blast
      show "?\<rho> l \<noteq> k" using N(1) [OF that(1)] that(2) by simp
    qed
    show ?thesis
    proof (cases "?\<rho> k = k")
      case e: True
      have "move_loc nl k m = Inr (m\<lparr>mi_graph := g[k := nbrs]\<rparr>)" using go e len k unfolding move_loc_def Let_def f v bindE.simps nb by simp
      moreover have "m\<lparr>mi_graph := g[k := nbrs]\<rparr> = mi\<lparr>mi_graph := g[k := nbrs], mi_data := data\<rparr>" by (simp add: m_def)
      moreover have "moved mi (Suc k) (g[k := nbrs]) data"
      proof -
        have "g[k := nbrs] ! ?\<rho> l = map ?\<rho> (mi_graph mi ! l) \<and> data ! ?\<rho> l = mi_data mi ! l" if l: "l \<in> kept mi" "l < Suc k" for l
        proof (cases "l = k")
          case True
          then show ?thesis using e len k same(2) [of k] by (simp add: nbrs_def)
        next
          case False
          then have "l < k" using l(2) by simp
          then show ?thesis using prev [OF l(1)] other [OF l(1)] by simp
        qed
        then show ?thesis using len same unfolding moved_def by simp
      qed
      ultimately show ?thesis unfolding m_def [symmetric] by metis
    next
      case ne: False
      then have rlt: "?\<rho> k < k" using rk by simp
      have kM: "k \<noteq> ?M" using ne N(4) by metis
      let ?g = "g[?\<rho> k := nbrs, k := g ! ?\<rho> k]" and ?d = "data[?\<rho> k := data ! k]"
      have "move_loc nl k m = Inr (m\<lparr>mi_graph := ?g, mi_data := ?d\<rparr>)"
        using go ne kM len k rlt unfolding move_loc_def Let_def f v bindE.simps nb by simp
      moreover have "m\<lparr>mi_graph := ?g, mi_data := ?d\<rparr> = mi\<lparr>mi_graph := ?g, mi_data := ?d\<rparr>" by (simp add: m_def)
      moreover have "moved mi (Suc k) ?g ?d"
      proof -
        have "?g ! ?\<rho> l = map ?\<rho> (mi_graph mi ! l) \<and> ?d ! ?\<rho> l = mi_data mi ! l" if l: "l \<in> kept mi" "l < Suc k" for l
        proof (cases "l = k")
          case True
          then show ?thesis using rlt len k same(2) [of k] by (simp add: nbrs_def)
        next
          case False
          then have "l < k" using l(2) by simp
          then show ?thesis using prev [OF l(1)] other [OF l(1)] by simp
        qed
        moreover have "?g ! j = mi_graph mi ! j \<and> ?d ! j = mi_data mi ! j" if "Suc k \<le> j" for j
          using same [of j] that rlt by simp
        ultimately show ?thesis using len unfolding moved_def by simp
      qed
      ultimately show ?thesis unfolding m_def [symmetric] by metis
    qed
  qed
qed

lemma move_all_spec:
  assumes ok: "mem_ok cf mi" and cons: "mi_delete_set mi \<subseteq> mi_empty_slots mi"
    and nl: "length nl = mi_max_points mi + 1" "\<And>x. x \<le> mi_max_points mi \<Longrightarrow> nl ! x = new_loc mi x" and "k \<le> mi_max_points mi + 1"
  shows "\<exists>g data. foldE (move_loc nl) [0..<k] mi = Inr (mi\<lparr>mi_graph := g, mi_data := data\<rparr>) \<and> moved mi k g data"
  using assms(5)
proof (induction k)
  case 0
  have "length (mi_graph mi) = mi_max_points mi + 1" "length (mi_data mi) = mi_max_points mi + 1" using ok unfolding mem_ok_def shape_ok_def by blast+
  then show ?case by (intro exI [of _ "mi_graph mi"] exI [of _ "mi_data mi"]) (simp add: moved_def)
next
  case (Suc k)
  have "k \<le> mi_max_points mi + 1" and km: "k \<le> mi_max_points mi" using Suc.prems by simp_all
  from Suc.IH [OF this(1)] obtain g data where
    g: "foldE (move_loc nl) [0..<k] mi = Inr (mi\<lparr>mi_graph := g, mi_data := data\<rparr>)" "moved mi k g data" by blast
  from move_loc_spec [OF ok cons g(2) km nl] obtain g' data' where
    "move_loc nl k (mi\<lparr>mi_graph := g, mi_data := data\<rparr>) = Inr (mi\<lparr>mi_graph := g', mi_data := data'\<rparr>)" "moved mi (Suc k) g' data'" by blast
  then show ?case using g(1) by (intro exI [of _ g'] exI [of _ data']) (simp add: foldE_append)
qed

lemma clear_rows_nth: "i < length g \<Longrightarrow> clear_rows a b g ! i = (if a \<le> i \<and> i < b then [] else g ! i) \<and> length (clear_rows a b g) = length g"
proof (induction "b - a" arbitrary: a g)
  case 0
  then show ?case by (auto simp: clear_rows_def)
next
  case (Suc n)
  have "a < b" using Suc.hyps(2) by linarith
  then have u: "[a..<b] = a # [Suc a..<b]" by (rule upt_conv_Cons)
  have n: "n = b - Suc a" using Suc.hyps(2) by linarith
  have "clear_rows a b g = clear_rows (Suc a) b (g[a := []])" unfolding clear_rows_def u by simp
  then show ?case using Suc.hyps(1) [OF n, of "g[a := []]"] Suc.prems \<open>a < b\<close> by (auto simp: nth_list_update)
qed

section \<open>The tag maps\<close>

lemma fold_upd:
  assumes "\<And>l l' a b b'. F l = Some (a, b) \<Longrightarrow> F l' = Some (a, b') \<Longrightarrow> l = l'"
  shows "fold (\<lambda>l m. case F l of None \<Rightarrow> m | Some (a, b) \<Rightarrow> m(a \<mapsto> b)) [0..<k] Map.empty a = Some b \<longleftrightarrow> (\<exists>l < k. F l = Some (a, b))"
proof (induction k)
  case (Suc k)
  let ?m = "fold (\<lambda>l m. case F l of None \<Rightarrow> m | Some (a, b) \<Rightarrow> m(a \<mapsto> b)) [0..<k] Map.empty"
  have s: "fold (\<lambda>l m. case F l of None \<Rightarrow> m | Some (a, b) \<Rightarrow> m(a \<mapsto> b)) [0..<Suc k] Map.empty = (case F k of None \<Rightarrow> ?m | Some (a, b) \<Rightarrow> ?m(a \<mapsto> b))"
    by simp
  have e: "(\<exists>l < Suc k. F l = Some (a, b)) \<longleftrightarrow> (\<exists>l < k. F l = Some (a, b)) \<or> F k = Some (a, b)" by (auto simp: less_Suc_eq)
  show ?case
  proof (cases "F k")
    case None
    then show ?thesis using Suc.IH unfolding s e by simp
  next
    case (Some x)
    obtain a0 b0 where x: "F k = Some (a0, b0)" using Some by (cases x) simp
    show ?thesis
    proof (cases "a = a0")
      case True
      have "\<not> (\<exists>l < k. F l = Some (a0, b))" using assms x by blast
      then show ?thesis unfolding s e unfolding x True by auto
    next
      case False
      then show ?thesis using Suc.IH unfolding s e x by simp
    qed
  qed
qed simp

lemma moved_maps:
  assumes S: "slots_ok mi" and nl: "length nl = mi_max_points mi + 1" "\<And>x. x \<le> mi_max_points mi \<Longrightarrow> nl ! x = new_loc mi x"
  shows "moved_tag2loc nl (mi_loc2tag mi) t = map_option (new_loc mi) (mi_tag2loc mi t)"
    "moved_loc2tag nl (mi_loc2tag mi) j = Some t \<longleftrightarrow> (\<exists>l. mi_tag2loc mi t = Some l \<and> new_loc mi l = j)"
proof -
  note D = slots_okD [OF S]
  have lt: "l < length nl \<and> nl ! l = new_loc mi l" if "mi_loc2tag mi l = Some t" for l t
  proof -
    have "l < mi_max_points mi" using D(2) that by blast
    then show ?thesis using nl by simp
  qed
  define F where "F = (\<lambda>l. map_option (\<lambda>t. (t, nl ! l)) (mi_loc2tag mi l))"
  define G where "G = (\<lambda>l. map_option (\<lambda>t. (nl ! l, t)) (mi_loc2tag mi l))"
  have t: "moved_tag2loc nl (mi_loc2tag mi) = fold (\<lambda>l m. case F l of None \<Rightarrow> m | Some (a, b) \<Rightarrow> m(a \<mapsto> b)) [0..<length nl] Map.empty"
    unfolding moved_tag2loc_def by (intro fold_cong) (auto simp: F_def split: option.split)
  have F: "F l = Some (a, b) \<longleftrightarrow> mi_tag2loc mi a = Some l \<and> new_loc mi l = b" if "l < length nl" for l a b
    using that nl D(1) [of a l] by (auto simp: F_def less_Suc_eq_le)
  have "moved_tag2loc nl (mi_loc2tag mi) t = Some b \<longleftrightarrow> (\<exists>l < length nl. F l = Some (t, b))" for b
    unfolding t
  proof (rule fold_upd)
    fix l l' a b b' assume "F l = Some (a, b)" "F l' = Some (a, b')"
    then have "mi_loc2tag mi l = Some a" "mi_loc2tag mi l' = Some a" by (auto simp: F_def)
    then show "l = l'" using D(1) [of a l] D(1) [of a l'] by simp
  qed
  also have "(\<exists>l < length nl. F l = Some (t, b)) \<longleftrightarrow> map_option (new_loc mi) (mi_tag2loc mi t) = Some b" for b
    using F [of _ t b] lt [of _ t] D(1) [of t] by auto
  finally show "moved_tag2loc nl (mi_loc2tag mi) t = map_option (new_loc mi) (mi_tag2loc mi t)" by (metis not_Some_eq)
  have g: "moved_loc2tag nl (mi_loc2tag mi) = fold (\<lambda>l m. case G l of None \<Rightarrow> m | Some (a, b) \<Rightarrow> m(a \<mapsto> b)) [0..<length nl] Map.empty"
    unfolding moved_loc2tag_def by (intro fold_cong) (auto simp: G_def split: option.split)
  have "moved_loc2tag nl (mi_loc2tag mi) j = Some t \<longleftrightarrow> (\<exists>l < length nl. G l = Some (j, t))"
    unfolding g
  proof (rule fold_upd)
    fix l l' a b b' assume "G l = Some (a, b)" "G l' = Some (a, b')"
    then have l: "mi_loc2tag mi l = Some b" "mi_loc2tag mi l' = Some b'" "nl ! l = nl ! l'" by (auto simp: G_def)
    then have "new_loc mi l = new_loc mi l'" "l \<in> kept mi" "l' \<in> kept mi" using lt [OF l(1)] lt [OF l(2)] by (auto simp: kept_def)
    then show "l = l'" using new_loc_facts(2) [OF S] unfolding inj_on_def by blast
  qed
  also have "(\<exists>l < length nl. G l = Some (j, t)) \<longleftrightarrow> (\<exists>l. mi_tag2loc mi t = Some l \<and> new_loc mi l = j)"
    using lt [of _ t] D(1) [of t] by (auto simp: G_def)
  finally show "moved_loc2tag nl (mi_loc2tag mi) j = Some t \<longleftrightarrow> (\<exists>l. mi_tag2loc mi t = Some l \<and> new_loc mi l = j)" .
qed

section \<open>Compaction\<close>

text \<open>The neighbors of a location, by their tags (the frozen point has none).\<close>

definition nbr_tags :: "mem_index \<Rightarrow> nat \<Rightarrow> nat option list" where
  "nbr_tags mi l = map (mi_loc2tag mi) (mi_graph mi ! l)"

definition tag_lists :: "mem_index \<Rightarrow> nat \<Rightarrow> nat option list option" where
  "tag_lists mi t = map_option (nbr_tags mi) (mi_tag2loc mi t)"

lemma compact_data_spec:
  assumes ok: "mem_ok cf mi" and cons: "mi_delete_set mi \<subseteq> mi_empty_slots mi" and lazy: "mi_lazy_done mi" "\<not> mi_compacted mi"
  shows "\<exists>mi'. compact_data mi = Inr mi' \<and> mem_ok cf mi' \<and> vec_of mi' = vec_of mi \<and> tag_lists mi' = tag_lists mi \<and>
    nbr_tags mi' (mi_ep mi') = nbr_tags mi (mi_ep mi) \<and> mi_compacted mi' \<and> mem_occ mi' = {..<card (dom (vec_of mi))} \<and> mi_delete_set mi' = {} \<and>
    mi_empty_slots mi' = {card (dom (vec_of mi))..<mi_max_points mi'} \<and> mi_max_points mi' = mi_max_points mi \<and> aligned_query mi' = aligned_query mi \<and>
    mi_nd mi' = mi_nd mi"
proof -
  have S: "slots_ok mi" and sh: "shape_ok mi" using ok by (simp_all add: mem_ok_def)
  note D = slots_okD [OF S] and K = keptD [OF ok] and N = new_loc_facts [OF S]
  let ?M = "mi_max_points mi" and ?L = "dom (mi_loc2tag mi)" and ?\<rho> = "new_loc mi"
  have dyn: "mi_dynamic mi" and tot: "mi_total mi = ?M + 1" and ep: "mi_ep mi = ?M" using sh unfolding shape_ok_def mi_total_def by auto
  define nl where "nl = number_locs ?M (mi_loc2tag mi) [0..<mi_total mi] 0"
  have nl: "length nl = ?M + 1" "\<And>x. x \<le> ?M \<Longrightarrow> nl ! x = ?\<rho> x"
    using tot new_location_nth [OF tot] by (simp_all add: nl_def number_locs_length)
  have occ0: "mem_occ mi = ?L" using cons unfolding mem_occ_def by blast
  have nd: "mi_nd mi = card ?L" using D(4) occ0 by simp
  have U: "insert ?M (mem_occ mi) = kept mi" unfolding occ0 kept_def by simp
  have "mi_ep mi \<notin> mi_delete_set mi" using ep D(2) by auto
  then have rs: "replace_start mi = Inr mi" by (simp add: replace_start_def)
  from move_all_spec [OF ok cons nl, of "?M + 1"] obtain g data where
    g: "foldE (move_loc nl) [0..<?M + 1] mi = Inr (mi\<lparr>mi_graph := g, mi_data := data\<rparr>)" "moved mi (?M + 1) g data" by auto
  have len: "length g = ?M + 1" "length data = ?M + 1" using g(2) by (simp_all add: moved_def)
  have at: "g ! ?\<rho> l = map ?\<rho> (mi_graph mi ! l)" "data ! ?\<rho> l = mi_data mi ! l" if "l \<in> kept mi" for l
  proof -
    have "l < ?M + 1" using that K(3) by auto
    then show "g ! ?\<rho> l = map ?\<rho> (mi_graph mi ! l)" "data ! ?\<rho> l = mi_data mi ! l" using g(2) that unfolding moved_def by blast+
  qed
  define n where "n = card ?L"
  define g' where "g' = clear_rows n ?M g"
  define t2l where "t2l = moved_tag2loc nl (mi_loc2tag mi)"
  define l2t where "l2t = moved_loc2tag nl (mi_loc2tag mi)"
  have t2l: "t2l t = map_option ?\<rho> (mi_tag2loc mi t)" for t unfolding t2l_def by (rule moved_maps(1) [OF S nl])
  have l2t: "l2t j = Some t \<longleftrightarrow> (\<exists>l. mi_tag2loc mi t = Some l \<and> ?\<rho> l = j)" for j t unfolding l2t_def by (rule moved_maps(2) [OF S nl])
  define mi' where "mi' = mi\<lparr>mi_graph := g', mi_data := data, mi_tag2loc := t2l, mi_loc2tag := l2t, mi_delete_set := {},
    mi_empty_slots := {n..<?M}, mi_lazy_done := False, mi_eager_done := False, mi_compacted := True\<rparr>"
  have run: "compact_data mi = Inr mi'"
    using dyn lazy rs g(1) by (simp add: compact_data_def nl_def [symmetric] Let_def mi'_def g'_def t2l_def l2t_def nd n_def)
  have f: "mi_delete_set mi' = {}" "mi_empty_slots mi' = {n..<?M}" "mi_loc2tag mi' = l2t" "mi_tag2loc mi' = t2l" "mi_nd mi' = n" "mi_max_points mi' = ?M"
    "mi_compacted mi'" "mi_graph mi' = g'" "mi_data mi' = data" "mi_ep mi' = mi_ep mi"
    by (simp_all add: mi'_def nd n_def)
  have lt: "l \<in> ?L \<longleftrightarrow> (\<exists>t. mi_tag2loc mi t = Some l)" for l using D(1) by (auto simp: dom_def)
  have dl: "dom l2t = {..<n}"
  proof -
    have "dom l2t = ?\<rho> ` ?L" using l2t lt by (auto simp: dom_def image_iff)
    then show ?thesis using N(3) by (simp add: n_def)
  qed
  have nM: "n \<le> ?M" using N(5) by (simp add: n_def)
  have occ: "mem_occ mi' = {..<n}" unfolding mem_occ_def f dl by simp
  have so: "slots_ok mi'"
    unfolding slots_ok_def occ f dl
  proof (intro conjI allI impI)
    show "t2l t = Some j \<longleftrightarrow> l2t j = Some t" for t j unfolding t2l l2t by auto
    show "{..<n} \<union> {} \<union> {n..<?M} = {..<?M}" using nM by auto
  qed auto
  have gk: "g' ! ?\<rho> l = map ?\<rho> (mi_graph mi ! l)" if "l \<in> kept mi" for l
  proof -
    have r: "?\<rho> l < length g" using N(1) [OF that] that K(3) len by fastforce
    have nn: "\<not> (n \<le> ?\<rho> l \<and> ?\<rho> l < ?M)"
    proof (cases "l = ?M")
      case True
      then show ?thesis using N(4) by simp
    next
      case False
      then have "l \<in> ?L" using that by (simp add: kept_def)
      then have "?\<rho> l \<in> {..<n}" using N(3) by (auto simp: n_def)
      then show ?thesis by simp
    qed
    have "g' ! ?\<rho> l = (if n \<le> ?\<rho> l \<and> ?\<rho> l < ?M then [] else g ! ?\<rho> l)" unfolding g'_def using clear_rows_nth [OF r, of n ?M] by blast
    then show ?thesis by (simp only: nn if_False at(1) [OF that])
  qed
  have im: "?\<rho> ` kept mi = insert ?M {..<n}" unfolding kept_def using N(3,4) by (simp add: n_def)
  have old: "nbrs_ok cf (?M + 1) l (mi_graph mi ! l)" "set (mi_graph mi ! l) \<subseteq> kept mi" if "l \<in> kept mi" for l
    using ok that unfolding mem_ok_def lists_ok_def U by blast+
  have new: "nbrs_ok cf (?M + 1) j (g' ! j) \<and> set (g' ! j) \<subseteq> insert ?M {..<n}" if j: "j \<in> insert ?M {..<n}" for j
  proof -
    obtain l where l: "l \<in> kept mi" "j = ?\<rho> l" using j im by blast
    note o = old [OF l(1)]
    have e: "g' ! j = map ?\<rho> (mi_graph mi ! l)" using gk [OF l(1)] l(2) by simp
    have s: "set (g' ! j) \<subseteq> insert ?M {..<n}" unfolding e using o(2) im by auto
    have "inj_on ?\<rho> (set (mi_graph mi ! l))" by (rule inj_on_subset [OF N(2) o(2)])
    then have "distinct (g' ! j)" unfolding e using o(1) by (simp add: distinct_map nbrs_ok_def)
    moreover have "j \<notin> set (g' ! j)"
    proof
      assume "j \<in> set (g' ! j)"
      then obtain x where x: "x \<in> set (mi_graph mi ! l)" "?\<rho> x = j" unfolding e by auto
      then have "x = l" using N(2) o(2) l unfolding inj_on_def by blast
      then show False using x(1) o(1) by (simp add: nbrs_ok_def)
    qed
    moreover have "\<forall>x \<in> set (g' ! j). x < ?M + 1" using s nM by fastforce
    moreover have "length (g' ! j) \<le> slack_range (cf_range cf)" unfolding e using o(1) by (simp add: nbrs_ok_def)
    ultimately show ?thesis using s by (simp add: nbrs_ok_def)
  qed
  have li: "lists_ok cf {} mi'" unfolding lists_ok_def occ f using new by simp
  have g'len: "length g' = ?M + 1" using clear_rows_nth [of 0 g n ?M] len by (simp add: g'_def)
  have rng: "\<forall>x \<in> set (g' ! i). x \<le> ?M" if i: "i \<le> ?M" for i
  proof (cases "i \<in> insert ?M {..<n}")
    case True
    then show ?thesis using new [OF True] nM by fastforce
  next
    case False
    then have "g' ! i = []" using clear_rows_nth [of i g n ?M] i len by (auto simp: g'_def)
    then show ?thesis by simp
  qed
  have "shape_ok (mi\<lparr>mi_graph := g', mi_width := mi_width mi\<rparr>)" by (rule graph_shape [OF sh rng g'len])
  then have "shape_ok mi'" using len by (simp add: shape_ok_def mi'_def)
  with so li have mok: "mem_ok cf mi'" by (simp add: mem_ok_def)
  have loc: "l \<in> ?L \<and> l \<in> kept mi" if "mi_tag2loc mi t = Some l" for t l using that lt unfolding kept_def by blast
  have v: "vec_of mi' = vec_of mi"
  proof
    fix t show "vec_of mi' t = vec_of mi t" unfolding vec_of_def f t2l using loc [of t] at(2) by (cases "mi_tag2loc mi t") simp_all
  qed
  have tg: "l2t (?\<rho> x) = mi_loc2tag mi x" if x: "x \<in> kept mi" for x
  proof (cases "mi_loc2tag mi x")
    case (Some t)
    then have "mi_tag2loc mi t = Some x" using D(1) by blast
    then show ?thesis using Some l2t by auto
  next
    case None
    then have "x = ?M" using x by (auto simp: kept_def)
    then have "?\<rho> x = ?M" using N(4) by simp
    moreover have "?M \<notin> dom l2t" using dl nM by simp
    ultimately show ?thesis using None by (simp add: domIff)
  qed
  have nt: "nbr_tags mi' (?\<rho> l) = nbr_tags mi l" if "l \<in> kept mi" for l
  proof -
    have "map l2t (map ?\<rho> (mi_graph mi ! l)) = map (mi_loc2tag mi) (mi_graph mi ! l)" using old(2) [OF that] tg by auto
    then show ?thesis unfolding nbr_tags_def f gk [OF that] by simp
  qed
  have "tag_lists mi' = tag_lists mi"
  proof
    fix t show "tag_lists mi' t = tag_lists mi t" unfolding tag_lists_def f t2l using loc [of t] nt by (cases "mi_tag2loc mi t") simp_all
  qed
  moreover have "nbr_tags mi' (mi_ep mi') = nbr_tags mi (mi_ep mi)" unfolding f ep using nt [of ?M] N(4) by (simp add: kept_def)
  moreover have "card (dom (vec_of mi)) = n" using tags_card [OF S] by (simp add: n_def)
  moreover have "aligned_query mi' = aligned_query mi" by (rule query_frame) (simp_all add: mi'_def)
  ultimately show ?thesis using run mok v occ f nd n_def by (intro exI [of _ mi']) simp
qed

section \<open>Consolidation with compaction\<close>

text \<open>An index between consolidations: its gaps are pending deletions.\<close>

definition mem_ready :: "prune_cfg \<Rightarrow> mem_index \<Rightarrow> bool" where
  "mem_ready cf mi \<longleftrightarrow> mem_ok cf mi \<and> mi_compacted mi \<and> pending_ok mi"

lemma consolidate_spec:
  assumes ready: "mem_ready cf mi" and cf: "params_ok cf" and en: "order_ok en"
  shows "\<exists>mi'. consolidate en cf mi = Inr mi' \<and> mem_ready cf mi' \<and> vec_of mi' = vec_of mi \<and> mem_occ mi' = {..<card (dom (vec_of mi))} \<and>
    mi_delete_set mi' = {} \<and> mi_max_points mi' = mi_max_points mi \<and> mi_nd mi' \<le> mi_nd mi \<and> aligned_query mi' = aligned_query mi"
proof -
  have ok: "mem_ok cf mi" and c: "mi_compacted mi" and p: "pending_ok mi" using ready by (simp_all add: mem_ready_def)
  have S: "slots_ok mi" using ok by (simp add: mem_ok_def)
  have fresh: "mi_delete_set mi \<inter> mi_empty_slots mi = {}" by (rule slots_okD(6) [OF S c])
  have g: "mi_compacted mi \<or> mi_delete_set mi \<noteq> {}" using c by blast
  from consolidate_deletes_spec [OF ok cf en fresh g] obtain m where
    m: "consolidate_deletes en cf mi = Inr (card (dom (vec_of mi)), m)" "mem_ok cf m" "vec_of m = vec_of mi" "mi_nd m = card (dom (vec_of mi))"
      "mi_delete_set m \<subseteq> mi_empty_slots m" "mi_lazy_done m = mi_lazy_done mi" "mi_compacted m = (mi_delete_set mi = {})"
      "mi_max_points m = mi_max_points mi" "aligned_query m = aligned_query mi" "mi_delete_set m = mi_delete_set mi" "mi_nd m \<le> mi_nd mi" by blast
  have run: "consolidate en cf mi = compact_data m" using m(1) by (simp add: consolidate_def)
  show ?thesis
  proof (cases "mi_delete_set mi = {}")
    case True
    then have cm: "mi_compacted m" using m(7) by simp
    have "slots_ok m" using m(2) by (simp add: mem_ok_def)
    then have "mem_occ m = {..<mi_nd m}" using slots_okD(5) cm by blast
    then show ?thesis using run True m cm by (intro exI [of _ m]) (simp add: compact_data_def mem_ready_def pending_ok_def)
  next
    case False
    then have l: "mi_lazy_done m" "\<not> mi_compacted m" using p m(6,7) by (simp_all add: pending_ok_def)
    from compact_data_spec [OF m(2) m(5) l] obtain k where
      k: "compact_data m = Inr k" "mem_ok cf k" "vec_of k = vec_of m" "mi_compacted k" "mem_occ k = {..<card (dom (vec_of m))}" "mi_delete_set k = {}"
        "mi_max_points k = mi_max_points m" "aligned_query k = aligned_query m" "mi_nd k = mi_nd m" by blast
    then show ?thesis using run m by (intro exI [of _ k]) (simp add: mem_ready_def pending_ok_def)
  qed
qed

end
