(* ===== verification/Mem_Run.thy ===== *)
theory Mem_Run
  imports Mem_Compact
begin

text \<open>Sequences of operations of the in-memory index against the map from tags to vectors.\<close>

section \<open>Operations and what they mean\<close>

datatype mem_op = MInsert nat "byte list" | MDelete nat | MConsolidate

definition mem_step :: "mem_env \<Rightarrow> nat \<Rightarrow> prune_cfg \<Rightarrow> nat \<Rightarrow> mem_op \<Rightarrow> mem_index \<Rightarrow> mem_index res" where
  "mem_step en fuel cf L op mi =
     (case op of MInsert tag point \<Rightarrow> insert_point en fuel cf L point tag mi
      | MDelete tag \<Rightarrow> Inr (snd (mem_lazy_delete tag mi))
      | MConsolidate \<Rightarrow> consolidate en cf mi)"

definition map_step :: "(byte list \<Rightarrow> byte list) \<Rightarrow> mem_op \<Rightarrow> (nat \<Rightarrow> byte list option) \<Rightarrow> nat \<Rightarrow> byte list option" where
  "map_step row op v =
     (case op of MInsert tag point \<Rightarrow> v(tag \<mapsto> row point) | MDelete tag \<Rightarrow> v(tag := None) | MConsolidate \<Rightarrow> v)"

definition is_insert :: "mem_op \<Rightarrow> bool" where
  "is_insert op = (case op of MInsert tag point \<Rightarrow> True | MDelete tag \<Rightarrow> False | MConsolidate \<Rightarrow> False)"

definition env_ok :: "mem_env \<Rightarrow> bool" where
  "env_ok en \<longleftrightarrow> first_ok en \<and> dist_ok_fn en \<and> order_ok en"

lemma mem_step_spec:
  assumes ready: "mem_ready cf mi" and cf: "params_ok cf" and en: "env_ok en" and L: "0 < L"
    and room: "is_insert op \<Longrightarrow> mi_nd mi < mi_max_points mi"
    and fuel: "(max (mi_max_points mi) (grown_points (mi_max_points mi)) + 2) * (L + 1) \<le> fuel"
  shows "\<exists>mi'. mem_step en fuel cf L op mi = Inr mi' \<and> mem_ready cf mi' \<and> vec_of mi' = map_step (aligned_query mi) op (vec_of mi) \<and>
    mi_max_points mi' = mi_max_points mi \<and> mi_nd mi' \<le> mi_nd mi + (if is_insert op then 1 else 0) \<and> aligned_query mi' = aligned_query mi"
proof -
  have ok: "mem_ok cf mi" and c: "mi_compacted mi" and p: "pending_ok mi" using ready by (simp_all add: mem_ready_def)
  have E: "first_ok en" "dist_ok_fn en" "order_ok en" using en by (simp_all add: env_ok_def)
  show ?thesis
  proof (cases op)
    case (MInsert tag point)
    then have r: "mi_nd mi < mi_max_points mi" using room by (simp add: is_insert_def)
    then have "can_insert fuel L mi" using fuel by (simp add: can_insert_def)
    from insert_point_spec [OF ok cf E(1,2) L this, of tag point] obtain m where
      "insert_point en fuel cf L point tag mi = Inr m" "mem_ok cf m" "vec_of m = (vec_of mi)(tag \<mapsto> aligned_query mi point)"
      "aligned_query m = aligned_query mi" "mi_compacted m = mi_compacted mi" "pending_ok mi \<longrightarrow> pending_ok m"
      "mi_nd mi < mi_max_points mi \<longrightarrow> mi_nd m = mi_nd mi + 1 \<and> mi_max_points m = mi_max_points mi" by blast
    then show ?thesis using MInsert c p r by (intro exI [of _ m]) (simp add: mem_step_def map_step_def is_insert_def mem_ready_def)
  next
    case (MDelete tag)
    from mem_lazy_delete_spec [OF ok, of tag] obtain rc m where
      "mem_lazy_delete tag mi = (rc, m)" "mem_ok cf m" "vec_of m = (vec_of mi)(tag := None)" "mi_lazy_done m" "mi_nd m = mi_nd mi"
      "mi_max_points m = mi_max_points mi" "mi_compacted m = mi_compacted mi" "aligned_query m = aligned_query mi" by blast
    then show ?thesis using MDelete c by (intro exI [of _ m]) (simp add: mem_step_def map_step_def is_insert_def mem_ready_def pending_ok_def)
  next
    case MConsolidate
    from consolidate_spec [OF ready cf E(3)] obtain m where
      "consolidate en cf mi = Inr m" "mem_ready cf m" "vec_of m = vec_of mi" "mi_max_points m = mi_max_points mi" "mi_nd m \<le> mi_nd mi"
      "aligned_query m = aligned_query mi" by blast
    then show ?thesis using MConsolidate by (intro exI [of _ m]) (simp add: mem_step_def map_step_def is_insert_def)
  qed
qed

section \<open>Sequences\<close>

text \<open>A store whose operations do what the operations of an abstract state do, as long as there is room:
  \<^verbatim>\<open>inv n\<close> says that the state is in order and that \<^verbatim>\<open>n\<close> more units may be used.\<close>

locale step_refinement =
  fixes step :: "'op \<Rightarrow> 's \<Rightarrow> 's res" and abs_step :: "'op \<Rightarrow> 'a \<Rightarrow> 'a" and view :: "'s \<Rightarrow> 'a" and inv :: "nat \<Rightarrow> 's \<Rightarrow> bool"
    and cost :: "'op \<Rightarrow> nat"
  assumes step_refines: "inv (cost op + n) s \<Longrightarrow> \<exists>s'. step op s = Inr s' \<and> inv n s' \<and> view s' = abs_step op (view s)"
begin

lemma run_refines: "inv (sum_list (map cost ops) + n) s \<Longrightarrow> \<exists>s'. foldE step ops s = Inr s' \<and> inv n s' \<and> view s' = fold abs_step ops (view s)"
proof (induction ops arbitrary: s)
  case (Cons op ops)
  have "inv (cost op + (sum_list (map cost ops) + n)) s" using Cons.prems by (simp add: add.assoc)
  from step_refines [OF this] obtain s1 where
    1: "step op s = Inr s1" "inv (sum_list (map cost ops) + n) s1" "view s1 = abs_step op (view s)" by blast
  from Cons.IH [OF 1(2)] 1 show ?case by auto
qed simp

end

text \<open>The in-memory index is one: an insertion uses a location.\<close>

definition store_ok :: "mem_env \<Rightarrow> nat \<Rightarrow> prune_cfg \<Rightarrow> nat \<Rightarrow> (byte list \<Rightarrow> byte list) \<Rightarrow> nat \<Rightarrow> mem_index \<Rightarrow> bool" where
  "store_ok en fuel cf L row n mi \<longleftrightarrow> mem_ready cf mi \<and> params_ok cf \<and> env_ok en \<and> 0 < L \<and> mi_nd mi + n \<le> mi_max_points mi \<and>
     (max (mi_max_points mi) (grown_points (mi_max_points mi)) + 2) * (L + 1) \<le> fuel \<and> aligned_query mi = row"

interpretation store: step_refinement "mem_step en fuel cf L" "map_step row" vec_of "store_ok en fuel cf L row" "\<lambda>op. if is_insert op then 1 else 0"
  for en fuel cf L row
proof
  fix op n mi
  assume s: "store_ok en fuel cf L row ((if is_insert op then 1 else 0) + n) mi"
  then have a: "mem_ready cf mi" "params_ok cf" "env_ok en" "0 < L" "is_insert op \<Longrightarrow> mi_nd mi < mi_max_points mi"
    "(max (mi_max_points mi) (grown_points (mi_max_points mi)) + 2) * (L + 1) \<le> fuel" by (auto simp: store_ok_def)
  from mem_step_spec [OF a] obtain m where
    m: "mem_step en fuel cf L op mi = Inr m" "mem_ready cf m" "vec_of m = map_step (aligned_query mi) op (vec_of mi)"
      "mi_max_points m = mi_max_points mi" "mi_nd m \<le> mi_nd mi + (if is_insert op then 1 else 0)" "aligned_query m = aligned_query mi" by blast
  have "store_ok en fuel cf L row n m" using s m(2,4-6) unfolding store_ok_def by auto
  moreover have "aligned_query mi = row" using s by (simp add: store_ok_def)
  ultimately show "\<exists>m. mem_step en fuel cf L op mi = Inr m \<and> store_ok en fuel cf L row n m \<and> vec_of m = map_step row op (vec_of mi)"
    using m(1,3) by blast
qed

lemma inserts_cost: "sum_list (map (\<lambda>op. if is_insert op then 1 else 0) ops) = length (filter is_insert ops)"
  by (induction ops) auto

lemma mem_run_spec:
  assumes "mem_ready cf mi" "params_ok cf" "env_ok en" "0 < L" "mi_nd mi + length (filter is_insert ops) \<le> mi_max_points mi"
    and "(max (mi_max_points mi) (grown_points (mi_max_points mi)) + 2) * (L + 1) \<le> fuel"
  shows "\<exists>mi'. foldE (mem_step en fuel cf L) ops mi = Inr mi' \<and> mem_ready cf mi' \<and> vec_of mi' = fold (map_step (aligned_query mi)) ops (vec_of mi)"
proof -
  have "store_ok en fuel cf L (aligned_query mi) (sum_list (map (\<lambda>op. if is_insert op then 1 else 0) ops) + 0) mi"
    using assms by (simp add: store_ok_def inserts_cost)
  from store.run_refines [OF this] show ?thesis by (auto simp: store_ok_def)
qed

section \<open>A new index\<close>

lemma fresh_ready:
  assumes "max_points < 4294967296"
  shows "mem_ready cf (snd (enable_delete (mem_new en sz d max_points True tags)))"
    "vec_of (snd (enable_delete (mem_new en sz d max_points True tags))) = Map.empty"
proof -
  define m where "m = snd (enable_delete (mem_new en sz d max_points True tags))"
  define n where "n = (if max_points = 0 then 1 else max_points)"
  have n: "0 < n" "n < 4294967296" using assms by (simp_all add: n_def)
  have f: "mi_delete_set m = {}" "mi_empty_slots m = {0..<n}" "mi_loc2tag m = Map.empty" "mi_tag2loc m = Map.empty" "mi_nd m = 0" "mi_max_points m = n"
    "mi_compacted m" "mi_num_frozen m = 1" "mi_dynamic m" "mi_enable_tags m" "\<not> mi_eager_done m" "mi_ep m = n"
    "mi_graph m = replicate (n + 1) []" "length (mi_data m) = n + 1"
    using n by (simp_all add: m_def enable_delete_def mem_new_def Let_def n_def u32_def)
  have occ: "mem_occ m = {}" by (simp add: mem_occ_def f)
  have "slots_ok m" unfolding slots_ok_def occ f(1-7) by auto
  moreover have "shape_ok m" unfolding shape_ok_def f using n f(8-11,14) by (simp del: replicate_Suc add: nth_replicate)
  moreover have "lists_ok cf {} m" unfolding lists_ok_def occ f by (simp del: replicate_Suc add: nbrs_ok_def nth_replicate)
  ultimately show "mem_ready cf (snd (enable_delete (mem_new en sz d max_points True tags)))"
    using f(1,7) unfolding m_def [symmetric] mem_ready_def mem_ok_def pending_ok_def by simp
  show "vec_of (snd (enable_delete (mem_new en sz d max_points True tags))) = Map.empty"
    unfolding m_def [symmetric] vec_of_def f(4) by (simp add: fun_eq_iff)
qed

end
