(* ===== verification/Mem_Props.thy ===== *)
theory Mem_Props
  imports Mem_Run
begin

text \<open>The properties of the in-memory index, and an example they apply to.\<close>

section \<open>An example\<close>

definition ex_env :: mem_env where
  "ex_env = \<lparr>me_compare = (\<lambda>_ _. f_zero), me_float = (\<lambda>_ _. f_zero), me_first = Min, me_order = remdups, me_fresh = (\<lambda>_. [])\<rparr>"

definition ex_cfg :: prune_cfg where
  "ex_cfg = \<lparr>cf_range = 2, cf_maxc = 10, cf_alpha = f_one\<rparr>"

definition ex_index :: mem_index where
  "ex_index = snd (enable_delete (mem_new ex_env 1 8 2 True True))"

definition ex_fuel :: nat where
  "ex_fuel = (max (mi_max_points ex_index) (grown_points (mi_max_points ex_index)) + 2) * 4"

lemma ex_ok: "params_ok ex_cfg" "env_ok ex_env" "first_ok ex_env" "dist_ok_fn ex_env" "order_ok ex_env" "mem_ready cf ex_index" "mem_ok cf ex_index"
  "mi_nd ex_index = 0" "mi_max_points ex_index = 2" "mi_num_frozen ex_index = 1" "mi_ep ex_index = 2" "mi_delete_set ex_index = {}"
  "mi_compacted ex_index"
proof -
  show p: "params_ok ex_cfg" by (simp add: params_ok_def ex_cfg_def f_one_def FLT_MAX_def f_unit_def fle_def fsgn_def)
  show "first_ok ex_env" "dist_ok_fn ex_env" "order_ok ex_env" by (simp_all add: ex_env_def first_ok_def dist_ok_fn_def order_ok_def f_zero_def)
  then show "env_ok ex_env" by (simp add: env_ok_def)
  show "mem_ready cf ex_index" unfolding ex_index_def by (rule fresh_ready(1)) simp
  then show "mem_ok cf ex_index" by (simp add: mem_ready_def)
  show "mi_nd ex_index = 0" "mi_max_points ex_index = 2" "mi_num_frozen ex_index = 1" "mi_ep ex_index = 2" "mi_delete_set ex_index = {}" "mi_compacted ex_index"
    by (simp_all add: ex_index_def enable_delete_def mem_new_def Let_def u32_def)
qed

lemma ex_fuel_ok: "(2 + 2) * 4 \<le> ex_fuel" "can_insert ex_fuel 3 ex_index"
proof -
  show "(2 + 2) * 4 \<le> ex_fuel" by (simp add: ex_fuel_def ex_ok(9))
  show "can_insert ex_fuel 3 ex_index" by (simp add: can_insert_def ex_fuel_def ex_ok(8,9))
qed

section \<open>Properties\<close>

text \<open>C5: Any sequence of insertions, lazy deletions and consolidations of the in-memory index, with room for the
  insertions, returns, and leaves the vectors that the same updates leave in a map from tags to vectors.\<close>

theorem mem_index_refines_map:
  assumes "mem_ready cf mi" "params_ok cf" "env_ok en" "0 < L" "mi_nd mi + length (filter is_insert ops) \<le> mi_max_points mi"
    and "(max (mi_max_points mi) (grown_points (mi_max_points mi)) + 2) * (L + 1) \<le> fuel"
  shows "\<exists>mi'. foldE (mem_step en fuel cf L) ops mi = Inr mi' \<and> mem_ready cf mi' \<and>
    vec_of mi' = fold (map_step (aligned_query mi)) ops (vec_of mi)"
  by (rule mem_run_spec [OF assms])

theorem mem_index_refines_map_witness:
  "\<exists>mi'. foldE (mem_step ex_env ex_fuel ex_cfg 3) [MInsert 7 [1], MInsert 9 [2], MDelete 7, MConsolidate] ex_index = Inr mi' \<and> mem_ready ex_cfg mi' \<and>
    vec_of mi' = fold (map_step (aligned_query ex_index)) [MInsert 7 [1], MInsert 9 [2], MDelete 7, MConsolidate] (vec_of ex_index)"
  by (rule mem_index_refines_map [OF ex_ok(6) ex_ok(1,2)]) (simp_all add: ex_ok is_insert_def ex_fuel_def)

text \<open>C6: An insertion, into a full index after growing it, returns, keeps the index in order and binds the tag to
  the padded point.  The new node has neighbors, at most \<^verbatim>\<open>R\<close>.  Each of them did not point to the new node: it gets
  the new node appended while its list is shorter than the slack range, and otherwise a list pruned to \<^verbatim>\<open>R\<close> out of
  its old one and the new node, which is not empty.  Every other list stays.  The old lists are those of the index that the location
  comes from: those before the insertion, or the grown ones of a full index.\<close>

theorem insert_point_links:
  assumes "mem_ok cf mi" "params_ok cf" "first_ok en" "dist_ok_fn en" "0 < L" "can_insert fuel L mi"
  shows "\<exists>mi' l k. get_location en (tag_freed tag mi) = Inr (l, k) \<and> (mi_nd mi < mi_max_points mi \<longrightarrow> mi_graph k = mi_graph mi) \<and>
    insert_point en fuel cf L point tag mi = Inr mi' \<and> mem_ok cf mi' \<and> vec_of mi' = (vec_of mi)(tag \<mapsto> aligned_query mi point) \<and>
    mi_tag2loc mi' tag = Some l \<and> mi_graph mi' ! l \<noteq> [] \<and> length (mi_graph mi' ! l) \<le> cf_range cf \<and>
    (\<forall>n \<in> set (mi_graph mi' ! l). let old = mi_graph k ! n; new = mi_graph mi' ! n in
       l \<notin> set old \<and> (if length old < slack_range (cf_range cf) then new = old @ [l]
                    else new \<noteq> [] \<and> distinct new \<and> n \<notin> set new \<and> set new \<subseteq> insert l (set old) \<and> length new \<le> cf_range cf)) \<and>
    length (mi_graph mi') = length (mi_graph k) \<and> (\<forall>n. n \<noteq> l \<and> n \<notin> set (mi_graph mi' ! l) \<longrightarrow> mi_graph mi' ! n = mi_graph k ! n)"
proof -
  from insert_point_spec [OF assms, of tag point] obtain mi' l k where
    s: "get_location en (tag_freed tag mi) = Inr (l, k)" "insert_point en fuel cf L point tag mi = Inr mi'" "mem_ok cf mi'"
      "vec_of mi' = (vec_of mi)(tag \<mapsto> aligned_query mi point)" "mi_tag2loc mi' tag = Some l" "mi_graph mi' ! l \<noteq> []"
      "length (mi_graph mi' ! l) \<le> cf_range cf" "\<forall>n. n \<noteq> l \<and> n \<notin> set (mi_graph mi' ! l) \<longrightarrow> mi_graph mi' ! n = mi_graph k ! n"
      "mi_nd mi < mi_max_points mi \<longrightarrow> mi_graph k = mi_graph mi" "length (mi_graph mi') = length (mi_graph k)"
    and r: "\<And>n. n \<in> set (mi_graph mi' ! l) \<Longrightarrow> l \<notin> set (mi_graph k ! n) \<and> relinked cf l n (mi_graph k ! n) (mi_graph mi' ! n)" by blast
  have "let old = mi_graph k ! n; new = mi_graph mi' ! n in
       l \<notin> set old \<and> (if length old < slack_range (cf_range cf) then new = old @ [l]
                    else new \<noteq> [] \<and> distinct new \<and> n \<notin> set new \<and> set new \<subseteq> insert l (set old) \<and> length new \<le> cf_range cf)"
    if "n \<in> set (mi_graph mi' ! l)" for n using r [OF that] unfolding relinked_def Let_def by presburger
  then show ?thesis using s by blast
qed

text \<open>The first point of the example: the frozen one is its neighbor and links back.\<close>

theorem insert_point_links_witness:
  "\<exists>mi' l. insert_point ex_env ex_fuel ex_cfg 3 [1, 2] 7 ex_index = Inr mi' \<and> mem_ok ex_cfg mi' \<and> vec_of mi' = (vec_of ex_index)(7 \<mapsto> aligned_query ex_index [1, 2]) \<and>
    mi_tag2loc mi' 7 = Some l \<and> mi_graph mi' ! l \<noteq> [] \<and> length (mi_graph mi' ! l) \<le> 2 \<and>
    (\<forall>n \<in> set (mi_graph mi' ! l). mi_graph mi' ! n = [l])"
proof -
  have L: "0 < (3 :: nat)" by simp
  have c: "cf_range ex_cfg = 2" "slack_range 2 = 2" by (simp_all add: ex_cfg_def slack_range_def)
  have e: "mi_graph ex_index = [[], [], []]"
    by (simp add: ex_index_def enable_delete_def mem_new_def Let_def u32_def)
  show ?thesis using insert_point_links [OF ex_ok(7,1,3,4) L ex_fuel_ok(2), of 7 "[1, 2]"]
  proof (elim exE conjE, goal_cases)
    case (1 mi' l k)
    have k: "mi_graph k = [[], [], []]" using 1(2) ex_ok(8,9) e by simp
    have "mi_graph mi' ! n = [l]" if n: "n \<in> set (mi_graph mi' ! l)" for n
    proof -
      have h: "shape_ok mi'" "slots_ok mi'" using 1(4) by (simp_all add: mem_ok_def)
      then have m: "length (mi_graph mi') = mi_max_points mi' + 1" "\<forall>i \<le> mi_max_points mi'. \<forall>x \<in> set (mi_graph mi' ! i). x \<le> mi_max_points mi'"
        unfolding shape_ok_def by blast+
      have "l \<in> mem_occ mi'" using h(2) 1(6) unfolding slots_ok_def mem_occ_def by auto
      then have "l \<le> mi_max_points mi'" using occ_split(1) [OF h(2)] by auto
      then have "n \<le> mi_max_points mi'" using m(2) n by blast
      then have "n = 0 \<or> n = 1 \<or> n = 2" using m(1) 1(10) k by auto
      then have "mi_graph k ! n = []" using k by auto
      then show ?thesis using bspec [OF 1(9) n] unfolding Let_def c by simp
    qed
    then show ?thesis using 1(3-8) unfolding c by blast
  qed
qed

text \<open>C7: A consolidation after deletions returns the number of tagged points, keeps every vector, gives the deleted
  locations to the free ones, and leaves no list of a point that stays (or of the frozen one) with a deleted neighbor.\<close>

theorem consolidate_deletes_correct:
  assumes "mem_ok cf mi" "params_ok cf" "order_ok en" "mi_delete_set mi \<inter> mi_empty_slots mi = {}" "mi_compacted mi \<or> mi_delete_set mi \<noteq> {}"
  shows "\<exists>mi'. consolidate_deletes en cf mi = Inr (card (dom (vec_of mi)), mi') \<and> mem_ok cf mi' \<and> vec_of mi' = vec_of mi \<and>
    mi_delete_set mi \<subseteq> mi_empty_slots mi' \<and>
    (\<forall>l \<in> insert (mi_max_points mi) (dom (mi_loc2tag mi)). set (mi_graph mi' ! l) \<inter> mi_delete_set mi = {})"
proof -
  from consolidate_deletes_spec [OF assms] obtain m where
    m: "consolidate_deletes en cf mi = Inr (card (dom (vec_of mi)), m)" "mem_ok cf m" "vec_of m = vec_of mi" "mi_delete_set m \<subseteq> mi_empty_slots m"
      "mi_loc2tag m = mi_loc2tag mi" "mi_max_points m = mi_max_points mi" "mi_delete_set m = mi_delete_set mi" by blast
  have k: "kept m = insert (mi_max_points mi) (dom (mi_loc2tag mi))" by (simp add: kept_def m)
  have u: "insert (mi_max_points m) (mem_occ m) = kept m" using keptD(2) [OF m(2)] m(4) by blast
  have "set (mi_graph m ! l) \<subseteq> kept m" if "l \<in> kept m" for l using m(2) that unfolding mem_ok_def lists_ok_def u by blast
  then have "set (mi_graph m ! l) \<inter> mi_delete_set mi = {}" if "l \<in> kept m" for l using keptD(1) [OF m(2)] m(7) that by blast
  then show ?thesis using m unfolding k by (intro exI [of _ m]) simp
qed

text \<open>An index whose point \<^verbatim>\<open>4\<close> was deleted.\<close>

definition ex_deleted :: mem_index where
  "ex_deleted = ex_index\<lparr>mi_nd := 2, mi_tag2loc := [5 \<mapsto> 1], mi_loc2tag := [1 \<mapsto> 5], mi_delete_set := {0}, mi_empty_slots := {},
     mi_lazy_done := True, mi_graph := [[1, 2], [0, 2], [0, 1]]\<rparr>"

lemma ex_deleted_ok: "mem_ok ex_cfg ex_deleted"
proof -
  have f: "mi_delete_set ex_deleted = {0}" "mi_empty_slots ex_deleted = {}" "mi_loc2tag ex_deleted = [1 \<mapsto> 5]" "mi_tag2loc ex_deleted = [5 \<mapsto> 1]"
    "mi_nd ex_deleted = 2" "mi_max_points ex_deleted = 2" "mi_compacted ex_deleted" "mi_graph ex_deleted = [[1, 2], [0, 2], [0, 1]]"
    by (simp_all add: ex_deleted_def ex_ok)
  have occ: "mem_occ ex_deleted = {0, 1}" by (simp add: mem_occ_def f insert_commute)
  have two: "{..<2 :: nat} = {0, 1}" by auto
  have "slots_ok ex_deleted" unfolding slots_ok_def occ f two by auto
  moreover have "shape_ok ex_deleted"
  proof -
    have "shape_ok ex_index" using ex_ok(7) by (simp add: mem_ok_def)
    then have "length (mi_data ex_deleted) = 3" "mi_num_frozen ex_deleted = 1" "mi_dynamic ex_deleted" "mi_enable_tags ex_deleted" "\<not> mi_eager_done ex_deleted"
      "mi_ep ex_deleted = 2" unfolding shape_ok_def by (simp_all add: ex_deleted_def ex_ok(9))
    moreover have "i \<le> 2 \<longleftrightarrow> i = 0 \<or> i = 1 \<or> i = 2" for i :: nat by auto
    ultimately show ?thesis unfolding shape_ok_def f by simp
  qed
  moreover have "lists_ok ex_cfg {} ex_deleted" unfolding lists_ok_def occ f by (simp add: nbrs_ok_def ex_cfg_def slack_range_def)
  ultimately show ?thesis by (simp add: mem_ok_def)
qed

theorem consolidate_deletes_correct_witness:
  "\<exists>mi'. consolidate_deletes ex_env ex_cfg ex_deleted = Inr (card (dom (vec_of ex_deleted)), mi') \<and> mem_ok ex_cfg mi' \<and> vec_of mi' = vec_of ex_deleted \<and>
    mi_delete_set ex_deleted \<subseteq> mi_empty_slots mi' \<and>
    (\<forall>l \<in> insert (mi_max_points ex_deleted) (dom (mi_loc2tag ex_deleted)). set (mi_graph mi' ! l) \<inter> mi_delete_set ex_deleted = {})"
  by (rule consolidate_deletes_correct [OF ex_deleted_ok ex_ok(1,5)]) (simp_all add: ex_deleted_def)

text \<open>C8: A compaction after a consolidation closes the gaps: every tag keeps its vector and its neighbors, in
  their order and by their tags, and so does the frozen point; the points fill the first locations.\<close>

theorem compact_data_keeps_graph:
  assumes "mem_ok cf mi" "mi_delete_set mi \<subseteq> mi_empty_slots mi" "mi_lazy_done mi" "\<not> mi_compacted mi"
  shows "\<exists>mi'. compact_data mi = Inr mi' \<and> mem_ok cf mi' \<and> vec_of mi' = vec_of mi \<and> tag_lists mi' = tag_lists mi \<and>
    nbr_tags mi' (mi_ep mi') = nbr_tags mi (mi_ep mi) \<and> mi_compacted mi' \<and> mem_occ mi' = {..<card (dom (vec_of mi))}"
  using compact_data_spec [OF assms] by blast

text \<open>An index whose first location is free.\<close>

definition ex_gap :: mem_index where
  "ex_gap = ex_deleted\<lparr>mi_nd := 1, mi_empty_slots := {0}, mi_compacted := False, mi_graph := [[], [2], [1]]\<rparr>"

lemma ex_gap_ok: "mem_ok ex_cfg ex_gap" "mem_ok ex_cfg (ex_gap\<lparr>mi_delete_set := {}\<rparr>)"
proof -
  have f: "mi_empty_slots ex_gap = {0}" "mi_loc2tag ex_gap = [1 \<mapsto> 5]" "mi_tag2loc ex_gap = [5 \<mapsto> 1]" "mi_delete_set ex_gap = {0}"
    "mi_nd ex_gap = 1" "mi_max_points ex_gap = 2" "\<not> mi_compacted ex_gap" "mi_graph ex_gap = [[], [2], [1]]"
    by (simp_all add: ex_gap_def ex_deleted_def ex_ok)
  have two: "{..<2 :: nat} = {0, 1}" by auto
  have sh: "shape_ok ex_gap"
  proof -
    have "shape_ok ex_deleted" using ex_deleted_ok by (simp add: mem_ok_def)
    moreover have "mi_max_points ex_deleted = 2" by (simp add: ex_deleted_def ex_ok)
    ultimately have "length (mi_data ex_gap) = 3" "mi_num_frozen ex_gap = 1" "mi_dynamic ex_gap" "mi_enable_tags ex_gap" "\<not> mi_eager_done ex_gap"
      "mi_ep ex_gap = 2" unfolding shape_ok_def by (simp_all add: ex_gap_def)
    moreover have "i \<le> 2 \<longleftrightarrow> i = 0 \<or> i = 1 \<or> i = 2" for i :: nat by auto
    ultimately show ?thesis unfolding shape_ok_def f by simp
  qed
  have occ: "mem_occ ex_gap = {1}" by (simp add: mem_occ_def f)
  have "slots_ok ex_gap" unfolding slots_ok_def occ f(1-6) two using f(7) by auto
  moreover have li: "lists_ok ex_cfg {} ex_gap" unfolding lists_ok_def occ f by (simp add: nbrs_ok_def ex_cfg_def slack_range_def)
  ultimately show "mem_ok ex_cfg ex_gap" using sh by (simp add: mem_ok_def)
  let ?m = "ex_gap\<lparr>mi_delete_set := {}\<rparr>"
  have e: "mi_empty_slots ?m = {0}" "mi_loc2tag ?m = [1 \<mapsto> 5]" "mi_tag2loc ?m = [5 \<mapsto> 1]" "mi_delete_set ?m = {}" "mi_nd ?m = 1" "mi_max_points ?m = 2"
    "\<not> mi_compacted ?m" using f by simp_all
  have occ2: "mem_occ ?m = {1}" by (simp add: mem_occ_def f)
  have "slots_ok ?m" unfolding slots_ok_def occ2 e(1-6) two using e(7) by auto
  moreover have "shape_ok ?m = shape_ok ex_gap" by (simp add: shape_ok_def)
  moreover have "lists_ok ex_cfg {} ?m = lists_ok ex_cfg {} ex_gap" unfolding lists_ok_def occ occ2 by simp
  ultimately show "mem_ok ex_cfg ?m" using sh li by (simp add: mem_ok_def)
qed

theorem compact_data_keeps_graph_witness:
  "\<exists>mi'. compact_data ex_gap = Inr mi' \<and> mem_ok ex_cfg mi' \<and> vec_of mi' = vec_of ex_gap \<and> tag_lists mi' = tag_lists ex_gap \<and>
    nbr_tags mi' (mi_ep mi') = nbr_tags ex_gap (mi_ep ex_gap) \<and> mi_compacted mi' \<and> mem_occ mi' = {..<card (dom (vec_of ex_gap))}"
  by (rule compact_data_keeps_graph [OF ex_gap_ok(1)]) (simp_all add: ex_gap_def ex_deleted_def)

text \<open>C9: The greedy search of the in-memory index ends, and at a fixed point: the nodes of its list are reached from
  the start nodes, sorted, and expanded, and a neighbor of one is in the list or no closer than the last of a full list.\<close>

theorem iterate_to_fixed_point_correct:
  assumes "rows_ok mi" "dist_ok_fn en" "0 < L" "init_ids \<noteq> []" "\<forall>i \<in> set init_ids. i < mi_total mi" "(mi_total mi + 1) * (L + 1) \<le> fuel"
  shows "\<exists>st. iterate_to_fixed_point en fuel mi q L init_ids ret_frozen = Inr st \<and>
    fixed_point (\<lambda>i. me_compare en q (mi_data mi ! i)) mi L init_ids ret_frozen st"
  by (rule iterate_spec [OF assms])

lemma ex_deleted_rows: "rows_ok ex_deleted" "mi_total ex_deleted = 3" "mi_ep ex_deleted = 2"
proof -
  show "rows_ok ex_deleted" using ex_deleted_ok rows_ok_shape by (simp add: mem_ok_def)
  show "mi_total ex_deleted = 3" "mi_ep ex_deleted = 2" by (simp_all add: mi_total_def ex_deleted_def ex_ok)
qed

theorem iterate_to_fixed_point_correct_witness:
  "\<exists>st. iterate_to_fixed_point ex_env 12 ex_deleted [1] 2 [2, 1] True = Inr st \<and>
    fixed_point (\<lambda>i. me_compare ex_env [1] (mi_data ex_deleted ! i)) ex_deleted 2 [2, 1] True st"
  by (rule iterate_to_fixed_point_correct [OF ex_deleted_rows(1) ex_ok(4)]) (simp_all add: ex_deleted_rows)

section \<open>A consolidation without deletions\<close>

lemma consolidate_no_delete:
  assumes ok: "mem_ok cf mi" and cf: "params_ok cf" and en: "order_ok en" and none: "mi_delete_set mi = {}"
  shows "\<exists>mi'. consolidate_deletes en cf mi = Inr (mi_nd mi, mi') \<and> mi_compacted mi' \<and> mi_nd mi' = mi_nd mi \<and> mi_max_points mi' = mi_max_points mi \<and>
    mi_loc2tag mi' = mi_loc2tag mi"
proof -
  have S: "slots_ok mi" and sh: "shape_ok mi" using ok by (simp_all add: mem_ok_def)
  have eager: "\<not> mi_eager_done mi" and tot: "mi_total mi = mi_max_points mi + 1" and M32: "mi_max_points mi < 4294967296"
    using sh unfolding shape_ok_def mi_total_def by auto
  from consolidate_prefix [OF ok cf en, of "mi_max_points mi + 1"] obtain g where
    g: "foldE (consolidate_node en cf) [0..<mi_max_points mi + 1] mi = Inr (mi\<lparr>mi_graph := g\<rparr>)" by blast
  have "mi_nd mi < 4294967296" using occ_split(4) [OF S] M32 by simp
  then have "u64 (mi_nd mi + 18446744073709551616) = mi_nd mi" by (simp add: u64_def)
  then show ?thesis using eager g none by (simp add: consolidate_deletes_def tot Let_def)
qed

text \<open>C28: A consolidation that finds no deletion declares the index compacted even when it has gaps; the next
  location reserved is then the one after the count of points, also when a point with a tag is there.\<close>

theorem consolidation_hands_out_used_location:
  assumes "mem_ok cf mi" "params_ok cf" "order_ok en" "mi_delete_set mi = {}" "mi_nd mi < mi_max_points mi" "mi_tag2loc mi tag = Some (mi_nd mi)"
  shows "\<exists>n mi' mi''. consolidate_deletes en cf mi = Inr (n, mi') \<and> reserve_location en mi' = Inr (Some (mi_nd mi), mi'') \<and> mi_loc2tag mi'' (mi_nd mi) = Some tag"
proof -
  from consolidate_no_delete [OF assms(1-4)] obtain m where
    m: "consolidate_deletes en cf mi = Inr (mi_nd mi, m)" "mi_compacted m" "mi_nd m = mi_nd mi" "mi_max_points m = mi_max_points mi" "mi_loc2tag m = mi_loc2tag mi" by blast
  have "slots_ok mi" using assms(1) by (simp add: mem_ok_def)
  then have "mi_loc2tag mi (mi_nd mi) = Some tag" using slots_okD(1) assms(6) by blast
  then show ?thesis using m assms(5) by (simp add: reserve_location_def)
qed

theorem consolidation_hands_out_used_location_witness:
  "\<exists>n mi' mi''. consolidate_deletes ex_env ex_cfg (ex_gap\<lparr>mi_delete_set := {}\<rparr>) = Inr (n, mi') \<and>
    reserve_location ex_env mi' = Inr (Some (mi_nd (ex_gap\<lparr>mi_delete_set := {}\<rparr>)), mi'') \<and> mi_loc2tag mi'' (mi_nd (ex_gap\<lparr>mi_delete_set := {}\<rparr>)) = Some 5"
  by (rule consolidation_hands_out_used_location [OF ex_gap_ok(2) ex_ok(1,5)]) (simp_all add: ex_gap_def ex_deleted_def ex_ok)

end
