(* ===== verification/Cached_IO.thy ===== *)
theory Cached_IO
  imports Index_File
begin

text \<open>
  The buffered streams of \<^verbatim>\<open>include/cached_io.h\<close>: \<^verbatim>\<open>cached_ifstream\<close>, which reads ahead of its caller, and
  \<^verbatim>\<open>cached_ofstream\<close>, which writes behind it; both shown to be plain streams.  A file that is read is its
  bytes.  Reading past the end of the file crashes, opening is taken to succeed.
\<close>

section \<open>Reading\<close>

record cin =
  ci_file :: "byte list"
  ci_pos :: nat
  ci_cache_size :: nat
  ci_cache :: "byte list"
  ci_cur_off :: nat

definition cin_open :: "byte list \<Rightarrow> nat \<Rightarrow> nat \<Rightarrow> cin" where
  "cin_open file cacheSize initial_offset =
     (let cacheSize = min cacheSize (u64 (length file + (18446744073709551616 - initial_offset)))
      in \<lparr>ci_file = file, ci_pos = initial_offset + cacheSize, ci_cache_size = cacheSize,
          ci_cache = take cacheSize (drop initial_offset file), ci_cur_off = 0\<rparr>)"

definition cin_read :: "nat \<Rightarrow> cin \<Rightarrow> (byte list \<times> cin) res" where
  "cin_read n_bytes s =
     (let cached_bytes = ci_cache_size s - ci_cur_off s; fsize = length (ci_file s)
      in if n_bytes \<le> cached_bytes
         then Inr (take n_bytes (drop (ci_cur_off s) (ci_cache s)), s\<lparr>ci_cur_off := ci_cur_off s + n_bytes\<rparr>)
         else if fsize - ci_pos s < n_bytes - cached_bytes then Inl Crash
         else let m = n_bytes - cached_bytes;
                  buf = take cached_bytes (drop (ci_cur_off s) (ci_cache s)) @ take m (drop (ci_pos s) (ci_file s));
                  s = s\<lparr>ci_pos := ci_pos s + m, ci_cur_off := ci_cache_size s\<rparr>
         in Inr (buf, if ci_cache_size s \<le> fsize - ci_pos s
              then s\<lparr>ci_cache := take (ci_cache_size s) (drop (ci_pos s) (ci_file s)), ci_pos := ci_pos s + ci_cache_size s, ci_cur_off := 0\<rparr>
              else s))"

text \<open>What a source of bytes promises its reader.\<close>

definition sread :: "nat \<Rightarrow> byte list \<Rightarrow> (byte list \<times> byte list) res" where
  "sread n bs = (if length bs < n then Inl Crash else Inr (take n bs, drop n bs))"

locale byte_source =
  fixes rd :: "nat \<Rightarrow> 's \<Rightarrow> (byte list \<times> 's) res" and rest :: "'s \<Rightarrow> byte list" and inv :: "'s \<Rightarrow> bool"
  assumes rd_enough: "inv s \<Longrightarrow> n \<le> length (rest s) \<Longrightarrow> \<exists>s'. rd n s = Inr (take n (rest s), s') \<and> inv s' \<and> rest s' = drop n (rest s)"
    and rd_short: "inv s \<Longrightarrow> length (rest s) < n \<Longrightarrow> rd n s = Inl Crash"
begin

lemma rd_append: "inv s \<Longrightarrow> rest s = bs @ cs \<Longrightarrow> length bs = n \<Longrightarrow> \<exists>s'. rd n s = Inr (bs, s') \<and> inv s' \<and> rest s' = cs"
  using rd_enough [of s n] by auto

lemma rd_plain: "inv s \<Longrightarrow> (case rd n s of Inl e \<Rightarrow> Inl e | Inr (bs, s') \<Rightarrow> Inr (bs, rest s')) = sread n (rest s)"
  using rd_enough [of s n] rd_short [of s n] by (cases "n \<le> length (rest s)") (auto simp: sread_def)

end

definition cin_rest :: "cin \<Rightarrow> byte list" where
  "cin_rest s = drop (ci_cur_off s) (ci_cache s) @ drop (ci_pos s) (ci_file s)"

definition cin_ok :: "cin \<Rightarrow> bool" where
  "cin_ok s \<longleftrightarrow> ci_cur_off s \<le> ci_cache_size s \<and> length (ci_cache s) = ci_cache_size s \<and> ci_pos s \<le> length (ci_file s)"

lemma cin_open_ok:
  assumes "initial_offset \<le> length file" "length file < 18446744073709551616"
  shows "cin_ok (cin_open file cacheSize initial_offset)" "cin_rest (cin_open file cacheSize initial_offset) = drop initial_offset file"
proof -
  have "u64 (length file + (18446744073709551616 - initial_offset)) = length file - initial_offset"
  proof -
    have "length file + (18446744073709551616 - initial_offset) = (length file - initial_offset) + 18446744073709551616" using assms by simp
    then have "u64 (length file + (18446744073709551616 - initial_offset)) = ((length file - initial_offset) + 18446744073709551616) mod 2 ^ 64"
      by (simp only: u64_def)
    then show ?thesis using assms(2) by simp
  qed
  then have o: "cin_open file cacheSize initial_offset = (let k = min cacheSize (length file - initial_offset) in
      \<lparr>ci_file = file, ci_pos = initial_offset + k, ci_cache_size = k, ci_cache = take k (drop initial_offset file), ci_cur_off = 0\<rparr>)"
    by (simp add: cin_open_def)
  define k where "k = min cacheSize (length file - initial_offset)"
  have k: "k \<le> length file - initial_offset" by (simp add: k_def)
  show "cin_ok (cin_open file cacheSize initial_offset)" using k assms(1) by (simp add: o k_def [symmetric] cin_ok_def Let_def)
  have "take k (drop initial_offset file) @ drop (initial_offset + k) file = drop initial_offset file"
    using append_take_drop_id [of k "drop initial_offset file"] by (simp add: add.commute)
  then show "cin_rest (cin_open file cacheSize initial_offset) = drop initial_offset file" by (simp add: o k_def [symmetric] cin_rest_def Let_def)
qed

lemma cin_read_spec:
  assumes ok: "cin_ok s"
  shows "n \<le> length (cin_rest s) \<Longrightarrow> \<exists>s'. cin_read n s = Inr (take n (cin_rest s), s') \<and> cin_ok s' \<and> cin_rest s' = drop n (cin_rest s)"
    "length (cin_rest s) < n \<Longrightarrow> cin_read n s = Inl Crash"
proof -
  have d: "ci_cur_off s \<le> ci_cache_size s" "length (ci_cache s) = ci_cache_size s" "ci_pos s \<le> length (ci_file s)" using ok by (simp_all add: cin_ok_def)
  have len: "length (cin_rest s) = ci_cache_size s - ci_cur_off s + (length (ci_file s) - ci_pos s)" using d by (simp add: cin_rest_def)
  show "cin_read n s = Inl Crash" if "length (cin_rest s) < n" using that len by (simp add: cin_read_def Let_def)
  show "\<exists>s'. cin_read n s = Inr (take n (cin_rest s), s') \<and> cin_ok s' \<and> cin_rest s' = drop n (cin_rest s)" if n: "n \<le> length (cin_rest s)"
  proof (cases "n \<le> ci_cache_size s - ci_cur_off s")
    case True
    then show ?thesis using d by (simp add: cin_read_def cin_rest_def cin_ok_def add.commute)
  next
    case False
    define m where "m = n - (ci_cache_size s - ci_cur_off s)"
    have m: "m \<le> length (ci_file s) - ci_pos s" "n = ci_cache_size s - ci_cur_off s + m" using False n len by (auto simp: m_def)
    have t: "take n (cin_rest s) = drop (ci_cur_off s) (ci_cache s) @ take m (drop (ci_pos s) (ci_file s))" using d m(2) by (simp add: cin_rest_def)
    have r: "drop n (cin_rest s) = drop (ci_pos s + m) (ci_file s)" using d m(2) by (simp add: cin_rest_def add.commute)
    define s1 where "s1 = s\<lparr>ci_pos := ci_pos s + m, ci_cur_off := ci_cache_size s\<rparr>"
    define s2 where "s2 = (if ci_cache_size s \<le> length (ci_file s) - (ci_pos s + m)
      then s1\<lparr>ci_cache := take (ci_cache_size s) (drop (ci_pos s + m) (ci_file s)), ci_pos := ci_pos s + m + ci_cache_size s, ci_cur_off := 0\<rparr> else s1)"
    have "cin_read n s = Inr (take n (cin_rest s), s2)"
      unfolding t using False m d by (simp add: cin_read_def Let_def m_def [symmetric] s2_def s1_def)
    moreover have "cin_ok s2" using d m(1) by (auto simp: s2_def s1_def cin_ok_def)
    moreover have "cin_rest s2 = drop n (cin_rest s)"
    proof (cases "ci_cache_size s \<le> length (ci_file s) - (ci_pos s + m)")
      case True
      have "take k (drop a xs) @ drop (a + k) xs = drop a xs" for k a :: nat and xs :: "byte list"
        by (metis append_take_drop_id drop_drop add.commute)
      then show ?thesis using True unfolding r by (simp add: s2_def s1_def cin_rest_def)
    next
      case False
      then show ?thesis using d unfolding r by (simp add: s2_def s1_def cin_rest_def)
    qed
    ultimately show ?thesis by blast
  qed
qed

interpretation cached: byte_source cin_read cin_rest cin_ok
  by unfold_locales (rule cin_read_spec, assumption+)+

interpretation plain: byte_source sread "\<lambda>bs. bs" "\<lambda>_. True"
  by unfold_locales (simp_all add: sread_def)

section \<open>Writing\<close>

record cout =
  co_file :: bfile
  co_pos :: nat
  co_cache_size :: nat
  co_cache :: "byte list"

definition owrite :: "byte list \<Rightarrow> cout \<Rightarrow> cout" where
  "owrite bs s = (if bs = [] then s else s\<lparr>co_file := fwrite (co_pos s) bs (co_file s), co_pos := co_pos s + length bs\<rparr>)"

text \<open>The parameter of \<^verbatim>\<open>open\<close> hides the member: a stream opened after its construction has a cache of size zero.\<close>

definition cout_new :: "nat \<Rightarrow> cout" where
  "cout_new cache_size = \<lparr>co_file = empty_file, co_pos = 0, co_cache_size = cache_size, co_cache = []\<rparr>"

definition cout_open :: "bfile \<Rightarrow> nat \<Rightarrow> nat \<Rightarrow> cout \<Rightarrow> cout" where
  "cout_open f cache_size initial_offset s = s\<lparr>co_file := f, co_pos := initial_offset\<rparr>"

definition cout_write :: "byte list \<Rightarrow> cout \<Rightarrow> cout" where
  "cout_write write_buf s =
     (if length write_buf \<le> co_cache_size s - length (co_cache s) then s\<lparr>co_cache := co_cache s @ write_buf\<rparr>
      else (owrite write_buf (owrite (co_cache s) s))\<lparr>co_cache := []\<rparr>)"

definition flush_cache :: "cout \<Rightarrow> cout" where
  "flush_cache s = (owrite (co_cache s) s)\<lparr>co_cache := []\<rparr>"

definition cout_reset :: "cout \<Rightarrow> cout" where
  "cout_reset s = (flush_cache s)\<lparr>co_pos := 0\<rparr>"

definition cout_close :: "cout \<Rightarrow> bfile" where
  "cout_close s = co_file (if co_cache s \<noteq> [] then flush_cache s else s)"

text \<open>What has been written so far, in the file and behind it.\<close>

lemma fwrite_fwrite: "fwrite (off + length as) bs (fwrite off as f) = fwrite off (as @ bs) f"
  by (auto simp: fwrite_def poke_def nth_append fun_eq_iff)

definition cout_view :: "cout \<Rightarrow> bfile" where
  "cout_view s = co_file (owrite (co_cache s) s)"

lemma cout_close_view: "cout_close s = cout_view s"
  by (simp add: cout_close_def cout_view_def flush_cache_def owrite_def)

lemma owrite_owrite: "co_file (owrite bs (owrite as s)) = co_file (owrite (as @ bs) s) \<and> co_pos (owrite bs (owrite as s)) = co_pos s + length as + length bs"
  by (auto simp: owrite_def fwrite_fwrite)

definition cout_end :: "cout \<Rightarrow> nat" where
  "cout_end s = co_pos s + length (co_cache s)"

lemma cout_write_view:
  "cout_view (cout_write bs s) = (if bs = [] then cout_view s else fwrite (cout_end s) bs (cout_view s))" "cout_end (cout_write bs s) = cout_end s + length bs"
proof -
  show "cout_end (cout_write bs s) = cout_end s + length bs" by (simp add: cout_end_def cout_write_def owrite_def)
  have c: "cout_view (s\<lparr>co_cache := as\<rparr>) = co_file (owrite as s)" for as s by (simp add: cout_view_def owrite_def)
  show "cout_view (cout_write bs s) = (if bs = [] then cout_view s else fwrite (cout_end s) bs (cout_view s))"
  proof (cases "bs = []")
    case True
    then show ?thesis by (simp add: cout_write_def)
  next
    case False
    have "cout_view (cout_write bs s) = co_file (owrite (co_cache s @ bs) s)"
      using owrite_owrite [of bs "co_cache s" s] by (simp add: cout_write_def c) (simp add: owrite_def)
    also have "\<dots> = co_file (owrite bs (owrite (co_cache s) s))" using owrite_owrite [of bs "co_cache s" s] by simp
    also have "\<dots> = fwrite (cout_end s) bs (cout_view s)" using False by (simp add: cout_view_def cout_end_def owrite_def)
    finally show ?thesis using False by simp
  qed
qed

lemma cout_writes:
  "cout_view (fold cout_write bss s) = (if concat bss = [] then cout_view s else fwrite (cout_end s) (concat bss) (cout_view s))"
  "cout_end (fold cout_write bss s) = cout_end s + length (concat bss)"
proof (induction bss arbitrary: s)
  case (Cons bs bss)
  { case 1
    show ?case using Cons(1) [of "cout_write bs s"]
      by (cases "concat bss = []") (simp_all del: concat_eq_Nil_conv Nil_eq_concat_conv add: cout_write_view fwrite_fwrite) }
  { case 2
    show ?case using Cons(2) [of "cout_write bs s"] by (simp add: cout_write_view) }
qed simp_all

end
