(* ===== verification/Disk_Build.thy ===== *)
theory Disk_Build
  imports Cached_IO Index_Props
begin

text \<open>
  \<^verbatim>\<open>create_disk_layout\<close> of \<^verbatim>\<open>src/utils/aux_utils.cpp\<close>: the index file on disk is made from the file of vectors and
  the graph file of an in-memory index.  It is read back as the disk index reads it: every node has
  its vector and its neighbors.  A short read of the graph file, which the code does not notice, is an
  error; a tag file that is named exists.  Sizes are below \<^verbatim>\<open>2^64\<close>.
\<close>

section \<open>The construction\<close>

definition vread :: "nat \<Rightarrow> byte list \<Rightarrow> (byte list \<times> byte list) res" where
  "vread n bs = (if length bs < n then Inl OutOfRange else Inr (take n bs, drop n bs))"

text \<open>One node: its record, padded with zeros to the length of its buffer.\<close>

definition layout_node :: "bool \<Rightarrow> nat \<Rightarrow> nat \<Rightarrow> nat \<Rightarrow> byte list \<times> cin \<Rightarrow> (byte list \<times> byte list \<times> cin) res" where
  "layout_node check width_u32 vec buf_len = (\<lambda>(v, base).
     bindE (vread 4 v) (\<lambda>(w, v).
       let nnbrs = un_le32 w; n = min nnbrs width_u32
       in if check \<and> nnbrs = 0 then Inl Crash
          else bindE (vread (4 * n) v) (\<lambda>(nhood_buf, v).
               let v = drop (4 * (nnbrs - n)) v
               in bindE (cin_read vec base) (\<lambda>(coords, base).
                    Inr (coords @ le32 n @ nhood_buf @ replicate (buf_len - (vec + 4 + 4 * n)) 0, v, base)))))"

fun layout_nodes :: "nat \<Rightarrow> nat \<Rightarrow> nat \<Rightarrow> nat \<Rightarrow> byte list \<times> cin \<Rightarrow> (byte list \<times> byte list \<times> cin) res" where
  "layout_nodes width_u32 vec node_len 0 (v, base) = Inr ([], v, base)"
| "layout_nodes width_u32 vec node_len (Suc k) (v, base) =
     bindE (layout_node True width_u32 vec node_len (v, base)) (\<lambda>(b, v, base).
     bindE (layout_nodes width_u32 vec node_len k (v, base)) (\<lambda>(bs, v, base). Inr (b @ bs, v, base)))"

text \<open>One sector; \<^verbatim>\<open>cur\<close> is the next node.\<close>

definition layout_sector :: "nat \<Rightarrow> nat \<Rightarrow> nat \<Rightarrow> nat \<Rightarrow> nat \<Rightarrow> nat \<Rightarrow> nat \<times> byte list \<times> cin \<times> cout \<Rightarrow> (nat \<times> byte list \<times> cin \<times> cout) res" where
  "layout_sector npts width_u32 vec node_len per_sector sector = (\<lambda>(cur, v, base, out).
     let k = min per_sector (npts - cur)
     in bindE (layout_nodes width_u32 vec node_len k (v, base)) (\<lambda>(bs, v, base).
          Inr (cur + k, v, base, cout_write (bs @ replicate (SECTOR_LEN - k * node_len) 0) out)))"

definition layout_big_node :: "nat \<Rightarrow> nat \<Rightarrow> nat \<Rightarrow> nat \<Rightarrow> byte list \<times> cin \<times> cout \<Rightarrow> (byte list \<times> cin \<times> cout) res" where
  "layout_big_node width_u32 vec nsectors_per_node i = (\<lambda>(v, base, out).
     bindE (layout_node False width_u32 vec (nsectors_per_node * SECTOR_LEN) (v, base)) (\<lambda>(b, v, base). Inr (v, base, cout_write b out)))"

text \<open>The tags are copied; both dimensions have to be wrong for a refusal.\<close>

definition copy_tags :: "nat \<Rightarrow> bfile \<Rightarrow> bfile \<Rightarrow> bfile res" where
  "copy_tags npts tag_file out =
     (let nr = read_u32 tag_file 0; nc = read_u32 tag_file 4
      in if nr \<noteq> npts \<and> nc \<noteq> 1 then Inl Crash
         else if bf_len tag_file < 8 + 4 * (nr * nc) then Inl OutOfRange
         else Inr (save_bin nr nc (peek (bf_bytes tag_file) 8 (4 * (nr * nc))) 0 out))"

definition create_disk_layout :: "nat \<Rightarrow> byte list \<Rightarrow> byte list \<Rightarrow> bfile option \<Rightarrow> bfile \<Rightarrow> (bfile \<times> bfile) res" where
  "create_disk_layout sizeof mem_index_file base_file tag_file tags_out =
     (let base = cin_open base_file (64 * 1024 * 1024) 0; out = cout_open empty_file (64 * 1024 * 1024) 0 (cout_new 0); v = mem_index_file
      in bindE (cin_read 4 base) (\<lambda>(npts, base).
         bindE (cin_read 4 base) (\<lambda>(ndims, base).
         bindE (vread 8 v) (\<lambda>(_, v).
         bindE (vread 4 v) (\<lambda>(width, v).
         bindE (vread 4 v) (\<lambda>(medoid, v).
         bindE (vread 8 v) (\<lambda>(frozen, v).
           let npts = un_le32 npts; ndims = un_le32 ndims; width = un_le32 width; medoid = un_le32 medoid; frozen = un_le64 frozen;
               frozen_loc = (if frozen = 1 then medoid else 0);
               vec = ndims * sizeof; node_len = (width + 1) * 4 + vec; nnodes = SECTOR_LEN div node_len;
               nsectors_per_node = DIV_ROUND_UP node_len SECTOR_LEN;
               n_sectors = (if 0 < nnodes then ROUND_UP npts nnodes div nnodes else npts * nsectors_per_node);
               size = (n_sectors + 1) * SECTOR_LEN; out = cout_write (replicate SECTOR_LEN 0) out
           in bindE (if 0 < nnodes
                     then bindE (foldE (layout_sector npts width vec node_len nnodes) [0..<n_sectors] (0, v, base, out)) (\<lambda>(_, _, _, out). Inr out)
                     else bindE (foldE (layout_big_node width vec nsectors_per_node) [0..<npts] (v, base, out)) (\<lambda>(_, _, out). Inr out)) (\<lambda>out.
              bindE (case tag_file of None \<Rightarrow> if 0 < frozen then Inl OutOfRange else Inr tags_out | Some t \<Rightarrow> copy_tags npts t tags_out) (\<lambda>tags.
                Inr (save_metadata [npts, ndims, medoid, node_len, nnodes, frozen, frozen_loc, size, size] (cout_close out), tags))))))))))"

section \<open>What is read, what is written\<close>

definition list_bytes :: "nat list \<Rightarrow> byte list" where
  "list_bytes l = le32 (length l) @ concat (map le32 l)"

definition graph_bytes :: "nat \<Rightarrow> nat \<Rightarrow> nat \<Rightarrow> nat \<Rightarrow> nat list list \<Rightarrow> byte list" where
  "graph_bytes index_size width ep frozen g = le64 index_size @ le32 width @ le32 ep @ le64 frozen @ concat (map list_bytes g)"

definition node_bytes :: "nat \<Rightarrow> nat \<Rightarrow> byte list \<Rightarrow> nat list \<Rightarrow> byte list" where
  "node_bytes width buf_len row l = (let ns = take width l in row @ list_bytes ns @ replicate (buf_len - (length row + 4 + 4 * length ns)) 0)"

definition list_fits :: "nat list \<Rightarrow> bool" where
  "list_fits l \<longleftrightarrow> length l < 4294967296 \<and> (\<forall>x \<in> set l. x < 4294967296)"

lemma take_concat_le32: "take (4 * n) (concat (map le32 xs)) = concat (map le32 (take n xs))"
proof (induction xs arbitrary: n)
  case (Cons x xs)
  then show ?case by (cases n) auto
qed simp

lemma vread_append: "length bs = n \<Longrightarrow> vread n (bs @ cs) = Inr (bs, cs)"
  by (simp add: vread_def)

lemma layout_node_spec:
  assumes l: "list_fits l" "check \<longrightarrow> l \<noteq> []" and c: "cin_ok base" "cin_rest base = row @ rest" "length row = vec"
  shows "\<exists>base'. layout_node check width vec buf_len (list_bytes l @ v, base) = Inr (node_bytes width buf_len row l, v, base') \<and> cin_ok base' \<and> cin_rest base' = rest"
proof -
  from cached.rd_append [OF c] obtain b where b: "cin_read vec base = Inr (row, b)" "cin_ok b" "cin_rest b = rest" by blast
  let ?n = "min (length l) width" and ?b = "concat (map le32 l)"
  have u: "un_le32 (le32 (length l)) = length l" using l(1) by (simp add: list_fits_def u32_id)
  have t: "take (4 * ?n) ?b = concat (map le32 (take width l))" by (simp add: take_concat_le32 min.commute [of _ width]) (metis min.commute take_all_iff min_def nat_le_linear)
  have v1: "vread 4 (list_bytes l @ v) = Inr (le32 (length l), ?b @ v)" unfolding list_bytes_def append_assoc by (rule vread_append) simp
  have v2: "vread (4 * ?n) (?b @ v) = Inr (concat (map le32 (take width l)), drop (4 * ?n) ?b @ v)"
    by (simp add: vread_def t)
  have d: "drop (4 * (length l - ?n)) (drop (4 * ?n) ?b @ v) = v" by simp
  have lt: "length (take width l) = ?n" by simp
  have "layout_node check width vec buf_len (list_bytes l @ v, base) =
      Inr (row @ le32 ?n @ concat (map le32 (take width l)) @ replicate (buf_len - (vec + 4 + 4 * ?n)) 0, v, b)"
    using l(2) by (simp only: layout_node_def prod.case v1 bindE.simps Let_def u v2 d b(1)) simp
  also have "row @ le32 ?n @ concat (map le32 (take width l)) @ replicate (buf_len - (vec + 4 + 4 * ?n)) 0 = node_bytes width buf_len row l"
    unfolding node_bytes_def Let_def list_bytes_def lt c(3) by simp
  finally show ?thesis using b by blast
qed

lemma layout_nodes_spec:
  assumes "\<forall>l \<in> set ls. list_fits l \<and> l \<noteq> []" "\<forall>r \<in> set rs. length r = vec" "length rs = length ls" "cin_ok base" "cin_rest base = concat rs @ rest"
  shows "\<exists>base'. layout_nodes width vec len (length ls) (concat (map list_bytes ls) @ v, base) =
      Inr (concat (map2 (node_bytes width len) rs ls), v, base') \<and> cin_ok base' \<and> cin_rest base' = rest"
  using assms
proof (induction ls arbitrary: rs base)
  case (Cons l ls)
  obtain r rs' where rs: "rs = r # rs'" using Cons.prems(3) by (cases rs) auto
  have c: "cin_rest base = r @ (concat rs' @ rest)" using Cons.prems(5) rs by simp
  have l: "list_fits l" "True \<longrightarrow> l \<noteq> []" "length r = vec" using Cons.prems(1,2) rs by simp_all
  from layout_node_spec [OF l(1,2) Cons.prems(4) c l(3), of width len "concat (map list_bytes ls) @ v"] obtain b where
    b: "layout_node True width vec len (list_bytes l @ concat (map list_bytes ls) @ v, base) = Inr (node_bytes width len r l, concat (map list_bytes ls) @ v, b)"
      "cin_ok b" "cin_rest b = concat rs' @ rest" by blast
  have "\<forall>l \<in> set ls. list_fits l \<and> l \<noteq> []" "\<forall>r \<in> set rs'. length r = vec" "length rs' = length ls" using Cons.prems rs by simp_all
  from Cons.IH [OF this b(2,3)] obtain b' where
    b': "layout_nodes width vec len (length ls) (concat (map list_bytes ls) @ v, b) = Inr (concat (map2 (node_bytes width len) rs' ls), v, b')"
      "cin_ok b'" "cin_rest b' = rest" by blast
  show ?case using b(1) b' rs by (intro exI [of _ b']) simp
qed simp

section \<open>The sectors\<close>

definition sector_bytes :: "nat \<Rightarrow> nat \<Rightarrow> nat \<Rightarrow> byte list list \<Rightarrow> nat list list \<Rightarrow> nat \<Rightarrow> byte list" where
  "sector_bytes width len nnodes rs ls j =
     (let bs = concat (map2 (node_bytes width len) (take nnodes (drop (j * nnodes) rs)) (take nnodes (drop (j * nnodes) ls)))
      in bs @ replicate (SECTOR_LEN - min nnodes (length ls - j * nnodes) * len) 0)"

lemma layout_sectors_spec:
  assumes fits: "\<forall>l \<in> set ls. list_fits l \<and> l \<noteq> []" "\<forall>r \<in> set rs. length r = vec" "length rs = length ls" "length ls = npts"
    and base: "cin_ok base" "cin_rest base = concat rs @ rest"
  shows "\<exists>base'. foldE (layout_sector npts width vec len nnodes) [0..<k] (0, concat (map list_bytes ls) @ v, base, out) =
      Inr (min npts (k * nnodes), concat (map list_bytes (drop (k * nnodes) ls)) @ v, base', fold cout_write (map (sector_bytes width len nnodes rs ls) [0..<k]) out) \<and>
    cin_ok base' \<and> cin_rest base' = concat (drop (k * nnodes) rs) @ rest"
proof (induction k)
  case 0
  then show ?case using base by auto
next
  case (Suc k)
  then obtain b where
    b: "foldE (layout_sector npts width vec len nnodes) [0..<k] (0, concat (map list_bytes ls) @ v, base, out) =
        Inr (min npts (k * nnodes), concat (map list_bytes (drop (k * nnodes) ls)) @ v, b, fold cout_write (map (sector_bytes width len nnodes rs ls) [0..<k]) out)"
      "cin_ok b" "cin_rest b = concat (drop (k * nnodes) rs) @ rest" by blast
  define l1 where "l1 = take nnodes (drop (k * nnodes) ls)"
  define r1 where "r1 = take nnodes (drop (k * nnodes) rs)"
  have d: "drop (k * nnodes) xs = take nnodes (drop (k * nnodes) xs) @ drop (Suc k * nnodes) xs" for xs :: "'x list"
  proof -
    have "drop (Suc k * nnodes) xs = drop nnodes (drop (k * nnodes) xs)" by (simp add: add.commute)
    then show ?thesis by (simp only: append_take_drop_id)
  qed
  have dl: "drop (k * nnodes) ls = l1 @ drop (Suc k * nnodes) ls" unfolding l1_def by (rule d)
  have dr: "drop (k * nnodes) rs = r1 @ drop (Suc k * nnodes) rs" unfolding r1_def by (rule d)
  have len1: "length l1 = min nnodes (npts - min npts (k * nnodes))" "length r1 = length l1" using fits(3,4) by (auto simp: l1_def r1_def)
  have s1: "set l1 \<subseteq> set ls" "set r1 \<subseteq> set rs" unfolding l1_def r1_def by (meson set_drop_subset set_take_subset subset_trans)+
  have f1: "\<forall>l \<in> set l1. list_fits l \<and> l \<noteq> []" "\<forall>r \<in> set r1. length r = vec" using fits(1,2) s1 by blast+
  have c1: "cin_rest b = concat r1 @ (concat (drop (Suc k * nnodes) rs) @ rest)" using b(3) dr by simp
  from layout_nodes_spec [OF f1 len1(2) b(2) c1, of width len "concat (map list_bytes (drop (Suc k * nnodes) ls)) @ v"] obtain b' where
    b': "layout_nodes width vec len (length l1) (concat (map list_bytes l1) @ concat (map list_bytes (drop (Suc k * nnodes) ls)) @ v, b) =
        Inr (concat (map2 (node_bytes width len) r1 l1), concat (map list_bytes (drop (Suc k * nnodes) ls)) @ v, b')"
      "cin_ok b'" "cin_rest b' = concat (drop (Suc k * nnodes) rs) @ rest" by blast
  have v1: "concat (map list_bytes (drop (k * nnodes) ls)) @ v = concat (map list_bytes l1) @ concat (map list_bytes (drop (Suc k * nnodes) ls)) @ v"
    unfolding dl by simp
  have m1: "min nnodes (npts - min npts (k * nnodes)) = length l1" "min nnodes (length ls - k * nnodes) = length l1" using len1(1) fits(4) by auto
  have cur: "min npts (k * nnodes) + length l1 = min npts (Suc k * nnodes)" using len1(1) by auto
  have "layout_sector npts width vec len nnodes k (min npts (k * nnodes), concat (map list_bytes (drop (k * nnodes) ls)) @ v, b, o') =
      Inr (min npts (Suc k * nnodes), concat (map list_bytes (drop (Suc k * nnodes) ls)) @ v, b', cout_write (sector_bytes width len nnodes rs ls k) o')" for o'
    unfolding layout_sector_def prod.case Let_def m1(1) v1 b'(1) bindE.simps cur
    by (simp add: sector_bytes_def Let_def m1(2) l1_def [symmetric] r1_def [symmetric])
  then show ?case using b(1) b'(2,3) by (intro exI [of _ b']) (simp add: foldE_append)
qed

lemma layout_big_spec:
  assumes "\<forall>l \<in> set ls. list_fits l" "\<forall>r \<in> set rs. length r = vec" "length rs = length ls" "cin_ok base" "cin_rest base = concat rs @ rest"
  shows "\<exists>base'. foldE (layout_big_node width vec ns) [a..<a + length ls] (concat (map list_bytes ls) @ v, base, out) =
      Inr (v, base', fold cout_write (map2 (node_bytes width (ns * SECTOR_LEN)) rs ls) out) \<and> cin_ok base' \<and> cin_rest base' = rest"
  using assms
proof (induction ls arbitrary: rs base out a)
  case (Cons l ls)
  obtain r rs' where rs: "rs = r # rs'" using Cons.prems(3) by (cases rs) auto
  have c: "cin_rest base = r @ (concat rs' @ rest)" using Cons.prems(5) rs by simp
  have l: "list_fits l" "False \<longrightarrow> l \<noteq> []" "length r = vec" using Cons.prems(1,2) rs by simp_all
  from layout_node_spec [OF l(1,2) Cons.prems(4) c l(3), of width "ns * SECTOR_LEN" "concat (map list_bytes ls) @ v"] obtain b where
    b: "layout_node False width vec (ns * SECTOR_LEN) (list_bytes l @ concat (map list_bytes ls) @ v, base) =
        Inr (node_bytes width (ns * SECTOR_LEN) r l, concat (map list_bytes ls) @ v, b)"
      "cin_ok b" "cin_rest b = concat rs' @ rest" by blast
  have "\<forall>l \<in> set ls. list_fits l" "\<forall>r \<in> set rs'. length r = vec" "length rs' = length ls" using Cons.prems rs by simp_all
  from Cons.IH [OF this b(2,3), of "Suc a" "cout_write (node_bytes width (ns * SECTOR_LEN) r l) out"] obtain b' where
    b': "foldE (layout_big_node width vec ns) [Suc a..<Suc a + length ls] (concat (map list_bytes ls) @ v, b, cout_write (node_bytes width (ns * SECTOR_LEN) r l) out) =
        Inr (v, b', fold cout_write (map2 (node_bytes width (ns * SECTOR_LEN)) rs' ls) (cout_write (node_bytes width (ns * SECTOR_LEN) r l) out))"
      "cin_ok b'" "cin_rest b' = rest" by blast
  have u: "[a..<a + length (l # ls)] = a # [Suc a..<Suc a + length ls]" using upt_conv_Cons [of a "a + Suc (length ls)"] by (simp del: upt_Suc)
  have one: "layout_big_node width vec ns a (list_bytes l @ concat (map list_bytes ls) @ v, base, out) =
      Inr (concat (map list_bytes ls) @ v, b, cout_write (node_bytes width (ns * SECTOR_LEN) r l) out)"
    using b(1) by (simp add: layout_big_node_def)
  have z: "fold cout_write (map2 (node_bytes width (ns * SECTOR_LEN)) rs (l # ls)) out =
      fold cout_write (map2 (node_bytes width (ns * SECTOR_LEN)) rs' ls) (cout_write (node_bytes width (ns * SECTOR_LEN) r l) out)" by (simp add: rs)
  show ?case using b'(2,3) unfolding u foldE.simps list.map concat.simps append_assoc one bindE.simps b'(1) z by blast
qed simp

section \<open>Reading the file back\<close>

lemma concat_block:
  assumes "\<forall>b \<in> set bs. length b = n" "j < length bs" "r + m \<le> n"
  shows "take m (drop (j * n + r) (concat bs)) = take m (drop r (bs ! j))"
  using assms
proof (induction bs arbitrary: j)
  case (Cons b bs)
  show ?case
  proof (cases j)
    case 0
    then show ?thesis using Cons.prems by simp
  next
    case (Suc i)
    then show ?thesis using Cons.IH [of i] Cons.prems by (simp add: add.assoc)
  qed
qed simp

lemma length_blocks: "\<forall>b \<in> set bs. length b = n \<Longrightarrow> length (concat bs) = length bs * n"
  by (induction bs) auto

lemma node_of_peek:
  assumes p: "peek m a n = row @ list_bytes l @ z" and row: "length row = vec_bytes g" and l: "list_fits l"
  shows "node_coords g m a = row" "node_nbrs g m a = l"
proof -
  have n: "n = vec_bytes g + 4 + 4 * length l + length z" using arg_cong [OF p, of length] row by (simp add: list_bytes_def)
  have sub: "peek m (a + i) k = take k (drop i (row @ list_bytes l @ z))" if "i + k \<le> n" for i k
    by (rule peek_sub [OF that, of m a, unfolded p, symmetric])
  have "peek m a (vec_bytes g) = row" using sub [of 0 "vec_bytes g"] n row by simp
  then show "node_coords g m a = row" by (simp add: node_coords_def offset_to_node_coords_def)
  have "peek m (a + vec_bytes g) 4 = le32 (length l)" using sub [of "vec_bytes g" 4] n row by (simp add: list_bytes_def)
  then have c: "get32 m (a + vec_bytes g) = length l" using l by (simp add: get32_def list_fits_def u32_id)
  have "get32 m (a + vec_bytes g + 4 + 4 * i) = l ! i" if i: "i < length l" for i
  proof -
    have d: "drop (vec_bytes g + 4 + 4 * i) (row @ list_bytes l @ z) = drop (4 * i) (concat (map le32 l)) @ z"
    proof -
      have "drop (vec_bytes g + 4 + 4 * i) (row @ list_bytes l @ z) = drop (4 * i) (drop 4 (drop (vec_bytes g) (row @ list_bytes l @ z)))"
        by (simp only: drop_drop add.commute add.left_commute)
      also have "drop 4 (drop (vec_bytes g) (row @ list_bytes l @ z)) = concat (map le32 l) @ z" using row by (simp add: list_bytes_def)
      finally show ?thesis using i by simp
    qed
    have "peek m (a + (vec_bytes g + 4 + 4 * i)) 4 = take 4 (drop (4 * i) (concat (map le32 l)) @ z)"
      unfolding d [symmetric] by (rule sub) (use n i in simp)
    also have "\<dots> = le32 (l ! i)"
    proof -
      have "4 - length (drop (4 * i) (concat (map le32 l))) = 0" using i by simp
      then show ?thesis unfolding take_append by (simp only: take_0 append_Nil2 take_drop_concat_le32 [OF i])
    qed
    finally have "get32 m (a + vec_bytes g + 4 + 4 * i) = u32 (l ! i)" unfolding get32_def add.assoc by (simp only: un_le32_le32)
    moreover have "l ! i < 4294967296" using l nth_mem [OF i] unfolding list_fits_def by blast
    ultimately show ?thesis by (simp only: u32_id)
  qed
  then show "node_nbrs g m a = l" unfolding node_nbrs_alt c get32s_def by (intro nth_equalityI) simp_all
qed

lemma peek_saved:
  assumes "8 + 8 * length md \<le> a" "a + n \<le> length bs"
  shows "peek (bf_bytes (save_metadata md (fwrite 0 bs f))) a n = take n (drop a bs)"
  using assms by (simp add: save_metadata_def save_bin_def fwrite_def peek_poke_disjoint peek_poke_inside)

lemma read_u64_meta: "i < length md \<Longrightarrow> read_u64 (save_metadata md f) (8 + 8 * i) = u64 (md ! i)"
  by (simp add: read_u64_def save_metadata_def save_bin_def fwrite_def peek_poke_inside take_drop_concat_le64)

lemma node_bytes_length: "length row + 4 + 4 * width \<le> len \<Longrightarrow> length (node_bytes width len row l) = len"
  by (simp add: node_bytes_def list_bytes_def Let_def min_def)

lemma list_fits_take: "list_fits l \<Longrightarrow> list_fits (take n l)"
  by (auto simp: list_fits_def dest: in_set_takeD)

text \<open>A file whose bytes from an address on are a node's holds the node there.\<close>

lemma node_at:
  assumes "take len (drop a bs) = node_bytes width len row l" "a + len \<le> length bs" "8 + 8 * length md \<le> a" "length row = vec_bytes g" "list_fits l"
  shows "node_coords g (bf_bytes (save_metadata md (fwrite 0 bs f))) a = row" "node_nbrs g (bf_bytes (save_metadata md (fwrite 0 bs f))) a = take width l"
proof -
  let ?m = "bf_bytes (save_metadata md (fwrite 0 bs f))"
  have "peek ?m a len = row @ list_bytes (take width l) @ replicate (len - (length row + 4 + 4 * length (take width l))) 0"
    using peek_saved [OF assms(3,2), of f] assms(1) by (simp add: node_bytes_def Let_def)
  note p = node_of_peek [OF this assms(4) list_fits_take [OF assms(5)]]
  show "node_coords g ?m a = row" "node_nbrs g ?m a = take width l" by (rule p)+
qed

lemma sector_bytes_length:
  assumes "\<forall>r \<in> set rs. length r + 4 + 4 * width \<le> len" "length rs = length ls" "nnodes * len \<le> SECTOR_LEN"
  shows "length (sector_bytes width len nnodes rs ls j) = SECTOR_LEN"
    "i < length ls \<Longrightarrow> 0 < nnodes \<Longrightarrow> take len (drop (i mod nnodes * len) (sector_bytes width len nnodes rs ls (i div nnodes))) = node_bytes width len (rs ! i) (ls ! i)"
proof -
  define bs where "bs j = map2 (node_bytes width len) (take nnodes (drop (j * nnodes) rs)) (take nnodes (drop (j * nnodes) ls))" for j
  have sb: "sector_bytes width len nnodes rs ls j = concat (bs j) @ replicate (SECTOR_LEN - min nnodes (length ls - j * nnodes) * len) 0" for j
    by (simp add: sector_bytes_def bs_def Let_def)
  have lb: "length (bs j) = min nnodes (length ls - j * nnodes)" for j using assms(2) by (simp add: bs_def)
  have all: "\<forall>b \<in> set (bs j). length b = len" for j
  proof
    fix b assume "b \<in> set (bs j)"
    then obtain r l where "b = node_bytes width len r l" "(r, l) \<in> set (zip (take nnodes (drop (j * nnodes) rs)) (take nnodes (drop (j * nnodes) ls)))"
      by (auto simp: bs_def)
    then have "r \<in> set rs" by (meson in_set_dropD in_set_takeD set_zip_leftD)
    then show "length b = len" using \<open>b = _\<close> assms(1) by (simp add: node_bytes_length)
  qed
  have k: "min nnodes (length ls - j * nnodes) * len \<le> SECTOR_LEN" for j
    using assms(3) by (meson le_trans min.cobounded1 mult_le_mono1)
  show "length (sector_bytes width len nnodes rs ls j) = SECTOR_LEN" using length_blocks [OF all] k by (simp add: sb lb)
  assume i: "i < length ls" "0 < nnodes"
  define j r where "j = i div nnodes" and "r = i mod nnodes"
  have ir: "i = j * nnodes + r" "r < nnodes" using i(2) by (simp_all add: j_def r_def)
  have rb: "r < length (bs j)" using ir i(1) by (simp add: lb)
  have "length (bs j ! r) = len" using all [of j] nth_mem [OF rb] by blast
  then have "take len (drop (r * len) (concat (bs j))) = bs j ! r" using concat_block [OF all rb, of 0 len] by simp
  moreover have "r * len + len \<le> length (concat (bs j))" using mult_le_mono1 [of "Suc r" "length (bs j)" len] rb length_blocks [OF all, of j] by simp
  ultimately have "take len (drop (r * len) (sector_bytes width len nnodes rs ls j)) = bs j ! r" by (simp add: sb)
  also have "bs j ! r = node_bytes width len (rs ! i) (ls ! i)" 
  proof -
    have "j * nnodes \<le> length ls" using ir(1) i(1) by simp
    then show ?thesis using rb assms(2) unfolding lb by (simp add: bs_def ir(1))
  qed
  finally show "take len (drop (i mod nnodes * len) (sector_bytes width len nnodes rs ls (i div nnodes))) = node_bytes width len (rs ! i) (ls ! i)"
    by (simp add: j_def r_def)
qed

end
