(* ===== verification/Disk_Correct.thy ===== *)
theory Disk_Correct
  imports Disk_Build
begin

text \<open>The file \<^verbatim>\<open>create_disk_layout\<close> makes holds every node where the disk index looks for it.\<close>

text \<open>The geometry of the new index, as the header states it.\<close>

definition built_geom :: "nat \<Rightarrow> nat \<Rightarrow> nat \<Rightarrow> geom" where
  "built_geom width ndims sizeof =
     (let len = (width + 1) * 4 + ndims * sizeof
      in \<lparr>max_node_len = len, nnodes_per_sector = SECTOR_LEN div len, data_dim = ndims, sizeof_T = sizeof\<rparr>)"

definition node_address :: "geom \<Rightarrow> nat \<Rightarrow> nat" where
  "node_address g i = offset_to_loc g (SECTOR_LEN * loc_sector_no g i) i"

definition built_tags :: "nat \<Rightarrow> nat \<Rightarrow> bfile option \<Rightarrow> bfile \<Rightarrow> bfile res" where
  "built_tags npts frozen tag_file tags_out =
     (case tag_file of None \<Rightarrow> if 0 < frozen then Inl OutOfRange else Inr tags_out | Some t \<Rightarrow> copy_tags npts t tags_out)"

lemma built_file: "cout_close (fold cout_write bss (cout_write (replicate SECTOR_LEN 0) (cout_open empty_file c 0 (cout_new k)))) =
    fwrite 0 (replicate SECTOR_LEN 0 @ concat bss) empty_file"
proof -
  let ?o = "cout_open empty_file c 0 (cout_new k)"
  have "fold cout_write bss (cout_write (replicate SECTOR_LEN 0) ?o) = fold cout_write (replicate SECTOR_LEN 0 # bss) ?o" by simp
  moreover have "cout_view ?o = empty_file" "cout_end ?o = 0" by (simp_all add: cout_view_def cout_end_def cout_open_def cout_new_def owrite_def)
  moreover have "concat (replicate SECTOR_LEN 0 # bss) \<noteq> []" by (simp add: SECTOR_LEN_def)
  ultimately show ?thesis unfolding cout_close_view using cout_writes(1) [of "replicate SECTOR_LEN 0 # bss" ?o] by simp
qed

text \<open>The inputs: a file of vectors, a graph file.\<close>

definition inputs_ok :: "nat \<Rightarrow> nat \<Rightarrow> nat \<Rightarrow> nat \<Rightarrow> nat \<Rightarrow> nat \<Rightarrow> byte list list \<Rightarrow> nat list list \<Rightarrow> bool" where
  "inputs_ok sizeof npts ndims width medoid frozen rs ls \<longleftrightarrow>
     npts < 4294967296 \<and> ndims < 4294967296 \<and> width < 4294967296 \<and> medoid < 4294967296 \<and> frozen < 18446744073709551616 \<and>
     length rs = npts \<and> length ls = npts \<and> (\<forall>r \<in> set rs. length r = ndims * sizeof) \<and> (\<forall>l \<in> set ls. list_fits l \<and> l \<noteq> []) \<and>
     (npts + 2) * ((width + 1) * 4 + ndims * sizeof) < 18446744073709551616"

definition built_meta :: "nat \<Rightarrow> nat \<Rightarrow> nat \<Rightarrow> nat \<Rightarrow> nat \<Rightarrow> nat \<Rightarrow> nat list" where
  "built_meta sizeof npts ndims width medoid frozen =
     (let g = built_geom width ndims sizeof; len = max_node_len g; nnodes = nnodes_per_sector g;
          n = (if 0 < nnodes then ROUND_UP npts nnodes div nnodes else npts * DIV_ROUND_UP len SECTOR_LEN); size = (n + 1) * SECTOR_LEN
      in [npts, ndims, medoid, len, nnodes, frozen, if frozen = 1 then medoid else 0, size, size])"

lemma div_round_up_le: "0 < n \<Longrightarrow> DIV_ROUND_UP n SECTOR_LEN \<le> n"
proof -
  assume n: "0 < n"
  have "n div 4096 * 4096 + n mod 4096 = n" by simp
  then have "n div 4096 + (if n mod 4096 \<noteq> 0 then 1 else 0) \<le> n" using n by (auto split: if_splits)
  then show ?thesis by (simp add: DIV_ROUND_UP_def SECTOR_LEN_def)
qed

lemma div_round_up_covers: "n \<le> DIV_ROUND_UP n SECTOR_LEN * SECTOR_LEN"
proof -
  define q r where "q = n div SECTOR_LEN" and "r = n mod SECTOR_LEN"
  have "n = q * SECTOR_LEN + r" "r < SECTOR_LEN" unfolding q_def r_def by (simp_all add: SECTOR_LEN_def)
  then show ?thesis unfolding DIV_ROUND_UP_def q_def [symmetric] r_def [symmetric] by (cases "r = 0") auto
qed

lemma round_up_covers: "i < npts \<Longrightarrow> 0 < n \<Longrightarrow> i div n < ROUND_UP npts n div n"
proof -
  assume i: "i < npts" and n: "0 < n"
  have "i div n < npts div n + (if npts mod n \<noteq> 0 then 1 else 0)"
  proof (cases "npts mod n = 0")
    case True
    have "i div n * n \<le> i" by simp
    also have "i < npts div n * n" using True i by (metis add_0_right div_mult_mod_eq)
    finally show ?thesis using True by simp
  next
    case False
    have "i div n \<le> npts div n" using i by (simp add: div_le_mono)
    then show ?thesis using False by simp
  qed
  then show ?thesis using n by (simp add: ROUND_UP_def)
qed

lemma create_disk_layout_spec:
  assumes ok: "inputs_ok sizeof npts ndims width medoid frozen rs ls"
    and base: "base_file = le32 npts @ le32 ndims @ concat rs @ rest" "length base_file < 18446744073709551616"
    and tags: "built_tags npts frozen tag_file tags_out = Inr tags"
  shows "\<exists>bs. create_disk_layout sizeof (graph_bytes index_size width medoid frozen ls @ tl0) base_file tag_file tags_out =
      Inr (save_metadata (built_meta sizeof npts ndims width medoid frozen) (fwrite 0 bs empty_file), tags) \<and>
    (\<forall>i < npts. let g = built_geom width ndims sizeof; len = max_node_len g; a = node_address g i in
       4096 \<le> a \<and> a + len \<le> length bs \<and> take len (drop a bs) = node_bytes width len (rs ! i) (ls ! i))"
proof -
  note I = ok [unfolded inputs_ok_def]
  let ?g = "built_geom width ndims sizeof"
  define vec where "vec = ndims * sizeof"
  define len where "len = (width + 1) * 4 + vec"
  define nn where "nn = SECTOR_LEN div len"
  define ns where "ns = DIV_ROUND_UP len SECTOR_LEN"
  have g: "max_node_len ?g = len" "nnodes_per_sector ?g = nn" by (simp_all add: built_geom_def len_def vec_def nn_def Let_def)
  have fit: "\<forall>r \<in> set rs. length r = vec" "\<forall>l \<in> set ls. list_fits l \<and> l \<noteq> []" "length rs = length ls" "length ls = npts" using I by (simp_all add: vec_def)
  have room: "\<forall>r \<in> set rs. length r + 4 + 4 * width \<le> len" using fit(1) by (simp add: len_def)
  have l0: "0 < len" by (simp add: len_def)
  have b0: "cin_ok (cin_open base_file (64 * 1024 * 1024) 0)" "cin_rest (cin_open base_file (64 * 1024 * 1024) 0) = le32 npts @ (le32 ndims @ concat rs @ rest)"
    using cin_open_ok [of 0 base_file] base by simp_all
  from cached.rd_append [OF b0, of 4] obtain b1 where
    b1: "cin_read 4 (cin_open base_file (64 * 1024 * 1024) 0) = Inr (le32 npts, b1)" "cin_ok b1" "cin_rest b1 = le32 ndims @ (concat rs @ rest)" by auto
  from cached.rd_append [OF b1(2,3), of 4] obtain b2 where b2: "cin_read 4 b1 = Inr (le32 ndims, b2)" "cin_ok b2" "cin_rest b2 = concat rs @ rest" by auto
  have v: "vread 8 (graph_bytes index_size width medoid frozen ls @ tl0) = Inr (le64 index_size, le32 width @ le32 medoid @ le64 frozen @ concat (map list_bytes ls) @ tl0)"
    "vread 4 (le32 width @ le32 medoid @ le64 frozen @ concat (map list_bytes ls) @ tl0) = Inr (le32 width, le32 medoid @ le64 frozen @ concat (map list_bytes ls) @ tl0)"
    "vread 4 (le32 medoid @ le64 frozen @ concat (map list_bytes ls) @ tl0) = Inr (le32 medoid, le64 frozen @ concat (map list_bytes ls) @ tl0)"
    "vread 8 (le64 frozen @ concat (map list_bytes ls) @ tl0) = Inr (le64 frozen, concat (map list_bytes ls) @ tl0)"
    unfolding graph_bytes_def append_assoc by (simp_all add: vread_append)
  have u: "un_le32 (le32 npts) = npts" "un_le32 (le32 ndims) = ndims" "un_le32 (le32 width) = width" "un_le32 (le32 medoid) = medoid" "un_le64 (le64 frozen) = frozen"
    using I by (simp_all add: u32_id u64_id)
  define out where "out = cout_write (replicate SECTOR_LEN 0) (cout_open empty_file (64 * 1024 * 1024) 0 (cout_new 0))"
  define n where "n = (if 0 < nn then ROUND_UP npts nn div nn else npts * ns)"
  define bss where "bss = (if 0 < nn then map (sector_bytes width len nn rs ls) [0..<n] else map2 (node_bytes width (ns * SECTOR_LEN)) rs ls)"
  have body: "(if 0 < nn then bindE (foldE (layout_sector npts width vec len nn) [0..<n] (0, concat (map list_bytes ls) @ tl0, b2, out)) (\<lambda>(_, _, _, out). Inr out)
      else bindE (foldE (layout_big_node width vec ns) [0..<npts] (concat (map list_bytes ls) @ tl0, b2, out)) (\<lambda>(_, _, out). Inr out)) = Inr (fold cout_write bss out)"
  proof (cases "0 < nn")
    case True
    from layout_sectors_spec [OF fit(2,1,3,4) b2(2,3), of width len nn n tl0 out] True show ?thesis by (auto simp: bss_def)
  next
    case False
    have f: "\<forall>l \<in> set ls. list_fits l" using fit(2) by blast
    from layout_big_spec [OF f fit(1,3) b2(2,3), of width ns 0 tl0 out] False fit(4) show ?thesis by (auto simp: bss_def)
  qed
  define bs where "bs = replicate SECTOR_LEN 0 @ concat bss"
  have close: "cout_close (fold cout_write bss out) = fwrite 0 bs empty_file" unfolding out_def bs_def by (rule built_file)
  have meta: "[npts, ndims, medoid, len, nn, frozen, if frozen = 1 then medoid else 0, (n + 1) * SECTOR_LEN, (n + 1) * SECTOR_LEN] = built_meta sizeof npts ndims width medoid frozen"
    by (simp add: built_meta_def Let_def g n_def ns_def)
  have "create_disk_layout sizeof (graph_bytes index_size width medoid frozen ls @ tl0) base_file tag_file tags_out =
      Inr (save_metadata (built_meta sizeof npts ndims width medoid frozen) (fwrite 0 bs empty_file), tags)"
    unfolding create_disk_layout_def b1(1) b2(1) v bindE.simps prod.case Let_def u vec_def [symmetric] len_def [symmetric] nn_def [symmetric] ns_def [symmetric]
      n_def [symmetric] out_def [symmetric] body built_tags_def [symmetric] tags close meta ..
  moreover have "4096 \<le> node_address ?g i \<and> node_address ?g i + len \<le> length bs \<and> take len (drop (node_address ?g i) bs) = node_bytes width len (rs ! i) (ls ! i)"
    if i: "i < npts" for i
  proof (cases "0 < nn")
    case True
    have nl: "nn * len \<le> SECTOR_LEN" by (simp add: nn_def)
    note sl = sector_bytes_length [OF room fit(3) nl]
    have j: "i div nn < n" using round_up_covers [OF i True] True by (simp add: n_def)
    have all: "\<forall>b \<in> set bss. length b = SECTOR_LEN" using True sl(1) by (auto simp: bss_def)
    have r: "i mod nn * len + len \<le> SECTOR_LEN"
    proof -
      have "i mod nn * len + len = (i mod nn + 1) * len" by simp
      also have "\<dots> \<le> nn * len" using mod_less_divisor [OF True, of i] by (intro mult_le_mono1) simp
      finally show ?thesis using nl by simp
    qed
    have lb: "length bss = n" using True by (simp add: bss_def)
    have "npts < 4294967296" using I by blast
    moreover have "i div nn \<le> i" by simp
    ultimately have "1 + i div nn < 18446744073709551616" using i by linarith
    then have "u64 (1 + i div nn) = 1 + i div nn" by (rule u64_id)
    then have a: "node_address ?g i = SECTOR_LEN + (i div nn * SECTOR_LEN + i mod nn * len)"
      using True by (simp add: node_address_def offset_to_loc_def loc_sector_no_def g algebra_simps)
    have "take len (drop (i div nn * SECTOR_LEN + i mod nn * len) (concat bss)) = take len (drop (i mod nn * len) (bss ! (i div nn)))"
      by (rule concat_block [OF all _ r]) (use j lb in simp)
    also have "\<dots> = node_bytes width len (rs ! i) (ls ! i)" using sl(2) [OF _ True, of i] i fit(4) j True by (simp add: bss_def)
    finally have t: "take len (drop (i div nn * SECTOR_LEN + i mod nn * len) (concat bss)) = node_bytes width len (rs ! i) (ls ! i)" .
    have "(i div nn + 1) * SECTOR_LEN \<le> length (concat bss)" unfolding length_blocks [OF all] lb by (rule mult_le_mono1) (use j in simp)
    then have "i div nn * SECTOR_LEN + i mod nn * len + len \<le> length (concat bss)" using r by simp
    then show ?thesis using t unfolding a bs_def by (simp add: SECTOR_LEN_def)
  next
    case False
    have B: "len \<le> ns * SECTOR_LEN" unfolding ns_def by (rule div_round_up_covers)
    have room': "length r + 4 + 4 * width \<le> ns * SECTOR_LEN" if "r \<in> set rs" for r using room that B by (meson le_trans)
    have all: "\<forall>b \<in> set bss. length b = ns * SECTOR_LEN" using False room' by (auto simp: bss_def node_bytes_length dest: set_zip_leftD)
    have lb: "length bss = npts" using False fit(3,4) by (simp add: bss_def)
    have nsl: "ns \<le> len" unfolding ns_def by (rule div_round_up_le [OF l0])
    have "i * ns + 1 \<le> npts * len + 1" using i nsl by (simp add: mult_le_mono)
    also have "\<dots> < 18446744073709551616" using I l0 unfolding len_def [symmetric] vec_def [symmetric] by (simp add: algebra_simps)
    finally have "u64 (1 + u64 (i * ns)) = 1 + i * ns" by (simp add: u64_id)
    then have a: "node_address ?g i = SECTOR_LEN + (i * (ns * SECTOR_LEN) + 0)"
      using False by (simp add: node_address_def offset_to_loc_def loc_sector_no_def g ns_def [symmetric] algebra_simps)
    have "take len (drop (i * (ns * SECTOR_LEN) + 0) (concat bss)) = take len (drop 0 (bss ! i))"
      by (rule concat_block [OF all]) (use i lb B in simp_all)
    also have "drop 0 (bss ! i) = node_bytes width (ns * SECTOR_LEN) (rs ! i) (ls ! i)" using False i fit(3,4) by (simp add: bss_def)
    also have "take len \<dots> = node_bytes width len (rs ! i) (ls ! i)"
    proof -
      have "rs ! i \<in> set rs" using i fit(3,4) by simp
      then have "length (rs ! i) + 4 + 4 * width \<le> len" using room by blast
      then have k: "length (rs ! i) + 4 + 4 * length (take width (ls ! i)) \<le> len" by simp
      show ?thesis unfolding node_bytes_def Let_def list_bytes_def using k B by (simp add: min_def)
    qed
    finally have t: "take len (drop (i * (ns * SECTOR_LEN) + 0) (concat bss)) = node_bytes width len (rs ! i) (ls ! i)" .
    have "(i + 1) * (ns * SECTOR_LEN) \<le> length (concat bss)" unfolding length_blocks [OF all] lb by (rule mult_le_mono1) (use i in simp)
    then have "i * (ns * SECTOR_LEN) + len \<le> length (concat bss)" using B by simp
    then show ?thesis using t unfolding a bs_def by (simp add: SECTOR_LEN_def)
  qed
  ultimately show ?thesis by (intro exI [of _ bs]) (simp add: Let_def g)
qed

section \<open>The file and its reader\<close>

text \<open>The header a reader finds.\<close>

definition built_header :: "nat \<Rightarrow> nat \<Rightarrow> nat \<Rightarrow> nat \<Rightarrow> nat \<Rightarrow> nat \<Rightarrow> index_header" where
  "built_header sizeof npts ndims width medoid frozen =
     (let g = built_geom width ndims sizeof
      in \<lparr>ih_nnodes = npts, ih_ndims = ndims, ih_medoid = medoid, ih_max_node_len = max_node_len g, ih_nnodes_per_sector = nnodes_per_sector g,
          ih_num_frozen = frozen, ih_frozen_id = (if frozen = 1 then medoid else 0)\<rparr>)"

lemma read_header_built:
  assumes "inputs_ok sizeof npts ndims width medoid frozen rs ls"
  shows "read_header (save_metadata (built_meta sizeof npts ndims width medoid frozen) f) = built_header sizeof npts ndims width medoid frozen"
proof -
  note I = assms [unfolded inputs_ok_def]
  define md where "md = built_meta sizeof npts ndims width medoid frozen"
  let ?len = "(width + 1) * 4 + ndims * sizeof"
  have r: "read_u64 (save_metadata md f) (8 + 8 * i) = u64 (md ! i)" if "i < 9" for i
    by (rule read_u64_meta) (use that in \<open>simp add: md_def built_meta_def Let_def\<close>)
  have "1 * ?len \<le> (npts + 2) * ?len" by (rule mult_le_mono1) simp
  moreover have "(npts + 2) * ?len < 18446744073709551616" using I by blast
  ultimately have len: "?len < 18446744073709551616" unfolding mult_1 by (rule le_less_trans)
  have "SECTOR_LEN div ?len \<le> SECTOR_LEN" by (rule div_le_dividend)
  moreover have "SECTOR_LEN < 18446744073709551616" by (simp add: SECTOR_LEN_def)
  ultimately have nn: "SECTOR_LEN div ?len < 18446744073709551616" by (rule le_less_trans)
  have small: "n < 18446744073709551616" if "n < 4294967296" for n :: nat using that by simp
  have "npts < 18446744073709551616" "ndims < 18446744073709551616" "medoid < 18446744073709551616" "frozen < 18446744073709551616"
    using I small by blast+
  note u = this [THEN u64_id] u64_id [OF len] u64_id [OF nn]
  have m: "md ! 0 = npts" "md ! 1 = ndims" "md ! 2 = medoid" "md ! 3 = ?len" "md ! 4 = SECTOR_LEN div ?len" "md ! 5 = frozen" "md ! 6 = (if frozen = 1 then medoid else 0)"
    by (simp_all add: md_def built_meta_def built_geom_def Let_def)
  have w: "u64 (md ! i) = md ! i" if "i \<in> {0, 1, 2, 3, 4, 5, 6}" for i
    using that by (elim insertE emptyE) (simp_all only: m u if_distrib [of u64], simp_all add: u64_def)
  have h: "read_header (save_metadata md f) = \<lparr>ih_nnodes = md ! 0, ih_ndims = md ! 1, ih_medoid = md ! 2, ih_max_node_len = md ! 3,
      ih_nnodes_per_sector = md ! 4, ih_num_frozen = md ! 5, ih_frozen_id = md ! 6\<rparr>"
    using r [of 0] r [of 1] r [of 2] r [of 3] r [of 4] r [of 5] r [of 6] w by (simp add: read_header_def)
  show ?thesis unfolding md_def [symmetric] h m by (simp add: built_header_def built_geom_def Let_def)
qed

text \<open>C23: The index file made from a file of vectors and a graph file has the header that describes them, and every node
  where the disk index looks for it: its vector, and its neighbors up to the width of the graph.\<close>

theorem create_disk_layout_correct:
  assumes "inputs_ok sizeof npts ndims width medoid frozen rs ls"
    and "base_file = le32 npts @ le32 ndims @ concat rs @ rest" "length base_file < 18446744073709551616"
    and "built_tags npts frozen tag_file tags_out = Inr tags"
  shows "\<exists>f. create_disk_layout sizeof (graph_bytes index_size width medoid frozen ls @ tl0) base_file tag_file tags_out = Inr (f, tags) \<and>
    read_header f = built_header sizeof npts ndims width medoid frozen \<and>
    (\<forall>i < npts. let g = built_geom width ndims sizeof; a = node_address g i in
       node_coords g (bf_bytes f) a = rs ! i \<and> node_nbrs g (bf_bytes f) a = take width (ls ! i))"
proof -
  note I = assms(1) [unfolded inputs_ok_def]
  let ?g = "built_geom width ndims sizeof" and ?md = "built_meta sizeof npts ndims width medoid frozen"
  from create_disk_layout_spec [OF assms, of index_size tl0] obtain bs where
    b: "create_disk_layout sizeof (graph_bytes index_size width medoid frozen ls @ tl0) base_file tag_file tags_out = Inr (save_metadata ?md (fwrite 0 bs empty_file), tags)"
      "\<And>i. i < npts \<Longrightarrow> 4096 \<le> node_address ?g i \<and> node_address ?g i + max_node_len ?g \<le> length bs \<and>
         take (max_node_len ?g) (drop (node_address ?g i) bs) = node_bytes width (max_node_len ?g) (rs ! i) (ls ! i)"
    by (auto simp: Let_def)
  have "node_coords ?g (bf_bytes (save_metadata ?md (fwrite 0 bs empty_file))) (node_address ?g i) = rs ! i \<and>
      node_nbrs ?g (bf_bytes (save_metadata ?md (fwrite 0 bs empty_file))) (node_address ?g i) = take width (ls ! i)" if i: "i < npts" for i
  proof -
    have "rs ! i \<in> set rs" "ls ! i \<in> set ls" using I i by simp_all
    then have "length (rs ! i) = ndims * sizeof" "list_fits (ls ! i)" using I by blast+
    then have r: "length (rs ! i) = vec_bytes ?g" "list_fits (ls ! i)" by (simp_all add: vec_bytes_def built_geom_def Let_def)
    have "8 + 8 * length ?md \<le> node_address ?g i" using b(2) [OF i] by (simp add: built_meta_def Let_def)
    from node_at [OF _ _ this r] b(2) [OF i] show ?thesis by blast
  qed
  then show ?thesis using b(1) read_header_built [OF assms(1)] by (intro exI [of _ "save_metadata ?md (fwrite 0 bs empty_file)"]) (simp add: Let_def)
qed

theorem create_disk_layout_correct_witness:
  "\<exists>f. create_disk_layout 1 (graph_bytes 44 2 0 0 [[1], [0]] @ []) (le32 2 @ le32 4 @ concat [[1, 2, 3, 4], [5, 6, 7, 8]] @ []) None empty_file = Inr (f, empty_file) \<and>
    read_header f = \<lparr>ih_nnodes = 2, ih_ndims = 4, ih_medoid = 0, ih_max_node_len = 16, ih_nnodes_per_sector = 256, ih_num_frozen = 0, ih_frozen_id = 0\<rparr> \<and>
    node_coords (built_geom 2 4 1) (bf_bytes f) (node_address (built_geom 2 4 1) 1) = [5, 6, 7, 8] \<and>
    node_nbrs (built_geom 2 4 1) (bf_bytes f) (node_address (built_geom 2 4 1) 1) = [0]"
proof -
  have i: "inputs_ok 1 2 4 2 0 0 [[1, 2, 3, 4], [5, 6, 7, 8]] [[1], [0]]" by (simp add: inputs_ok_def list_fits_def)
  have t: "built_tags 2 0 None empty_file = Inr empty_file" by (simp add: built_tags_def)
  have h: "built_header 1 2 4 2 0 0 = \<lparr>ih_nnodes = 2, ih_ndims = 4, ih_medoid = 0, ih_max_node_len = 16, ih_nnodes_per_sector = 256, ih_num_frozen = 0, ih_frozen_id = 0\<rparr>"
    by (simp add: built_header_def built_geom_def SECTOR_LEN_def)
  obtain f where f: "create_disk_layout 1 (graph_bytes 44 2 0 0 [[1], [0]] @ []) (le32 2 @ le32 4 @ concat [[1, 2, 3, 4], [5, 6, 7, 8]] @ []) None empty_file = Inr (f, empty_file)"
      "read_header f = built_header 1 2 4 2 0 0"
      "\<And>i. i < 2 \<Longrightarrow> node_coords (built_geom 2 4 1) (bf_bytes f) (node_address (built_geom 2 4 1) i) = [[1, 2, 3, 4], [5, 6, 7, 8]] ! i \<and>
         node_nbrs (built_geom 2 4 1) (bf_bytes f) (node_address (built_geom 2 4 1) i) = take 2 ([[1], [0]] ! i)"
    using create_disk_layout_correct [OF i refl _ t, of "[]" 44 "[]"] unfolding Let_def by (auto simp: le32_def)
  then show ?thesis using f(3) [of 1] h by (intro exI [of _ f]) simp
qed

end
