(* ===== verification/Spec2Isabelle.thy ===== *)
theory Spec2Isabelle
  imports Lock_Order Page_Cache Loc_Alloc Prune_Props PQ_Props Beam_Correct Filter_Search Index_Props Dyn_Props Merge_Props Merge_Correct
    Insert_Run Mem_Props Disk_Correct
begin

text \<open>
  This library models a graph index for approximate nearest-neighbor search whose graph and vectors live
  on an SSD and are searched, extended in place and cleaned by merges, together with the in-memory
  index the disk index is built from.  Paths are relative to the directory of the repository.

  The parts and how they fit together.  An \<^verbatim>\<open>SSDIndex\<close> (\<^verbatim>\<open>include/ssd_index.h\<close>) keeps node records (vector,
  degree, neighbor ids) in sectors of a file, their locations in an id-to-location mapping with an
  inverse page layout, a product-quantised code of every vector in memory, and a tag per node.  A search
  reads records through a shared page cache and takes read locks of the ids it visits; an insert
  searches for candidates, prunes them, asks the allocator for locations, rewrites the records of the new
  node and of its neighbors, and leaves the write to the file to a background thread; a merge copies the
  surviving nodes to a new file and reloads it.  \<^verbatim>\<open>DynamicSSDIndex\<close> puts two deletion sets over it.  The
  in-memory \<^verbatim>\<open>Index\<close> (\<^verbatim>\<open>src/index.cpp\<close>) keeps rows and lists in vectors, has tags, lazy deletion,
  consolidation and compaction of its own.

  Shared theories.
  \<^item> \<^verbatim>\<open>Prelude\<close>: truncation of unsigned integers (\<^verbatim>\<open>u32\<close>, \<^verbatim>\<open>u64\<close>), the errors, the result type \<^verbatim>\<open>res\<close> (an
    error or a value) with \<^verbatim>\<open>bindE\<close>, \<^verbatim>\<open>mapE\<close>, \<^verbatim>\<open>foldE\<close>, and list and map lemmas.  \<^verbatim>\<open>Crash\<close> stands for \<^verbatim>\<open>crash()\<close> and failed
    checks, \<^verbatim>\<open>OutOfRange\<close> for an access past a container, \<^verbatim>\<open>OutOfFuel\<close> for a loop cut off, \<^verbatim>\<open>Blocked\<close> for a lock
    that is held.
  \<^item> \<^verbatim>\<open>Float32\<close>: IEEE single precision, exact, with comparisons that are false on NaN.
  \<^item> \<^verbatim>\<open>Byte_Mem\<close>: memory, files and buffers as functions from addresses to bytes.

  The disk index, theory by theory.
  \<^item> \<^verbatim>\<open>Lock_Table\<close>, \<^verbatim>\<open>Lock_Order\<close>: \<^verbatim>\<open>include/v2/lock_table.h\<close> and the helpers that lock several keys.  A locale states
    what a reader-writer lock service promises; a step relation interleaves threads.  Shown: mutual
    exclusion, deadlock freedom of threads that request keys in ascending order, and the deadlock of a
    search that does not.
  \<^item> \<^verbatim>\<open>Conc_Queue\<close>: \<^verbatim>\<open>include/concurrent_queue.h\<close>, with a locale of a queue with a null value.
  \<^item> \<^verbatim>\<open>Disk_Layout\<close>: places of nodes, and \<^verbatim>\<open>DiskNode\<close>; a stored node reads back and its page is otherwise unchanged.
  \<^item> \<^verbatim>\<open>Page_Cache\<close>: \<^verbatim>\<open>include/v2/page_cache.h\<close> and the cached reads and writes of
    \<^verbatim>\<open>src/utils/linux_aligned_file_reader.cpp\<close>.  The abstraction is the page a reader sees, in the cache or in the
    file; a locale states what a store of pages promises.
  \<^item> \<^verbatim>\<open>Loc_Map\<close>, \<^verbatim>\<open>Loc_Alloc\<close>: mapping, page layout, empty pages and the allocator; the invariant is that mapping
    and layout are inverse to each other.
  \<^item> \<^verbatim>\<open>Neighbor\<close>, \<^verbatim>\<open>Prune\<close>, \<^verbatim>\<open>Prune_Props\<close>: \<^verbatim>\<open>include/neighbor.h\<close> and \<^verbatim>\<open>src/utils/prune_neighbors.cpp\<close>.  The
    loops over occlude factors make the greedy selection that tests a candidate against all selected ones.
  \<^item> \<^verbatim>\<open>PQ_Table\<close>, \<^verbatim>\<open>PQ_Props\<close>: \<^verbatim>\<open>include/pq_table.h\<close> and the quantiser of \<^verbatim>\<open>src/ssd_index.cpp\<close>.
  \<^item> \<^verbatim>\<open>Ssd_State\<close>: the members of \<^verbatim>\<open>SSDIndex\<close> as a record, the query buffers, the environment a computation is given.
  \<^item> \<^verbatim>\<open>Beam_Search\<close>, \<^verbatim>\<open>Beam_Props\<close>, \<^verbatim>\<open>Beam_Correct\<close>, \<^verbatim>\<open>Filter_Search\<close>: \<^verbatim>\<open>src/search/beam_search.cpp\<close>.  The invariant says that the
    candidates are distinct, sorted, reached from the entry points, and at their distances; with a list as
    long as the reachable part of the graph the result is exact.
  \<^item> \<^verbatim>\<open>Insert\<close>, \<^verbatim>\<open>Insert_Writes\<close>, \<^verbatim>\<open>Insert_Rewrite\<close>, \<^verbatim>\<open>Insert_Correct\<close>, \<^verbatim>\<open>Insert_Run\<close>: \<^verbatim>\<open>src/update/direct_insert.cpp\<close>.  An insert
    refines adding a node to the graph, and with a turn of the background thread it keeps the index in
    order.
  \<^item> \<^verbatim>\<open>Index_File\<close>, \<^verbatim>\<open>Index_Props\<close>: header, codes and tags on disk, and \<^verbatim>\<open>SSDIndex::load\<close> with the environment
    variables it looks at; what is saved loads again.
  \<^item> \<^verbatim>\<open>Cached_IO\<close>, \<^verbatim>\<open>Disk_Build\<close>, \<^verbatim>\<open>Disk_Correct\<close>: the buffered streams of \<^verbatim>\<open>include/cached_io.h\<close>, shown to be plain ones
    through a locale of a source of bytes, and \<^verbatim>\<open>create_disk_layout\<close> of \<^verbatim>\<open>src/utils/aux_utils.cpp\<close>, which makes the index file:
    the disk index finds every node of the graph in it.
  \<^item> \<^verbatim>\<open>Merge\<close>, \<^verbatim>\<open>Merge_Window\<close>, \<^verbatim>\<open>Merge_Props\<close>, \<^verbatim>\<open>Merge_Correct\<close>: \<^verbatim>\<open>src/update/delete_merge.cpp\<close>.  A merge refines the removal
    of the deleted nodes from the graph, with a renumbering that is one to one.
  \<^item> \<^verbatim>\<open>Dynamic_Index\<close>, \<^verbatim>\<open>Dyn_Props\<close>: \<^verbatim>\<open>src/update/dynamic_index.cpp\<close>.

  The in-memory index (\<^verbatim>\<open>include/index.h\<close>, \<^verbatim>\<open>src/index.cpp\<close>).
  \<^item> \<^verbatim>\<open>Mem_Index\<close>: the members as a record, the greedy search and the searches built on it.
  \<^item> \<^verbatim>\<open>Mem_Update\<close>: pruning, back links, slots, growth, insertion, lazy deletion, consolidation.
  \<^item> \<^verbatim>\<open>Mem_Build\<close>: compaction, entry point, linking and building.
  \<^item> \<^verbatim>\<open>Mem_Search\<close>, \<^verbatim>\<open>Mem_Prune\<close>, \<^verbatim>\<open>Mem_Link\<close>: the search ends at a fixed point; what pruning and back links do to lists.
  \<^item> \<^verbatim>\<open>Mem_Ok\<close>: the invariant \<^verbatim>\<open>mem_ok\<close> (tags and locations inverse to each other, every location used, deleted or
    free, every list in bounds and inside the used locations) and the abstract view \<^verbatim>\<open>vec_of\<close>, a map from tags to rows.
  \<^item> \<^verbatim>\<open>Mem_Grow\<close>, \<^verbatim>\<open>Mem_Insert\<close>, \<^verbatim>\<open>Mem_Consolidate\<close>, \<^verbatim>\<open>Mem_Compact\<close>: each update keeps the invariant and does to the view what
    it should; compaction is an isomorphism of the tagged graph.
  \<^item> \<^verbatim>\<open>Mem_Run\<close>, \<^verbatim>\<open>Mem_Props\<close>: sequences of operations, through a locale of a store that refines an abstract one, and
    the properties.

  Conventions.  Unsigned integers are natural numbers, truncated where the code assigns to a narrower
  type or may wrap; bytes are 8-bit words.  \<^verbatim>\<open>NDEBUG\<close> is defined, so an assertion is not code; what the
  proofs need of it is a hypothesis, and each property with hypotheses is followed by a witness.  Parallel
  loops run in order.  Parameters of the model stand for code that is not in the repository's sources: the
  distance computation, the values of vector elements as floats, the order in which a hash set is
  traversed, fresh memory.

  Bounds.  A search of the disk index gets fuel \<^verbatim>\<open>(n + 1) * (n + 1)\<close> for \<^verbatim>\<open>n\<close> ids in use: a round marks a candidate or
  visits a node.  A search of the in-memory index gets \<^verbatim>\<open>(total + 1) * (L + 1)\<close>: every expansion takes a node not
  expanded before, and at most \<^verbatim>\<open>L\<close> steps lie between two.  The raising of \<^verbatim>\<open>alpha\<close> by \<^verbatim>\<open>1.2f\<close> gets 520 rounds, enough for
  every finite \<^verbatim>\<open>alpha\<close>; for an infinite one it is shown never to end.  The growth of the code array gets the
  number of bytes missing.  Properties that say a loop returns have these bounds as hypotheses, or prove
  them enough.

  Not modelled.  The other searches (\<^verbatim>\<open>src/search/pipe_search.cpp\<close>, \<^verbatim>\<open>coro_search.cpp\<close> and the search loop of \<^verbatim>\<open>page_search.cpp\<close>):
  they run the algorithm of the beam search as pipelines of asynchronous requests; of the pipelined one
  the lock protocol is modelled.  Writing and reading the in-memory index as files, building from shards
  and k-means (the rest of \<^verbatim>\<open>src/utils/aux_utils.cpp\<close>, \<^verbatim>\<open>partition_and_pq.cpp\<close>, \<^verbatim>\<open>math_utils.cpp\<close>): file plumbing around the modelled
  parts, floating-point clustering on a BLAS and random sampling.  Distances (\<^verbatim>\<open>src/utils/distance.cpp\<close>) are
  vector intrinsics whose summation order differs from build to build; the model takes the distance
  as a parameter.  The containers of \<^verbatim>\<open>include/tsl\<close> and \<^verbatim>\<open>include/libcuckoo\<close> are third-party code and are maps and sets
  here.  Logging, timers, statistics, network helpers, the Python binding, test drivers and \<^verbatim>\<open>third_party\<close> have no
  part in what the index stores or returns.  The reader-writer locks of the in-memory index and memory
  models below the lock tables are left out.
\<close>

end
